(* ===== verification/Prelude.thy ===== *)
theory Prelude
  imports Complex_Main "HOL-Library.Word"
begin

unbundle bit_operations_syntax

text \<open>
  Shared vocabulary of the development: the machine integers of the C++ code as
  words, byte buffers as lists of bytes, the conventions for results that may be
  an exception, and the generic facts about words, lists and maps that the
  component theories use.  The collections \<open>wire\<close> (lengths and decodings of
  byte layouts) and \<open>frame\<close> (what an operation leaves alone) are filled by
  the component theories and drive their automation.
\<close>

section \<open>Types\<close>

type_synonym u8 = "8 word"
type_synonym u16 = "16 word"
type_synonym u32 = "32 word"
type_synonym u64 = "64 word"

text \<open>
  \<open>s16\<close>, \<open>s32\<close> are the same bit patterns, read with \<open>sint\<close>.
\<close>

type_synonym s8 = "8 word"
type_synonym s16 = "16 word"
type_synonym s32 = "32 word"
type_synonym s64 = "64 word"

text \<open>\<open>SharedBuffer<u8>\<close>, \<open>Buffer<u8>\<close>, \<open>std::vector<u8>\<close> and byte strings.\<close>

type_synonym bytes = "u8 list"

named_theorems wire \<open>lengths and decodings of byte layouts\<close>
named_theorems frame \<open>parts of a state that an operation leaves unchanged\<close>

section \<open>Writing into a buffer\<close>

text \<open>\<open>memcpy(&d[off], new, new.size())\<close> into a buffer that is long enough.\<close>

definition poke :: "nat \<Rightarrow> bytes \<Rightarrow> bytes \<Rightarrow> bytes" where
  "poke off new d = take off d @ new @ drop (off + length new) d"

lemma length_poke [wire]:
  "off + length new \<le> length d \<Longrightarrow> length (poke off new d) = length d"
  by (simp add: poke_def)

lemma take_poke_before:
  "n \<le> off \<Longrightarrow> off \<le> length d \<Longrightarrow> take n (poke off new d) = take n d"
  by (simp add: poke_def min_def)

lemma drop_poke_at:
  "off \<le> length d \<Longrightarrow> drop off (poke off new d) = new @ drop (off + length new) d"
  by (simp add: poke_def)

lemma drop_poke_after:
  "off + length new \<le> n \<Longrightarrow> off \<le> length d \<Longrightarrow> drop n (poke off new d) = drop n d"
  by (simp add: poke_def)

lemma poke_end: "poke (length d) new d = d @ new"
  by (simp add: poke_def)

section \<open>Words\<close>

lemma unat_sub16:
  "unat (a - b :: u16) = (if b \<le> a then unat a - unat b else unat a + 65536 - unat b)"
  by (simp add: unat_sub_if' word_le_nat_alt)

lemma unat16_lt: "unat (a :: u16) < 65536"
  using unsigned_less [of a] by simp

lemma unat32_lt: "unat (a :: u32) < 4294967296"
  using unsigned_less [of a] by simp

lemma unat8_lt: "unat (a :: u8) < 256"
  using unsigned_less [of a] by simp

lemma unat_of_nat16: "n < 65536 \<Longrightarrow> unat (of_nat n :: u16) = n"
  by (simp add: unsigned_of_nat take_bit_nat_eq_self)

lemma unat_of_nat32: "n < 4294967296 \<Longrightarrow> unat (of_nat n :: u32) = n"
  by (simp add: unsigned_of_nat take_bit_nat_eq_self)

lemma unat_ucast_16_32 [simp]: "unat (ucast (a :: u16) :: u32) = unat a"
  using unat16_lt [of a] by (simp add: unsigned_ucast_eq take_bit_nat_eq_self)

lemma ucast_of_nat_16_32: "n < 65536 \<Longrightarrow> ucast (of_nat n :: u16) = (of_nat n :: u32)"
  by (rule word_unat_eq_iff [THEN iffD2]) (simp add: unat_of_nat16 unat_of_nat32)

lemma of_nat16_eq_0: "n < 65536 \<Longrightarrow> (of_nat n :: u16) = 0 \<longleftrightarrow> n = 0"
  by (auto simp: word_of_nat_eq_0_iff dest: nat_dvd_not_less)

lemma of_nat32_eq_0: "n < 4294967296 \<Longrightarrow> (of_nat n :: u32) = 0 \<longleftrightarrow> n = 0"
  by (auto simp: word_of_nat_eq_0_iff dest: nat_dvd_not_less)

lemma unat_succ16: "unat (a + 1 :: u16) = (if unat a = 65535 then 0 else unat a + 1)"
proof -
  have "unat (a + 1) = (unat a + 1) mod 65536"
    by (simp add: unat_word_ariths)
  with unat16_lt [of a] show ?thesis by auto
qed

lemma and_0xFF: "(x :: 'a::len word) AND 0xFF = take_bit 8 x"
  by (simp add: take_bit_eq_mask mask_eq_exp_minus_1)

section \<open>Lists\<close>

lemma list_all_take: "list_all P xs \<Longrightarrow> list_all P (take n xs)"
  by (auto simp: list_all_iff dest: in_set_takeD)

lemma list_all_drop: "list_all P xs \<Longrightarrow> list_all P (drop n xs)"
  by (auto simp: list_all_iff dest: in_set_dropD)

section \<open>Computations that may fail\<close>

definition bind_ok :: "'e + 'a \<Rightarrow> ('a \<Rightarrow> 'e + 'b) \<Rightarrow> 'e + 'b" where
  "bind_ok m f = (case m of Inl e \<Rightarrow> Inl e | Inr a \<Rightarrow> f a)"

lemma bind_ok_simps [simp]: "bind_ok (Inl e) f = Inl e" "bind_ok (Inr a) f = f a"
  by (simp_all add: bind_ok_def)

lemma bind_ok_Inr: "bind_ok m f = Inr b \<longleftrightarrow> (\<exists>a. m = Inr a \<and> f a = Inr b)"
  by (cases m) auto

lemma bind_ok_cong [fundef_cong]:
  "m = m' \<Longrightarrow> (\<And>a. m' = Inr a \<Longrightarrow> f a = f' a) \<Longrightarrow> bind_ok m f = bind_ok m' f'"
  by (cases m') auto

fun fold_ok :: "('x \<Rightarrow> 's \<Rightarrow> 'e + 's) \<Rightarrow> 'x list \<Rightarrow> 's \<Rightarrow> 'e + 's" where
  "fold_ok f [] s = Inr s"
| "fold_ok f (x # xs) s = bind_ok (f x s) (fold_ok f xs)"

lemma fold_ok_invariant:
  assumes "fold_ok f xs s = Inr s'" and "I s"
    and "\<And>x s s'. x \<in> set xs \<Longrightarrow> I s \<Longrightarrow> f x s = Inr s' \<Longrightarrow> I s'"
  shows "I s'"
  using assms by (induction xs arbitrary: s) (auto simp: bind_ok_Inr)

lemma fold_invariant_list:
  assumes "I s" and "\<And>x s. x \<in> set xs \<Longrightarrow> I s \<Longrightarrow> I (f x s)"
  shows "I (fold f xs s)"
  using assms by (induction xs arbitrary: s) auto

end
