(* ===== verification/Serialize.thy ===== *)
theory Serialize
  imports Prelude
begin

text \<open>
  \<open>src/util/serialize.h\<close>, \<open>src/util/serialize.cpp\<close> and \<open>src/util/hex.h\<close>: big-endian
  integers, the stream readers that fail on a short read, and the string encodings
  built on them.  A stream is the list of the bytes still to be read; a reader
  returns the value and the rest, or the \<open>SerializationError\<close> that the code throws.
  The locale \<open>codec\<close> is the contract of every encoder and decoder pair here: what
  was written is read back, and reading stops exactly behind it.
\<close>

section \<open>Big-endian integers\<close>

definition readU8 :: "bytes \<Rightarrow> u8" where
  "readU8 d = d ! 0"

definition readU16 :: "bytes \<Rightarrow> u16" where
  "readU16 d = push_bit 8 (ucast (d ! 0)) OR ucast (d ! 1)"

definition readU32 :: "bytes \<Rightarrow> u32" where
  "readU32 d = push_bit 24 (ucast (d ! 0)) OR push_bit 16 (ucast (d ! 1)) OR
     push_bit 8 (ucast (d ! 2)) OR ucast (d ! 3)"

definition readU64 :: "bytes \<Rightarrow> u64" where
  "readU64 d = push_bit 56 (ucast (d ! 0)) OR push_bit 48 (ucast (d ! 1)) OR
     push_bit 40 (ucast (d ! 2)) OR push_bit 32 (ucast (d ! 3)) OR
     push_bit 24 (ucast (d ! 4)) OR push_bit 16 (ucast (d ! 5)) OR
     push_bit 8 (ucast (d ! 6)) OR ucast (d ! 7)"

definition writeU8 :: "u8 \<Rightarrow> bytes" where
  "writeU8 i = [i]"

definition writeU16 :: "u16 \<Rightarrow> bytes" where
  "writeU16 i = [ucast (drop_bit 8 i AND 0xFF), ucast (i AND 0xFF)]"

definition writeU32 :: "u32 \<Rightarrow> bytes" where
  "writeU32 i = [ucast (drop_bit 24 i AND 0xFF), ucast (drop_bit 16 i AND 0xFF),
     ucast (drop_bit 8 i AND 0xFF), ucast (i AND 0xFF)]"

definition writeU64 :: "u64 \<Rightarrow> bytes" where
  "writeU64 i = [ucast (drop_bit 56 i AND 0xFF), ucast (drop_bit 48 i AND 0xFF),
     ucast (drop_bit 40 i AND 0xFF), ucast (drop_bit 32 i AND 0xFF),
     ucast (drop_bit 24 i AND 0xFF), ucast (drop_bit 16 i AND 0xFF),
     ucast (drop_bit 8 i AND 0xFF), ucast (i AND 0xFF)]"


lemma length_writeU [simp, wire]:
  "length (writeU8 a) = 1" "length (writeU16 b) = 2"
  "length (writeU32 c) = 4" "length (writeU64 d) = 8"
  by (simp_all add: writeU8_def writeU16_def writeU32_def writeU64_def)

lemma readU8_writeU8 [simp, wire]: "readU8 (writeU8 i @ r) = i"
  by (simp add: readU8_def writeU8_def)

lemma readU16_writeU16 [simp, wire]: "readU16 (writeU16 i @ r) = i"
  by (rule bit_word_eqI)
    (auto simp: readU16_def writeU16_def and_0xFF bit_simps)

lemma readU32_writeU32 [simp, wire]: "readU32 (writeU32 i @ r) = i"
proof (rule bit_word_eqI)
  fix n assume "n < LENGTH(32)"
  then show "bit (readU32 (writeU32 i @ r)) n = bit i n"
    by (simp add: readU32_def writeU32_def and_0xFF bit_simps)
      (cases "n < 8"; cases "n < 16"; cases "n < 24"; simp add: less_diff_conv2 not_less)
qed

lemma readU64_writeU64 [simp, wire]: "readU64 (writeU64 i @ r) = i"
proof (rule bit_word_eqI)
  fix n assume "n < LENGTH(64)"
  then show "bit (readU64 (writeU64 i @ r)) n = bit i n"
    by (simp add: readU64_def writeU64_def and_0xFF bit_simps)
      (cases "n < 8"; cases "n < 16"; cases "n < 24"; cases "n < 32"; cases "n < 40";
        cases "n < 48"; cases "n < 56"; simp add: less_diff_conv2 not_less)
qed

text \<open>A read looks at the bytes of its field only.\<close>

lemma readU_take [wire]:
  "1 \<le> n \<Longrightarrow> readU8 (take n d) = readU8 d"
  "2 \<le> n \<Longrightarrow> readU16 (take n d) = readU16 d"
  "4 \<le> n \<Longrightarrow> readU32 (take n d) = readU32 d"
  "8 \<le> n \<Longrightarrow> readU64 (take n d) = readU64 d"
  by (simp_all add: readU8_def readU16_def readU32_def readU64_def)

lemma readU_exact [simp]:
  "readU8 (writeU8 a) = a" "readU16 (writeU16 b) = b"
  "readU32 (writeU32 c) = c" "readU64 (writeU64 d) = d"
  using readU8_writeU8 [of a "[]"] readU16_writeU16 [of b "[]"]
    readU32_writeU32 [of c "[]"] readU64_writeU64 [of d "[]"] by simp_all

text \<open>The signed reads and writes reinterpret the same bits.\<close>

definition readS8 :: "bytes \<Rightarrow> s8" where
  "readS8 d = readU8 d"

definition readS16 :: "bytes \<Rightarrow> s16" where
  "readS16 d = readU16 d"

definition readS32 :: "bytes \<Rightarrow> s32" where
  "readS32 d = readU32 d"

definition readS64 :: "bytes \<Rightarrow> s64" where
  "readS64 d = readU64 d"

definition writeS8 :: "s8 \<Rightarrow> bytes" where
  "writeS8 i = writeU8 i"

definition writeS16 :: "s16 \<Rightarrow> bytes" where
  "writeS16 i = writeU16 i"

definition writeS32 :: "s32 \<Rightarrow> bytes" where
  "writeS32 i = writeU32 i"

definition writeS64 :: "s64 \<Rightarrow> bytes" where
  "writeS64 i = writeU64 i"

lemmas signed_io = readS8_def readS16_def readS32_def readS64_def
  writeS8_def writeS16_def writeS32_def writeS64_def

section \<open>Vectors and colours\<close>

record 'a v2d =
  v2X :: 'a
  v2Y :: 'a

record 'a v3d =
  v3X :: 'a
  v3Y :: 'a
  v3Z :: 'a

definition readV2S16 :: "bytes \<Rightarrow> s16 v2d" where
  "readV2S16 d = \<lparr>v2X = readS16 d, v2Y = readS16 (drop 2 d)\<rparr>"

definition readV3S16 :: "bytes \<Rightarrow> s16 v3d" where
  "readV3S16 d = \<lparr>v3X = readS16 d, v3Y = readS16 (drop 2 d), v3Z = readS16 (drop 4 d)\<rparr>"

definition readV2S32 :: "bytes \<Rightarrow> s32 v2d" where
  "readV2S32 d = \<lparr>v2X = readS32 d, v2Y = readS32 (drop 4 d)\<rparr>"

definition readV3S32 :: "bytes \<Rightarrow> s32 v3d" where
  "readV3S32 d = \<lparr>v3X = readS32 d, v3Y = readS32 (drop 4 d), v3Z = readS32 (drop 8 d)\<rparr>"

definition readARGB8 :: "bytes \<Rightarrow> u32" where
  "readARGB8 d = readU32 d"

definition writeV2S16 :: "s16 v2d \<Rightarrow> bytes" where
  "writeV2S16 p = writeS16 (v2X p) @ writeS16 (v2Y p)"

definition writeV3S16 :: "s16 v3d \<Rightarrow> bytes" where
  "writeV3S16 p = writeS16 (v3X p) @ writeS16 (v3Y p) @ writeS16 (v3Z p)"

definition writeV2S32 :: "s32 v2d \<Rightarrow> bytes" where
  "writeV2S32 p = writeS32 (v2X p) @ writeS32 (v2Y p)"

definition writeV3S32 :: "s32 v3d \<Rightarrow> bytes" where
  "writeV3S32 p = writeS32 (v3X p) @ writeS32 (v3Y p) @ writeS32 (v3Z p)"

definition writeARGB8 :: "u32 \<Rightarrow> bytes" where
  "writeARGB8 c = writeU32 c"

lemma length_writeV [simp, wire]:
  "length (writeV2S16 a) = 4" "length (writeV3S16 b) = 6"
  "length (writeV2S32 c) = 8" "length (writeV3S32 d) = 12" "length (writeARGB8 e) = 4"
  by (simp_all add: writeV2S16_def writeV3S16_def writeV2S32_def writeV3S32_def
      writeARGB8_def signed_io)

lemma readV_writeV [simp, wire]:
  "readV2S16 (writeV2S16 a @ r) = a" "readV3S16 (writeV3S16 b @ r) = b"
  "readV2S32 (writeV2S32 c @ r) = c" "readV3S32 (writeV3S32 d @ r) = d"
  "readARGB8 (writeARGB8 e @ r) = e"
  by (simp_all add: readV2S16_def writeV2S16_def readV3S16_def writeV3S16_def readV2S32_def
      writeV2S32_def readV3S32_def writeV3S32_def readARGB8_def writeARGB8_def signed_io)

section \<open>Streams\<close>

datatype ser_error = SerializationError string

type_synonym 'a stream_reader = "bytes \<Rightarrow> ser_error + ('a \<times> bytes)"

text \<open>\<open>MAKE_STREAM_READ_FXN(T, N, S)\<close>: read \<open>S\<close> bytes, throw at the end of the stream.\<close>

definition stream_read :: "nat \<Rightarrow> (bytes \<Rightarrow> 'a) \<Rightarrow> 'a stream_reader" where
  "stream_read S rd is =
     (if length is < S then Inl (SerializationError ''EOF'')
      else Inr (rd (take S is), drop S is))"

locale codec =
  fixes ok :: "'a \<Rightarrow> bool"
    and enc :: "'a \<Rightarrow> bytes"
    and dec :: "'a stream_reader"
  assumes roundtrip: "ok x \<Longrightarrow> dec (enc x @ r) = Inr (x, r)"
begin

lemma enc_prefix_free:
  assumes "ok x" and "ok y" and "enc x @ r = enc y @ s"
  shows "x = y \<and> r = s"
proof -
  have "dec (enc x @ r) = Inr (x, r)" using assms(1) by (rule roundtrip)
  moreover have "dec (enc x @ r) = Inr (y, s)"
    unfolding assms(3) using assms(2) by (rule roundtrip)
  ultimately show ?thesis by simp
qed

lemma enc_inj: "ok x \<Longrightarrow> ok y \<Longrightarrow> enc x = enc y \<Longrightarrow> x = y"
  using enc_prefix_free [of x y "[]" "[]"] by simp

end

text \<open>Reading a fixed number of values in a loop that stops at the first exception.\<close>

fun read_many :: "nat \<Rightarrow> 'a stream_reader \<Rightarrow> 'a list stream_reader" where
  "read_many 0 rd is = Inr ([], is)"
| "read_many (Suc n) rd is =
     (case rd is of
        Inl e \<Rightarrow> Inl e
      | Inr (x, is') \<Rightarrow>
          (case read_many n rd is' of
             Inl e \<Rightarrow> Inl e
           | Inr (xs, is'') \<Rightarrow> Inr (x # xs, is'')))"

lemma read_many_length: "read_many n rd is = Inr (xs, is') \<Longrightarrow> length xs = n"
  by (induction n arbitrary: "is" xs) (auto split: sum.splits)

context codec
begin

lemma read_many_enc:
  "list_all ok xs \<Longrightarrow> read_many (length xs) dec (concat (map enc xs) @ r) = Inr (xs, r)"
  by (induction xs) (simp_all add: roundtrip)

end

lemma stream_read_enc:
  "length e = S \<Longrightarrow> rd e = x \<Longrightarrow> stream_read S rd (e @ r) = Inr (x, r)"
  by (auto simp: stream_read_def)

interpretation u8_codec: codec "\<lambda>_. True" writeU8 "stream_read 1 readU8"
  by unfold_locales (rule stream_read_enc, simp_all)

interpretation u16_codec: codec "\<lambda>_. True" writeU16 "stream_read 2 readU16"
  by unfold_locales (rule stream_read_enc, simp_all)

interpretation u32_codec: codec "\<lambda>_. True" writeU32 "stream_read 4 readU32"
  by unfold_locales (rule stream_read_enc, simp_all)

interpretation u64_codec: codec "\<lambda>_. True" writeU64 "stream_read 8 readU64"
  by unfold_locales (rule stream_read_enc, simp_all)

interpretation v3s16_codec: codec "\<lambda>_. True" writeV3S16 "stream_read 6 readV3S16"
  by unfold_locales (rule stream_read_enc, simp_all add: readV_writeV(2) [of _ "[]", simplified])

section \<open>Counted strings\<close>

definition STRING_MAX_LEN :: nat where
  "STRING_MAX_LEN = 0xFFFF"

definition WIDE_STRING_MAX_LEN :: nat where
  "WIDE_STRING_MAX_LEN = 0xFFFF"

definition LONG_STRING_MAX_LEN :: nat where
  "LONG_STRING_MAX_LEN = 64 * 1024 * 1024"

lemmas string_limits = STRING_MAX_LEN_def WIDE_STRING_MAX_LEN_def LONG_STRING_MAX_LEN_def

definition serializeString16 :: "bytes \<Rightarrow> ser_error + bytes" where
  "serializeString16 plain =
     (if length plain > STRING_MAX_LEN
      then Inl (SerializationError ''String too long for serializeString16'')
      else Inr (writeU16 (of_nat (length plain)) @ plain))"

definition deSerializeString16 :: "bytes stream_reader" where
  "deSerializeString16 is =
     (if length is < 2
      then Inl (SerializationError ''deSerializeString16: size not read'')
      else let s_size = unat (readU16 (take 2 is)); is' = drop 2 is in
        if s_size = 0 then Inr ([], is')
        else if length is' < s_size
        then Inl (SerializationError ''deSerializeString16: truncated'')
        else Inr (take s_size is', drop s_size is'))"

definition serializeString32 :: "bytes \<Rightarrow> ser_error + bytes" where
  "serializeString32 plain =
     (if length plain > LONG_STRING_MAX_LEN
      then Inl (SerializationError ''String too long for serializeLongString'')
      else Inr (writeU32 (of_nat (length plain)) @ plain))"

definition deSerializeString32 :: "bytes stream_reader" where
  "deSerializeString32 is =
     (if length is < 4
      then Inl (SerializationError ''deSerializeLongString: size not read'')
      else let s_size = unat (readU32 (take 4 is)); is' = drop 4 is in
        if s_size = 0 then Inr ([], is')
        else if s_size > LONG_STRING_MAX_LEN
        then Inl (SerializationError ''deSerializeLongString: string too long'')
        else if length is' < s_size
        then Inl (SerializationError ''deSerializeLongString: truncated'')
        else Inr (take s_size is', drop s_size is'))"

text \<open>The bytes of an encoding that succeeded.\<close>

definition encoded :: "(bytes \<Rightarrow> ser_error + bytes) \<Rightarrow> bytes \<Rightarrow> bytes" where
  "encoded f s = (case f s of Inl _ \<Rightarrow> [] | Inr b \<Rightarrow> b)"

interpretation string16_codec:
  codec "\<lambda>s. length s \<le> STRING_MAX_LEN" "encoded serializeString16" deSerializeString16
proof unfold_locales
  fix s r :: bytes assume "length s \<le> STRING_MAX_LEN"
  then show "deSerializeString16 (encoded serializeString16 s @ r) = Inr (s, r)"
    by (simp add: deSerializeString16_def encoded_def serializeString16_def
        STRING_MAX_LEN_def unat_of_nat16 Let_def)
qed

interpretation string32_codec:
  codec "\<lambda>s. length s \<le> LONG_STRING_MAX_LEN" "encoded serializeString32" deSerializeString32
proof unfold_locales
  fix s r :: bytes assume "length s \<le> LONG_STRING_MAX_LEN"
  then show "deSerializeString32 (encoded serializeString32 s @ r) = Inr (s, r)"
    by (simp add: deSerializeString32_def encoded_def serializeString32_def
        LONG_STRING_MAX_LEN_def unat_of_nat32 Let_def)
qed

section \<open>Arrays of strings\<close>

definition serializeString16Array :: "bytes list \<Rightarrow> ser_error + bytes" where
  "serializeString16Array array =
     (if length array > 0xFFFFFFFF
      then Inl (SerializationError ''serializeString16Array: too many strings'')
      else if list_ex (\<lambda>s. length s > STRING_MAX_LEN) array
      then Inl (SerializationError ''serializeString16Array: string too long'')
      else Inr (writeU32 (of_nat (length array)) @
        concat (map (\<lambda>s. writeU16 (of_nat (length s))) array) @ concat array))"

text \<open>Extracting the contents into the buffers sized in the first loop.\<close>

fun extract_strings :: "nat list \<Rightarrow> bytes list stream_reader" where
  "extract_strings [] is = Inr ([], is)"
| "extract_strings (n # ns) is =
     (if length is < n
      then Inl (SerializationError ''deserializeString16Array: truncated'')
      else case extract_strings ns (drop n is) of
        Inl e \<Rightarrow> Inl e
      | Inr (ss, is') \<Rightarrow> Inr (take n is # ss, is'))"

definition deserializeString16Array :: "bytes list stream_reader" where
  "deserializeString16Array is =
     (case stream_read 4 readU32 is of
        Inl e \<Rightarrow> Inl e
      | Inr (count, is1) \<Rightarrow>
          (case read_many (unat count) (stream_read 2 readU16) is1 of
             Inl e \<Rightarrow> Inl e
           | Inr (sizes, is2) \<Rightarrow> extract_strings (map unat sizes) is2))"

lemma extract_strings_concat:
  "extract_strings (map length ss) (concat ss @ r) = Inr (ss, r)"
  by (induction ss) simp_all

lemma map_sizes:
  "list_all (\<lambda>s. length s \<le> STRING_MAX_LEN) ss \<Longrightarrow>
   map (unat \<circ> (\<lambda>s. of_nat (length s) :: u16)) ss = map length ss"
  by (induction ss) (simp_all add: STRING_MAX_LEN_def unat_of_nat16)

definition string16_array_ok :: "bytes list \<Rightarrow> bool" where
  "string16_array_ok ss \<longleftrightarrow>
     length ss \<le> 0xFFFFFFFF \<and> list_all (\<lambda>s. length s \<le> STRING_MAX_LEN) ss"

interpretation string16_array_codec:
  codec string16_array_ok
    "\<lambda>ss. (case serializeString16Array ss of Inl _ \<Rightarrow> [] | Inr b \<Rightarrow> b)"
    deserializeString16Array
proof unfold_locales
  fix ss :: "bytes list" and r
  assume ok: "string16_array_ok ss"
  let ?sizes = "map (\<lambda>s. of_nat (length s) :: u16) ss"
  have sizes: "read_many (length ss) (stream_read 2 readU16)
      (concat (map writeU16 ?sizes) @ concat ss @ r) = Inr (?sizes, concat ss @ r)"
    using u16_codec.read_many_enc [of ?sizes "concat ss @ r"] by (simp add: list_all_iff)
  have ser: "serializeString16Array ss = Inr (writeU32 (of_nat (length ss)) @
      concat (map writeU16 ?sizes) @ concat ss)"
    using ok by (auto simp: string16_array_ok_def serializeString16Array_def list_ex_iff
        list_all_iff comp_def)
  show "deserializeString16Array
      ((case serializeString16Array ss of Inl _ \<Rightarrow> [] | Inr b \<Rightarrow> b) @ r) = Inr (ss, r)"
    using ok
    by (simp add: ser deserializeString16Array_def u32_codec.roundtrip unat_of_nat32
        string16_array_ok_def sizes [simplified] map_sizes extract_strings_concat)
qed

section \<open>JSON-like strings\<close>

definition hex_chars :: bytes where
  "hex_chars = [48, 49, 50, 51, 52, 53, 54, 55, 56, 57, 97, 98, 99, 100, 101, 102]"

definition hex_encode :: "bytes \<Rightarrow> bytes" where
  "hex_encode data = concat (map (\<lambda>c.
     [hex_chars ! unat (drop_bit 4 (c AND 0xf0)), hex_chars ! unat (c AND 0x0f)]) data)"

text \<open>
  \<open>hex_digit_decode\<close> leaves its output alone on a bad digit: \<open>None\<close> stands for
  the result \<open>false\<close>.  The comparisons are on \<open>char\<close>, which is signed.
\<close>

definition hex_digit_decode :: "u8 \<Rightarrow> u8 option" where
  "hex_digit_decode h =
     (if sint h \<ge> 48 \<and> sint h \<le> 57 then Some (h - 48)
      else if sint h \<ge> 65 \<and> sint h \<le> 70 then Some (h - 65 + 10)
      else if sint h \<ge> 97 \<and> sint h \<le> 102 then Some (h - 97 + 10)
      else None)"

text \<open>One iteration of the loop of \<open>serializeJsonString\<close>.\<close>

definition json_escape_char :: "u8 \<Rightarrow> bytes" where
  "json_escape_char c =
     (if c = 34 then [92, 34]
      else if c = 92 then [92, 92]
      else if c = 8 then [92, 98]
      else if c = 12 then [92, 102]
      else if c = 10 then [92, 110]
      else if c = 13 then [92, 114]
      else if c = 9 then [92, 116]
      else if unat c < 32 \<or> c = 127
      then [92, 117, 48, 48, hex_chars ! unat (drop_bit 4 c), hex_chars ! unat (c AND 0xf)]
      else [c])"

definition serializeJsonString :: "bytes \<Rightarrow> bytes" where
  "serializeJsonString plain = [34] @ concat (map json_escape_char plain) @ [34]"

text \<open>
  The digits of \<open>\uXXXX\<close>: a bad digit leaves the 0 the array was initialised with,
  and the number is cut to the \<open>char\<close> it is stored in.
\<close>

definition json_hexnumber :: "u8 \<Rightarrow> u8 \<Rightarrow> u8 \<Rightarrow> u8 \<Rightarrow> u8" where
  "json_hexnumber a b c d =
     (let v = (\<lambda>x. case hex_digit_decode x of None \<Rightarrow> 0 | Some y \<Rightarrow> (ucast y :: u32)) in
      ucast (push_bit 12 (v a) OR push_bit 8 (v b) OR push_bit 4 (v c) OR v d))"

text \<open>
  The static \<open>deSerializeJsonString\<close> on the text between the quotes.  The code
  writes the result over the part it has already read (\<open>w <= i\<close>), which leaves
  the unread part untouched.
\<close>

fun json_unescape :: "bytes \<Rightarrow> ser_error + bytes" where
  "json_unescape [] = Inr []"
| "json_unescape (c # cs) =
     (if c \<noteq> 92 then map_sum id ((#) c) (json_unescape cs)
      else case cs of
        [] \<Rightarrow> Inl (SerializationError ''JSON string ended prematurely'')
      | c2 # ds \<Rightarrow>
          if c2 = 98 then map_sum id ((#) 8) (json_unescape ds)
          else if c2 = 102 then map_sum id ((#) 12) (json_unescape ds)
          else if c2 = 110 then map_sum id ((#) 10) (json_unescape ds)
          else if c2 = 114 then map_sum id ((#) 13) (json_unescape ds)
          else if c2 = 116 then map_sum id ((#) 9) (json_unescape ds)
          else if c2 = 117 then
            (case ds of
               h1 # h2 # h3 # h4 # es \<Rightarrow>
                 map_sum id ((#) (json_hexnumber h1 h2 h3 h4)) (json_unescape es)
             | _ \<Rightarrow> Inl (SerializationError ''JSON string ended prematurely''))
          else map_sum id ((#) c2) (json_unescape ds))"

text \<open>
  The loop of \<open>deSerializeJsonString(std::istream &)\<close>: everything up to the first
  quote that is not escaped (dropped here; the code keeps and cuts it).
\<close>

fun json_grab :: "bool \<Rightarrow> bytes stream_reader" where
  "json_grab was_backslash [] = Inl (SerializationError ''JSON string ended prematurely'')"
| "json_grab was_backslash (c # is) =
     (if was_backslash then map_sum id (apfst ((#) c)) (json_grab False is)
      else if c = 92 then map_sum id (apfst ((#) c)) (json_grab True is)
      else if c = 34 then Inr ([], is)
      else map_sum id (apfst ((#) c)) (json_grab False is))"

definition deSerializeJsonString :: "bytes stream_reader" where
  "deSerializeJsonString is =
     (case is of
        [] \<Rightarrow> Inl (SerializationError ''JSON string must start with doublequote'')
      | c # is1 \<Rightarrow>
          if c \<noteq> 34 then Inl (SerializationError ''JSON string must start with doublequote'')
          else case json_grab False is1 of
            Inl e \<Rightarrow> Inl e
          | Inr (tmp, is2) \<Rightarrow>
              (case json_unescape tmp of Inl e \<Rightarrow> Inl e | Inr s \<Rightarrow> Inr (s, is2)))"

definition json_needed :: "u8 \<Rightarrow> bool" where
  "json_needed c \<longleftrightarrow> sint c \<le> 0x1f \<or> sint c \<ge> 0x7f \<or> c = 32 \<or> c = 34"

definition serializeJsonStringIfNeeded :: "bytes \<Rightarrow> bytes" where
  "serializeJsonStringIfNeeded s =
     (if list_ex json_needed s then serializeJsonString s else s)"

text \<open>\<open>std::getline(is, tmp, ' ')\<close> followed by \<open>unget\<close> leaves the space in the stream.\<close>

definition deSerializeJsonStringIfNeeded :: "bytes stream_reader" where
  "deSerializeJsonStringIfNeeded is =
     (case is of
        [] \<Rightarrow> Inr ([], [])
      | c # _ \<Rightarrow>
          if c = 34 then deSerializeJsonString is
          else Inr (takeWhile (\<lambda>x. x \<noteq> 32) is, dropWhile (\<lambda>x. x \<noteq> 32) is))"

lemma json_control_hex:
  assumes "unat c < 32 \<or> c = 127"
  shows "json_hexnumber 48 48 (hex_chars ! unat (drop_bit 4 c)) (hex_chars ! unat (c AND 0xf)) = c"
    and "hex_chars ! unat (drop_bit 4 c) \<noteq> 34" and "hex_chars ! unat (drop_bit 4 c) \<noteq> 92"
    and "hex_chars ! unat (c AND 0xf) \<noteq> 34" and "hex_chars ! unat (c AND 0xf) \<noteq> 92"
proof -
  have all: "\<forall>n \<in> set (127 # [0..<32]). let c = (of_nat n :: u8);
      a = hex_chars ! unat (drop_bit 4 c); b = hex_chars ! unat (c AND 0xf) in
      json_hexnumber 48 48 a b = c \<and> a \<noteq> 34 \<and> a \<noteq> 92 \<and> b \<noteq> 34 \<and> b \<noteq> 92"
    by code_simp
  have "unat c \<in> set (127 # [0..<32])"
    using assms by auto
  from bspec [OF all this]
  show "json_hexnumber 48 48 (hex_chars ! unat (drop_bit 4 c)) (hex_chars ! unat (c AND 0xf)) = c"
    and "hex_chars ! unat (drop_bit 4 c) \<noteq> 34" and "hex_chars ! unat (drop_bit 4 c) \<noteq> 92"
    and "hex_chars ! unat (c AND 0xf) \<noteq> 34" and "hex_chars ! unat (c AND 0xf) \<noteq> 92"
    by (simp_all add: Let_def)
qed

lemma json_unescape_escape:
  "json_unescape (json_escape_char c @ cs) = map_sum id ((#) c) (json_unescape cs)"
  by (simp add: json_escape_char_def json_control_hex)

lemma json_grab_escape:
  "json_grab False (json_escape_char c @ is) =
     map_sum id (apfst ((@) (json_escape_char c))) (json_grab False is)"
  by (cases "json_grab False is") (auto simp: json_escape_char_def json_control_hex)

lemma json_unescape_all:
  "json_unescape (concat (map json_escape_char s)) = Inr s"
  by (induction s) (simp_all add: json_unescape_escape)

lemma json_grab_all:
  "json_grab False (concat (map json_escape_char s) @ 34 # r) =
     Inr (concat (map json_escape_char s), r)"
  by (induction s) (simp_all add: json_grab_escape)

interpretation json_codec:
  codec "\<lambda>_. True" serializeJsonString deSerializeJsonString
  by unfold_locales
    (simp add: deSerializeJsonString_def serializeJsonString_def json_grab_all json_unescape_all)

text \<open>
  An optional JSON string is read back when a space or the end of the stream follows:
  this is the separator contract of the code that uses it.
\<close>

lemma plain_word_getline:
  assumes "\<not> list_ex json_needed s" and "r = [] \<or> hd r = 32"
  shows "takeWhile (\<lambda>x. x \<noteq> 32) (s @ r) = s" and "dropWhile (\<lambda>x. x \<noteq> 32) (s @ r) = r"
proof -
  have "\<forall>x \<in> set s. x \<noteq> 32" using assms(1) by (auto simp: list_ex_iff json_needed_def)
  moreover have "takeWhile (\<lambda>x. x \<noteq> 32) r = []" "dropWhile (\<lambda>x. x \<noteq> 32) r = r"
    using assms(2) by (cases r; simp)+
  ultimately show "takeWhile (\<lambda>x. x \<noteq> 32) (s @ r) = s"
    and "dropWhile (\<lambda>x. x \<noteq> 32) (s @ r) = r"
    by (simp_all add: takeWhile_append2 dropWhile_append2)
qed

lemma json_if_needed_roundtrip:
  assumes "r = [] \<or> hd r = 32"
  shows "deSerializeJsonStringIfNeeded (serializeJsonStringIfNeeded s @ r) = Inr (s, r)"
proof (cases "list_ex json_needed s")
  case True
  then have "serializeJsonStringIfNeeded s = serializeJsonString s"
    by (simp add: serializeJsonStringIfNeeded_def)
  moreover have "\<exists>t. serializeJsonString s @ r = 34 # t"
    by (simp add: serializeJsonString_def)
  ultimately show ?thesis
    using json_codec.roundtrip [of s r] by (auto simp: deSerializeJsonStringIfNeeded_def)
next
  case False
  have "hd (s @ r) \<noteq> 34" if "s @ r \<noteq> []"
    using False assms that by (cases s) (auto simp: json_needed_def)
  with False plain_word_getline [OF False assms] show ?thesis
    by (auto simp: deSerializeJsonStringIfNeeded_def serializeJsonStringIfNeeded_def
        split: list.split)
qed

end
