(* ===== verification/NetworkPacket.thy ===== *)
theory NetworkPacket
  imports Serialize
begin

text \<open>
  \<open>src/network/networkpacket.h\<close> and \<open>src/network/networkpacket.cpp\<close>: the buffer
  that game messages are written to and read from.  One offset serves for reading
  and for writing.  An operation returns its value or the \<open>PacketError\<close> it throws,
  together with the packet as it is left, also when it throws half way.
\<close>

section \<open>State\<close>

datatype packet_error = PacketError string

record net_packet =
  m_data :: bytes
  m_datasize :: u32
  m_read_offset :: u32
  m_command :: u16
  m_peer_id :: u16

type_synonym 'a packet_op = "net_packet \<Rightarrow> (packet_error + 'a) \<times> net_packet"

definition newNetworkPacket :: "u16 \<Rightarrow> u16 \<Rightarrow> net_packet" where
  "newNetworkPacket command peer_id =
     \<lparr>m_data = [], m_datasize = 0, m_read_offset = 0, m_command = command,
      m_peer_id = peer_id\<rparr>"

definition clearPacket :: "net_packet \<Rightarrow> net_packet" where
  "clearPacket p =
     p\<lparr>m_data := [], m_datasize := 0, m_read_offset := 0, m_command := 0, m_peer_id := 0\<rparr>"

definition getRemainingBytes :: "net_packet \<Rightarrow> u32" where
  "getRemainingBytes p = m_datasize p - m_read_offset p"

definition hasRemainingBytes :: "net_packet \<Rightarrow> bool" where
  "hasRemainingBytes p \<longleftrightarrow> getRemainingBytes p \<noteq> 0"

definition getRemainingNoCopy :: "net_packet \<Rightarrow> bytes" where
  "getRemainingNoCopy p =
     (let len = getRemainingBytes p in
      if len = 0 then [] else take (unat len) (drop (unat (m_read_offset p)) (m_data p)))"

text \<open>The buffer is as long as the packet says, and the offset is inside it.\<close>

definition packet_ok :: "net_packet \<Rightarrow> bool" where
  "packet_ok p \<longleftrightarrow> length (m_data p) = unat (m_datasize p) \<and> m_read_offset p \<le> m_datasize p"

section \<open>Bounds checks\<close>

definition checkReadOffset :: "net_packet \<Rightarrow> u32 \<Rightarrow> u32 \<Rightarrow> packet_error + u32" where
  "checkReadOffset p from_offset field_size =
     (let end_offset = from_offset + field_size in
      if end_offset > m_datasize p \<or> end_offset < field_size
      then Inl (PacketError ''Reading outside packet'')
      else Inr end_offset)"

text \<open>\<open>std::vector::resize\<close> cuts, or fills up with zeros.\<close>

definition resize_bytes :: "nat \<Rightarrow> bytes \<Rightarrow> bytes" where
  "resize_bytes n d = take n d @ replicate (n - length d) 0"

definition checkDataSize :: "u32 \<Rightarrow> net_packet \<Rightarrow> net_packet" where
  "checkDataSize field_size p =
     (if m_read_offset p + field_size > m_datasize p
      then p\<lparr>m_datasize := m_read_offset p + field_size,
             m_data := resize_bytes (unat (m_read_offset p + field_size)) (m_data p)\<rparr>
      else p)"

definition skip :: "u32 \<Rightarrow> unit packet_op" where
  "skip count p =
     (case checkReadOffset p (m_read_offset p) count of
        Inl e \<Rightarrow> (Inl e, p)
      | Inr end_offset \<Rightarrow> (Inr (), p\<lparr>m_read_offset := end_offset\<rparr>))"

definition seek :: "u32 \<Rightarrow> unit packet_op" where
  "seek position p =
     (case checkReadOffset p position 0 of
        Inl e \<Rightarrow> (Inl e, p)
      | Inr end_offset \<Rightarrow> (Inr (), p\<lparr>m_read_offset := end_offset\<rparr>))"

text \<open>The check has no false positive: it accepts exactly the reads inside the packet.\<close>

lemma checkReadOffset_iff:
  "checkReadOffset p from_offset field_size =
     (if unat from_offset + unat field_size \<le> unat (m_datasize p) then Inr (from_offset + field_size)
      else Inl (PacketError ''Reading outside packet''))"
proof (cases "unat from_offset + unat field_size < 4294967296")
  case True
  then have "unat (from_offset + field_size) = unat from_offset + unat field_size"
    by (simp add: unat_word_ariths)
  then show ?thesis
    by (auto simp: checkReadOffset_def Let_def word_less_nat_alt)
next
  case False
  have "unat (from_offset + field_size) = unat from_offset + unat field_size - 4294967296"
    using False unat32_lt [of from_offset] unat32_lt [of field_size]
    by (simp add: unat_word_ariths mod_if)
  then have "unat (from_offset + field_size) < unat field_size"
    using False unat32_lt [of from_offset] by simp
  moreover have "\<not> unat from_offset + unat field_size \<le> unat (m_datasize p)"
    using False unat32_lt [of "m_datasize p"] by simp
  ultimately show ?thesis
    by (simp add: checkReadOffset_def Let_def word_less_nat_alt)
qed

section \<open>Fields of fixed width\<close>

text \<open>The body that the fixed-width \<open>operator>>\<close> share.\<close>

definition read_field :: "u32 \<Rightarrow> (bytes \<Rightarrow> 'a) \<Rightarrow> 'a packet_op" where
  "read_field n rd p =
     (case checkReadOffset p (m_read_offset p) n of
        Inl e \<Rightarrow> (Inl e, p)
      | Inr _ \<Rightarrow> (Inr (rd (drop (unat (m_read_offset p)) (m_data p))),
                   p\<lparr>m_read_offset := m_read_offset p + n\<rparr>))"

definition get_bool :: "bool packet_op" where
  "get_bool = read_field 1 (\<lambda>d. readU8 d \<noteq> 0)"

definition get_u8 :: "u8 packet_op" where
  "get_u8 = read_field 1 readU8"

definition get_u16 :: "u16 packet_op" where
  "get_u16 = read_field 2 readU16"

definition get_u32 :: "u32 packet_op" where
  "get_u32 = read_field 4 readU32"

definition get_u64 :: "u64 packet_op" where
  "get_u64 = read_field 8 readU64"

definition get_s16 :: "s16 packet_op" where
  "get_s16 = read_field 2 readS16"

definition get_s32 :: "s32 packet_op" where
  "get_s32 = read_field 4 readS32"

definition get_v3s16 :: "s16 v3d packet_op" where
  "get_v3s16 = read_field 6 readV3S16"

definition get_v2s32 :: "s32 v2d packet_op" where
  "get_v2s32 = read_field 8 readV2S32"

definition get_v3s32 :: "s32 v3d packet_op" where
  "get_v3s32 = read_field 12 readV3S32"

definition get_color :: "u32 packet_op" where
  "get_color = read_field 4 readARGB8"

text \<open>The body that the fixed-width \<open>operator<<\<close> share.\<close>

definition write_field :: "bytes \<Rightarrow> net_packet \<Rightarrow> net_packet" where
  "write_field b p =
     (let p1 = checkDataSize (of_nat (length b)) p in
      p1\<lparr>m_data := poke (unat (m_read_offset p1)) b (m_data p1),
         m_read_offset := m_read_offset p1 + of_nat (length b)\<rparr>)"

definition put_bool :: "bool \<Rightarrow> net_packet \<Rightarrow> net_packet" where
  "put_bool src = write_field (writeU8 (if src then 1 else 0))"

definition put_u8 :: "u8 \<Rightarrow> net_packet \<Rightarrow> net_packet" where
  "put_u8 src = write_field (writeU8 src)"

definition put_u16 :: "u16 \<Rightarrow> net_packet \<Rightarrow> net_packet" where
  "put_u16 src = write_field (writeU16 src)"

definition put_u32 :: "u32 \<Rightarrow> net_packet \<Rightarrow> net_packet" where
  "put_u32 src = write_field (writeU32 src)"

definition put_u64 :: "u64 \<Rightarrow> net_packet \<Rightarrow> net_packet" where
  "put_u64 src = write_field (writeU64 src)"

definition put_s16 :: "s16 \<Rightarrow> net_packet \<Rightarrow> net_packet" where
  "put_s16 src = put_u16 src"

definition put_s32 :: "s32 \<Rightarrow> net_packet \<Rightarrow> net_packet" where
  "put_s32 src = put_u32 src"

definition put_v3s16 :: "s16 v3d \<Rightarrow> net_packet \<Rightarrow> net_packet" where
  "put_v3s16 src p = put_s16 (v3Z src) (put_s16 (v3Y src) (put_s16 (v3X src) p))"

definition put_v2s32 :: "s32 v2d \<Rightarrow> net_packet \<Rightarrow> net_packet" where
  "put_v2s32 src p = put_s32 (v2Y src) (put_s32 (v2X src) p)"

definition put_v3s32 :: "s32 v3d \<Rightarrow> net_packet \<Rightarrow> net_packet" where
  "put_v3s32 src p = put_s32 (v3Z src) (put_s32 (v3Y src) (put_s32 (v3X src) p))"

definition put_color :: "u32 \<Rightarrow> net_packet \<Rightarrow> net_packet" where
  "put_color src = write_field (writeU32 src)"

section \<open>Strings\<close>

text \<open>
  \<open>putRawString\<close> and \<open>readRawString\<close>.  The length check comes first and the copy is
  skipped when there is nothing to copy.
\<close>

definition putRawString :: "bytes \<Rightarrow> net_packet \<Rightarrow> net_packet" where
  "putRawString src p =
     (let p1 = checkDataSize (of_nat (length src)) p in
      if length src = 0 then p1
      else p1\<lparr>m_data := poke (unat (m_read_offset p1)) src (m_data p1),
              m_read_offset := m_read_offset p1 + of_nat (length src)\<rparr>)"

definition readRawString :: "u32 \<Rightarrow> bytes packet_op" where
  "readRawString len p =
     (case checkReadOffset p (m_read_offset p) len of
        Inl e \<Rightarrow> (Inl e, p)
      | Inr _ \<Rightarrow>
          if len = 0 then (Inr [], p)
          else (Inr (take (unat len) (drop (unat (m_read_offset p)) (m_data p))),
                p\<lparr>m_read_offset := m_read_offset p + len\<rparr>))"

text \<open>
  \<open>operator>>(std::string &)\<close>: the length is consumed before the contents are checked,
  so a truncated string leaves the offset behind its length.
\<close>

definition get_string :: "bytes packet_op" where
  "get_string p =
     (case checkReadOffset p (m_read_offset p) 2 of
        Inl e \<Rightarrow> (Inl e, p)
      | Inr _ \<Rightarrow>
          let strLen = readU16 (drop (unat (m_read_offset p)) (m_data p));
              p1 = p\<lparr>m_read_offset := m_read_offset p + 2\<rparr> in
          if strLen = 0 then (Inr [], p1)
          else case checkReadOffset p1 (m_read_offset p1) (ucast strLen) of
            Inl e \<Rightarrow> (Inl e, p1)
          | Inr _ \<Rightarrow>
              (Inr (take (unat strLen) (drop (unat (m_read_offset p1)) (m_data p1))),
               p1\<lparr>m_read_offset := m_read_offset p1 + ucast strLen\<rparr>))"

definition put_string :: "bytes \<Rightarrow> unit packet_op" where
  "put_string src p =
     (if length src > STRING_MAX_LEN then (Inl (PacketError ''String too long''), p)
      else (Inr (), putRawString src (put_u16 (of_nat (length src)) p)))"

definition putLongString :: "bytes \<Rightarrow> unit packet_op" where
  "putLongString src p =
     (if length src > LONG_STRING_MAX_LEN then (Inl (PacketError ''String too long''), p)
      else (Inr (), putRawString src (put_u32 (of_nat (length src)) p)))"

definition readLongString :: "bytes packet_op" where
  "readLongString p =
     (case checkReadOffset p (m_read_offset p) 4 of
        Inl e \<Rightarrow> (Inl e, p)
      | Inr _ \<Rightarrow>
          let strLen = readU32 (drop (unat (m_read_offset p)) (m_data p));
              p1 = p\<lparr>m_read_offset := m_read_offset p + 4\<rparr> in
          if strLen = 0 then (Inr [], p1)
          else if unat strLen > LONG_STRING_MAX_LEN
          then (Inl (PacketError ''String too long''), p1)
          else case checkReadOffset p1 (m_read_offset p1) strLen of
            Inl e \<Rightarrow> (Inl e, p1)
          | Inr _ \<Rightarrow>
              (Inr (take (unat strLen) (drop (unat (m_read_offset p1)) (m_data p1))),
               p1\<lparr>m_read_offset := m_read_offset p1 + strLen\<rparr>))"

text \<open>
  Wide strings, for a \<open>wchar_t\<close> of 32 bits (\<open>NEED_SURROGATE_CODING\<close>): code points
  above 0xFFFF travel as surrogate pairs.  \<open>wide_units\<close> is the reading loop over the
  16-bit units that are left, \<open>wide_encode\<close> the units that the writing loop emits for
  one character.
\<close>

fun wide_units :: "nat \<Rightarrow> bytes \<Rightarrow> u32 list" where
  "wide_units 0 d = []"
| "wide_units (Suc n) d =
     (let c = ucast (readU16 d) :: u32 in
      if c \<ge> 0xD800 \<and> c < 0xDC00 \<and> n > 0
      then let c2 = ucast (readU16 (drop 2 d)) :: u32 in
        (0x10000 + (push_bit 10 (c AND 0x3ff) OR (c2 AND 0x3ff))) #
          wide_units (n - 1) (drop 4 d)
      else c # wide_units n (drop 2 d))"

definition get_wstring :: "u32 list packet_op" where
  "get_wstring p =
     (case checkReadOffset p (m_read_offset p) 2 of
        Inl e \<Rightarrow> (Inl e, p)
      | Inr _ \<Rightarrow>
          let strLen = readU16 (drop (unat (m_read_offset p)) (m_data p));
              p1 = p\<lparr>m_read_offset := m_read_offset p + 2\<rparr> in
          if strLen = 0 then (Inr [], p1)
          else case checkReadOffset p1 (m_read_offset p1) (ucast strLen * 2) of
            Inl e \<Rightarrow> (Inl e, p1)
          | Inr _ \<Rightarrow>
              (Inr (wide_units (unat strLen) (drop (unat (m_read_offset p1)) (m_data p1))),
               p1\<lparr>m_read_offset := m_read_offset p1 + ucast strLen * 2\<rparr>))"

definition wide_encode :: "u32 \<Rightarrow> u16 list" where
  "wide_encode c =
     (if c > 0xffff
      then let n = c - 0x10000 in
        [ucast (0xD800 OR drop_bit 10 n), ucast (0xDC00 OR (n AND 0x3ff))]
      else [ucast c])"

definition put_wstring :: "u32 list \<Rightarrow> unit packet_op" where
  "put_wstring src p =
     (if length src > WIDE_STRING_MAX_LEN then (Inl (PacketError ''String too long''), p)
      else if length src = 0 then (Inr (), put_u16 0 p)
      else
        let len_offset = m_read_offset p;
            units = concat (map wide_encode src);
            p1 = put_u16 0xfff0 p;
            p2 = fold put_u16 units p1 in
        if length units > WIDE_STRING_MAX_LEN
        then (Inl (PacketError ''String too long''), p2)
        else (Inr (), p2\<lparr>m_data :=
          poke (unat len_offset) (writeU16 (of_nat (length units))) (m_data p2)\<rparr>))"

section \<open>Moving a packet over the network\<close>

text \<open>
  \<open>putRawPacket\<close> splits the command off.  Its two assertions (no command set yet, at
  least two bytes) are \<open>None\<close> here.  It keeps the offset, as the code does.
\<close>

definition putRawPacket :: "bytes \<Rightarrow> u16 \<Rightarrow> net_packet \<Rightarrow> net_packet option" where
  "putRawPacket data peer_id p =
     (if m_command p \<noteq> 0 \<or> length data < 2 then None
      else Some (p\<lparr>m_datasize := of_nat (length data) - 2, m_peer_id := peer_id,
                   m_data := drop 2 data, m_command := readU16 data\<rparr>))"

definition oldForgePacket :: "net_packet \<Rightarrow> bytes option" where
  "oldForgePacket p =
     (if m_command p = 0 then (if m_datasize p = 0 then Some [] else None)
      else Some (writeU16 (m_command p) @ take (unat (m_datasize p)) (m_data p)))"

section \<open>Writing at the end, reading at the offset\<close>

definition at_end :: "net_packet \<Rightarrow> bool" where
  "at_end p \<longleftrightarrow> packet_ok p \<and> m_read_offset p = m_datasize p"

definition append_bytes :: "bytes \<Rightarrow> net_packet \<Rightarrow> net_packet" where
  "append_bytes b p =
     p\<lparr>m_data := m_data p @ b, m_datasize := m_datasize p + of_nat (length b),
       m_read_offset := m_read_offset p + of_nat (length b)\<rparr>"

definition advance :: "nat \<Rightarrow> net_packet \<Rightarrow> net_packet" where
  "advance n p = p\<lparr>m_read_offset := m_read_offset p + of_nat n\<rparr>"

definition fits :: "net_packet \<Rightarrow> bytes \<Rightarrow> bool" where
  "fits p b \<longleftrightarrow> unat (m_datasize p) + length b < 4294967296"

lemma unat_add_of_nat:
  "unat a + n < 4294967296 \<Longrightarrow> unat (a + of_nat n :: u32) = unat a + n"
  by (simp add: unat_word_ariths unat_of_nat32)

lemma append_bytes_at_end [intro]: "at_end p \<Longrightarrow> fits p b \<Longrightarrow> at_end (append_bytes b p)"
  by (simp add: at_end_def packet_ok_def append_bytes_def fits_def unat_add_of_nat)

lemma append_bytes_append:
  "append_bytes c (append_bytes b p) = append_bytes (b @ c) p"
  by (simp add: append_bytes_def algebra_simps)

lemma append_bytes_Nil [simp]: "append_bytes [] p = p"
  by (simp add: append_bytes_def)

lemma fits_append: "fits p (b @ c) \<Longrightarrow> fits (append_bytes b p) c \<and> fits p b"
  by (simp add: fits_def append_bytes_def unat_add_of_nat)

lemma write_field_at_end [wire]:
  assumes "at_end p" and "fits p b"
  shows "write_field b p = append_bytes b p"
proof (cases "b = []")
  case True
  with assms show ?thesis
    by (simp add: write_field_def checkDataSize_def append_bytes_def poke_def Let_def at_end_def)
next
  case False
  let ?n = "m_datasize p + of_nat (length b)"
  have n: "unat ?n = unat (m_datasize p) + length b"
    using assms(2) by (simp add: fits_def unat_add_of_nat)
  with False have "?n > m_datasize p"
    by (simp add: word_less_nat_alt)
  with assms(1) n show ?thesis
    by (simp add: write_field_def checkDataSize_def append_bytes_def at_end_def packet_ok_def
        resize_bytes_def poke_def Let_def)
qed

lemma putRawString_at_end [wire]:
  assumes "at_end p" and "fits p b"
  shows "putRawString b p = append_bytes b p"
proof (cases "b = []")
  case True
  with assms show ?thesis
    by (simp add: putRawString_def checkDataSize_def at_end_def)
next
  case False
  then have "putRawString b p = write_field b p"
    by (simp add: putRawString_def write_field_def Let_def)
  with assms show ?thesis by (simp add: write_field_at_end)
qed

lemma read_field_at:
  assumes ok: "packet_ok p" and d: "drop (unat (m_read_offset p)) (m_data p) = e @ r"
    and n: "length e = unat n"
  shows "read_field n rd p = (Inr (rd (e @ r)), advance (length e) p)"
proof -
  have "length (e @ r) = length (m_data p) - unat (m_read_offset p)"
    unfolding d [symmetric] by simp
  then have "unat (m_read_offset p) + unat n \<le> unat (m_datasize p)"
    using ok n by (auto simp: packet_ok_def word_le_nat_alt)
  with d n show ?thesis
    by (simp add: read_field_def checkReadOffset_iff advance_def)
qed

lemma advance_ok:
  assumes "packet_ok p" and "drop (unat (m_read_offset p)) (m_data p) = e @ r"
  shows "packet_ok (advance (length e) p)"
    and "drop (unat (m_read_offset (advance (length e) p))) (m_data (advance (length e) p)) = r"
    and "unat (m_read_offset (advance (length e) p)) = unat (m_read_offset p) + length e"
proof -
  have "length (e @ r) = length (m_data p) - unat (m_read_offset p)"
    unfolding assms(2) [symmetric] by simp
  then have le: "unat (m_read_offset p) + length e \<le> unat (m_datasize p)"
    using assms(1) by (auto simp: packet_ok_def word_le_nat_alt)
  then have u: "unat (m_read_offset p + of_nat (length e)) = unat (m_read_offset p) + length e"
    using unat32_lt [of "m_datasize p"] by (intro unat_add_of_nat) simp
  from assms(1) le show "packet_ok (advance (length e) p)"
    by (simp add: advance_def packet_ok_def word_le_nat_alt u)
  have "drop (length e) (drop (unat (m_read_offset p)) (m_data p)) = r"
    unfolding assms(2) by simp
  then show "drop (unat (m_read_offset (advance (length e) p))) (m_data (advance (length e) p)) = r"
    by (simp add: advance_def u add.commute)
  show "unat (m_read_offset (advance (length e) p)) = unat (m_read_offset p) + length e"
    by (simp add: advance_def u)
qed

lemma advance_advance: "advance n (advance m p) = advance (m + n) p"
  by (simp add: advance_def algebra_simps)

text \<open>
  The contract of a field type: \<open>put\<close> at the end of a packet appends the encoding,
  \<open>get\<close> in front of an encoding returns the value and moves behind it.
\<close>

locale packet_field =
  fixes ok :: "'a \<Rightarrow> bool"
    and enc :: "'a \<Rightarrow> bytes"
    and put :: "'a \<Rightarrow> unit packet_op"
    and get :: "'a packet_op"
  assumes put_enc: "ok x \<Longrightarrow> at_end p \<Longrightarrow> fits p (enc x) \<Longrightarrow>
      put x p = (Inr (), append_bytes (enc x) p)"
    and get_enc: "ok x \<Longrightarrow> packet_ok p \<Longrightarrow>
      drop (unat (m_read_offset p)) (m_data p) = enc x @ r \<Longrightarrow>
      get p = (Inr x, advance (length (enc x)) p)"

definition returning :: "(net_packet \<Rightarrow> net_packet) \<Rightarrow> unit packet_op" where
  "returning f p = (Inr (), f p)"

lemma fixed_field:
  assumes "\<And>x p. put x p = write_field (enc x) p" and "\<And>x. length (enc x) = unat n"
    and "\<And>x r. rd (enc x @ r) = x"
  shows "packet_field (\<lambda>_. True) enc (\<lambda>x. returning (put x)) (read_field n rd)"
proof
  fix x p
  assume "at_end p" and "fits p (enc x)"
  then show "returning (put x) p = (Inr (), append_bytes (enc x) p)"
    by (simp add: returning_def assms(1) write_field_at_end)
next
  fix x p r
  assume "packet_ok p" and "drop (unat (m_read_offset p)) (m_data p) = enc x @ r"
  then show "read_field n rd p = (Inr x, advance (length (enc x)) p)"
    by (simp add: read_field_at assms)
qed

interpretation f_bool: packet_field "\<lambda>_. True" "\<lambda>b. writeU8 (if b then 1 else 0)"
  "\<lambda>x. returning (put_bool x)" get_bool
  unfolding get_bool_def by (rule fixed_field) (simp_all add: put_bool_def)

interpretation f_u8: packet_field "\<lambda>_. True" writeU8 "\<lambda>x. returning (put_u8 x)" get_u8
  unfolding get_u8_def by (rule fixed_field) (simp_all add: put_u8_def)

interpretation f_u16: packet_field "\<lambda>_. True" writeU16 "\<lambda>x. returning (put_u16 x)" get_u16
  unfolding get_u16_def by (rule fixed_field) (simp_all add: put_u16_def)

interpretation f_u32: packet_field "\<lambda>_. True" writeU32 "\<lambda>x. returning (put_u32 x)" get_u32
  unfolding get_u32_def by (rule fixed_field) (simp_all add: put_u32_def)

interpretation f_u64: packet_field "\<lambda>_. True" writeU64 "\<lambda>x. returning (put_u64 x)" get_u64
  unfolding get_u64_def by (rule fixed_field) (simp_all add: put_u64_def)

interpretation f_s16: packet_field "\<lambda>_. True" writeS16 "\<lambda>x. returning (put_s16 x)" get_s16
  unfolding get_s16_def
  by (rule fixed_field) (simp_all add: put_s16_def put_u16_def signed_io)

interpretation f_s32: packet_field "\<lambda>_. True" writeS32 "\<lambda>x. returning (put_s32 x)" get_s32
  unfolding get_s32_def
  by (rule fixed_field) (simp_all add: put_s32_def put_u32_def signed_io)

interpretation f_color: packet_field "\<lambda>_. True" writeARGB8 "\<lambda>x. returning (put_color x)" get_color
  unfolding get_color_def
  by (rule fixed_field) (simp_all add: put_color_def writeARGB8_def readARGB8_def)

text \<open>A vector is written component by component, which is a single append.\<close>

lemma put_u16_at_end: "at_end p \<Longrightarrow> fits p (writeU16 x) \<Longrightarrow> put_u16 x p = append_bytes (writeU16 x) p"
  by (simp add: put_u16_def write_field_at_end)

lemma put_u32_at_end: "at_end p \<Longrightarrow> fits p (writeU32 x) \<Longrightarrow> put_u32 x p = append_bytes (writeU32 x) p"
  by (simp add: put_u32_def write_field_at_end)

lemma fold_put_u16_at_end:
  "at_end p \<Longrightarrow> fits p (concat (map writeU16 xs)) \<Longrightarrow>
   fold put_u16 xs p = append_bytes (concat (map writeU16 xs)) p"
proof (induction xs arbitrary: p)
  case Nil
  then show ?case by simp
next
  case (Cons x xs)
  from Cons.prems(2) have "fits (append_bytes (writeU16 x) p) (concat (map writeU16 xs))"
    and "fits p (writeU16 x)" using fits_append by simp_all
  with Cons show ?case
    by (simp add: put_u16_at_end append_bytes_at_end append_bytes_append)
qed

lemma fold_put_u32_at_end:
  "at_end p \<Longrightarrow> fits p (concat (map writeU32 xs)) \<Longrightarrow>
   fold put_u32 xs p = append_bytes (concat (map writeU32 xs)) p"
proof (induction xs arbitrary: p)
  case Nil
  then show ?case by simp
next
  case (Cons x xs)
  from Cons.prems(2) have "fits (append_bytes (writeU32 x) p) (concat (map writeU32 xs))"
    and "fits p (writeU32 x)" using fits_append by simp_all
  with Cons show ?case
    by (simp add: put_u32_at_end append_bytes_at_end append_bytes_append)
qed

lemma put_v3s16_at_end:
  "at_end p \<Longrightarrow> fits p (writeV3S16 x) \<Longrightarrow> put_v3s16 x p = append_bytes (writeV3S16 x) p"
  using fold_put_u16_at_end [of p "[v3X x, v3Y x, v3Z x]"]
  by (simp add: put_v3s16_def put_s16_def writeV3S16_def signed_io)

lemma put_v2s32_at_end:
  "at_end p \<Longrightarrow> fits p (writeV2S32 x) \<Longrightarrow> put_v2s32 x p = append_bytes (writeV2S32 x) p"
  using fold_put_u32_at_end [of p "[v2X x, v2Y x]"]
  by (simp add: put_v2s32_def put_s32_def writeV2S32_def signed_io)

lemma put_v3s32_at_end:
  "at_end p \<Longrightarrow> fits p (writeV3S32 x) \<Longrightarrow> put_v3s32 x p = append_bytes (writeV3S32 x) p"
  using fold_put_u32_at_end [of p "[v3X x, v3Y x, v3Z x]"]
  by (simp add: put_v3s32_def put_s32_def writeV3S32_def signed_io)

interpretation f_v3s16: packet_field "\<lambda>_. True" writeV3S16 "\<lambda>x. returning (put_v3s16 x)" get_v3s16
  by unfold_locales
    (simp_all add: returning_def put_v3s16_at_end get_v3s16_def read_field_at)

interpretation f_v2s32: packet_field "\<lambda>_. True" writeV2S32 "\<lambda>x. returning (put_v2s32 x)" get_v2s32
  by unfold_locales
    (simp_all add: returning_def put_v2s32_at_end get_v2s32_def read_field_at)

interpretation f_v3s32: packet_field "\<lambda>_. True" writeV3S32 "\<lambda>x. returning (put_v3s32 x)" get_v3s32
  by unfold_locales
    (simp_all add: returning_def put_v3s32_at_end get_v3s32_def read_field_at)

lemma checkReadOffset_at:
  assumes "packet_ok p" and "drop (unat (m_read_offset p)) (m_data p) = e @ r"
    and "length e = unat n"
  shows "checkReadOffset p (m_read_offset p) n = Inr (m_read_offset p + n)"
  using read_field_at [OF assms, of "\<lambda>_. ()"]
  by (auto simp: read_field_def checkReadOffset_iff split: if_splits)

text \<open>The two checks of a counted string: of its length, then of its contents.\<close>

lemma counted_checks:
  assumes ok: "packet_ok p" and d: "drop (unat (m_read_offset p)) (m_data p) = w @ s @ r"
    and w: "length w = unat wn" and s: "length s = unat sn"
  shows "checkReadOffset p (m_read_offset p) wn = Inr (m_read_offset p + wn)"
    and "checkReadOffset (p\<lparr>m_read_offset := m_read_offset p + wn\<rparr>)
      (m_read_offset p + wn) sn = Inr (m_read_offset p + wn + sn)"
    and "drop (unat (m_read_offset p + wn)) (m_data p) = s @ r"
proof -
  show "checkReadOffset p (m_read_offset p) wn = Inr (m_read_offset p + wn)"
    using ok d w by (rule checkReadOffset_at)
  have adv: "advance (length w) p = p\<lparr>m_read_offset := m_read_offset p + wn\<rparr>"
    by (simp add: advance_def w)
  have ok1: "packet_ok (p\<lparr>m_read_offset := m_read_offset p + wn\<rparr>)"
    and d1: "drop (unat (m_read_offset p + wn)) (m_data p) = s @ r"
    using advance_ok [OF ok d] by (simp_all add: adv)
  show "drop (unat (m_read_offset p + wn)) (m_data p) = s @ r" by (rule d1)
  show "checkReadOffset (p\<lparr>m_read_offset := m_read_offset p + wn\<rparr>)
      (m_read_offset p + wn) sn = Inr (m_read_offset p + wn + sn)"
    using checkReadOffset_at [OF ok1, of s r sn] d1 s by simp
qed

lemma get_string_at:
  assumes ok: "packet_ok p" and len: "length s \<le> STRING_MAX_LEN"
    and d: "drop (unat (m_read_offset p)) (m_data p) = writeU16 (of_nat (length s)) @ s @ r"
  shows "get_string p = (Inr s, advance (2 + length s) p)"
proof -
  have len': "length s < 65536" using len by (simp add: STRING_MAX_LEN_def)
  note checks = counted_checks [OF ok d, of 2 "of_nat (length s)"]
  from len' show ?thesis
    by (auto simp: get_string_def d Let_def advance_def checks unat_of_nat16 unat_of_nat32
        ucast_of_nat_16_32 of_nat16_eq_0 add.assoc)
qed

lemma readLongString_at:
  assumes ok: "packet_ok p" and len: "length s \<le> LONG_STRING_MAX_LEN"
    and d: "drop (unat (m_read_offset p)) (m_data p) = writeU32 (of_nat (length s)) @ s @ r"
  shows "readLongString p = (Inr s, advance (4 + length s) p)"
proof -
  have len': "length s < 4294967296" using len by (simp add: LONG_STRING_MAX_LEN_def)
  note checks = counted_checks [OF ok d, of 4 "of_nat (length s)"]
  from len len' show ?thesis
    by (auto simp: readLongString_def d Let_def advance_def checks unat_of_nat32
        of_nat32_eq_0 add.assoc)
qed

lemma fits_prefix: "fits p (b @ c) \<Longrightarrow> fits p b"
  by (simp add: fits_def)

interpretation f_string: packet_field "\<lambda>s. length s \<le> STRING_MAX_LEN"
  "\<lambda>s. writeU16 (of_nat (length s)) @ s" put_string get_string
proof unfold_locales
  fix s :: bytes and p
  let ?w = "writeU16 (of_nat (length s))"
  assume "length s \<le> STRING_MAX_LEN" and e: "at_end p" and f: "fits p (?w @ s)"
  moreover have "putRawString s (put_u16 (of_nat (length s)) p) = append_bytes (?w @ s) p"
    using e fits_append [OF f]
    by (simp add: put_u16_at_end putRawString_at_end append_bytes_at_end append_bytes_append)
  ultimately show "put_string s p = (Inr (), append_bytes (?w @ s) p)"
    by (simp add: put_string_def)
qed (simp add: get_string_at)

interpretation f_long: packet_field "\<lambda>s. length s \<le> LONG_STRING_MAX_LEN"
  "\<lambda>s. writeU32 (of_nat (length s)) @ s" putLongString readLongString
proof unfold_locales
  fix s :: bytes and p
  let ?w = "writeU32 (of_nat (length s))"
  assume "length s \<le> LONG_STRING_MAX_LEN" and e: "at_end p" and f: "fits p (?w @ s)"
  moreover have "putRawString s (put_u32 (of_nat (length s)) p) = append_bytes (?w @ s) p"
    using e fits_append [OF f]
    by (simp add: put_u32_at_end putRawString_at_end append_bytes_at_end append_bytes_append)
  ultimately show "putLongString s p = (Inr (), append_bytes (?w @ s) p)"
    by (simp add: putLongString_def)
qed (simp add: readLongString_at)

section \<open>Wide strings\<close>

definition wide_ok :: "u32 list \<Rightarrow> bool" where
  "wide_ok src \<longleftrightarrow>
     list_all (\<lambda>c. c < 0x110000 \<and> \<not> (c \<ge> 0xD800 \<and> c < 0xDC00)) src \<and>
     length (concat (map wide_encode src)) \<le> WIDE_STRING_MAX_LEN"

definition wide_bytes :: "u32 list \<Rightarrow> bytes" where
  "wide_bytes src = concat (map writeU16 (concat (map wide_encode src)))"

lemma and_0x3ff: "(x :: 'a::len word) AND 0x3ff = take_bit 10 x"
  by (simp add: take_bit_eq_mask mask_eq_exp_minus_1)

lemma or_low10:
  assumes "x < (1024 :: u32)" and "h = push_bit 10 k"
  shows "h OR x = h + x" and "take_bit 10 (h OR x) = x"
proof -
  have x: "take_bit 10 x = x"
    using assms(1) by (simp add: word_unat_eq_iff unsigned_take_bit_eq take_bit_nat_eq_self word_less_nat_alt)
  then have low: "\<not> bit x i" if "10 \<le> i" for i
    using that by (metis bit_take_bit_iff not_less)
  have "h AND x = 0"
    by (rule bit_word_eqI) (auto simp: assms(2) bit_simps low)
  then show "h OR x = h + x"
    using word_plus_and_or [of h x] by simp
  show "take_bit 10 (h OR x) = x"
    by (rule bit_word_eqI) (auto simp: assms(2) bit_simps low not_le)
qed

lemma ucast_16_32_id: "c < (0x10000 :: u32) \<Longrightarrow> ucast (ucast c :: u16) = c"
  by (rule word_unat_eq_iff [THEN iffD2])
    (simp add: unsigned_ucast_eq unsigned_take_bit_eq take_bit_nat_eq_self word_less_nat_alt)

lemma surrogates:
  assumes "0xffff < c" and "c < (0x110000 :: u32)"
  defines "n \<equiv> c - 0x10000"
  defines "a \<equiv> ucast (ucast (0xD800 OR drop_bit 10 n) :: u16) :: u32"
  defines "b \<equiv> ucast (ucast (0xDC00 OR (n AND 0x3ff)) :: u16) :: u32"
  shows "a \<ge> 0xD800" and "a < 0xDC00"
    and "0x10000 + (push_bit 10 (a AND 0x3ff) OR (b AND 0x3ff)) = c"
proof -
  have "unat n = unat c - 65536"
    using assms(1) by (simp add: n_def unat_sub_if' word_le_nat_alt word_less_nat_alt)
  then have n: "unat n < 1048576"
    using assms(2) unat32_lt by (simp add: word_less_nat_alt)
  have hi: "drop_bit 10 n < 1024"
    using n by (simp add: word_less_nat_alt unsigned_drop_bit_eq drop_bit_eq_div unat_div_distrib)
  have lo: "take_bit 10 n < 1024"
    by (simp add: word_less_nat_alt unsigned_take_bit_eq take_bit_nat_less_exp [of 10, simplified])
  have a1: "0xD800 OR drop_bit 10 n = 0xD800 + drop_bit 10 n"
    and a2: "take_bit 10 (0xD800 OR drop_bit 10 n) = drop_bit 10 n"
    using or_low10 [OF hi, of "0xD800" 54] by simp_all
  have b1: "0xDC00 OR take_bit 10 n = 0xDC00 + take_bit 10 n"
    and b2: "take_bit 10 (0xDC00 OR take_bit 10 n) = take_bit 10 n"
    using or_low10 [OF lo, of "0xDC00" 55] by simp_all
  have ua: "unat (0xD800 + drop_bit 10 n) = 0xD800 + unat (drop_bit 10 n)"
    using hi by (simp add: unat_word_ariths word_less_nat_alt)
  have ub: "unat (0xDC00 + take_bit 10 n) = 0xDC00 + unat (take_bit 10 n)"
    using lo by (simp add: unat_word_ariths word_less_nat_alt)
  have a: "a = 0xD800 OR drop_bit 10 n"
    unfolding a_def a1 using hi by (intro ucast_16_32_id) (simp add: word_less_nat_alt ua)
  have b: "b = 0xDC00 OR take_bit 10 n"
    unfolding b_def and_0x3ff b1 using lo by (intro ucast_16_32_id) (simp add: word_less_nat_alt ub)
  show "a \<ge> 0xD800" and "a < 0xDC00"
    using hi by (simp_all add: a a1 word_le_nat_alt word_less_nat_alt ua)
  have "push_bit 10 (drop_bit 10 n) OR take_bit 10 n = n"
    by (rule bit_word_eqI) (auto simp: bit_simps)
  moreover have "0x10000 + n = c" by (simp add: n_def)
  moreover have "take_bit 10 a = drop_bit 10 n" unfolding a by (rule a2)
  moreover have "take_bit 10 b = take_bit 10 n" unfolding b by (rule b2)
  ultimately show "0x10000 + (push_bit 10 (a AND 0x3ff) OR (b AND 0x3ff)) = c"
    by (simp add: and_0x3ff)
qed

lemma wide_encode_nonempty [simp]: "wide_encode c \<noteq> []"
  by (simp add: wide_encode_def Let_def)

lemma length_wide_encode: "length src \<le> length (concat (map wide_encode src))"
  by (induction src) (simp_all add: wide_encode_def Let_def)

lemma wide_units_encode:
  assumes "list_all (\<lambda>c. c < 0x110000 \<and> \<not> (c \<ge> 0xD800 \<and> c < 0xDC00)) src"
  shows "wide_units (length (concat (map wide_encode src)))
    (concat (map writeU16 (concat (map wide_encode src))) @ r) = src"
  using assms
proof (induction src)
  case Nil
  then show ?case by simp
next
  case (Cons c src)
  show ?case
  proof (cases "c > 0xffff")
    case True
    with Cons surrogates [of c] show ?thesis
      by (simp add: wide_encode_def Let_def)
  next
    case False
    then have "ucast (ucast c :: u16) = c"
      by (intro ucast_16_32_id) (simp add: word_less_nat_alt)
    with False Cons show ?thesis
      by (auto simp: wide_encode_def Let_def)
  qed
qed

lemma length_concat_writeU16 [wire]: "length (concat (map writeU16 us)) = 2 * length us"
  by (induction us) simp_all

lemma get_wstring_at:
  assumes ok: "packet_ok p" and src: "wide_ok src"
    and d: "drop (unat (m_read_offset p)) (m_data p) =
      writeU16 (of_nat (length (concat (map wide_encode src)))) @ wide_bytes src @ r"
  shows "get_wstring p = (Inr src, advance (2 + length (wide_bytes src)) p)"
proof -
  define us where "us = concat (map wide_encode src)"
  have n: "length us < 65536"
    using src by (simp add: wide_ok_def us_def WIDE_STRING_MAX_LEN_def)
  have wb: "wide_bytes src = concat (map writeU16 us)"
    by (simp add: wide_bytes_def us_def)
  have units: "wide_units (length us) (concat (map writeU16 us) @ r) = src"
    using src wide_units_encode [of src r] by (simp add: wide_ok_def us_def)
  have twice: "unat (of_nat (length us) * 2 :: u32) = 2 * length us"
    using n unat_of_nat32 [of "2 * length us"] by (simp add: mult.commute)
  note checks = counted_checks [OF ok d, of 2 "of_nat (length us) * 2"]
  show ?thesis
  proof (cases "us = []")
    case True
    moreover from True have "src = []" by (cases src) (simp_all add: us_def)
    ultimately show ?thesis
      by (simp add: get_wstring_def d Let_def advance_def checks us_def wide_bytes_def)
  next
    case False
    with n show ?thesis
      by (simp add: get_wstring_def d Let_def advance_def checks us_def [symmetric] unat_of_nat16
          ucast_of_nat_16_32 of_nat16_eq_0 units twice wb length_concat_writeU16 add.assoc
          mult.commute)
  qed
qed

lemma put_wstring_at_end:
  assumes src: "wide_ok src" and e: "at_end p"
    and f: "fits p (writeU16 (of_nat (length (concat (map wide_encode src)))) @ wide_bytes src)"
  shows "put_wstring src p = (Inr (), append_bytes
    (writeU16 (of_nat (length (concat (map wide_encode src)))) @ wide_bytes src) p)"
proof (cases "src = []")
  case True
  with e f show ?thesis
    by (simp add: put_wstring_def wide_bytes_def put_u16_at_end fits_append string_limits)
next
  case False
  define us where "us = concat (map wide_encode src)"
  have n: "length us \<le> WIDE_STRING_MAX_LEN"
    using src by (simp add: wide_ok_def us_def)
  have wb: "wide_bytes src = concat (map writeU16 us)"
    by (simp add: wide_bytes_def us_def)
  have f': "fits p (writeU16 0xfff0 @ concat (map writeU16 us))"
    using f by (simp add: fits_def wb)
  have p2: "fold put_u16 us (put_u16 0xfff0 p) =
      append_bytes (writeU16 0xfff0 @ concat (map writeU16 us)) p"
    using e fits_append [OF f']
    by (simp add: put_u16_at_end fold_put_u16_at_end append_bytes_at_end append_bytes_append)
  have "unat (m_read_offset p) = length (m_data p)"
    using e by (simp add: at_end_def packet_ok_def)
  moreover have "length src \<le> WIDE_STRING_MAX_LEN"
    using length_wide_encode [of src] n by (simp add: us_def)
  ultimately show ?thesis
    using n False
    by (simp add: put_wstring_def Let_def us_def [symmetric] p2 wb append_bytes_def poke_def)
qed

interpretation f_wide: packet_field wide_ok
  "\<lambda>s. writeU16 (of_nat (length (concat (map wide_encode s)))) @ wide_bytes s"
  put_wstring get_wstring
  by unfold_locales (simp_all add: put_wstring_at_end get_wstring_at)

section \<open>Messages\<close>

text \<open>
  A message is a sequence of values of the types the packet carries; \<open>put_value\<close>
  and \<open>get_value\<close> pick the operator of the type, as overload resolution does.
\<close>

datatype pkt_value = VBool bool | VU8 u8 | VU16 u16 | VU32 u32 | VU64 u64 | VS16 s16 | VS32 s32
  | VString bytes | VLongString bytes | VWString "u32 list"
  | VV3S16 "s16 v3d" | VV2S32 "s32 v2d" | VV3S32 "s32 v3d" | VColor u32

fun value_ok :: "pkt_value \<Rightarrow> bool" where
  "value_ok (VString s) \<longleftrightarrow> length s \<le> STRING_MAX_LEN"
| "value_ok (VLongString s) \<longleftrightarrow> length s \<le> LONG_STRING_MAX_LEN"
| "value_ok (VWString s) \<longleftrightarrow> wide_ok s"
| "value_ok _ \<longleftrightarrow> True"

fun value_bytes :: "pkt_value \<Rightarrow> bytes" where
  "value_bytes (VBool b) = writeU8 (if b then 1 else 0)"
| "value_bytes (VU8 x) = writeU8 x"
| "value_bytes (VU16 x) = writeU16 x"
| "value_bytes (VU32 x) = writeU32 x"
| "value_bytes (VU64 x) = writeU64 x"
| "value_bytes (VS16 x) = writeS16 x"
| "value_bytes (VS32 x) = writeS32 x"
| "value_bytes (VString s) = writeU16 (of_nat (length s)) @ s"
| "value_bytes (VLongString s) = writeU32 (of_nat (length s)) @ s"
| "value_bytes (VWString s) =
     writeU16 (of_nat (length (concat (map wide_encode s)))) @ wide_bytes s"
| "value_bytes (VV3S16 v) = writeV3S16 v"
| "value_bytes (VV2S32 v) = writeV2S32 v"
| "value_bytes (VV3S32 v) = writeV3S32 v"
| "value_bytes (VColor c) = writeARGB8 c"

fun put_value :: "pkt_value \<Rightarrow> unit packet_op" where
  "put_value (VBool b) = returning (put_bool b)"
| "put_value (VU8 x) = returning (put_u8 x)"
| "put_value (VU16 x) = returning (put_u16 x)"
| "put_value (VU32 x) = returning (put_u32 x)"
| "put_value (VU64 x) = returning (put_u64 x)"
| "put_value (VS16 x) = returning (put_s16 x)"
| "put_value (VS32 x) = returning (put_s32 x)"
| "put_value (VString s) = put_string s"
| "put_value (VLongString s) = putLongString s"
| "put_value (VWString s) = put_wstring s"
| "put_value (VV3S16 v) = returning (put_v3s16 v)"
| "put_value (VV2S32 v) = returning (put_v2s32 v)"
| "put_value (VV3S32 v) = returning (put_v3s32 v)"
| "put_value (VColor c) = returning (put_color c)"

text \<open>Reading a value of the same type as the given one.\<close>

fun get_value :: "pkt_value \<Rightarrow> pkt_value packet_op" where
  "get_value (VBool _) = apfst (map_sum id VBool) \<circ> get_bool"
| "get_value (VU8 _) = apfst (map_sum id VU8) \<circ> get_u8"
| "get_value (VU16 _) = apfst (map_sum id VU16) \<circ> get_u16"
| "get_value (VU32 _) = apfst (map_sum id VU32) \<circ> get_u32"
| "get_value (VU64 _) = apfst (map_sum id VU64) \<circ> get_u64"
| "get_value (VS16 _) = apfst (map_sum id VS16) \<circ> get_s16"
| "get_value (VS32 _) = apfst (map_sum id VS32) \<circ> get_s32"
| "get_value (VString _) = apfst (map_sum id VString) \<circ> get_string"
| "get_value (VLongString _) = apfst (map_sum id VLongString) \<circ> readLongString"
| "get_value (VWString _) = apfst (map_sum id VWString) \<circ> get_wstring"
| "get_value (VV3S16 _) = apfst (map_sum id VV3S16) \<circ> get_v3s16"
| "get_value (VV2S32 _) = apfst (map_sum id VV2S32) \<circ> get_v2s32"
| "get_value (VV3S32 _) = apfst (map_sum id VV3S32) \<circ> get_v3s32"
| "get_value (VColor _) = apfst (map_sum id VColor) \<circ> get_color"

lemmas field_put = f_bool.put_enc f_u8.put_enc f_u16.put_enc f_u32.put_enc f_u64.put_enc
  f_s16.put_enc f_s32.put_enc f_string.put_enc f_long.put_enc f_wide.put_enc
  f_v3s16.put_enc f_v2s32.put_enc f_v3s32.put_enc f_color.put_enc

lemmas field_get = f_bool.get_enc [OF TrueI] f_u8.get_enc [OF TrueI] f_u16.get_enc [OF TrueI] f_u32.get_enc [OF TrueI] f_u64.get_enc [OF TrueI]
  f_s16.get_enc [OF TrueI] f_s32.get_enc [OF TrueI] f_string.get_enc f_long.get_enc f_wide.get_enc
  f_v3s16.get_enc [OF TrueI] f_v2s32.get_enc [OF TrueI] f_v3s32.get_enc [OF TrueI] f_color.get_enc [OF TrueI]

lemma put_value_at_end:
  "value_ok v \<Longrightarrow> at_end p \<Longrightarrow> fits p (value_bytes v) \<Longrightarrow>
   put_value v p = (Inr (), append_bytes (value_bytes v) p)"
  by (cases v) (simp_all add: field_put)

lemma get_value_at:
  assumes "value_ok v" and "packet_ok p"
    and "drop (unat (m_read_offset p)) (m_data p) = value_bytes v @ r"
  shows "get_value v p = (Inr v, advance (length (value_bytes v)) p)"
  using assms by (cases v) (auto dest: field_get)

fun put_values :: "pkt_value list \<Rightarrow> unit packet_op" where
  "put_values [] p = (Inr (), p)"
| "put_values (v # vs) p =
     (case put_value v p of (Inl e, p') \<Rightarrow> (Inl e, p') | (Inr _, p') \<Rightarrow> put_values vs p')"

fun get_values :: "pkt_value list \<Rightarrow> pkt_value list packet_op" where
  "get_values [] p = (Inr [], p)"
| "get_values (v # vs) p =
     (case get_value v p of
        (Inl e, p') \<Rightarrow> (Inl e, p')
      | (Inr x, p') \<Rightarrow> apfst (map_sum id ((#) x)) (get_values vs p'))"

lemma put_values_at_end:
  "list_all value_ok vs \<Longrightarrow> at_end p \<Longrightarrow> fits p (concat (map value_bytes vs)) \<Longrightarrow>
   put_values vs p = (Inr (), append_bytes (concat (map value_bytes vs)) p)"
proof (induction vs arbitrary: p)
  case Nil
  then show ?case by simp
next
  case (Cons v vs)
  from Cons.prems(3) have "fits (append_bytes (value_bytes v) p) (concat (map value_bytes vs))"
    and "fits p (value_bytes v)" using fits_append by simp_all
  with Cons show ?case
    by (simp add: put_value_at_end append_bytes_at_end append_bytes_append)
qed

lemma get_values_at:
  "list_all value_ok vs \<Longrightarrow> packet_ok p \<Longrightarrow>
   drop (unat (m_read_offset p)) (m_data p) = concat (map value_bytes vs) @ r \<Longrightarrow>
   get_values vs p = (Inr vs, advance (length (concat (map value_bytes vs))) p)"
proof (induction vs arbitrary: p)
  case Nil
  then show ?case by (simp add: advance_def)
next
  case (Cons v vs)
  let ?rest = "concat (map value_bytes vs) @ r"
  have d: "drop (unat (m_read_offset p)) (m_data p) = value_bytes v @ ?rest"
    using Cons.prems(3) by simp
  have "get_value v p = (Inr v, advance (length (value_bytes v)) p)"
    using Cons.prems(1,2) d by (simp add: get_value_at)
  moreover have "get_values vs (advance (length (value_bytes v)) p) =
      (Inr vs, advance (length (concat (map value_bytes vs))) (advance (length (value_bytes v)) p))"
    using Cons.prems(1) advance_ok [OF Cons.prems(2) d] by (intro Cons.IH) simp_all
  ultimately show ?case by (simp add: advance_advance)
qed

section \<open>Properties of the packet\<close>

text \<open>
  C1.  A message written into a fresh packet, forged, carried over the network and
  parsed on the other side reads back as the same values, of the same command and
  sender, with nothing left over.
\<close>

theorem message_transfer:
  assumes ok: "list_all value_ok vs" and cmd: "command \<noteq> 0"
    and len: "length (concat (map value_bytes vs)) + 2 < 4294967296"
  shows "\<exists>p wire q r. put_values vs (newNetworkPacket command 0) = (Inr (), p) \<and>
    oldForgePacket p = Some wire \<and>
    putRawPacket wire peer (newNetworkPacket 0 0) = Some q \<and>
    m_command q = command \<and> m_peer_id q = peer \<and>
    get_values vs q = (Inr vs, r) \<and> \<not> hasRemainingBytes r"
proof -
  let ?b = "concat (map value_bytes vs)"
  let ?new = "newNetworkPacket command 0"
  have "at_end ?new" "fits ?new ?b"
    using len by (simp_all add: newNetworkPacket_def at_end_def packet_ok_def fits_def)
  with ok have put: "put_values vs ?new = (Inr (), append_bytes ?b ?new)"
    by (rule put_values_at_end)
  have forge: "oldForgePacket (append_bytes ?b ?new) = Some (writeU16 command @ ?b)"
    using cmd len by (simp add: oldForgePacket_def append_bytes_def newNetworkPacket_def unat_of_nat32)
  define q where "q = (newNetworkPacket 0 0)\<lparr>m_datasize := of_nat (length ?b),
    m_peer_id := peer, m_data := ?b, m_command := command\<rparr>"
  have raw: "putRawPacket (writeU16 command @ ?b) peer (newNetworkPacket 0 0) = Some q"
    by (simp add: putRawPacket_def newNetworkPacket_def q_def)
  have "packet_ok q" "drop (unat (m_read_offset q)) (m_data q) = ?b @ []"
    using len by (simp_all add: q_def newNetworkPacket_def packet_ok_def unat_of_nat32)
  with ok have "get_values vs q = (Inr vs, advance (length ?b) q)"
    by (rule get_values_at)
  moreover have "\<not> hasRemainingBytes (advance (length ?b) q)"
    by (simp add: hasRemainingBytes_def getRemainingBytes_def advance_def q_def newNetworkPacket_def)
  ultimately show ?thesis
    using put forge raw by (auto simp: q_def)
qed

theorem message_transfer_witness:
  "\<exists>p wire q r. put_values [VString [104, 105], VV3S16 \<lparr>v3X = 1, v3Y = -2, v3Z = 3\<rparr>,
       VWString [0x1F600]] (newNetworkPacket 0x29 0) = (Inr (), p) \<and>
    oldForgePacket p = Some wire \<and>
    putRawPacket wire 7 (newNetworkPacket 0 0) = Some q \<and>
    m_command q = 0x29 \<and> m_peer_id q = 7 \<and>
    get_values [VString [104, 105], VV3S16 \<lparr>v3X = 1, v3Y = -2, v3Z = 3\<rparr>, VWString [0x1F600]] q =
      (Inr [VString [104, 105], VV3S16 \<lparr>v3X = 1, v3Y = -2, v3Z = 3\<rparr>, VWString [0x1F600]], r) \<and>
    \<not> hasRemainingBytes r"
  by (rule message_transfer)
    (simp_all add: string_limits wide_ok_def wide_encode_def Let_def wide_bytes_def)

text \<open>
  Reading is safe: an operation on a well-formed packet leaves it well-formed with the
  same contents, never moves backwards, and its outcome does not depend on memory
  behind the packet.
\<close>

definition behind :: "bytes \<Rightarrow> net_packet \<Rightarrow> net_packet" where
  "behind junk p = p\<lparr>m_data := m_data p @ junk\<rparr>"

definition safe_reader :: "'a packet_op \<Rightarrow> bool" where
  "safe_reader get \<longleftrightarrow> (\<forall>p res p' junk. packet_ok p \<longrightarrow> get p = (res, p') \<longrightarrow>
     packet_ok p' \<and> m_data p' = m_data p \<and> m_datasize p' = m_datasize p \<and>
     m_read_offset p \<le> m_read_offset p' \<and> get (behind junk p) = (res, behind junk p'))"

definition local_to :: "nat \<Rightarrow> (bytes \<Rightarrow> 'a) \<Rightarrow> bool" where
  "local_to n rd \<longleftrightarrow> (\<forall>d j. n \<le> length d \<longrightarrow> rd (d @ j) = rd d)"

lemma local_drop:
  assumes "local_to n rd"
  shows "local_to (k + n) (\<lambda>d. rd (drop k d))"
  using assms by (simp add: local_to_def)

lemma local_readU:
  "local_to 1 readU8" "local_to 1 (\<lambda>d. readU8 d \<noteq> 0)" "local_to 2 readU16"
  "local_to 4 readU32" "local_to 8 readU64" "local_to 2 readS16" "local_to 4 readS32"
  "local_to 4 readARGB8"
  by (simp_all add: local_to_def readU8_def readU16_def readU32_def readU64_def signed_io
      readARGB8_def nth_append)

lemma local_readV:
  "local_to 6 readV3S16" "local_to 8 readV2S32" "local_to 12 readV3S32"
  using local_readU(6,7) local_drop [OF local_readU(6), of 2] local_drop [OF local_readU(6), of 4]
    local_drop [OF local_readU(7), of 4] local_drop [OF local_readU(7), of 8]
  by (simp_all add: local_to_def readV3S16_def readV2S32_def readV3S32_def)

lemma local_take: "local_to n (take n)"
  by (simp add: local_to_def)

lemma local_wide_units: "local_to (2 * n) (wide_units n)"
proof -
  have "2 * n \<le> length d \<Longrightarrow> wide_units n (d @ j) = wide_units n d" for n d j
  proof (induction n d rule: wide_units.induct)
    case (1 d)
    then show ?case by simp
  next
    case (2 n d)
    have "readU16 (d @ j) = readU16 d"
      using 2(3) local_readU(3) by (simp add: local_to_def)
    moreover have "readU16 (drop 2 d @ j) = readU16 (drop 2 d)" if "n > 0"
      using 2(3) that local_readU(3) by (simp add: local_to_def)
    ultimately show ?case
      using 2 by (auto simp: Let_def)
  qed
  then show ?thesis by (simp add: local_to_def)
qed

lemma offset_step:
  assumes "packet_ok p" and "checkReadOffset p (m_read_offset p) n = Inr s"
  shows "s = m_read_offset p + n"
    and "packet_ok (p\<lparr>m_read_offset := m_read_offset p + n\<rparr>)"
    and "m_read_offset p \<le> m_read_offset p + n"
    and "unat n \<le> length (drop (unat (m_read_offset p)) (m_data p))"
proof -
  have le: "unat (m_read_offset p) + unat n \<le> unat (m_datasize p)"
    and s: "s = m_read_offset p + n"
    using assms(2) by (auto simp: checkReadOffset_iff split: if_splits)
  have u: "unat (m_read_offset p + n) = unat (m_read_offset p) + unat n"
    using le unat32_lt [of "m_datasize p"] by (simp add: unat_word_ariths)
  show "s = m_read_offset p + n" by (rule s)
  show "packet_ok (p\<lparr>m_read_offset := m_read_offset p + n\<rparr>)"
    and "m_read_offset p \<le> m_read_offset p + n"
    and "unat n \<le> length (drop (unat (m_read_offset p)) (m_data p))"
    using assms(1) le by (simp_all add: packet_ok_def word_le_nat_alt u)
qed

lemma checkReadOffset_behind [simp]:
  "checkReadOffset (behind junk p) = checkReadOffset p"
  by (simp add: behind_def checkReadOffset_def fun_eq_iff)

lemma behind_simps [simp]:
  "m_read_offset (behind junk p) = m_read_offset p"
  "m_data (behind junk p) = m_data p @ junk"
  "(behind junk p)\<lparr>m_read_offset := n\<rparr> = behind junk (p\<lparr>m_read_offset := n\<rparr>)"
  by (simp_all add: behind_def)

lemma drop_offset_append:
  "packet_ok p \<Longrightarrow> drop (unat (m_read_offset p)) (m_data p @ junk) =
     drop (unat (m_read_offset p)) (m_data p) @ junk"
  by (simp add: packet_ok_def word_le_nat_alt)

lemma safe_read_field:
  assumes "local_to (unat n) rd"
  shows "safe_reader (read_field n rd)"
  unfolding safe_reader_def
proof (intro allI impI)
  fix p res p' junk
  assume ok: "packet_ok p" and get: "read_field n rd p = (res, p')"
  show "packet_ok p' \<and> m_data p' = m_data p \<and> m_datasize p' = m_datasize p \<and>
     m_read_offset p \<le> m_read_offset p' \<and> read_field n rd (behind junk p) = (res, behind junk p')"
  proof (cases "checkReadOffset p (m_read_offset p) n")
    case (Inl e)
    with ok get show ?thesis by (auto simp: read_field_def)
  next
    case (Inr s)
    from offset_step [OF ok Inr] assms get Inr show ?thesis
      by (auto simp: read_field_def drop_offset_append [OF ok] local_to_def)
  qed
qed

text \<open>
  Counted reads: a length field, then a body whose size it gives.  \<open>bad\<close> is the extra
  check that \<open>readLongString\<close> makes between the two.
\<close>

definition counted_read ::
  "u32 \<Rightarrow> (bytes \<Rightarrow> u32) \<Rightarrow> (u32 \<Rightarrow> bool) \<Rightarrow> packet_error \<Rightarrow> (u32 \<Rightarrow> bytes \<Rightarrow> 'a) \<Rightarrow> 'a \<Rightarrow> 'a packet_op" where
  "counted_read wn len bad e body none p =
     (case checkReadOffset p (m_read_offset p) wn of
        Inl e \<Rightarrow> (Inl e, p)
      | Inr _ \<Rightarrow>
          let n = len (drop (unat (m_read_offset p)) (m_data p));
              p1 = p\<lparr>m_read_offset := m_read_offset p + wn\<rparr> in
          if n = 0 then (Inr none, p1)
          else if bad n then (Inl e, p1)
          else case checkReadOffset p1 (m_read_offset p1) n of
            Inl e \<Rightarrow> (Inl e, p1)
          | Inr _ \<Rightarrow> (Inr (body n (drop (unat (m_read_offset p1)) (m_data p1))),
                       p1\<lparr>m_read_offset := m_read_offset p1 + n\<rparr>))"

lemma safe_counted_read:
  assumes len: "local_to (unat wn) len" and body: "\<And>n. local_to (unat n) (body n)"
  shows "safe_reader (counted_read wn len bad e body none)"
  unfolding safe_reader_def
proof (intro allI impI)
  fix p res p' junk
  let ?get = "counted_read wn len bad e body none"
  assume ok: "packet_ok p" and get: "?get p = (res, p')"
  show "packet_ok p' \<and> m_data p' = m_data p \<and> m_datasize p' = m_datasize p \<and>
     m_read_offset p \<le> m_read_offset p' \<and> ?get (behind junk p) = (res, behind junk p')"
  proof (cases "checkReadOffset p (m_read_offset p) wn")
    case (Inl e)
    with ok get show ?thesis by (auto simp: counted_read_def)
  next
    case c1: (Inr s)
    note s1 = offset_step [OF ok c1]
    define n where "n = len (drop (unat (m_read_offset p)) (m_data p))"
    define p1 where "p1 = p\<lparr>m_read_offset := m_read_offset p + wn\<rparr>"
    have ok1: "packet_ok p1" and o1: "m_read_offset p1 = m_read_offset p + wn"
      using s1(2) by (simp_all add: p1_def)
    have n: "len (drop (unat (m_read_offset p)) (m_data p @ junk)) = n"
      using len s1(4) by (simp add: drop_offset_append [OF ok] local_to_def n_def)
    show ?thesis
    proof (cases "checkReadOffset p1 (m_read_offset p1) n")
      case (Inl e)
      with get c1 ok1 s1(3) n show ?thesis
        by (auto simp: counted_read_def Let_def n_def [symmetric] p1_def [symmetric] o1
            split: if_splits) (auto simp: p1_def)
    next
      case c2: (Inr t)
      note s2 = offset_step [OF ok1 c2]
      have b: "body n (drop (unat (m_read_offset p1)) (m_data p @ junk)) =
          body n (drop (unat (m_read_offset p1)) (m_data p1))"
        using body [of n] s2(4) drop_offset_append [OF ok1, of junk]
        by (simp add: local_to_def p1_def)
      from get c1 c2 ok1 s1(3) s2 n b show ?thesis
        by (auto simp: counted_read_def Let_def n_def [symmetric] p1_def [symmetric] o1
            split: if_splits) (auto simp: p1_def)
    qed
  qed
qed

lemma ucast_16_32_eq_0: "(ucast (a :: u16) :: u32) = 0 \<longleftrightarrow> a = 0"
  by (metis unat_ucast_16_32 unsigned_0 unsigned_eq_0_iff)

lemma unat_twice_16: "unat (ucast (a :: u16) * 2 :: u32) = 2 * unat a"
  using unat16_lt [of a] by (simp add: unat_word_ariths)

lemma get_string_counted:
  "get_string = counted_read 2 (\<lambda>d. ucast (readU16 d)) (\<lambda>_. False) (PacketError [])
     (\<lambda>n. take (unat n)) []"
  by (rule ext) (simp add: get_string_def counted_read_def Let_def ucast_16_32_eq_0
      split: sum.split)

lemma readLongString_counted:
  "readLongString = counted_read 4 readU32 (\<lambda>n. unat n > LONG_STRING_MAX_LEN)
     (PacketError ''String too long'') (\<lambda>n. take (unat n)) []"
  by (rule ext) (simp add: readLongString_def counted_read_def Let_def split: sum.split)

lemma get_wstring_counted:
  "get_wstring = counted_read 2 (\<lambda>d. ucast (readU16 d) * 2) (\<lambda>_. False) (PacketError [])
     (\<lambda>n. wide_units (unat n div 2)) []"
proof
  fix p
  have zero: "(ucast (a :: u16) * 2 :: u32) = 0 \<longleftrightarrow> a = 0" for a
    using unat_twice_16 [of a] by (metis mult_is_0 unsigned_0 unsigned_eq_0_iff zero_neq_numeral)
  show "get_wstring p = counted_read 2 (\<lambda>d. ucast (readU16 d) * 2) (\<lambda>_. False) (PacketError [])
     (\<lambda>n. wide_units (unat n div 2)) [] p"
    by (simp add: get_wstring_def counted_read_def Let_def zero unat_twice_16 split: sum.split)
qed

lemma local_mono: "local_to n rd \<Longrightarrow> n \<le> m \<Longrightarrow> local_to m rd"
  by (auto simp: local_to_def)

lemma safe_strings:
  "safe_reader get_string" "safe_reader readLongString" "safe_reader get_wstring"
proof -
  show "safe_reader get_string"
    unfolding get_string_counted using local_readU(3)
    by (intro safe_counted_read local_take) (simp add: local_to_def)
  show "safe_reader readLongString"
    unfolding readLongString_counted
    by (intro safe_counted_read local_take) (simp add: local_readU)
  have "local_to (unat n) (wide_units (unat n div 2))" for n :: u32
    by (rule local_mono [OF local_wide_units]) simp
  moreover have "local_to (unat (2 :: u32)) (\<lambda>d. ucast (readU16 d) * 2 :: u32)"
    using local_readU(3) by (simp add: local_to_def)
  ultimately show "safe_reader get_wstring"
    unfolding get_wstring_counted by (intro safe_counted_read)
qed

lemma safe_fixed:
  "safe_reader get_bool" "safe_reader get_u8" "safe_reader get_u16" "safe_reader get_u32"
  "safe_reader get_u64" "safe_reader get_s16" "safe_reader get_s32" "safe_reader get_v3s16"
  "safe_reader get_v2s32" "safe_reader get_v3s32" "safe_reader get_color"
  unfolding get_bool_def get_u8_def get_u16_def get_u32_def get_u64_def get_s16_def get_s32_def
    get_v3s16_def get_v2s32_def get_v3s32_def get_color_def
  by (rule safe_read_field, simp add: local_readU local_readU [simplified] local_readV)+

lemma safe_mapped:
  assumes "safe_reader get"
  shows "safe_reader (apfst (map_sum id f) \<circ> get)"
  unfolding safe_reader_def
proof (intro allI impI)
  fix p res p' junk
  assume ok: "packet_ok p" and g: "(apfst (map_sum id f) \<circ> get) p = (res, p')"
  then obtain r where r: "get p = (r, p')" "res = map_sum id f r"
    by (cases "get p") auto
  from assms ok r(1) have "packet_ok p' \<and> m_data p' = m_data p \<and> m_datasize p' = m_datasize p \<and>
     m_read_offset p \<le> m_read_offset p' \<and> get (behind junk p) = (r, behind junk p')"
    unfolding safe_reader_def by blast
  with r(2) show "packet_ok p' \<and> m_data p' = m_data p \<and> m_datasize p' = m_datasize p \<and>
     m_read_offset p \<le> m_read_offset p' \<and>
     (apfst (map_sum id f) \<circ> get) (behind junk p) = (res, behind junk p')"
    by simp
qed

lemma safe_get_value: "safe_reader (get_value v)"
  by (cases v) (simp_all add: safe_mapped safe_fixed safe_strings)

text \<open>
  C2.  No read of any type leaves the packet: on success and on error alike the packet
  stays well-formed with its contents unchanged, the offset only moves forward, and the
  outcome is the same whatever lies behind the buffer in memory.
\<close>

theorem reads_stay_inside:
  assumes "packet_ok p" and "get_value v p = (res, p')"
  shows "packet_ok p' \<and> m_data p' = m_data p \<and> m_datasize p' = m_datasize p \<and>
    m_read_offset p \<le> m_read_offset p' \<and>
    get_value v (behind junk p) = (res, behind junk p')"
  using safe_get_value [of v] assms unfolding safe_reader_def by blast

theorem reads_stay_inside_witness:
  "let p = \<lparr>m_data = [0, 5, 104], m_datasize = 3, m_read_offset = 0, m_command = 1,
       m_peer_id = 2\<rparr>;
     (res, p') = get_value (VString []) p in
   res = Inl (PacketError ''Reading outside packet'') \<and> packet_ok p' \<and> m_read_offset p' = 2 \<and>
   get_value (VString []) (behind [105, 106, 107, 108] p) = (res, behind [105, 106, 107, 108] p')"
proof -
  define p where "p = \<lparr>m_data = [0, 5, 104], m_datasize = 3, m_read_offset = 0,
    m_command = 1, m_peer_id = 2\<rparr>"
  have ok: "packet_ok p" by (simp add: p_def packet_ok_def)
  have get: "get_value (VString []) p =
      (Inl (PacketError ''Reading outside packet''), p\<lparr>m_read_offset := 2\<rparr>)"
    by (simp add: p_def get_string_def checkReadOffset_iff readU16_def)
  from reads_stay_inside [OF ok get, of "[105, 106, 107, 108]"] get show ?thesis
    unfolding p_def [symmetric] Let_def by (simp add: p_def)
qed

end
