(* ===== verification/Address.thy ===== *)
theory Address
  imports Serialize
begin

text \<open>
  \<open>src/network/address.h\<close> and \<open>src/network/address.cpp\<close>: an address is a family,
  a port, and 16 bytes of storage that the IPv4 and the IPv6 form share (a union, the
  IPv4 address in its first four bytes, in network order).
\<close>

section \<open>State\<close>

datatype addr_family = AF_UNSPEC | AF_INET | AF_INET6

record address =
  m_addr_family :: addr_family
  m_address :: bytes
  m_port :: u16

definition newAddress :: address where
  "newAddress = \<lparr>m_addr_family = AF_UNSPEC, m_address = replicate 16 0, m_port = 0\<rparr>"

section \<open>Operations\<close>

definition setAddress4 :: "u32 \<Rightarrow> address \<Rightarrow> address" where
  "setAddress4 addr a =
     a\<lparr>m_addr_family := AF_INET, m_address := poke 0 (writeU32 addr) (m_address a)\<rparr>"

definition setAddressQuad :: "u8 \<Rightarrow> u8 \<Rightarrow> u8 \<Rightarrow> u8 \<Rightarrow> address \<Rightarrow> address" where
  "setAddressQuad a b c d =
     setAddress4 (push_bit 24 (ucast a) OR push_bit 16 (ucast b) OR push_bit 8 (ucast c) OR ucast d)"

text \<open>The argument is the 16 bytes, or the null pointer.\<close>

definition setAddress6 :: "bytes option \<Rightarrow> address \<Rightarrow> address" where
  "setAddress6 ipv6_bytes a =
     a\<lparr>m_addr_family := AF_INET6,
       m_address := (case ipv6_bytes of Some b \<Rightarrow> take 16 b | None \<Rightarrow> replicate 16 0)\<rparr>"

definition setPort :: "u16 \<Rightarrow> address \<Rightarrow> address" where
  "setPort port a = a\<lparr>m_port := port\<rparr>"

definition Address4 :: "u32 \<Rightarrow> u16 \<Rightarrow> address" where
  "Address4 addr port = setPort port (setAddress4 addr newAddress)"

definition AddressQuad :: "u8 \<Rightarrow> u8 \<Rightarrow> u8 \<Rightarrow> u8 \<Rightarrow> u16 \<Rightarrow> address" where
  "AddressQuad a b c d port = setPort port (setAddressQuad a b c d newAddress)"

definition Address6 :: "bytes option \<Rightarrow> u16 \<Rightarrow> address" where
  "Address6 ipv6_bytes port = setPort port (setAddress6 ipv6_bytes newAddress)"

definition address_eq :: "address \<Rightarrow> address \<Rightarrow> bool" where
  "address_eq a other =
     (if m_addr_family other \<noteq> m_addr_family a \<or> m_port other \<noteq> m_port a then False
      else case m_addr_family a of
        AF_INET \<Rightarrow> take 4 (m_address a) = take 4 (m_address other)
      | AF_INET6 \<Rightarrow> take 16 (m_address a) = take 16 (m_address other)
      | AF_UNSPEC \<Rightarrow> False)"

definition isValid :: "address \<Rightarrow> bool" where
  "isValid a \<longleftrightarrow> m_addr_family a \<noteq> AF_UNSPEC"

definition isIPv6 :: "address \<Rightarrow> bool" where
  "isIPv6 a \<longleftrightarrow> m_addr_family a = AF_INET6"

definition isAny :: "address \<Rightarrow> bool" where
  "isAny a =
     (case m_addr_family a of
        AF_INET \<Rightarrow> take 4 (m_address a) = replicate 4 0
      | AF_INET6 \<Rightarrow> take 16 (m_address a) = replicate 16 0
      | AF_UNSPEC \<Rightarrow> False)"

definition isLocalhost :: "address \<Rightarrow> bool" where
  "isLocalhost a =
     (case m_addr_family a of
        AF_INET6 \<Rightarrow>
          take 16 (m_address a) = [0, 0, 0, 0, 0, 0, 0, 0, 0, 0, 0, 0, 0, 0, 0, 1] \<or>
          take 13 (m_address a) = [0, 0, 0, 0, 0, 0, 0, 0, 0, 0, 0xff, 0xff, 0x7f]
      | AF_INET \<Rightarrow> drop_bit 24 (readU32 (m_address a)) = 0x7f
      | AF_UNSPEC \<Rightarrow> False)"

section \<open>Equality\<close>

lemma address_eq_refl: "address_eq a a \<longleftrightarrow> isValid a"
  by (cases "m_addr_family a") (simp_all add: address_eq_def isValid_def)

lemma address_eq_sym: "address_eq a b \<Longrightarrow> address_eq b a"
  by (cases "m_addr_family a"; cases "m_addr_family b")
    (auto simp: address_eq_def split: if_splits)

lemma address_eq_trans: "address_eq a b \<Longrightarrow> address_eq b c \<Longrightarrow> address_eq a c"
  by (cases "m_addr_family a"; cases "m_addr_family b"; cases "m_addr_family c")
    (auto simp: address_eq_def split: if_splits)

lemma address_eq_valid: "address_eq a b \<Longrightarrow> isValid a \<and> isValid b"
  by (metis address_eq_refl address_eq_sym address_eq_trans)

text \<open>
  What the peer table relies on: on addresses that came from a socket, \<open>==\<close> is an
  equivalence, and an address without a family equals nothing.
\<close>

locale peer_address =
  fixes same :: "'a \<Rightarrow> 'a \<Rightarrow> bool" and valid :: "'a \<Rightarrow> bool"
  assumes same_refl: "same a a \<longleftrightarrow> valid a"
    and same_sym: "same a b \<Longrightarrow> same b a"
    and same_trans: "same a b \<Longrightarrow> same b c \<Longrightarrow> same a c"
begin

lemma same_valid: "same a b \<Longrightarrow> valid a \<and> valid b"
  by (metis same_refl same_sym same_trans)

lemma same_class: "same a b \<Longrightarrow> same a c \<longleftrightarrow> same b c"
  by (metis same_sym same_trans)

end

interpretation addr: peer_address address_eq isValid
  by unfold_locales (fact address_eq_refl address_eq_sym address_eq_trans)+

end
