(* ===== verification/Seqnum.thy ===== *)
theory Seqnum
  imports Prelude
begin

text \<open>
  The sequence number arithmetic of \<open>src/network/mtp/internal.h\<close>: comparison and
  window tests on 16-bit numbers that wrap around, and the facts that turn them into
  distances.  \<open>seqnum_dist base s\<close> is how far \<open>s\<close> lies ahead of \<open>base\<close>.
\<close>

section \<open>Constants\<close>

definition SEQNUM_INITIAL :: u16 where
  "SEQNUM_INITIAL = 65500"

definition SEQNUM_MAX :: nat where
  "SEQNUM_MAX = 65535"

definition MAX_RELIABLE_WINDOW_SIZE :: u16 where
  "MAX_RELIABLE_WINDOW_SIZE = 0x8000"

section \<open>The two tests\<close>

text \<open>The subtractions are on \<open>int\<close>, by integer promotion, so they do not wrap.\<close>

definition seqnum_higher :: "u16 \<Rightarrow> u16 \<Rightarrow> bool" where
  "seqnum_higher totest base =
     (if totest > base
      then (if uint totest - uint base > int (SEQNUM_MAX div 2) then False else True)
      else if uint base - uint totest > int (SEQNUM_MAX div 2) then True else False)"

definition seqnum_in_window :: "u16 \<Rightarrow> u16 \<Rightarrow> u16 \<Rightarrow> bool" where
  "seqnum_in_window seqnum next_seq window_size =
     (let window_start = next_seq;
          window_end = word_of_int ((uint next_seq + uint window_size) mod (int SEQNUM_MAX + 1)) in
      if window_start < window_end then seqnum \<ge> window_start \<and> seqnum < window_end
      else seqnum < window_end \<or> seqnum \<ge> window_start)"

section \<open>Distances\<close>

definition seqnum_dist :: "u16 \<Rightarrow> u16 \<Rightarrow> nat" where
  "seqnum_dist base s = unat (s - base)"

named_theorems seq_arith \<open>sequence number tests as arithmetic on distances\<close>

lemma seqnum_dist_lt: "seqnum_dist base s < 65536"
  by (simp add: seqnum_dist_def unat16_lt)

lemma seqnum_dist_self [simp]: "seqnum_dist s s = 0"
  by (simp add: seqnum_dist_def)

lemma seqnum_dist_0 [simp]: "seqnum_dist base s = 0 \<longleftrightarrow> s = base"
  by (simp add: seqnum_dist_def unat_eq_0)

lemma seqnum_dist_inj: "seqnum_dist base s = seqnum_dist base t \<longleftrightarrow> s = t"
  by (auto simp: seqnum_dist_def word_unat_eq_iff [symmetric])

lemma seqnum_dist_unat:
  "seqnum_dist base s =
     (if unat base \<le> unat s then unat s - unat base else unat s + 65536 - unat base)"
  by (simp add: seqnum_dist_def unat_sub16 word_le_nat_alt)

text \<open>Moving the base one step towards everything that is ahead of it.\<close>

lemma seqnum_dist_succ:
  assumes "s \<noteq> base"
  shows "seqnum_dist (base + 1) s = seqnum_dist base s - 1"
proof -
  have "unat s \<noteq> unat base" using assms by (simp add: word_unat_eq_iff)
  then show ?thesis
    using unat16_lt [of s] unat16_lt [of base] by (simp add: seqnum_dist_unat unat_succ16)
qed

lemma seqnum_dist_succ_self: "seqnum_dist (s + 1) s = 65535"
  using unat16_lt [of s] by (simp add: seqnum_dist_unat unat_succ16)

lemma seqnum_dist_add:
  "seqnum_dist base s + n < 65536 \<Longrightarrow> seqnum_dist base (s + of_nat n) = seqnum_dist base s + n"
proof -
  assume "seqnum_dist base s + n < 65536"
  moreover from this have "unat (of_nat n :: u16) = n" by (simp add: unat_of_nat16)
  moreover have "unat ((s - base) + of_nat n) = (unat (s - base) + unat (of_nat n :: u16)) mod 65536"
    by (simp add: unat_word_ariths)
  moreover have "s + of_nat n - base = (s - base) + of_nat n" by simp
  ultimately show ?thesis
    by (simp only: seqnum_dist_def) simp
qed

lemma seqnum_in_window_dist [seq_arith]:
  "seqnum_in_window s nxt w \<longleftrightarrow> w = 0 \<or> seqnum_dist nxt s < unat w"
proof -
  have "(uint nxt + uint w) mod 65536 = uint (nxt + w)"
    by (simp add: uint_word_ariths)
  then have "word_of_int ((uint nxt + uint w) mod (int SEQNUM_MAX + 1)) = nxt + w"
    by (simp add: SEQNUM_MAX_def)
  moreover have "unat (nxt + w) = (unat nxt + unat w) mod 65536"
    by (simp add: unat_word_ariths)
  moreover have "w = 0 \<longleftrightarrow> unat w = 0"
    by (simp add: unat_eq_0)
  ultimately show ?thesis
    using unat16_lt [of s] unat16_lt [of nxt] unat16_lt [of w]
    by (auto simp: seqnum_in_window_def Let_def seqnum_dist_unat word_less_nat_alt
        word_le_nat_alt mod_if split: if_splits)
qed

lemma seqnum_higher_dist [seq_arith]:
  "seqnum_higher s base \<longleftrightarrow>
     (0 < seqnum_dist base s \<and> seqnum_dist base s < 32768) \<or>
     (seqnum_dist base s = 32768 \<and> s < base)"
proof -
  define a where "a = unat s"
  define b where "b = unat base"
  have "uint s = int a" "uint base = int b" by (simp_all add: a_def b_def)
  then have "seqnum_higher s base \<longleftrightarrow>
      (if b < a then \<not> a - b > 32767 else b - a > 32767)"
    by (simp add: seqnum_higher_def SEQNUM_MAX_def word_less_def) arith
  then have "seqnum_higher s base \<longleftrightarrow>
      (if unat base < unat s then \<not> unat s - unat base > 32767 else unat base - unat s > 32767)"
    by (simp add: a_def b_def)
  then show ?thesis
    using unat16_lt [of s] unat16_lt [of base]
    by (auto simp: seqnum_dist_unat word_less_nat_alt split: if_splits)
qed

section \<open>Properties\<close>

text \<open>
  Any sequence number is classified in exactly one way against the next expected
  one: it is in the receive window, or it is old, or it is too new to be accepted.  So
  the receiver's case distinction is total and its branches exclude each other.
\<close>

theorem seqnum_trichotomy:
  "(seqnum_in_window s nxt MAX_RELIABLE_WINDOW_SIZE \<and> seqnum_dist nxt s < 32768) \<or>
   (\<not> seqnum_in_window s nxt MAX_RELIABLE_WINDOW_SIZE \<and>
    (seqnum_higher s nxt \<noteq> seqnum_higher nxt s) \<and>
    (seqnum_higher s nxt \<longleftrightarrow> seqnum_dist nxt s = 32768 \<and> s < nxt))"
proof -
  have rev_dist: "seqnum_dist s nxt = (if s = nxt then 0 else 65536 - seqnum_dist nxt s)"
    using unat16_lt [of s] unat16_lt [of nxt]
    by (auto simp: seqnum_dist_unat word_unat_eq_iff)
  show ?thesis
  proof (cases "seqnum_dist nxt s < 32768")
    case True
    then show ?thesis
      by (simp add: seq_arith MAX_RELIABLE_WINDOW_SIZE_def)
  next
    case False
    then have "s \<noteq> nxt" by auto
    with False rev_dist seqnum_dist_lt [of nxt s] show ?thesis
      by (auto simp: seq_arith MAX_RELIABLE_WINDOW_SIZE_def word_less_nat_alt word_unat_eq_iff)
  qed
qed

end
