(* ===== verification/Packets.thy ===== *)
theory Packets
  imports Address Seqnum
begin

text \<open>
  The packets of \<open>src/network/mtp\<close>: the constants and the \<open>BufferedPacket\<close> of
  \<open>internal.h\<close>, and the functions of \<open>impl.cpp\<close> that put headers on data: base,
  original, split and reliable.  Sizes are natural numbers with the 32-bit
  arithmetic of the code written out where it can wrap (\<open>makeSplitPacket\<close>).  A
  \<open>sanity_check\<close> that fails aborts the process: \<open>None\<close>.
\<close>

section \<open>Constants\<close>

definition PROTOCOL_ID :: u32 where
  "PROTOCOL_ID = 0x41584953"

definition MAX_UDP_PEERS :: nat where
  "MAX_UDP_PEERS = 65535"

definition BASE_HEADER_SIZE :: nat where
  "BASE_HEADER_SIZE = 7"

definition CHANNEL_COUNT :: nat where
  "CHANNEL_COUNT = 3"

definition ORIGINAL_HEADER_SIZE :: nat where
  "ORIGINAL_HEADER_SIZE = 1"

definition RELIABLE_HEADER_SIZE :: nat where
  "RELIABLE_HEADER_SIZE = 3"

definition PEER_ID_INEXISTENT :: u16 where
  "PEER_ID_INEXISTENT = 0"

definition PEER_ID_SERVER :: u16 where
  "PEER_ID_SERVER = 1"

lemmas packet_sizes = BASE_HEADER_SIZE_def ORIGINAL_HEADER_SIZE_def RELIABLE_HEADER_SIZE_def

datatype packet_type = PACKET_TYPE_CONTROL | PACKET_TYPE_ORIGINAL | PACKET_TYPE_SPLIT
  | PACKET_TYPE_RELIABLE

definition packet_type_code :: "packet_type \<Rightarrow> u8" where
  "packet_type_code t =
     (case t of PACKET_TYPE_CONTROL \<Rightarrow> 0 | PACKET_TYPE_ORIGINAL \<Rightarrow> 1
      | PACKET_TYPE_SPLIT \<Rightarrow> 2 | PACKET_TYPE_RELIABLE \<Rightarrow> 3)"

datatype control_type = CONTROLTYPE_ACK | CONTROLTYPE_SET_PEER_ID | CONTROLTYPE_PING
  | CONTROLTYPE_DISCO | CONTROLTYPE_QUERY_INFO | CONTROLTYPE_SERVER_INFO
  | CONTROLTYPE_QUERY_LINK | CONTROLTYPE_LINK_COOKIE | CONTROLTYPE_LINK_DATA

definition control_type_code :: "control_type \<Rightarrow> u8" where
  "control_type_code c =
     (case c of CONTROLTYPE_ACK \<Rightarrow> 0 | CONTROLTYPE_SET_PEER_ID \<Rightarrow> 1 | CONTROLTYPE_PING \<Rightarrow> 2
      | CONTROLTYPE_DISCO \<Rightarrow> 3 | CONTROLTYPE_QUERY_INFO \<Rightarrow> 4 | CONTROLTYPE_SERVER_INFO \<Rightarrow> 5
      | CONTROLTYPE_QUERY_LINK \<Rightarrow> 6 | CONTROLTYPE_LINK_COOKIE \<Rightarrow> 7 | CONTROLTYPE_LINK_DATA \<Rightarrow> 8)"

lemma packet_type_code_simps [simp]:
  "packet_type_code PACKET_TYPE_CONTROL = 0" "packet_type_code PACKET_TYPE_ORIGINAL = 1"
  "packet_type_code PACKET_TYPE_SPLIT = 2" "packet_type_code PACKET_TYPE_RELIABLE = 3"
  by (simp_all add: packet_type_code_def)

lemma control_type_code_simps [simp]:
  "control_type_code CONTROLTYPE_ACK = 0" "control_type_code CONTROLTYPE_SET_PEER_ID = 1"
  "control_type_code CONTROLTYPE_PING = 2" "control_type_code CONTROLTYPE_DISCO = 3"
  "control_type_code CONTROLTYPE_QUERY_INFO = 4" "control_type_code CONTROLTYPE_SERVER_INFO = 5"
  "control_type_code CONTROLTYPE_QUERY_LINK = 6" "control_type_code CONTROLTYPE_LINK_COOKIE = 7"
  "control_type_code CONTROLTYPE_LINK_DATA = 8"
  by (simp_all add: control_type_code_def)

section \<open>Buffered packets\<close>

text \<open>Seconds are real numbers: the rounding of \<open>float\<close> is not modelled.\<close>

record buffered_packet =
  bp_data :: bytes
  bp_time :: real
  bp_totaltime :: real
  bp_absolute_send_time :: nat
  bp_resend_count :: u32
  bp_address :: address

definition newBufferedPacket :: "bytes \<Rightarrow> address \<Rightarrow> buffered_packet" where
  "newBufferedPacket data a =
     \<lparr>bp_data = data, bp_time = 0, bp_totaltime = 0, bp_absolute_send_time = 2 ^ 64 - 1,
      bp_resend_count = 0, bp_address = a\<rparr>"

definition getSeqnum :: "buffered_packet \<Rightarrow> u16" where
  "getSeqnum p =
     (if length (bp_data p) < BASE_HEADER_SIZE + 3 then 0
      else readU16 (drop (BASE_HEADER_SIZE + 1) (bp_data p)))"

definition setSenderPeerId :: "u16 \<Rightarrow> buffered_packet \<Rightarrow> buffered_packet" where
  "setSenderPeerId new_id p =
     (if length (bp_data p) < BASE_HEADER_SIZE then p
      else p\<lparr>bp_data := poke 4 (writeU16 new_id) (bp_data p)\<rparr>)"

definition makePacket :: "address \<Rightarrow> bytes \<Rightarrow> u32 \<Rightarrow> u16 \<Rightarrow> u8 \<Rightarrow> buffered_packet" where
  "makePacket a data protocol_id sender_peer_id channel =
     newBufferedPacket
       (writeU32 protocol_id @ writeU16 sender_peer_id @ writeU8 channel @ data) a"

definition readPeerId :: "bytes \<Rightarrow> u16" where
  "readPeerId packetdata = readU16 (drop 4 packetdata)"

definition readChannel :: "bytes \<Rightarrow> u8" where
  "readChannel packetdata = readU8 (drop 6 packetdata)"

section \<open>Headers\<close>

definition makeOriginalPacket :: "bytes \<Rightarrow> bytes" where
  "makeOriginalPacket data = writeU8 (packet_type_code PACKET_TYPE_ORIGINAL) @ data"

definition makeReliablePacket :: "bytes \<Rightarrow> u16 \<Rightarrow> bytes" where
  "makeReliablePacket data seqnum =
     writeU8 (packet_type_code PACKET_TYPE_RELIABLE) @ writeU16 seqnum @ data"

definition u32_add :: "nat \<Rightarrow> nat \<Rightarrow> nat" where
  "u32_add a b = (a + b) mod 2 ^ 32"

definition u32_sub :: "nat \<Rightarrow> nat \<Rightarrow> nat" where
  "u32_sub a b = (a + (2 ^ 32 - b mod 2 ^ 32)) mod 2 ^ 32"

text \<open>\<open>data.getSize() - 1\<close> on \<open>size_t\<close>.\<close>

definition last_index :: "bytes \<Rightarrow> nat" where
  "last_index data = (length data + (2 ^ 64 - 1)) mod 2 ^ 64"

text \<open>
  The loop of \<open>makeSplitPacket\<close> from \<open>start\<close> and \<open>chunk_num\<close>: the chunks it still
  pushes, with a zero where the chunk count goes later.  The check on \<open>chunk_num\<close>
  ends the loop at the latest after 65535 rounds.
\<close>

function split_loop :: "bytes \<Rightarrow> nat \<Rightarrow> u16 \<Rightarrow> nat \<Rightarrow> nat \<Rightarrow> bytes list option" where
  "split_loop data maximum_data_size seqnum start chunk_num =
     (let end0 = u32_sub (u32_add start maximum_data_size) 1;
          end1 = (if end0 > last_index data then last_index data mod 2 ^ 32 else end0);
          payload_size = u32_add (u32_sub end1 start) 1;
          chunk = writeU8 (packet_type_code PACKET_TYPE_SPLIT) @ writeU16 seqnum @ writeU16 0 @
            writeU16 (of_nat chunk_num) @ take payload_size (drop start data) in
      if chunk_num < 0xFFFF
      then if end1 \<noteq> last_index data
        then map_option ((#) chunk)
          (split_loop data maximum_data_size seqnum (u32_add end1 1) (chunk_num + 1))
        else Some [chunk]
      else None)"
  by pat_completeness auto
termination
  by (relation "measure (\<lambda>(data, m, s, start, chunk_num). 0xFFFF - chunk_num)") auto

declare split_loop.simps [simp del]

definition makeSplitPacket :: "bytes \<Rightarrow> nat \<Rightarrow> u16 \<Rightarrow> bytes list option" where
  "makeSplitPacket data chunksize_max seqnum =
     map_option (\<lambda>chunks. map (poke 3 (writeU16 (of_nat (length chunks)))) chunks)
       (split_loop data (u32_sub chunksize_max 7) seqnum 0 0)"

text \<open>The second component is the split sequence number afterwards.\<close>

definition makeAutoSplitPacket :: "bytes \<Rightarrow> nat \<Rightarrow> u16 \<Rightarrow> (bytes list \<times> u16) option" where
  "makeAutoSplitPacket data chunksize_max split_seqnum =
     (if length data + 1 > chunksize_max
      then map_option (\<lambda>chunks. (chunks, split_seqnum + 1))
        (makeSplitPacket data chunksize_max split_seqnum)
      else Some ([makeOriginalPacket data], split_seqnum))"

section \<open>Fields of the packets made\<close>

lemma makePacket_size [wire]:
  "length (bp_data (makePacket a data prot peer ch)) = BASE_HEADER_SIZE + length data"
  by (simp add: makePacket_def newBufferedPacket_def packet_sizes)

lemma makePacket_fields [simp]:
  "bp_address (makePacket a data prot peer ch) = a"
  "readPeerId (bp_data (makePacket a data prot peer ch)) = peer"
  "readChannel (bp_data (makePacket a data prot peer ch)) = ch"
  "drop BASE_HEADER_SIZE (bp_data (makePacket a data prot peer ch)) = data"
  by (simp_all add: makePacket_def newBufferedPacket_def readPeerId_def readChannel_def
      packet_sizes)

lemma makePacket_after_header [simp]:
  "drop (BASE_HEADER_SIZE + n) (bp_data (makePacket a data prot peer ch)) = drop n data"
  using drop_drop [of n BASE_HEADER_SIZE "bp_data (makePacket a data prot peer ch)"]
  by (simp add: add.commute)

lemma getSeqnum_makePacket:
  "getSeqnum (makePacket a data prot peer ch) =
     (if length data < 3 then 0 else readU16 (drop 1 data))"
  using makePacket_after_header [of 1 a data prot peer ch]
  by (simp add: getSeqnum_def makePacket_size)

lemma makeReliablePacket_fields [simp]:
  "length (makeReliablePacket data s) = RELIABLE_HEADER_SIZE + length data"
  "readU8 (makeReliablePacket data s) = 3"
  "readU16 (drop (Suc 0) (makeReliablePacket data s)) = s"
  "drop RELIABLE_HEADER_SIZE (makeReliablePacket data s) = data"
  by (simp_all add: makeReliablePacket_def packet_sizes readU8_def writeU8_def numeral_3_eq_3)

lemma getSeqnum_reliable [simp]:
  "getSeqnum (makePacket a (makeReliablePacket data s) prot peer ch) = s"
  by (simp add: getSeqnum_makePacket packet_sizes)

lemma setSenderPeerId_frame [frame, simp]:
  "length (bp_data (setSenderPeerId new_id p)) = length (bp_data p)"
  "bp_address (setSenderPeerId new_id p) = bp_address p"
  "getSeqnum (setSenderPeerId new_id p) = getSeqnum p"
  "drop BASE_HEADER_SIZE (bp_data (setSenderPeerId new_id p)) = drop BASE_HEADER_SIZE (bp_data p)"
  by (simp_all add: setSenderPeerId_def getSeqnum_def packet_sizes length_poke drop_poke_after)

section \<open>Splitting\<close>

text \<open>Reference: cut the data into pieces of \<open>m\<close> bytes, the last one possibly shorter.\<close>

fun chunks_of :: "nat \<Rightarrow> bytes \<Rightarrow> bytes list" where
  "chunks_of m d =
     (if m = 0 \<or> length d \<le> m then [d] else take m d # chunks_of m (drop m d))"

declare chunks_of.simps [simp del]

lemma chunks_of_concat: "concat (chunks_of m d) = d"
  by (induction m d rule: chunks_of.induct) (simp add: chunks_of.simps)

lemma chunks_of_nonempty [simp]: "chunks_of m d \<noteq> []"
  by (subst chunks_of.simps) simp

lemma chunks_of_bound: "0 < m \<Longrightarrow> list_all (\<lambda>c. length c \<le> m) (chunks_of m d)"
proof (induction m d rule: chunks_of.induct)
  case (1 m d)
  then show ?case by (subst chunks_of.simps) auto
qed

definition split_chunk :: "u16 \<Rightarrow> nat \<Rightarrow> nat \<Rightarrow> bytes \<Rightarrow> bytes" where
  "split_chunk seqnum count num part =
     writeU8 (packet_type_code PACKET_TYPE_SPLIT) @ writeU16 seqnum @ writeU16 (of_nat count) @
     writeU16 (of_nat num) @ part"

lemma u32_add_small: "a + b < 4294967296 \<Longrightarrow> u32_add a b = a + b"
  by (simp add: u32_add_def)

lemma u32_sub_small:
  assumes "b \<le> a" and "a < 4294967296"
  shows "u32_sub a b = a - b"
proof -
  have b: "b mod 2 ^ 32 = b" using assms by simp
  have e: "a + (2 ^ 32 - b) = (a - b) + 2 ^ 32" using assms by simp
  have "u32_sub a b = (a - b) mod 2 ^ 32"
    unfolding u32_sub_def b e by (rule mod_add_self2)
  then show ?thesis using assms by simp
qed

lemma last_index_small: "0 < length d \<Longrightarrow> length d < 4294967296 \<Longrightarrow> last_index d = length d - 1"
proof -
  assume "0 < length d" and "length d < 4294967296"
  then have "length d + (2 ^ 64 - 1) = (length d - 1) + 2 ^ 64" by simp
  then have "last_index d = ((length d - 1) + 2 ^ 64) mod 2 ^ 64"
    by (simp only: last_index_def)
  also have "\<dots> = length d - 1"
    using \<open>length d < 4294967296\<close> by simp
  finally show ?thesis .
qed

lemma split_loop_chunks:
  assumes "start < length data" and m: "0 < m" and fit: "length data + m < 4294967296"
  shows "split_loop data m s start n =
    (if n + length (chunks_of m (drop start data)) \<le> 65535
     then Some (map2 (\<lambda>i. split_chunk s 0 i) [n..<n + length (chunks_of m (drop start data))]
       (chunks_of m (drop start data)))
     else None)"
  using assms(1)
proof (induction "65535 - n" arbitrary: n start)
  case 0
  then have "0xFFFF \<le> n" by simp
  moreover obtain c cs where "chunks_of m (drop start data) = c # cs"
    by (cases "chunks_of m (drop start data)") auto
  ultimately show ?case
    by (subst split_loop.simps) (simp add: Let_def)
next
  case (Suc k)
  then have n: "n < 0xFFFF" by simp
  have last: "last_index data = length data - 1"
    using Suc.prems fit by (intro last_index_small) auto
  have end0: "u32_sub (u32_add start m) 1 = start + m - 1"
    using Suc.prems fit m by (simp add: u32_add_small u32_sub_small)
  show ?case
  proof (cases "length data - start \<le> m")
    case True
    then have "chunks_of m (drop start data) = [drop start data]"
      by (subst chunks_of.simps) simp
    moreover have "(length data - 1) mod 4294967296 = length data - 1"
      using Suc.prems fit by simp
    moreover have "start + m - 1 = length data - 1" if "\<not> length data - 1 < start + m - 1"
      using that True Suc.prems by linarith
    moreover have "u32_add (u32_sub (length data - 1) start) 1 = length data - start"
      using Suc.prems fit by (simp add: u32_add_small u32_sub_small)
    ultimately show ?thesis
      using n by (subst split_loop.simps)
        (auto simp: Let_def last end0 split_chunk_def simp del: One_nat_def)
  next
    case False
    then have ch: "chunks_of m (drop start data) =
        take m (drop start data) # chunks_of m (drop (start + m) data)"
      using m by (subst chunks_of.simps) (simp add: add.commute)
    have start': "u32_add (start + m - 1) 1 = start + m"
      using Suc.prems fit m by (simp add: u32_add_small)
    have pay: "u32_add (u32_sub (start + m - 1) start) 1 = m"
      using Suc.prems fit m by (simp add: u32_add_small u32_sub_small)
    have upt: "[n..<Suc (n + L)] = n # [n + 1..<n + 1 + L]" for L
      by (simp add: upt_conv_Cons del: upt_Suc)
    have "split_loop data m s (start + m) (n + 1) =
      (if n + 1 + length (chunks_of m (drop (start + m) data)) \<le> 65535
       then Some (map2 (\<lambda>i. split_chunk s 0 i)
         [n + 1..<n + 1 + length (chunks_of m (drop (start + m) data))]
         (chunks_of m (drop (start + m) data)))
       else None)"
      using False Suc.hyps by (intro Suc.hyps(1)) auto
    moreover have "\<not> start + m - 1 > length data - 1" "start + m - 1 \<noteq> length data - 1"
      using False m by auto
    ultimately show ?thesis
      using n by (subst split_loop.simps)
        (simp add: Let_def last end0 start' pay ch upt split_chunk_def
          del: One_nat_def upt_Suc)
  qed
qed

lemma poke_chunk_count:
  "poke 3 (writeU16 (of_nat c)) (split_chunk s 0 i part) = split_chunk s c i part"
  by (simp add: poke_def split_chunk_def writeU8_def writeU16_def numeral_3_eq_3)

lemma makeSplitPacket_chunks:
  assumes "data \<noteq> []" and "7 < chunksize_max" and "length data + chunksize_max < 4294967296"
  shows "makeSplitPacket data chunksize_max s =
    (let parts = chunks_of (chunksize_max - 7) data; n = length parts in
     if n \<le> 65535 then Some (map2 (split_chunk s n) [0..<n] parts) else None)"
proof -
  define parts where "parts = chunks_of (chunksize_max - 7) data"
  have "u32_sub chunksize_max 7 = chunksize_max - 7"
    using assms by (simp add: u32_sub_small)
  moreover have "split_loop data (chunksize_max - 7) s 0 0 =
      (if length parts \<le> 65535 then Some (map2 (split_chunk s 0) [0..<length parts] parts) else None)"
    using assms split_loop_chunks [of 0 data "chunksize_max - 7" s 0] by (simp add: parts_def)
  ultimately show ?thesis
    by (simp add: makeSplitPacket_def Let_def parts_def [symmetric] poke_chunk_count
        comp_def case_prod_unfold)
qed

lemma chunks_of_length: "0 < m \<Longrightarrow> length d \<le> k * m \<Longrightarrow> 0 < k \<Longrightarrow> length (chunks_of m d) \<le> k"
proof (induction m d arbitrary: k rule: chunks_of.induct)
  case (1 m d)
  show ?case
  proof (cases "length d \<le> m")
    case True
    with 1(2-) show ?thesis by (subst chunks_of.simps) simp
  next
    case False
    obtain j where k: "k = Suc j" using 1(4) by (cases k) auto
    with False 1(3) have "0 < j" by (cases j) auto
    with False 1 k have "length (chunks_of m (drop m d)) \<le> j" by (intro 1(1)) auto
    with False k show ?thesis by (subst chunks_of.simps) simp
  qed
qed

text \<open>
  C3.  Splitting loses nothing and respects the size limit: for data that 65535 chunks
  can carry it succeeds; the payloads of the chunks, in order, are the data; every chunk
  fits the maximum; the headers carry the split sequence number, the number of chunks
  and the position; and the split sequence number moves on by one.  Data that fits is
  sent as one original packet and uses up no number.
\<close>

theorem makeAutoSplitPacket_correct:
  assumes size: "7 < chunksize_max" "length data + chunksize_max < 4294967296"
    and room: "length data \<le> 65535 * (chunksize_max - 7)"
  shows "\<exists>pkts s'. makeAutoSplitPacket data chunksize_max s = Some (pkts, s') \<and>
    list_all (\<lambda>c. length c \<le> chunksize_max) pkts \<and>
    (length data + 1 \<le> chunksize_max \<longrightarrow> pkts = [makeOriginalPacket data] \<and> s' = s) \<and>
    (length data + 1 > chunksize_max \<longrightarrow>
       s' = s + 1 \<and> concat (map (drop 7) pkts) = data \<and> length pkts \<le> 65535 \<and>
       (\<forall>i < length pkts. readU8 (pkts ! i) = packet_type_code PACKET_TYPE_SPLIT \<and>
          readU16 (drop 1 (pkts ! i)) = s \<and>
          readU16 (drop 3 (pkts ! i)) = of_nat (length pkts) \<and>
          readU16 (drop 5 (pkts ! i)) = of_nat i))"
proof (cases "length data + 1 > chunksize_max")
  case False
  then show ?thesis
    by (auto simp: makeAutoSplitPacket_def makeOriginalPacket_def)
next
  case True
  define parts where "parts = chunks_of (chunksize_max - 7) data"
  define pkts where "pkts = map2 (split_chunk s (length parts)) [0..<length parts] parts"
  have n: "length parts \<le> 65535"
    unfolding parts_def using size room by (intro chunks_of_length) simp_all
  have "data \<noteq> []" using True size by auto
  from makeSplitPacket_chunks [OF this size, of s] True n
  have made: "makeAutoSplitPacket data chunksize_max s = Some (pkts, s + 1)"
    by (auto simp: makeAutoSplitPacket_def Let_def parts_def pkts_def)
  have len: "length pkts = length parts" by (simp add: pkts_def)
  have nth: "pkts ! i = split_chunk s (length parts) i (parts ! i)" if "i < length parts" for i
    using that by (simp add: pkts_def)
  have "list_all (\<lambda>c. length c \<le> chunksize_max - 7) parts"
    unfolding parts_def using size by (intro chunks_of_bound) simp
  then have "list_all (\<lambda>c. length c \<le> chunksize_max) pkts"
    using size by (auto simp: list_all_length len nth split_chunk_def)
  moreover have "map (drop 7) pkts = parts"
    by (rule nth_equalityI) (simp_all add: len nth split_chunk_def)
  then have "concat (map (drop 7) pkts) = data"
    using chunks_of_concat by (simp add: parts_def)
  moreover have "\<forall>i < length pkts. readU8 (pkts ! i) = packet_type_code PACKET_TYPE_SPLIT \<and>
      readU16 (drop 1 (pkts ! i)) = s \<and> readU16 (drop 3 (pkts ! i)) = of_nat (length pkts) \<and>
      readU16 (drop 5 (pkts ! i)) = of_nat i"
    by (simp add: len nth split_chunk_def)
  ultimately show ?thesis
    using True n made len by simp
qed

theorem makeAutoSplitPacket_correct_witness:
  "\<exists>pkts s'. makeAutoSplitPacket [1, 2, 3, 4, 5, 6, 7, 8, 9, 10, 11, 12] 12 5 = Some (pkts, s') \<and>
   concat (map (drop 7) pkts) = [1, 2, 3, 4, 5, 6, 7, 8, 9, 10, 11, 12] \<and> s' = 6 \<and>
   list_all (\<lambda>c. length c \<le> 12) pkts"
  using makeAutoSplitPacket_correct [of 12 "[1, 2, 3, 4, 5, 6, 7, 8, 9, 10, 11, 12]" 5] by auto

end
