(* ===== verification/SplitBuffer.thy ===== *)
theory SplitBuffer
  imports Packets
begin

text \<open>
  \<open>IncomingSplitPacket\<close> and \<open>IncomingSplitBuffer\<close> of \<open>src/network/mtp/impl.cpp\<close>: the
  receiver's store of split packets, by split sequence number, that hands out the data
  when the last missing chunk arrives.  The chunks of one packet are an association
  list without duplicate keys, the buffer is a map.  \<open>None\<close> is a failed
  \<open>sanity_check\<close>; it is shown not to happen.
\<close>

section \<open>One split packet\<close>

record incoming_split =
  sp_time :: real
  sp_chunk_count :: nat
  sp_reliable :: bool
  sp_chunks :: "(u16 \<times> bytes) list"

definition newIncomingSplitPacket :: "nat \<Rightarrow> bool \<Rightarrow> incoming_split" where
  "newIncomingSplitPacket cc r =
     \<lparr>sp_time = 0, sp_chunk_count = cc, sp_reliable = r, sp_chunks = []\<rparr>"

definition allReceived :: "incoming_split \<Rightarrow> bool" where
  "allReceived sp \<longleftrightarrow> length (sp_chunks sp) = sp_chunk_count sp"

definition sp_insert :: "u16 \<Rightarrow> bytes \<Rightarrow> incoming_split \<Rightarrow> (bool \<times> incoming_split) option" where
  "sp_insert chunk_num chunkdata sp =
     (if \<not> unat chunk_num < sp_chunk_count sp then None
      else if map_of (sp_chunks sp) chunk_num \<noteq> None then Some (False, sp)
      else Some (True, sp\<lparr>sp_chunks := (chunk_num, chunkdata) # sp_chunks sp\<rparr>))"

text \<open>The copying loop; a chunk that is missing would be an empty buffer.\<close>

definition reassemble :: "incoming_split \<Rightarrow> bytes option" where
  "reassemble sp =
     (if \<not> allReceived sp then None
      else Some (concat (map (\<lambda>chunk_i.
        case map_of (sp_chunks sp) (of_nat chunk_i) of None \<Rightarrow> [] | Some b \<Rightarrow> b)
        [0..<sp_chunk_count sp])))"

section \<open>The buffer\<close>

type_synonym split_buffer = "u16 \<Rightarrow> incoming_split option"

text \<open>
  \<open>IncomingSplitBuffer::insert\<close>: the data handed out (empty if none) and the buffer
  afterwards.
\<close>

definition split_insert ::
  "buffered_packet \<Rightarrow> bool \<Rightarrow> split_buffer \<Rightarrow> (bytes \<times> split_buffer) option" where
  "split_insert p reliable m_buf =
     (let headersize = BASE_HEADER_SIZE + 7; d = drop BASE_HEADER_SIZE (bp_data p) in
      if length (bp_data p) < headersize then Some ([], m_buf)
      else
        let type = readU8 d;
            seqnum = readU16 (drop 1 d);
            chunk_count = readU16 (drop 3 d);
            chunk_num = readU16 (drop 5 d) in
        if type \<noteq> packet_type_code PACKET_TYPE_SPLIT then Some ([], m_buf)
        else if chunk_num \<ge> chunk_count then Some ([], m_buf)
        else
          let sp = (case m_buf seqnum of
                None \<Rightarrow> newIncomingSplitPacket (unat chunk_count) reliable
              | Some sp \<Rightarrow> sp);
              m_buf1 = m_buf(seqnum \<mapsto> sp) in
          if unat chunk_count \<noteq> sp_chunk_count sp then Some ([], m_buf1)
          else
            case sp_insert chunk_num (drop 7 d) sp of
              None \<Rightarrow> None
            | Some (inserted, sp') \<Rightarrow>
                if \<not> inserted then Some ([], m_buf1)
                else if \<not> allReceived sp' then Some ([], m_buf1(seqnum \<mapsto> sp'))
                else
                  case reassemble sp' of
                    None \<Rightarrow> None
                  | Some fulldata \<Rightarrow> Some (fulldata, m_buf1(seqnum := None)))"

definition removeUnreliableTimedOuts :: "real \<Rightarrow> real \<Rightarrow> split_buffer \<Rightarrow> split_buffer" where
  "removeUnreliableTimedOuts dtime timeout m_buf =
     (\<lambda>k. case m_buf k of
        None \<Rightarrow> None
      | Some p \<Rightarrow>
          if sp_reliable p then Some p
          else
            let p' = p\<lparr>sp_time := sp_time p + dtime\<rparr> in
            if sp_time p' \<ge> timeout then None else Some p')"

section \<open>Invariant\<close>

text \<open>
  What is stored is incomplete: the keys are distinct chunk numbers below the count, and
  at least one is missing.
\<close>

definition split_entry_ok :: "incoming_split \<Rightarrow> bool" where
  "split_entry_ok sp \<longleftrightarrow>
     distinct (map fst (sp_chunks sp)) \<and>
     (\<forall>k \<in> fst ` set (sp_chunks sp). unat k < sp_chunk_count sp) \<and>
     length (sp_chunks sp) < sp_chunk_count sp"

definition split_buffer_ok :: "split_buffer \<Rightarrow> bool" where
  "split_buffer_ok b \<longleftrightarrow> (\<forall>k sp. b k = Some sp \<longrightarrow> split_entry_ok sp)"

lemma split_buffer_okD: "split_buffer_ok b \<Longrightarrow> b k = Some sp \<Longrightarrow> split_entry_ok sp"
  by (auto simp: split_buffer_ok_def)

lemma split_buffer_ok_upd:
  "split_buffer_ok b \<Longrightarrow> split_entry_ok sp \<Longrightarrow> split_buffer_ok (b(k \<mapsto> sp))"
  by (auto simp: split_buffer_ok_def)

lemma split_buffer_ok_del: "split_buffer_ok b \<Longrightarrow> split_buffer_ok (b(k := None))"
  by (auto simp: split_buffer_ok_def)

lemma new_entry_ok: "0 < cc \<Longrightarrow> split_entry_ok (newIncomingSplitPacket cc r)"
  by (simp add: split_entry_ok_def newIncomingSplitPacket_def)

lemma sp_insert_ok:
  assumes "split_entry_ok sp" and "unat i < sp_chunk_count sp"
  shows "\<exists>ins sp'. sp_insert i d sp = Some (ins, sp') \<and>
    (\<not> allReceived sp' \<longrightarrow> split_entry_ok sp') \<and> (\<not> ins \<longrightarrow> sp' = sp)"
  using assms
  by (auto simp: sp_insert_def split_entry_ok_def allReceived_def map_of_eq_None_iff)

lemma split_insert_ok:
  assumes ok: "split_buffer_ok b"
  shows "\<exists>out b'. split_insert p r b = Some (out, b') \<and> split_buffer_ok b'"
proof -
  define d where "d = drop BASE_HEADER_SIZE (bp_data p)"
  define n where "n = readU16 (drop 3 d)"
  define i where "i = readU16 (drop 5 d)"
  define s where "s = readU16 (drop 1 d)"
  define sp where "sp = (case b s of None \<Rightarrow> newIncomingSplitPacket (unat n) r | Some sp \<Rightarrow> sp)"
  show ?thesis
  proof (cases "length (bp_data p) < BASE_HEADER_SIZE + 7 \<or>
      readU8 d \<noteq> packet_type_code PACKET_TYPE_SPLIT \<or> i \<ge> n \<or> unat n \<noteq> sp_chunk_count sp")
    case True
    have "split_buffer_ok (b(s \<mapsto> sp))" if "\<not> i \<ge> n"
    proof (rule split_buffer_ok_upd [OF ok])
      have "0 < unat n" using that by (simp add: word_less_nat_alt not_le)
      then show "split_entry_ok sp"
        using ok by (auto simp: sp_def split_buffer_okD new_entry_ok split: option.split)
    qed
    with True ok show ?thesis
      by (auto simp: split_insert_def Let_def d_def [symmetric] n_def [symmetric]
          i_def [symmetric] s_def [symmetric] sp_def [symmetric] simp del: One_nat_def)
  next
    case False
    then have i: "unat i < sp_chunk_count sp"
      by (simp add: word_less_nat_alt not_le)
    have sp: "split_entry_ok sp"
    proof (cases "b s")
      case None
      then show ?thesis
        using False by (simp add: sp_def new_entry_ok word_less_nat_alt not_le)
    next
      case (Some x)
      then show ?thesis
        using ok by (simp add: sp_def split_buffer_okD)
    qed
    obtain ins sp' where ins: "sp_insert i (drop 7 d) sp = Some (ins, sp')"
      and ok': "\<not> allReceived sp' \<longrightarrow> split_entry_ok sp'" and same: "\<not> ins \<longrightarrow> sp' = sp"
      using sp_insert_ok [OF sp i] by blast
    from False ins ok' sp show ?thesis
      by (auto simp: split_insert_def Let_def d_def [symmetric] n_def [symmetric]
          i_def [symmetric] s_def [symmetric] sp_def [symmetric] reassemble_def
          split_buffer_ok_upd [OF ok] split_buffer_ok_del [OF ok] simp del: One_nat_def)
  qed
qed

lemma removeUnreliableTimedOuts_ok:
  "split_buffer_ok b \<Longrightarrow> split_buffer_ok (removeUnreliableTimedOuts dtime timeout b)"
  by (auto simp: split_buffer_ok_def removeUnreliableTimedOuts_def split_entry_ok_def Let_def
      split: option.splits if_splits)

section \<open>Receiving the chunks of one packet\<close>

text \<open>A packet that carries \<open>c\<close> behind the base header.\<close>

definition carries :: "buffered_packet \<Rightarrow> bytes \<Rightarrow> bool" where
  "carries p c \<longleftrightarrow> drop BASE_HEADER_SIZE (bp_data p) = c"

lemma carries_makePacket [simp]: "carries (makePacket a c prot peer ch) c"
  by (simp add: carries_def)

definition split_seqnum_of :: "buffered_packet \<Rightarrow> u16" where
  "split_seqnum_of p = readU16 (drop 1 (drop BASE_HEADER_SIZE (bp_data p)))"

fun split_insert_all ::
  "buffered_packet list \<Rightarrow> bool \<Rightarrow> split_buffer \<Rightarrow> (bytes list \<times> split_buffer) option" where
  "split_insert_all [] r b = Some ([], b)"
| "split_insert_all (p # ps) r b =
     (case split_insert p r b of
        None \<Rightarrow> None
      | Some (out, b') \<Rightarrow>
          (case split_insert_all ps r b' of None \<Rightarrow> None | Some (outs, b'') \<Rightarrow> Some (out # outs, b'')))"

text \<open>The chunks with the numbers \<open>I\<close> are in the buffer, and no others of this packet.\<close>

definition holds :: "bytes list \<Rightarrow> nat set \<Rightarrow> incoming_split \<Rightarrow> bool" where
  "holds parts I sp \<longleftrightarrow> sp_chunk_count sp = length parts \<and> distinct (map fst (sp_chunks sp)) \<and>
     fst ` set (sp_chunks sp) = of_nat ` I \<and>
     (\<forall>i\<in>I. map_of (sp_chunks sp) (of_nat i) = Some (parts ! i))"

definition held :: "bytes list \<Rightarrow> u16 \<Rightarrow> split_buffer \<Rightarrow> nat set \<Rightarrow> bool" where
  "held parts s b I \<longleftrightarrow> (case b s of None \<Rightarrow> I = {} | Some sp \<Rightarrow> holds parts I sp)"

lemma of_nat16_inj:
  assumes "n \<le> 65535"
  shows "inj_on (of_nat :: nat \<Rightarrow> u16) {..<n}"
proof (rule inj_onI)
  fix x y assume xy: "x \<in> {..<n}" "y \<in> {..<n}" and eq: "(of_nat x :: u16) = of_nat y"
  from xy assms have "x < 65536" and "y < 65536" by auto
  from unat_of_nat16 [OF this(1)] unat_of_nat16 [OF this(2)] eq
  show "x = y" by metis
qed

lemma holds_length:
  assumes "holds parts I sp" and "I \<subseteq> {..<length parts}" and "length parts \<le> 65535"
  shows "length (sp_chunks sp) = card I"
proof -
  have "length (sp_chunks sp) = card (set (map fst (sp_chunks sp)))"
    using assms(1) by (metis distinct_card holds_def length_map)
  also have "\<dots> = card ((of_nat :: nat \<Rightarrow> u16) ` I)"
    using assms(1) by (simp add: holds_def)
  also have "\<dots> = card I"
    using inj_on_subset [OF of_nat16_inj [OF assms(3)] assms(2)] by (rule card_image)
  finally show ?thesis .
qed

lemma holds_new: "holds parts {} (newIncomingSplitPacket (length parts) r)"
  by (simp add: holds_def newIncomingSplitPacket_def)

lemma of_nat16_mem:
  "i < n \<Longrightarrow> n \<le> 65535 \<Longrightarrow> I \<subseteq> {..<n} \<Longrightarrow> (of_nat i :: u16) \<in> of_nat ` I \<longleftrightarrow> i \<in> I"
  using inj_on_image_mem_iff [OF of_nat16_inj [of n], of i I] by simp

lemma holds_map_of:
  assumes "holds parts I sp" and "i < length parts" and "length parts \<le> 65535"
    and "I \<subseteq> {..<length parts}"
  shows "map_of (sp_chunks sp) (of_nat i) = (if i \<in> I then Some (parts ! i) else None)"
  using assms of_nat16_mem [of i "length parts" I]
  by (auto simp: holds_def map_of_eq_None_iff)

lemma holds_insert:
  assumes "holds parts I sp" and "i < length parts" and "length parts \<le> 65535"
    and "I \<subseteq> {..<length parts}"
  shows "\<exists>ins sp'. sp_insert (of_nat i) (parts ! i) sp = Some (ins, sp') \<and>
    holds parts (insert i I) sp' \<and> (ins \<longleftrightarrow> i \<notin> I)"
proof (cases "i \<in> I")
  case True
  then show ?thesis
    using assms by (auto simp: sp_insert_def holds_map_of unat_of_nat16 insert_absorb holds_def)
next
  case False
  have new: "(of_nat i :: u16) \<notin> of_nat ` I"
    using False assms(2-4) of_nat16_mem [of i "length parts" I] by auto
  let ?sp = "sp\<lparr>sp_chunks := (of_nat i, parts ! i) # sp_chunks sp\<rparr>"
  have "sp_chunk_count sp = length parts" and "map_of (sp_chunks sp) (of_nat i) = None"
    using assms False by (simp_all add: holds_map_of) (simp add: holds_def)
  then have "sp_insert (of_nat i) (parts ! i) sp = Some (True, ?sp)"
    using assms(2,3) by (simp add: sp_insert_def unat_of_nat16)
  moreover have "holds parts (insert i I) ?sp"
    unfolding holds_def
  proof (intro conjI ballI)
    fix k assume "k \<in> insert i I"
    moreover have "(of_nat k :: u16) \<noteq> of_nat i" if "k \<in> I"
      using new imageI [OF that, of "of_nat :: nat \<Rightarrow> u16"] by metis
    ultimately show "map_of (sp_chunks ?sp) (of_nat k) = Some (parts ! k)"
      using assms(1) by (auto simp: holds_def)
  qed (use assms(1) new in \<open>simp_all add: holds_def image_iff\<close>)
  ultimately show ?thesis using False by blast
qed

lemma holds_complete:
  assumes "holds parts {..<length parts} sp" and "length parts \<le> 65535"
  shows "reassemble sp = Some (concat parts)"
proof -
  have "map (\<lambda>i. case map_of (sp_chunks sp) (of_nat i) of None \<Rightarrow> [] | Some b \<Rightarrow> b)
      [0..<length parts] = parts"
    by (rule nth_equalityI) (simp_all add: holds_map_of [OF assms(1) _ assms(2)])
  moreover have "allReceived sp"
    using holds_length [OF assms(1) _ assms(2)] assms(1) by (simp add: allReceived_def holds_def)
  ultimately show ?thesis
    using assms(1) by (simp add: reassemble_def holds_def)
qed

lemma split_chunk_fields:
  "split_seqnum_of p = s"
  "readU8 (drop BASE_HEADER_SIZE (bp_data p)) = packet_type_code PACKET_TYPE_SPLIT"
  "readU16 (drop 3 (drop BASE_HEADER_SIZE (bp_data p))) = of_nat n"
  "readU16 (drop 5 (drop BASE_HEADER_SIZE (bp_data p))) = of_nat i"
  "drop 7 (drop BASE_HEADER_SIZE (bp_data p)) = part"
  "\<not> length (bp_data p) < BASE_HEADER_SIZE + 7"
  if "carries p (split_chunk s n i part)"
proof -
  have d: "drop BASE_HEADER_SIZE (bp_data p) = split_chunk s n i part"
    using that by (simp add: carries_def)
  show "split_seqnum_of p = s"
    "readU8 (drop BASE_HEADER_SIZE (bp_data p)) = packet_type_code PACKET_TYPE_SPLIT"
    "readU16 (drop 3 (drop BASE_HEADER_SIZE (bp_data p))) = of_nat n"
    "readU16 (drop 5 (drop BASE_HEADER_SIZE (bp_data p))) = of_nat i"
    "drop 7 (drop BASE_HEADER_SIZE (bp_data p)) = part"
    unfolding split_seqnum_of_def d by (simp_all add: split_chunk_def)
  have "length (drop BASE_HEADER_SIZE (bp_data p)) = 7 + length part"
    unfolding d by (simp add: split_chunk_def)
  then show "\<not> length (bp_data p) < BASE_HEADER_SIZE + 7" by auto
qed

lemma split_insert_other:
  assumes "split_insert p r b = Some (out, b')" and "k \<noteq> split_seqnum_of p"
  shows "b' k = b k"
  using assms
  by (auto simp: split_insert_def split_seqnum_of_def Let_def simp del: One_nat_def
      split: if_splits option.splits)

lemma split_insert_chunk:
  assumes c: "carries p (split_chunk s (length parts) i (parts ! i))"
    and i: "i < length parts" and n: "length parts \<le> 65535"
    and I: "I \<subseteq> {..<length parts}" and h: "held parts s b I"
    and inc: "I \<noteq> {..<length parts}"
  shows "\<exists>b'. split_insert p r b =
      Some (if insert i I = {..<length parts} then concat parts else [], b') \<and>
    (if insert i I = {..<length parts} then b' s = None else held parts s b' (insert i I))"
proof -
  note f = split_chunk_fields [OF c]
  define sp where "sp = (case b s of
    None \<Rightarrow> newIncomingSplitPacket (length parts) r | Some sp \<Rightarrow> sp)"
  have sp: "holds parts I sp"
    using h by (auto simp: sp_def held_def holds_new split: option.split_asm)
  obtain ins sp' where ins: "sp_insert (of_nat i) (parts ! i) sp = Some (ins, sp')"
    and h': "holds parts (insert i I) sp'" and new: "ins \<longleftrightarrow> i \<notin> I"
    using holds_insert [OF sp i n I] by blast
  have len': "length (sp_chunks sp') = card (insert i I)"
    using holds_length [OF h' _ n] i I by auto
  have all: "allReceived sp' \<longleftrightarrow> insert i I = {..<length parts}"
  proof
    assume "allReceived sp'"
    then have "card (insert i I) = card {..<length parts}"
      using len' h' by (simp add: allReceived_def holds_def)
    then show "insert i I = {..<length parts}"
      using i I by (intro card_subset_eq) auto
  qed (use len' h' in \<open>simp add: allReceived_def holds_def\<close>)
  have "\<not> (of_nat (length parts) :: u16) \<le> of_nat i"
    using i n by (simp add: word_le_nat_alt unat_of_nat16)
  moreover have un: "unat (of_nat (length parts) :: u16) = length parts"
    using n by (simp add: unat_of_nat16)
  moreover have "sp_chunk_count sp = length parts"
    using sp by (simp add: holds_def)
  moreover have "sp' = sp" if "\<not> ins"
    using that ins by (auto simp: sp_insert_def split: if_splits)
  moreover have "reassemble sp' = Some (concat parts)" if "insert i I = {..<length parts}"
    using h' that n by (simp add: holds_complete)
  moreover have "insert i I \<noteq> {..<length parts}" if "\<not> ins"
    using that new inc by (auto simp: insert_absorb)
  ultimately have step: "split_insert p r b =
      (if \<not> ins then Some ([], b(s \<mapsto> sp))
       else if insert i I = {..<length parts} then Some (concat parts, b(s := None))
       else Some ([], b(s \<mapsto> sp')))"
    using f(6) ins all
    unfolding split_insert_def Let_def f(1) [unfolded split_seqnum_of_def] f(2-5) un
      sp_def [symmetric]
    by (simp add: sp_def [symmetric] del: One_nat_def)
  show ?thesis
  proof (cases ins)
    case True
    then show ?thesis using h' by (simp add: step held_def)
  next
    case False
    then have "insert i I = I" using new by auto
    then show ?thesis using False inc sp by (simp add: step held_def)
  qed
qed

lemma makeAutoSplitPacket_parts:
  assumes "makeAutoSplitPacket data chunksize_max s = Some (chunks, s')"
    and "chunksize_max < length data + 1" and "7 < chunksize_max"
    and "length data + chunksize_max < 4294967296"
  shows "\<exists>parts. concat parts = data \<and> length parts = length chunks \<and> length parts \<le> 65535 \<and>
    (\<forall>i < length parts. chunks ! i = split_chunk s (length parts) i (parts ! i))"
proof -
  define parts where "parts = chunks_of (chunksize_max - 7) data"
  have "data \<noteq> []" using assms(2,3) by auto
  from makeSplitPacket_chunks [OF this assms(3,4), of s] assms(1,2)
  have "length parts \<le> 65535 \<and>
      chunks = map2 (split_chunk s (length parts)) [0..<length parts] parts"
    by (auto simp: makeAutoSplitPacket_def Let_def parts_def split: if_splits)
  then show ?thesis
    using chunks_of_concat [of "chunksize_max - 7" data] by (auto simp: parts_def)
qed

lemma held_frame:
  assumes "split_insert p r b = Some (out, b')" and "split_seqnum_of p \<noteq> s"
  shows "held parts s b' I \<longleftrightarrow> held parts s b I"
  using split_insert_other [OF assms(1), of s] assms(2) by (simp add: held_def)

lemma split_insert_all_chunks:
  assumes "length parts \<le> 65535" and chunks: "length chunks = length parts"
    "\<forall>i < length parts. chunks ! i = split_chunk s (length parts) i (parts ! i)"
    and "j < length parts" and "split_buffer_ok b" and "held parts s b I"
    and "I \<subseteq> {..<length parts}" and "j \<notin> I"
    and "\<forall>p\<in>set ps. (\<exists>i<length chunks. i \<noteq> j \<and> carries p (chunks ! i)) \<or> split_seqnum_of p \<noteq> s"
  shows "\<exists>outs b'. split_insert_all ps r b = Some (outs, b') \<and> split_buffer_ok b' \<and>
    list_all2 (\<lambda>p out. split_seqnum_of p = s \<longrightarrow> out = []) ps outs \<and>
    held parts s b' (I \<union> {i. i < length parts \<and> (\<exists>p\<in>set ps. carries p (chunks ! i))}) "
  using assms(5-)
proof (induction ps arbitrary: b I)
  case Nil
  then show ?case by simp
next
  case (Cons p ps)
  obtain out b1 where p: "split_insert p r b = Some (out, b1)" and ok: "split_buffer_ok b1"
    using split_insert_ok [OF Cons.prems(1)] by blast
  define J where "J = I \<union> {i. i < length parts \<and> carries p (chunks ! i)}"
  have "(split_seqnum_of p = s \<longrightarrow> out = []) \<and> held parts s b1 J \<and> J \<subseteq> {..<length parts} \<and> j \<notin> J"
  proof (cases "\<exists>i<length chunks. i \<noteq> j \<and> carries p (chunks ! i)")
    case True
    then obtain i where i: "i < length parts" "i \<noteq> j" and c: "carries p (chunks ! i)"
      using chunks by auto
    have "k = i" if "k < length parts" "carries p (chunks ! k)" for k
    proof -
      have "(of_nat k :: u16) = of_nat i"
        using c that i chunks split_chunk_fields(4) [of p s "length parts"] by metis
      then show ?thesis
        using inj_onD [OF of_nat16_inj [OF assms(1)]] that i by auto
    qed
    then have "{k. k < length parts \<and> carries p (chunks ! k)} = {i}"
      using i(1) c by blast
    then have J: "J = insert i I" by (simp add: J_def)
    have c': "carries p (split_chunk s (length parts) i (parts ! i))"
      using c i chunks by simp
    have "j \<in> {..<length parts}" and "j \<notin> insert i I"
      using Cons.prems(4) assms(4) i(2) by simp_all
    then have "I \<noteq> {..<length parts}" and "insert i I \<noteq> {..<length parts}"
      by blast+
    then obtain b' where "split_insert p r b = Some ([], b')" "held parts s b' (insert i I)"
      using split_insert_chunk [OF c' i(1) assms(1) Cons.prems(3,2), of r] by auto
    with p have "out = []" "held parts s b1 (insert i I)" by simp_all
    then show ?thesis
      using i Cons.prems(3,4) unfolding J by simp
  next
    case False
    with Cons.prems(5) have other: "split_seqnum_of p \<noteq> s" by auto
    then have "\<not> carries p (chunks ! i)" if "i < length parts" for i
      using chunks that split_chunk_fields(1) by metis
    then have "J = I" by (auto simp: J_def)
    then show ?thesis
      using held_frame [OF p other] other Cons.prems by simp
  qed
  then have r: "split_seqnum_of p = s \<longrightarrow> out = []" and h: "held parts s b1 J"
    and J: "J \<subseteq> {..<length parts}" "j \<notin> J" by auto
  have "J \<union> {i. i < length parts \<and> (\<exists>p\<in>set ps. carries p (chunks ! i))} =
      I \<union> {i. i < length parts \<and> (\<exists>p\<in>set (p # ps). carries p (chunks ! i))}"
    by (auto simp: J_def)
  then show ?case
    using Cons.IH [OF ok h J] Cons.prems(5) p r by auto
qed

text \<open>The chunks of one message: all but one, in any order, then the missing one.\<close>

lemma split_reassembly:
  assumes made: "makeAutoSplitPacket data chunksize_max s = Some (chunks, s')"
    and large: "chunksize_max < length data + 1" "7 < chunksize_max"
      "length data + chunksize_max < 4294967296"
    and fresh: "split_buffer_ok b" "b s = None"
    and mixed: "\<forall>p\<in>set ps. (\<exists>i<length chunks. i \<noteq> j \<and> carries p (chunks ! i)) \<or>
      split_seqnum_of p \<noteq> s"
    and all: "\<forall>i<length chunks. i \<noteq> j \<longrightarrow> (\<exists>p\<in>set ps. carries p (chunks ! i))"
    and last: "j < length chunks" "carries q (chunks ! j)"
  shows "\<exists>outs b1 b2. split_insert_all ps r b = Some (outs, b1) \<and>
    list_all2 (\<lambda>p out. split_seqnum_of p = s \<longrightarrow> out = []) ps outs \<and>
    split_insert q r b1 = Some (data, b2) \<and> b2 s = None \<and> (\<forall>k. k \<noteq> s \<longrightarrow> b2 k = b1 k)"
proof -
  obtain parts where parts: "concat parts = data" "length chunks = length parts"
    and n: "length parts \<le> 65535"
    and nth: "\<forall>i < length parts. chunks ! i = split_chunk s (length parts) i (parts ! i)"
    using makeAutoSplitPacket_parts [OF made large] by auto
  define I where "I = {i. i < length parts \<and> (\<exists>p\<in>set ps. carries p (chunks ! i))}"
  have j: "j < length parts" using last parts by simp
  have "held parts s b {}" using fresh by (simp add: held_def)
  from split_insert_all_chunks [OF n parts(2) nth j fresh(1) this _ _ mixed, of r]
  obtain outs b1 where run: "split_insert_all ps r b = Some (outs, b1)"
    "list_all2 (\<lambda>p out. split_seqnum_of p = s \<longrightarrow> out = []) ps outs" and h: "held parts s b1 I"
    by (auto simp: I_def)
  have "I \<subseteq> {..<length parts}" by (auto simp: I_def)
  moreover have "j \<notin> I"
  proof
    assume "j \<in> I"
    then obtain p where p: "p \<in> set ps" "carries p (chunks ! j)" by (auto simp: I_def)
    then have "split_seqnum_of p = s" using nth j split_chunk_fields(1) by metis
    with mixed p obtain i where i: "i < length parts" "i \<noteq> j" "carries p (chunks ! i)"
      using parts by auto
    then have "(of_nat i :: u16) = of_nat j"
      using p(2) nth j split_chunk_fields(4) by metis
    then show False
      using inj_onD [OF of_nat16_inj [OF n]] i j by auto
  qed
  moreover have "insert j I = {..<length parts}"
    using all parts j by (auto simp: I_def)
  moreover have c: "carries q (split_chunk s (length parts) j (parts ! j))"
    using last nth j by simp
  ultimately obtain b2 where q: "split_insert q r b1 = Some (data, b2)" "b2 s = None"
    using split_insert_chunk [OF c j n _ h, of r] parts by auto
  moreover have "\<forall>k. k \<noteq> s \<longrightarrow> b2 k = b1 k"
    using split_insert_other [OF q(1)] split_chunk_fields(1) [OF c] by simp
  ultimately show ?thesis using run by blast
qed

text \<open>
  C10.  Reassembly does not depend on the order of arrival.  Take the chunks of a message
  too large for one packet and a buffer that holds nothing under its split number.  Let
  all chunks but one arrive, in any order, any of them several times, mixed with any
  packets of other split numbers: none of them hands out data, and nothing aborts.  The
  missing chunk then hands out exactly the message and empties its entry, and it leaves
  the other entries alone.
\<close>

theorem split_any_order:
  assumes made: "makeAutoSplitPacket data chunksize_max s = Some (chunks, s')"
    and large: "chunksize_max < length data + 1" "7 < chunksize_max"
      "length data + chunksize_max < 4294967296"
    and fresh: "split_buffer_ok b" "b s = None"
    and mixed: "\<forall>p\<in>set ps. (\<exists>i<length chunks. i \<noteq> j \<and> carries p (chunks ! i)) \<or>
      split_seqnum_of p \<noteq> s"
    and all: "\<forall>i<length chunks. i \<noteq> j \<longrightarrow> (\<exists>p\<in>set ps. carries p (chunks ! i))"
    and last: "j < length chunks" "carries q (chunks ! j)"
  shows "\<exists>outs b1 b2. split_insert_all ps r b = Some (outs, b1) \<and>
    list_all2 (\<lambda>p out. split_seqnum_of p = s \<longrightarrow> out = []) ps outs \<and>
    split_insert q r b1 = Some (data, b2) \<and> b2 s = None \<and> (\<forall>k. k \<noteq> s \<longrightarrow> b2 k = b1 k)"
  using split_reassembly [OF assms] .

theorem split_any_order_witness:
  "\<exists>outs b1 b2. split_insert_all
     [makePacket newAddress (split_chunk 9 2 1 [8, 9, 10, 11, 12, 13, 14]) PROTOCOL_ID 1 0,
      makePacket newAddress (split_chunk 9 2 1 [8, 9, 10, 11, 12, 13, 14]) PROTOCOL_ID 1 0] True (\<lambda>_. None) =
       Some (outs, b1) \<and>
     split_insert (makePacket newAddress (split_chunk 9 2 0 [1, 2, 3, 4, 5, 6, 7]) PROTOCOL_ID 1 0) True b1 =
       Some ([1, 2, 3, 4, 5, 6, 7, 8, 9, 10, 11, 12, 13, 14], b2) \<and> b2 9 = None"
proof -
  let ?chunks = "[split_chunk 9 2 0 [1, 2, 3, 4, 5, 6, 7], split_chunk 9 2 1 [8, 9, 10, 11, 12, 13, 14]]"
  let ?p = "makePacket newAddress (split_chunk 9 2 1 [8, 9, 10, 11, 12, 13, 14]) PROTOCOL_ID 1 0"
  let ?q = "makePacket newAddress (split_chunk 9 2 0 [1, 2, 3, 4, 5, 6, 7]) PROTOCOL_ID 1 0"
  have "chunks_of 7 [1, 2, 3, 4, 5, 6, 7, 8, 9, 10, 11, 12, 13, 14] = [[1, 2, 3, 4, 5, 6, 7], [8, 9, 10, 11, 12, 13, 14]]"
    by (simp add: chunks_of.simps)
  then have "makeAutoSplitPacket [1, 2, 3, 4, 5, 6, 7, 8, 9, 10, 11, 12, 13, 14] 14 9 = Some (?chunks, 10)"
    using makeSplitPacket_chunks [of "[1, 2, 3, 4, 5, 6, 7, 8, 9, 10, 11, 12, 13, 14]" 14 9]
    by (simp add: makeAutoSplitPacket_def numeral_2_eq_2)
  moreover have "\<forall>i<length ?chunks. i \<noteq> 0 \<longrightarrow> (\<exists>p\<in>set [?p, ?p]. carries p (?chunks ! i))"
    by (auto simp: less_Suc_eq)
  moreover have "\<forall>p\<in>set [?p, ?p]. (\<exists>i<length ?chunks. i \<noteq> 0 \<and> carries p (?chunks ! i)) \<or>
      split_seqnum_of p \<noteq> 9"
    by (auto intro!: exI [of _ "Suc 0"])
  ultimately show ?thesis
    using split_any_order [of "[1, 2, 3, 4, 5, 6, 7, 8, 9, 10, 11, 12, 13, 14]" 14 9 ?chunks 10 "\<lambda>_. None" "[?p, ?p]" 0 ?q True]
    by (auto simp: split_buffer_ok_def)
qed

end
