(* ===== verification/ReliableBuffer.thy ===== *)
theory ReliableBuffer
  imports Packets
begin

text \<open>
  \<open>ReliablePacketBuffer\<close> of \<open>src/network/mtp/impl.cpp\<close>: the list of reliable packets that
  wait, on the receiving side for the gap before them to close, on the sending side for
  their acknowledgement.  The list is ordered by sequence number, where the order starts
  at the number the caller passes as next expected.
\<close>

section \<open>Exceptions\<close>

text \<open>
  The exceptions of \<open>src/network/mtp/internal.h\<close> and of the connection, and \<open>Abort\<close> for a
  \<open>sanity_check\<close> or \<open>FATAL_ERROR\<close> that ends the process or a read past the end of a list.
\<close>

datatype con_error = NotFoundException | ProcessedSilentlyException | ProcessedQueued
  | IncomingDataCorruption | InvalidIncomingDataException | ConnectionBindFailed
  | PeerNotFoundException | ConnectionException | SendFailedException | SocketException | Abort

section \<open>State and operations\<close>

record reliable_buffer =
  rb_list :: "buffered_packet list"
  m_oldest_non_answered_ack :: u16

definition newReliablePacketBuffer :: reliable_buffer where
  "newReliablePacketBuffer = \<lparr>rb_list = [], m_oldest_non_answered_ack = 0\<rparr>"

definition rb_empty :: "reliable_buffer \<Rightarrow> bool" where
  "rb_empty b \<longleftrightarrow> rb_list b = []"

definition rb_size :: "reliable_buffer \<Rightarrow> nat" where
  "rb_size b = length (rb_list b)"

definition getFirstSeqnum :: "reliable_buffer \<Rightarrow> u16 option" where
  "getFirstSeqnum b = (case rb_list b of [] \<Rightarrow> None | p # _ \<Rightarrow> Some (getSeqnum p))"

text \<open>The list up to the packet that \<open>findPacketNoLock\<close> returns, and from it on.\<close>

definition findPacketNoLock ::
  "u16 \<Rightarrow> buffered_packet list \<Rightarrow> buffered_packet list \<times> buffered_packet list" where
  "findPacketNoLock seqnum l =
     (takeWhile (\<lambda>p. getSeqnum p \<noteq> seqnum) l, dropWhile (\<lambda>p. getSeqnum p \<noteq> seqnum) l)"

definition oldest_of :: "buffered_packet list \<Rightarrow> u16" where
  "oldest_of l = (case l of [] \<Rightarrow> 0 | p # _ \<Rightarrow> getSeqnum p)"

definition popFirst :: "reliable_buffer \<Rightarrow> con_error + buffered_packet \<times> reliable_buffer" where
  "popFirst b =
     (case rb_list b of
        [] \<Rightarrow> Inl NotFoundException
      | p # l \<Rightarrow> Inr (p, b\<lparr>rb_list := l, m_oldest_non_answered_ack := oldest_of l\<rparr>))"

definition popSeqnum ::
  "u16 \<Rightarrow> reliable_buffer \<Rightarrow> con_error + buffered_packet \<times> reliable_buffer" where
  "popSeqnum seqnum b =
     (case findPacketNoLock seqnum (rb_list b) of
        (front, []) \<Rightarrow> Inl NotFoundException
      | (front, p # rest) \<Rightarrow>
          Inr (p, b\<lparr>rb_list := front @ rest,
                    m_oldest_non_answered_ack := oldest_of (front @ rest)\<rparr>))"

text \<open>
  The condition of the two search loops, for a packet with the number \<open>s\<close>, and the state
  in which they end: the packets passed, the packets from the iterator on, and the number
  that was read last.
\<close>

definition insert_before :: "u16 \<Rightarrow> u16 \<Rightarrow> u16 \<Rightarrow> bool" where
  "insert_before seqnum next_expected s =
     (if seqnum < next_expected then s < seqnum \<or> s \<ge> next_expected
      else s < seqnum \<and> s \<ge> next_expected)"

fun insert_search :: "u16 \<Rightarrow> u16 \<Rightarrow> u16 \<Rightarrow> buffered_packet list \<Rightarrow> buffered_packet list \<Rightarrow>
  buffered_packet list \<times> buffered_packet list \<times> u16" where
  "insert_search seqnum next_expected s passed [] = (passed, [], s)"
| "insert_search seqnum next_expected s passed (p # rest) =
     (if insert_before seqnum next_expected s
      then insert_search seqnum next_expected
        (case rest of [] \<Rightarrow> s | q # _ \<Rightarrow> getSeqnum q) (passed @ [p]) rest
      else (passed, p # rest, s))"

definition rb_insert ::
  "buffered_packet \<Rightarrow> u16 \<Rightarrow> reliable_buffer \<Rightarrow> con_error + reliable_buffer" where
  "rb_insert p next_expected b =
     (if length (bp_data p) < BASE_HEADER_SIZE + 3 then Inr b
      else
        let type = readU8 (drop BASE_HEADER_SIZE (bp_data p)); seqnum = getSeqnum p in
        if type \<noteq> packet_type_code PACKET_TYPE_RELIABLE then Inr b
        else if \<not> seqnum_in_window seqnum next_expected MAX_RELIABLE_WINDOW_SIZE then Inr b
        else if seqnum = next_expected then Inr b
        else if \<not> length (rb_list b) \<le> SEQNUM_MAX then Inl Abort
        else
          case rb_list b of
            [] \<Rightarrow> Inr (b\<lparr>rb_list := [p], m_oldest_non_answered_ack := seqnum\<rparr>)
          | front # _ \<Rightarrow>
              (case insert_search seqnum next_expected (getSeqnum front) [] (rb_list b) of
                 (passed, rest, s) \<Rightarrow>
                   if s = seqnum
                   then case rest of
                       [] \<Rightarrow> Inl Abort
                     | i # _ \<Rightarrow>
                         if getSeqnum i \<noteq> seqnum \<or> length (bp_data i) \<noteq> length (bp_data p) \<or>
                            \<not> address_eq (bp_address i) (bp_address p)
                         then Inl IncomingDataCorruption
                         else Inr (b\<lparr>m_oldest_non_answered_ack := oldest_of (rb_list b)\<rparr>)
                   else let l = passed @ p # rest in
                     Inr (b\<lparr>rb_list := l, m_oldest_non_answered_ack := oldest_of l\<rparr>)))"

definition rb_fixPeerId :: "u16 \<Rightarrow> reliable_buffer \<Rightarrow> reliable_buffer" where
  "rb_fixPeerId new_id b = b\<lparr>rb_list := map (setSenderPeerId new_id) (rb_list b)\<rparr>"

definition rb_incrementTimeouts :: "real \<Rightarrow> reliable_buffer \<Rightarrow> reliable_buffer" where
  "rb_incrementTimeouts dtime b =
     b\<lparr>rb_list := map (\<lambda>p. p\<lparr>bp_time := bp_time p + dtime,
                             bp_totaltime := bp_totaltime p + dtime\<rparr>) (rb_list b)\<rparr>"

definition rb_getTimedOuts :: "real \<Rightarrow> reliable_buffer \<Rightarrow> nat" where
  "rb_getTimedOuts timeout b =
     length (filter (\<lambda>p. bp_totaltime p \<ge> timeout) (rb_list b))"

definition RESEND_SCALE_BASE :: real where
  "RESEND_SCALE_BASE = 3 / 2"

text \<open>The loop with \<open>n\<close> packets collected: the packets it still collects, and the list.\<close>

fun resend_loop :: "real \<Rightarrow> nat \<Rightarrow> nat \<Rightarrow> buffered_packet list \<Rightarrow>
  buffered_packet list \<times> buffered_packet list" where
  "resend_loop timeout max_packets n [] = ([], [])"
| "resend_loop timeout max_packets n (p # ps) =
     (let pkt_timeout = timeout * RESEND_SCALE_BASE ^ unat (bp_resend_count p) in
      if bp_time p < pkt_timeout
      then let (outs, l) = resend_loop timeout max_packets n ps in (outs, p # l)
      else
        let p' = p\<lparr>bp_time := 0, bp_resend_count := bp_resend_count p + 1\<rparr> in
        if n + 1 \<ge> max_packets then ([p'], p' # ps)
        else let (outs, l) = resend_loop timeout max_packets (n + 1) ps in (p' # outs, p' # l))"

definition rb_getResend ::
  "real \<Rightarrow> nat \<Rightarrow> reliable_buffer \<Rightarrow> buffered_packet list \<times> reliable_buffer" where
  "rb_getResend timeout max_packets b =
     (let (outs, l) = resend_loop timeout max_packets 0 (rb_list b) in (outs, b\<lparr>rb_list := l\<rparr>))"

section \<open>Order and content\<close>

text \<open>Whether a packet is one that \<open>insert\<close> stores under the number \<open>s\<close>.\<close>

definition reliable_packet :: "u16 \<Rightarrow> buffered_packet \<Rightarrow> bool" where
  "reliable_packet s p \<longleftrightarrow> BASE_HEADER_SIZE + 3 \<le> length (bp_data p) \<and>
     readU8 (drop BASE_HEADER_SIZE (bp_data p)) = packet_type_code PACKET_TYPE_RELIABLE \<and>
     getSeqnum p = s"

definition rb_content :: "reliable_buffer \<Rightarrow> u16 \<Rightarrow> buffered_packet option" where
  "rb_content b = map_of (map (\<lambda>p. (getSeqnum p, p)) (rb_list b))"

definition ordered_from :: "u16 \<Rightarrow> buffered_packet list \<Rightarrow> bool" where
  "ordered_from base l \<longleftrightarrow>
     sorted_wrt (\<lambda>p q. seqnum_dist base (getSeqnum p) < seqnum_dist base (getSeqnum q)) l"

definition rb_ok :: "u16 \<Rightarrow> reliable_buffer \<Rightarrow> bool" where
  "rb_ok base b \<longleftrightarrow> ordered_from base (rb_list b) \<and>
     (\<forall>p\<in>set (rb_list b). reliable_packet (getSeqnum p) p \<and>
        seqnum_dist base (getSeqnum p) < 32768) \<and>
     m_oldest_non_answered_ack b = oldest_of (rb_list b)"

lemma rb_ok_new: "rb_ok base newReliablePacketBuffer"
  by (simp add: rb_ok_def newReliablePacketBuffer_def ordered_from_def oldest_of_def)

lemma rb_content_new [simp]: "rb_content newReliablePacketBuffer = Map.empty"
  by (simp add: rb_content_def newReliablePacketBuffer_def)

lemma ordered_from_distinct: "ordered_from base l \<Longrightarrow> distinct (map getSeqnum l)"
  unfolding ordered_from_def by (induction l) auto

lemma rb_content_mem:
  assumes "rb_ok base b"
  shows "rb_content b s = Some p \<longleftrightarrow> p \<in> set (rb_list b) \<and> getSeqnum p = s"
proof -
  have "distinct (map fst (map (\<lambda>p. (getSeqnum p, p)) (rb_list b)))"
    using assms ordered_from_distinct [of base "rb_list b"] by (simp add: rb_ok_def comp_def)
  then have "rb_content b s = Some p \<longleftrightarrow> (s, p) \<in> set (map (\<lambda>p. (getSeqnum p, p)) (rb_list b))"
    unfolding rb_content_def by (rule map_of_eq_Some_iff)
  then show ?thesis by auto
qed

lemma rb_content_None: "rb_content b s = None \<longleftrightarrow> s \<notin> getSeqnum ` set (rb_list b)"
  by (simp add: rb_content_def map_of_eq_None_iff image_image)

lemma rb_content_key: "rb_ok base b \<Longrightarrow> rb_content b s = Some p \<Longrightarrow> reliable_packet s p"
  using rb_content_mem [of base b s p] by (auto simp: rb_ok_def)

lemma rb_ok_length:
  assumes "rb_ok base b"
  shows "length (rb_list b) \<le> 32768"
proof -
  let ?ds = "map (\<lambda>p. seqnum_dist base (getSeqnum p)) (rb_list b)"
  have "distinct ?ds"
    using assms ordered_from_distinct [of base "rb_list b"]
    by (auto simp: rb_ok_def distinct_map inj_on_def seqnum_dist_inj)
  then have "length ?ds = card (set ?ds)" by (simp only: distinct_card)
  also have "\<dots> \<le> card {..<32768 :: nat}"
    using assms by (intro card_mono) (auto simp: rb_ok_def)
  finally show ?thesis by simp
qed

lemma insert_before_dist:
  "insert_before seqnum nxt s \<longleftrightarrow> seqnum_dist nxt s < seqnum_dist nxt seqnum"
  using unat16_lt [of s] unat16_lt [of seqnum] unat16_lt [of nxt]
  by (auto simp: insert_before_def seqnum_dist_unat word_less_nat_alt word_le_nat_alt)

lemma insert_search_split:
  assumes "l \<noteq> [] \<longrightarrow> s = getSeqnum (hd l)"
  shows "insert_search seqnum nxt s passed l =
    (passed @ takeWhile (\<lambda>p. insert_before seqnum nxt (getSeqnum p)) l,
     dropWhile (\<lambda>p. insert_before seqnum nxt (getSeqnum p)) l,
     (case dropWhile (\<lambda>p. insert_before seqnum nxt (getSeqnum p)) l of
        [] \<Rightarrow> if l = [] then s else getSeqnum (last l) | q # _ \<Rightarrow> getSeqnum q))"
  using assms
proof (induction l arbitrary: s passed)
  case (Cons p l)
  then show ?case
    by (cases l) (auto split: list.split dest: dropWhile_eq_Nil_conv [THEN iffD2])
qed simp

text \<open>Splitting an ordered list at a distance.\<close>

lemma ordered_from_take_drop:
  fixes d :: nat
  assumes "ordered_from base l"
  defines "lo \<equiv> takeWhile (\<lambda>p. seqnum_dist base (getSeqnum p) < d) l"
    and "hi \<equiv> dropWhile (\<lambda>p. seqnum_dist base (getSeqnum p) < d) l"
  shows "\<forall>p\<in>set lo. seqnum_dist base (getSeqnum p) < d"
    and "\<forall>p\<in>set hi. d \<le> seqnum_dist base (getSeqnum p)"
proof -
  show "\<forall>p\<in>set lo. seqnum_dist base (getSeqnum p) < d"
    by (auto simp: lo_def dest: set_takeWhileD)
  have "ordered_from base hi"
    using assms(1) sorted_wrt_append [of _ lo hi]
    unfolding ordered_from_def lo_def hi_def takeWhile_dropWhile_id by blast
  moreover have "hi \<noteq> [] \<Longrightarrow> \<not> seqnum_dist base (getSeqnum (hd hi)) < d"
    unfolding hi_def by (rule hd_dropWhile)
  ultimately show "\<forall>p\<in>set hi. d \<le> seqnum_dist base (getSeqnum p)"
    by (cases hi) (auto simp: ordered_from_def)
qed

lemma ordered_from_insert:
  assumes "ordered_from base (lo @ hi)"
    and "\<forall>q\<in>set lo. seqnum_dist base (getSeqnum q) < seqnum_dist base (getSeqnum p)"
    and "\<forall>q\<in>set hi. seqnum_dist base (getSeqnum p) < seqnum_dist base (getSeqnum q)"
  shows "ordered_from base (lo @ p # hi)"
  using assms by (auto simp: ordered_from_def sorted_wrt_append)

lemma map_of_insert:
  "s \<notin> getSeqnum ` set (lo @ hi) \<Longrightarrow> getSeqnum p = s \<Longrightarrow>
    map_of (map (\<lambda>p. (getSeqnum p, p)) (lo @ p # hi)) =
    (map_of (map (\<lambda>p. (getSeqnum p, p)) (lo @ hi)))(s \<mapsto> p)"
  by (induction lo) (auto simp: fun_upd_twist)

lemma map_of_delete:
  "distinct (map getSeqnum (lo @ p # hi)) \<Longrightarrow>
    map_of (map (\<lambda>p. (getSeqnum p, p)) (lo @ hi)) =
    (map_of (map (\<lambda>p. (getSeqnum p, p)) (lo @ p # hi)))(getSeqnum p := None)"
proof (induction lo)
  case Nil
  then have "map_of (map (\<lambda>p. (getSeqnum p, p)) hi) (getSeqnum p) = None"
    by (auto simp: map_of_eq_None_iff)
  then show ?case by (auto intro!: ext)
next
  case (Cons q lo)
  then show ?case by (auto simp: fun_upd_twist)
qed

section \<open>The operations on ordered buffers\<close>

lemma rb_insert_reject:
  "\<not> (reliable_packet (getSeqnum p) p \<and>
      seqnum_in_window (getSeqnum p) nxt MAX_RELIABLE_WINDOW_SIZE \<and> getSeqnum p \<noteq> nxt) \<Longrightarrow>
    rb_insert p nxt b = Inr b"
  by (auto simp: rb_insert_def reliable_packet_def Let_def)

text \<open>What the code compares of a packet that arrives a second time.\<close>

definition same_packet :: "buffered_packet \<Rightarrow> buffered_packet \<Rightarrow> bool" where
  "same_packet q p \<longleftrightarrow> length (bp_data q) = length (bp_data p) \<and>
     address_eq (bp_address q) (bp_address p)"

lemma rb_insert_accept:
  assumes ok: "rb_ok nxt b" and p: "reliable_packet s p" and s: "0 < seqnum_dist nxt s"
    "seqnum_dist nxt s < 32768"
  shows "case rb_content b s of
      Some q \<Rightarrow> rb_insert p nxt b = (if same_packet q p then Inr b else Inl IncomingDataCorruption)
    | None \<Rightarrow> \<exists>b'. rb_insert p nxt b = Inr b' \<and> rb_ok nxt b' \<and>
        rb_content b' = (rb_content b)(s \<mapsto> p)"
proof -
  define lo where "lo = takeWhile (\<lambda>p. seqnum_dist nxt (getSeqnum p) < seqnum_dist nxt s) (rb_list b)"
  define hi where "hi = dropWhile (\<lambda>p. seqnum_dist nxt (getSeqnum p) < seqnum_dist nxt s) (rb_list b)"
  have l: "rb_list b = lo @ hi" by (simp add: lo_def hi_def)
  have sp: "getSeqnum p = s" using p by (simp add: reliable_packet_def)
  have ord: "ordered_from nxt (rb_list b)" using ok by (simp add: rb_ok_def)
  note lohi = ordered_from_take_drop [OF ord, of "seqnum_dist nxt s", folded lo_def hi_def]
  define s' where "s' = (case hi of [] \<Rightarrow> getSeqnum (last (rb_list b)) | q # _ \<Rightarrow> getSeqnum q)"
  have search: "insert_search s nxt (getSeqnum (hd (rb_list b))) [] (rb_list b) = (lo, hi, s')"
    if "rb_list b \<noteq> []"
    using that by (simp add: insert_search_split insert_before_dist lo_def hi_def s'_def)
  have w: "seqnum_in_window s nxt MAX_RELIABLE_WINDOW_SIZE" and "s \<noteq> nxt"
    using s by (auto simp: seq_arith MAX_RELIABLE_WINDOW_SIZE_def)
  have room: "length (rb_list b) \<le> SEQNUM_MAX"
    using rb_ok_length [OF ok] by (simp add: SEQNUM_MAX_def)
  have run: "rb_insert p nxt b =
      (if s' = s
       then case hi of [] \<Rightarrow> Inl Abort
         | i # _ \<Rightarrow> if getSeqnum i \<noteq> s \<or> \<not> same_packet i p then Inl IncomingDataCorruption
             else Inr (b\<lparr>m_oldest_non_answered_ack := oldest_of (rb_list b)\<rparr>)
       else Inr (b\<lparr>rb_list := lo @ p # hi, m_oldest_non_answered_ack := oldest_of (lo @ p # hi)\<rparr>))"
    if "rb_list b \<noteq> []"
  proof -
    note ne = that
    then obtain f fs where f: "rb_list b = f # fs" by (cases "rb_list b") auto
    have "rb_insert p nxt b = (case (lo, hi, s') of (passed, rest, s') \<Rightarrow>
       if s' = s
       then case rest of [] \<Rightarrow> Inl Abort
         | i # _ \<Rightarrow>
           if getSeqnum i \<noteq> s \<or> length (bp_data i) \<noteq> length (bp_data p) \<or>
              \<not> address_eq (bp_address i) (bp_address p)
           then Inl IncomingDataCorruption
           else Inr (b\<lparr>m_oldest_non_answered_ack := oldest_of (rb_list b)\<rparr>)
       else let l = passed @ p # rest in
         Inr (b\<lparr>rb_list := l, m_oldest_non_answered_ack := oldest_of l\<rparr>))"
      using p w \<open>s \<noteq> nxt\<close> room search [OF ne] unfolding f list.sel
      by (simp add: rb_insert_def reliable_packet_def Let_def f split: list.split)
    then show ?thesis by (simp add: same_packet_def Let_def split: list.split)
  qed
  have b_same: "b\<lparr>m_oldest_non_answered_ack := oldest_of (rb_list b)\<rparr> = b"
    using ok by (simp add: rb_ok_def)
  show ?thesis
  proof (cases "rb_content b s")
    case (Some q)
    then have q: "q \<in> set (rb_list b)" "getSeqnum q = s"
      using rb_content_mem [OF ok] by auto
    then have "q \<in> set hi" using lohi l by auto
    then obtain i hi' where hi: "hi = i # hi'" by (cases hi) auto
    have "i = q"
    proof (rule ccontr)
      assume "i \<noteq> q"
      then have "q \<in> set hi'" using \<open>q \<in> set hi\<close> hi by auto
      then have "seqnum_dist nxt (getSeqnum i) < seqnum_dist nxt (getSeqnum q)"
        using ord by (auto simp: ordered_from_def l hi sorted_wrt_append)
      then show False using lohi(2) hi q by auto
    qed
    moreover have "rb_list b \<noteq> []" using q by auto
    ultimately show ?thesis
      using Some run q hi b_same by (auto simp: s'_def)
  next
    case None
    then have notin: "s \<notin> getSeqnum ` set (lo @ hi)" by (simp add: rb_content_None l)
    have ne: "getSeqnum q \<noteq> s" if "q \<in> set (rb_list b)" for q
      using that notin l by auto
    let ?b = "b\<lparr>rb_list := lo @ p # hi, m_oldest_non_answered_ack := oldest_of (lo @ p # hi)\<rparr>"
    have "rb_insert p nxt b = Inr ?b"
    proof (cases "rb_list b = []")
      case True
      then show ?thesis
        using p w \<open>s \<noteq> nxt\<close> l
        by (auto simp: rb_insert_def reliable_packet_def Let_def oldest_of_def)
    next
      case False
      then have "s' \<noteq> s"
        using ne ne [OF last_in_set [OF False]] l by (auto simp: s'_def split: list.split)
      then show ?thesis by (simp add: run [OF False])
    qed
    moreover have "\<forall>q\<in>set hi. seqnum_dist nxt s < seqnum_dist nxt (getSeqnum q)"
      using lohi(2) ne l by (auto simp: le_less seqnum_dist_inj)
    then have "ordered_from nxt (lo @ p # hi)"
      using ord lohi(1) by (intro ordered_from_insert) (simp_all add: l sp)
    then have "rb_ok nxt ?b"
      using ok p s sp by (auto simp: rb_ok_def l)
    moreover have "rb_content ?b = (rb_content b)(s \<mapsto> p)"
      using map_of_insert [OF notin sp] by (simp add: rb_content_def l)
    ultimately show ?thesis using None by auto
  qed
qed

lemma oldest_of_list: "l \<noteq> [] \<Longrightarrow> oldest_of l = getSeqnum (hd l)"
  by (cases l) (simp_all add: oldest_of_def)

lemma rb_ok_remove:
  assumes "rb_ok base b" and "rb_list b = lo @ p # hi"
  defines "b' \<equiv> b\<lparr>rb_list := lo @ hi, m_oldest_non_answered_ack := oldest_of (lo @ hi)\<rparr>"
  shows "rb_ok base b'" and "rb_content b' = (rb_content b)(getSeqnum p := None)"
proof -
  show "rb_ok base b'"
    using assms(1) by (auto simp: rb_ok_def b'_def assms(2) ordered_from_def sorted_wrt_append)
  show "rb_content b' = (rb_content b)(getSeqnum p := None)"
    using assms(1) map_of_delete [of lo p hi] ordered_from_distinct [of base "rb_list b"]
    by (simp add: rb_content_def b'_def assms(2) rb_ok_def)
qed

lemma popSeqnum_content:
  assumes "rb_ok base b"
  shows "case rb_content b s of
      None \<Rightarrow> popSeqnum s b = Inl NotFoundException
    | Some p \<Rightarrow> \<exists>b'. popSeqnum s b = Inr (p, b') \<and> rb_ok base b' \<and>
        rb_content b' = (rb_content b)(s := None)"
proof (cases "dropWhile (\<lambda>p. getSeqnum p \<noteq> s) (rb_list b)")
  case Nil
  then have "rb_content b s = None" by (auto simp: rb_content_None)
  moreover have "popSeqnum s b = Inl NotFoundException"
    unfolding popSeqnum_def findPacketNoLock_def Nil by simp
  ultimately show ?thesis by simp
next
  case (Cons p rest)
  let ?lo = "takeWhile (\<lambda>p. getSeqnum p \<noteq> s) (rb_list b)"
  have l: "rb_list b = ?lo @ p # rest"
    using Cons by (metis takeWhile_dropWhile_id)
  have p: "getSeqnum p = s"
    using Cons by (metis (mono_tags, lifting) dropWhile_eq_Cons_conv)
  then have "rb_content b s = Some p"
    using rb_content_mem [OF assms, of s p] in_set_conv_decomp [of p "rb_list b"] l by blast
  then show ?thesis
    using rb_ok_remove [OF assms l] p Cons
    by (auto simp: popSeqnum_def findPacketNoLock_def)
qed

lemma popFirst_content:
  assumes "rb_ok base b" and "getFirstSeqnum b = Some s"
  shows "\<exists>p b'. popFirst b = Inr (p, b') \<and> rb_content b s = Some p \<and> rb_ok base b' \<and>
    rb_content b' = (rb_content b)(s := None)"
proof -
  obtain p l where l: "rb_list b = p # l" "getSeqnum p = s"
    using assms(2) by (auto simp: getFirstSeqnum_def split: list.split_asm)
  then have "rb_content b s = Some p" by (simp add: rb_content_def)
  then show ?thesis
    using rb_ok_remove [OF assms(1), of "[]" p l] l by (auto simp: popFirst_def)
qed

lemma getFirstSeqnum_least:
  assumes "rb_ok base b" and "getFirstSeqnum b = Some s"
  shows "rb_content b s \<noteq> None"
    and "rb_content b t \<noteq> None \<Longrightarrow> seqnum_dist base s \<le> seqnum_dist base t"
proof -
  obtain p l where l: "rb_list b = p # l" "getSeqnum p = s"
    using assms(2) by (auto simp: getFirstSeqnum_def split: list.split_asm)
  then show "rb_content b s \<noteq> None" by (simp add: rb_content_def)
  assume "rb_content b t \<noteq> None"
  then have "t \<in> getSeqnum ` set (p # l)" by (simp add: rb_content_None l)
  then show "seqnum_dist base s \<le> seqnum_dist base t"
    using assms(1) l by (auto simp: rb_ok_def ordered_from_def)
qed

lemma getFirstSeqnum_None: "getFirstSeqnum b = None \<longleftrightarrow> rb_content b = Map.empty"
  by (cases "rb_list b") (auto simp: getFirstSeqnum_def rb_content_def)

lemma rb_ok_step:
  assumes "rb_ok base b" and "rb_content b base = None"
  shows "rb_ok (base + 1) b"
proof -
  have d: "seqnum_dist base (getSeqnum p) = seqnum_dist (base + 1) (getSeqnum p) + 1"
    if "p \<in> set (rb_list b)" for p
  proof -
    have ne: "getSeqnum p \<noteq> base" using assms(2) that by (auto simp: rb_content_None)
    then have "seqnum_dist base (getSeqnum p) \<noteq> 0" by simp
    then show ?thesis using seqnum_dist_succ [OF ne] by linarith
  qed
  have "ordered_from (base + 1) (rb_list b)"
    unfolding ordered_from_def
  proof (rule sorted_wrt_mono_rel)
    show "sorted_wrt (\<lambda>p q. seqnum_dist base (getSeqnum p) < seqnum_dist base (getSeqnum q))
        (rb_list b)"
      using assms(1) by (simp add: rb_ok_def ordered_from_def)
  qed (simp add: d)
  moreover have "seqnum_dist (base + 1) (getSeqnum p) < 32768" if "p \<in> set (rb_list b)" for p
    using assms(1) d [OF that] that by (auto simp: rb_ok_def)
  ultimately show ?thesis using assms(1) by (simp add: rb_ok_def)
qed

section \<open>The contract of the buffer\<close>

text \<open>
  What the connection relies on: packets are kept by sequence number, the first one is
  the nearest after the next expected number, and the expected number can move on when
  no packet with that number is kept.
\<close>

locale packet_store =
  fixes content :: "'b \<Rightarrow> u16 \<Rightarrow> 'p option"
    and inv :: "u16 \<Rightarrow> 'b \<Rightarrow> bool"
    and keyed :: "u16 \<Rightarrow> 'p \<Rightarrow> bool"
    and add :: "'p \<Rightarrow> u16 \<Rightarrow> 'b \<Rightarrow> con_error + 'b"
    and first_key :: "'b \<Rightarrow> u16 option"
    and pop_first :: "'b \<Rightarrow> con_error + 'p \<times> 'b"
    and pop_key :: "u16 \<Rightarrow> 'b \<Rightarrow> con_error + 'p \<times> 'b"
  assumes add_new: "inv n b \<Longrightarrow> keyed s p \<Longrightarrow> 0 < seqnum_dist n s \<Longrightarrow> seqnum_dist n s < 32768 \<Longrightarrow>
      content b s = None \<Longrightarrow>
      \<exists>b'. add p n b = Inr b' \<and> inv n b' \<and> content b' = (content b)(s \<mapsto> p)"
    and first_empty: "first_key b = None \<longleftrightarrow> content b = Map.empty"
    and first_in: "inv n b \<Longrightarrow> first_key b = Some s \<Longrightarrow> content b s \<noteq> None"
    and first_least: "inv n b \<Longrightarrow> first_key b = Some s \<Longrightarrow> content b t \<noteq> None \<Longrightarrow>
      seqnum_dist n s \<le> seqnum_dist n t"
    and pop_first_law: "inv n b \<Longrightarrow> first_key b = Some s \<Longrightarrow>
      \<exists>p b'. pop_first b = Inr (p, b') \<and> content b s = Some p \<and> inv n b' \<and>
        content b' = (content b)(s := None)"
    and pop_key_in: "inv n b \<Longrightarrow> content b s = Some p \<Longrightarrow>
      \<exists>b'. pop_key s b = Inr (p, b') \<and> inv n b' \<and> content b' = (content b)(s := None)"
    and pop_key_out: "inv n b \<Longrightarrow> content b s = None \<Longrightarrow> pop_key s b = Inl NotFoundException"
    and step: "inv n b \<Longrightarrow> content b n = None \<Longrightarrow> inv (n + 1) b"
begin

text \<open>The first packet is the expected one exactly if that one is there at all.\<close>

lemma first_expected:
  assumes "inv n b"
  shows "first_key b = Some n \<longleftrightarrow> content b n \<noteq> None"
proof
  assume n: "content b n \<noteq> None"
  then obtain s where s: "first_key b = Some s"
    using first_empty [of b] by (cases "first_key b") auto
  have "seqnum_dist n s \<le> seqnum_dist n n"
    using assms s n by (rule first_least)
  then show "first_key b = Some n" using s by simp
qed (simp add: first_in [OF assms])

text \<open>One round of emptying the buffer in order.\<close>

lemma pop_expected:
  assumes "inv n b" and "content b n \<noteq> None"
  shows "\<exists>p b'. pop_first b = Inr (p, b') \<and> content b n = Some p \<and> inv (n + 1) b' \<and>
    content b' = (content b)(n := None)"
proof -
  obtain p b' where "pop_first b = Inr (p, b')" "content b n = Some p" "inv n b'"
    and c: "content b' = (content b)(n := None)"
    using pop_first_law [OF assms(1)] first_expected [OF assms(1)] assms(2) by blast
  moreover have "content b' n = None" by (simp add: c)
  ultimately show ?thesis using step by blast
qed

text \<open>A key that has been popped is gone, so it cannot be popped twice.\<close>

lemma pop_once:
  assumes "inv n b" and "pop_key s b = Inr (p, b')"
  shows "pop_key s b' = Inl NotFoundException"
proof -
  have "content b s \<noteq> None"
    using pop_key_out [OF assms(1), of s] assms(2) by auto
  then obtain q where "content b s = Some q" by auto
  then show ?thesis
    using pop_key_in [OF assms(1)] pop_key_out assms(2) by fastforce
qed

end

interpretation rel: packet_store rb_content rb_ok reliable_packet rb_insert getFirstSeqnum
  popFirst popSeqnum
proof unfold_locales
  fix n s b and p :: buffered_packet
  assume "rb_ok n b" "reliable_packet s p" "0 < seqnum_dist n s" "seqnum_dist n s < 32768"
    "rb_content b s = None"
  then show "\<exists>b'. rb_insert p n b = Inr b' \<and> rb_ok n b' \<and> rb_content b' = (rb_content b)(s \<mapsto> p)"
    using rb_insert_accept [of n b s p] by simp
next
  fix n s b and p :: buffered_packet
  assume "rb_ok n b" "rb_content b s = Some p"
  then show "\<exists>b'. popSeqnum s b = Inr (p, b') \<and> rb_ok n b' \<and>
      rb_content b' = (rb_content b)(s := None)"
    using popSeqnum_content [of n b s] by simp
next
  fix n s b
  assume "rb_ok n b" "rb_content b s = None"
  then show "popSeqnum s b = Inl NotFoundException"
    using popSeqnum_content [of n b s] by simp
qed (auto simp: getFirstSeqnum_None getFirstSeqnum_least(1) intro: getFirstSeqnum_least(2)
    popFirst_content rb_ok_step)

section \<open>Resending\<close>

definition resend_due :: "real \<Rightarrow> buffered_packet \<Rightarrow> bool" where
  "resend_due timeout p \<longleftrightarrow> timeout * RESEND_SCALE_BASE ^ unat (bp_resend_count p) \<le> bp_time p"

definition resent :: "buffered_packet \<Rightarrow> buffered_packet" where
  "resent p = p\<lparr>bp_time := 0, bp_resend_count := bp_resend_count p + 1\<rparr>"

definition resent_if_due :: "real \<Rightarrow> buffered_packet \<Rightarrow> buffered_packet" where
  "resent_if_due timeout p = (if resend_due timeout p then resent p else p)"

lemma resent_fields [simp]:
  "bp_data (resent p) = bp_data p" "bp_address (resent p) = bp_address p"
  "getSeqnum (resent p) = getSeqnum p" "bp_totaltime (resent p) = bp_totaltime p"
  by (simp_all add: resent_def getSeqnum_def)

lemma resent_if_due_fields [simp]:
  "bp_data (resent_if_due t p) = bp_data p" "bp_address (resent_if_due t p) = bp_address p"
  "getSeqnum (resent_if_due t p) = getSeqnum p"
  by (simp_all add: resent_if_due_def)

lemma resend_loop_Cons:
  "resend_loop timeout m n (p # ps) =
    (if \<not> resend_due timeout p
     then (fst (resend_loop timeout m n ps), p # snd (resend_loop timeout m n ps))
     else if m \<le> n + 1 then ([resent p], resent p # ps)
     else (resent p # fst (resend_loop timeout m (n + 1) ps),
       resent p # snd (resend_loop timeout m (n + 1) ps)))"
  by (simp add: Let_def resend_due_def resent_def not_less case_prod_unfold)

lemma resend_loop_prefix:
  "\<exists>k \<le> length l. resend_loop timeout m n l =
     (map resent (filter (resend_due timeout) (take k l)),
      map (resent_if_due timeout) (take k l) @ drop k l) \<and>
     n + length (filter (resend_due timeout) (take k l)) \<le> max (n + 1) m \<and>
     (k < length l \<longrightarrow> m \<le> n + length (filter (resend_due timeout) (take k l)))"
proof (induction l arbitrary: n)
  case (Cons p l)
  show ?case
  proof (cases "resend_due timeout p \<and> m \<le> n + 1")
    case True
    then show ?thesis
      by (intro exI [of _ 1]) (simp add: resend_loop_Cons resent_if_due_def del: resend_loop.simps(2))
  next
    case False
    let ?n = "if resend_due timeout p then n + 1 else n"
    from Cons.IH [of ?n] obtain k where "k \<le> length l" and
      "resend_loop timeout m ?n l = (map resent (filter (resend_due timeout) (take k l)),
        map (resent_if_due timeout) (take k l) @ drop k l)" and
      "?n + length (filter (resend_due timeout) (take k l)) \<le> max (?n + 1) m" and
      "k < length l \<longrightarrow> m \<le> ?n + length (filter (resend_due timeout) (take k l))"
      by blast
    with False show ?thesis
      by (intro exI [of _ "k + 1"])
        (auto simp: resend_loop_Cons resent_if_due_def simp del: resend_loop.simps(2) split: if_splits)
  qed
qed simp

section \<open>Properties\<close>

definition rb_storable :: "u16 \<Rightarrow> buffered_packet \<Rightarrow> bool" where
  "rb_storable nxt p \<longleftrightarrow> reliable_packet (getSeqnum p) p \<and>
     seqnum_in_window (getSeqnum p) nxt MAX_RELIABLE_WINDOW_SIZE \<and> getSeqnum p \<noteq> nxt"

lemma rb_insert_result:
  assumes ok: "rb_ok nxt b"
  shows "case rb_insert p nxt b of
      Inl e \<Rightarrow> e = IncomingDataCorruption \<and> rb_storable nxt p \<and>
        (\<exists>q. rb_content b (getSeqnum p) = Some q \<and> \<not> same_packet q p)
    | Inr b' \<Rightarrow> rb_ok nxt b' \<and> rb_content b' =
        (if rb_storable nxt p \<and> rb_content b (getSeqnum p) = None
         then (rb_content b)(getSeqnum p \<mapsto> p) else rb_content b)"
proof (cases "rb_storable nxt p")
  case True
  then have "0 < seqnum_dist nxt (getSeqnum p)" "seqnum_dist nxt (getSeqnum p) < 32768"
    by (auto simp: rb_storable_def seq_arith MAX_RELIABLE_WINDOW_SIZE_def intro: gr0I)
  with rb_insert_accept [OF ok, of "getSeqnum p" p] True ok show ?thesis
    by (cases "rb_content b (getSeqnum p)") (auto simp: rb_storable_def)
next
  case False
  then show ?thesis using rb_insert_reject [of p nxt b] ok by (auto simp: rb_storable_def)
qed

text \<open>
  C12.  The buffer is a finite map from sequence numbers to packets, held in the order of
  the distance from the next expected number.  From a buffer in order, inserting any
  packet stores it if it is reliable, in the window, not the expected one and new;
  otherwise it leaves the content alone, or reports corruption if a packet of another
  size or sender is stored under the number.  Popping removes the packet with the number,
  or reports that there is none; popping the first removes the one nearest to the
  expected number.  The order is kept, and no check that ends the process can fail.
\<close>

theorem rb_refines_map:
  assumes ok: "rb_ok nxt b"
  shows "(case rb_insert p nxt b of
      Inl e \<Rightarrow> e = IncomingDataCorruption \<and> rb_storable nxt p \<and>
        (\<exists>q. rb_content b (getSeqnum p) = Some q \<and> \<not> same_packet q p)
    | Inr b' \<Rightarrow> rb_ok nxt b' \<and> rb_content b' =
        (if rb_storable nxt p \<and> rb_content b (getSeqnum p) = None
         then (rb_content b)(getSeqnum p \<mapsto> p) else rb_content b)) \<and>
    (case popSeqnum s b of
      Inl e \<Rightarrow> e = NotFoundException \<and> rb_content b s = None
    | Inr (q, b') \<Rightarrow> rb_content b s = Some q \<and> rb_ok nxt b' \<and>
        rb_content b' = (rb_content b)(s := None)) \<and>
    (case popFirst b of
      Inl e \<Rightarrow> e = NotFoundException \<and> rb_content b = Map.empty
    | Inr (q, b') \<Rightarrow> rb_content b (getSeqnum q) = Some q \<and> rb_ok nxt b' \<and>
        (\<forall>t. rb_content b t \<noteq> None \<longrightarrow> seqnum_dist nxt (getSeqnum q) \<le> seqnum_dist nxt t) \<and>
        rb_content b' = (rb_content b)(getSeqnum q := None))"
proof (intro conjI)
  show "case rb_insert p nxt b of
      Inl e \<Rightarrow> e = IncomingDataCorruption \<and> rb_storable nxt p \<and>
        (\<exists>q. rb_content b (getSeqnum p) = Some q \<and> \<not> same_packet q p)
    | Inr b' \<Rightarrow> rb_ok nxt b' \<and> rb_content b' =
        (if rb_storable nxt p \<and> rb_content b (getSeqnum p) = None
         then (rb_content b)(getSeqnum p \<mapsto> p) else rb_content b)"
    by (rule rb_insert_result [OF ok])
  show "case popSeqnum s b of
      Inl e \<Rightarrow> e = NotFoundException \<and> rb_content b s = None
    | Inr (q, b') \<Rightarrow> rb_content b s = Some q \<and> rb_ok nxt b' \<and>
        rb_content b' = (rb_content b)(s := None)"
    using rel.pop_key_in [OF ok, of s] rel.pop_key_out [OF ok, of s]
    by (cases "rb_content b s") auto
  show "case popFirst b of
      Inl e \<Rightarrow> e = NotFoundException \<and> rb_content b = Map.empty
    | Inr (q, b') \<Rightarrow> rb_content b (getSeqnum q) = Some q \<and> rb_ok nxt b' \<and>
        (\<forall>t. rb_content b t \<noteq> None \<longrightarrow> seqnum_dist nxt (getSeqnum q) \<le> seqnum_dist nxt t) \<and>
        rb_content b' = (rb_content b)(getSeqnum q := None)"
  proof (cases "getFirstSeqnum b")
    case None
    then have "rb_list b = []" by (simp add: getFirstSeqnum_def split: list.split_asm)
    then show ?thesis by (simp add: popFirst_def rb_content_def)
  next
    case (Some t)
    with rel.pop_first_law [OF ok Some] obtain q b' where q: "popFirst b = Inr (q, b')"
      "rb_content b t = Some q" "rb_ok nxt b'" "rb_content b' = (rb_content b)(t := None)"
      by blast
    moreover have "getSeqnum q = t" using rb_content_mem [OF ok] q(2) by blast
    ultimately show ?thesis using rel.first_least [OF ok Some] by auto
  qed
qed

theorem rb_refines_map_witness:
  defines "p \<equiv> makePacket newAddress (makeReliablePacket [7] 3) PROTOCOL_ID 1 0"
  shows "case rb_insert p 65530 newReliablePacketBuffer of
      Inl e \<Rightarrow> False
    | Inr b' \<Rightarrow> rb_ok 65530 b' \<and> rb_content b' = [3 \<mapsto> p]"
proof -
  have "getSeqnum p = 3" "reliable_packet 3 p"
    by (simp_all add: p_def reliable_packet_def makeReliablePacket_def getSeqnum_def wire
        packet_sizes makePacket_def newBufferedPacket_def)
  moreover have "seqnum_in_window 3 65530 MAX_RELIABLE_WINDOW_SIZE"
    by (simp add: seqnum_in_window_def MAX_RELIABLE_WINDOW_SIZE_def SEQNUM_MAX_def)
  ultimately show ?thesis
    using rb_refines_map [OF rb_ok_new [of 65530], of p 3]
    by (auto simp: rb_storable_def split: sum.split_asm sum.split)
qed

text \<open>
  Resending goes through the list in order and stops when the limit is reached: the
  packets up to some place are handled, each one whose waiting time has run out is
  returned, its waiting time starts again and its counter goes up (so the next wait is
  one and a half times as long); all others stay as they are.  The handling ends early
  only when the limit is reached, and at most the limit is returned, but at least one
  packet can be.
\<close>

theorem getResend_correct:
  "\<exists>k \<le> length (rb_list b). rb_getResend timeout m b =
     (map resent (filter (resend_due timeout) (take k (rb_list b))),
      b\<lparr>rb_list := map (resent_if_due timeout) (take k (rb_list b)) @ drop k (rb_list b)\<rparr>) \<and>
     length (filter (resend_due timeout) (take k (rb_list b))) \<le> max 1 m \<and>
     (k = length (rb_list b) \<or> m \<le> length (filter (resend_due timeout) (take k (rb_list b))))"
proof -
  obtain k where "k \<le> length (rb_list b)" and
    "resend_loop timeout m 0 (rb_list b) =
       (map resent (filter (resend_due timeout) (take k (rb_list b))),
        map (resent_if_due timeout) (take k (rb_list b)) @ drop k (rb_list b))" and
    "length (filter (resend_due timeout) (take k (rb_list b))) \<le> max 1 m" and
    "k < length (rb_list b) \<longrightarrow> m \<le> length (filter (resend_due timeout) (take k (rb_list b)))"
    using resend_loop_prefix [of "rb_list b" timeout m 0] by auto
  then show ?thesis
    by (intro exI [of _ k]) (auto simp: rb_getResend_def)
qed

end
