(* ===== verification/Channel.thy ===== *)
theory Channel
  imports SplitBuffer ReliableBuffer NetworkPacket
begin

text \<open>
  \<open>ConnectionCommand\<close> and \<open>Channel\<close> of \<open>src/network/mtp\<close>: the queues of one of the three
  channels of a peer, its sequence numbers, and the adaption of its send window.  Rates
  and timers are real numbers, counters are 32-bit words, and intermediate results that
  the code computes on \<open>int\<close> or \<open>long\<close> are integers.
\<close>

section \<open>Commands\<close>

datatype command_type = CONNCMD_NONE | CONNCMD_SERVE | CONNCMD_CONNECT | CONNCMD_DISCONNECT
  | CONNCMD_DISCONNECT_PEER | CONNCMD_SEND | CONNCMD_SEND_TO_ALL | CONCMD_ACK
  | CONCMD_CREATE_PEER | CONNCMD_RESEND_ONE | CONNCMD_PEER_ID_SET

record connection_command =
  cc_type :: command_type
  cc_address :: address
  cc_peer_id :: u16
  cc_channelnum :: u8
  cc_data :: bytes
  cc_reliable :: bool
  cc_raw :: bool

definition newCommand :: "command_type \<Rightarrow> connection_command" where
  "newCommand t = \<lparr>cc_type = t, cc_address = newAddress, cc_peer_id = PEER_ID_INEXISTENT,
     cc_channelnum = 0, cc_data = [], cc_reliable = False, cc_raw = False\<rparr>"

definition cmd_serve :: "address \<Rightarrow> connection_command" where
  "cmd_serve a = (newCommand CONNCMD_SERVE)\<lparr>cc_address := a\<rparr>"

definition cmd_connect :: "address \<Rightarrow> connection_command" where
  "cmd_connect a = (newCommand CONNCMD_CONNECT)\<lparr>cc_address := a\<rparr>"

definition cmd_disconnect :: connection_command where
  "cmd_disconnect = newCommand CONNCMD_DISCONNECT"

definition cmd_disconnect_peer :: "u16 \<Rightarrow> connection_command" where
  "cmd_disconnect_peer peer_id = (newCommand CONNCMD_DISCONNECT_PEER)\<lparr>cc_peer_id := peer_id\<rparr>"

definition cmd_resend_one :: "u16 \<Rightarrow> connection_command" where
  "cmd_resend_one peer_id = (newCommand CONNCMD_RESEND_ONE)
     \<lparr>cc_peer_id := peer_id, cc_channelnum := 0, cc_reliable := True\<rparr>"

definition cmd_peer_id_set :: "u16 \<Rightarrow> connection_command" where
  "cmd_peer_id_set own_peer_id = (newCommand CONNCMD_PEER_ID_SET)\<lparr>cc_peer_id := own_peer_id\<rparr>"

definition cmd_send :: "u16 \<Rightarrow> u8 \<Rightarrow> net_packet \<Rightarrow> bool \<Rightarrow> connection_command option" where
  "cmd_send peer_id channelnum pkt reliable =
     map_option (\<lambda>data. (newCommand CONNCMD_SEND)
       \<lparr>cc_peer_id := peer_id, cc_channelnum := channelnum, cc_reliable := reliable,
        cc_data := data\<rparr>) (oldForgePacket pkt)"

definition cmd_ack :: "u16 \<Rightarrow> u8 \<Rightarrow> bytes \<Rightarrow> connection_command" where
  "cmd_ack peer_id channelnum data = (newCommand CONCMD_ACK)
     \<lparr>cc_peer_id := peer_id, cc_channelnum := channelnum, cc_reliable := False, cc_data := data\<rparr>"

definition cmd_create_peer :: "u16 \<Rightarrow> bytes \<Rightarrow> connection_command" where
  "cmd_create_peer peer_id data = (newCommand CONCMD_CREATE_PEER)
     \<lparr>cc_peer_id := peer_id, cc_channelnum := 0, cc_reliable := True, cc_raw := True,
      cc_data := data\<rparr>"

section \<open>State\<close>

definition MAX_RELIABLE_WINDOW_SIZE_SEND :: int where
  "MAX_RELIABLE_WINDOW_SIZE_SEND = 2048"

definition START_RELIABLE_WINDOW_SIZE :: int where
  "START_RELIABLE_WINDOW_SIZE = 256"

definition MIN_RELIABLE_WINDOW_SIZE :: int where
  "MIN_RELIABLE_WINDOW_SIZE = 32"

lemmas window_sizes = MAX_RELIABLE_WINDOW_SIZE_SEND_def START_RELIABLE_WINDOW_SIZE_def
  MIN_RELIABLE_WINDOW_SIZE_def

record rates =
  max_kbps :: real
  cur_kbps :: real
  avg_kbps :: real
  max_incoming_kbps :: real
  cur_incoming_kbps :: real
  avg_incoming_kbps :: real
  max_kbps_lost :: real
  cur_kbps_lost :: real
  avg_kbps_lost :: real
  bpm_counter :: real
  rate_samples :: u32

record channel =
  incoming_reliables :: reliable_buffer
  outgoing_reliables_sent :: reliable_buffer
  queued_reliables :: "buffered_packet list"
  queued_commands :: "connection_command list"
  incoming_splits :: split_buffer
  m_window_size :: u16
  next_incoming_seqnum :: u16
  next_outgoing_seqnum :: u16
  next_outgoing_split_seqnum :: u16
  current_packet_loss :: u32
  current_packet_too_late :: u32
  current_packet_successful :: u32
  packet_loss_counter :: real
  current_bytes_transfered :: u32
  current_bytes_received :: u32
  current_bytes_lost :: u32
  ch_rates :: rates

definition newRates :: rates where
  "newRates = \<lparr>max_kbps = 0, cur_kbps = 0, avg_kbps = 0, max_incoming_kbps = 0,
     cur_incoming_kbps = 0, avg_incoming_kbps = 0, max_kbps_lost = 0, cur_kbps_lost = 0,
     avg_kbps_lost = 0, bpm_counter = 0, rate_samples = 0\<rparr>"

definition newChannel :: channel where
  "newChannel = \<lparr>incoming_reliables = newReliablePacketBuffer,
     outgoing_reliables_sent = newReliablePacketBuffer, queued_reliables = [],
     queued_commands = [], incoming_splits = (\<lambda>_. None),
     m_window_size = word_of_int MIN_RELIABLE_WINDOW_SIZE,
     next_incoming_seqnum = SEQNUM_INITIAL, next_outgoing_seqnum = SEQNUM_INITIAL,
     next_outgoing_split_seqnum = SEQNUM_INITIAL, current_packet_loss = 0,
     current_packet_too_late = 0, current_packet_successful = 0, packet_loss_counter = 0,
     current_bytes_transfered = 0, current_bytes_received = 0, current_bytes_lost = 0,
     ch_rates = newRates\<rparr>"

section \<open>Sequence numbers\<close>

text \<open>\<open>readNextIncomingSeqNum\<close>, \<open>readOutgoingSequenceNumber\<close> and the like are the fields.\<close>

definition incNextIncomingSeqNum :: "channel \<Rightarrow> u16 \<times> channel" where
  "incNextIncomingSeqNum ch =
     (next_incoming_seqnum ch, ch\<lparr>next_incoming_seqnum := next_incoming_seqnum ch + 1\<rparr>)"

definition setNextSplitSeqNum :: "u16 \<Rightarrow> channel \<Rightarrow> channel" where
  "setNextSplitSeqNum seqnum ch = ch\<lparr>next_outgoing_split_seqnum := seqnum\<rparr>"

text \<open>The number, whether it was granted, and the channel afterwards.\<close>

definition getOutgoingSequenceNumber :: "channel \<Rightarrow> u16 \<times> bool \<times> channel" where
  "getOutgoingSequenceNumber ch =
     (let retval = next_outgoing_seqnum ch;
          granted = (retval, True, ch\<lparr>next_outgoing_seqnum := retval + 1\<rparr>) in
      if rb_empty (outgoing_reliables_sent ch) then granted
      else
        case getFirstSeqnum (outgoing_reliables_sent ch) of
          None \<Rightarrow> granted
        | Some lowest_unacked \<Rightarrow>
            if lowest_unacked < retval
            then if retval - lowest_unacked > m_window_size ch then (0, False, ch) else granted
            else if uint retval + (int SEQNUM_MAX - uint lowest_unacked) > uint (m_window_size ch)
              then (0, False, ch) else granted)"

definition putBackSequenceNumber :: "u16 \<Rightarrow> channel \<Rightarrow> bool \<times> channel" where
  "putBackSequenceNumber seqnum ch =
     (if (uint seqnum + 1) mod (int SEQNUM_MAX + 1) = uint (next_outgoing_seqnum ch)
      then (True, ch\<lparr>next_outgoing_seqnum := seqnum\<rparr>) else (False, ch))"

section \<open>Counters and the send window\<close>

definition setWindowSize :: "int \<Rightarrow> channel \<Rightarrow> channel" where
  "setWindowSize sz ch = ch\<lparr>m_window_size := word_of_int
     (if sz < MIN_RELIABLE_WINDOW_SIZE then MIN_RELIABLE_WINDOW_SIZE
      else if sz > MAX_RELIABLE_WINDOW_SIZE_SEND then MAX_RELIABLE_WINDOW_SIZE_SEND else sz)\<rparr>"

definition UpdateBytesSent :: "u32 \<Rightarrow> u32 \<Rightarrow> channel \<Rightarrow> channel" where
  "UpdateBytesSent sent packets ch = ch
     \<lparr>current_bytes_transfered := current_bytes_transfered ch + sent,
      current_packet_successful := current_packet_successful ch + packets\<rparr>"

definition UpdateBytesReceived :: "u32 \<Rightarrow> channel \<Rightarrow> channel" where
  "UpdateBytesReceived received ch =
     ch\<lparr>current_bytes_received := current_bytes_received ch + received\<rparr>"

definition UpdateBytesLost :: "u32 \<Rightarrow> channel \<Rightarrow> channel" where
  "UpdateBytesLost lost ch = ch\<lparr>current_bytes_lost := current_bytes_lost ch + lost\<rparr>"

definition UpdatePacketLossCounter :: "u32 \<Rightarrow> channel \<Rightarrow> channel" where
  "UpdatePacketLossCounter count ch =
     ch\<lparr>current_packet_loss := current_packet_loss ch + count\<rparr>"

definition UpdatePacketTooLateCounter :: "channel \<Rightarrow> channel" where
  "UpdatePacketTooLateCounter ch =
     ch\<lparr>current_packet_too_late := current_packet_too_late ch + 1\<rparr>"

text \<open>
  The first half of \<open>UpdateTimers\<close>, run about once a second.  The quotient of the two
  counters is a quotient of unsigned integers, only then converted to \<open>float\<close>.
\<close>

definition update_window :: "channel \<Rightarrow> channel" where
  "update_window ch0 =
     (let packets_successful = current_packet_successful ch0;
          packet_too_late = current_packet_too_late ch0;
          reasonable = current_bytes_transfered ch0 >
            word_of_int (uint (m_window_size ch0) * 512 div 2);
          packet_loss = min (current_packet_loss ch0 + packet_too_late) packets_successful;
          ch = ch0\<lparr>current_packet_loss := 0, current_packet_too_late := 0,
                   current_packet_successful := 0\<rparr>;
          w = uint (m_window_size ch) in
      if \<not> packets_successful > 0 \<and> packet_loss > 0 then setWindowSize (w - 10) ch
      else
        let ratio = (if packets_successful > 0
              then real_of_int (uint (packet_loss div packets_successful)) else 0) in
        if ratio < 0.01 then if reasonable then setWindowSize (w * 2) ch else ch
        else if ratio < 0.05 then if reasonable then setWindowSize (w + 50) ch else ch
        else if ratio > 0.15 then setWindowSize (w - 100) ch
        else if ratio > 0.1 then setWindowSize (w - 50) ch
        else ch)"

definition kbps :: "u32 \<Rightarrow> real \<Rightarrow> real" where
  "kbps amount seconds = real (unat amount) / seconds / 1024"

definition moving_average :: "real \<Rightarrow> real \<Rightarrow> real \<Rightarrow> real" where
  "moving_average avg cur old_fraction = avg * old_fraction + cur * (1 - old_fraction)"

text \<open>The second half, run about every ten seconds.\<close>

definition update_rates :: "channel \<Rightarrow> channel" where
  "update_rates ch =
     (let r = ch_rates ch;
          cur = kbps (current_bytes_transfered ch) (bpm_counter r);
          lost = kbps (current_bytes_lost ch) (bpm_counter r);
          incoming = kbps (current_bytes_received ch) (bpm_counter r);
          samples = (if rate_samples r + 1 < 10 then rate_samples r + 1 else 10);
          old_fraction = real (unat (samples - 1)) / real (unat samples) in
      ch\<lparr>current_bytes_transfered := 0, current_bytes_lost := 0, current_bytes_received := 0,
         ch_rates := r
           \<lparr>cur_kbps := cur, cur_kbps_lost := lost, cur_incoming_kbps := incoming,
            bpm_counter := 0,
            max_kbps := (if cur > max_kbps r then cur else max_kbps r),
            max_kbps_lost := (if lost > max_kbps_lost r then lost else max_kbps_lost r),
            max_incoming_kbps :=
              (if incoming > max_incoming_kbps r then incoming else max_incoming_kbps r),
            rate_samples := samples,
            avg_kbps := moving_average (avg_kbps r) cur old_fraction,
            avg_kbps_lost := moving_average (avg_kbps_lost r) lost old_fraction,
            avg_incoming_kbps := moving_average (avg_incoming_kbps r) incoming old_fraction\<rparr>\<rparr>)"

definition UpdateTimers :: "real \<Rightarrow> channel \<Rightarrow> channel" where
  "UpdateTimers dtime ch0 =
     (let ch1 = ch0\<lparr>ch_rates := (ch_rates ch0)\<lparr>bpm_counter := bpm_counter (ch_rates ch0) + dtime\<rparr>,
                    packet_loss_counter := packet_loss_counter ch0 + dtime\<rparr>;
          ch2 = (if packet_loss_counter ch1 > 1
            then update_window (ch1\<lparr>packet_loss_counter := packet_loss_counter ch1 - 1\<rparr>)
            else ch1) in
      if bpm_counter (ch_rates ch2) > 10 then update_rates ch2 else ch2)"

section \<open>Window bounds\<close>

definition window_ok :: "channel \<Rightarrow> bool" where
  "window_ok ch \<longleftrightarrow> 32 \<le> uint (m_window_size ch) \<and> uint (m_window_size ch) \<le> 2048"

lemma uint_clamped:
  "uint (word_of_int (if s < 32 then 32 else if s > 2048 then 2048 else s) :: u16) =
    max 32 (min 2048 s)"
proof -
  let ?c = "if s < 32 then 32 else if s > 2048 then 2048 else s"
  have "0 \<le> ?c" and "?c < 2 ^ 16" by auto
  then have "uint (word_of_int ?c :: u16) = ?c"
    by (simp add: uint_word_of_int take_bit_int_eq_self)
  then show ?thesis by (auto simp: max_def min_def)
qed

lemma setWindowSize_window [simp]:
  "uint (m_window_size (setWindowSize s ch)) = max 32 (min 2048 s)"
proof -
  have "m_window_size (ch\<lparr>m_window_size := x\<rparr>) = x" for x by simp
  then show ?thesis unfolding setWindowSize_def window_sizes by (simp only: uint_clamped)
qed

lemma setWindowSize_ok [simp]: "window_ok (setWindowSize s ch)"
  by (simp add: window_ok_def)

lemma setWindowSize_frame [frame]:
  "incoming_reliables (setWindowSize s ch) = incoming_reliables ch"
  "outgoing_reliables_sent (setWindowSize s ch) = outgoing_reliables_sent ch"
  "queued_reliables (setWindowSize s ch) = queued_reliables ch"
  "queued_commands (setWindowSize s ch) = queued_commands ch"
  "incoming_splits (setWindowSize s ch) = incoming_splits ch"
  "next_incoming_seqnum (setWindowSize s ch) = next_incoming_seqnum ch"
  "next_outgoing_seqnum (setWindowSize s ch) = next_outgoing_seqnum ch"
  "next_outgoing_split_seqnum (setWindowSize s ch) = next_outgoing_split_seqnum ch"
  by (simp_all add: setWindowSize_def)

lemma update_window_frame [frame]:
  "incoming_reliables (update_window ch) = incoming_reliables ch"
  "outgoing_reliables_sent (update_window ch) = outgoing_reliables_sent ch"
  "queued_reliables (update_window ch) = queued_reliables ch"
  "queued_commands (update_window ch) = queued_commands ch"
  "incoming_splits (update_window ch) = incoming_splits ch"
  "next_incoming_seqnum (update_window ch) = next_incoming_seqnum ch"
  "next_outgoing_seqnum (update_window ch) = next_outgoing_seqnum ch"
  "next_outgoing_split_seqnum (update_window ch) = next_outgoing_split_seqnum ch"
  by (simp_all add: update_window_def Let_def frame)

lemma update_rates_frame [frame]:
  "incoming_reliables (update_rates ch) = incoming_reliables ch"
  "outgoing_reliables_sent (update_rates ch) = outgoing_reliables_sent ch"
  "queued_reliables (update_rates ch) = queued_reliables ch"
  "queued_commands (update_rates ch) = queued_commands ch"
  "incoming_splits (update_rates ch) = incoming_splits ch"
  "next_incoming_seqnum (update_rates ch) = next_incoming_seqnum ch"
  "next_outgoing_seqnum (update_rates ch) = next_outgoing_seqnum ch"
  "next_outgoing_split_seqnum (update_rates ch) = next_outgoing_split_seqnum ch"
  "m_window_size (update_rates ch) = m_window_size ch"
  by (simp_all add: update_rates_def Let_def)

lemma UpdateTimers_frame [frame]:
  "incoming_reliables (UpdateTimers d ch) = incoming_reliables ch"
  "outgoing_reliables_sent (UpdateTimers d ch) = outgoing_reliables_sent ch"
  "queued_reliables (UpdateTimers d ch) = queued_reliables ch"
  "queued_commands (UpdateTimers d ch) = queued_commands ch"
  "incoming_splits (UpdateTimers d ch) = incoming_splits ch"
  "next_incoming_seqnum (UpdateTimers d ch) = next_incoming_seqnum ch"
  "next_outgoing_seqnum (UpdateTimers d ch) = next_outgoing_seqnum ch"
  "next_outgoing_split_seqnum (UpdateTimers d ch) = next_outgoing_split_seqnum ch"
  by (simp_all add: UpdateTimers_def Let_def frame)

text \<open>The lost packets of an interval, as the code counts them: never more than were sent.\<close>

definition counted_loss :: "channel \<Rightarrow> u32" where
  "counted_loss ch =
     min (current_packet_loss ch + current_packet_too_late ch) (current_packet_successful ch)"

definition half_window_used :: "channel \<Rightarrow> bool" where
  "half_window_used ch \<longleftrightarrow>
     uint (m_window_size ch) * 256 < uint (current_bytes_transfered ch)"

lemma loss_quotient:
  assumes "0 < current_packet_successful ch"
  shows "uint (counted_loss ch div current_packet_successful ch) =
    (if counted_loss ch = current_packet_successful ch then 1 else 0)"
proof -
  let ?l = "counted_loss ch" and ?s = "current_packet_successful ch"
  have "?l \<le> ?s" by (simp add: counted_loss_def)
  moreover have "uint (?l div ?s) = uint ?l div uint ?s" by (simp add: uint_div_distrib)
  moreover have "0 < uint ?s" using assms by (simp add: word_less_def)
  ultimately show ?thesis
    by (auto simp: word_le_def word_uint_eq_iff div_pos_pos_trivial)
qed

lemma half_window_bytes:
  assumes "window_ok ch"
  shows "current_bytes_transfered ch > word_of_int (uint (m_window_size ch) * 512 div 2) \<longleftrightarrow>
    half_window_used ch"
proof -
  let ?w = "uint (m_window_size ch)"
  have half: "?w * 512 div 2 = ?w * 256" by simp
  have "0 \<le> ?w * 256" and "?w * 256 < 2 ^ 32" using assms by (auto simp: window_ok_def)
  then have "uint (word_of_int (?w * 256) :: u32) = ?w * 256"
    using uint_word_of_int [where 'a = 32, of "?w * 256"] by (simp only: mod_pos_pos_trivial) simp
  then show ?thesis unfolding half half_window_used_def word_less_def by (simp only:)
qed

lemma update_window_size:
  assumes ok: "window_ok ch"
  shows "uint (m_window_size (update_window ch)) =
    (if 0 < current_packet_successful ch \<and> counted_loss ch = current_packet_successful ch
     then max 32 (uint (m_window_size ch) - 100)
     else if half_window_used ch then min 2048 (2 * uint (m_window_size ch))
     else uint (m_window_size ch))"
proof -
  define q where "q = counted_loss ch div current_packet_successful ch"
  define pos where "pos \<longleftrightarrow> 0 < current_packet_successful ch"
  define w where "w = uint (m_window_size ch)"
  have none: "\<not> 0 < counted_loss ch" if "\<not> pos"
    using that by (simp add: counted_loss_def word_gt_0 pos_def)
  have "uint q = (if counted_loss ch = current_packet_successful ch then 1 else 0)" if pos
    using loss_quotient [of ch] that by (simp add: q_def pos_def)
  moreover have "32 \<le> w" "w \<le> 2048"
    using ok by (simp_all add: window_ok_def w_def)
  moreover have "m_window_size (ch\<lparr>current_packet_loss := 0, current_packet_too_late := 0,
      current_packet_successful := 0\<rparr>) = m_window_size ch"
    by simp
  ultimately show ?thesis
    using none
    unfolding update_window_def Let_def half_window_bytes [OF ok] counted_loss_def [symmetric]
      q_def [symmetric] pos_def [symmetric]
    by (cases pos; cases "half_window_used ch";
        cases "counted_loss ch = current_packet_successful ch")
      (simp_all add: w_def [symmetric])
qed

section \<open>Granted numbers\<close>

lemma getOutgoing_granted:
  "getOutgoingSequenceNumber ch = (n, True, ch') \<Longrightarrow>
    n = next_outgoing_seqnum ch \<and> ch' = ch\<lparr>next_outgoing_seqnum := n + 1\<rparr>"
  by (auto simp: getOutgoingSequenceNumber_def Let_def split: if_splits option.splits)

lemma getOutgoing_refused: "getOutgoingSequenceNumber ch = (n, False, ch') \<Longrightarrow> ch' = ch"
  by (auto simp: getOutgoingSequenceNumber_def Let_def split: if_splits option.splits)

lemma putBack_granted:
  "putBackSequenceNumber s (ch\<lparr>next_outgoing_seqnum := s + 1\<rparr>) =
    (True, ch\<lparr>next_outgoing_seqnum := s\<rparr>)"
  by (simp add: putBackSequenceNumber_def SEQNUM_MAX_def uint_word_ariths)

section \<open>Properties\<close>

text \<open>
  The send window stays between 32 and 2048 packets, and once a second it is adapted
  in one of three ways: cut by 100 when every packet sent is counted as lost, doubled
  when fewer are and more than half a window of bytes has been sent, kept otherwise.  The
  quotient of lost and sent packets is computed on integers, so the branches for a loss
  between 1 and 99 percent are never taken.
\<close>

theorem window_adaption:
  assumes "window_ok ch"
  shows "window_ok (UpdateTimers dtime ch) \<and>
    uint (m_window_size (UpdateTimers dtime ch)) =
      (if packet_loss_counter ch + dtime \<le> 1 then uint (m_window_size ch)
       else if 0 < current_packet_successful ch \<and> counted_loss ch = current_packet_successful ch
       then max 32 (uint (m_window_size ch) - 100)
       else if half_window_used ch then min 2048 (2 * uint (m_window_size ch))
       else uint (m_window_size ch))"
proof -
  define ch1 where "ch1 = ch\<lparr>ch_rates := (ch_rates ch)\<lparr>bpm_counter := bpm_counter (ch_rates ch) + dtime\<rparr>,
    packet_loss_counter := packet_loss_counter ch + dtime - 1\<rparr>"
  have same: "window_ok ch1" "m_window_size ch1 = m_window_size ch"
    "current_packet_successful ch1 = current_packet_successful ch"
    "counted_loss ch1 = counted_loss ch" "half_window_used ch1 = half_window_used ch"
    using assms by (simp_all add: ch1_def window_ok_def counted_loss_def half_window_used_def)
  have size: "uint (m_window_size (UpdateTimers dtime ch)) =
    (if packet_loss_counter ch + dtime \<le> 1 then uint (m_window_size ch)
     else uint (m_window_size (update_window ch1)))"
    by (simp add: UpdateTimers_def Let_def frame ch1_def)
  then have eq: "uint (m_window_size (UpdateTimers dtime ch)) =
      (if packet_loss_counter ch + dtime \<le> 1 then uint (m_window_size ch)
       else if 0 < current_packet_successful ch \<and> counted_loss ch = current_packet_successful ch
       then max 32 (uint (m_window_size ch) - 100)
       else if half_window_used ch then min 2048 (2 * uint (m_window_size ch))
       else uint (m_window_size ch))"
    unfolding update_window_size [OF same(1)] same .
  moreover have "window_ok (UpdateTimers dtime ch)"
    using assms unfolding window_ok_def eq by auto
  ultimately show ?thesis by blast
qed

theorem window_adaption_witness:
  "uint (m_window_size (UpdateTimers 2 ((setWindowSize 256 newChannel)
     \<lparr>current_packet_successful := 10, current_packet_loss := 9,
      current_bytes_transfered := 100000\<rparr>))) = 512"
proof -
  let ?ch = "(setWindowSize 256 newChannel)\<lparr>current_packet_successful := 10,
    current_packet_loss := 9, current_bytes_transfered := 100000\<rparr>"
  have "window_ok ?ch" by (simp add: window_ok_def setWindowSize_def window_sizes)
  from window_adaption [OF this, of 2]
  show "uint (m_window_size (UpdateTimers 2 ?ch)) = 512"
    by (simp add: counted_loss_def half_window_used_def setWindowSize_def window_sizes newChannel_def)
qed

text \<open>
  A sequence number is granted exactly if nothing is in flight or the distance from
  the oldest packet in flight is at most the window, one more when the numbers have
  wrapped around in between; then it is the next one, and the only effect is that the
  next one moves on.  A number that is refused changes nothing, and putting the number
  just granted back undoes the grant.
\<close>

theorem outgoing_number:
  "case getOutgoingSequenceNumber ch of (n, granted, ch') \<Rightarrow>
    (granted \<longleftrightarrow>
       (case getFirstSeqnum (outgoing_reliables_sent ch) of
          None \<Rightarrow> True
        | Some s \<Rightarrow>
            if s < next_outgoing_seqnum ch
            then seqnum_dist s (next_outgoing_seqnum ch) \<le> unat (m_window_size ch)
            else unat (next_outgoing_seqnum ch) + 65536 - unat s \<le> unat (m_window_size ch) + 1)) \<and>
    (if granted
     then n = next_outgoing_seqnum ch \<and> ch' = ch\<lparr>next_outgoing_seqnum := n + 1\<rparr> \<and>
       putBackSequenceNumber n ch' = (True, ch)
     else ch' = ch)"
proof -
  have undo: "putBackSequenceNumber (next_outgoing_seqnum ch)
      (ch\<lparr>next_outgoing_seqnum := next_outgoing_seqnum ch + 1\<rparr>) = (True, ch)"
    by (simp add: putBack_granted)
  have wrap: "uint a + (65535 - uint b) > uint w \<longleftrightarrow> \<not> unat a + 65536 - unat b \<le> unat w + 1"
    for a b w :: u16
  proof -
    define i j k where "i = unat a" and "j = unat b" and "k = unat w"
    have "uint a = int i" "uint b = int j" "uint w = int k" "j < 65536"
      by (simp_all add: i_def j_def k_def unat16_lt)
    moreover from this(4) have "int i + (65535 - int j) > int k \<longleftrightarrow> \<not> i + 65536 - j \<le> k + 1"
      by linarith
    ultimately show ?thesis by (simp only: i_def j_def k_def)
  qed
  have dist: "(a - b > w) \<longleftrightarrow> \<not> seqnum_dist b a \<le> unat w" for a b w :: u16
    by (simp add: seqnum_dist_def word_less_nat_alt not_le)
  show ?thesis
  proof (cases "getFirstSeqnum (outgoing_reliables_sent ch)")
    case None
    then have "rb_empty (outgoing_reliables_sent ch)"
      by (simp add: getFirstSeqnum_def rb_empty_def split: list.split_asm)
    with None undo show ?thesis by (simp add: getOutgoingSequenceNumber_def Let_def)
  next
    case (Some s)
    then have "\<not> rb_empty (outgoing_reliables_sent ch)"
      by (simp add: getFirstSeqnum_def rb_empty_def split: list.split_asm)
    then have "getOutgoingSequenceNumber ch =
        (if (if s < next_outgoing_seqnum ch
             then seqnum_dist s (next_outgoing_seqnum ch) \<le> unat (m_window_size ch)
             else unat (next_outgoing_seqnum ch) + 65536 - unat s \<le> unat (m_window_size ch) + 1)
         then (next_outgoing_seqnum ch, True,
           ch\<lparr>next_outgoing_seqnum := next_outgoing_seqnum ch + 1\<rparr>)
         else (0, False, ch))"
      unfolding getOutgoingSequenceNumber_def Let_def Some dist SEQNUM_MAX_def of_nat_numeral wrap
      by (simp only: option.case if_False split: if_split) blast
    with Some undo show ?thesis by simp
  qed
qed

end
