(* ===== verification/Peer.thy ===== *)
theory Peer
  imports Channel
begin

text \<open>
  \<open>Peer\<close> and \<open>UDPPeer\<close> of \<open>src/network/mtp/impl.cpp\<close>: one remote end with its three
  channels, the round trip statistics that set the resend timeout, the timeout counter,
  and the sending of reliable data.  The clock is an argument (\<open>now\<close>, in milliseconds).
  The reference count that guards the life of a peer is in theory \<open>PeerLife\<close>.
\<close>

section \<open>State\<close>

definition FLT_MAX :: real where
  "FLT_MAX = (2 ^ 24 - 1) * 2 ^ 104"

record rttstats =
  jitter_min :: real
  jitter_max :: real
  jitter_avg :: real
  min_rtt :: real
  max_rtt :: real
  avg_rtt :: real

definition newRttstats :: rttstats where
  "newRttstats = \<lparr>jitter_min = FLT_MAX, jitter_max = 0, jitter_avg = -1, min_rtt = FLT_MAX,
     max_rtt = 0, avg_rtt = -1\<rparr>"

record peer =
  peer_address :: address
  m_ping_timer :: real
  m_rtt :: rttstats
  m_last_rtt :: real
  m_half_open :: bool
  m_timeout_counter :: real
  m_last_timeout_check :: u64
  m_increment_packets_remaining :: u32
  channels :: "channel list"
  m_pending_disconnect :: bool
  resend_timeout :: real

definition newUDPPeer :: "address \<Rightarrow> u64 \<Rightarrow> peer" where
  "newUDPPeer a now = \<lparr>peer_address = a, m_ping_timer = 0, m_rtt = newRttstats,
     m_last_rtt = -1, m_half_open = True, m_timeout_counter = 0, m_last_timeout_check = now,
     m_increment_packets_remaining = 0,
     channels = replicate CHANNEL_COUNT (setWindowSize START_RELIABLE_WINDOW_SIZE newChannel),
     m_pending_disconnect = False, resend_timeout = 0.5\<rparr>"

definition ResetTimeout :: "peer \<Rightarrow> peer" where
  "ResetTimeout p = p\<lparr>m_timeout_counter := 0\<rparr>"

definition SetFullyOpen :: "peer \<Rightarrow> peer" where
  "SetFullyOpen p = p\<lparr>m_half_open := False\<rparr>"

definition update_channel :: "nat \<Rightarrow> (channel \<Rightarrow> channel) \<Rightarrow> peer \<Rightarrow> peer" where
  "update_channel i f p = p\<lparr>channels := (channels p)[i := f (channels p ! i)]\<rparr>"

section \<open>Round trip times\<close>

text \<open>
  \<open>num_samples/(num_samples-1)\<close> and \<open>1/num_samples\<close> are quotients of unsigned integers.
\<close>

definition rtt_average :: "nat \<Rightarrow> real \<Rightarrow> real \<Rightarrow> real" where
  "rtt_average num_samples avg x =
     (if avg < 0 then x
      else avg * real (num_samples div (num_samples - 1)) + x * real (1 div num_samples))"

definition RTTStatistics :: "real \<Rightarrow> nat \<Rightarrow> peer \<Rightarrow> peer" where
  "RTTStatistics rtt num_samples p =
     (let r = m_rtt p;
          jitter0 = (if rtt > m_last_rtt p then rtt - m_last_rtt p else jitter_min r);
          jitter = (if rtt \<le> m_last_rtt p then m_last_rtt p - rtt else jitter0);
          r' = r\<lparr>min_rtt := (if rtt < min_rtt r then rtt else min_rtt r),
                 max_rtt := (if rtt \<ge> max_rtt r then rtt else max_rtt r),
                 avg_rtt := rtt_average num_samples (avg_rtt r) rtt,
                 jitter_min := (if jitter < jitter_min r then jitter else jitter_min r),
                 jitter_max := (if jitter \<ge> jitter_max r then jitter else jitter_max r),
                 jitter_avg := rtt_average num_samples (jitter_avg r) jitter\<rparr> in
      p\<lparr>m_rtt := (if m_last_rtt p > 0 then r' else r), m_last_rtt := rtt\<rparr>)"

definition RESEND_TIMEOUT_MIN :: real where
  "RESEND_TIMEOUT_MIN = 0.1"

definition RESEND_TIMEOUT_MAX :: real where
  "RESEND_TIMEOUT_MAX = 2"

definition RESEND_TIMEOUT_FACTOR :: real where
  "RESEND_TIMEOUT_FACTOR = 2"

definition reportRTT :: "real \<Rightarrow> peer \<Rightarrow> peer" where
  "reportRTT rtt p0 =
     (if rtt < 0 then p0
      else
        let p = RTTStatistics rtt (unat MAX_RELIABLE_WINDOW_SIZE * 10) p0;
            rtt_stat = avg_rtt (m_rtt p) in
        if rtt_stat < 0 then p
        else
          let t0 = rtt_stat * RESEND_TIMEOUT_FACTOR;
              t1 = (if t0 < RESEND_TIMEOUT_MIN then RESEND_TIMEOUT_MIN else t0);
              t2 = (if t1 > RESEND_TIMEOUT_MAX then RESEND_TIMEOUT_MAX else t1) in
          p\<lparr>resend_timeout := t2\<rparr>)"

section \<open>Timers\<close>

definition CALC_DTIME :: "u64 \<Rightarrow> u64 \<Rightarrow> real" where
  "CALC_DTIME lasttime curtime =
     (let v = real (unat (curtime - lasttime)) / 1000 in max (min v 0.1) 0)"

definition peer_isTimedOut :: "u64 \<Rightarrow> real \<Rightarrow> peer \<Rightarrow> bool \<times> peer" where
  "peer_isTimedOut now timeout p0 =
     (let p = p0\<lparr>m_timeout_counter := m_timeout_counter p0 + CALC_DTIME (m_last_timeout_check p0) now,
                 m_last_timeout_check := now\<rparr> in
      (m_timeout_counter p > timeout, p))"

definition isTimedOut :: "u64 \<Rightarrow> real \<Rightarrow> peer \<Rightarrow> bool \<times> peer" where
  "isTimedOut now timeout p0 =
     (case peer_isTimedOut now timeout p0 of
        (True, p) \<Rightarrow> (True, p)
      | (False, p) \<Rightarrow>
          (list_ex (\<lambda>ch. rb_getTimedOuts timeout (outgoing_reliables_sent ch) > 0) (channels p), p))"

definition PING_INTERVAL :: real where
  "PING_INTERVAL = 5"

text \<open>The two bytes written into \<open>data\<close>, if a ping is due.\<close>

definition Ping :: "real \<Rightarrow> peer \<Rightarrow> bytes option \<times> peer" where
  "Ping dtime p0 =
     (let p = p0\<lparr>m_ping_timer := m_ping_timer p0 + dtime\<rparr> in
      if \<not> m_half_open p \<and> m_ping_timer p \<ge> PING_INTERVAL
      then (Some (writeU8 (packet_type_code PACKET_TYPE_CONTROL) @
              writeU8 (control_type_code CONTROLTYPE_PING)), p\<lparr>m_ping_timer := 0\<rparr>)
      else (None, p))"

section \<open>Sending reliable data\<close>

text \<open>What the connection adds to a packet.\<close>

record sender =
  snd_protocol_id :: u32
  snd_peer_id :: u16

text \<open>
  The loop over the chunks: whether the last request for a sequence number was granted,
  the first number granted, the packets made so far, and the channel.
\<close>

fun take_numbers :: "(bytes \<Rightarrow> u16 \<Rightarrow> buffered_packet) \<Rightarrow> bytes list \<Rightarrow> buffered_packet list \<Rightarrow>
  u16 option \<Rightarrow> bool \<Rightarrow> channel \<Rightarrow> bool \<times> u16 option \<times> buffered_packet list \<times> channel" where
  "take_numbers mk [] toadd initial granted ch = (granted, initial, toadd, ch)"
| "take_numbers mk (original # rest) toadd initial granted ch =
     (case getOutgoingSequenceNumber ch of
        (seqnum, False, ch') \<Rightarrow> (False, initial, toadd, ch')
      | (seqnum, True, ch') \<Rightarrow>
          take_numbers mk rest (toadd @ [mk original seqnum])
            (case initial of None \<Rightarrow> Some seqnum | Some i \<Rightarrow> Some i) True ch')"

text \<open>Putting back \<open>n\<close> numbers, the last one first; \<open>None\<close> is the \<open>FATAL_ERROR\<close>.\<close>

fun put_back_numbers :: "u16 \<Rightarrow> nat \<Rightarrow> channel \<Rightarrow> channel option" where
  "put_back_numbers initial 0 ch = Some ch"
| "put_back_numbers initial (Suc n) ch =
     (case putBackSequenceNumber (initial + of_nat (n mod (SEQNUM_MAX + 1))) ch of
        (True, ch') \<Rightarrow> put_back_numbers initial n ch'
      | (False, ch') \<Rightarrow> None)"

definition reliable_maker ::
  "sender \<Rightarrow> address \<Rightarrow> u8 \<Rightarrow> bytes \<Rightarrow> u16 \<Rightarrow> buffered_packet" where
  "reliable_maker s a channelnum original seqnum =
     makePacket a (makeReliablePacket original seqnum) (snd_protocol_id s) (snd_peer_id s) channelnum"

definition processReliableSendCommand :: "sender \<Rightarrow> address \<Rightarrow> bool \<Rightarrow>
  connection_command \<Rightarrow> nat \<Rightarrow> channel \<Rightarrow> con_error + bool \<times> channel" where
  "processReliableSendCommand s a pending_disconnect c max_packet_size ch0 =
     (if pending_disconnect then Inr (True, ch0)
      else
        let chunksize_max =
              u32_sub (u32_sub max_packet_size BASE_HEADER_SIZE) RELIABLE_HEADER_SIZE in
        case (if cc_raw c then Some ([cc_data c], next_outgoing_split_seqnum ch0)
              else makeAutoSplitPacket (cc_data c) chunksize_max (next_outgoing_split_seqnum ch0)) of
          None \<Rightarrow> Inl Abort
        | Some (originals, split_seqnum) \<Rightarrow>
            let ch1 = (if cc_raw c then ch0 else setNextSplitSeqNum split_seqnum ch0) in
            if \<not> length originals < unat MAX_RELIABLE_WINDOW_SIZE then Inl Abort
            else
              case take_numbers (reliable_maker s a (cc_channelnum c)) originals [] None False ch1 of
                (True, initial, toadd, ch2) \<Rightarrow>
                  let ch3 = ch2\<lparr>queued_reliables := queued_reliables ch2 @ toadd\<rparr> in
                  if length (queued_reliables ch3) < 0xFFFF then Inr (True, ch3) else Inl Abort
              | (False, None, toadd, ch2) \<Rightarrow> Inr (False, ch2)
              | (False, Some initial, toadd, ch2) \<Rightarrow>
                  (case put_back_numbers initial (length toadd) ch2 of
                     None \<Rightarrow> Inl Abort
                   | Some ch3 \<Rightarrow> Inr (False, ch3)))"

definition PutReliableSendCommand :: "sender \<Rightarrow> connection_command \<Rightarrow> nat \<Rightarrow> peer \<Rightarrow>
  con_error + peer" where
  "PutReliableSendCommand s c max_packet_size p =
     (if m_pending_disconnect p then Inr p
      else
        let i = unat (cc_channelnum c); chan = channels p ! i;
            enqueue = (\<lambda>ch. ch\<lparr>queued_commands := queued_commands ch @ [c]\<rparr>) in
        if queued_commands chan = [] \<and>
           length (queued_reliables chan) + 1 < unat (m_window_size chan) div 2
        then case processReliableSendCommand s (peer_address p) (m_pending_disconnect p) c
              max_packet_size chan of
            Inl e \<Rightarrow> Inl e
          | Inr (done_sending, chan') \<Rightarrow>
              Inr (update_channel i (\<lambda>_. if done_sending then chan' else enqueue chan') p)
        else Inr (update_channel i enqueue p))"

fun run_queues :: "sender \<Rightarrow> address \<Rightarrow> bool \<Rightarrow> nat \<Rightarrow> nat \<Rightarrow> channel list \<Rightarrow>
  con_error + channel list" where
  "run_queues s a pending max_packet_size maxtransfer [] = Inr []"
| "run_queues s a pending max_packet_size maxtransfer (ch # chs) =
     (case (case queued_commands ch of
              [] \<Rightarrow> Inr ch
            | c # cs \<Rightarrow>
                if length (queued_reliables ch) < maxtransfer
                then case processReliableSendCommand s a pending c max_packet_size ch of
                    Inl e \<Rightarrow> Inl e
                  | Inr (True, ch') \<Rightarrow> Inr (ch'\<lparr>queued_commands := tl (queued_commands ch')\<rparr>)
                  | Inr (False, ch') \<Rightarrow> Inr ch'
                else Inr ch) of
        Inl e \<Rightarrow> Inl e
      | Inr ch' \<Rightarrow>
          (case run_queues s a pending max_packet_size maxtransfer chs of
             Inl e \<Rightarrow> Inl e | Inr chs' \<Rightarrow> Inr (ch' # chs')))"

definition RunCommandQueues :: "sender \<Rightarrow> nat \<Rightarrow> nat \<Rightarrow> peer \<Rightarrow> con_error + peer" where
  "RunCommandQueues s max_packet_size maxtransfer p =
     (case run_queues s (peer_address p) (m_pending_disconnect p) max_packet_size maxtransfer
            (channels p) of
        Inl e \<Rightarrow> Inl e
      | Inr chs \<Rightarrow> Inr (p\<lparr>channels := chs\<rparr>))"

definition getNextSplitSequenceNumber :: "u8 \<Rightarrow> peer \<Rightarrow> u16" where
  "getNextSplitSequenceNumber ch p = next_outgoing_split_seqnum (channels p ! unat ch)"

definition setNextSplitSequenceNumber :: "u8 \<Rightarrow> u16 \<Rightarrow> peer \<Rightarrow> peer" where
  "setNextSplitSequenceNumber ch seqnum = update_channel (unat ch) (setNextSplitSeqNum seqnum)"

text \<open>\<open>None\<close> is a failed \<open>sanity_check\<close> of the buffer.\<close>

definition addSplitPacket :: "u8 \<Rightarrow> buffered_packet \<Rightarrow> bool \<Rightarrow> peer \<Rightarrow> (bytes \<times> peer) option" where
  "addSplitPacket ch toadd reliable p =
     map_option (\<lambda>(data, b). (data, update_channel (unat ch) (\<lambda>c. c\<lparr>incoming_splits := b\<rparr>) p))
       (split_insert toadd reliable (incoming_splits (channels p ! unat ch)))"

section \<open>The numbering loop\<close>

fun number_packets :: "(bytes \<Rightarrow> u16 \<Rightarrow> buffered_packet) \<Rightarrow> u16 \<Rightarrow> bytes list \<Rightarrow>
  buffered_packet list" where
  "number_packets mk s [] = []"
| "number_packets mk s (o1 # os) = mk o1 s # number_packets mk (s + 1) os"

lemma length_number_packets [simp]: "length (number_packets mk s os) = length os"
  by (induction os arbitrary: s) auto

lemma number_packets_nth:
  "i < length os \<Longrightarrow> number_packets mk s os ! i = mk (os ! i) (s + of_nat i)"
  by (induction os arbitrary: s i) (auto simp: nth_Cons add.assoc split: nat.split)

lemma take_numbers_prefix:
  "\<exists>k \<le> length os. take_numbers mk os toadd initial granted ch =
     (if os = [] then granted else k = length os,
      (if k = 0 then initial
       else case initial of None \<Rightarrow> Some (next_outgoing_seqnum ch) | Some i \<Rightarrow> Some i),
      toadd @ number_packets mk (next_outgoing_seqnum ch) (take k os),
      ch\<lparr>next_outgoing_seqnum := next_outgoing_seqnum ch + of_nat k\<rparr>)"
proof (induction os arbitrary: toadd initial granted ch)
  case (Cons o1 os)
  obtain n g ch' where get: "getOutgoingSequenceNumber ch = (n, g, ch')"
    by (cases "getOutgoingSequenceNumber ch") auto
  show ?case
  proof (cases g)
    case False
    then show ?thesis
      using get getOutgoing_refused [of ch n ch'] by (intro exI [of _ 0]) simp
  next
    case True
    then have n: "n = next_outgoing_seqnum ch" and ch': "ch' = ch\<lparr>next_outgoing_seqnum := n + 1\<rparr>"
      using get getOutgoing_granted [of ch n ch'] by auto
    let ?initial = "case initial of None \<Rightarrow> Some n | Some i \<Rightarrow> Some i"
    obtain k where k: "k \<le> length os" and
      rest: "take_numbers mk os (toadd @ [mk o1 n]) ?initial True ch' =
        (if os = [] then True else k = length os,
         (if k = 0 then ?initial
          else case ?initial of None \<Rightarrow> Some (next_outgoing_seqnum ch') | Some i \<Rightarrow> Some i),
         (toadd @ [mk o1 n]) @ number_packets mk (next_outgoing_seqnum ch') (take k os),
         ch'\<lparr>next_outgoing_seqnum := next_outgoing_seqnum ch' + of_nat k\<rparr>)"
      using Cons.IH [of "toadd @ [mk o1 n]" ?initial True ch'] by blast
    have nx: "next_outgoing_seqnum ch' = n + 1" by (simp add: ch')
    have "take_numbers mk (o1 # os) toadd initial granted ch =
        take_numbers mk os (toadd @ [mk o1 n]) ?initial True ch'"
      using get True by simp
    then show ?thesis
      unfolding rest nx using k n
      by (intro exI [of _ "Suc k"]) (auto simp: ch' ac_simps split: option.split)
  qed
qed simp

lemma put_back_numbers_all:
  "n \<le> SEQNUM_MAX \<Longrightarrow> put_back_numbers s n (ch\<lparr>next_outgoing_seqnum := s + of_nat n\<rparr>) =
    Some (ch\<lparr>next_outgoing_seqnum := s\<rparr>)"
proof (induction n)
  case (Suc n)
  have "put_back_numbers s (Suc n) (ch\<lparr>next_outgoing_seqnum := s + of_nat (Suc n)\<rparr>) =
      put_back_numbers s n (ch\<lparr>next_outgoing_seqnum := s + of_nat n\<rparr>)"
    using Suc.prems putBack_granted [of "s + of_nat n" ch]
    by (simp add: ac_simps SEQNUM_MAX_def)
  then show ?case using Suc by simp
qed simp

text \<open>What is left of a channel when a command has been queued as packets.\<close>

definition queue_packets :: "u16 \<Rightarrow> buffered_packet list \<Rightarrow> channel \<Rightarrow> channel" where
  "queue_packets split_seqnum pkts ch = ch\<lparr>next_outgoing_split_seqnum := split_seqnum,
     next_outgoing_seqnum := next_outgoing_seqnum ch + of_nat (length pkts),
     queued_reliables := queued_reliables ch @ pkts\<rparr>"

definition originals_of :: "connection_command \<Rightarrow> nat \<Rightarrow> u16 \<Rightarrow> (bytes list \<times> u16) option" where
  "originals_of c max_packet_size split_seqnum =
     (if cc_raw c then Some ([cc_data c], split_seqnum)
      else makeAutoSplitPacket (cc_data c)
        (u32_sub (u32_sub max_packet_size BASE_HEADER_SIZE) RELIABLE_HEADER_SIZE) split_seqnum)"

lemma processReliable_cases:
  fixes s :: sender and a :: address
  assumes "originals_of c max_packet_size (next_outgoing_split_seqnum ch) = Some (os, s')"
    and "os \<noteq> []" and "length os < 32768" and "length (queued_reliables ch) + length os < 65535"
  defines "pkts \<equiv> number_packets (reliable_maker s a (cc_channelnum c)) (next_outgoing_seqnum ch) os"
  shows "processReliableSendCommand s a False c max_packet_size ch = Inr (True, queue_packets s' pkts ch) \<or>
    processReliableSendCommand s a False c max_packet_size ch =
      Inr (False, ch\<lparr>next_outgoing_split_seqnum := s'\<rparr>)"
proof -
  let ?mk = "reliable_maker s a (cc_channelnum c)"
  define ch1 where "ch1 = ch\<lparr>next_outgoing_split_seqnum := s'\<rparr>"
  have ch1: "(if cc_raw c then ch else setNextSplitSeqNum s' ch) = ch1"
    using assms(1) by (auto simp: ch1_def setNextSplitSeqNum_def originals_of_def)
  have win: "length os < unat MAX_RELIABLE_WINDOW_SIZE"
    using assms(3) by (simp add: MAX_RELIABLE_WINDOW_SIZE_def)
  obtain k where k: "k \<le> length os" and take: "take_numbers ?mk os [] None False ch1 =
      (k = length os, (if k = 0 then None else Some (next_outgoing_seqnum ch)),
       number_packets ?mk (next_outgoing_seqnum ch) (take k os),
       ch1\<lparr>next_outgoing_seqnum := next_outgoing_seqnum ch + of_nat k\<rparr>)"
    using take_numbers_prefix [of os ?mk "[]" None False ch1] assms(2) by (auto simp: ch1_def)
  have "k \<le> SEQNUM_MAX" using k assms(3) by (simp add: SEQNUM_MAX_def)
  from put_back_numbers_all [OF this, of "next_outgoing_seqnum ch" ch1]
  have undo: "put_back_numbers (next_outgoing_seqnum ch) k
      (ch1\<lparr>next_outgoing_seqnum := next_outgoing_seqnum ch + of_nat k\<rparr>) = Some ch1"
    by (simp add: ch1_def)
  have run: "processReliableSendCommand s a False c max_packet_size ch =
    (case (k = length os, if k = 0 then None else Some (next_outgoing_seqnum ch),
       number_packets ?mk (next_outgoing_seqnum ch) (take k os),
       ch1\<lparr>next_outgoing_seqnum := next_outgoing_seqnum ch + of_nat k\<rparr>) of
      (True, initial, toadd, ch2) \<Rightarrow>
         let ch3 = ch2\<lparr>queued_reliables := queued_reliables ch2 @ toadd\<rparr> in
         if length (queued_reliables ch3) < 0xFFFF then Inr (True, ch3) else Inl Abort
     | (False, None, toadd, ch2) \<Rightarrow> Inr (False, ch2)
     | (False, Some initial, toadd, ch2) \<Rightarrow>
         (case put_back_numbers initial (length toadd) ch2 of
            None \<Rightarrow> Inl Abort
          | Some ch3 \<Rightarrow> Inr (False, ch3)))"
    unfolding processReliableSendCommand_def Let_def originals_of_def [symmetric] assms(1)
    by (simp only: if_False option.case prod.case ch1 win take not_True_eq_False)
  show ?thesis
  proof (cases "k = length os")
    case True
    then show ?thesis
      using assms(4) by (simp add: run pkts_def queue_packets_def ch1_def)
  next
    case False
    then have "processReliableSendCommand s a False c max_packet_size ch = Inr (False, ch1)"
      using undo k by (cases "k = 0") (simp_all add: run ch1_def min_def)
    then show ?thesis by (simp add: ch1_def)
  qed
qed

lemma split_loop_nonempty: "split_loop data m s st n = Some cs \<Longrightarrow> cs \<noteq> []"
  by (subst (asm) split_loop.simps) (auto simp: Let_def split: if_splits)

lemma originals_nonempty: "originals_of c m s = Some (os, s') \<Longrightarrow> os \<noteq> []"
  using split_loop_nonempty
  by (fastforce simp: originals_of_def makeAutoSplitPacket_def makeSplitPacket_def
      split: if_splits)

lemma take_numbers_idle:
  "rb_empty (outgoing_reliables_sent ch) \<Longrightarrow>
    fst (take_numbers mk os toadd initial granted ch) = (os \<noteq> [] \<or> granted)"
  by (induction os arbitrary: toadd initial granted ch)
    (auto simp: getOutgoingSequenceNumber_def Let_def)

lemma processReliable_idle:
  assumes "rb_empty (outgoing_reliables_sent ch)"
    and "originals_of c m (next_outgoing_split_seqnum ch) = Some (os, s')"
  shows "processReliableSendCommand s a False c m ch \<noteq> Inr (False, ch')"
proof -
  have "rb_empty (outgoing_reliables_sent (if cc_raw c then ch else setNextSplitSeqNum s' ch))"
    using assms(1) by (simp add: setNextSplitSeqNum_def)
  from take_numbers_idle [OF this, of "reliable_maker s a (cc_channelnum c)" os "[]" None False]
  have "fst (take_numbers (reliable_maker s a (cc_channelnum c)) os [] None False
      (if cc_raw c then ch else setNextSplitSeqNum s' ch))"
    using originals_nonempty [OF assms(2)] by simp
  then show ?thesis
    unfolding processReliableSendCommand_def Let_def originals_of_def [symmetric] assms(2)
    by (auto split: if_splits prod.split)
qed

lemma getSeqnum_reliable_maker [simp]:
  "getSeqnum (reliable_maker s a ch original n) = n"
  by (simp add: reliable_maker_def getSeqnum_def makeReliablePacket_def makePacket_def
      newBufferedPacket_def packet_sizes)

section \<open>Properties\<close>

text \<open>
  C13.  A message is queued for reliable sending as a whole or not at all.  If the message
  makes fewer than 32768 packets that fit the queue, no check that ends the process
  fails, and either all its packets are appended to the queue, in order, with consecutive
  sequence numbers from the next outgoing one on, or the channel is as before except that
  a split number has been used up; in particular every sequence number taken is put back.
  When nothing is in flight it is queued.
\<close>

theorem reliable_send_all_or_nothing:
  assumes "originals_of c max_packet_size (next_outgoing_split_seqnum ch) = Some (os, s')"
    and "length os < 32768" and "length (queued_reliables ch) + length os < 65535"
  shows "\<exists>sent. processReliableSendCommand s a False c max_packet_size ch = Inr (sent,
      if sent
      then queue_packets s' (number_packets (reliable_maker s a (cc_channelnum c))
        (next_outgoing_seqnum ch) os) ch
      else ch\<lparr>next_outgoing_split_seqnum := s'\<rparr>) \<and>
    (rb_empty (outgoing_reliables_sent ch) \<longrightarrow> sent) \<and>
    (\<forall>i < length os. getSeqnum (number_packets (reliable_maker s a (cc_channelnum c))
        (next_outgoing_seqnum ch) os ! i) = next_outgoing_seqnum ch + of_nat i)"
proof -
  have "os \<noteq> []" using assms(1) by (rule originals_nonempty)
  from processReliable_cases [OF assms(1) this assms(2,3), of s a]
    processReliable_idle [OF _ assms(1), of s a] show ?thesis
    by (auto simp: number_packets_nth)
qed

theorem reliable_send_all_or_nothing_witness:
  "\<exists>ch'. processReliableSendCommand \<lparr>snd_protocol_id = PROTOCOL_ID, snd_peer_id = 1\<rparr> newAddress False
     ((newCommand CONNCMD_SEND)\<lparr>cc_data := [1, 2, 3]\<rparr>) 512 newChannel = Inr (True, ch') \<and>
   map getSeqnum (queued_reliables ch') = [65500]"
proof -
  let ?c = "(newCommand CONNCMD_SEND)\<lparr>cc_data := [1, 2, 3]\<rparr>"
  have "u32_sub (u32_sub 512 BASE_HEADER_SIZE) RELIABLE_HEADER_SIZE = 502"
    by (simp add: packet_sizes u32_sub_small)
  then have "originals_of ?c 512 (next_outgoing_split_seqnum newChannel) =
      Some ([makeOriginalPacket [1, 2, 3]], SEQNUM_INITIAL)"
    by (simp add: originals_of_def makeAutoSplitPacket_def newCommand_def newChannel_def)
  from reliable_send_all_or_nothing [OF this, of "\<lparr>snd_protocol_id = PROTOCOL_ID, snd_peer_id = 1\<rparr>"
      newAddress]
  obtain sent where run: "processReliableSendCommand \<lparr>snd_protocol_id = PROTOCOL_ID, snd_peer_id = 1\<rparr>
      newAddress False ?c 512 newChannel = Inr (sent,
        if sent
        then queue_packets SEQNUM_INITIAL (number_packets (reliable_maker
          \<lparr>snd_protocol_id = PROTOCOL_ID, snd_peer_id = 1\<rparr> newAddress (cc_channelnum ?c))
          (next_outgoing_seqnum newChannel) [makeOriginalPacket [1, 2, 3]]) newChannel
        else newChannel\<lparr>next_outgoing_split_seqnum := SEQNUM_INITIAL\<rparr>)" and sent
    by (auto simp: newChannel_def rb_empty_def newReliablePacketBuffer_def)
  then show ?thesis
    by (simp add: queue_packets_def newChannel_def SEQNUM_INITIAL_def)
qed

text \<open>
  Once there is an average round trip time, no measurement changes it, since the
  weights of the running average are quotients of integers, 1 and 0: the resend timeout
  is twice the first average, between a tenth of a second and two seconds, for the rest of
  the connection.
\<close>

theorem resend_timeout_frozen:
  assumes "0 \<le> avg_rtt (m_rtt p)" and "0 \<le> rtt"
  shows "avg_rtt (m_rtt (reportRTT rtt p)) = avg_rtt (m_rtt p) \<and>
    resend_timeout (reportRTT rtt p) = max 0.1 (min 2 (2 * avg_rtt (m_rtt p)))"
proof -
  have "unat MAX_RELIABLE_WINDOW_SIZE * 10 = 327680" by (simp add: MAX_RELIABLE_WINDOW_SIZE_def)
  then have "avg_rtt (m_rtt (RTTStatistics rtt (unat MAX_RELIABLE_WINDOW_SIZE * 10) p)) =
      avg_rtt (m_rtt p)"
    using assms(1) by (simp add: RTTStatistics_def rtt_average_def Let_def)
  then show ?thesis
    using assms by (auto simp: reportRTT_def Let_def RESEND_TIMEOUT_MIN_def
        RESEND_TIMEOUT_MAX_def RESEND_TIMEOUT_FACTOR_def max_def min_def)
qed

theorem resend_timeout_frozen_witness:
  "resend_timeout (reportRTT 1 (reportRTT 0.2 (reportRTT 0.2 (newUDPPeer newAddress 0)))) = 0.4"
proof -
  let ?p = "reportRTT 0.2 (reportRTT 0.2 (newUDPPeer newAddress 0))"
  have "avg_rtt (m_rtt ?p) = 0.2"
    by (simp add: reportRTT_def RTTStatistics_def newUDPPeer_def newRttstats_def rtt_average_def
        Let_def RESEND_TIMEOUT_MIN_def RESEND_TIMEOUT_MAX_def RESEND_TIMEOUT_FACTOR_def)
  then show ?thesis using resend_timeout_frozen [of ?p 1] by simp
qed

text \<open>The timeout checks at the times \<open>ts\<close>.\<close>

definition check_timeouts :: "real \<Rightarrow> u64 list \<Rightarrow> peer \<Rightarrow> peer" where
  "check_timeouts timeout ts p = foldl (\<lambda>p now. snd (peer_isTimedOut now timeout p)) p ts"

fun elapsed_ms :: "u64 \<Rightarrow> u64 list \<Rightarrow> nat" where
  "elapsed_ms t [] = 0"
| "elapsed_ms t (u # us) = unat (u - t) + elapsed_ms u us"

lemma peer_isTimedOut_counter:
  "m_timeout_counter (snd (peer_isTimedOut now timeout p)) =
    m_timeout_counter p + min (real (unat (now - m_last_timeout_check p)) / 1000) 0.1"
  "m_last_timeout_check (snd (peer_isTimedOut now timeout p)) = now"
proof -
  have "max (min (real n / 1000) 0.1) 0 = min (real n / 1000) 0.1" for n by simp
  moreover have upd: "m_timeout_counter (p\<lparr>m_timeout_counter := x, m_last_timeout_check := y\<rparr>) = x"
    for x y by simp
  ultimately show "m_timeout_counter (snd (peer_isTimedOut now timeout p)) =
      m_timeout_counter p + min (real (unat (now - m_last_timeout_check p)) / 1000) 0.1"
    unfolding peer_isTimedOut_def CALC_DTIME_def Let_def by (simp only: snd_conv upd)
qed (simp add: peer_isTimedOut_def Let_def)

text \<open>
  A silent peer is not dropped early: over any series of timeout checks the timeout
  counter grows by at most the time that has passed, and by exactly that time when the
  checks are at most a tenth of a second apart; so it exceeds the timeout only when more
  than that time has passed since it was reset.
\<close>

theorem timeout_not_early:
  "m_timeout_counter (check_timeouts timeout ts p) - m_timeout_counter p \<le>
     real (elapsed_ms (m_last_timeout_check p) ts) / 1000 \<and>
   (list_all (\<lambda>(t, u). unat (u - t) \<le> 100) (zip (m_last_timeout_check p # ts) ts) \<longrightarrow>
     m_timeout_counter (check_timeouts timeout ts p) - m_timeout_counter p =
     real (elapsed_ms (m_last_timeout_check p) ts) / 1000)"
proof (induction ts arbitrary: p)
  case Nil
  then show ?case by (simp add: check_timeouts_def)
next
  case (Cons t ts)
  let ?p = "snd (peer_isTimedOut t timeout p)"
  define n where "n = unat (t - m_last_timeout_check p)"
  define e where "e = elapsed_ms t ts"
  define close where "close = list_all (\<lambda>(t, u). unat (u - t) \<le> 100) (zip (t # ts) ts)"
  have step: "check_timeouts timeout (t # ts) p = check_timeouts timeout ts ?p"
    by (simp add: check_timeouts_def)
  have counter: "m_timeout_counter ?p = m_timeout_counter p + min (real n / 1000) 0.1"
    by (simp only: peer_isTimedOut_counter n_def)
  have "elapsed_ms (m_last_timeout_check p) (t # ts) = n + e"
    by (simp only: elapsed_ms.simps n_def e_def)
  moreover have "list_all (\<lambda>(t, u). unat (u - t) \<le> 100) (zip (m_last_timeout_check p # t # ts) (t # ts)) =
      (n \<le> 100 \<and> close)"
    by (simp add: n_def close_def)
  moreover have "min (real n / 1000) 0.1 = real n / 1000" if "n \<le> 100"
    using that by simp
  moreover have "min (real n / 1000) 0.1 \<le> real n / 1000" by simp
  moreover note Cons.IH [of ?p, unfolded peer_isTimedOut_counter(2) counter, folded e_def close_def]
  ultimately show ?case
    unfolding step by (auto simp only: of_nat_add add_divide_distrib)
qed

theorem timeout_not_early_witness:
  "m_timeout_counter (check_timeouts 30 [50, 120] (newUDPPeer newAddress 0)) = 0.12"
  using timeout_not_early [of 30 "[50, 120]" "newUDPPeer newAddress 0"]
  by (simp add: newUDPPeer_def)

end
