(* ===== verification/Connection.thy ===== *)
theory Connection
  imports Peer
begin

text \<open>
  \<open>Connection\<close> of \<open>src/network/mtp/impl.cpp\<close>: the peer table, the queue of commands for
  the send thread and of events for the user, and the operations on them.  The peer
  table is a list in the order of the ids, as the \<open>std::map\<close> of the code is.  What
  leaves through the socket is recorded in \<open>m_udp_out\<close>.  The random ids that are tried
  for a new peer and the clock are arguments.
\<close>

section \<open>Events\<close>

datatype event_type = CONNEVENT_NONE | CONNEVENT_DATA_RECEIVED | CONNEVENT_PEER_ADDED
  | CONNEVENT_PEER_REMOVED | CONNEVENT_BIND_FAILED

record connection_event =
  ce_type :: event_type
  ce_peer_id :: u16
  ce_data :: bytes
  ce_timeout :: bool
  ce_address :: address

definition newEvent :: "event_type \<Rightarrow> connection_event" where
  "newEvent t = \<lparr>ce_type = t, ce_peer_id = 0, ce_data = [], ce_timeout = False,
     ce_address = newAddress\<rparr>"

definition ev_dataReceived :: "u16 \<Rightarrow> bytes \<Rightarrow> connection_event" where
  "ev_dataReceived peer_id data =
     (newEvent CONNEVENT_DATA_RECEIVED)\<lparr>ce_peer_id := peer_id, ce_data := data\<rparr>"

definition ev_peerAdded :: "u16 \<Rightarrow> address \<Rightarrow> connection_event" where
  "ev_peerAdded peer_id a =
     (newEvent CONNEVENT_PEER_ADDED)\<lparr>ce_peer_id := peer_id, ce_address := a\<rparr>"

definition ev_peerRemoved :: "u16 \<Rightarrow> bool \<Rightarrow> address \<Rightarrow> connection_event" where
  "ev_peerRemoved peer_id is_timeout a = (newEvent CONNEVENT_PEER_REMOVED)
     \<lparr>ce_peer_id := peer_id, ce_timeout := is_timeout, ce_address := a\<rparr>"

definition ev_bindFailed :: connection_event where
  "ev_bindFailed = newEvent CONNEVENT_BIND_FAILED"

section \<open>The peer table\<close>

type_synonym peer_table = "(u16 \<times> peer) list"

fun peers_set :: "u16 \<Rightarrow> peer \<Rightarrow> peer_table \<Rightarrow> peer_table" where
  "peers_set k p [] = [(k, p)]"
| "peers_set k p ((i, q) # ps) =
     (if k < i then (k, p) # (i, q) # ps
      else if k = i then (k, p) # ps
      else (i, q) # peers_set k p ps)"

definition peers_erase :: "u16 \<Rightarrow> peer_table \<Rightarrow> peer_table" where
  "peers_erase k ps = filter (\<lambda>(i, p). i \<noteq> k) ps"

section \<open>State\<close>

record connection =
  m_protocol_id :: u32
  m_peer_id :: u16
  m_peers :: peer_table
  m_peer_ids :: "u16 list"
  m_event_queue :: "connection_event list"
  m_command_queue :: "connection_command list"
  m_info_provider :: "bytes option"
  m_shutting_down :: bool
  m_udp_out :: "(address \<times> bytes) list"

definition newConnection :: connection where
  "newConnection = \<lparr>m_protocol_id = PROTOCOL_ID, m_peer_id = 0, m_peers = [], m_peer_ids = [],
     m_event_queue = [], m_command_queue = [], m_info_provider = None,
     m_shutting_down = False, m_udp_out = []\<rparr>"

definition get_peer :: "u16 \<Rightarrow> connection \<Rightarrow> peer option" where
  "get_peer peer_id c = map_of (m_peers c) peer_id"

definition set_peer :: "u16 \<Rightarrow> peer \<Rightarrow> connection \<Rightarrow> connection" where
  "set_peer peer_id p c = c\<lparr>m_peers := peers_set peer_id p (m_peers c)\<rparr>"

text \<open>A change of a peer that another thread may have removed from the table meanwhile.\<close>

definition update_peer :: "u16 \<Rightarrow> (peer \<Rightarrow> peer) \<Rightarrow> connection \<Rightarrow> connection" where
  "update_peer peer_id f c =
     (case get_peer peer_id c of None \<Rightarrow> c | Some p \<Rightarrow> set_peer peer_id (f p) c)"

section \<open>Operations\<close>

definition putEvent :: "connection_event \<Rightarrow> connection \<Rightarrow> connection" where
  "putEvent e c = c\<lparr>m_event_queue := m_event_queue c @ [e]\<rparr>"

definition putCommand :: "connection_command \<Rightarrow> connection \<Rightarrow> connection" where
  "putCommand cmd c =
     (if m_shutting_down c then c else c\<lparr>m_command_queue := m_command_queue c @ [cmd]\<rparr>)"

text \<open>\<open>getPeerNoEx\<close> is \<open>get_peer\<close>; the peers of the table are not pending deletion.\<close>

definition lookupPeer :: "address \<Rightarrow> connection \<Rightarrow> u16" where
  "lookupPeer from_address c =
     (case find (\<lambda>(i, p). address_eq (peer_address p) from_address) (m_peers c) of
        Some (i, p) \<Rightarrow> i | None \<Rightarrow> PEER_ID_INEXISTENT)"

definition getActiveCount :: "connection \<Rightarrow> nat" where
  "getActiveCount c = length (filter (\<lambda>(i, p). \<not> m_half_open p) (m_peers c))"

definition ConnectedToServer :: "connection \<Rightarrow> bool" where
  "ConnectedToServer c \<longleftrightarrow> get_peer PEER_ID_SERVER c \<noteq> None"

definition Connected :: "connection \<Rightarrow> bool" where
  "Connected c =
     (if length (m_peers c) \<noteq> 1 then False
      else if get_peer PEER_ID_SERVER c = None then False
      else if m_peer_id c = PEER_ID_INEXISTENT then False
      else True)"

definition deletePeer :: "u16 \<Rightarrow> bool \<Rightarrow> connection \<Rightarrow> bool \<times> connection" where
  "deletePeer peer_id timeout c =
     (case get_peer peer_id c of
        None \<Rightarrow> (False, c)
      | Some p \<Rightarrow>
          (True, putEvent (ev_peerRemoved peer_id timeout (peer_address p))
            (c\<lparr>m_peers := peers_erase peer_id (m_peers c),
               m_peer_ids := remove1 peer_id (m_peer_ids c)\<rparr>)))"

text \<open>
  The ids tried are \<open>ids 0, ids 1, \<dots>\<close>, at most a hundred: the first one that is free, or
  the last one tried.
\<close>

definition MIN_PEER_ID :: u16 where
  "MIN_PEER_ID = 2"

fun try_peer_ids :: "(nat \<Rightarrow> u16) \<Rightarrow> nat \<Rightarrow> nat \<Rightarrow> connection \<Rightarrow> u16" where
  "try_peer_ids ids 0 tries c = ids (tries - 1)"
| "try_peer_ids ids (Suc n) tries c =
     (if get_peer (ids tries) c = None then ids tries else try_peer_ids ids n (tries + 1) c)"

definition createPeer :: "u64 \<Rightarrow> (nat \<Rightarrow> u16) \<Rightarrow> address \<Rightarrow> connection \<Rightarrow> u16 \<times> connection" where
  "createPeer now ids a c =
     (let peer_id_new = try_peer_ids ids 100 0 c in
      if get_peer peer_id_new c \<noteq> None then (PEER_ID_INEXISTENT, c)
      else
        let c1 = (set_peer peer_id_new (newUDPPeer a now) c)
              \<lparr>m_peer_ids := m_peer_ids c @ [peer_id_new]\<rparr>;
            reply = writeU8 (packet_type_code PACKET_TYPE_CONTROL) @
              writeU8 (control_type_code CONTROLTYPE_SET_PEER_ID) @ writeU16 peer_id_new;
            c2 = putCommand (cmd_create_peer peer_id_new reply) c1 in
        (peer_id_new, putEvent (ev_peerAdded peer_id_new a) c2))"

definition createServerPeer :: "u64 \<Rightarrow> address \<Rightarrow> connection \<Rightarrow> con_error + connection" where
  "createServerPeer now a c =
     (if ConnectedToServer c then Inl ConnectionException
      else Inr ((set_peer PEER_ID_SERVER (SetFullyOpen (newUDPPeer a now)) c)
        \<lparr>m_peer_ids := m_peer_ids c @ [PEER_ID_SERVER]\<rparr>))"

definition SetPeerID :: "u16 \<Rightarrow> connection \<Rightarrow> connection" where
  "SetPeerID i c0 =
     (let c = c0\<lparr>m_peer_id := i\<rparr> in
      if i \<noteq> PEER_ID_INEXISTENT then putCommand (cmd_peer_id_set i) c else c)"

definition doResendOne :: "u16 \<Rightarrow> connection \<Rightarrow> connection" where
  "doResendOne peer_id c = putCommand (cmd_resend_one peer_id) c"

definition sendAck :: "u16 \<Rightarrow> u8 \<Rightarrow> u16 \<Rightarrow> connection \<Rightarrow> connection" where
  "sendAck peer_id channelnum seqnum c =
     putCommand (cmd_ack peer_id channelnum
       (writeU8 (packet_type_code PACKET_TYPE_CONTROL) @
        writeU8 (control_type_code CONTROLTYPE_ACK) @ writeU16 seqnum)) c"

definition Serve :: "address \<Rightarrow> connection \<Rightarrow> connection" where
  "Serve bind_addr = putCommand (cmd_serve bind_addr)"

definition Connect :: "address \<Rightarrow> connection \<Rightarrow> connection" where
  "Connect a = putCommand (cmd_connect a)"

definition Disconnect :: "connection \<Rightarrow> connection" where
  "Disconnect = putCommand cmd_disconnect"

definition DisconnectPeer :: "u16 \<Rightarrow> connection \<Rightarrow> connection" where
  "DisconnectPeer peer_id = putCommand (cmd_disconnect_peer peer_id)"

definition Send :: "u16 \<Rightarrow> u8 \<Rightarrow> net_packet \<Rightarrow> bool \<Rightarrow> connection \<Rightarrow> con_error + connection" where
  "Send peer_id channelnum pkt reliable c =
     (if reliable \<and> unat (m_datasize pkt) > unat MAX_RELIABLE_WINDOW_SIZE * 512 then Inl Abort
      else case cmd_send peer_id channelnum pkt reliable of
        None \<Rightarrow> Inl Abort
      | Some cmd \<Rightarrow> Inr (putCommand cmd c))"

definition GetPeerAddress :: "u16 \<Rightarrow> connection \<Rightarrow> con_error + address" where
  "GetPeerAddress peer_id c =
     (case get_peer peer_id c of
        None \<Rightarrow> Inl PeerNotFoundException | Some p \<Rightarrow> Inr (peer_address p))"

definition getInfoReply :: "connection \<Rightarrow> bytes" where
  "getInfoReply c = (case m_info_provider c of None \<Rightarrow> [] | Some payload \<Rightarrow> payload)"

section \<open>The user side\<close>

text \<open>The calls of the peer handler, in the order they are made.\<close>

datatype peer_callback = peerAdded u16 address | deletingPeer u16 address bool

text \<open>
  \<open>ReceiveTimeoutMs\<close> on the events that arrive before the timeout: whether a packet was
  received, the packet, the callbacks and the events left in the queue.
\<close>

fun receive_events :: "connection_event list \<Rightarrow> net_packet \<Rightarrow>
  (con_error + bool \<times> net_packet) \<times> peer_callback list \<times> connection_event list" where
  "receive_events [] pkt = (Inr (False, pkt), [], [])"
| "receive_events (e # es) pkt =
     (case ce_type e of
        CONNEVENT_NONE \<Rightarrow> (Inr (False, pkt), [], es)
      | CONNEVENT_DATA_RECEIVED \<Rightarrow>
          if length (ce_data e) < 2 then receive_events es pkt
          else (case putRawPacket (ce_data e) (ce_peer_id e) pkt of
              None \<Rightarrow> (Inl Abort, [], es)
            | Some pkt' \<Rightarrow> (Inr (True, pkt'), [], es))
      | CONNEVENT_PEER_ADDED \<Rightarrow>
          (case receive_events es pkt of (r, calls, rest) \<Rightarrow>
             (r, peerAdded (ce_peer_id e) (ce_address e) # calls, rest))
      | CONNEVENT_PEER_REMOVED \<Rightarrow>
          (case receive_events es pkt of (r, calls, rest) \<Rightarrow>
             (r, deletingPeer (ce_peer_id e) (ce_address e) (ce_timeout e) # calls, rest))
      | CONNEVENT_BIND_FAILED \<Rightarrow> (Inl ConnectionBindFailed, [], es))"

definition ReceiveTimeoutMs :: "net_packet \<Rightarrow> connection \<Rightarrow>
  (con_error + bool \<times> net_packet) \<times> peer_callback list \<times> connection" where
  "ReceiveTimeoutMs pkt c =
     (case receive_events (m_event_queue c) pkt of (r, calls, rest) \<Rightarrow>
        (r, calls, c\<lparr>m_event_queue := rest\<rparr>))"

section \<open>Lemmas on the peer table\<close>

lemma map_of_peers_set: "map_of (peers_set k p ps) = (map_of ps)(k \<mapsto> p)"
  by (induction k p ps rule: peers_set.induct) (auto simp: fun_upd_twist)

lemma set_keys_peers_set: "fst ` set (peers_set k p ps) = insert k (fst ` set ps)"
  by (induction k p ps rule: peers_set.induct) auto

lemma sorted_peers_set:
  "sorted_wrt (<) (map fst ps) \<Longrightarrow> sorted_wrt (<) (map fst (peers_set k p ps))"
proof (induction k p ps rule: peers_set.induct)
  case (2 k p i q ps)
  have "\<forall>j \<in> fst ` set (peers_set k p ps). i < j" if "\<not> k < i" "k \<noteq> i"
    unfolding set_keys_peers_set using 2 that by auto
  with 2 show ?case by (auto simp: not_less)
qed simp

lemma map_of_peers_erase: "map_of (peers_erase k ps) = (map_of ps)(k := None)"
  by (induction ps) (auto simp: peers_erase_def)

lemma sorted_peers_erase:
  "sorted_wrt (<) (map fst ps) \<Longrightarrow> sorted_wrt (<) (map fst (peers_erase k ps))"
  by (induction ps) (auto simp: peers_erase_def)

lemma get_set_peer [simp]:
  "get_peer i (set_peer k p c) = (if i = k then Some p else get_peer i c)"
  by (simp add: get_peer_def set_peer_def map_of_peers_set)

lemma get_update_peer:
  "get_peer i (update_peer k f c) = (if i = k then map_option f (get_peer i c) else get_peer i c)"
  by (auto simp: update_peer_def split: option.split)

lemma get_peer_frame [simp]:
  "get_peer i (putEvent e c) = get_peer i c"
  "get_peer i (putCommand cmd c) = get_peer i c"
  "get_peer i (sendAck p ch s c) = get_peer i c"
  "get_peer i (doResendOne p c) = get_peer i c"
  "get_peer i (SetPeerID p c) = get_peer i c"
  "get_peer i (c\<lparr>m_peer_ids := ids\<rparr>) = get_peer i c"
  "get_peer i (c\<lparr>m_udp_out := out\<rparr>) = get_peer i c"
  "get_peer i (c\<lparr>m_event_queue := evs\<rparr>) = get_peer i c"
  "get_peer i (c\<lparr>m_command_queue := cmds\<rparr>) = get_peer i c"
  by (simp_all add: get_peer_def putEvent_def putCommand_def sendAck_def doResendOne_def
      SetPeerID_def Let_def)

lemma get_deletePeer:
  "get_peer i (snd (deletePeer k t c)) = (if i = k then None else get_peer i c)"
  by (auto simp: deletePeer_def get_peer_def putEvent_def map_of_peers_erase split: option.split)

lemma m_peers_frame [simp]:
  "m_peers (putEvent e c) = m_peers c" "m_peers (putCommand cmd c) = m_peers c"
  "m_peers (sendAck p ch s c) = m_peers c" "m_peers (doResendOne p c) = m_peers c"
  "m_peers (SetPeerID p c) = m_peers c"
  "m_peer_ids (putEvent e c) = m_peer_ids c" "m_peer_ids (putCommand cmd c) = m_peer_ids c"
  "m_peer_ids (sendAck p ch s c) = m_peer_ids c" "m_peer_ids (doResendOne p c) = m_peer_ids c"
  "m_peer_ids (SetPeerID p c) = m_peer_ids c"
  by (simp_all add: putEvent_def putCommand_def sendAck_def doResendOne_def SetPeerID_def Let_def)

section \<open>Invariant of the table\<close>

text \<open>
  The table is in the order of the ids, the list of ids has the same members without
  repetition, every peer has its three channels and a valid address, and no two peers
  have the same address.
\<close>

definition table_ok :: "connection \<Rightarrow> bool" where
  "table_ok c \<longleftrightarrow> sorted_wrt (<) (map fst (m_peers c)) \<and> distinct (m_peer_ids c) \<and>
     set (m_peer_ids c) = fst ` set (m_peers c) \<and>
     (\<forall>i p. get_peer i c = Some p \<longrightarrow> isValid (peer_address p) \<and>
        length (channels p) = CHANNEL_COUNT) \<and>
     (\<forall>i j p q. get_peer i c = Some p \<longrightarrow> get_peer j c = Some q \<longrightarrow>
        address_eq (peer_address p) (peer_address q) \<longrightarrow> i = j)"

lemma table_ok_new: "table_ok newConnection"
  by (simp add: table_ok_def newConnection_def get_peer_def)

lemma table_ok_frame:
  "table_ok c \<Longrightarrow> m_peers c' = m_peers c \<Longrightarrow> m_peer_ids c' = m_peer_ids c \<Longrightarrow> table_ok c'"
  by (simp add: table_ok_def get_peer_def)

lemma table_ok_update:
  assumes "table_ok c" and "get_peer k c = Some p" and "peer_address p' = peer_address p"
    and "length (channels p') = CHANNEL_COUNT"
  shows "table_ok (set_peer k p' c)"
proof -
  have "k \<in> fst ` set (m_peers c)"
    using assms(2) by (metis get_peer_def map_of_SomeD fst_conv image_eqI)
  then show ?thesis
    using assms unfolding table_ok_def
    by (auto simp: set_peer_def get_peer_def map_of_peers_set set_keys_peers_set
        sorted_peers_set split: if_splits)
qed

lemma table_ok_update_peer:
  assumes "table_ok c" and "\<And>p. get_peer k c = Some p \<Longrightarrow> peer_address (f p) = peer_address p"
    and "\<And>p. get_peer k c = Some p \<Longrightarrow> length (channels (f p)) = length (channels p)"
  shows "table_ok (update_peer k f c)"
proof (cases "get_peer k c")
  case (Some p)
  then have "length (channels (f p)) = CHANNEL_COUNT"
    using assms(1,3) by (auto simp: table_ok_def)
  then show ?thesis
    using table_ok_update [OF assms(1) Some] assms(2) Some by (simp add: update_peer_def)
qed (simp add: update_peer_def assms)

lemma table_ok_deletePeer:
  assumes "table_ok c"
  shows "table_ok (snd (deletePeer k t c))"
proof (cases "get_peer k c")
  case (Some p)
  have "fst ` set (peers_erase k ps) = fst ` set ps - {k}" for ps
    by (auto simp: peers_erase_def)
  then show ?thesis
    using assms Some unfolding table_ok_def
    by (auto simp: deletePeer_def putEvent_def get_peer_def map_of_peers_erase
        sorted_peers_erase split: if_splits)
qed (simp add: deletePeer_def assms)

lemma find_peer_None:
  "find P (ps :: peer_table) = None \<Longrightarrow> map_of ps i = Some p \<Longrightarrow> \<not> P (i, p)"
  by (auto simp: find_None_iff dest: map_of_SomeD)

lemma lookupPeer_free:
  assumes "lookupPeer a c = PEER_ID_INEXISTENT" and "get_peer PEER_ID_INEXISTENT c = None"
    and "table_ok c" and "get_peer i c = Some p"
  shows "\<not> address_eq (peer_address p) a"
proof (cases "find (\<lambda>(i, p). address_eq (peer_address p) a) (m_peers c)")
  case None
  then show ?thesis using find_peer_None [OF None] assms(4) by (auto simp: get_peer_def)
next
  case (Some ip)
  obtain k q where ip: "ip = (k, q)" by (cases ip)
  then have "k = PEER_ID_INEXISTENT" using assms(1) by (simp add: lookupPeer_def Some)
  moreover have "ip \<in> set (m_peers c)"
    using Some nth_mem by (fastforce simp: find_Some_iff)
  ultimately have "map_of (m_peers c) PEER_ID_INEXISTENT \<noteq> None"
    using ip weak_map_of_SomeI [of k q "m_peers c"] by auto
  then show ?thesis using assms(2) by (simp add: get_peer_def)
qed

lemma try_peer_ids_mem: "\<exists>n. try_peer_ids ids k tries c = ids n"
  by (induction k arbitrary: tries) auto

lemma table_ok_createPeer:
  assumes "table_ok c" and "isValid a"
    and "\<And>i p. get_peer i c = Some p \<Longrightarrow> \<not> address_eq (peer_address p) a"
  shows "table_ok (snd (createPeer now ids a c))"
proof -
  define k where "k = try_peer_ids ids 100 0 c"
  show ?thesis
  proof (cases "get_peer k c")
    case None
    have k: "k \<notin> fst ` set (m_peers c)"
      using None by (simp add: get_peer_def map_of_eq_None_iff)
    have free: "\<not> address_eq a (peer_address p)" if "get_peer i c = Some p" for i p
      using assms(3) [OF that] address_eq_sym by blast
    have "table_ok ((set_peer k (newUDPPeer a now) c)\<lparr>m_peer_ids := m_peer_ids c @ [k]\<rparr>)"
      using assms(1,2) k assms(3) free unfolding table_ok_def
      by (auto simp: set_peer_def get_peer_def map_of_peers_set set_keys_peers_set
          sorted_peers_set newUDPPeer_def split: if_splits)
    then show ?thesis
      by (rule table_ok_frame) (simp_all add: createPeer_def Let_def k_def [symmetric] None)
  qed (simp add: createPeer_def Let_def k_def [symmetric] assms(1))
qed

end
