(* ===== verification/ReceiveThread.thy ===== *)
theory ReceiveThread
  imports Connection
begin

text \<open>
  \<open>ConnectionReceiveThread\<close> of \<open>src/network/mtp/threads.cpp\<close>: what happens to a datagram,
  from the checks on its sender to the handlers of the four packet types, and the
  emptying of the buffers of reliable packets.  A handler that leaves by an exception
  returns \<open>Inl\<close>, with the state as it was then.  A channel is referred to by its peer and
  its number, since packets that were buffered carry their own.
\<close>

section \<open>Channels of peers\<close>

type_synonym channel_ref = "u16 \<times> nat"

definition get_channel :: "channel_ref \<Rightarrow> connection \<Rightarrow> channel" where
  "get_channel r c =
     (case get_peer (fst r) c of None \<Rightarrow> newChannel | Some p \<Rightarrow> channels p ! snd r)"

definition set_channel :: "channel_ref \<Rightarrow> channel \<Rightarrow> connection \<Rightarrow> connection" where
  "set_channel r ch c = update_peer (fst r) (update_channel (snd r) (\<lambda>_. ch)) c"

type_synonym handler_result = "(con_error + bytes) \<times> connection"

section \<open>Handlers of the packet types\<close>

text \<open>\<open>now\<close> is the clock in milliseconds.\<close>

definition report_ack_time :: "u64 \<Rightarrow> buffered_packet \<Rightarrow> peer \<Rightarrow> peer" where
  "report_ack_time now p peer =
     (if unat now > bp_absolute_send_time p
      then reportRTT (real (unat now - bp_absolute_send_time p) / 1000) peer
      else if bp_totaltime p > 0 then reportRTT (bp_totaltime p) peer
      else peer)"

definition handle_ack :: "u64 \<Rightarrow> channel_ref \<Rightarrow> bytes \<Rightarrow> u16 \<Rightarrow> connection \<Rightarrow> handler_result" where
  "handle_ack now r packetdata peer_id c =
     (if length packetdata < 4 then (Inl InvalidIncomingDataException, c)
      else
        let seqnum = readU16 (drop 2 packetdata); ch = get_channel r c in
        case popSeqnum seqnum (outgoing_reliables_sent ch) of
          Inr (p, b) \<Rightarrow>
            let c1 = set_channel r (ch\<lparr>outgoing_reliables_sent := b\<rparr>) c;
                c2 = update_peer peer_id (report_ack_time now p) c1 in
            (Inl ProcessedSilentlyException,
             set_channel r (UpdateBytesSent (of_nat (length (bp_data p))) 1 (get_channel r c2)) c2)
        | Inl e \<Rightarrow>
            (Inl ProcessedSilentlyException, set_channel r (UpdatePacketTooLateCounter ch) c))"

definition handle_set_peer_id :: "bytes \<Rightarrow> connection \<Rightarrow> handler_result" where
  "handle_set_peer_id packetdata c =
     (if length packetdata < 4 then (Inl InvalidIncomingDataException, c)
      else if m_peer_id c \<noteq> PEER_ID_INEXISTENT then (Inl ProcessedSilentlyException, c)
      else (Inl ProcessedSilentlyException, SetPeerID (readU16 (drop 2 packetdata)) c))"

definition handlePacketType_Control ::
  "u64 \<Rightarrow> channel_ref \<Rightarrow> bytes \<Rightarrow> u16 \<Rightarrow> connection \<Rightarrow> handler_result" where
  "handlePacketType_Control now r packetdata peer_id c =
     (if length packetdata < 2 then (Inl InvalidIncomingDataException, c)
      else
        let controltype = readU8 (drop 1 packetdata) in
        if controltype = control_type_code CONTROLTYPE_ACK
        then handle_ack now r packetdata peer_id c
        else if controltype = control_type_code CONTROLTYPE_SET_PEER_ID
        then handle_set_peer_id packetdata c
        else if controltype = control_type_code CONTROLTYPE_PING
        then (Inl ProcessedSilentlyException, c)
        else if controltype = control_type_code CONTROLTYPE_DISCO
        then (Inl ProcessedSilentlyException, snd (deletePeer peer_id False c))
        else (Inl InvalidIncomingDataException, c))"

definition handlePacketType_Original :: "bytes \<Rightarrow> connection \<Rightarrow> handler_result" where
  "handlePacketType_Original packetdata c =
     (if length packetdata \<le> ORIGINAL_HEADER_SIZE then (Inl InvalidIncomingDataException, c)
      else (Inr (drop ORIGINAL_HEADER_SIZE packetdata), c))"

definition handlePacketType_Split ::
  "bytes \<Rightarrow> u16 \<Rightarrow> peer \<Rightarrow> u8 \<Rightarrow> bool \<Rightarrow> connection \<Rightarrow> handler_result" where
  "handlePacketType_Split packetdata peer_id p channelnum reliable c =
     (let packet = makePacket (peer_address p) packetdata (m_protocol_id c) peer_id channelnum in
      case addSplitPacket channelnum packet reliable p of
        None \<Rightarrow> (Inl Abort, c)
      | Some (data, p') \<Rightarrow>
          let c' = set_peer peer_id p' c in
          if length data \<noteq> 0 then (Inr data, c') else (Inl ProcessedSilentlyException, c'))"

text \<open>
  The resend case: a packet that is also the first of the buffer is taken out of it.
\<close>

definition step_over :: "u16 \<Rightarrow> reliable_buffer \<Rightarrow> reliable_buffer" where
  "step_over seqnum b =
     (if getFirstSeqnum b = Some seqnum
      then case popFirst b of Inr (q, b') \<Rightarrow> b' | Inl e \<Rightarrow> b else b)"

text \<open>
  The reliable handler up to the packet inside, which is returned.  A packet that does not
  match the one buffered under its number has the peer disconnected, and is then handled
  as if it were the expected one.
\<close>

definition handlePacketType_Reliable ::
  "channel_ref \<Rightarrow> bytes \<Rightarrow> u16 \<Rightarrow> peer \<Rightarrow> u8 \<Rightarrow> bool \<Rightarrow> connection \<Rightarrow> handler_result" where
  "handlePacketType_Reliable r packetdata peer_id p channelnum reliable c =
     (if reliable then (Inl InvalidIncomingDataException, c)
      else if length packetdata < RELIABLE_HEADER_SIZE then (Inl InvalidIncomingDataException, c)
      else
        let seqnum = readU16 (drop 1 packetdata);
            nxt = next_incoming_seqnum (get_channel r c);
            in_window = seqnum_in_window seqnum nxt MAX_RELIABLE_WINDOW_SIZE in
        if \<not> in_window \<and> seqnum_higher seqnum nxt then (Inl ProcessedSilentlyException, c)
        else if \<not> in_window \<and> seqnum_higher nxt seqnum
        then (Inl ProcessedSilentlyException, sendAck peer_id channelnum seqnum c)
        else
          let c1 = (if in_window then sendAck peer_id channelnum seqnum c else c);
              ch = get_channel r c1;
              process_now = (\<lambda>c. let ch = get_channel r c;
                b = step_over seqnum (incoming_reliables ch) in
                (Inr (drop RELIABLE_HEADER_SIZE packetdata),
                 set_channel r (snd (incNextIncomingSeqNum (ch\<lparr>incoming_reliables := b\<rparr>))) c)) in
          if seqnum \<noteq> nxt
          then
            let packet = makePacket (peer_address p) packetdata (m_protocol_id c1) peer_id channelnum in
            case rb_insert packet nxt (incoming_reliables ch) of
              Inr b \<Rightarrow> (Inl ProcessedQueued, set_channel r (ch\<lparr>incoming_reliables := b\<rparr>) c1)
            | Inl IncomingDataCorruption \<Rightarrow> process_now (putCommand (cmd_disconnect_peer peer_id) c1)
            | Inl e \<Rightarrow> (Inl e, c1)
          else process_now c1)"

lemma handle_reliable_payload:
  "handlePacketType_Reliable r packetdata peer_id p channelnum reliable c = (Inr payload, c') \<Longrightarrow>
    length payload < length packetdata \<and> \<not> reliable"
  by (auto simp: handlePacketType_Reliable_def Let_def packet_sizes
      split: if_splits sum.split_asm con_error.split_asm)

section \<open>Dispatch\<close>

function processPacket ::
  "u64 \<Rightarrow> channel_ref \<Rightarrow> bytes \<Rightarrow> u16 \<Rightarrow> u8 \<Rightarrow> bool \<Rightarrow> connection \<Rightarrow> handler_result" where
  "processPacket now r packetdata peer_id channelnum reliable c =
     (case get_peer peer_id c of
        None \<Rightarrow> (Inl ProcessedSilentlyException, c)
      | Some p \<Rightarrow>
          if length packetdata < 1 then (Inl InvalidIncomingDataException, c)
          else
            let type = readU8 packetdata in
            if unat peer_id \<ge> MAX_UDP_PEERS then (Inl InvalidIncomingDataException, c)
            else if type = packet_type_code PACKET_TYPE_CONTROL
            then handlePacketType_Control now r packetdata peer_id c
            else if type = packet_type_code PACKET_TYPE_ORIGINAL
            then handlePacketType_Original packetdata c
            else if type = packet_type_code PACKET_TYPE_SPLIT
            then handlePacketType_Split packetdata peer_id p channelnum reliable c
            else if type = packet_type_code PACKET_TYPE_RELIABLE
            then case handlePacketType_Reliable r packetdata peer_id p channelnum reliable c of
                (Inl e, c') \<Rightarrow> (Inl e, c')
              | (Inr payload, c') \<Rightarrow> processPacket now r payload peer_id channelnum True c'
            else (Inl InvalidIncomingDataException, c))"
  by pat_completeness auto
termination
  by (relation "measure (\<lambda>(now, r, packetdata, rest). length packetdata)")
    (auto dest: handle_reliable_payload [OF sym])

declare processPacket.simps [simp del]

section \<open>Buffered packets\<close>

text \<open>Whether a packet was due, and what became of it; the peer is the one it names.\<close>

definition checkIncomingBuffers ::
  "u64 \<Rightarrow> channel_ref \<Rightarrow> connection \<Rightarrow> ((con_error + bytes) \<times> u16) option \<times> connection" where
  "checkIncomingBuffers now r c =
     (let ch = get_channel r c in
      case getFirstSeqnum (incoming_reliables ch) of
        None \<Rightarrow> (None, c)
      | Some firstseqnum \<Rightarrow>
          if firstseqnum \<noteq> next_incoming_seqnum ch then (None, c)
          else
            case popFirst (incoming_reliables ch) of
              Inl e \<Rightarrow> (None, c)
            | Inr (p, b) \<Rightarrow>
                let peer_id = readPeerId (bp_data p); channelnum = readChannel (bp_data p);
                    ch' = snd (incNextIncomingSeqNum (ch\<lparr>incoming_reliables := b\<rparr>));
                    payload = drop (BASE_HEADER_SIZE + RELIABLE_HEADER_SIZE) (bp_data p);
                    (res, c') = processPacket now r payload peer_id channelnum True
                      (set_channel r ch' c) in
                (Some (res, peer_id), c'))"

text \<open>The channels are looked through in the order of the peer ids of the list.\<close>

fun check_channels :: "u64 \<Rightarrow> channel_ref list \<Rightarrow> connection \<Rightarrow>
  ((con_error + bytes) \<times> u16) option \<times> connection" where
  "check_channels now [] c = (None, c)"
| "check_channels now (r # rs) c =
     (if get_peer (fst r) c = None then check_channels now rs c
      else case checkIncomingBuffers now r c of
        (Some out, c') \<Rightarrow> (Some out, c')
      | (None, c') \<Rightarrow> check_channels now rs c')"

definition getFromBuffers ::
  "u64 \<Rightarrow> connection \<Rightarrow> ((con_error + bytes) \<times> u16) option \<times> connection" where
  "getFromBuffers now c =
     check_channels now (concat (map (\<lambda>i. map (Pair i) [0..<CHANNEL_COUNT]) (m_peer_ids c))) c"

text \<open>
  The loop at the start of \<open>receive\<close>: data becomes events, until no buffered packet is due
  or an exception other than \<open>ProcessedSilentlyException\<close> ends it (the first component).
\<close>

partial_function (option) drain ::
  "u64 \<Rightarrow> connection \<Rightarrow> (con_error option \<times> connection) option" where
  "drain now c =
     (case getFromBuffers now c of
        (None, c') \<Rightarrow> Some (None, c')
      | (Some (res, peer_id), c') \<Rightarrow>
          (case res of
             Inr data \<Rightarrow> drain now (putEvent (ev_dataReceived peer_id data) c')
           | Inl e \<Rightarrow>
               if e = ProcessedSilentlyException then drain now c' else Some (Some e, c')))"

section \<open>Datagrams\<close>

record receive_thread =
  packet_queued :: bool
  rl_time :: u64
  rl_counter :: int
  rl_logged :: bool

definition newReceiveThread :: receive_thread where
  "newReceiveThread = \<lparr>packet_queued = True, rl_time = 0, rl_counter = 0, rl_logged = False\<rparr>"

definition MAX_NEW_PEERS_PER_SEC :: int where
  "MAX_NEW_PEERS_PER_SEC = 30"

text \<open>\<open>RateLimitHelper::tick\<close>, with the clock in seconds.\<close>

definition tick :: "u64 \<Rightarrow> receive_thread \<Rightarrow> receive_thread" where
  "tick now_s t =
     (if rl_time t \<noteq> now_s then t\<lparr>rl_time := now_s, rl_counter := 0, rl_logged := False\<rparr> else t)"

definition replyToInfoQuery :: "address \<Rightarrow> connection \<Rightarrow> connection" where
  "replyToInfoQuery sender_address c =
     (let payload = getInfoReply c in
      if payload = [] then c
      else c\<lparr>m_udp_out := m_udp_out c @ [(sender_address,
        writeU32 (m_protocol_id c) @ writeU16 PEER_ID_INEXISTENT @ writeU8 0 @
        writeU8 (packet_type_code PACKET_TYPE_CONTROL) @
        writeU8 (control_type_code CONTROLTYPE_SERVER_INFO) @ payload)]\<rparr>)"

text \<open>
  Who sent the datagram: the id in the header, or, on a server, the peer with the address
  of the sender, or a new peer if the limit allows one.
\<close>

definition identify_peer :: "u64 \<Rightarrow> u64 \<Rightarrow> (nat \<Rightarrow> u16) \<Rightarrow> address \<Rightarrow> u16 \<Rightarrow>
  receive_thread \<Rightarrow> connection \<Rightarrow> u16 \<times> receive_thread \<times> connection" where
  "identify_peer now now_s ids sender_address peer_id0 t c =
     (if ConnectedToServer c then (peer_id0, t, c)
      else
        let (peer_id1, c1) =
              (if peer_id0 = PEER_ID_INEXISTENT
               then let found = lookupPeer sender_address c in
                 (found, if found \<noteq> PEER_ID_INEXISTENT then doResendOne found c else c)
               else (peer_id0, c)) in
        if peer_id1 \<noteq> PEER_ID_INEXISTENT then (peer_id1, t, c1)
        else
          let t1 = tick now_s t; t2 = t1\<lparr>rl_counter := rl_counter t1 + 1\<rparr> in
          if rl_counter t2 > MAX_NEW_PEERS_PER_SEC
          then (peer_id1, t2\<lparr>rl_logged := True\<rparr>, c1)
          else let (peer_id2, c2) = createPeer now ids sender_address c1 in (peer_id2, t2, c2))"

text \<open>
  The part of \<open>receive\<close> behind the identification.  The first component of the result is
  an exception that leaves \<open>receive\<close>.
\<close>

definition deliver :: "u64 \<Rightarrow> address \<Rightarrow> bytes \<Rightarrow> u16 \<Rightarrow> bool \<Rightarrow> u8 \<Rightarrow>
  receive_thread \<Rightarrow> connection \<Rightarrow> con_error option \<times> receive_thread \<times> connection" where
  "deliver now sender_address packetdata peer_id knew_peer_id channelnum t c =
     (case get_peer peer_id c of
        None \<Rightarrow> (None, t, c)
      | Some p \<Rightarrow>
          if \<not> address_eq sender_address (peer_address p) then (None, t, c)
          else if \<not> knew_peer_id \<and> \<not> m_half_open p then (None, t, c)
          else
            let c1 = (if knew_peer_id then update_peer peer_id (ResetTimeout \<circ> SetFullyOpen) c else c);
                r = (peer_id, unat channelnum);
                c2 = set_channel r
                  (UpdateBytesReceived (of_nat (length packetdata)) (get_channel r c1)) c1 in
            case processPacket now r (drop BASE_HEADER_SIZE packetdata) peer_id channelnum False c2 of
              (Inr data, c3) \<Rightarrow>
                (None, t\<lparr>packet_queued := True\<rparr>, putEvent (ev_dataReceived peer_id data) c3)
            | (Inl e, c3) \<Rightarrow>
                if e = ProcessedSilentlyException \<or> e = ProcessedQueued
                then (None, t\<lparr>packet_queued := True\<rparr>, c3)
                else if e = InvalidIncomingDataException then (None, t, c3)
                else (Some e, t, c3))"

definition handle_datagram :: "u64 \<Rightarrow> u64 \<Rightarrow> (nat \<Rightarrow> u16) \<Rightarrow> address \<Rightarrow> bytes \<Rightarrow>
  receive_thread \<Rightarrow> connection \<Rightarrow> con_error option \<times> receive_thread \<times> connection" where
  "handle_datagram now now_s ids sender_address packetdata t c =
     (if length packetdata < BASE_HEADER_SIZE \<or> readU32 packetdata \<noteq> m_protocol_id c
      then (None, t, c)
      else
        let peer_id = readPeerId packetdata; channelnum = readChannel packetdata;
            is_control = peer_id = PEER_ID_INEXISTENT \<and>
              length packetdata \<ge> BASE_HEADER_SIZE + 2 \<and>
              readU8 (drop BASE_HEADER_SIZE packetdata) = packet_type_code PACKET_TYPE_CONTROL;
            control = readU8 (drop (BASE_HEADER_SIZE + 1) packetdata) in
        if unat channelnum \<ge> CHANNEL_COUNT then (None, t, c)
        else if is_control \<and> control = control_type_code CONTROLTYPE_QUERY_INFO
        then (None, t, replyToInfoQuery sender_address c)
        else if is_control \<and> control = control_type_code CONTROLTYPE_QUERY_LINK
        then (None, t, c)
        else
          let (peer_id', t', c') = identify_peer now now_s ids sender_address peer_id t c in
          deliver now sender_address packetdata peer_id' (peer_id \<noteq> PEER_ID_INEXISTENT)
            channelnum t' c')"

text \<open>
  One call of \<open>receive\<close>; the datagram is what \<open>receiveDatagram\<close> returns, if anything.  An
  \<open>InvalidIncomingDataException\<close> from the buffers is caught, and the rest of the call is
  left out.
\<close>

definition receive :: "u64 \<Rightarrow> u64 \<Rightarrow> (nat \<Rightarrow> u16) \<Rightarrow> (address \<times> bytes) option \<Rightarrow>
  receive_thread \<Rightarrow> connection \<Rightarrow> (con_error option \<times> receive_thread \<times> connection) option" where
  "receive now now_s ids datagram t c =
     (case (if packet_queued t then drain now c else Some (None, c)) of
        None \<Rightarrow> None
      | Some (Some e, c') \<Rightarrow>
          Some (if e = InvalidIncomingDataException then None else Some e, t, c')
      | Some (None, c') \<Rightarrow>
          let t' = t\<lparr>packet_queued := False\<rparr> in
          Some (case datagram of
              None \<Rightarrow> (None, t', c')
            | Some (sender_address, packetdata) \<Rightarrow>
                handle_datagram now now_s ids sender_address packetdata t' c'))"

end
