(* ===== verification/ReceiveInvariant.thy ===== *)
theory ReceiveInvariant
  imports ReceiveThread
begin

text \<open>
  The invariant of the connection that every handler of the receive thread keeps: the peer
  table is consistent, and the buffers of every peer are in order unless its disconnection
  has been ordered.  It gives the isolation of peers from each other.
\<close>

section \<open>Invariant\<close>

text \<open>
  A peer whose disconnection has been ordered, or is pending.  A packet that collides with a buffered one
  brings the order of its channel into disarray, but also condemns the peer.
\<close>

definition condemned :: "u16 \<Rightarrow> connection \<Rightarrow> bool" where
  "condemned i c \<longleftrightarrow> cmd_disconnect_peer i \<in> set (m_command_queue c) \<or>
     (\<exists>p. get_peer i c = Some p \<and> m_pending_disconnect p)"

text \<open>
  The packets buffered on a channel carry the id of the peer and the number of the channel
  they are buffered on, and, unless the peer is condemned, are in order from the next
  expected number on.
\<close>

definition chan_ok :: "bool \<Rightarrow> u16 \<Rightarrow> nat \<Rightarrow> channel \<Rightarrow> bool" where
  "chan_ok broken i k ch \<longleftrightarrow>
     (\<not> broken \<longrightarrow> rb_ok (next_incoming_seqnum ch) (incoming_reliables ch)) \<and>
     split_buffer_ok (incoming_splits ch) \<and>
     (\<forall>p\<in>set (rb_list (incoming_reliables ch)).
        readPeerId (bp_data p) = i \<and> readChannel (bp_data p) = of_nat k)"

definition peer_ok :: "bool \<Rightarrow> u16 \<Rightarrow> peer \<Rightarrow> bool" where
  "peer_ok broken i p \<longleftrightarrow> length (channels p) = CHANNEL_COUNT \<and>
     (\<forall>k < CHANNEL_COUNT. chan_ok broken i k (channels p ! k))"

definition conn_ok :: "connection \<Rightarrow> bool" where
  "conn_ok c \<longleftrightarrow> table_ok c \<and> \<not> m_shutting_down c \<and> get_peer PEER_ID_INEXISTENT c = None \<and>
     (\<forall>i p. get_peer i c = Some p \<longrightarrow> peer_ok (condemned i c) i p)"

text \<open>
  The commands a thread of the connection may give to the send thread; opening a
  connection to a server is left to the user.
\<close>

definition internal_command :: "connection_command \<Rightarrow> bool" where
  "internal_command cmd \<longleftrightarrow> cc_type cmd \<noteq> CONNCMD_NONE \<and> cc_type cmd \<noteq> CONNCMD_CONNECT"

lemma internal_commands [simp]:
  "internal_command (cmd_ack i n d)" "internal_command (cmd_disconnect_peer i)"
  "internal_command (cmd_resend_one i)" "internal_command (cmd_peer_id_set i)"
  "internal_command (cmd_create_peer i d)"
  by (simp_all add: internal_command_def cmd_ack_def cmd_disconnect_peer_def cmd_resend_one_def
      cmd_peer_id_set_def cmd_create_peer_def newCommand_def)

text \<open>What handling a packet of the peer \<open>i\<close> may do to the connection.\<close>

definition only_peer :: "u16 \<Rightarrow> connection \<Rightarrow> connection \<Rightarrow> bool" where
  "only_peer i c c' \<longleftrightarrow> (\<forall>j. j \<noteq> i \<longrightarrow> get_peer j c' = get_peer j c) \<and>
     (\<forall>p'. get_peer i c' = Some p' \<longrightarrow> (\<exists>p. get_peer i c = Some p \<and> peer_address p' = peer_address p \<and>
        m_pending_disconnect p' = m_pending_disconnect p)) \<and>
     m_protocol_id c' = m_protocol_id c \<and> m_shutting_down c' = m_shutting_down c \<and>
     set (m_command_queue c) \<subseteq> set (m_command_queue c') \<and>
     (\<forall>cmd\<in>set (m_command_queue c'). cmd \<in> set (m_command_queue c) \<or> internal_command cmd)"

definition served :: "connection \<Rightarrow> bool" where
  "served c \<longleftrightarrow> (\<forall>cmd\<in>set (m_command_queue c). internal_command cmd)"

lemma only_peer_served: "only_peer i c c' \<Longrightarrow> served c \<Longrightarrow> served c'"
  by (auto simp: only_peer_def served_def)

lemma only_peer_refl [simp]: "only_peer i c c"
  by (simp add: only_peer_def)

lemma only_peer_trans:
  assumes "only_peer i c c'" and "only_peer i c' c''"
  shows "only_peer i c c''"
  unfolding only_peer_def
proof (intro conjI allI impI)
  fix p' assume "get_peer i c'' = Some p'"
  then obtain q where "get_peer i c' = Some q" "peer_address p' = peer_address q"
    "m_pending_disconnect p' = m_pending_disconnect q"
    using assms(2) by (auto simp: only_peer_def)
  then show "\<exists>p. get_peer i c = Some p \<and> peer_address p' = peer_address p \<and>
      m_pending_disconnect p' = m_pending_disconnect p"
    using assms(1) by (auto simp: only_peer_def)
qed (use assms in \<open>auto simp: only_peer_def\<close>)

lemma condemned_mono:
  assumes "condemned i c" and "only_peer j c c'" and "get_peer i c' \<noteq> None"
  shows "condemned i c'"
  using assms by (cases "i = j") (auto simp: condemned_def only_peer_def)

lemma chan_ok_mono: "chan_ok b i k ch \<Longrightarrow> (b \<Longrightarrow> b') \<Longrightarrow> chan_ok b' i k ch"
  by (auto simp: chan_ok_def)

lemma peer_ok_mono: "peer_ok b i p \<Longrightarrow> (b \<Longrightarrow> b') \<Longrightarrow> peer_ok b' i p"
  by (auto simp: peer_ok_def intro: chan_ok_mono)

lemma chan_ok_new: "chan_ok b i k newChannel"
  by (simp add: chan_ok_def newChannel_def rb_ok_new split_buffer_ok_def)
    (simp add: newReliablePacketBuffer_def)

lemma setWindowSize_chan_ok [simp]: "chan_ok b i k (setWindowSize w ch) = chan_ok b i k ch"
  by (simp add: chan_ok_def frame)

lemma peer_ok_new: "peer_ok b i (newUDPPeer a now)"
  by (simp add: peer_ok_def newUDPPeer_def chan_ok_new)

lemma conn_ok_new: "conn_ok newConnection"
  by (simp add: conn_ok_def table_ok_new) (simp add: newConnection_def get_peer_def)

lemma conn_ok_frame:
  assumes "conn_ok c" and "m_peers c' = m_peers c" and "m_peer_ids c' = m_peer_ids c"
    and "m_shutting_down c' = m_shutting_down c"
    and "set (m_command_queue c) \<subseteq> set (m_command_queue c')"
  shows "conn_ok c'"
  unfolding conn_ok_def
proof (intro conjI allI impI)
  fix i p assume "get_peer i c' = Some p"
  then have "peer_ok (condemned i c) i p"
    using assms(1,2) by (simp add: conn_ok_def get_peer_def)
  then show "peer_ok (condemned i c') i p"
    by (rule peer_ok_mono) (use assms(2,5) in \<open>auto simp: condemned_def get_peer_def\<close>)
qed (use assms table_ok_frame [of c c'] in \<open>auto simp: conn_ok_def get_peer_def\<close>)

lemma queue_frame [simp]:
  "m_command_queue (set_peer i p c) = m_command_queue c"
  "m_command_queue (update_peer i f c) = m_command_queue c"
  "m_command_queue (set_channel r ch c) = m_command_queue c"
  "m_command_queue (putEvent e c) = m_command_queue c"
  "m_shutting_down (set_peer i p c) = m_shutting_down c"
  "m_shutting_down (update_peer i f c) = m_shutting_down c"
  "m_shutting_down (set_channel r ch c) = m_shutting_down c"
  "m_shutting_down (putEvent e c) = m_shutting_down c"
  "m_shutting_down (putCommand cmd c) = m_shutting_down c"
  by (simp_all add: set_peer_def update_peer_def set_channel_def putEvent_def putCommand_def
      split: option.split)

lemma putCommand_queue [simp]:
  "m_command_queue (putCommand cmd c) =
    m_command_queue c @ (if m_shutting_down c then [] else [cmd])"
  by (simp add: putCommand_def)

lemma update_channel_fields [simp]:
  "peer_address (update_channel k f p) = peer_address p"
  "m_pending_disconnect (update_channel k f p) = m_pending_disconnect p"
  "m_half_open (update_channel k f p) = m_half_open p"
  "length (channels (update_channel k f p)) = length (channels p)"
  by (simp_all add: update_channel_def)

lemma get_peer_set_channel [simp]:
  "get_peer j (set_channel r ch c) =
    (if j = fst r then map_option (update_channel (snd r) (\<lambda>_. ch)) (get_peer j c) else get_peer j c)"
  by (simp add: set_channel_def get_update_peer)

lemma condemned_frame [simp]:
  "condemned j (set_channel r ch c) = condemned j c"
  "condemned j (putEvent e c) = condemned j c"
  by (cases "get_peer j c"; auto simp: condemned_def)+

lemma condemned_set_peer:
  "get_peer i c = Some p \<Longrightarrow> m_pending_disconnect p' = m_pending_disconnect p \<Longrightarrow>
    condemned j (set_peer i p' c) = condemned j c"
  by (auto simp: condemned_def)

lemma protocol_frame [simp]:
  "m_protocol_id (putCommand cmd c) = m_protocol_id c"
  "m_protocol_id (putEvent e c) = m_protocol_id c"
  "m_protocol_id (set_peer i p c) = m_protocol_id c"
  "m_protocol_id (update_peer i f c) = m_protocol_id c"
  "m_protocol_id (set_channel r ch c) = m_protocol_id c"
  "m_protocol_id (sendAck i k s c) = m_protocol_id c"
  "m_protocol_id (doResendOne i c) = m_protocol_id c"
  by (simp_all add: putCommand_def putEvent_def set_peer_def update_peer_def set_channel_def
      sendAck_def doResendOne_def split: option.split)

lemma conn_ok_command [simp]: "conn_ok c \<Longrightarrow> conn_ok (putCommand cmd c)"
  by (rule conn_ok_frame [of c]) auto

lemma conn_ok_event [simp]: "conn_ok c \<Longrightarrow> conn_ok (putEvent e c)"
  by (rule conn_ok_frame [of c]) auto

lemma only_peer_command [simp]:
  "internal_command cmd \<Longrightarrow> only_peer i c (putCommand cmd c)" "only_peer i c (putEvent e c)"
  by (auto simp: only_peer_def)

lemma conn_ok_sendAck [simp]: "conn_ok c \<Longrightarrow> conn_ok (sendAck i ch s c)"
  "only_peer j c (sendAck i ch s c)"
  by (simp_all add: sendAck_def)

section \<open>Changing a peer or a channel\<close>

lemma conn_ok_set_peer:
  assumes "conn_ok c" and "get_peer i c = Some p" and "peer_address p' = peer_address p"
    and "m_pending_disconnect p' = m_pending_disconnect p"
    and "peer_ok (condemned i c) i p'"
  shows "conn_ok (set_peer i p' c)" and "only_peer i c (set_peer i p' c)"
proof -
  have "table_ok (set_peer i p' c)"
    using assms table_ok_update [of c i p p'] by (simp add: conn_ok_def peer_ok_def)
  then show "conn_ok (set_peer i p' c)"
    using assms condemned_set_peer [OF assms(2,4)] by (auto simp: conn_ok_def)
  show "only_peer i c (set_peer i p' c)"
    using assms(2-4) by (simp add: only_peer_def)
qed

lemma peer_ok_update_channel:
  "peer_ok b i p \<Longrightarrow> chan_ok b i k (f (channels p ! k)) \<Longrightarrow> peer_ok b i (update_channel k f p)"
  by (cases "k < length (channels p)") (auto simp: peer_ok_def update_channel_def nth_list_update)

lemma set_channel_peer:
  "get_peer i c = Some p \<Longrightarrow>
    set_channel (i, k) ch c = set_peer i (update_channel k (\<lambda>_. ch) p) c"
  by (simp add: set_channel_def update_peer_def)

lemma get_channel_peer: "get_peer i c = Some p \<Longrightarrow> get_channel (i, k) c = channels p ! k"
  by (simp add: get_channel_def)

lemma conn_ok_peer: "conn_ok c \<Longrightarrow> get_peer i c = Some p \<Longrightarrow> peer_ok (condemned i c) i p"
  by (simp add: conn_ok_def)

lemma conn_ok_channel:
  "conn_ok c \<Longrightarrow> get_peer i c = Some p \<Longrightarrow> k < CHANNEL_COUNT \<Longrightarrow>
    chan_ok (condemned i c) i k (get_channel (i, k) c)"
  by (simp add: conn_ok_def peer_ok_def get_channel_def)

lemma conn_ok_set_channel:
  assumes "conn_ok c" and "get_peer i c \<noteq> None" and "chan_ok (condemned i c) i k ch"
  shows "conn_ok (set_channel (i, k) ch c)" and "only_peer i c (set_channel (i, k) ch c)"
proof -
  obtain p where p: "get_peer i c = Some p" using assms(2) by auto
  have "peer_ok (condemned i c) i (update_channel k (\<lambda>_. ch) p)"
    using conn_ok_peer [OF assms(1) p] assms(3) by (rule peer_ok_update_channel)
  then show "conn_ok (set_channel (i, k) ch c)" and "only_peer i c (set_channel (i, k) ch c)"
    using conn_ok_set_peer [OF assms(1) p] by (simp_all add: set_channel_peer [OF p])
qed

lemma get_set_channel:
  assumes "conn_ok c" and "get_peer i c \<noteq> None" and "k < CHANNEL_COUNT"
  shows "get_channel (i, k) (set_channel (i, k) ch c) = ch"
  using assms by (auto simp: get_channel_def update_channel_def conn_ok_def peer_ok_def)

section \<open>The handlers keep the invariant\<close>

text \<open>The exceptions that a handler may leave by.\<close>

definition handled :: "bool \<Rightarrow> con_error + bytes \<Rightarrow> bool" where
  "handled reliable res \<longleftrightarrow>
     (case res of
        Inr data \<Rightarrow> True
      | Inl e \<Rightarrow> e = ProcessedSilentlyException \<or> e = InvalidIncomingDataException \<or>
          (e = ProcessedQueued \<and> \<not> reliable))"

lemma handled_simps [simp]:
  "handled rel (Inr d)" "handled rel (Inl ProcessedSilentlyException)"
  "handled rel (Inl InvalidIncomingDataException)" "handled False (Inl ProcessedQueued)"
  by (simp_all add: handled_def)

definition handler_ok :: "u16 \<Rightarrow> bool \<Rightarrow> connection \<Rightarrow> handler_result \<Rightarrow> bool" where
  "handler_ok i reliable c res \<longleftrightarrow>
     (handled reliable (fst res) \<or> (\<not> reliable \<and> condemned i c)) \<and>
     conn_ok (snd res) \<and> only_peer i c (snd res)"

lemma handler_ok_same: "conn_ok c \<Longrightarrow> handled rel e \<Longrightarrow> handler_ok i rel c (e, c)"
  by (simp add: handler_ok_def)

lemma report_ack_time_ok:
  "peer_ok b i (report_ack_time now q p) = peer_ok b i p"
  "peer_address (report_ack_time now q p) = peer_address p"
  "m_pending_disconnect (report_ack_time now q p) = m_pending_disconnect p"
  "channels (report_ack_time now q p) = channels p"
  by (simp_all add: report_ack_time_def reportRTT_def RTTStatistics_def Let_def peer_ok_def)

lemma UpdateBytes_chan_ok [simp]:
  "chan_ok b i k (UpdateBytesSent n m ch) = chan_ok b i k ch"
  "chan_ok b i k (UpdateBytesReceived n ch) = chan_ok b i k ch"
  "chan_ok b i k (UpdatePacketTooLateCounter ch) = chan_ok b i k ch"
  "chan_ok b i k (ch\<lparr>outgoing_reliables_sent := b'\<rparr>) = chan_ok b i k ch"
  by (simp_all add: chan_ok_def UpdateBytesSent_def UpdateBytesReceived_def
      UpdatePacketTooLateCounter_def)

lemma handle_ack_ok:
  assumes "conn_ok c" and "get_peer i c = Some p" and "k < CHANNEL_COUNT"
  shows "handler_ok i rel c (handle_ack now (i, k) d i c)"
proof (cases "length d < 4")
  case False
  let ?ch = "get_channel (i, k) c"
  have ch: "chan_ok (condemned i c) i k ?ch" using assms by (rule conn_ok_channel)
  have some: "get_peer i c \<noteq> None" using assms(2) by simp
  show ?thesis
  proof (cases "popSeqnum (readU16 (drop 2 d)) (outgoing_reliables_sent ?ch)")
    case (Inl e)
    then show ?thesis
      using False conn_ok_set_channel [OF assms(1) some, of k "UpdatePacketTooLateCounter ?ch"] ch
      by (simp add: handle_ack_def Let_def handler_ok_def)
  next
    case (Inr qb)
    then obtain q b where pop: "popSeqnum (readU16 (drop 2 d)) (outgoing_reliables_sent ?ch) = Inr (q, b)"
      by (cases qb) auto
    define c1 where "c1 = set_channel (i, k) (?ch\<lparr>outgoing_reliables_sent := b\<rparr>) c"
    define c2 where "c2 = update_peer i (report_ack_time now q) c1"
    have c1: "conn_ok c1" "only_peer i c c1"
      using conn_ok_set_channel [OF assms(1) some, of k "?ch\<lparr>outgoing_reliables_sent := b\<rparr>"] ch
      by (simp_all add: c1_def)
    obtain p1 where p1: "get_peer i c1 = Some p1" using assms(2) by (simp add: c1_def)
    have c2: "conn_ok c2" "only_peer i c1 c2" "get_peer i c2 = Some (report_ack_time now q p1)"
      using conn_ok_set_peer [OF c1(1) p1, of "report_ack_time now q p1"] conn_ok_peer [OF c1(1) p1]
      by (simp_all add: c2_def update_peer_def p1 report_ack_time_ok)
    have "chan_ok (condemned i c2) i k (get_channel (i, k) c2)"
      using conn_ok_channel [OF c2(1,3) assms(3)] .
    then have "conn_ok (set_channel (i, k) (UpdateBytesSent a b' (get_channel (i, k) c2)) c2)"
      "only_peer i c2 (set_channel (i, k) (UpdateBytesSent a b' (get_channel (i, k) c2)) c2)" for a b'
      using conn_ok_set_channel [OF c2(1), of i k] c2(3) by auto
    then show ?thesis
      using False pop only_peer_trans [OF only_peer_trans [OF c1(2) c2(2)]]
      by (simp add: handle_ack_def Let_def handler_ok_def c1_def [symmetric] c2_def [symmetric])
  qed
qed (simp add: handle_ack_def handler_ok_same assms)

lemma handlePacketType_Control_ok:
  assumes "conn_ok c" and "get_peer i c = Some p" and "k < CHANNEL_COUNT"
  shows "handler_ok i rel c (handlePacketType_Control now (i, k) d i c)"
proof -
  have queue: "m_command_queue (snd (deletePeer i False c)) = m_command_queue c"
    "m_shutting_down (snd (deletePeer i False c)) = m_shutting_down c"
    "m_protocol_id (snd (deletePeer i False c)) = m_protocol_id c"
    by (simp_all add: deletePeer_def putEvent_def split: option.split)
  then have "conn_ok (snd (deletePeer i False c))"
    using assms(1) table_ok_deletePeer [of c]
    by (auto simp: conn_ok_def get_deletePeer condemned_def)
  moreover have "only_peer i c (snd (deletePeer i False c))"
    using queue by (simp add: only_peer_def get_deletePeer)
  moreover have "conn_ok (SetPeerID s c)" and "only_peer i c (SetPeerID s c)" for s
    using assms(1)
    by (auto intro: conn_ok_frame [OF assms(1)]
        simp: only_peer_def SetPeerID_def Let_def putCommand_def get_peer_def)
  then have "handler_ok i rel c (handle_set_peer_id d c)"
    using assms(1) by (simp add: handle_set_peer_id_def handler_ok_def)
  ultimately show ?thesis
    using handle_ack_ok [OF assms]
    by (auto simp: handlePacketType_Control_def Let_def handler_ok_same assms(1))
      (simp_all add: handler_ok_def)
qed

lemma handlePacketType_Original_ok:
  "conn_ok c \<Longrightarrow> handler_ok i rel c (handlePacketType_Original d c)"
  by (simp add: handlePacketType_Original_def handler_ok_def)

lemma handlePacketType_Split_ok:
  assumes "conn_ok c" and "get_peer i c = Some p" and "unat ch < CHANNEL_COUNT"
  shows "handler_ok i rel c (handlePacketType_Split d i p ch rel' c)"
proof -
  let ?q = "makePacket (peer_address p) d (m_protocol_id c) i ch"
  have p: "peer_ok (condemned i c) i p" using assms by (simp add: conn_ok_def)
  then have c: "chan_ok (condemned i c) i (unat ch) (channels p ! unat ch)"
    using assms(3) by (simp add: peer_ok_def)
  then obtain out b where ins: "split_insert ?q rel' (incoming_splits (channels p ! unat ch)) = Some (out, b)"
    and "split_buffer_ok b"
    using split_insert_ok by (metis chan_ok_def)
  then have "peer_ok (condemned i c) i (update_channel (unat ch) (\<lambda>c. c\<lparr>incoming_splits := b\<rparr>) p)"
    using p c by (intro peer_ok_update_channel) (simp_all add: chan_ok_def)
  then show ?thesis
    using ins conn_ok_set_peer [OF assms(1,2), of
        "update_channel (unat ch) (\<lambda>c. c\<lparr>incoming_splits := b\<rparr>) p"]
    by (simp add: handlePacketType_Split_def Let_def addSplitPacket_def handler_ok_def)
qed

text \<open>
  When the number stepped over is the expected one the invariant holds for the next
  number, whether its packet is in the buffer or not.
\<close>

lemma popFirst_subset: "popFirst b = Inr (q, b') \<Longrightarrow> set (rb_list b') \<subseteq> set (rb_list b)"
  by (auto simp: popFirst_def split: list.split_asm)

lemma step_over_subset: "set (rb_list (step_over s b)) \<subseteq> set (rb_list b)"
  using popFirst_subset by (auto simp: step_over_def split: sum.split)

lemma step_over_expected:
  assumes "rb_ok n b"
  shows "rb_ok (n + 1) (step_over n b)" and "rb_content (step_over n b) = (rb_content b)(n := None)"
proof -
  have "rb_ok (n + 1) (step_over n b) \<and> rb_content (step_over n b) = (rb_content b)(n := None)"
  proof (cases "rb_content b n")
    case None
    then have "getFirstSeqnum b \<noteq> Some n" using rel.first_expected [OF assms] by simp
    then show ?thesis using rel.step [OF assms None] None by (auto simp: step_over_def)
  next
    case (Some q)
    then have "getFirstSeqnum b = Some n" and "rb_content b n \<noteq> None"
      using rel.first_expected [OF assms] by simp_all
    then show ?thesis using rel.pop_expected [OF assms] by (auto simp: step_over_def)
  qed
  then show "rb_ok (n + 1) (step_over n b)"
    and "rb_content (step_over n b) = (rb_content b)(n := None)" by simp_all
qed


lemma handlePacketType_Reliable_cases:
  fixes k :: nat and d :: bytes
  assumes "get_peer i c = Some p"
  defines "ch \<equiv> get_channel (i, k) c"
    and "seqnum \<equiv> readU16 (drop 1 d)"
  defines "nxt \<equiv> next_incoming_seqnum ch"
    and "now_at \<equiv> \<lambda>c. set_channel (i, k)
      (ch\<lparr>incoming_reliables := step_over seqnum (incoming_reliables ch),
         next_incoming_seqnum := next_incoming_seqnum ch + 1\<rparr>) c"
  shows "handlePacketType_Reliable (i, k) d i p n rel c =
    (if rel \<or> length d < RELIABLE_HEADER_SIZE then (Inl InvalidIncomingDataException, c)
     else if \<not> seqnum_dist nxt seqnum < 32768
     then (Inl ProcessedSilentlyException,
       if seqnum_higher seqnum nxt then c else sendAck i n seqnum c)
     else if seqnum = nxt
     then (Inr (drop RELIABLE_HEADER_SIZE d), now_at (sendAck i n seqnum c))
     else
       case rb_insert (makePacket (peer_address p) d (m_protocol_id c) i n) nxt
         (incoming_reliables ch) of
         Inr b \<Rightarrow> (Inl ProcessedQueued,
           set_channel (i, k) (ch\<lparr>incoming_reliables := b\<rparr>) (sendAck i n seqnum c))
       | Inl e \<Rightarrow> if e = IncomingDataCorruption
           then (Inr (drop RELIABLE_HEADER_SIZE d),
             now_at (putCommand (cmd_disconnect_peer i) (sendAck i n seqnum c)))
           else (Inl e, sendAck i n seqnum c))"
proof -
  have win: "seqnum_in_window seqnum nxt MAX_RELIABLE_WINDOW_SIZE \<longleftrightarrow> seqnum_dist nxt seqnum < 32768"
    by (simp add: seq_arith MAX_RELIABLE_WINDOW_SIZE_def)
  have old: "\<not> seqnum_dist nxt seqnum < 32768 \<Longrightarrow> \<not> seqnum_higher seqnum nxt \<Longrightarrow>
      seqnum_higher nxt seqnum"
  proof -
    assume d: "\<not> seqnum_dist nxt seqnum < 32768" and "\<not> seqnum_higher seqnum nxt"
    then have "\<not> (seqnum_dist nxt seqnum = 32768 \<and> seqnum < nxt)" by (auto simp: seq_arith)
    moreover have "seqnum \<noteq> nxt" using d by auto
    moreover from this have "seqnum_dist seqnum nxt = 65536 - seqnum_dist nxt seqnum"
      using unat16_lt [of seqnum] unat16_lt [of nxt]
      by (auto simp: seqnum_dist_unat word_unat_eq_iff)
    ultimately show "seqnum_higher nxt seqnum"
      using d seqnum_dist_lt [of nxt seqnum]
      by (auto simp: seq_arith word_less_nat_alt word_unat_eq_iff not_less)
  qed
  have same: "get_channel (i, k) (sendAck i n s c) = ch"
    "get_channel (i, k) (putCommand cmd (sendAck i n s c)) = ch" for cmd s
    by (simp_all add: get_channel_def ch_def)
  show ?thesis
    unfolding handlePacketType_Reliable_def Let_def seqnum_def [symmetric]
      ch_def [symmetric] nxt_def [symmetric] win
    using old
    by (cases "rb_insert (makePacket (peer_address p) d (m_protocol_id c) i n) nxt
         (incoming_reliables ch)")
      (auto simp: same incNextIncomingSeqNum_def now_at_def split: con_error.split)
qed

lemma makePacket_stored:
  "readPeerId (bp_data (makePacket a d prot i n)) = i"
  "readChannel (bp_data (makePacket a d prot i n)) = n"
  by simp_all

lemma rb_insert_list:
  assumes ins: "rb_insert p n b = Inr b'" and l: "rb_list b = f # fs"
    and s: "insert_search (getSeqnum p) n (getSeqnum f) [] (f # fs) = (l1, l2, u)"
  shows "rb_list b' = f # fs \<or> rb_list b' = l1 @ p # l2"
  using l ins [unfolded rb_insert_def Let_def l list.case s prod.case]
  by (simp split: if_split_asm del: insert_search.simps)
    (cases l2; auto split: if_split_asm)+

lemma insert_search_set:
  "insert_search s n t passed l = (l1, l2, u) \<Longrightarrow> set l1 \<union> set l2 = set passed \<union> set l"
  by (induction s n t passed l rule: insert_search.induct) (auto split: if_splits)

lemma rb_insert_set:
  assumes ins: "rb_insert p n b = Inr b'"
  shows "set (rb_list b') \<subseteq> insert p (set (rb_list b))"
proof (cases "rb_list b")
  case Nil
  have "b' = b \<or> rb_list b' = [p]"
    using ins [unfolded rb_insert_def Let_def Nil list.case] by (auto split: if_split_asm)
  with Nil show ?thesis by auto
next
  case (Cons f fs)
  obtain l1 l2 u where s: "insert_search (getSeqnum p) n (getSeqnum f) [] (f # fs) = (l1, l2, u)"
    by (rule prod_cases3)
  have "set (l1 @ p # l2) = insert p (set l1 \<union> set l2)" by simp
  also have "\<dots> = insert p (set (rb_list b))" using insert_search_set [OF s] Cons by simp
  finally show ?thesis
    using rb_insert_list [OF ins Cons s] Cons by (metis order_refl subset_insertI)
qed

lemma handlePacketType_Reliable_ok:
  assumes ok: "conn_ok c" and p: "get_peer i c = Some p" and k: "unat n < CHANNEL_COUNT"
    and idx: "unat n = k"
  shows "handler_ok i rel c (handlePacketType_Reliable (i, k) d i p n rel c)"
proof -
  let ?ch = "get_channel (i, k) c"
  define s where "s = readU16 (drop 1 d)"
  define nxt where "nxt = next_incoming_seqnum ?ch"
  define q where "q = makePacket (peer_address p) d (m_protocol_id c) i n"
  define c1 where "c1 = sendAck i n s c"
  define ch2 where "ch2 = ?ch\<lparr>incoming_reliables := step_over s (incoming_reliables ?ch),
         next_incoming_seqnum := next_incoming_seqnum ?ch + 1\<rparr>"
  have ch: "chan_ok (condemned i c) i k ?ch" using ok p k idx by (simp add: conn_ok_channel)
  have c1: "conn_ok c1" "only_peer i c c1" "get_peer i c1 \<noteq> None"
    using ok p by (simp_all add: c1_def)
  have mono: "chan_ok (condemned i c1) i k x" if "chan_ok (condemned i c) i k x" for x
    using that condemned_mono [OF _ c1(2,3)] by (rule chan_ok_mono)
  have n: "n = of_nat k" using idx by auto
  have stored: "readPeerId (bp_data x) = i \<and> readChannel (bp_data x) = of_nat k"
    if "x \<in> insert q (set (rb_list (incoming_reliables ?ch)))" for x
    using that ch n by (auto simp: chan_ok_def q_def)
  have expected: "chan_ok (condemned i c) i k ch2" if "s = nxt"
    using ch that step_over_expected(1) step_over_subset [of s "incoming_reliables ?ch"]
    by (auto simp: chan_ok_def ch2_def nxt_def)
  have broken: "chan_ok True i k ch2"
    using ch step_over_subset [of s "incoming_reliables ?ch"] by (auto simp: chan_ok_def ch2_def)
  have queued: "chan_ok (condemned i c) i k (?ch\<lparr>incoming_reliables := b\<rparr>)"
    if "rb_insert q nxt (incoming_reliables ?ch) = Inr b" for b
    using ch that rb_insert_set [OF that] stored rb_insert_result [of nxt "incoming_reliables ?ch" q]
    by (auto simp: chan_ok_def nxt_def)
  have err: "e = IncomingDataCorruption \<or> condemned i c"
    if "rb_insert q nxt (incoming_reliables ?ch) = Inl e" for e
    using ch that rb_insert_result [of nxt "incoming_reliables ?ch" q] by (auto simp: chan_ok_def nxt_def)
  define now_at where "now_at = (\<lambda>c. set_channel (i, k) ch2 c)"
  have run: "handlePacketType_Reliable (i, k) d i p n rel c =
    (if rel \<or> length d < RELIABLE_HEADER_SIZE then (Inl InvalidIncomingDataException, c)
     else if \<not> seqnum_dist nxt s < 32768
     then (Inl ProcessedSilentlyException, if seqnum_higher s nxt then c else c1)
     else if s = nxt then (Inr (drop RELIABLE_HEADER_SIZE d), now_at c1)
     else
       case rb_insert q nxt (incoming_reliables ?ch) of
         Inr b \<Rightarrow> (Inl ProcessedQueued, set_channel (i, k) (?ch\<lparr>incoming_reliables := b\<rparr>) c1)
       | Inl e \<Rightarrow> if e = IncomingDataCorruption
           then (Inr (drop RELIABLE_HEADER_SIZE d), now_at (putCommand (cmd_disconnect_peer i) c1))
           else (Inl e, c1))"
    unfolding now_at_def ch2_def nxt_def s_def c1_def q_def
    by (rule handlePacketType_Reliable_cases [OF p])
  have now_expected: "conn_ok (now_at c1) \<and> only_peer i c (now_at c1)" if "s = nxt"
    using conn_ok_set_channel [OF c1(1,3) mono [OF expected [OF that]]] only_peer_trans [OF c1(2)]
    by (simp add: now_at_def)
  have now_broken: "conn_ok (now_at (putCommand (cmd_disconnect_peer i) c1)) \<and>
      only_peer i c (now_at (putCommand (cmd_disconnect_peer i) c1))"
  proof -
    let ?c2 = "putCommand (cmd_disconnect_peer i) c1"
    have "conn_ok ?c2" "get_peer i ?c2 \<noteq> None" using c1 by simp_all
    moreover have "condemned i ?c2"
      using c1(1) by (simp add: condemned_def conn_ok_def)
    ultimately show ?thesis
      using conn_ok_set_channel [of ?c2 i k ch2] broken
        only_peer_trans [OF only_peer_trans [OF c1(2) only_peer_command(1) [OF internal_commands(2)]]]
      by (simp add: now_at_def)
  qed
  have now_queued: "conn_ok (set_channel (i, k) (?ch\<lparr>incoming_reliables := b\<rparr>) c1) \<and>
      only_peer i c (set_channel (i, k) (?ch\<lparr>incoming_reliables := b\<rparr>) c1)"
    if "rb_insert q nxt (incoming_reliables ?ch) = Inr b" for b
    using conn_ok_set_channel [OF c1(1,3) mono [OF queued [OF that]]] only_peer_trans [OF c1(2)]
    by simp
  show ?thesis
  proof (cases "rb_insert q nxt (incoming_reliables ?ch)")
    case (Inl e)
    then show ?thesis
      using ok c1 now_expected now_broken err [OF Inl] by (auto simp: run handler_ok_def)
  next
    case (Inr b)
    then show ?thesis
      using ok c1 now_expected now_queued [OF Inr] by (auto simp: run handler_ok_def)
  qed
qed

section \<open>Processing keeps the invariant\<close>

lemma processPacket_ok:
  assumes "conn_ok c" and "unat n < CHANNEL_COUNT"
  shows "handler_ok i rel c (processPacket now (i, unat n) d i n rel c)"
  using assms
proof (induction now "(i, unat n)" d i n rel c rule: processPacket.induct)
  case (1 now d i n rel c)
  show ?case
  proof (cases "get_peer i c")
    case None
    then show ?thesis
      using 1(2) by (subst processPacket.simps) (simp add: handler_ok_same)
  next
    case (Some p)
    note rel_ok = handlePacketType_Reliable_ok [OF 1(2) Some 1(3) refl, of rel d]
    have rec: "handler_ok i rel c (processPacket now (i, unat n) payload i n True c')"
      if "handlePacketType_Reliable (i, unat n) d i p n rel c = (Inr payload, c')"
        and "d \<noteq> []" "\<not> unat i \<ge> MAX_UDP_PEERS"
        and "readU8 d = packet_type_code PACKET_TYPE_RELIABLE" for payload c'
    proof -
      have c': "conn_ok c'" "only_peer i c c'" using rel_ok that(1) by (simp_all add: handler_ok_def)
      have "handler_ok i True c' (processPacket now (i, unat n) payload i n True c')"
        using that by (intro 1(1) [OF Some _ refl _ _ _ _ _ that(1) [symmetric]] c'(1) 1(3)) auto
      moreover have "\<not> rel" using handle_reliable_payload [OF that(1)] by simp
      ultimately show ?thesis
        using only_peer_trans [OF c'(2)]
        by (auto simp: handler_ok_def handled_def split: sum.split_asm sum.split)
    qed
    show ?thesis
      using 1(2,3) Some rec rel_ok
        handlePacketType_Control_ok [OF 1(2) Some 1(3), of rel now d]
        handlePacketType_Original_ok [OF 1(2), of i rel d]
        handlePacketType_Split_ok [OF 1(2) Some 1(3), of rel d rel]
      by (subst processPacket.simps)
        (auto simp: Let_def handler_ok_same split: prod.split sum.split)
  qed
qed

lemma step_over_popFirst:
  "getFirstSeqnum b = Some s \<Longrightarrow> popFirst b = Inr (q, b') \<Longrightarrow> step_over s b = b'"
  by (simp add: step_over_def)

lemma checkIncomingBuffers_ok:
  assumes ok: "conn_ok c" and p: "get_peer i c = Some p" and k: "k < CHANNEL_COUNT"
    and run: "checkIncomingBuffers now (i, k) c = (out, c')"
  shows "conn_ok c' \<and> only_peer i c c' \<and>
    (\<forall>res j. out = Some (res, j) \<longrightarrow> j = i \<and> handled True res)"
proof -
  let ?ch = "get_channel (i, k) c"
  let ?b = "incoming_reliables ?ch"
  show ?thesis
  proof (cases "getFirstSeqnum ?b = Some (next_incoming_seqnum ?ch)")
    case False
    then have "out = None \<and> c' = c"
      using run by (auto simp: checkIncomingBuffers_def Let_def split: option.split_asm if_split_asm)
    then show ?thesis using ok by simp
  next
    case True
    then obtain q b where pop: "popFirst ?b = Inr (q, b)" and q: "q \<in> set (rb_list ?b)"
      by (auto simp: getFirstSeqnum_def popFirst_def split: list.split_asm)
    have b: "b = step_over (next_incoming_seqnum ?ch) ?b"
      using step_over_popFirst [OF True pop] by simp
    have ch: "chan_ok (condemned i c) i k ?ch" using ok p k by (rule conn_ok_channel)
    define ch' where "ch' = ?ch\<lparr>incoming_reliables := b, next_incoming_seqnum := next_incoming_seqnum ?ch + 1\<rparr>"
    define c1 where "c1 = set_channel (i, k) ch' c"
    have "chan_ok (condemned i c) i k ch'"
      using ch step_over_expected(1) step_over_subset [of "next_incoming_seqnum ?ch" ?b]
      by (auto simp: chan_ok_def ch'_def b)
    then have c1: "conn_ok c1" "only_peer i c c1"
      using conn_ok_set_channel [OF ok, of i k ch'] p by (simp_all add: c1_def)
    have ids: "readPeerId (bp_data q) = i" "readChannel (bp_data q) = of_nat k"
      using ch q by (auto simp: chan_ok_def)
    have n: "unat (of_nat k :: u8) = k"
      using k by (simp add: CHANNEL_COUNT_def unsigned_of_nat take_bit_nat_eq_self)
    obtain res c2 where r: "processPacket now (i, k)
        (drop (BASE_HEADER_SIZE + RELIABLE_HEADER_SIZE) (bp_data q)) i (of_nat k) True c1 = (res, c2)"
      by fastforce
    then have "handler_ok i True c1 (res, c2)"
      using processPacket_ok [OF c1(1), of "of_nat k" i True now] k n by (metis n)
    then have "conn_ok c2" "only_peer i c c2" "handled True res"
      using only_peer_trans [OF c1(2)] by (auto simp: handler_ok_def)
    moreover have "out = Some (res, i) \<and> c' = c2"
      using run True pop r ids
      by (simp add: checkIncomingBuffers_def Let_def incNextIncomingSeqNum_def ch'_def c1_def)
    ultimately show ?thesis by auto
  qed
qed

lemma check_channels_ok:
  assumes "conn_ok c" and "\<forall>r\<in>set rs. snd r < CHANNEL_COUNT"
    and "check_channels now rs c = (out, c')"
  shows "conn_ok c' \<and> (out = None \<longrightarrow> c' = c) \<and>
    (\<forall>res j. out = Some (res, j) \<longrightarrow> handled True res \<and> get_peer j c \<noteq> None \<and> only_peer j c c')"
  using assms(2,3)
proof (induction rs)
  case (Cons r rs)
  obtain i k where r: "r = (i, k)" by (cases r)
  have k: "k < CHANNEL_COUNT" and rest: "\<forall>r\<in>set rs. snd r < CHANNEL_COUNT"
    using Cons.prems(1) r by simp_all
  show ?case
  proof (cases "get_peer i c")
    case None
    then have "check_channels now rs c = (out, c')" using Cons.prems(2) r by simp
    then show ?thesis by (rule Cons.IH [OF rest])
  next
    case (Some p)
    obtain out1 c1 where run: "checkIncomingBuffers now (i, k) c = (out1, c1)" by fastforce
    note ok = checkIncomingBuffers_ok [OF assms(1) Some k run]
    show ?thesis
    proof (cases out1)
      case None
      then have "c1 = c"
        using run by (auto simp: checkIncomingBuffers_def Let_def
            split: option.split_asm if_split_asm sum.split_asm prod.split_asm)
      then have "check_channels now rs c = (out, c')"
        using Cons.prems(2) r Some run None by simp
      then show ?thesis by (rule Cons.IH [OF rest])
    next
      case (Some x)
      then have "out = Some x \<and> c' = c1"
        using Cons.prems(2) r run \<open>get_peer i c = Some p\<close> by simp
      then show ?thesis using ok Some \<open>get_peer i c = Some p\<close> by auto
    qed
  qed
qed (use assms(1) in auto)

lemma getFromBuffers_ok:
  assumes "conn_ok c" and "getFromBuffers now c = (out, c')"
  shows "conn_ok c' \<and> (out = None \<longrightarrow> c' = c) \<and>
    (\<forall>res j. out = Some (res, j) \<longrightarrow> handled True res \<and> get_peer j c \<noteq> None \<and> only_peer j c c')"
  by (rule check_channels_ok [OF assms(1) _ assms(2) [unfolded getFromBuffers_def]]) auto

section \<open>Identification and delivery\<close>

lemma conn_ok_createPeer:
  assumes "conn_ok c" and "\<forall>n. ids n \<noteq> PEER_ID_INEXISTENT" and "isValid a" and "\<And>i p. get_peer i c = Some p \<Longrightarrow> \<not> address_eq (peer_address p) a"
  shows "conn_ok (snd (createPeer now ids a c))"
proof -
  have "table_ok (snd (createPeer now ids a c))"
    using assms by (intro table_ok_createPeer) (auto simp: conn_ok_def)
  moreover have "get_peer PEER_ID_INEXISTENT (snd (createPeer now ids a c)) = None"
  proof -
    have "try_peer_ids ids 100 0 c \<noteq> PEER_ID_INEXISTENT"
      using assms(2) try_peer_ids_mem [of ids 100 0 c] by metis
    then show ?thesis
      using assms(1) by (simp add: createPeer_def Let_def conn_ok_def)
  qed
  moreover have "\<not> m_shutting_down (snd (createPeer now ids a c))"
    using assms(1) by (simp add: createPeer_def Let_def conn_ok_def set_peer_def)
  moreover have "peer_ok (condemned i (snd (createPeer now ids a c))) i p"
    if "get_peer i (snd (createPeer now ids a c)) = Some p" for i p
  proof (cases "get_peer i c")
    case None
    then have "p = newUDPPeer a now"
      using that by (auto simp: createPeer_def Let_def split: if_splits)
    then show ?thesis by (simp add: peer_ok_new)
  next
    case (Some q)
    then have "p = q"
      using that by (auto simp: createPeer_def Let_def split: if_splits)
    moreover have "condemned i c \<Longrightarrow> condemned i (snd (createPeer now ids a c))"
      by (auto simp: condemned_def createPeer_def Let_def)
    ultimately show ?thesis
      using conn_ok_peer [OF assms(1) Some] peer_ok_mono by blast
  qed
  ultimately show ?thesis by (simp add: conn_ok_def)
qed

lemma createPeer_others:
  "get_peer j c \<noteq> None \<Longrightarrow> get_peer j (snd (createPeer now ids a c)) = get_peer j c"
  by (auto simp: createPeer_def Let_def)

lemma identify_peer_ok:
  assumes "conn_ok c" and "isValid a" and ids: "\<forall>n. ids n \<noteq> PEER_ID_INEXISTENT"
    and "identify_peer now now_s ids a i t c = (j, t', c')"
  shows "conn_ok c' \<and> (\<forall>k. get_peer k c \<noteq> None \<longrightarrow> get_peer k c' = get_peer k c) \<and>
    (\<forall>k p. get_peer k c' = Some p \<longrightarrow> get_peer k c = Some p \<or> address_eq a (peer_address p))"
proof -
  have tab: "table_ok c" and zero: "get_peer PEER_ID_INEXISTENT c = None"
    using assms(1) by (simp_all add: conn_ok_def)
  have new: "address_eq a (peer_address p)"
    if "get_peer k (snd (createPeer now ids a c)) = Some p" "get_peer k c = None" for k p
    using that assms(2)
    by (auto simp: createPeer_def Let_def newUDPPeer_def address_eq_refl split: if_splits)
  have unknown: "conn_ok (snd (createPeer now ids a c))" if "lookupPeer a c = PEER_ID_INEXISTENT"
    using lookupPeer_free [OF that zero tab] by (rule conn_ok_createPeer [OF assms(1) ids assms(2)])
  show ?thesis
  proof (cases "ConnectedToServer c \<or> i \<noteq> PEER_ID_INEXISTENT \<or> lookupPeer a c \<noteq> PEER_ID_INEXISTENT")
    case True
    then have "c' = c \<or> (\<exists>cmd. c' = putCommand cmd c)"
      using assms(4) by (auto simp: identify_peer_def Let_def doResendOne_def split: if_split_asm)
    then show ?thesis using assms(1) by auto
  next
    case False
    then have "c' = c \<or> c' = snd (createPeer now ids a c)"
      using assms(4) by (auto simp: identify_peer_def Let_def split: if_split_asm prod.split_asm)
    moreover have "conn_ok (snd (createPeer now ids a c))" using unknown False by simp
    ultimately show ?thesis
      using assms(1) new createPeer_others [of _ c now ids a]
      by (metis (no_types, lifting) option.distinct(1))
  qed
qed

lemma identify_peer_condemned:
  assumes "identify_peer now now_s ids a i t c = (j, t', c')"
  shows "condemned k c' = condemned k c"
proof -
  have "condemned k (snd (createPeer now ids a c)) = condemned k c"
    by (auto simp: condemned_def createPeer_def Let_def cmd_create_peer_def newUDPPeer_def
        cmd_disconnect_peer_def newCommand_def putCommand_def)
  then show ?thesis
    using assms
    by (auto simp: identify_peer_def Let_def doResendOne_def condemned_def cmd_resend_one_def
        cmd_disconnect_peer_def newCommand_def putCommand_def split: if_split_asm prod.split_asm)
qed

lemma identify_peer_served:
  assumes "identify_peer now now_s ids a i t c = (j, t', c')" and "served c"
  shows "served c'"
proof -
  have "served (snd (createPeer now ids a c))"
    using assms(2) by (simp add: served_def createPeer_def Let_def putCommand_def)
  moreover have "served (putCommand (cmd_resend_one k) c)" for k
    using assms(2) by (simp add: served_def putCommand_def)
  ultimately show ?thesis
    using assms
    by (auto simp: identify_peer_def Let_def doResendOne_def split: if_split_asm prod.split_asm)
qed

lemma deliver_ok:
  assumes ok: "conn_ok c" and n: "unat n < CHANNEL_COUNT"
    and run: "deliver now a d i knew n t c = (e, t', c')"
  shows "conn_ok c' \<and> (e \<noteq> None \<longrightarrow> condemned i c) \<and>
    (c' = c \<or> only_peer i c c' \<and> (\<exists>p. get_peer i c = Some p \<and> address_eq a (peer_address p)))"
proof (cases "get_peer i c")
  case None
  then show ?thesis using run ok by (simp add: deliver_def)
next
  case (Some p)
  show ?thesis
  proof (cases "address_eq a (peer_address p) \<and> (knew \<or> m_half_open p)")
    case False
    then have "c' = c \<and> e = None"
      using run Some unfolding deliver_def by (simp split: if_split_asm)
    then show ?thesis using ok by simp
  next
    case True
    define c1 where "c1 = (if knew then update_peer i (ResetTimeout \<circ> SetFullyOpen) c else c)"
    define c2 where "c2 = set_channel (i, unat n)
      (UpdateBytesReceived (of_nat (length d)) (get_channel (i, unat n) c1)) c1"
    have "peer_ok b i (ResetTimeout (SetFullyOpen p)) = peer_ok b i p" for b
      by (simp add: peer_ok_def ResetTimeout_def SetFullyOpen_def)
    then have c1: "conn_ok c1" "only_peer i c c1" "get_peer i c1 \<noteq> None"
      using conn_ok_set_peer [OF ok Some, of "ResetTimeout (SetFullyOpen p)"] conn_ok_peer [OF ok Some]
        ok Some
      by (simp_all add: c1_def update_peer_def ResetTimeout_def SetFullyOpen_def)
    then have "chan_ok (condemned i c1) i (unat n) (get_channel (i, unat n) c1)"
      using conn_ok_channel [OF c1(1) _ n] by auto
    then have c2: "conn_ok c2" "only_peer i c c2"
      using conn_ok_set_channel [OF c1(1,3)] only_peer_trans [OF c1(2)] by (simp_all add: c2_def)
    have "condemned i c1 = condemned i c"
      using condemned_set_peer [OF Some, of "ResetTimeout (SetFullyOpen p)" i]
      by (simp add: c1_def update_peer_def Some ResetTimeout_def SetFullyOpen_def)
    then have q: "condemned i c2 = condemned i c" by (simp add: c2_def)
    obtain res c3 where proc: "processPacket now (i, unat n) (drop BASE_HEADER_SIZE d) i n False c2 =
        (res, c3)" by fastforce
    have "handler_ok i False c2 (res, c3)"
      using processPacket_ok [OF c2(1) n, of i False now "drop BASE_HEADER_SIZE d"] proc by simp
    then have c3: "conn_ok c3" "only_peer i c c3" "handled False res \<or> condemned i c"
      using only_peer_trans [OF c2(2)] q by (auto simp: handler_ok_def)
    have evt: "only_peer i c (putEvent ev c3)" for ev
      using only_peer_trans [OF c3(2) only_peer_command(2)] .
    have "c' = c3 \<or> (\<exists>ev. c' = putEvent ev c3)" and "e \<noteq> None \<longrightarrow> \<not> handled False res"
      using run Some True proc
      by (auto simp: deliver_def c1_def [symmetric] c2_def [symmetric] Let_def handled_def
          split: sum.split_asm if_split_asm)
    then show ?thesis using c3 evt Some True by auto
  qed
qed

text \<open>What a datagram leaves as it was.\<close>

lemma handle_datagram_served:
  assumes "conn_ok c" and ids: "\<forall>n. ids n \<noteq> PEER_ID_INEXISTENT" and "isValid a" and "served c"
    and run: "handle_datagram now now_s ids a d t c = (e, t', c')"
  shows "served c'"
proof -
  obtain j t1 c1 where ident: "identify_peer now now_s ids a (readPeerId d) t c = (j, t1, c1)"
    by (rule prod_cases3)
  have c1: "conn_ok c1" "served c1"
    using identify_peer_ok [OF assms(1,3) ids ident] identify_peer_served [OF ident assms(4)] by simp_all
  have "served (replyToInfoQuery a c)"
    using assms(4) by (simp add: served_def replyToInfoQuery_def Let_def)
  moreover have "served c'" if "unat (readChannel d) < CHANNEL_COUNT"
    "deliver now a d j (readPeerId d \<noteq> PEER_ID_INEXISTENT) (readChannel d) t1 c1 = (e, t', c')"
    using deliver_ok [OF c1(1) that] only_peer_served c1(2) by blast
  ultimately show ?thesis
    using run ident assms(4) by (auto simp: handle_datagram_def Let_def split: if_split_asm)
qed

lemma handle_datagram_ok:
  assumes "conn_ok c" and "\<forall>n. ids n \<noteq> PEER_ID_INEXISTENT" and "isValid a"
    and run: "handle_datagram now now_s ids a d t c = (e, t', c')"
  shows "conn_ok c' \<and>
    (\<forall>k p. get_peer k c = Some p \<longrightarrow> \<not> address_eq a (peer_address p) \<longrightarrow> get_peer k c' = Some p) \<and>
    ((\<forall>k. \<not> condemned k c) \<longrightarrow> e = None)"
proof -
  have info: "conn_ok (replyToInfoQuery a c)" "get_peer k (replyToInfoQuery a c) = get_peer k c" for k
    using conn_ok_frame [OF assms(1), of "replyToInfoQuery a c"]
    by (auto simp: replyToInfoQuery_def Let_def)
  define n where "n = readChannel d"
  define i where "i = readPeerId d"
  obtain j t1 c1 where ident: "identify_peer now now_s ids a i t c = (j, t1, c1)"
    by (rule prod_cases3)
  note id_ok = identify_peer_ok [OF assms(1,3,2) ident]
  show ?thesis
  proof (cases "c' = c \<and> e = None \<or> c' = replyToInfoQuery a c \<and> e = None")
    case True
    then show ?thesis using assms(1) info by auto
  next
    case False
    then have n: "unat n < CHANNEL_COUNT"
      and del: "deliver now a d j (i \<noteq> PEER_ID_INEXISTENT) n t1 c1 = (e, t', c')"
      using run ident
      by (auto simp: handle_datagram_def Let_def n_def i_def split: if_split_asm)
    note dv = deliver_ok [OF conjunct1 [OF id_ok] n del]
    have keep: "get_peer k c' = Some p"
      if "get_peer k c = Some p" "\<not> address_eq a (peer_address p)" for k p
    proof -
      have k: "get_peer k c1 = Some p" using id_ok that(1) by auto
      show ?thesis
      proof (cases "c' = c1")
        case False
        then have "only_peer j c1 c'" and "k \<noteq> j" using dv k that(2) by auto
        then show ?thesis using k by (simp add: only_peer_def)
      qed (simp add: k)
    qed
    show ?thesis
      using dv keep identify_peer_condemned [OF ident] by auto
  qed
qed

text \<open>
  C11.  A datagram reaches only the peer it comes from.  Whatever bytes arrive from whatever
  address, every peer that has another address is left exactly as it was, the invariant of
  the connection is kept (a consistent table with one peer per address, every buffer of a
  peer that is not to be disconnected in order), and as long as no disconnection is
  pending no check that ends the receive thread fails.
\<close>

theorem datagram_isolation:
  assumes "conn_ok c" and "\<forall>n. ids n \<noteq> PEER_ID_INEXISTENT" and "isValid a"
    and run: "handle_datagram now now_s ids a d t c = (e, t', c')"
  shows "conn_ok c' \<and>
    (\<forall>k p. get_peer k c = Some p \<longrightarrow> \<not> address_eq a (peer_address p) \<longrightarrow> get_peer k c' = Some p) \<and>
    ((\<forall>k. \<not> condemned k c) \<longrightarrow> e = None)"
  using handle_datagram_ok [OF assms] .

theorem datagram_isolation_witness:
  "conn_ok (snd (snd (handle_datagram 0 0 (\<lambda>n. 2) (Address4 1 30000)
     (bp_data (makePacket newAddress (makeReliablePacket (makeOriginalPacket [1, 2]) 65500)
        PROTOCOL_ID 0 0)) newReceiveThread newConnection))) \<and>
   fst (handle_datagram 0 0 (\<lambda>n. 2) (Address4 1 30000)
     (bp_data (makePacket newAddress (makeReliablePacket (makeOriginalPacket [1, 2]) 65500)
        PROTOCOL_ID 0 0)) newReceiveThread newConnection) = None"
proof -
  let ?d = "bp_data (makePacket newAddress (makeReliablePacket (makeOriginalPacket [1, 2]) 65500)
    PROTOCOL_ID 0 0)"
  obtain e t' c' where run: "handle_datagram 0 0 (\<lambda>n. 2) (Address4 1 30000) ?d newReceiveThread
    newConnection = (e, t', c')" by (rule prod_cases3)
  have "\<forall>k. \<not> condemned k newConnection" and "\<forall>n :: nat. (2 :: u16) \<noteq> PEER_ID_INEXISTENT"
    by (simp_all add: newConnection_def get_peer_def condemned_def PEER_ID_INEXISTENT_def)
  moreover have "isValid (Address4 1 30000)"
    by (simp add: isValid_def Address4_def setPort_def setAddress4_def)
  ultimately show ?thesis
    using datagram_isolation [OF conn_ok_new _ _ run] run by simp
qed

end
