(* ===== verification/InOrder.thy ===== *)
theory InOrder
  imports ReceiveInvariant "HOL-Library.Sublist"
begin

text \<open>
  Reliable delivery on one channel: whatever order the network delivers the packets of a
  sender in, and whenever the receive thread looks into its buffer, the packets inside are
  processed one by one in the order they were sent, each once.  The receiver of the code
  is shown to refine an abstract one that is a counter and a set.
\<close>

section \<open>Distances between packets of a stream\<close>

lemma seqnum_dist_ahead:
  assumes "k \<le> j" and "j < k + 65536"
  shows "seqnum_dist (s + of_nat k) (s + of_nat j) = j - k"
proof -
  have "s + of_nat j - (s + of_nat k) = of_nat (j - k)"
    using assms(1) by (simp add: of_nat_diff)
  moreover have "unat (of_nat (j - k) :: u16) = j - k"
    using assms by (intro unat_of_nat16) simp
  ultimately show ?thesis unfolding seqnum_dist_def by (simp only:)
qed

lemma seqnum_dist_behind:
  assumes "j < k" and "k < j + 65536"
  shows "seqnum_dist (s + of_nat k) (s + of_nat j) = 65536 - (k - j)"
proof -
  have "s + of_nat j - (s + of_nat k) = - (of_nat (k - j))"
    using assms(1) by (simp add: of_nat_diff)
  moreover have "- (of_nat (k - j) :: u16) = of_nat (65536 - (k - j))"
    using assms by (simp add: of_nat_diff)
  moreover have "unat (of_nat (65536 - (k - j)) :: u16) = 65536 - (k - j)"
    using assms by (intro unat_of_nat16) simp
  ultimately show ?thesis unfolding seqnum_dist_def by (simp only:)
qed

lemma seqnum_stream_inj:
  assumes "s + of_nat j = s + (of_nat l :: u16)" and "k \<le> j" "j < k + 65536" "k \<le> l" "l < k + 65536"
  shows "j = l"
  using assms seqnum_dist_ahead [of k j s] seqnum_dist_ahead [of k l s] by simp

section \<open>The abstract receiver\<close>

text \<open>How many packets have been processed, and which ones are held back.\<close>

type_synonym abs_receiver = "nat \<times> nat set"

datatype receiver_action = Arrive nat | Unbuffer

fun abs_step :: "receiver_action \<Rightarrow> abs_receiver \<Rightarrow> abs_receiver" where
  "abs_step (Arrive j) (k, B) =
     (if j < k then (k, B) else if j = k then (k + 1, B - {k}) else (k, insert j B))"
| "abs_step Unbuffer (k, B) = (if k \<in> B then (k + 1, B - {k}) else (k, B))"

text \<open>An arrival is at most half the range of the sequence numbers away.\<close>

fun near :: "receiver_action \<Rightarrow> nat \<Rightarrow> bool" where
  "near (Arrive j) k \<longleftrightarrow> j < k + 32768 \<and> k \<le> j + 32768"
| "near Unbuffer k \<longleftrightarrow> True"

fun all_near :: "receiver_action list \<Rightarrow> abs_receiver \<Rightarrow> bool" where
  "all_near [] s \<longleftrightarrow> True"
| "all_near (x # xs) s \<longleftrightarrow> near x (fst s) \<and> all_near xs (abs_step x s)"

definition abs_run :: "receiver_action list \<Rightarrow> abs_receiver \<Rightarrow> abs_receiver" where
  "abs_run xs s = fold abs_step xs s"

section \<open>The receiver of the code\<close>

text \<open>
  The sender numbers its packets from \<open>SEQNUM_INITIAL\<close> on; \<open>inner j\<close> is what packet \<open>j\<close>
  carries, an original packet or a chunk.
\<close>

definition stream_seqnum :: "nat \<Rightarrow> u16" where
  "stream_seqnum j = SEQNUM_INITIAL + of_nat j"

definition inner_ok :: "bytes \<Rightarrow> bool" where
  "inner_ok d \<longleftrightarrow> d \<noteq> [] \<and> (readU8 d = packet_type_code PACKET_TYPE_ORIGINAL \<or>
     readU8 d = packet_type_code PACKET_TYPE_SPLIT)"

definition delivered :: "con_error + bytes \<Rightarrow> bytes list" where
  "delivered res = (case res of Inr data \<Rightarrow> [data] | Inl e \<Rightarrow> [])"

text \<open>One step of the receive thread on the channel, with the data handed to the user.\<close>

fun receiver_step :: "(nat \<Rightarrow> bytes) \<Rightarrow> u64 \<Rightarrow> u16 \<Rightarrow> u8 \<Rightarrow> receiver_action \<Rightarrow>
  connection \<times> bytes list \<Rightarrow> connection \<times> bytes list" where
  "receiver_step inner now i n (Arrive j) (c, outs) =
     (let (res, c') = processPacket now (i, unat n)
        (makeReliablePacket (inner j) (stream_seqnum j)) i n False c in
      (c', outs @ delivered res))"
| "receiver_step inner now i n Unbuffer (c, outs) =
     (case checkIncomingBuffers now (i, unat n) c of
        (None, c') \<Rightarrow> (c', outs)
      | (Some (res, j), c') \<Rightarrow> (c', outs @ delivered res))"

definition receiver_run :: "(nat \<Rightarrow> bytes) \<Rightarrow> u64 \<Rightarrow> u16 \<Rightarrow> u8 \<Rightarrow> receiver_action list \<Rightarrow>
  connection \<times> bytes list \<Rightarrow> connection \<times> bytes list" where
  "receiver_run inner now i n xs s = fold (receiver_step inner now i n) xs s"

section \<open>Processing the packets inside\<close>

text \<open>What one packet inside does to the buffer of split packets, and hands out.\<close>

definition inner_step ::
  "(bytes \<Rightarrow> buffered_packet) \<Rightarrow> bytes \<Rightarrow> bytes list \<times> split_buffer \<Rightarrow> bytes list \<times> split_buffer" where
  "inner_step wrap d s =
     (case s of (outs, b) \<Rightarrow>
        if readU8 d = packet_type_code PACKET_TYPE_ORIGINAL
        then (outs @ (if length d \<le> ORIGINAL_HEADER_SIZE then [] else [drop ORIGINAL_HEADER_SIZE d]), b)
        else case split_insert (wrap d) True b of
            None \<Rightarrow> (outs, b)
          | Some (data, b') \<Rightarrow> (outs @ (if data = [] then [] else [data]), b'))"

fun inner_run :: "(bytes \<Rightarrow> buffered_packet) \<Rightarrow> (nat \<Rightarrow> bytes) \<Rightarrow> split_buffer \<Rightarrow> nat \<Rightarrow>
  bytes list \<times> split_buffer" where
  "inner_run wrap inner b 0 = ([], b)"
| "inner_run wrap inner b (Suc k) = inner_step wrap (inner k) (inner_run wrap inner b k)"

section \<open>The channel of the stream\<close>

text \<open>Peer \<open>i\<close>, with the address \<open>a\<close>, has the channel \<open>ch\<close> under the number \<open>n\<close>.\<close>

definition chan_at :: "address \<Rightarrow> u32 \<Rightarrow> u16 \<Rightarrow> u8 \<Rightarrow> channel \<Rightarrow> connection \<Rightarrow> bool" where
  "chan_at a prot i n ch c \<longleftrightarrow> m_protocol_id c = prot \<and>
     (\<exists>p. get_peer i c = Some p \<and> peer_address p = a \<and> unat n < length (channels p) \<and>
        channels p ! unat n = ch)"

lemma chan_at_get: "chan_at a prot i n ch c \<Longrightarrow> get_channel (i, unat n) c = ch"
  by (auto simp: chan_at_def get_channel_def)

lemma chan_at_peer:
  assumes "chan_at a prot i n ch c"
  obtains p where "get_peer i c = Some p" and "peer_address p = a" and "m_protocol_id c = prot"
    and "channels p ! unat n = ch" and "unat n < length (channels p)"
  using assms by (auto simp: chan_at_def)

lemma chan_at_set [intro]:
  "chan_at a prot i n ch c \<Longrightarrow> chan_at a prot i n ch' (set_channel (i, unat n) ch' c)"
  by (auto simp: chan_at_def update_channel_def)

lemma chan_at_command [simp]:
  "chan_at a prot i n ch (putCommand cmd c) = chan_at a prot i n ch c"
  "chan_at a prot i n ch (sendAck j m s c) = chan_at a prot i n ch c"
  by (simp_all add: chan_at_def)

lemma chan_at_set_peer:
  "chan_at a prot i n ch c \<Longrightarrow> get_peer i c = Some p \<Longrightarrow>
    chan_at a prot i n (f ch) (set_peer i (update_channel (unat n) f p) c)"
  by (auto simp: chan_at_def update_channel_def)

text \<open>The packet inside a reliable one, processed on that channel.\<close>

lemma inner_process:
  assumes at: "chan_at a prot i n ch c" and d: "inner_ok d" and i: "unat i < MAX_UDP_PEERS"
    and run: "processPacket now (i, unat n) d i n True c = (res, c')"
    and step: "inner_step (\<lambda>d. makePacket a d prot i n) d (outs, incoming_splits ch) = (outs', b)"
  shows "chan_at a prot i n (ch\<lparr>incoming_splits := b\<rparr>) c' \<and> outs' = outs @ delivered res"
proof -
  from at obtain p where p: "get_peer i c = Some p" "peer_address p = a" "m_protocol_id c = prot"
    "channels p ! unat n = ch" "unat n < length (channels p)" by (rule chan_at_peer)
  have ne: "\<not> length d < 1" and i': "\<not> unat i \<ge> MAX_UDP_PEERS"
    using d i by (auto simp: inner_ok_def)
  show ?thesis
  proof (cases "readU8 d = packet_type_code PACKET_TYPE_ORIGINAL")
    case True
    then have "(res, c') = handlePacketType_Original d c"
      using run ne i' by (simp add: processPacket.simps p)
    then show ?thesis
      using True at step
      by (auto simp: handlePacketType_Original_def inner_step_def delivered_def split: if_splits)
  next
    case False
    then have split: "readU8 d = packet_type_code PACKET_TYPE_SPLIT"
      using d by (simp add: inner_ok_def)
    then have res: "(res, c') = handlePacketType_Split d i p n True c"
      using run ne i' by (simp add: processPacket.simps p)
    show ?thesis
    proof (cases "split_insert (makePacket a d prot i n) True (incoming_splits ch)")
      case None
      then have "c' = c" "delivered res = []"
        using res by (simp_all add: handlePacketType_Split_def addSplitPacket_def p delivered_def)
      moreover have "inner_step (\<lambda>d. makePacket a d prot i n) d (outs, incoming_splits ch) =
          (outs, incoming_splits ch)"
        using False by (simp add: inner_step_def None)
      then have eq: "b = incoming_splits ch" "outs' = outs" using step by simp_all
      have "ch\<lparr>incoming_splits := b\<rparr> = ch" unfolding eq(1) by simp
      ultimately show ?thesis using at eq(2) by simp
    next
      case (Some db)
      then obtain data b' where db: "split_insert (makePacket a d prot i n) True (incoming_splits ch) =
          Some (data, b')" by (cases db) auto
      then have "c' = set_peer i (update_channel (unat n) (\<lambda>c. c\<lparr>incoming_splits := b'\<rparr>) p) c"
        and "delivered res = (if data = [] then [] else [data])"
        using res
        by (auto simp: handlePacketType_Split_def addSplitPacket_def p delivered_def Let_def
            split: if_splits)
      moreover have "b = b'" "outs' = outs @ (if data = [] then [] else [data])"
        using step False db by (simp_all add: inner_step_def split: if_splits)
      ultimately show ?thesis
        using chan_at_set_peer [OF at p(1), of "\<lambda>c. c\<lparr>incoming_splits := b'\<rparr>"] by simp
    qed
  qed
qed

section \<open>The buffer of the stream\<close>

text \<open>
  The buffer holds the packets \<open>pk j\<close> for the \<open>j\<close> of the set, and expects number \<open>k\<close>.
\<close>

definition buffers :: "(nat \<Rightarrow> buffered_packet) \<Rightarrow> nat \<Rightarrow> nat set \<Rightarrow> reliable_buffer \<Rightarrow> bool" where
  "buffers pk k B b \<longleftrightarrow> rb_ok (stream_seqnum k) b \<and> B \<subseteq> {k..<k + 32768} \<and>
     (\<forall>j. k \<le> j \<longrightarrow> j < k + 32768 \<longrightarrow>
        rb_content b (stream_seqnum j) = (if j \<in> B then Some (pk j) else None))"

lemma stream_succ: "stream_seqnum (k + 1) = stream_seqnum k + 1"
  by (simp add: stream_seqnum_def)

lemma stream_dist:
  "k \<le> j \<Longrightarrow> j < k + 65536 \<Longrightarrow> seqnum_dist (stream_seqnum k) (stream_seqnum j) = j - k"
  "j < k \<Longrightarrow> k < j + 65536 \<Longrightarrow> seqnum_dist (stream_seqnum k) (stream_seqnum j) = 65536 - (k - j)"
  unfolding stream_seqnum_def by (rule seqnum_dist_ahead seqnum_dist_behind; assumption)+

lemma stream_inj:
  "stream_seqnum j = stream_seqnum l \<Longrightarrow> k \<le> j \<Longrightarrow> j < k + 65536 \<Longrightarrow> k \<le> l \<Longrightarrow> l < k + 65536 \<Longrightarrow>
    j = l"
  unfolding stream_seqnum_def by (rule seqnum_stream_inj)

lemma buffers_next:
  assumes "buffers pk k B b" and "rb_ok (stream_seqnum k + 1) b'"
    and "rb_content b' = (rb_content b)(stream_seqnum k := None)"
  shows "buffers pk (k + 1) (B - {k}) b'"
  unfolding buffers_def
proof (intro conjI allI impI)
  show "rb_ok (stream_seqnum (k + 1)) b'" using assms(2) by (simp only: stream_succ)
  show "B - {k} \<subseteq> {k + 1..<k + 1 + 32768}"
    using assms(1) by (fastforce simp: buffers_def)
  fix j assume j: "k + 1 \<le> j" "j < k + 1 + 32768"
  have ne: "stream_seqnum j \<noteq> stream_seqnum k"
    using stream_inj [of j k k] j by auto
  show "rb_content b' (stream_seqnum j) = (if j \<in> B - {k} then Some (pk j) else None)"
  proof (cases "j < k + 32768")
    case True
    then show ?thesis using assms(1,3) j ne by (simp add: buffers_def)
  next
    case False
    then have "seqnum_dist (stream_seqnum k) (stream_seqnum j) = 32768"
      using stream_dist(1) [of k j] j by simp
    then have "rb_content b (stream_seqnum j) = None"
      using assms(1) by (auto simp: buffers_def rb_ok_def rb_content_None)
    moreover have "j \<notin> B" using assms(1) False by (auto simp: buffers_def)
    ultimately show ?thesis using assms(3) by simp
  qed
qed

lemma buffers_insert:
  assumes "buffers pk k B b" and j: "k < j" "j < k + 32768"
    and pk: "reliable_packet (stream_seqnum j) (pk j)" "same_packet (pk j) (pk j)"
  shows "\<exists>b'. rb_insert (pk j) (stream_seqnum k) b = Inr b' \<and> buffers pk k (insert j B) b'"
proof -
  have d: "seqnum_dist (stream_seqnum k) (stream_seqnum j) = j - k"
    using j by (intro stream_dist) auto
  have lt: "0 < j - k" "j - k < 32768" using j by simp_all
  have ok: "rb_ok (stream_seqnum k) b" using assms(1) by (simp add: buffers_def)
  note ins = rb_insert_accept [OF ok pk(1)]
  show ?thesis
  proof (cases "j \<in> B")
    case True
    then have "rb_content b (stream_seqnum j) = Some (pk j)"
      using assms(1) j by (simp add: buffers_def)
    then show ?thesis
      using ins d lt pk(2) assms(1) True by (simp add: insert_absorb)
  next
    case False
    then have "rb_content b (stream_seqnum j) = None"
      using assms(1) j by (simp add: buffers_def)
    then obtain b' where b': "rb_insert (pk j) (stream_seqnum k) b = Inr b'"
      "rb_ok (stream_seqnum k) b'" "rb_content b' = (rb_content b)(stream_seqnum j \<mapsto> pk j)"
      using ins d lt by auto
    have "stream_seqnum l = stream_seqnum j \<longleftrightarrow> l = j" if "k \<le> l" "l < k + 32768" for l
      using stream_inj [of l j k] that j by auto
    then have "buffers pk k (insert j B) b'"
      using assms(1) b' j by (auto simp: buffers_def)
    then show ?thesis using b' by blast
  qed
qed
section \<open>Refinement\<close>

definition stream_packet :: "(nat \<Rightarrow> bytes) \<Rightarrow> address \<Rightarrow> u32 \<Rightarrow> u16 \<Rightarrow> u8 \<Rightarrow> nat \<Rightarrow> buffered_packet" where
  "stream_packet inner a prot i n j =
     makePacket a (makeReliablePacket (inner j) (stream_seqnum j)) prot i n"

text \<open>
  The relation between the receiver of the code and the abstract one: the next expected
  number is the one of the counter, the buffer holds the packets of the set, and what has
  been handed out, with the state of the buffer of split packets, is what the packets below
  the counter give in their order.
\<close>

definition refines :: "(nat \<Rightarrow> bytes) \<Rightarrow> address \<Rightarrow> u32 \<Rightarrow> u16 \<Rightarrow> u8 \<Rightarrow> abs_receiver \<Rightarrow>
  connection \<times> bytes list \<Rightarrow> bool" where
  "refines inner a prot i n s t \<longleftrightarrow>
     (\<exists>ch. chan_at a prot i n ch (fst t) \<and>
        next_incoming_seqnum ch = stream_seqnum (fst s) \<and>
        buffers (stream_packet inner a prot i n) (fst s) (snd s) (incoming_reliables ch) \<and>
        inner_run (\<lambda>d. makePacket a d prot i n) inner Map.empty (fst s) =
          (snd t, incoming_splits ch))"

lemma refines_process:
  assumes at: "chan_at a prot i n ch c" and b: "buffers (stream_packet inner a prot i n) k B (incoming_reliables ch)"
    and nxt: "next_incoming_seqnum ch = stream_seqnum k"
    and inner: "inner_run (\<lambda>d. makePacket a d prot i n) inner Map.empty k = (outs, incoming_splits ch)"
    and ok: "inner_ok (inner k)" "unat i < MAX_UDP_PEERS"
    and b': "rb_ok (stream_seqnum k + 1) b'"
      "rb_content b' = (rb_content (incoming_reliables ch))(stream_seqnum k := None)"
    and run: "processPacket now (i, unat n) (inner k) i n True (set_channel (i, unat n)
      (ch\<lparr>incoming_reliables := b', next_incoming_seqnum := stream_seqnum k + 1\<rparr>) c) = (res, c')"
  shows "refines inner a prot i n (k + 1, B - {k}) (c', outs @ delivered res)"
proof -
  let ?ch = "ch\<lparr>incoming_reliables := b', next_incoming_seqnum := stream_seqnum k + 1\<rparr>"
  let ?wrap = "\<lambda>d. makePacket a d prot i n"
  obtain outs' s where step: "inner_step ?wrap (inner k) (outs, incoming_splits ch) = (outs', s)"
    by (cases "inner_step ?wrap (inner k) (outs, incoming_splits ch)")
  have "chan_at a prot i n ?ch (set_channel (i, unat n) ?ch c)"
    using at by (rule chan_at_set)
  from inner_process [OF this ok run, of outs outs' s] step
  have at': "chan_at a prot i n (?ch\<lparr>incoming_splits := s\<rparr>) c'" and outs: "outs' = outs @ delivered res"
    by simp_all
  have "inner_run ?wrap inner Map.empty (k + 1) = (outs', s)"
    using inner step by simp
  moreover have "buffers (stream_packet inner a prot i n) (k + 1) (B - {k}) b'"
    using b b' by (rule buffers_next)
  moreover have "stream_seqnum k + 1 = stream_seqnum (k + 1)" by (rule stream_succ [symmetric])
  ultimately show ?thesis
    unfolding refines_def using at' outs
    by (intro exI [of _ "?ch\<lparr>incoming_splits := s\<rparr>"]) simp
qed

lemma stream_packet_stored:
  "reliable_packet (stream_seqnum j) (stream_packet inner a prot i n j)"
  "isValid a \<Longrightarrow> same_packet (stream_packet inner a prot i n j) (stream_packet inner a prot i n j)"
proof -
  let ?p = "stream_packet inner a prot i n j"
  have "BASE_HEADER_SIZE + 3 \<le> length (bp_data ?p)"
    by (simp add: stream_packet_def makePacket_size packet_sizes)
  moreover have "readU8 (drop BASE_HEADER_SIZE (bp_data ?p)) = packet_type_code PACKET_TYPE_RELIABLE"
    by (simp add: stream_packet_def)
  moreover have "getSeqnum ?p = stream_seqnum j" by (simp add: stream_packet_def)
  ultimately show "reliable_packet (stream_seqnum j) ?p" by (simp add: reliable_packet_def)
  show "isValid a \<Longrightarrow> same_packet ?p ?p"
    by (simp add: same_packet_def address_eq_refl stream_packet_def)
qed

lemma refines_arrive:
  assumes ref: "refines inner a prot i n (k, B) (c, outs)" and near: "near (Arrive j) k"
    and ok: "inner_ok (inner j)" "unat i < MAX_UDP_PEERS" "isValid a"
  shows "refines inner a prot i n (abs_step (Arrive j) (k, B))
    (receiver_step inner now i n (Arrive j) (c, outs))"
proof -
  let ?r = "(i, unat n)" and ?d = "makeReliablePacket (inner j) (stream_seqnum j)"
  let ?c1 = "sendAck i n (stream_seqnum j) c"
  obtain ch where at: "chan_at a prot i n ch c" and nxt: "next_incoming_seqnum ch = stream_seqnum k"
    and b: "buffers (stream_packet inner a prot i n) k B (incoming_reliables ch)"
    and inner: "inner_run (\<lambda>d. makePacket a d prot i n) inner Map.empty k = (outs, incoming_splits ch)"
    using ref by (auto simp: refines_def)
  obtain p where p: "get_peer i c = Some p" "peer_address p = a" "m_protocol_id c = prot"
    using at by (rule chan_at_peer)
  have rb: "rb_ok (stream_seqnum k) (incoming_reliables ch)" using b by (simp add: buffers_def)
  have keep: "refines inner a prot i n (k, B') (c', outs @ delivered (Inl e))"
    if "chan_at a prot i n (ch\<lparr>incoming_reliables := b'\<rparr>) c'"
      "buffers (stream_packet inner a prot i n) k B' b'" for c' e B' b'
    unfolding refines_def using that nxt inner
    by (intro exI [of _ "ch\<lparr>incoming_reliables := b'\<rparr>"]) (simp add: delivered_def)
  have len: "\<not> length ?d < RELIABLE_HEADER_SIZE" by simp
  have proc: "processPacket now ?r ?d i n False c =
    (case handlePacketType_Reliable ?r ?d i p n False c of
       (Inl e, c') \<Rightarrow> (Inl e, c')
     | (Inr payload, c') \<Rightarrow> processPacket now ?r payload i n True c')"
    using ok(2) by (subst processPacket.simps) (simp add: p Let_def packet_sizes)
  note cases = handlePacketType_Reliable_cases [OF p(1), of "unat n" ?d n False,
      unfolded chan_at_get [OF at] nxt p(2,3), simplified]
  consider (old) "j < k" | (now) "j = k" | (ahead) "k < j" by linarith
  then show ?thesis
  proof cases
    case old
    then have "\<not> seqnum_dist (stream_seqnum k) (stream_seqnum j) < 32768"
      using stream_dist(2) [of j k] near by simp
    then obtain c' where "processPacket now ?r ?d i n False c = (Inl ProcessedSilentlyException, c')"
      and "c' = c \<or> c' = ?c1"
      using cases proc by (auto split: if_splits)
    then show ?thesis
      using old keep [of "incoming_reliables ch" _ B] at b by auto
  next
    case now
    then have "processPacket now ?r ?d i n False c =
      processPacket now ?r (inner k) i n True (set_channel ?r
        (ch\<lparr>incoming_reliables := step_over (stream_seqnum k) (incoming_reliables ch),
            next_incoming_seqnum := stream_seqnum k + 1\<rparr>) ?c1)"
      using cases proc by simp
    moreover obtain res c' where "processPacket now ?r (inner k) i n True (set_channel ?r
        (ch\<lparr>incoming_reliables := step_over (stream_seqnum k) (incoming_reliables ch),
            next_incoming_seqnum := stream_seqnum k + 1\<rparr>) ?c1) = (res, c')"
      by fastforce
    moreover from this have "refines inner a prot i n (k + 1, B - {k}) (c', outs @ delivered res)"
      using refines_process [of a prot i n ch ?c1 inner k B outs] at b nxt inner ok now
        step_over_expected [OF rb] by simp
    ultimately show ?thesis using now by simp
  next
    case ahead
    then have lt: "j < k + 32768" using near by simp
    have d: "seqnum_dist (stream_seqnum k) (stream_seqnum j) = j - k"
      using ahead lt by (intro stream_dist) auto
    obtain b' where ins: "rb_insert (stream_packet inner a prot i n j) (stream_seqnum k)
        (incoming_reliables ch) = Inr b'" and b': "buffers (stream_packet inner a prot i n) k (insert j B) b'"
      using buffers_insert [OF b ahead lt] stream_packet_stored ok(3) by blast
    have "seqnum_dist (stream_seqnum k) (stream_seqnum j) < 32768" "stream_seqnum j \<noteq> stream_seqnum k"
      using d ahead lt by auto
    then have "processPacket now ?r ?d i n False c = (Inl ProcessedQueued,
        set_channel ?r (ch\<lparr>incoming_reliables := b'\<rparr>) ?c1)"
      using cases proc ins by (simp add: stream_packet_def)
    moreover have "chan_at a prot i n (ch\<lparr>incoming_reliables := b'\<rparr>)
        (set_channel ?r (ch\<lparr>incoming_reliables := b'\<rparr>) ?c1)"
      using at by (intro chan_at_set) simp
    ultimately show ?thesis using ahead keep [OF _ b'] by simp
  qed
qed

lemma refines_unbuffer:
  assumes ref: "refines inner a prot i n (k, B) (c, outs)"
    and ok: "\<And>j. j \<in> B \<Longrightarrow> inner_ok (inner j)" "unat i < MAX_UDP_PEERS"
  shows "refines inner a prot i n (abs_step Unbuffer (k, B))
    (receiver_step inner now i n Unbuffer (c, outs))"
proof -
  let ?r = "(i, unat n)"
  obtain ch where at: "chan_at a prot i n ch c" and nxt: "next_incoming_seqnum ch = stream_seqnum k"
    and b: "buffers (stream_packet inner a prot i n) k B (incoming_reliables ch)"
    and inner: "inner_run (\<lambda>d. makePacket a d prot i n) inner Map.empty k = (outs, incoming_splits ch)"
    using ref by (auto simp: refines_def)
  have rb: "rb_ok (stream_seqnum k) (incoming_reliables ch)" using b by (simp add: buffers_def)
  have content: "rb_content (incoming_reliables ch) (stream_seqnum k) =
      (if k \<in> B then Some (stream_packet inner a prot i n k) else None)"
    using b by (simp add: buffers_def)
  show ?thesis
  proof (cases "k \<in> B")
    case False
    then have "getFirstSeqnum (incoming_reliables ch) \<noteq> Some (stream_seqnum k)"
      using content rel.first_expected [OF rb] by simp
    then have "checkIncomingBuffers now ?r c = (None, c)"
      by (simp add: checkIncomingBuffers_def chan_at_get [OF at] nxt Let_def split: option.split)
    then show ?thesis using False ref by simp
  next
    case True
    then have first: "getFirstSeqnum (incoming_reliables ch) = Some (stream_seqnum k)"
      using content rel.first_expected [OF rb] by simp
    obtain b' where pop: "popFirst (incoming_reliables ch) = Inr (stream_packet inner a prot i n k, b')"
      and b': "rb_ok (stream_seqnum k + 1) b'"
        "rb_content b' = (rb_content (incoming_reliables ch))(stream_seqnum k := None)"
      using rel.pop_expected [OF rb] content True by auto
    let ?ch = "ch\<lparr>incoming_reliables := b', next_incoming_seqnum := stream_seqnum k + 1\<rparr>"
    obtain res c' where run: "processPacket now ?r (inner k) i n True (set_channel ?r ?ch c) = (res, c')"
      by fastforce
    then have "checkIncomingBuffers now ?r c = (Some (res, i), c')"
      using first pop by (simp add: checkIncomingBuffers_def chan_at_get [OF at] nxt Let_def
          incNextIncomingSeqNum_def stream_packet_def)
    moreover have "refines inner a prot i n (k + 1, B - {k}) (c', outs @ delivered res)"
      using refines_process [OF at b nxt inner ok(1) [OF True] ok(2) b' run] .
    ultimately show ?thesis using True by simp
  qed
qed

lemma refines_run:
  assumes "refines inner a prot i n s t" and "all_near xs s" and "\<And>j. inner_ok (inner j)"
    and "unat i < MAX_UDP_PEERS" and "isValid a"
  shows "refines inner a prot i n (abs_run xs s) (receiver_run inner now i n xs t)"
  using assms(1,2)
proof (induction xs arbitrary: s t)
  case Nil
  then show ?case by (simp add: abs_run_def receiver_run_def)
next
  case (Cons x xs)
  obtain k B c outs where st: "s = (k, B)" "t = (c, outs)" by (cases s, cases t) auto
  have "refines inner a prot i n (abs_step x s) (receiver_step inner now i n x t)"
    unfolding st
  proof (cases x)
    case (Arrive j)
    then show "refines inner a prot i n (abs_step x (k, B)) (receiver_step inner now i n x (c, outs))"
      using refines_arrive Cons.prems assms(3-) st by (simp del: abs_step.simps receiver_step.simps)
  next
    case Unbuffer
    then show "refines inner a prot i n (abs_step x (k, B)) (receiver_step inner now i n x (c, outs))"
      using refines_unbuffer Cons.prems assms(3-) st by (simp del: abs_step.simps receiver_step.simps)
  qed
  then show ?case
    using Cons by (simp add: abs_run_def receiver_run_def del: abs_step.simps receiver_step.simps)
qed

section \<open>Progress of the abstract receiver\<close>

lemma abs_run_simps [simp]:
  "abs_run [] s = s" "abs_run (x # xs) s = abs_run xs (abs_step x s)"
  "abs_run (xs @ ys) s = abs_run ys (abs_run xs s)"
  by (simp_all add: abs_run_def)

definition received :: "nat \<Rightarrow> abs_receiver \<Rightarrow> bool" where
  "received j s \<longleftrightarrow> j < fst s \<or> j \<in> snd s"

lemma received_step: "received j s \<Longrightarrow> received j (abs_step x s)"
  by (cases s; cases x) (auto simp: received_def)

lemma received_run: "received j s \<Longrightarrow> received j (abs_run xs s)"
  by (induction xs arbitrary: s) (simp_all add: received_step)

lemma received_arrived: "Arrive j \<in> set xs \<Longrightarrow> received j (abs_run xs s)"
proof (induction xs arbitrary: s)
  case (Cons x xs)
  have *: "received j (abs_step (Arrive j) s)" by (cases s) (auto simp: received_def)
  show ?case
  proof (cases "x = Arrive j")
    case True
    then show ?thesis using received_run [OF *, of xs] by simp
  next
    case False
    then show ?thesis using Cons.IH [of "abs_step x s"] Cons.prems by simp
  qed
qed simp

lemma counter_mono: "fst s \<le> fst (abs_run xs s)"
proof (induction xs arbitrary: s)
  case (Cons x xs)
  have "fst s \<le> fst (abs_step x s)" by (cases s; cases x) auto
  then show ?case using Cons [of "abs_step x s"] by simp
qed simp

lemma unbuffer_all:
  "(\<And>j. j < m \<Longrightarrow> received j s) \<Longrightarrow> m \<le> fst s + l \<Longrightarrow> m \<le> fst (abs_run (replicate l Unbuffer) s)"
proof (induction l arbitrary: s)
  case (Suc l)
  obtain k B where s: "s = (k, B)" by (cases s)
  show ?case
  proof (cases "m \<le> k")
    case True
    then show ?thesis using counter_mono [of s "replicate (Suc l) Unbuffer"] by (simp add: s)
  next
    case False
    then have "k \<in> B" using Suc.prems(1) [of k] by (simp add: s received_def)
    moreover have "received j (k + 1, B - {k})" if "j < m" for j
      using Suc.prems(1) [OF that] by (auto simp: s received_def)
    ultimately show ?thesis using Suc.IH [of "(k + 1, B - {k})"] Suc.prems(2) by (simp add: s)
  qed
qed simp

lemma all_near_append: "all_near (xs @ ys) s \<longleftrightarrow> all_near xs s \<and> all_near ys (abs_run xs s)"
  by (induction xs arbitrary: s) auto

lemma all_near_unbuffer: "all_near (replicate l Unbuffer) s"
  by (induction l arbitrary: s) auto
section \<open>Whole messages\<close>

text \<open>
  A sender makes packets of its messages one after the other; \<open>None\<close> if one of them is
  too large.
\<close>

fun sender_stream :: "nat \<Rightarrow> u16 \<Rightarrow> bytes list \<Rightarrow> bytes list option" where
  "sender_stream chunksize_max s [] = Some []"
| "sender_stream chunksize_max s (m # ms) =
     (case makeAutoSplitPacket m chunksize_max s of
        None \<Rightarrow> None
      | Some (chunks, s') \<Rightarrow> map_option ((@) chunks) (sender_stream chunksize_max s' ms))"

lemma inner_run_fold:
  "inner_run wrap inner b k = fold (inner_step wrap) (map inner [0..<k]) ([], b)"
  by (induction k) simp_all

lemma inner_step_prefix: "prefix (fst s) (fst (inner_step wrap d s))"
  by (cases s) (auto simp: inner_step_def split: option.split)

lemma inner_fold_prefix: "prefix (fst s) (fst (fold (inner_step wrap) ds s))"
proof (induction ds arbitrary: s)
  case (Cons d ds)
  then show ?case
    using inner_step_prefix [of s wrap d] Cons [of "inner_step wrap d s"] by (simp add: prefix_order.order_trans)
qed simp

lemma inner_step_split:
  assumes "readU8 d = packet_type_code PACKET_TYPE_SPLIT" and "split_insert (wrap d) True b = Some (data, b')"
  shows "inner_step wrap d (acc, b) = (acc @ (if data = [] then [] else [data]), b')"
  using assms by (simp add: inner_step_def)

lemma inner_fold_chunks:
  assumes "split_insert_all (map wrap ds) True b = Some (out, b')" and "list_all (\<lambda>d. d = []) out"
    and "\<forall>d\<in>set ds. readU8 d = packet_type_code PACKET_TYPE_SPLIT"
  shows "fold (inner_step wrap) ds (outs, b) = (outs, b')"
  using assms
proof (induction ds arbitrary: b out)
  case (Cons d ds)
  then obtain data b1 where d: "split_insert (wrap d) True b = Some (data, b1)"
    by (auto split: option.split_asm)
  then obtain out' where "split_insert_all (map wrap ds) True b1 = Some (out', b')"
    and "out = data # out'"
    using Cons.prems(1) by (auto split: option.split_asm)
  then show ?case using Cons d inner_step_split [where wrap = wrap, OF _ d] by simp
qed simp

lemma split_insert_all_other:
  "split_insert_all ps r b = Some (out, b') \<Longrightarrow> \<forall>p\<in>set ps. split_seqnum_of p \<noteq> k \<Longrightarrow> b' k = b k"
proof (induction ps arbitrary: b out)
  case (Cons p ps)
  then obtain data b1 out' where "split_insert p r b = Some (data, b1)"
    and "split_insert_all ps r b1 = Some (out', b')"
    by (auto split: option.split_asm)
  then show ?case using Cons split_insert_other by fastforce
qed simp

text \<open>A message, from the packets made of it to the data handed out.\<close>

lemma message_delivered:
  assumes made: "makeAutoSplitPacket m chunksize_max s = Some (chunks, s')" and "m \<noteq> []"
    and max: "7 < chunksize_max" "length m + chunksize_max < 4294967296"
    and wrap: "\<And>d. carries (wrap d) d"
  shows "fold (inner_step wrap) chunks (outs, Map.empty) = (outs @ [m], Map.empty)"
    and "\<forall>d\<in>set chunks. inner_ok d"
proof -
  have "fold (inner_step wrap) chunks (outs, Map.empty) = (outs @ [m], Map.empty) \<and>
    (\<forall>d\<in>set chunks. inner_ok d)"
  proof (cases "chunksize_max < length m + 1")
    case False
    then have "chunks = [makeOriginalPacket m]"
      using made max by (auto simp: makeAutoSplitPacket_def Let_def packet_sizes u32_add_small split: if_splits)
    moreover have "readU8 (makeOriginalPacket m) = packet_type_code PACKET_TYPE_ORIGINAL"
      "drop ORIGINAL_HEADER_SIZE (makeOriginalPacket m) = m"
      "length (makeOriginalPacket m) = ORIGINAL_HEADER_SIZE + length m"
      by (simp_all add: makeOriginalPacket_def readU8_def writeU8_def packet_sizes)
    moreover from this have "makeOriginalPacket m \<noteq> []" by (auto simp: packet_sizes)
    ultimately show ?thesis
      using \<open>m \<noteq> []\<close> by (simp add: inner_step_def inner_ok_def)
  next
    case True
    obtain parts where parts: "length parts = length chunks"
      and nth: "\<forall>i < length parts. chunks ! i = split_chunk s (length parts) i (parts ! i)"
      using makeAutoSplitPacket_parts [OF made True max] by auto
    have chunk: "d \<noteq> [] \<and> split_seqnum_of (wrap d) = s \<and> readU8 d = packet_type_code PACKET_TYPE_SPLIT"
      if "d \<in> set chunks" for d
    proof -
      obtain i where i: "i < length parts" "d = chunks ! i"
        using \<open>d \<in> set chunks\<close> parts by (auto simp: in_set_conv_nth)
      then have "d \<noteq> []" using nth by (simp add: split_chunk_def writeU8_def)
      moreover from i have "carries (wrap d) (split_chunk s (length parts) i (parts ! i))"
        using nth wrap [of d] by simp
      ultimately show ?thesis
        using split_chunk_fields(1,2) [of "wrap d"] wrap [of d] by (auto simp: carries_def)
    qed
    have "m \<noteq> []" by fact
    then have "chunks \<noteq> []" using made nth parts True
      using makeAutoSplitPacket_parts [OF made True max] by auto
    then obtain ds q where ds: "chunks = ds @ [q]" by (metis append_butlast_last_id)
    let ?j = "length ds"
    have each: "\<exists>i<length chunks. i \<noteq> ?j \<and> carries p (chunks ! i)" if "p \<in> set (map wrap ds)" for p
    proof -
      note p = that
      obtain d where "d \<in> set ds" "p = wrap d" using p by auto
      then obtain i where "i < length ds" "p = wrap (ds ! i)" by (auto simp: in_set_conv_nth)
      then show ?thesis
        using wrap [of "ds ! i"] by (intro exI [of _ i]) (auto simp: ds nth_append)
    qed
    have every: "\<exists>p\<in>set (map wrap ds). carries p (chunks ! i)" if "i < length chunks" "i \<noteq> ?j" for i
      using that wrap [of "ds ! i"] by (intro bexI [of _ "wrap (ds ! i)"]) (auto simp: ds nth_append)
    have fresh: "split_buffer_ok Map.empty" by (simp add: split_buffer_ok_def)
    have last: "?j < length chunks" "carries (wrap q) (chunks ! ?j)"
      using wrap [of q] by (simp_all add: ds nth_append)
    obtain out b1 b2 where all: "split_insert_all (map wrap ds) True Map.empty = Some (out, b1)"
      and silent: "list_all2 (\<lambda>p out. split_seqnum_of p = s \<longrightarrow> out = []) (map wrap ds) out"
      and q: "split_insert (wrap q) True b1 = Some (m, b2)" "b2 s = None" "\<forall>k. k \<noteq> s \<longrightarrow> b2 k = b1 k"
      using split_reassembly [OF made True max fresh _ _ _ last, of "map wrap ds" True] each every by auto
    have "list_all (\<lambda>d. d = []) out"
      using silent chunk
      by (fastforce simp: list_all2_conv_all_nth list_all_length ds nth_append)
    then have "fold (inner_step wrap) ds (outs, Map.empty) = (outs, b1)"
      using all chunk by (intro inner_fold_chunks) (auto simp: ds)
    moreover have "inner_step wrap q (outs, b1) = (outs @ [m], b2)"
      using inner_step_split [where wrap = wrap, OF _ q(1)] chunk [of q] \<open>m \<noteq> []\<close> by (simp add: ds)
    moreover have "b1 k = None" if "k \<noteq> s" for k
      using split_insert_all_other [OF all, of k] chunk that by (auto simp: ds)
    then have "b2 k = None" for k using q(2,3) by (cases "k = s") auto
    then have "b2 = Map.empty" by (rule ext)
    ultimately show ?thesis using chunk by (auto simp: inner_ok_def ds)
  qed
  then show "fold (inner_step wrap) chunks (outs, Map.empty) = (outs @ [m], Map.empty)"
    and "\<forall>d\<in>set chunks. inner_ok d" by simp_all
qed

definition sendable :: "nat \<Rightarrow> bytes \<Rightarrow> bool" where
  "sendable chunksize_max m \<longleftrightarrow> m \<noteq> [] \<and> length m + chunksize_max < 4294967296"

lemma messages_delivered:
  assumes "sender_stream chunksize_max s ms = Some ds" and "7 < chunksize_max"
    and "\<forall>m\<in>set ms. sendable chunksize_max m" and wrap: "\<And>d. carries (wrap d) d"
  shows "fold (inner_step wrap) ds (outs, Map.empty) = (outs @ ms, Map.empty) \<and>
    (\<forall>d\<in>set ds. inner_ok d)"
  using assms(1-3)
proof (induction ms arbitrary: s ds outs)
  case (Cons m ms)
  then obtain chunks s' rest where made: "makeAutoSplitPacket m chunksize_max s = Some (chunks, s')"
    and rest: "sender_stream chunksize_max s' ms = Some rest" "ds = chunks @ rest"
    by (auto split: option.split_asm)
  have m: "m \<noteq> []" "length m + chunksize_max < 4294967296"
    using Cons.prems(3) by (simp_all add: sendable_def)
  note msg = message_delivered [OF made m(1) Cons.prems(2) m(2) wrap]
  show ?case
    using msg Cons.IH [OF rest(1) Cons.prems(2), of "outs @ [m]"] Cons.prems(3) by (auto simp: rest)
qed simp

section \<open>Properties\<close>

lemma receiver_run_cong:
  "(\<And>j. Arrive j \<in> set xs \<Longrightarrow> f j = g j) \<Longrightarrow>
    receiver_run f now i n xs t = receiver_run g now i n xs t"
proof (induction xs arbitrary: t)
  case (Cons x xs)
  have "receiver_step f now i n x t = receiver_step g now i n x t"
    using Cons.prems by (cases t; cases x) simp_all
  then show ?case using Cons by (simp add: receiver_run_def)
qed (simp add: receiver_run_def)

lemma abs_run_bound:
  "fst s \<le> m \<Longrightarrow> snd s \<subseteq> {..<m} \<Longrightarrow> (\<And>j. Arrive j \<in> set xs \<Longrightarrow> j < m) \<Longrightarrow> fst (abs_run xs s) \<le> m"
proof (induction xs arbitrary: s)
  case (Cons x xs)
  have "fst (abs_step x s) \<le> m \<and> snd (abs_step x s) \<subseteq> {..<m}"
    using Cons.prems by (cases s; cases x) (auto simp: Suc_le_eq)
  then show ?case using Cons by simp
qed simp

text \<open>A channel on which nothing has arrived yet.\<close>

definition fresh_channel :: "u16 \<Rightarrow> u8 \<Rightarrow> connection \<Rightarrow> bool" where
  "fresh_channel i n c \<longleftrightarrow> unat i < MAX_UDP_PEERS \<and>
     (case get_peer i c of
        None \<Rightarrow> False
      | Some p \<Rightarrow> isValid (peer_address p) \<and> unat n < length (channels p) \<and>
          (let ch = channels p ! unat n in
           next_incoming_seqnum ch = SEQNUM_INITIAL \<and>
           incoming_reliables ch = newReliablePacketBuffer \<and> (\<forall>k. incoming_splits ch k = None)))"

lemma refines_fresh:
  assumes "fresh_channel i n c"
  shows "\<exists>a. isValid a \<and> refines inner a (m_protocol_id c) i n (0, {}) (c, [])"
proof -
  obtain p where p: "get_peer i c = Some p" "isValid (peer_address p)" "unat n < length (channels p)"
    and ch: "next_incoming_seqnum (channels p ! unat n) = SEQNUM_INITIAL"
      "incoming_reliables (channels p ! unat n) = newReliablePacketBuffer"
      "incoming_splits (channels p ! unat n) = Map.empty"
    using assms by (auto simp: fresh_channel_def Let_def split: option.split_asm)
  have "buffers pk 0 {} newReliablePacketBuffer" for pk
    by (simp add: buffers_def rb_ok_new)
  then have "refines inner (peer_address p) (m_protocol_id c) i n (0, {}) (c, [])"
    unfolding refines_def using p ch
    by (intro exI [of _ "channels p ! unat n"]) (simp add: chan_at_def stream_seqnum_def)
  then show ?thesis using p(2) by blast
qed

text \<open>What has been handed out is what the packets below the counter make.\<close>

lemma stream_received:
  assumes fresh: "fresh_channel i n c" and sent: "sender_stream chunksize_max s ms = Some ds"
    and max: "7 < chunksize_max" "\<forall>m\<in>set ms. sendable chunksize_max m"
    and near: "all_near xs (0, {})" and arr: "\<And>j. Arrive j \<in> set xs \<Longrightarrow> j < length ds"
  shows "\<exists>wrap. (\<forall>d. carries (wrap d) d) \<and>
    snd (receiver_run ((!) ds) now i n xs (c, [])) =
      fst (fold (inner_step wrap) (take (fst (abs_run xs (0, {}))) ds) ([], Map.empty))"
proof -
  define inner where "inner = (\<lambda>j. if j < length ds then ds ! j else makeOriginalPacket [])"
  obtain a where a: "isValid a" "refines inner a (m_protocol_id c) i n (0, {}) (c, [])"
    using refines_fresh [OF fresh] by blast
  define wrap where "wrap = (\<lambda>d. makePacket a d (m_protocol_id c) i n)"
  have wrap: "carries (wrap d) d" for d by (simp add: wrap_def)
  have "\<forall>d\<in>set ds. inner_ok d" using messages_delivered [OF sent max wrap] by blast
  then have ok: "inner_ok (inner j)" for j
    by (auto simp: inner_def inner_ok_def makeOriginalPacket_def readU8_def writeU8_def)
  define k where "k = fst (abs_run xs (0, {}))"
  have "refines inner a (m_protocol_id c) i n (abs_run xs (0, {})) (receiver_run inner now i n xs (c, []))"
    using refines_run [OF a(2) near ok] fresh a(1) by (simp add: fresh_channel_def)
  then have run: "snd (receiver_run inner now i n xs (c, [])) = fst (inner_run wrap inner Map.empty k)"
    by (auto simp: refines_def wrap_def k_def)
  have "k \<le> length ds"
    unfolding k_def by (rule abs_run_bound) (use arr in auto)
  then have "map inner [0..<k] = take k ds"
    by (intro nth_equalityI) (simp_all add: inner_def)
  then have "fst (inner_run wrap inner Map.empty k) = fst (fold (inner_step wrap) (take k ds) ([], Map.empty))"
    by (simp add: inner_run_fold)
  moreover have "receiver_run ((!) ds) now i n xs (c, []) = receiver_run inner now i n xs (c, [])"
    by (rule receiver_run_cong) (simp add: inner_def arr)
  ultimately show ?thesis using run wrap unfolding k_def by (intro exI [of _ wrap]) simp
qed

text \<open>
  C4.  Delivery in order.  A sender makes packets of its messages, splitting the large
  ones, and numbers them one after the other.  Let the network lose, repeat and reorder
  the packets as it likes, as long as a packet is not half the range of the numbers away
  from the next expected one, and let the receive thread look into its buffer at any
  moments.  What the receiver has handed to the user at any time is a prefix of the
  messages: nothing is skipped, repeated, altered or out of order.
\<close>

theorem delivery_in_order:
  assumes "fresh_channel i n c" and "sender_stream chunksize_max s ms = Some ds"
    and "7 < chunksize_max" and "\<forall>m\<in>set ms. sendable chunksize_max m"
    and "all_near xs (0, {})" and "\<forall>x\<in>set xs. \<forall>j. x = Arrive j \<longrightarrow> j < length ds"
  shows "prefix (snd (receiver_run ((!) ds) now i n xs (c, []))) ms"
proof -
  obtain wrap k where wrap: "\<And>d. carries (wrap d) d"
    and run: "snd (receiver_run ((!) ds) now i n xs (c, [])) =
      fst (fold (inner_step wrap) (take k ds) ([], Map.empty))"
    using stream_received [OF assms(1-5)] assms(6) by blast
  have "fold (inner_step wrap) (take k ds @ drop k ds) ([], Map.empty) = (ms, Map.empty)"
    using messages_delivered [OF assms(2-4) wrap, of "[]"] by simp
  then have "fold (inner_step wrap) (drop k ds) (fold (inner_step wrap) (take k ds) ([], Map.empty)) =
      (ms, Map.empty)"
    by (simp only: fold_append comp_apply)
  then show ?thesis
    using run inner_fold_prefix [of "fold (inner_step wrap) (take k ds) ([], Map.empty)" wrap "drop k ds"]
    by simp
qed

text \<open>
  C5.  Delivery is complete.  Under the same conditions, once every packet has arrived at
  least once, looking into the buffer as often as there are packets is enough for all
  messages to have been handed out.
\<close>

theorem delivery_complete:
  assumes "fresh_channel i n c" and "sender_stream chunksize_max s ms = Some ds"
    and "7 < chunksize_max" and "\<forall>m\<in>set ms. sendable chunksize_max m"
    and "all_near xs (0, {})" and "\<forall>x\<in>set xs. \<forall>j. x = Arrive j \<longrightarrow> j < length ds"
    and "\<forall>j<length ds. Arrive j \<in> set xs"
  shows "snd (receiver_run ((!) ds) now i n (xs @ replicate (length ds) Unbuffer) (c, [])) = ms"
proof -
  let ?xs = "xs @ replicate (length ds) Unbuffer" and ?m = "length ds"
  have near: "all_near ?xs (0, {})" using assms(5) by (simp add: all_near_append all_near_unbuffer)
  have arr: "j < ?m" if "Arrive j \<in> set ?xs" for j using that assms(6) by auto
  obtain wrap where wrap: "\<And>d. carries (wrap d) d"
    and run: "snd (receiver_run ((!) ds) now i n ?xs (c, [])) =
      fst (fold (inner_step wrap) (take (fst (abs_run ?xs (0, {}))) ds) ([], Map.empty))"
    using stream_received [OF assms(1-4) near arr] by blast
  have "?m \<le> fst (abs_run ?xs (0, {}))"
    using unbuffer_all [of ?m "abs_run xs (0, {})" ?m] received_arrived assms(7) by simp
  then show ?thesis
    using run messages_delivered [OF assms(2-4) wrap, of "[]"] by simp
qed

definition example_connection :: connection where
  "example_connection = set_peer 2 (newUDPPeer (Address4 1 30000) 0) newConnection"

lemma example_fresh: "fresh_channel 2 0 example_connection"
  by (simp add: fresh_channel_def example_connection_def newUDPPeer_def newChannel_def isValid_def
      Address4_def setPort_def setAddress4_def frame Let_def MAX_UDP_PEERS_def CHANNEL_COUNT_def)

lemma example_stream:
  "sender_stream 20 7 [[1, 2], [3]] = Some [makeOriginalPacket [1, 2], makeOriginalPacket [3]]"
  by (simp add: makeAutoSplitPacket_def Let_def packet_sizes u32_add_def)

theorem delivery_in_order_witness:
  "prefix (snd (receiver_run ((!) [makeOriginalPacket [1, 2], makeOriginalPacket [3]]) 0 2 0
     [Arrive 1, Unbuffer, Arrive 1, Arrive 0] (example_connection, []))) [[1, 2], [3]]"
  by (rule delivery_in_order [OF example_fresh example_stream]) (simp_all add: sendable_def)

theorem delivery_complete_witness:
  "snd (receiver_run ((!) [makeOriginalPacket [1, 2], makeOriginalPacket [3]]) 0 2 0
     ([Arrive 1, Unbuffer, Arrive 1, Arrive 0] @ [Unbuffer, Unbuffer]) (example_connection, [])) = [[1, 2], [3]]"
proof -
  have "\<forall>j<2. Arrive j \<in> set [Arrive 1, Unbuffer, Arrive 1, Arrive 0]"
    by (auto simp: less_Suc_eq numeral_2_eq_2)
  then show ?thesis
    using delivery_complete [OF example_fresh example_stream, of "[Arrive 1, Unbuffer, Arrive 1, Arrive 0]" 0]
    by (simp add: sendable_def numeral_2_eq_2 del: One_nat_def receiver_step.simps)
qed

end
