(* ===== verification/SendThread.thy ===== *)
theory SendThread
  imports ReceiveInvariant
begin

text \<open>
  \<open>ConnectionSendThread\<close> of \<open>src/network/mtp/threads.cpp\<close>: resending what has timed out,
  turning commands into packets, and sending what is queued within the quota of each peer.
  What is handed to the socket is appended to \<open>m_udp_out\<close>; a failed send is only logged.
  Operations that may throw or abort return \<open>Inl\<close>.  The clock (\<open>now\<close>, in milliseconds)
  stands still within one round; whether the socket can be bound is an argument.
\<close>

section \<open>State\<close>

record outgoing_packet =
  og_peer_id :: u16
  og_channelnum :: u8
  og_data :: bytes
  og_reliable :: bool
  og_ack :: bool

record send_thread =
  m_max_packet_size :: nat
  m_timeout :: real
  m_outgoing_queue :: "outgoing_packet list"
  m_iteration_packets_avaialble :: nat
  m_max_data_packets_per_iteration :: nat
  m_max_packets_requeued :: nat

definition newSendThread :: "nat \<Rightarrow> real \<Rightarrow> u16 \<Rightarrow> send_thread" where
  "newSendThread max_packet_size timeout mppi =
     \<lparr>m_max_packet_size = max_packet_size, m_timeout = timeout, m_outgoing_queue = [],
      m_iteration_packets_avaialble = 0, m_max_data_packets_per_iteration = max (unat mppi) 1,
      m_max_packets_requeued = 256\<rparr>"

definition INIT_PHASE_MIN_TIMEOUT :: real where
  "INIT_PHASE_MIN_TIMEOUT = 5"

type_synonym send_state = "send_thread \<times> connection"

definition connection_sender :: "connection \<Rightarrow> sender" where
  "connection_sender c = \<lparr>snd_protocol_id = m_protocol_id c, snd_peer_id = m_peer_id c\<rparr>"

section \<open>Sending a packet\<close>

definition rawSend :: "buffered_packet \<Rightarrow> connection \<Rightarrow> connection" where
  "rawSend p c = c\<lparr>m_udp_out := m_udp_out c @ [(bp_address p, bp_data p)]\<rparr>"

text \<open>The remainder of \<open>int\<close> has the sign of the dividend; the result becomes a \<open>u16\<close>.\<close>

definition send_window_start :: "u16 \<Rightarrow> u16" where
  "send_window_start next_outgoing =
     (let d = uint next_outgoing - uint MAX_RELIABLE_WINDOW_SIZE in
      word_of_int (sgn d * (\<bar>d\<bar> mod (uint MAX_RELIABLE_WINDOW_SIZE + 1))))"

definition sendAsPacketReliable :: "u64 \<Rightarrow> buffered_packet \<Rightarrow> channel_ref \<Rightarrow> connection \<Rightarrow>
  con_error + connection" where
  "sendAsPacketReliable now p0 r c =
     (let p = p0\<lparr>bp_absolute_send_time := unat now\<rparr>; ch = get_channel r c in
      case rb_insert p (send_window_start (next_outgoing_seqnum ch)) (outgoing_reliables_sent ch) of
        Inl e \<Rightarrow> Inl e
      | Inr b \<Rightarrow> Inr (rawSend p (set_channel r (ch\<lparr>outgoing_reliables_sent := b\<rparr>) c)))"

text \<open>Whether the packet has been sent, and the connection.\<close>

definition rawSendAsPacket :: "u64 \<Rightarrow> u16 \<Rightarrow> u8 \<Rightarrow> bytes \<Rightarrow> bool \<Rightarrow> connection \<Rightarrow>
  con_error + bool \<times> connection" where
  "rawSendAsPacket now peer_id channelnum data reliable c =
     (case get_peer peer_id c of
        None \<Rightarrow> Inr (False, c)
      | Some peer \<Rightarrow>
          if reliable then
            let r = (peer_id, unat channelnum) in
            case getOutgoingSequenceNumber (get_channel r c) of
              (seqnum, False, ch) \<Rightarrow> Inr (False, set_channel r ch c)
            | (seqnum, True, ch) \<Rightarrow>
                let c1 = set_channel r ch c;
                    p = makePacket (peer_address peer) (makeReliablePacket data seqnum)
                      (m_protocol_id c) (m_peer_id c) channelnum in
                if rb_size (outgoing_reliables_sent ch) < unat (m_window_size ch)
                then (case sendAsPacketReliable now p r c1 of
                    Inl e \<Rightarrow> Inl e | Inr c2 \<Rightarrow> Inr (True, c2))
                else Inr (False,
                  set_channel r (ch\<lparr>queued_reliables := queued_reliables ch @ [p]\<rparr>) c1)
          else
            Inr (True, rawSend (makePacket (peer_address peer) data (m_protocol_id c) (m_peer_id c)
              channelnum) c))"

definition resendReliable :: "channel_ref \<Rightarrow> buffered_packet \<Rightarrow> connection \<Rightarrow> connection" where
  "resendReliable r k c =
     rawSend k (set_channel r (UpdateBytesLost (of_nat (length (bp_data k))) (get_channel r c)) c)"

definition sendAsPacket :: "u16 \<Rightarrow> u8 \<Rightarrow> bytes \<Rightarrow> bool \<Rightarrow> send_thread \<Rightarrow> send_thread" where
  "sendAsPacket peer_id channelnum data ack t =
     t\<lparr>m_outgoing_queue := m_outgoing_queue t @
       [\<lparr>og_peer_id = peer_id, og_channelnum = channelnum, og_data = data, og_reliable = False,
         og_ack = ack\<rparr>]\<rparr>"

section \<open>Timeouts\<close>

text \<open>One channel of a peer; the half-open state and the timeouts are those of the peer.\<close>

definition run_channel_timeouts :: "real \<Rightarrow> nat \<Rightarrow> bool \<Rightarrow> real \<Rightarrow> real \<Rightarrow> channel_ref \<Rightarrow>
  send_state \<Rightarrow> send_state" where
  "run_channel_timeouts dtime quota half_open peer_timeout resend_after r s =
     (case s of (t, c) \<Rightarrow>
        let ch = get_channel r c;
            b1 = rb_incrementTimeouts dtime (outgoing_reliables_sent ch);
            (timed_outs, b2) = rb_getResend resend_after quota b1;
            ch1 = UpdatePacketLossCounter (of_nat (length timed_outs))
              (ch\<lparr>incoming_splits := removeUnreliableTimedOuts dtime peer_timeout (incoming_splits ch),
                 outgoing_reliables_sent := b2\<rparr>);
            c1 = set_channel r ch1 c in
        if half_open then (t, c1)
        else
          let t1 = t\<lparr>m_iteration_packets_avaialble :=
                m_iteration_packets_avaialble t - length timed_outs\<rparr>;
              c2 = fold (resendReliable r) timed_outs c1 in
          (t1, set_channel r (UpdateTimers dtime (get_channel r c2)) c2))"

text \<open>One peer; the first component tells that it has timed out.\<close>

definition run_peer_timeouts :: "u64 \<Rightarrow> real \<Rightarrow> nat \<Rightarrow> u16 \<Rightarrow> send_state \<Rightarrow>
  con_error + bool \<times> send_state" where
  "run_peer_timeouts now dtime quota peer_id s =
     (case s of (t, c) \<Rightarrow>
        case get_peer peer_id c of
          None \<Rightarrow> Inr (False, s)
        | Some peer0 \<Rightarrow>
            let peer_timeout = (if m_half_open peer0
                  then max INIT_PHASE_MIN_TIMEOUT (m_timeout t / 4) else m_timeout t) in
            case isTimedOut now peer_timeout peer0 of
              (True, peer) \<Rightarrow> Inr (True, (t, set_peer peer_id peer c))
            | (False, peer) \<Rightarrow>
                let (t1, c1) = fold (\<lambda>ch. run_channel_timeouts dtime quota (m_half_open peer)
                      peer_timeout (resend_timeout peer) (peer_id, ch)) [0..<CHANNEL_COUNT]
                      (t, set_peer peer_id peer c) in
                bind_ok
                  (case get_peer peer_id c1 of
                     None \<Rightarrow> Inr c1
                   | Some peer1 \<Rightarrow>
                       (case Ping dtime peer1 of
                          (None, peer2) \<Rightarrow> Inr (set_peer peer_id peer2 c1)
                        | (Some data, peer2) \<Rightarrow>
                            map_sum id snd (rawSendAsPacket now peer_id 0 data True
                              (set_peer peer_id peer2 c1))))
                  (\<lambda>c2. bind_ok
                    (case get_peer peer_id c2 of
                       None \<Rightarrow> Inr c2
                     | Some peer3 \<Rightarrow>
                         map_sum id (\<lambda>peer4. set_peer peer_id peer4 c2)
                           (RunCommandQueues (connection_sender c2) (m_max_packet_size t1)
                             (m_max_packets_requeued t1) peer3))
                    (\<lambda>c3. Inr (False, (t1, c3)))))"

fun run_all_timeouts :: "u64 \<Rightarrow> real \<Rightarrow> nat \<Rightarrow> u16 list \<Rightarrow> send_state \<Rightarrow>
  con_error + u16 list \<times> send_state" where
  "run_all_timeouts now dtime quota [] s = Inr ([], s)"
| "run_all_timeouts now dtime quota (i # is) s =
     bind_ok (run_peer_timeouts now dtime quota i s) (\<lambda>(timed_out, s1).
       bind_ok (run_all_timeouts now dtime quota is s1) (\<lambda>(rest, s2).
         Inr ((if timed_out then i # rest else rest), s2)))"

definition runTimeouts :: "u64 \<Rightarrow> real \<Rightarrow> nat \<Rightarrow> send_state \<Rightarrow> con_error + send_state" where
  "runTimeouts now dtime quota s =
     bind_ok (run_all_timeouts now dtime quota (m_peer_ids (snd s)) s) (\<lambda>(timeouted, (t, c)).
       Inr (t, fold (\<lambda>i c. snd (deletePeer i True c)) timeouted c))"

section \<open>Commands\<close>

definition sendReliable :: "connection_command \<Rightarrow> send_state \<Rightarrow> con_error + send_state" where
  "sendReliable cmd s =
     (case s of (t, c) \<Rightarrow>
        case get_peer (cc_peer_id cmd) c of
          None \<Rightarrow> Inr s
        | Some peer \<Rightarrow>
            bind_ok (PutReliableSendCommand (connection_sender c) cmd (m_max_packet_size t) peer)
              (\<lambda>peer'. Inr (t, set_peer (cc_peer_id cmd) peer' c)))"

definition sendToAllReliable :: "connection_command \<Rightarrow> send_state \<Rightarrow> con_error + send_state" where
  "sendToAllReliable cmd s =
     fold_ok (\<lambda>i (t, c).
       case get_peer i c of
         None \<Rightarrow> Inr (t, c)
       | Some peer \<Rightarrow>
           bind_ok (PutReliableSendCommand (connection_sender c) cmd (m_max_packet_size t) peer)
             (\<lambda>peer'. Inr (t, set_peer i peer' c))) (m_peer_ids (snd s)) s"

definition resend_one :: "u16 \<Rightarrow> u8 \<Rightarrow> connection \<Rightarrow> connection" where
  "resend_one peer_id channelnum c =
     (if get_peer peer_id c = None then c
      else
        let r = (peer_id, unat channelnum); ch = get_channel r c;
            (l, b) = rb_getResend 0 1 (outgoing_reliables_sent ch);
            c1 = set_channel r (ch\<lparr>outgoing_reliables_sent := b\<rparr>) c in
        case l of
          [] \<Rightarrow> c1
        | packet # _ \<Rightarrow>
            if bp_resend_count packet > 6 then c1
            else resendReliable r packet c1)"

text \<open>A command type that should not be reliable ends the process.\<close>

definition processReliableCommand :: "u64 \<Rightarrow> connection_command \<Rightarrow> send_state \<Rightarrow>
  con_error + send_state" where
  "processReliableCommand now cmd s =
     (case s of (t, c) \<Rightarrow>
        case cc_type cmd of
          CONNCMD_NONE \<Rightarrow> Inr s
        | CONNCMD_SEND \<Rightarrow> sendReliable cmd s
        | CONNCMD_SEND_TO_ALL \<Rightarrow> sendToAllReliable cmd s
        | CONCMD_CREATE_PEER \<Rightarrow>
            bind_ok (rawSendAsPacket now (cc_peer_id cmd) (cc_channelnum cmd) (cc_data cmd)
                (cc_reliable cmd) c)
              (\<lambda>(sent, c'). if sent then Inr (t, c') else sendReliable cmd (t, c'))
        | CONNCMD_RESEND_ONE \<Rightarrow> Inr (t, resend_one (cc_peer_id cmd) (cc_channelnum cmd) c)
        | CONNCMD_SERVE \<Rightarrow> Inl Abort
        | CONNCMD_CONNECT \<Rightarrow> Inl Abort
        | CONNCMD_DISCONNECT \<Rightarrow> Inl Abort
        | CONCMD_ACK \<Rightarrow> Inl Abort
        | CONNCMD_DISCONNECT_PEER \<Rightarrow> Inr s
        | CONNCMD_PEER_ID_SET \<Rightarrow> Inr s)"

definition serve :: "bool \<Rightarrow> connection \<Rightarrow> connection" where
  "serve bind_works c =
     (if bind_works then SetPeerID PEER_ID_SERVER c else putEvent ev_bindFailed c)"

definition connect :: "u64 \<Rightarrow> bool \<Rightarrow> address \<Rightarrow> connection \<Rightarrow> con_error + connection" where
  "connect now bind_works a c =
     bind_ok (createServerPeer now a c) (\<lambda>c1.
       let c2 = putEvent (ev_peerAdded PEER_ID_SERVER a) c1 in
       if \<not> bind_works then Inl SocketException
       else Send PEER_ID_SERVER 0 (newNetworkPacket 0 0) True (SetPeerID PEER_ID_INEXISTENT c2))"

definition disco_data :: bytes where
  "disco_data = writeU8 (packet_type_code PACKET_TYPE_CONTROL) @
     writeU8 (control_type_code CONTROLTYPE_DISCO)"

definition disconnect :: "send_state \<Rightarrow> send_state" where
  "disconnect s =
     (case s of (t, c) \<Rightarrow> (fold (\<lambda>i. sendAsPacket i 0 disco_data False) (m_peer_ids c) t, c))"

definition disconnect_peer :: "u16 \<Rightarrow> send_state \<Rightarrow> send_state" where
  "disconnect_peer peer_id s =
     (case s of (t, c) \<Rightarrow>
        (sendAsPacket peer_id 0 disco_data False t,
         update_peer peer_id (\<lambda>p. p\<lparr>m_pending_disconnect := True\<rparr>) c))"

definition fix_peer_id :: "u16 \<Rightarrow> connection \<Rightarrow> connection" where
  "fix_peer_id own_peer_id c =
     fold (\<lambda>i. update_peer i (\<lambda>p. p\<lparr>channels := map (\<lambda>ch.
       ch\<lparr>outgoing_reliables_sent := rb_fixPeerId own_peer_id (outgoing_reliables_sent ch)\<rparr>)
       (channels p)\<rparr>)) (m_peer_ids c) c"

definition send_data :: "u16 \<Rightarrow> u8 \<Rightarrow> bytes \<Rightarrow> send_state \<Rightarrow> con_error + send_state" where
  "send_data peer_id channelnum data s =
     (case s of (t, c) \<Rightarrow>
        case get_peer peer_id c of
          None \<Rightarrow> Inr s
        | Some peer \<Rightarrow>
            (case makeAutoSplitPacket data (u32_sub (m_max_packet_size t) BASE_HEADER_SIZE)
                (getNextSplitSequenceNumber channelnum peer) of
               None \<Rightarrow> Inl Abort
             | Some (originals, split_seqnum) \<Rightarrow>
                 Inr (fold (\<lambda>original. sendAsPacket peer_id channelnum original False) originals t,
                   set_peer peer_id (setNextSplitSequenceNumber channelnum split_seqnum peer) c)))"

definition sendToAll :: "u8 \<Rightarrow> bytes \<Rightarrow> send_state \<Rightarrow> con_error + send_state" where
  "sendToAll channelnum data s =
     fold_ok (\<lambda>i. send_data i channelnum data) (m_peer_ids (snd s)) s"

definition processNonReliableCommand :: "u64 \<Rightarrow> bool \<Rightarrow> connection_command \<Rightarrow> send_state \<Rightarrow>
  con_error + send_state" where
  "processNonReliableCommand now bind_works cmd s =
     (case s of (t, c) \<Rightarrow>
        case cc_type cmd of
          CONNCMD_NONE \<Rightarrow> Inr s
        | CONNCMD_SERVE \<Rightarrow> Inr (t, serve bind_works c)
        | CONNCMD_CONNECT \<Rightarrow>
            bind_ok (connect now bind_works (cc_address cmd) c) (\<lambda>c'. Inr (t, c'))
        | CONNCMD_DISCONNECT \<Rightarrow> Inr (disconnect s)
        | CONNCMD_DISCONNECT_PEER \<Rightarrow> Inr (disconnect_peer (cc_peer_id cmd) s)
        | CONNCMD_PEER_ID_SET \<Rightarrow> Inr (t, fix_peer_id (cc_peer_id cmd) c)
        | CONNCMD_SEND \<Rightarrow> send_data (cc_peer_id cmd) (cc_channelnum cmd) (cc_data cmd) s
        | CONNCMD_SEND_TO_ALL \<Rightarrow> sendToAll (cc_channelnum cmd) (cc_data cmd) s
        | CONCMD_ACK \<Rightarrow>
            Inr (sendAsPacket (cc_peer_id cmd) (cc_channelnum cmd) (cc_data cmd) True t, c)
        | CONCMD_CREATE_PEER \<Rightarrow> Inl Abort
        | CONNCMD_RESEND_ONE \<Rightarrow> Inl Abort)"

text \<open>
  The commands are taken from the queue until it is empty or a command without a type
  comes up.  Some commands put new ones into the queue.
\<close>

definition process_command :: "u64 \<Rightarrow> bool \<Rightarrow> connection_command \<Rightarrow> send_state \<Rightarrow>
  con_error + send_state" where
  "process_command now bind_works cmd s =
     (if cc_reliable cmd then processReliableCommand now cmd s
      else processNonReliableCommand now bind_works cmd s)"

partial_function (option) process_commands :: "u64 \<Rightarrow> bool \<Rightarrow> send_state \<Rightarrow>
  (con_error + send_state) option" where
  "process_commands now bind_works s =
     (case s of (t, c) \<Rightarrow>
        (case m_command_queue c of
           [] \<Rightarrow> Some (Inr s)
         | cmd # cmds \<Rightarrow>
             if cc_type cmd = CONNCMD_NONE then Some (Inr (t, c\<lparr>m_command_queue := cmds\<rparr>))
             else
               (case process_command now bind_works cmd (t, c\<lparr>m_command_queue := cmds\<rparr>) of
                  Inl e \<Rightarrow> Some (Inl e)
                | Inr s' \<Rightarrow> process_commands now bind_works s')))"

section \<open>Sending what is queued\<close>

definition remaining :: "u16 \<Rightarrow> connection \<Rightarrow> u32" where
  "remaining i c = (case get_peer i c of None \<Rightarrow> 0 | Some p \<Rightarrow> m_increment_packets_remaining p)"

definition count_packet :: "u16 \<Rightarrow> connection \<Rightarrow> connection" where
  "count_packet i = update_peer i
     (\<lambda>p. p\<lparr>m_increment_packets_remaining := m_increment_packets_remaining p - 1\<rparr>)"

text \<open>The loop over the reliable packets queued on a channel.\<close>

fun send_queued :: "u64 \<Rightarrow> channel_ref \<Rightarrow> buffered_packet list \<Rightarrow> connection \<Rightarrow>
  con_error + connection" where
  "send_queued now r [] c = Inr c"
| "send_queued now r (p # ps) c =
     (let ch = get_channel r c in
      if rb_size (outgoing_reliables_sent ch) < unat (m_window_size ch) \<and> remaining (fst r) c > 0
      then bind_ok (sendAsPacketReliable now p r (set_channel r (ch\<lparr>queued_reliables := ps\<rparr>) c))
        (\<lambda>c'. send_queued now r ps (count_packet (fst r) c'))
      else Inr c)"

definition send_channel :: "u64 \<Rightarrow> channel_ref \<Rightarrow> connection \<Rightarrow> con_error + connection" where
  "send_channel now r c = send_queued now r (queued_reliables (get_channel r c)) c"

definition send_peer :: "u64 \<Rightarrow> u32 \<Rightarrow> u16 \<Rightarrow> connection \<Rightarrow> con_error + connection" where
  "send_peer now quota i c =
     (if get_peer i c = None then Inr c
      else fold_ok (\<lambda>k. send_channel now (i, k)) [0..<CHANNEL_COUNT]
        (update_peer i (\<lambda>p. p\<lparr>m_increment_packets_remaining := quota\<rparr>) c))"

text \<open>
  The unreliable packets: each is sent, dropped, or put back.  The result are the packets
  put back and the connection.
\<close>

fun send_unreliable :: "u64 \<Rightarrow> bool \<Rightarrow> outgoing_packet list \<Rightarrow> connection \<Rightarrow>
  con_error + outgoing_packet list \<times> connection" where
  "send_unreliable now stop [] c = Inr ([], c)"
| "send_unreliable now stop (packet # ps) c =
     (let i = og_peer_id packet in
      if og_reliable packet \<or> get_peer i c = None then send_unreliable now stop ps c
      else if og_ack packet \<or> remaining i c > 0 \<or> stop
      then bind_ok (rawSendAsPacket now i (og_channelnum packet) (og_data packet) (og_reliable packet) c)
        (\<lambda>(sent, c1). send_unreliable now stop ps (if remaining i c1 > 0 then count_packet i c1 else c1))
      else bind_ok (send_unreliable now stop ps c) (\<lambda>(back, c1). Inr (packet # back, c1)))"

definition pending_disconnects :: "connection \<Rightarrow> u16 list" where
  "pending_disconnects c = filter (\<lambda>i. case get_peer i c of
     None \<Rightarrow> False | Some p \<Rightarrow> m_pending_disconnect p) (m_peer_ids c)"

definition sendPackets :: "u64 \<Rightarrow> u32 \<Rightarrow> bool \<Rightarrow> send_state \<Rightarrow> con_error + send_state" where
  "sendPackets now quota stop s =
     (case s of (t, c) \<Rightarrow>
        bind_ok (fold_ok (send_peer now quota) (m_peer_ids c) c) (\<lambda>c1.
        bind_ok (send_unreliable now stop (m_outgoing_queue t) c1) (\<lambda>(back, c2).
          Inr (t\<lparr>m_outgoing_queue := back\<rparr>,
            fold (\<lambda>i c. if i \<in> og_peer_id ` set back then c else snd (deletePeer i False c))
              (pending_disconnects c) c2))))"

section \<open>A round of the thread\<close>

definition calculate_quota :: "send_state \<Rightarrow> nat" where
  "calculate_quota s =
     (case s of (t, c) \<Rightarrow>
        let numpeers = getActiveCount c in
        if numpeers > 0 then max 1 (m_iteration_packets_avaialble t div numpeers)
        else m_iteration_packets_avaialble t)"

definition send_round :: "u64 \<Rightarrow> real \<Rightarrow> bool \<Rightarrow> bool \<Rightarrow> send_state \<Rightarrow>
  (con_error + send_state) option" where
  "send_round now dtime bind_works stop s =
     (case s of (t, c) \<Rightarrow>
        let s0 = (t\<lparr>m_iteration_packets_avaialble := m_max_data_packets_per_iteration t\<rparr>, c) in
        case runTimeouts now dtime (calculate_quota s0) s0 of
          Inl e \<Rightarrow> Some (Inl e)
        | Inr s1 \<Rightarrow>
            (case process_commands now bind_works s1 of
               None \<Rightarrow> None
             | Some (Inl e) \<Rightarrow> Some (Inl e)
             | Some (Inr s2) \<Rightarrow> Some (sendPackets now (of_nat (calculate_quota s2)) stop s2)))"

definition packetsQueued :: "send_state \<Rightarrow> bool" where
  "packetsQueued s =
     (case s of (t, c) \<Rightarrow>
        (m_outgoing_queue t \<noteq> [] \<and> m_peer_ids c \<noteq> []) \<or>
        list_ex (\<lambda>i. case get_peer i c of
            None \<Rightarrow> False | Some p \<Rightarrow> list_ex (\<lambda>ch. queued_commands ch \<noteq> []) (channels p))
          (m_peer_ids c))"

end
