(* ===== verification/Drain.thy ===== *)
theory Drain
  imports ReceiveInvariant
begin

text \<open>
  The loops of the receive thread end: every packet taken from a buffer is one packet less
  in the buffers, so \<open>receive\<close> always comes back, with the invariant kept.
\<close>

section \<open>How many packets are buffered\<close>

definition channel_load :: "channel \<Rightarrow> nat" where
  "channel_load ch = length (rb_list (incoming_reliables ch))"

definition peer_load :: "peer \<Rightarrow> nat" where
  "peer_load p = sum_list (map channel_load (channels p))"

definition load :: "connection \<Rightarrow> u16 \<Rightarrow> nat" where
  "load c i = (case get_peer i c of None \<Rightarrow> 0 | Some p \<Rightarrow> peer_load p)"

definition buffered :: "connection \<Rightarrow> nat" where
  "buffered c = (\<Sum>i\<in>UNIV. load c i)"

lemma buffered_mono: "(\<And>i. load c' i \<le> load c i) \<Longrightarrow> buffered c' \<le> buffered c"
  unfolding buffered_def by (rule sum_mono) simp

lemma buffered_less: "(\<And>j. load c' j \<le> load c j) \<Longrightarrow> load c' i < load c i \<Longrightarrow> buffered c' < buffered c"
  unfolding buffered_def by (rule sum_strict_mono_ex1) auto

lemma load_frame [simp]:
  "load (putEvent e c) i = load c i" "load (putCommand cmd c) i = load c i"
  by (simp_all add: load_def)

lemma peer_load_same:
  "incoming_reliables (f (channels p ! k)) = incoming_reliables (channels p ! k) \<Longrightarrow>
    peer_load (update_channel k f p) = peer_load p"
proof -
  assume "incoming_reliables (f (channels p ! k)) = incoming_reliables (channels p ! k)"
  then have "channel_load (f (channels p ! k)) = channel_load (channels p ! k)"
    by (simp add: channel_load_def)
  then have "map channel_load ((channels p)[k := f (channels p ! k)]) = map channel_load (channels p)"
    using list_update_id [of "map channel_load (channels p)" k]
    by (cases "k < length (channels p)") (simp_all add: map_update list_update_beyond)
  then show ?thesis by (simp add: peer_load_def update_channel_def)
qed

lemma peer_load_less:
  assumes "k < length (channels p)" and "channel_load ch < channel_load (channels p ! k)"
  shows "peer_load (update_channel k (\<lambda>_. ch) p) < peer_load p"
proof -
  let ?xs = "map channel_load (channels p)"
  have "?xs ! k \<le> sum_list ?xs" using assms(1) by (intro elem_le_sum_list) simp
  moreover have "peer_load (update_channel k (\<lambda>_. ch) p) = sum_list ?xs + channel_load ch - ?xs ! k"
    using assms(1) by (simp add: peer_load_def update_channel_def map_update sum_list_update)
  ultimately show ?thesis using assms by (simp add: peer_load_def)
qed

lemma load_set_channel:
  "incoming_reliables ch = incoming_reliables (get_channel r c) \<Longrightarrow> load (set_channel r ch c) i = load c i"
  by (cases "get_peer i c") (auto simp: load_def get_channel_def peer_load_same)

lemma load_update_peer:
  "(\<And>p. channels (f p) = channels p) \<Longrightarrow> load (update_peer j f c) i = load c i"
  by (cases "get_peer i c") (auto simp: load_def get_update_peer peer_load_def)

section \<open>What is processed is gone\<close>

lemma handle_ack_load: "load (snd (handle_ack now r d j c)) i = load c i"
  by (simp add: handle_ack_def Let_def load_set_channel load_update_peer report_ack_time_ok
      UpdateBytesSent_def UpdatePacketTooLateCounter_def split: sum.split)

lemma control_load: "load (snd (handlePacketType_Control now r d j c)) i \<le> load c i"
proof -
  have "load (snd (deletePeer j False c)) i \<le> load c i" by (simp add: load_def get_deletePeer)
  moreover have "load (snd (handle_set_peer_id d c)) i = load c i"
    by (simp add: handle_set_peer_id_def SetPeerID_def Let_def load_def putCommand_def get_peer_def)
  ultimately show ?thesis by (simp add: handlePacketType_Control_def Let_def handle_ack_load)
qed

lemma split_load:
  assumes "get_peer j c = Some p"
  shows "load (snd (handlePacketType_Split d j p n rel c)) i = load c i"
  using assms
  by (auto simp: handlePacketType_Split_def Let_def addSplitPacket_def load_def peer_load_same
      split: option.split)

lemma processPacket_load: "load (snd (processPacket now r d j n True c)) i \<le> load c i"
  by (subst processPacket.simps)
    (auto simp: Let_def control_load split_load handlePacketType_Original_def
      handlePacketType_Reliable_def split: option.split)

lemma checkIncomingBuffers_less:
  assumes run: "checkIncomingBuffers now (i, k) c = (Some out, c')" and p: "get_peer i c = Some p"
    and k: "k < length (channels p)"
  shows "buffered c' < buffered c"
proof -
  let ?ch = "get_channel (i, k) c"
  obtain s q b where pop: "popFirst (incoming_reliables ?ch) = Inr (q, b)"
    and first: "getFirstSeqnum (incoming_reliables ?ch) = Some s"
    and c': "c' = snd (processPacket now (i, k) (drop (BASE_HEADER_SIZE + RELIABLE_HEADER_SIZE) (bp_data q))
      (readPeerId (bp_data q)) (readChannel (bp_data q)) True
      (set_channel (i, k) (snd (incNextIncomingSeqNum (?ch\<lparr>incoming_reliables := b\<rparr>))) c))"
    using run by (auto simp: checkIncomingBuffers_def Let_def
        split: option.split_asm if_split_asm sum.split_asm prod.split_asm)
  define ch where "ch = snd (incNextIncomingSeqNum (?ch\<lparr>incoming_reliables := b\<rparr>))"
  have "channel_load ch < channel_load (channels p ! k)"
    using pop p by (auto simp: ch_def incNextIncomingSeqNum_def channel_load_def popFirst_def
        get_channel_def split: list.split_asm)
  then have "peer_load (update_channel k (\<lambda>_. ch) p) < peer_load p" by (rule peer_load_less [OF k])
  then have le: "load (set_channel (i, k) ch c) j \<le> load c j"
    and less: "load (set_channel (i, k) ch c) i < load c i" for j
    using p by (auto simp: load_def)
  show ?thesis
    unfolding c' ch_def [symmetric]
    by (rule buffered_less [OF order_trans [OF processPacket_load le]
          le_less_trans [OF processPacket_load less]])
qed

lemma check_channels_less:
  assumes "conn_ok c" and "\<forall>r\<in>set rs. snd r < CHANNEL_COUNT"
    and "check_channels now rs c = (Some out, c')"
  shows "buffered c' < buffered c"
  using assms(2,3)
proof (induction rs)
  case (Cons r rs)
  obtain i k where r: "r = (i, k)" by (cases r)
  have k: "k < CHANNEL_COUNT" using Cons.prems(1) r by simp
  show ?case
  proof (cases "get_peer i c")
    case None
    then show ?thesis using Cons r by simp
  next
    case (Some p)
    obtain res d where check: "checkIncomingBuffers now (i, k) c = (res, d)" by fastforce
    have len: "k < length (channels p)" using assms(1) Some k by (auto simp: conn_ok_def peer_ok_def)
    show ?thesis
    proof (cases res)
      case None
      then have "d = c" using check by (auto simp: checkIncomingBuffers_def Let_def
            split: option.split_asm if_split_asm sum.split_asm prod.split_asm)
      then show ?thesis using Cons r Some None check by simp
    next
      case (Some out')
      then show ?thesis
        using Cons.prems(2) r \<open>get_peer i c = Some p\<close> check checkIncomingBuffers_less len by simp
    qed
  qed
qed simp

lemma getFromBuffers_less:
  "conn_ok c \<Longrightarrow> getFromBuffers now c = (Some out, c') \<Longrightarrow> buffered c' < buffered c"
  unfolding getFromBuffers_def by (rule check_channels_less) auto

section \<open>The loops end\<close>

lemma buffered_event [simp]: "buffered (putEvent e c) = buffered c"
  by (simp add: buffered_def)

lemma served_event [simp]: "served (putEvent e c) = served c"
  by (simp add: served_def)

lemma drain_returns:
  assumes "conn_ok c"
  shows "\<exists>e c'. drain now c = Some (e, c') \<and> conn_ok c' \<and> buffered c' \<le> buffered c \<and>
    (\<forall>i. get_peer i c = None \<longrightarrow> get_peer i c' = None) \<and>
    (served c \<longrightarrow> served c') \<and>
    (e = None \<and> getFromBuffers now c' = (None, c') \<or> e = Some InvalidIncomingDataException)"
  using assms
proof (induction "buffered c" arbitrary: c rule: less_induct)
  case less
  obtain res d where g: "getFromBuffers now c = (res, d)" by fastforce
  note ok = getFromBuffers_ok [OF less.prems g]
  show ?case
  proof (cases res)
    case None
    then show ?thesis using g ok less.prems by (subst drain.simps) simp
  next
    case (Some rj)
    then obtain r j where rj: "res = Some (r, j)" by (cases rj) auto
    have fewer: "buffered d < buffered c"
      using getFromBuffers_less [OF less.prems] g rj by simp
    have d: "conn_ok d" "handled True r" using ok rj by auto
    have srv: "served c \<longrightarrow> served d" using ok rj only_peer_served by blast
    have none: "get_peer i d = None" if "get_peer i c = None" for i
    proof -
      have "only_peer j c d" "get_peer j c \<noteq> None" using ok rj by auto
      then show ?thesis using that by (cases "i = j") (auto simp: only_peer_def)
    qed
    have step: "\<exists>e c'. drain now x = Some (e, c') \<and> conn_ok c' \<and> buffered c' \<le> buffered c \<and>
        (\<forall>i. get_peer i c = None \<longrightarrow> get_peer i c' = None) \<and>
        (served c \<longrightarrow> served c') \<and>
        (e = None \<and> getFromBuffers now c' = (None, c') \<or> e = Some InvalidIncomingDataException)"
      if "conn_ok x" "buffered x = buffered d" "\<And>i. get_peer i x = get_peer i d" "served d \<longrightarrow> served x" for x
    proof -
      have "\<exists>e c'. drain now x = Some (e, c') \<and> conn_ok c' \<and> buffered c' \<le> buffered x \<and>
        (\<forall>i. get_peer i x = None \<longrightarrow> get_peer i c' = None) \<and>
        (served x \<longrightarrow> served c') \<and>
        (e = None \<and> getFromBuffers now c' = (None, c') \<or> e = Some InvalidIncomingDataException)"
        using less.hyps [of x] that(1,2) fewer by simp
      then obtain e c' where "drain now x = Some (e, c')" "conn_ok c'" "buffered c' \<le> buffered x"
        "\<forall>i. get_peer i x = None \<longrightarrow> get_peer i c' = None" "served x \<longrightarrow> served c'"
        "e = None \<and> getFromBuffers now c' = (None, c') \<or> e = Some InvalidIncomingDataException"
        by blast
      then show ?thesis using that(2-4) fewer none srv by (intro exI [of _ e] exI [of _ c']) auto
    qed
    show ?thesis
    proof (cases r)
      case (Inr data)
      then have "drain now c = drain now (putEvent (ev_dataReceived j data) d)"
        using g rj by (subst drain.simps) simp
      then show ?thesis using step [of "putEvent (ev_dataReceived j data) d"] d served_event by simp
    next
      case (Inl e)
      then consider "e = ProcessedSilentlyException" | "e = InvalidIncomingDataException"
        using d(2) by (auto simp: handled_def)
      then show ?thesis
      proof cases
        case 1
        then have "drain now c = drain now d" using g rj Inl by (subst drain.simps) simp
        then show ?thesis using step [of d] d by simp
      next
        case 2
        then have "drain now c = Some (Some InvalidIncomingDataException, d)"
          using g rj Inl by (subst drain.simps) simp
        then show ?thesis using d fewer none srv by simp
      qed
    qed
  qed
qed

section \<open>Properties\<close>

text \<open>
  C8.  Emptying the buffers ends.  From any state in which the invariant holds, the loop
  that unbuffers packets stops after finitely many rounds, keeps the invariant, and leaves
  either no packet that is due on any channel of any peer, or by the exception for invalid
  data, which \<open>receive\<close> catches.
\<close>

theorem drain_terminates:
  assumes "conn_ok c"
  shows "\<exists>e c'. drain now c = Some (e, c') \<and> conn_ok c' \<and>
    (e = None \<and> getFromBuffers now c' = (None, c') \<or> e = Some InvalidIncomingDataException)"
  using drain_returns [OF assms] by blast

theorem drain_terminates_witness:
  "\<exists>e c'. drain 5 newConnection = Some (e, c') \<and> conn_ok c' \<and>
    (e = None \<and> getFromBuffers 5 c' = (None, c') \<or> e = Some InvalidIncomingDataException)"
  by (rule drain_terminates [OF conn_ok_new])

section \<open>What a datagram can throw\<close>

text \<open>
  The exception that can leave the handlers of a datagram is a failed assertion of the buffer of reliable
  packets, about a packet of a peer that is still there.
\<close>

lemma rb_insert_error: "rb_insert p n b = Inl e \<Longrightarrow> e = Abort \<or> e = IncomingDataCorruption"
  unfolding rb_insert_def Let_def
  by (auto simp del: insert_search.simps split: if_split_asm list.split_asm prod.split_asm)

lemma control_handled: "handled rel (fst (handlePacketType_Control now r d j c))"
  by (simp add: handlePacketType_Control_def handle_ack_def handle_set_peer_id_def Let_def split: sum.split prod.split)

lemma original_handled: "handled rel (fst (handlePacketType_Original d c))"
  by (simp add: handlePacketType_Original_def)

lemma split_throws:
  "handlePacketType_Split d i p ch rel' c = (Inl e, c') \<Longrightarrow> \<not> handled rel (Inl e) \<Longrightarrow> e = Abort \<and> c' = c"
  by (auto simp: handlePacketType_Split_def Let_def split: option.split_asm if_split_asm)

lemma reliable_throws:
  assumes "get_peer i c = Some p" and "handlePacketType_Reliable (i, k) d i p n rel c = (Inl e, c')"
    and "\<not> handled rel (Inl e)"
  shows "e = Abort \<and> get_peer i c' \<noteq> None"
  using assms rb_insert_error unfolding handlePacketType_Reliable_cases [OF assms(1)]
  by (auto simp: handled_def split: if_split_asm sum.split_asm)

lemma processPacket_throws:
  "processPacket now (i, k) d i n rel c = (Inl e, c') \<Longrightarrow> \<not> handled rel (Inl e) \<Longrightarrow>
    e = Abort \<and> get_peer i c' \<noteq> None"
proof (induction now "(i, k)" d i n rel c rule: processPacket.induct)
  case (1 now d i n rel c)
  show ?case
  proof (cases "get_peer i c")
    case None
    then show ?thesis using 1(2,3) by (subst (asm) processPacket.simps) auto
  next
    case (Some p)
    have rec: "e = Abort \<and> get_peer i c' \<noteq> None"
      if "handlePacketType_Reliable (i, k) d i p n rel c = (Inr payload, c1)"
        and "processPacket now (i, k) payload i n True c1 = (Inl e, c')"
        and "d \<noteq> []" "\<not> unat i \<ge> MAX_UDP_PEERS" "readU8 d = packet_type_code PACKET_TYPE_RELIABLE" for payload c1
    proof (rule 1(1) [OF Some _ refl _ _ _ _ _ that(1) [symmetric] refl that(2)])
      show "\<not> handled True (Inl e)" using 1(3) by (auto simp: handled_def)
    qed (use that in auto)
    show ?thesis
      using 1(2,3) Some rec control_handled [of rel now "(i, k)" d i c] original_handled [of rel d c]
        split_throws [of d i p n rel c e c' rel] reliable_throws [OF Some, of k d n rel e c']
      by (subst (asm) processPacket.simps)
        (auto simp: Let_def split: if_split_asm prod.split_asm sum.split_asm)
  qed
qed

lemma deliver_throws:
  assumes ok: "conn_ok c" and n: "unat n < CHANNEL_COUNT" and run: "deliver now a d i knew n t c = (Some e, t', c')"
  shows "e = Abort \<and> condemned i c'"
proof -
  have "e = Abort \<and> get_peer i c' \<noteq> None"
    using run processPacket_throws [of now i "unat n" _ n False _ e c']
    by (auto simp: deliver_def handled_def Let_def split: option.split_asm if_split_asm prod.split_asm sum.split_asm)
  moreover have "condemned i c'"
    using deliver_ok [OF ok n run] calculation condemned_mono by blast
  ultimately show ?thesis by simp
qed

lemma handle_datagram_throws:
  assumes "conn_ok c" and "isValid a" and ids: "\<forall>n. ids n \<noteq> PEER_ID_INEXISTENT"
    and run: "handle_datagram now now_s ids a d t c = (Some e, t', c')"
  shows "e = Abort \<and> (\<exists>i. condemned i c')"
proof -
  obtain j t1 c1 where ident: "identify_peer now now_s ids a (readPeerId d) t c = (j, t1, c1)"
    by (rule prod_cases3)
  then have "unat (readChannel d) < CHANNEL_COUNT"
    "deliver now a d j (readPeerId d \<noteq> PEER_ID_INEXISTENT) (readChannel d) t1 c1 = (Some e, t', c')"
    using run by (auto simp: handle_datagram_def Let_def split: if_split_asm)
  moreover have "conn_ok c1" using identify_peer_ok [OF assms(1,2) ids ident] by simp
  ultimately show ?thesis using deliver_throws by blast
qed

section \<open>The loop of the thread\<close>

text \<open>
  What one round sees of the world: the clock in milliseconds and in seconds, the random
  peer ids, and the datagram, if one arrives in time.
\<close>

record input =
  in_now :: u64
  in_now_s :: u64
  in_ids :: "nat \<Rightarrow> u16"
  in_datagram :: "(address \<times> bytes) option"

text \<open>The loop of \<open>run\<close>; the first component is an exception that ends it.\<close>

fun receive_loop :: "input list \<Rightarrow> receive_thread \<Rightarrow> connection \<Rightarrow>
  (con_error option \<times> receive_thread \<times> connection) option" where
  "receive_loop [] t c = Some (None, t, c)"
| "receive_loop (x # xs) t c =
     (case receive (in_now x) (in_now_s x) (in_ids x) (in_datagram x) t c of
        None \<Rightarrow> None
      | Some (Some e, t', c') \<Rightarrow> Some (Some e, t', c')
      | Some (None, t', c') \<Rightarrow> receive_loop xs t' c')"

definition input_ok :: "input \<Rightarrow> bool" where
  "input_ok x \<longleftrightarrow> (\<forall>n. in_ids x n \<noteq> PEER_ID_INEXISTENT) \<and>
     (case in_datagram x of None \<Rightarrow> True | Some (a, d) \<Rightarrow> isValid a)"

definition peer_count :: "connection \<Rightarrow> nat" where
  "peer_count c = card {i. get_peer i c \<noteq> None}"

lemma peer_count_mono:
  assumes "\<And>i. get_peer i c = None \<Longrightarrow> get_peer i c' = None"
  shows "peer_count c' \<le> peer_count c"
proof -
  have "{i. get_peer i c' \<noteq> None} \<subseteq> {i. get_peer i c \<noteq> None}"
    by (rule Collect_mono) (rule impI, erule contrapos_nn, erule assms)
  then show ?thesis unfolding peer_count_def by (rule card_mono [OF finite])
qed

text \<open>How many peers may still be made in the second.\<close>

definition budget :: "u64 \<Rightarrow> receive_thread \<Rightarrow> nat" where
  "budget now_s t =
     (if rl_time t = now_s then nat (MAX_NEW_PEERS_PER_SEC - rl_counter t)
      else nat MAX_NEW_PEERS_PER_SEC)"

lemma createPeer_get:
  "get_peer i (snd (createPeer now ids a c)) \<noteq> None \<Longrightarrow> get_peer i c = None \<Longrightarrow>
    i = try_peer_ids ids 100 0 c"
  unfolding createPeer_def Let_def by (auto simp del: try_peer_ids.simps split: if_split_asm)

lemma createPeer_count: "peer_count (snd (createPeer now ids a c)) \<le> peer_count c + 1"
proof -
  have "{i. get_peer i (snd (createPeer now ids a c)) \<noteq> None} \<subseteq>
      insert (try_peer_ids ids 100 0 c) {i. get_peer i c \<noteq> None}"
    using createPeer_get by blast
  then have "peer_count (snd (createPeer now ids a c)) \<le>
      card (insert (try_peer_ids ids 100 0 c) {i. get_peer i c \<noteq> None})"
    unfolding peer_count_def by (rule card_mono [rotated]) simp
  also have "\<dots> \<le> peer_count c + 1"
    unfolding peer_count_def by (simp add: card_insert_if)
  finally show ?thesis .
qed

lemma identify_peer_count:
  assumes "identify_peer now now_s ids a i t c = (j, t', c')"
  shows "peer_count c' + budget now_s t' \<le> peer_count c + budget now_s t"
proof -
  have com: "peer_count (putCommand cmd c) = peer_count c" for cmd by (simp add: peer_count_def)
  show "peer_count c' + budget now_s t' \<le> peer_count c + budget now_s t"
  proof (cases "ConnectedToServer c \<or> i \<noteq> PEER_ID_INEXISTENT \<or> lookupPeer a c \<noteq> PEER_ID_INEXISTENT")
    case True
    then have "t' = t \<and> (c' = c \<or> (\<exists>cmd. c' = putCommand cmd c))"
      using assms(1) by (auto simp: identify_peer_def Let_def doResendOne_def split: if_split_asm)
    then show ?thesis using com by auto
  next
    case False
    let ?n = "rl_counter (tick now_s t) + 1"
    have t': "t' = (tick now_s t)\<lparr>rl_counter := ?n\<rparr> \<or> t' = (tick now_s t)\<lparr>rl_counter := ?n, rl_logged := True\<rparr>"
      and c': "c' = (if ?n > MAX_NEW_PEERS_PER_SEC then c else snd (createPeer now ids a c))"
      using assms(1) False by (auto simp: identify_peer_def Let_def split: if_split_asm prod.split_asm)
    have "budget now_s t' = nat (MAX_NEW_PEERS_PER_SEC - ?n)"
      using t' by (auto simp: budget_def tick_def)
    moreover have "budget now_s t = nat (MAX_NEW_PEERS_PER_SEC - rl_counter (tick now_s t))"
      by (simp add: budget_def tick_def)
    ultimately show ?thesis using c' createPeer_count [of now ids a c] by (auto split: if_split_asm)
  qed
qed

lemma deliver_thread:
  "fst (snd (deliver now a d i knew n t c)) = t \<or>
   fst (snd (deliver now a d i knew n t c)) = t\<lparr>packet_queued := True\<rparr>"
proof (cases "get_peer i c")
  case (Some p)
  have sel: "fst (snd (case r of
        (Inr data, c3) \<Rightarrow> (None, t\<lparr>packet_queued := True\<rparr>, putEvent (ev_dataReceived i data) c3)
      | (Inl e, c3) \<Rightarrow>
          if e = ProcessedSilentlyException \<or> e = ProcessedQueued
          then (None, t\<lparr>packet_queued := True\<rparr>, c3)
          else if e = InvalidIncomingDataException then (None, t, c3) else (Some e, t, c3))) \<in>
      {t, t\<lparr>packet_queued := True\<rparr>}" for r :: handler_result
    by (cases r; cases "fst r") auto
  show ?thesis
    using sel unfolding deliver_def Some option.case Let_def by (auto split: if_split)
qed (simp add: deliver_def)

lemma only_peer_none: "only_peer i c c' \<Longrightarrow> get_peer j c = None \<Longrightarrow> get_peer j c' = None"
  by (cases "i = j") (auto simp: only_peer_def)

lemma handle_datagram_count:
  assumes "conn_ok c" and "isValid a"
    and ids: "\<forall>n. ids n \<noteq> PEER_ID_INEXISTENT"
    and run: "handle_datagram now now_s ids a d t c = (e, t', c')"
  shows "peer_count c' + budget now_s t' \<le> peer_count c + budget now_s t"
proof -
  have info: "get_peer i (replyToInfoQuery a c) = get_peer i c" for i
    by (auto simp: replyToInfoQuery_def Let_def get_peer_def)
  obtain j t1 c1 where ident: "identify_peer now now_s ids a (readPeerId d) t c = (j, t1, c1)"
    by (rule prod_cases3)
  note count = identify_peer_count [OF ident]
  show ?thesis
  proof (cases "(e, t', c') = (None, t, c) \<or> (e, t', c') = (None, t, replyToInfoQuery a c)")
    case True
    then show ?thesis using info by (auto simp: peer_count_def)
  next
    case False
    then have n: "unat (readChannel d) < CHANNEL_COUNT"
      and del: "deliver now a d j (readPeerId d \<noteq> PEER_ID_INEXISTENT) (readChannel d) t1 c1 = (e, t', c')"
      using run ident by (auto simp: handle_datagram_def Let_def split: if_split_asm)
    have c1: "conn_ok c1" using identify_peer_ok [OF assms(1,2) ids ident] by simp
    have "c' = c1 \<or> only_peer j c1 c'" using deliver_ok [OF c1 n del] by blast
    then have none: "get_peer i c' = None" if "get_peer i c1 = None" for i
      using only_peer_none [of j c1 c'] that by blast
    then have "peer_count c' \<le> peer_count c1" by (rule peer_count_mono)
    moreover have "t' = t1 \<or> t' = t1\<lparr>packet_queued := True\<rparr>"
      using deliver_thread [of now a d j "readPeerId d \<noteq> PEER_ID_INEXISTENT" "readChannel d" t1 c1] del by simp
    then have "budget now_s t' = budget now_s t1" by (elim disjE) (simp_all add: budget_def)
    ultimately have "peer_count c' + budget now_s t' \<le> peer_count c1 + budget now_s t1" by (simp only: add_right_mono)
    then show ?thesis using order_trans [OF _ count] by blast
  qed
qed

lemma receive_step:
  assumes run: "conn_ok c" and x: "input_ok x"
  shows "\<exists>e t' c'. receive (in_now x) (in_now_s x) (in_ids x) (in_datagram x) t c = Some (e, t', c') \<and>
    conn_ok c' \<and> peer_count c' + budget (in_now_s x) t' \<le> peer_count c + budget (in_now_s x) t \<and>
    (served c \<longrightarrow> served c') \<and> (e = None \<or> e = Some Abort \<and> (\<exists>i. condemned i c'))"
proof -
  obtain e1 c1 where d: "(if packet_queued t then drain (in_now x) c else Some (None, c)) = Some (e1, c1)"
    and c1: "conn_ok c1" "\<forall>i. get_peer i c = None \<longrightarrow> get_peer i c1 = None"
      "served c \<longrightarrow> served c1" "e1 = None \<or> e1 = Some InvalidIncomingDataException"
    using drain_returns [of c "in_now x"] run by (cases "packet_queued t") auto
  have count: "peer_count c1 \<le> peer_count c" using c1(2) by (intro peer_count_mono) simp
  have b: "budget s (t\<lparr>packet_queued := q\<rparr>) = budget s t" for s q by (simp add: budget_def)
  show ?thesis
  proof (cases e1)
    case (Some e)
    then show ?thesis using d c1(1,3,4) count by (simp add: receive_def)
  next
    case None
    show ?thesis
    proof (cases "in_datagram x")
      case None
      then show ?thesis using d \<open>e1 = None\<close> c1(1,3) count b by (simp add: receive_def Let_def)
    next
      case (Some ad)
      obtain a dg where ad: "ad = (a, dg)" by (cases ad)
      obtain e2 t2 c2 where h: "handle_datagram (in_now x) (in_now_s x) (in_ids x) a dg
          (t\<lparr>packet_queued := False\<rparr>) c1 = (e2, t2, c2)" by (rule prod_cases3)
      have valid: "isValid a" "\<forall>n. in_ids x n \<noteq> PEER_ID_INEXISTENT"
        using x Some ad by (simp_all add: input_ok_def)
      have "conn_ok c2" and "peer_count c2 + budget (in_now_s x) t2 \<le> peer_count c1 + budget (in_now_s x) t"
        using handle_datagram_count [OF c1(1) valid h] handle_datagram_ok [OF c1(1) valid(2,1) h] b
        by simp_all
      moreover have "e2 = None \<or> e2 = Some Abort \<and> (\<exists>i. condemned i c2)"
        using handle_datagram_throws [OF c1(1) valid, of "in_now x" "in_now_s x" dg _ _ t2 c2] h by (cases e2) auto
      moreover have "served c \<longrightarrow> served c2"
        using handle_datagram_served [OF c1(1) valid(2,1) _ h] c1(3) by blast
      moreover have "receive (in_now x) (in_now_s x) (in_ids x) (in_datagram x) t c = Some (e2, t2, c2)"
        using d \<open>e1 = None\<close> Some ad h by (simp add: receive_def Let_def)
      ultimately show ?thesis using count by auto
    qed
  qed
qed

lemma receive_loop_ok:
  assumes "conn_ok c" and "\<forall>x\<in>set xs. input_ok x \<and> in_now_s x = s"
  shows "\<exists>e t' c'. receive_loop xs t c = Some (e, t', c') \<and> conn_ok c' \<and>
    peer_count c' + budget s t' \<le> peer_count c + budget s t"
  using assms
proof (induction xs arbitrary: t c)
  case (Cons x xs)
  obtain e t1 c1 where r: "receive (in_now x) (in_now_s x) (in_ids x) (in_datagram x) t c = Some (e, t1, c1)"
    and c1: "conn_ok c1" "peer_count c1 + budget s t1 \<le> peer_count c + budget s t"
    using receive_step [OF Cons.prems(1), of x t] Cons.prems(2) by auto
  obtain e' t' c' where "receive_loop xs t1 c1 = Some (e', t', c')" "conn_ok c'"
    "peer_count c' + budget s t' \<le> peer_count c1 + budget s t1"
    using Cons.IH [OF c1(1), of t1] Cons.prems(2) by auto
  then show ?case using r c1 by (cases e) auto
qed simp

lemma receive_loop_returns:
  assumes "conn_ok c" and "\<forall>x\<in>set xs. input_ok x"
  shows "\<exists>e t' c'. receive_loop xs t c = Some (e, t', c') \<and> conn_ok c' \<and>
    (e = None \<or> e = Some Abort \<and> (\<exists>i. condemned i c'))"
  using assms
proof (induction xs arbitrary: t c)
  case (Cons x xs)
  obtain e t1 c1 where r: "receive (in_now x) (in_now_s x) (in_ids x) (in_datagram x) t c = Some (e, t1, c1)"
    and c1: "conn_ok c1" "e = None \<or> e = Some Abort \<and> (\<exists>i. condemned i c1)"
    using receive_step [OF Cons.prems(1), of x t] Cons.prems(2) by auto
  show ?case using r c1 Cons.IH [OF c1(1), of t1] Cons.prems(2) by (cases e) auto
qed simp

text \<open>
  C7.  The receive thread never hangs and never breaks its state.  Started with any consistent
  connection, and whatever datagrams arrive from whatever addresses, at whatever times, all rounds
  return and the invariant of the connection holds; no round leaves by an exception, unless an
  assertion fails, and then about a packet of a peer whose disconnection has been ordered and is not
  carried out yet (as it is when two packets of a peer contradict each other under one number).
\<close>

theorem receive_always_returns:
  assumes "conn_ok c" and "\<forall>x\<in>set xs. input_ok x"
  shows "\<exists>e t' c'. receive_loop xs t c = Some (e, t', c') \<and> conn_ok c' \<and>
    (e = None \<or> e = Some Abort \<and> (\<exists>i. condemned i c'))"
  using receive_loop_returns [OF assms] .

definition example_input :: input where
  "example_input = \<lparr>in_now = 1000, in_now_s = 1, in_ids = (\<lambda>n. 2),
     in_datagram = Some (Address4 1 30000, bp_data (makePacket newAddress
       (makeReliablePacket (makeOriginalPacket [1, 2]) 65500) PROTOCOL_ID 0 0))\<rparr>"

lemma example_input_ok: "input_ok example_input"
  by (simp add: input_ok_def example_input_def isValid_def Address4_def setPort_def setAddress4_def
      PEER_ID_INEXISTENT_def)

theorem receive_always_returns_witness:
  "\<exists>e t' c'. receive_loop [example_input, example_input] newReceiveThread newConnection =
     Some (e, t', c') \<and> conn_ok c' \<and> (e = None \<or> e = Some Abort \<and> (\<exists>i. condemned i c'))"
  by (rule receive_always_returns [OF conn_ok_new]) (simp add: example_input_ok)

text \<open>
  C9.  Datagrams cannot fill the peer table.  However many datagrams arrive within one
  second of the clock, from however many addresses, the number of peers grows by at most
  thirty, since the limiter of new peers counts them.
\<close>

theorem new_peers_limited:
  assumes "conn_ok c" and "\<forall>x\<in>set xs. input_ok x \<and> in_now_s x = s" and "0 \<le> rl_counter t"
    and "receive_loop xs t c = Some (e, t', c')"
  shows "peer_count c' \<le> peer_count c + 30"
  using receive_loop_ok [OF assms(1,2), of t] assms(3,4)
  by (auto simp: budget_def MAX_NEW_PEERS_PER_SEC_def split: if_split_asm)

theorem new_peers_limited_witness:
  "peer_count (snd (snd (the (receive_loop (replicate 100 example_input) newReceiveThread newConnection)))) \<le>
     peer_count newConnection + 30"
proof -
  have ok: "\<forall>x\<in>set (replicate 100 example_input). input_ok x \<and> in_now_s x = 1"
    using example_input_ok by (simp add: example_input_def)
  obtain e t' c' where "receive_loop (replicate 100 example_input) newReceiveThread newConnection =
      Some (e, t', c')"
    using receive_loop_returns [OF conn_ok_new, of "replicate 100 example_input" newReceiveThread] ok by auto
  then show ?thesis
    using new_peers_limited [OF conn_ok_new ok, of newReceiveThread] by (simp add: newReceiveThread_def)
qed

end
