(* ===== verification/SendInvariant.thy ===== *)
theory SendInvariant
  imports SendThread Drain
begin

text \<open>
  The send thread keeps the invariant of the connection that the receive thread relies on,
  and its loop over the commands ends.  Both threads together, and the calls of the user,
  are then a transition system in which the invariant holds in every reachable state.
\<close>

section \<open>What the send side leaves to the receive side\<close>

definition recv_same :: "channel \<Rightarrow> channel \<Rightarrow> bool" where
  "recv_same ch ch' \<longleftrightarrow> incoming_reliables ch' = incoming_reliables ch \<and>
     next_incoming_seqnum ch' = next_incoming_seqnum ch \<and>
     (split_buffer_ok (incoming_splits ch) \<longrightarrow> split_buffer_ok (incoming_splits ch'))"

lemma recv_same_refl [simp, intro]: "recv_same ch ch"
  by (simp add: recv_same_def)

lemma recv_same_trans: "recv_same a b \<Longrightarrow> recv_same b c \<Longrightarrow> recv_same a c"
  by (simp add: recv_same_def)

lemma recv_same_chan_ok: "recv_same ch ch' \<Longrightarrow> chan_ok b i k ch \<Longrightarrow> chan_ok b i k ch'"
  by (simp add: recv_same_def chan_ok_def)

lemma setWindowSize_recv [simp]: "recv_same ch (setWindowSize w ch')= recv_same ch ch'"
  by (simp add: recv_same_def frame)

lemma recv_same_update [simp]:
  "recv_same ch (ch'\<lparr>outgoing_reliables_sent := b\<rparr>) = recv_same ch ch'"
  "recv_same ch (ch'\<lparr>queued_reliables := q\<rparr>) = recv_same ch ch'"
  "recv_same ch (ch'\<lparr>queued_commands := cs\<rparr>) = recv_same ch ch'"
  "recv_same ch (ch'\<lparr>next_outgoing_seqnum := n\<rparr>) = recv_same ch ch'"
  "recv_same ch (ch'\<lparr>next_outgoing_split_seqnum := n\<rparr>) = recv_same ch ch'"
  "recv_same ch (UpdateBytesLost l ch') = recv_same ch ch'"
  "recv_same ch (UpdatePacketLossCounter l ch') = recv_same ch ch'"
  by (simp_all add: recv_same_def UpdateBytesLost_def UpdatePacketLossCounter_def)

lemma UpdateTimers_recv: "recv_same ch (UpdateTimers dtime ch)"
proof -
  have w: "recv_same ch (update_window ch)" for ch
    by (auto simp: update_window_def Let_def recv_same_def frame)
  have r: "recv_same ch (update_rates ch)" for ch
    by (simp add: update_rates_def Let_def recv_same_def)
  show ?thesis
    unfolding UpdateTimers_def Let_def
    by (auto intro!: recv_same_trans [OF _ r] recv_same_trans [OF _ w]) (simp_all add: recv_same_def)
qed

lemma getOutgoing_recv: "getOutgoingSequenceNumber ch = (s, g, ch') \<Longrightarrow> recv_same ch ch'"
  by (auto simp: getOutgoingSequenceNumber_def Let_def recv_same_def
      split: if_split_asm option.split_asm)

lemma take_numbers_recv:
  "take_numbers mk os toadd initial granted ch = (g, i, l, ch') \<Longrightarrow> recv_same ch ch'"
proof (induction mk os toadd initial granted ch rule: take_numbers.induct)
  case (2 mk o1 os toadd initial granted ch)
  obtain s g ch1 where get: "getOutgoingSequenceNumber ch = (s, g, ch1)" by (rule prod_cases3)
  have "recv_same ch ch1" using get by (rule getOutgoing_recv)
  then show ?case
    using 2 get by (cases g) (auto intro: recv_same_trans)
qed simp

lemma put_back_recv: "put_back_numbers initial n ch = Some ch' \<Longrightarrow> recv_same ch ch'"
proof (induction initial n ch rule: put_back_numbers.induct)
  case (2 initial n ch)
  then show ?case
    by (auto simp: putBackSequenceNumber_def recv_same_def split: if_split_asm)
qed simp

lemma processReliable_recv:
  assumes "processReliableSendCommand s a pending c m ch = Inr (d, ch')"
  shows "recv_same ch ch'"
proof (cases pending)
  case False
  obtain originals ss where mk: "(if cc_raw c then Some ([cc_data c], next_outgoing_split_seqnum ch)
      else makeAutoSplitPacket (cc_data c) (u32_sub (u32_sub m BASE_HEADER_SIZE) RELIABLE_HEADER_SIZE)
        (next_outgoing_split_seqnum ch)) = Some (originals, ss)"
    using assms False by (fastforce simp: processReliableSendCommand_def Let_def split: option.split_asm)
  define ch1 where "ch1 = (if cc_raw c then ch else setNextSplitSeqNum ss ch)"
  have ch1: "recv_same ch ch1" by (simp add: ch1_def setNextSplitSeqNum_def)
  obtain g ini l ch2 where take: "take_numbers (reliable_maker s a (cc_channelnum c)) originals [] None
      False ch1 = (g, ini, l, ch2)" by (rule prod_cases4)
  have ch2: "recv_same ch ch2" using recv_same_trans [OF ch1 take_numbers_recv [OF take]] .
  have run: "processReliableSendCommand s a pending c m ch =
    (if \<not> length originals < unat MAX_RELIABLE_WINDOW_SIZE then Inl Abort
     else case (g, ini, l, ch2) of
         (True, initial, toadd, ch2) \<Rightarrow>
           let ch3 = ch2\<lparr>queued_reliables := queued_reliables ch2 @ toadd\<rparr> in
           if length (queued_reliables ch3) < 0xFFFF then Inr (True, ch3) else Inl Abort
       | (False, None, toadd, ch2) \<Rightarrow> Inr (False, ch2)
       | (False, Some initial, toadd, ch2) \<Rightarrow>
           (case put_back_numbers initial (length toadd) ch2 of
              None \<Rightarrow> Inl Abort
            | Some ch3 \<Rightarrow> Inr (False, ch3)))"
    using False unfolding processReliableSendCommand_def Let_def mk
    by (simp add: ch1_def [symmetric] take)
  show ?thesis
    using assms ch2 recv_same_trans [OF ch2 put_back_recv] unfolding run
    by (cases g; cases ini) (auto simp: Let_def split: if_split_asm option.split_asm)
qed (use assms in \<open>simp add: processReliableSendCommand_def\<close>)

section \<open>Peers and connections\<close>

definition peer_recv_same :: "peer \<Rightarrow> peer \<Rightarrow> bool" where
  "peer_recv_same p p' \<longleftrightarrow> peer_address p' = peer_address p \<and>
     m_pending_disconnect p' = m_pending_disconnect p \<and>
     list_all2 recv_same (channels p) (channels p')"

lemma recv_same_all [simp, intro]: "list_all2 recv_same chs chs"
  by (simp add: list_all2_refl)

lemma peer_recv_same_refl [simp, intro]: "peer_recv_same p p"
  by (simp add: peer_recv_same_def)

lemma peer_recv_same_ok:
  assumes "peer_recv_same p p'" and "peer_ok b i p"
  shows "peer_ok b i p'"
proof -
  have "length (channels p') = length (channels p)"
    and "recv_same (channels p ! k) (channels p' ! k)" if "k < length (channels p)" for k
    using assms(1) that by (simp_all add: peer_recv_same_def list_all2_conv_all_nth)
  then show ?thesis
    using assms list_all2_lengthD [of recv_same "channels p" "channels p'"] recv_same_chan_ok
    unfolding peer_ok_def peer_recv_same_def by metis
qed

text \<open>
  What the operations of the send side that are not commands do to the connection: they
  keep the invariant and leave the queue of commands alone.
\<close>

definition keeps :: "connection \<Rightarrow> connection \<Rightarrow> bool" where
  "keeps c c' \<longleftrightarrow> (conn_ok c \<longrightarrow> conn_ok c') \<and> m_command_queue c' = m_command_queue c"

lemma keeps_refl [simp, intro]: "keeps c c"
  by (simp add: keeps_def)

lemma keeps_trans: "keeps c c' \<Longrightarrow> keeps c' c'' \<Longrightarrow> keeps c c''"
  by (simp add: keeps_def)

lemma keeps_fold: "(\<And>x s. x \<in> set xs \<Longrightarrow> keeps (g s) (g (f x s))) \<Longrightarrow> keeps (g s) (g (fold f xs s))"
proof (induction xs arbitrary: s)
  case (Cons x xs)
  then show ?case using keeps_trans [OF Cons.prems [of x s]] by simp
qed simp

lemma keeps_fold_ok:
  assumes "fold_ok f xs s = Inr s'" and "\<And>x s s'. x \<in> set xs \<Longrightarrow> f x s = Inr s' \<Longrightarrow> keeps (g s) (g s')"
  shows "keeps (g s) (g s')"
  using assms(1)
  by (rule fold_ok_invariant [where I = "\<lambda>x. keeps (g s) (g x)"]) (auto intro: keeps_trans assms(2))

lemma keeps_set_peer:
  assumes "get_peer i c = Some p" and "peer_recv_same p p'"
  shows "keeps c (set_peer i p' c)"
  using conn_ok_set_peer(1) [OF _ assms(1)] peer_recv_same_ok [OF assms(2) conn_ok_peer [OF _ assms(1)]]
    assms(2) by (simp add: peer_recv_same_def keeps_def)

lemma keeps_update:
  "(\<And>p. peer_recv_same p (f p)) \<Longrightarrow> keeps c (update_peer i f c)"
  by (cases "get_peer i c") (simp_all add: update_peer_def keeps_set_peer)

lemma peer_recv_same_channel:
  assumes "k < length (channels p) \<Longrightarrow> recv_same (channels p ! k) (f (channels p ! k))"
  shows "peer_recv_same p (update_channel k f p)"
proof -
  have "recv_same (channels p ! j) ((channels p)[k := f (channels p ! k)] ! j)"
    if "j < length (channels p)" for j
    using assms that by (cases "j = k") simp_all
  then show ?thesis
    by (simp add: peer_recv_same_def update_channel_def list_all2_conv_all_nth)
qed

lemma keeps_set_channel:
  assumes "recv_same (get_channel r c) ch"
  shows "keeps c (set_channel r ch c)"
proof (cases "get_peer (fst r) c")
  case (Some p)
  then have "peer_recv_same p (update_channel (snd r) (\<lambda>_. ch) p)"
    using assms by (intro peer_recv_same_channel) (simp add: get_channel_def)
  then show ?thesis
    using keeps_set_peer [OF Some] by (simp add: set_channel_def update_peer_def Some)
qed (simp add: set_channel_def update_peer_def)

lemma keeps_out [simp]: "keeps c (c'\<lparr>m_udp_out := out\<rparr>) = keeps c c'"
  by (simp add: keeps_def conn_ok_def table_ok_def condemned_def get_peer_def)

lemma keeps_rawSend [simp]: "keeps c (rawSend p c') = keeps c c'"
  by (simp add: rawSend_def)

lemma conn_ok_delete:
  assumes "conn_ok c"
  shows "conn_ok (snd (deletePeer i t c))"
proof -
  have "m_command_queue (snd (deletePeer i t c)) = m_command_queue c"
    "m_shutting_down (snd (deletePeer i t c)) = m_shutting_down c"
    by (simp_all add: deletePeer_def putEvent_def split: option.split)
  then show ?thesis
    using assms table_ok_deletePeer [of c]
    by (auto simp: conn_ok_def get_deletePeer condemned_def)
qed

lemma keeps_delete: "keeps c (snd (deletePeer i t c))"
  by (simp add: keeps_def conn_ok_delete) (simp add: deletePeer_def putEvent_def split: option.split)

lemma conn_ok_SetPeerID: "conn_ok c \<Longrightarrow> conn_ok (SetPeerID i c)"
  by (rule conn_ok_frame [of c]) (auto simp: SetPeerID_def Let_def putCommand_def)

section \<open>Packets and timeouts\<close>

lemma sendAsPacketReliable_ok:
  "sendAsPacketReliable now p r c = Inr c' \<Longrightarrow> keeps c c'"
  by (auto simp: sendAsPacketReliable_def Let_def split: sum.split_asm intro!: keeps_set_channel)

lemma get_set_channel_same:
  "get_peer (fst r) c \<noteq> None \<Longrightarrow> snd r < length (channels (the (get_peer (fst r) c))) \<Longrightarrow>
    get_channel r (set_channel r ch c) = ch"
  by (auto simp: get_channel_def update_channel_def)

lemma recv_same_get_set:
  "recv_same (get_channel r c) ch \<Longrightarrow> recv_same (get_channel r (set_channel r ch c)) ch"
  by (cases "get_peer (fst r) c"; cases "snd r < length (channels (the (get_peer (fst r) c)))")
    (auto simp: get_channel_def update_channel_def set_channel_def update_peer_def
      list_update_beyond)

lemma rawSendAsPacket_ok:
  assumes "rawSendAsPacket now i n d rel c = Inr (b, c')"
  shows "keeps c c'"
proof (cases "get_peer i c")
  case None
  then show ?thesis using assms by (simp add: rawSendAsPacket_def)
next
  case (Some p)
  let ?r = "(i, unat n)"
  obtain s g ch where get: "getOutgoingSequenceNumber (get_channel ?r c) = (s, g, ch)"
    by (rule prod_cases3)
  have c1: "keeps c (set_channel ?r ch c)" using getOutgoing_recv [OF get] by (rule keeps_set_channel)
  have "recv_same (get_channel ?r (set_channel ?r ch c)) ch"
    using getOutgoing_recv [OF get] by (rule recv_same_get_set)
  then have "keeps c (set_channel ?r (ch\<lparr>queued_reliables := q\<rparr>) (set_channel ?r ch c))" for q
    by (intro keeps_trans [OF c1] keeps_set_channel) simp
  then show ?thesis
    using assms Some get c1 keeps_trans [OF c1 sendAsPacketReliable_ok]
    by (auto simp: rawSendAsPacket_def Let_def split: if_split_asm bool.split_asm sum.split_asm)
qed

lemma resendReliable_ok: "keeps c (resendReliable r k c)"
  by (simp add: resendReliable_def keeps_set_channel)

lemma run_channel_timeouts_ok: "keeps (snd s) (snd (run_channel_timeouts dtime quota ho pt rt r s))"
proof -
  obtain t c where s: "s = (t, c)" by (cases s)
  obtain outs b2 where re: "rb_getResend rt quota (rb_incrementTimeouts dtime
      (outgoing_reliables_sent (get_channel r c))) = (outs, b2)" by fastforce
  let ?ch1 = "UpdatePacketLossCounter (of_nat (length outs)) ((get_channel r c)
    \<lparr>incoming_splits := removeUnreliableTimedOuts dtime pt (incoming_splits (get_channel r c)),
     outgoing_reliables_sent := b2\<rparr>)"
  have "recv_same (get_channel r c) ?ch1"
    by (simp add: recv_same_def removeUnreliableTimedOuts_ok UpdatePacketLossCounter_def)
  then have c1: "keeps c (set_channel r ?ch1 c)" by (rule keeps_set_channel)
  moreover have "keeps x (fold (resendReliable r) outs x)" for x
    by (rule keeps_fold [where g = id, simplified]) (rule resendReliable_ok)
  ultimately have "keeps c (fold (resendReliable r) outs (set_channel r ?ch1 c))"
    by (rule keeps_trans)
  then show ?thesis
    using c1 by (simp add: run_channel_timeouts_def s re Let_def keeps_trans [OF _ keeps_set_channel]
        UpdateTimers_recv)
qed

lemma isTimedOut_same: "isTimedOut now timeout p = (b, p') \<Longrightarrow> peer_recv_same p p'"
  by (auto simp: isTimedOut_def peer_isTimedOut_def Let_def peer_recv_same_def
      split: prod.split_asm bool.split_asm)

lemma Ping_same: "Ping dtime p = (d, p') \<Longrightarrow> peer_recv_same p p'"
  by (auto simp: Ping_def Let_def peer_recv_same_def split: if_split_asm)

lemma run_queues_same:
  "run_queues s a pending m mt chs = Inr chs' \<Longrightarrow> list_all2 recv_same chs chs'"
proof (induction s a pending m mt chs arbitrary: chs' rule: run_queues.induct)
  case (2 s a pending m mt ch chs)
  obtain ch' rest where rest: "run_queues s a pending m mt chs = Inr rest" "chs' = ch' # rest"
    and head: "(case queued_commands ch of [] \<Rightarrow> Inr ch
      | c # cs \<Rightarrow> if length (queued_reliables ch) < mt
        then case processReliableSendCommand s a pending c m ch of
            Inl e \<Rightarrow> Inl e
          | Inr (True, ch') \<Rightarrow> Inr (ch'\<lparr>queued_commands := tl (queued_commands ch')\<rparr>)
          | Inr (False, ch') \<Rightarrow> Inr ch'
        else Inr ch) = Inr ch'"
    using 2(2) by (auto split: sum.split_asm)
  have "recv_same ch ch'"
    using head processReliable_recv
    by (fastforce split: list.split_asm if_split_asm sum.split_asm prod.split_asm bool.split_asm)
  moreover have "list_all2 recv_same chs rest"
    using 2(1) rest(1) head by blast
  ultimately show ?case by (simp add: rest)
qed simp

lemma RunCommandQueues_same: "RunCommandQueues s m mt p = Inr p' \<Longrightarrow> peer_recv_same p p'"
  by (auto simp: RunCommandQueues_def peer_recv_same_def run_queues_same split: sum.split_asm)

lemma PutReliable_same: "PutReliableSendCommand s c m p = Inr p' \<Longrightarrow> peer_recv_same p p'"
  by (auto simp: PutReliableSendCommand_def Let_def processReliable_recv
      split: if_split_asm sum.split_asm prod.split_asm intro!: peer_recv_same_channel)

lemma run_peer_timeouts_ok:
  assumes run: "run_peer_timeouts now dtime quota i s = Inr (b, s')"
  shows "keeps (snd s) (snd s')"
proof -
  obtain t c where s: "s = (t, c)" by (cases s)
  show ?thesis
  proof (cases "get_peer i c")
    case None
    then show ?thesis using run by (simp add: run_peer_timeouts_def s)
  next
    case (Some p0)
    define pt where "pt = (if m_half_open p0 then max INIT_PHASE_MIN_TIMEOUT (m_timeout t / 4)
      else m_timeout t)"
    obtain timed p where to: "isTimedOut now pt p0 = (timed, p)" by fastforce
    have c0: "keeps c (set_peer i p c)" using Some isTimedOut_same [OF to] by (rule keeps_set_peer)
    show ?thesis
    proof (cases timed)
      case True
      then show ?thesis
        using run Some to c0 by (auto simp: run_peer_timeouts_def s pt_def [symmetric] Let_def)
    next
      case False
      obtain t1 c1 where f: "fold (\<lambda>ch. run_channel_timeouts dtime quota (m_half_open p) pt
          (resend_timeout p) (i, ch)) [0..<CHANNEL_COUNT] (t, set_peer i p c) = (t1, c1)" by fastforce
      have "keeps (snd (t, set_peer i p c)) (snd (fold (\<lambda>ch. run_channel_timeouts dtime quota
          (m_half_open p) pt (resend_timeout p) (i, ch)) [0..<CHANNEL_COUNT] (t, set_peer i p c)))"
        by (rule keeps_fold) (rule run_channel_timeouts_ok)
      then have c1: "keeps c c1" using f keeps_trans [OF c0] by simp
      obtain c2 where ping: "(case get_peer i c1 of
           None \<Rightarrow> Inr c1
         | Some peer1 \<Rightarrow> (case Ping dtime peer1 of
             (None, peer2) \<Rightarrow> Inr (set_peer i peer2 c1)
           | (Some data, peer2) \<Rightarrow> map_sum id snd (rawSendAsPacket now i 0 data True
               (set_peer i peer2 c1)))) = Inr c2"
        and queues: "(case get_peer i c2 of
           None \<Rightarrow> Inr c2
         | Some peer3 \<Rightarrow> map_sum id (\<lambda>peer4. set_peer i peer4 c2)
             (RunCommandQueues (connection_sender c2) (m_max_packet_size t1)
               (m_max_packets_requeued t1) peer3)) = Inr (snd s')"
        using run Some to False f
        by (auto simp: run_peer_timeouts_def s pt_def [symmetric] Let_def bind_ok_Inr)
      have c2: "keeps c1 c2"
      proof (cases "get_peer i c1")
        case None
        then show ?thesis using ping by simp
      next
        case (Some p1)
        obtain d p2 where d: "Ping dtime p1 = (d, p2)" by fastforce
        have "keeps c1 (set_peer i p2 c1)" using Some Ping_same [OF d] by (rule keeps_set_peer)
        then show ?thesis
          using ping Some d keeps_trans [OF _ rawSendAsPacket_ok]
          by (cases d) (auto simp: map_sum_def split: sum.split_asm)
      qed
      have "keeps c2 (snd s')"
      proof (cases "get_peer i c2")
        case None
        then show ?thesis using queues by simp
      next
        case (Some p3)
        then obtain p4 where "RunCommandQueues (connection_sender c2) (m_max_packet_size t1)
            (m_max_packets_requeued t1) p3 = Inr p4" "snd s' = set_peer i p4 c2"
          using queues by (auto simp: map_sum_def split: sum.split_asm)
        then show ?thesis using keeps_set_peer [OF Some RunCommandQueues_same] by simp
      qed
      then show ?thesis using keeps_trans [OF keeps_trans [OF c1 c2]] s by simp
    qed
  qed
qed

lemma run_all_timeouts_ok:
  "run_all_timeouts now dtime quota is s = Inr (l, s') \<Longrightarrow> keeps (snd s) (snd s')"
proof (induction "is" arbitrary: s l)
  case (Cons i "is")
  then obtain b s1 rest where "run_peer_timeouts now dtime quota i s = Inr (b, s1)"
    and "run_all_timeouts now dtime quota is s1 = Inr (rest, s')"
    by (auto simp: bind_ok_Inr)
  then show ?case using Cons.IH [of s1 rest] run_peer_timeouts_ok keeps_trans by blast
qed simp

lemma keeps_delete_all: "keeps c (fold (\<lambda>i c. if P i then c else snd (deletePeer i t c)) is c)"
  by (rule keeps_fold [where g = id, simplified]) (simp add: keeps_delete)

lemma runTimeouts_ok:
  assumes "runTimeouts now dtime quota s = Inr s'"
  shows "keeps (snd s) (snd s')"
proof -
  obtain l t c where "run_all_timeouts now dtime quota (m_peer_ids (snd s)) s = Inr (l, (t, c))"
    and s': "s' = (t, fold (\<lambda>i c. snd (deletePeer i True c)) l c)"
    using assms(1) by (auto simp: runTimeouts_def bind_ok_Inr)
  then have "keeps (snd s) c" using run_all_timeouts_ok by fastforce
  then show ?thesis
    using keeps_trans [OF _ keeps_delete_all [of c "\<lambda>_. False" True l]] by (simp add: s')
qed

section \<open>Queued packets\<close>

lemma count_packet_ok: "keeps c (count_packet i c)"
  unfolding count_packet_def by (rule keeps_update) (simp add: peer_recv_same_def)

lemma send_queued_ok: "send_queued now r ps c = Inr c' \<Longrightarrow> keeps c c'"
proof (induction now r ps c rule: send_queued.induct)
  case (2 now r p ps c)
  let ?ch = "get_channel r c"
  show ?case
  proof (cases "rb_size (outgoing_reliables_sent ?ch) < unat (m_window_size ?ch) \<and> remaining (fst r) c > 0")
    case True
    then obtain c1 where c1: "sendAsPacketReliable now p r (set_channel r (?ch\<lparr>queued_reliables := ps\<rparr>) c) = Inr c1"
      and rest: "send_queued now r ps (count_packet (fst r) c1) = Inr c'"
      using 2(2) by (auto simp: bind_ok_Inr Let_def)
    have "keeps c (set_channel r (?ch\<lparr>queued_reliables := ps\<rparr>) c)"
      by (simp add: keeps_set_channel)
    then have "keeps c (count_packet (fst r) c1)"
      using keeps_trans [OF keeps_trans [OF _ sendAsPacketReliable_ok [OF c1]] count_packet_ok] by blast
    then show ?thesis using 2(1) [OF refl True c1 rest] keeps_trans by blast
  next
    case False
    then show ?thesis using 2(2) by (simp only: send_queued.simps Let_def if_False sum.inject keeps_refl)
  qed
qed simp

lemma send_peer_ok:
  assumes "send_peer now quota i c = Inr c'"
  shows "keeps c c'"
proof (cases "get_peer i c = None")
  case False
  let ?c = "update_peer i (\<lambda>p. p\<lparr>m_increment_packets_remaining := quota\<rparr>) c"
  have f: "fold_ok (\<lambda>k. send_channel now (i, k)) [0..<CHANNEL_COUNT] ?c = Inr c'"
    using assms(1) False by (simp add: send_peer_def)
  have "keeps ?c c'"
    using keeps_fold_ok [OF f, of id] by (simp add: send_channel_def send_queued_ok)
  moreover have "keeps c ?c"
    by (rule keeps_update) (simp add: peer_recv_same_def)
  ultimately show ?thesis by (rule keeps_trans [rotated])
qed (use assms in \<open>simp add: send_peer_def\<close>)

lemma send_unreliable_ok: "send_unreliable now stop ps c = Inr (kept, c') \<Longrightarrow> keeps c c'"
proof (induction now stop ps c arbitrary: kept rule: send_unreliable.induct)
  case (2 now stop q ps c)
  let ?i = "og_peer_id q"
  show ?case
  proof (cases "og_reliable q \<or> get_peer ?i c = None")
    case True
    then show ?thesis using 2 by (simp add: Let_def)
  next
    case known: False
    show ?thesis
    proof (cases "og_ack q \<or> remaining ?i c > 0 \<or> stop")
      case True
      then obtain sent c1 where c1: "rawSendAsPacket now ?i (og_channelnum q) (og_data q) (og_reliable q) c =
          Inr (sent, c1)"
        and rest: "send_unreliable now stop ps (if remaining ?i c1 > 0 then count_packet ?i c1 else c1) =
          Inr (kept, c')"
        using 2(4) known by (auto simp: Let_def bind_ok_Inr)
      have "keeps c (if remaining ?i c1 > 0 then count_packet ?i c1 else c1)"
        using rawSendAsPacket_ok [OF c1] keeps_trans [OF _ count_packet_ok] by simp
      then show ?thesis using 2(2) [OF refl known True c1 refl rest] keeps_trans by blast
    next
      case False
      then show ?thesis using 2(3) [OF refl known False] 2(4) known
        by (auto simp: Let_def bind_ok_Inr)
    qed
  qed
qed simp

lemma sendPackets_ok:
  assumes "sendPackets now quota stop s = Inr s'"
  shows "keeps (snd s) (snd s')"
proof -
  obtain t c where s: "s = (t, c)" by (cases s)
  obtain c1 kept c2 where f: "fold_ok (send_peer now quota) (m_peer_ids c) c = Inr c1"
    and u: "send_unreliable now stop (m_outgoing_queue t) c1 = Inr (kept, c2)"
    and s': "snd s' = fold (\<lambda>i c. if i \<in> og_peer_id ` set kept then c else snd (deletePeer i False c))
      (pending_disconnects c) c2"
    using assms(1) by (auto simp: sendPackets_def s bind_ok_Inr)
  have "keeps c c1" using keeps_fold_ok [OF f, of id] send_peer_ok by simp
  moreover have "keeps c1 c2" using u by (rule send_unreliable_ok)
  ultimately have "keeps c c2" by (rule keeps_trans)
  then show ?thesis using keeps_trans [OF _ keeps_delete_all] unfolding s' s by simp
qed

section \<open>Commands\<close>

lemma resend_one_ok: "keeps c (resend_one i n c)"
proof -
  have "keeps c (set_channel r ((get_channel r c)\<lparr>outgoing_reliables_sent := b\<rparr>) c)" for r b
    by (simp add: keeps_set_channel)
  then show ?thesis
    using keeps_trans [OF _ resendReliable_ok]
    by (auto simp: resend_one_def Let_def split: prod.split list.split)
qed

lemma put_ok:
  "get_peer i c = Some p \<Longrightarrow> PutReliableSendCommand s cmd m p = Inr p' \<Longrightarrow> keeps c (set_peer i p' c)"
  by (rule keeps_set_peer [OF _ PutReliable_same])

lemma sendReliable_ok: "sendReliable cmd s = Inr s' \<Longrightarrow> keeps (snd s) (snd s')"
  by (cases s) (auto simp: sendReliable_def bind_ok_Inr split: option.split_asm intro: put_ok)

lemma sendToAllReliable_ok: "sendToAllReliable cmd s = Inr s' \<Longrightarrow> keeps (snd s) (snd s')"
  unfolding sendToAllReliable_def
  by (erule keeps_fold_ok) (auto simp: bind_ok_Inr split: option.split_asm intro: put_ok)

lemma setNextSplit_same: "peer_recv_same p (setNextSplitSequenceNumber n s p)"
  unfolding setNextSplitSequenceNumber_def
  by (rule peer_recv_same_channel) (simp add: setNextSplitSeqNum_def)

lemma send_data_ok: "send_data i n d s = Inr s' \<Longrightarrow> keeps (snd s) (snd s')"
  by (cases s) (auto simp: send_data_def split: option.split_asm
      intro: keeps_set_peer [OF _ setNextSplit_same])

lemma sendToAll_ok: "sendToAll n d s = Inr s' \<Longrightarrow> keeps (snd s) (snd s')"
  unfolding sendToAll_def by (erule keeps_fold_ok) (rule send_data_ok)

lemma fix_peer_id_ok: "keeps c (fix_peer_id i c)"
  unfolding fix_peer_id_def
  by (rule keeps_fold [where g = id, simplified], rule keeps_update)
    (auto simp: peer_recv_same_def list_all2_conv_all_nth)

text \<open>What a command leaves in the queue behind those that were there.\<close>

definition command_weight :: "connection_command \<Rightarrow> nat" where
  "command_weight cmd =
     (if cc_type cmd = CONNCMD_SERVE \<or> cc_type cmd = CONNCMD_CONNECT then 2 else 1)"

definition follow_ups :: "connection_command \<Rightarrow> connection_command list \<Rightarrow> bool" where
  "follow_ups cmd new \<longleftrightarrow> sum_list (map command_weight new) < command_weight cmd \<and>
     (\<forall>n\<in>set new. cc_type n = CONNCMD_PEER_ID_SET \<or> cc_type n = CONNCMD_SEND)"

lemma follow_none [simp]: "follow_ups cmd []"
  by (simp add: follow_ups_def command_weight_def)

lemma serve_queue:
  "cc_type cmd = CONNCMD_SERVE \<Longrightarrow>
    \<exists>new. m_command_queue (serve b c) = m_command_queue c @ new \<and> follow_ups cmd new"
  by (rule exI [of _ "if b \<and> \<not> m_shutting_down c then [cmd_peer_id_set PEER_ID_SERVER] else []"])
    (auto simp: serve_def SetPeerID_def Let_def putCommand_def follow_ups_def command_weight_def
      cmd_peer_id_set_def newCommand_def PEER_ID_SERVER_def PEER_ID_INEXISTENT_def)

lemma connect_queue:
  assumes "connect now b a c = Inr c'" and "cc_type cmd = CONNCMD_CONNECT"
  shows "\<exists>new. m_command_queue c' = m_command_queue c @ new \<and> follow_ups cmd new"
proof -
  obtain c1 where c1: "createServerPeer now a c = Inr c1"
    and s: "Send PEER_ID_SERVER 0 (newNetworkPacket 0 0) True
      (SetPeerID PEER_ID_INEXISTENT (putEvent (ev_peerAdded PEER_ID_SERVER a) c1)) = Inr c'"
    using assms(1) by (auto simp: connect_def bind_ok_Inr Let_def split: if_split_asm)
  obtain snd_cmd where cmd: "cmd_send PEER_ID_SERVER 0 (newNetworkPacket 0 0) True = Some snd_cmd"
    and c': "c' = putCommand snd_cmd (SetPeerID PEER_ID_INEXISTENT
      (putEvent (ev_peerAdded PEER_ID_SERVER a) c1))"
    using s by (auto simp: Send_def split: if_split_asm option.split_asm)
  have "cc_type snd_cmd = CONNCMD_SEND" using cmd by (auto simp: cmd_send_def newCommand_def)
  moreover have "m_command_queue c1 = m_command_queue c"
    using c1 by (auto simp: createServerPeer_def set_peer_def split: if_split_asm)
  ultimately show ?thesis
    using assms(2)
    by (intro exI [of _ "if m_shutting_down c1 then [] else [snd_cmd]"])
      (auto simp: c' putCommand_def SetPeerID_def Let_def putEvent_def follow_ups_def command_weight_def)
qed

lemma keeps_follow:
  "keeps c c' \<Longrightarrow> \<exists>new. m_command_queue c' = m_command_queue c @ new \<and> follow_ups cmd new"
  by (intro exI [of _ "[]"]) (simp add: keeps_def)

text \<open>The commands that are not about the socket or a disconnection.\<close>

lemma create_peer_ok:
  assumes "bind_ok (rawSendAsPacket now i n d rel c)
    (\<lambda>(sent, c'). if sent then Inr (t, c') else sendReliable cmd (t, c')) = Inr s'"
  shows "keeps c (snd s')"
proof -
  obtain sent c1 where c1: "rawSendAsPacket now i n d rel c = Inr (sent, c1)"
    and rest: "(if sent then Inr (t, c1) else sendReliable cmd (t, c1)) = Inr s'"
    using assms by (auto simp: bind_ok_Inr)
  have "keeps c1 (snd s')" using rest sendReliable_ok [of cmd "(t, c1)" s'] by (auto split: if_split_asm)
  then show ?thesis by (rule keeps_trans [OF rawSendAsPacket_ok [OF c1]])
qed

lemma processReliableCommand_ok:
  "processReliableCommand now cmd s = Inr s' \<Longrightarrow> keeps (snd s) (snd s')"
  by (cases s; cases "cc_type cmd")
    (auto simp: processReliableCommand_def resend_one_ok dest: create_peer_ok sendReliable_ok
      sendToAllReliable_ok)

lemma processNonReliableCommand_ok:
  "processNonReliableCommand now b cmd s = Inr s' \<Longrightarrow>
    cc_type cmd \<notin> {CONNCMD_SERVE, CONNCMD_CONNECT, CONNCMD_DISCONNECT_PEER} \<Longrightarrow>
    keeps (snd s) (snd s')"
  by (cases s; cases "cc_type cmd")
    (auto simp: processNonReliableCommand_def disconnect_def fix_peer_id_ok dest: send_data_ok sendToAll_ok)

lemma process_command_queue:
  assumes run: "process_command now b cmd (t, c) = Inr (t', c')"
  shows "\<exists>new. m_command_queue c' = m_command_queue c @ new \<and> follow_ups cmd new"
proof (cases "cc_reliable cmd")
  case True
  then show ?thesis
    using run keeps_follow [OF processReliableCommand_ok [of now cmd "(t, c)" "(t', c')", simplified]]
    by (simp add: process_command_def)
next
  case False
  then have r: "processNonReliableCommand now b cmd (t, c) = Inr (t', c')"
    using run by (simp add: process_command_def)
  consider "cc_type cmd = CONNCMD_SERVE" | "cc_type cmd = CONNCMD_CONNECT"
    | "cc_type cmd = CONNCMD_DISCONNECT_PEER"
    | "cc_type cmd \<notin> {CONNCMD_SERVE, CONNCMD_CONNECT, CONNCMD_DISCONNECT_PEER}" by blast
  then show ?thesis
  proof cases
    case 1
    then show ?thesis using r serve_queue [of cmd b c] by (auto simp: processNonReliableCommand_def)
  next
    case 2
    then show ?thesis
      using r connect_queue [of now b "cc_address cmd" c c' cmd]
      by (auto simp: processNonReliableCommand_def bind_ok_Inr)
  next
    case 3
    then have "m_command_queue c' = m_command_queue c"
      using r by (auto simp: processNonReliableCommand_def disconnect_peer_def)
    then show ?thesis by (intro exI [of _ "[]"]) simp
  next
    case 4
    then show ?thesis using keeps_follow [OF processNonReliableCommand_ok [OF r]] by simp
  qed
qed

section \<open>The loop over the commands\<close>

definition queue_weight :: "connection \<Rightarrow> nat" where
  "queue_weight c = sum_list (map command_weight (m_command_queue c))"

lemma process_commands_rules:
  assumes queue: "m_command_queue c = cmd # cmds" and typed: "cc_type cmd \<noteq> CONNCMD_NONE"
  shows "process_commands now b (t, c) =
    (case process_command now b cmd (t, c\<lparr>m_command_queue := cmds\<rparr>) of
       Inl e \<Rightarrow> Some (Inl e) | Inr s \<Rightarrow> process_commands now b s)"
  using assms by (subst process_commands.simps) simp

text \<open>
  A property of the state that every command keeps holds when the loop is through, and the
  loop does get through.
\<close>

lemma process_commands_run:
  assumes "I (t, c)"
    and keep: "\<And>t c cmd cmds s. I (t, c) \<Longrightarrow> m_command_queue c = cmd # cmds \<Longrightarrow>
      process_command now b cmd (t, c\<lparr>m_command_queue := cmds\<rparr>) = Inr s \<Longrightarrow> I s"
    and typed: "\<And>t c cmd. I (t, c) \<Longrightarrow> cmd \<in> set (m_command_queue c) \<Longrightarrow> cc_type cmd \<noteq> CONNCMD_NONE"
  shows "\<exists>r. process_commands now b (t, c) = Some r \<and>
    (\<forall>s. r = Inr s \<longrightarrow> I s \<and> m_command_queue (snd s) = [])"
  using assms(1)
proof (induction "queue_weight c" arbitrary: t c rule: less_induct)
  case less
  show ?case
  proof (cases "m_command_queue c")
    case Nil
    then show ?thesis using less.prems by (subst process_commands.simps) simp
  next
    case (Cons cmd cmds)
    note step = process_commands_rules [OF Cons typed [OF less.prems]]
    show ?thesis
    proof (cases "process_command now b cmd (t, c\<lparr>m_command_queue := cmds\<rparr>)")
      case (Inl e)
      then show ?thesis using step Cons by simp
    next
      case (Inr s)
      obtain t' c' where s: "s = (t', c')" by (cases s)
      obtain new where "m_command_queue c' = cmds @ new" "follow_ups cmd new"
        using process_command_queue [of now b cmd t "c\<lparr>m_command_queue := cmds\<rparr>" t' c'] Inr s by auto
      then have "queue_weight c' < queue_weight c"
        by (simp add: queue_weight_def Cons follow_ups_def)
      then show ?thesis
        using less.hyps [of c' t'] keep [OF less.prems Cons Inr] step Inr s Cons by simp
    qed
  qed
qed

section \<open>Commands and the invariant\<close>

definition mark_pending :: "u16 \<Rightarrow> connection \<Rightarrow> connection" where
  "mark_pending i c = update_peer i (\<lambda>p. p\<lparr>m_pending_disconnect := True\<rparr>) c"

lemma conn_ok_mark_pending:
  assumes "table_ok c" and "\<not> m_shutting_down c" and "get_peer PEER_ID_INEXISTENT c = None"
    and ok: "\<And>j p. get_peer j c = Some p \<Longrightarrow> peer_ok (condemned j c \<or> j = i) j p"
  shows "conn_ok (mark_pending i c)"
  unfolding conn_ok_def
proof (intro conjI allI impI)
  show "table_ok (mark_pending i c)"
    unfolding mark_pending_def using assms(1) by (rule table_ok_update_peer) simp_all
  show "\<not> m_shutting_down (mark_pending i c)" using assms(2) by (simp add: mark_pending_def)
  show "get_peer PEER_ID_INEXISTENT (mark_pending i c) = None"
    using assms(3) by (simp add: mark_pending_def get_update_peer)
  fix j p assume j: "get_peer j (mark_pending i c) = Some p"
  then obtain q where q: "get_peer j c = Some q" "channels p = channels q"
    by (auto simp: mark_pending_def get_update_peer split: if_split_asm)
  have "condemned j c \<or> j = i \<Longrightarrow> condemned j (mark_pending i c)"
    using q(1) by (auto simp: condemned_def mark_pending_def get_update_peer)
  then have "peer_ok (condemned j (mark_pending i c)) j q"
    using ok [OF q(1)] peer_ok_mono by blast
  then show "peer_ok (condemned j (mark_pending i c)) j p" using q(2) by (simp add: peer_ok_def)
qed

lemma popped:
  assumes "conn_ok c" and "m_command_queue c = cmd # cmds"
  shows "conn_ok (mark_pending (cc_peer_id cmd) (c\<lparr>m_command_queue := cmds\<rparr>))"
    and "cc_type cmd \<noteq> CONNCMD_DISCONNECT_PEER \<Longrightarrow> conn_ok (c\<lparr>m_command_queue := cmds\<rparr>)"
proof -
  let ?c = "c\<lparr>m_command_queue := cmds\<rparr>"
  have tab: "table_ok ?c" "\<not> m_shutting_down ?c" "get_peer PEER_ID_INEXISTENT ?c = None"
    using assms(1) by (auto simp: conn_ok_def intro: table_ok_frame)
  have con: "condemned j c \<Longrightarrow> condemned j ?c \<or> cmd = cmd_disconnect_peer j" for j
    using assms(2) by (auto simp: condemned_def)
  have is_discon: "cmd = cmd_disconnect_peer j \<Longrightarrow>
      j = cc_peer_id cmd \<and> cc_type cmd = CONNCMD_DISCONNECT_PEER" for j
    by (auto simp: cmd_disconnect_peer_def newCommand_def)
  have ok: "peer_ok (condemned j c) j p" if "get_peer j ?c = Some p" for j p
    using assms(1) that by (simp add: conn_ok_def)
  show "conn_ok (mark_pending (cc_peer_id cmd) ?c)"
    using tab
  proof (rule conn_ok_mark_pending)
    fix j p assume "get_peer j ?c = Some p"
    from ok [OF this] show "peer_ok (condemned j ?c \<or> j = cc_peer_id cmd) j p"
      by (rule peer_ok_mono) (use con is_discon in blast)
  qed
  assume "cc_type cmd \<noteq> CONNCMD_DISCONNECT_PEER"
  then have "condemned j c \<Longrightarrow> condemned j ?c" for j using con is_discon by blast
  then have "peer_ok (condemned j ?c) j p" if "get_peer j ?c = Some p" for j p
    using ok [OF that] peer_ok_mono by blast
  then show "conn_ok ?c" using tab by (simp add: conn_ok_def)
qed

lemma process_command_ok:
  assumes ok: "conn_ok c" and queue: "m_command_queue c = cmd # cmds"
    and type: "cc_type cmd \<noteq> CONNCMD_CONNECT"
    and run: "process_command now b cmd (t, c\<lparr>m_command_queue := cmds\<rparr>) = Inr (t', c')"
  shows "conn_ok c'"
proof (cases "cc_type cmd = CONNCMD_DISCONNECT_PEER \<and> \<not> cc_reliable cmd")
  case True
  then have "c' = mark_pending (cc_peer_id cmd) (c\<lparr>m_command_queue := cmds\<rparr>)"
    using run by (simp add: process_command_def processNonReliableCommand_def disconnect_peer_def
        mark_pending_def)
  then show ?thesis using popped(1) [OF ok queue] by simp
next
  case False
  let ?c = "c\<lparr>m_command_queue := cmds\<rparr>"
  have c: "conn_ok ?c"
  proof (cases "cc_type cmd = CONNCMD_DISCONNECT_PEER")
    case True
    then have "cmd \<noteq> cmd_disconnect_peer j" for j
      using False by (auto simp: cmd_disconnect_peer_def newCommand_def)
    then have "condemned j ?c = condemned j c" for j using queue by (auto simp: condemned_def)
    then show ?thesis using ok table_ok_frame [of c ?c] by (simp add: conn_ok_def)
  qed (rule popped(2) [OF ok queue])
  show ?thesis
  proof (cases "cc_reliable cmd")
    case True
    then have r: "processReliableCommand now cmd (t, ?c) = Inr (t', c')"
      using run by (simp add: process_command_def)
    show ?thesis using processReliableCommand_ok [OF r] c by (simp add: keeps_def)
  next
    case unrel: False
    then have r: "processNonReliableCommand now b cmd (t, ?c) = Inr (t', c')"
      using run by (simp add: process_command_def)
    show ?thesis
    proof (cases "cc_type cmd = CONNCMD_SERVE")
      case True
      then show ?thesis
        using r c by (auto simp: processNonReliableCommand_def serve_def conn_ok_SetPeerID)
    next
      case serve: False
      then show ?thesis
        using processNonReliableCommand_ok [OF r] c type False unrel by (simp add: keeps_def)
    qed
  qed
qed

section \<open>A round of the send thread\<close>

text \<open>The commands of a connection that only serves keep the invariant.\<close>

lemma process_commands_ok:
  assumes "conn_ok c" and "served c"
  shows "\<exists>r. process_commands now b (t, c) = Some r \<and>
    (\<forall>s. r = Inr s \<longrightarrow> conn_ok (snd s) \<and> m_command_queue (snd s) = [])"
proof -
  define I where "I = (\<lambda>s :: send_state. conn_ok (snd s) \<and> served (snd s))"
  have "\<exists>r. process_commands now b (t, c) = Some r \<and>
    (\<forall>s. r = Inr s \<longrightarrow> I s \<and> m_command_queue (snd s) = [])"
  proof (rule process_commands_run)
    show "I (t, c)" using assms by (simp add: I_def)
  next
    fix t c cmd cmds s
    assume I: "I (t, c)" and queue: "m_command_queue c = cmd # cmds"
      and run: "process_command now b cmd (t, c\<lparr>m_command_queue := cmds\<rparr>) = Inr s"
    obtain t' c' where s: "s = (t', c')" by (cases s)
    have "conn_ok c'"
      using process_command_ok [of c cmd cmds now b t t' c'] I queue run s
      by (simp add: I_def served_def internal_command_def)
    moreover obtain new where "m_command_queue c' = cmds @ new" "follow_ups cmd new"
      using process_command_queue [of now b cmd t "c\<lparr>m_command_queue := cmds\<rparr>" t' c'] run s by auto
    ultimately show "I s"
      using I queue by (auto simp: I_def s served_def internal_command_def follow_ups_def)
  next
    fix t c cmd assume "I (t, c)" "cmd \<in> set (m_command_queue c)"
    then show "cc_type cmd \<noteq> CONNCMD_NONE" by (simp add: I_def served_def internal_command_def)
  qed
  then show ?thesis by (auto simp: I_def)
qed

lemma send_round_ok:
  assumes "conn_ok c" and "served c"
  shows "\<exists>r. send_round now dtime b stop (t, c) = Some r \<and>
    (\<forall>s. r = Inr s \<longrightarrow> conn_ok (snd s) \<and> served (snd s))"
proof -
  let ?s0 = "(t\<lparr>m_iteration_packets_avaialble := m_max_data_packets_per_iteration t\<rparr>, c)"
  let ?q = "calculate_quota ?s0"
  show ?thesis
  proof (cases "runTimeouts now dtime ?q ?s0")
    case (Inl e)
    then show ?thesis by (simp add: send_round_def Let_def)
  next
    case (Inr s1)
    obtain t1 c1 where s1: "s1 = (t1, c1)" by (cases s1)
    have c1: "conn_ok c1" "served c1"
      using runTimeouts_ok [OF Inr] assms s1 by (simp_all add: served_def keeps_def)
    obtain r where r: "process_commands now b (t1, c1) = Some r"
      and ok: "\<forall>s. r = Inr s \<longrightarrow> conn_ok (snd s) \<and> m_command_queue (snd s) = []"
      using process_commands_ok [OF c1] by blast
    show ?thesis
    proof (cases r)
      case (Inl e)
      then show ?thesis using \<open>runTimeouts now dtime ?q ?s0 = Inr s1\<close> r s1 by (simp add: send_round_def Let_def)
    next
      case (Inr s2)
      have "conn_ok (snd s) \<and> served (snd s)"
        if "sendPackets now (of_nat (calculate_quota s2)) stop s2 = Inr s" for s
        using sendPackets_ok [OF that] ok Inr by (simp add: served_def keeps_def)
      then show ?thesis
        using \<open>runTimeouts now dtime ?q ?s0 = Inr s1\<close> r s1 Inr by (auto simp: send_round_def Let_def)
    qed
  qed
qed

section \<open>Both threads and the user\<close>

text \<open>
  A server: the rounds of the two threads, the commands of the user and the reception of
  events, in any order.  An exception that leaves a round of the send thread ends it, so
  such a round is not a step.
\<close>

type_synonym system = "receive_thread \<times> send_thread \<times> connection"

inductive system_step :: "system \<Rightarrow> system \<Rightarrow> bool" where
  receive_round: "input_ok x \<Longrightarrow>
    receive (in_now x) (in_now_s x) (in_ids x) (in_datagram x) rt c = Some (e, rt', c') \<Longrightarrow>
    system_step (rt, t, c) (rt', t, c')"
| send_round: "send_round now dtime b stop (t, c) = Some (Inr (t', c')) \<Longrightarrow>
    system_step (rt, t, c) (rt, t', c')"
| user_command: "internal_command cmd \<Longrightarrow> system_step (rt, t, c) (rt, t, putCommand cmd c)"
| user_receive: "ReceiveTimeoutMs pkt c = (r, calls, c') \<Longrightarrow> system_step (rt, t, c) (rt, t, c')"

definition system_ok :: "system \<Rightarrow> bool" where
  "system_ok s = (case s of (rt, t, c) \<Rightarrow> conn_ok c \<and> served c)"

lemma system_step_ok:
  assumes "system_step s s'" and "system_ok s"
  shows "system_ok s'"
  using assms(1)
proof cases
  case (receive_round x rt c e rt' c' t)
  then show ?thesis using assms(2) receive_step [of c x rt] by (auto simp: system_ok_def)
next
  case (send_round now dtime b stop t c t' c' rt)
  then show ?thesis using assms(2) send_round_ok [of c now dtime b stop t] by (auto simp: system_ok_def)
next
  case (user_command cmd rt t c)
  then show ?thesis using assms(2) by (auto simp: system_ok_def served_def)
next
  case (user_receive pkt c r calls c' rt t)
  then obtain evs where c': "c' = c\<lparr>m_event_queue := evs\<rparr>"
    by (auto simp: ReceiveTimeoutMs_def split: prod.split_asm)
  have "conn_ok c \<Longrightarrow> conn_ok (c\<lparr>m_event_queue := evs\<rparr>)"
    by (rule conn_ok_frame [of c]) auto
  then show ?thesis using assms(2) user_receive c' by (auto simp: system_ok_def served_def)
qed

lemma system_reachable:
  assumes "system_step\<^sup>*\<^sup>* s s'" and "system_ok s"
  shows "system_ok s'"
  using assms by (induction rule: rtranclp_induct) (auto intro: system_step_ok)

text \<open>
  C6.  Two threads, one connection.  In every state that a server can reach by rounds of
  its receive thread on arbitrary datagrams, rounds of its send thread, commands of the
  user and receptions, in any order and any number, the invariant of the connection holds,
  and the next round of either thread comes to its end.
\<close>

theorem system_invariant:
  assumes "system_step\<^sup>*\<^sup>* (newReceiveThread, newSendThread max_packet_size timeout mppi, newConnection)
    (rt, t, c)"
  shows "conn_ok c \<and>
    (\<forall>x. input_ok x \<longrightarrow> receive (in_now x) (in_now_s x) (in_ids x) (in_datagram x) rt c \<noteq> None) \<and>
    (\<forall>now dtime b stop. send_round now dtime b stop (t, c) \<noteq> None)"
proof -
  have "system_ok (newReceiveThread, newSendThread max_packet_size timeout mppi, newConnection)"
    by (simp add: system_ok_def conn_ok_new served_def) (simp add: newConnection_def)
  then have ok: "conn_ok c" "served c"
    using system_reachable [OF assms] by (simp_all add: system_ok_def)
  have "receive (in_now x) (in_now_s x) (in_ids x) (in_datagram x) rt c \<noteq> None" if "input_ok x" for x
    using receive_step [OF ok(1) that, of rt] by auto
  moreover have "send_round now dtime b stop (t, c) \<noteq> None" for now dtime b stop
    using send_round_ok [OF ok, of now dtime b stop t] by auto
  ultimately show ?thesis using ok(1) by simp
qed

theorem system_invariant_witness:
  "conn_ok (putCommand (cmd_serve (Address4 1 30000)) newConnection) \<and>
   send_round 0 0.05 True False (newSendThread 512 30 1024,
     putCommand (cmd_serve (Address4 1 30000)) newConnection) \<noteq> None"
proof -
  have "internal_command (cmd_serve (Address4 1 30000))"
    by (simp add: internal_command_def cmd_serve_def newCommand_def)
  then have "system_step\<^sup>*\<^sup>* (newReceiveThread, newSendThread 512 30 1024, newConnection)
      (newReceiveThread, newSendThread 512 30 1024, putCommand (cmd_serve (Address4 1 30000)) newConnection)"
    by (intro r_into_rtranclp user_command)
  from system_invariant [OF this] show ?thesis by blast
qed

text \<open>
  C15.  The send thread works off its commands.  Whatever is in the queue, and although
  some commands put new ones into it, the loop ends; if no command stops it by an error,
  the queue is then empty.
\<close>

theorem commands_worked_off:
  assumes "\<forall>cmd\<in>set (m_command_queue c). cc_type cmd \<noteq> CONNCMD_NONE"
  shows "\<exists>r. process_commands now b (t, c) = Some r \<and>
    (case r of Inl e \<Rightarrow> True | Inr s \<Rightarrow> m_command_queue (snd s) = [])"
proof -
  define I where "I = (\<lambda>s :: send_state. \<forall>cmd\<in>set (m_command_queue (snd s)). cc_type cmd \<noteq> CONNCMD_NONE)"
  have "\<exists>r. process_commands now b (t, c) = Some r \<and>
    (\<forall>s. r = Inr s \<longrightarrow> I s \<and> m_command_queue (snd s) = [])"
  proof (rule process_commands_run)
    show "I (t, c)" using assms by (simp add: I_def)
  next
    fix t c cmd cmds s
    assume I: "I (t, c)" "m_command_queue c = cmd # cmds"
      "process_command now b cmd (t, c\<lparr>m_command_queue := cmds\<rparr>) = Inr s"
    obtain t' c' where s: "s = (t', c')" by (cases s)
    obtain new where "m_command_queue c' = cmds @ new" "follow_ups cmd new"
      using process_command_queue [of now b cmd t "c\<lparr>m_command_queue := cmds\<rparr>" t' c'] I s by auto
    then show "I s" using I by (auto simp: I_def s follow_ups_def)
  qed (auto simp: I_def)
  then show ?thesis by (auto split: sum.split)
qed

theorem commands_worked_off_witness:
  "\<exists>r. process_commands 0 True (newSendThread 512 30 1024,
       putCommand (cmd_connect (Address4 1 30000)) newConnection) = Some r \<and>
     (case r of Inl e \<Rightarrow> True | Inr s \<Rightarrow> m_command_queue (snd s) = [])"
  by (rule commands_worked_off) (simp add: newConnection_def cmd_connect_def newCommand_def putCommand_def)

end
