(* ===== verification/SendQueue.thy ===== *)
theory SendQueue
  imports SendThread
begin

text \<open>
  What goes on the wire: when a reliable packet is kept for resending, and how many of the
  queued packets a round sends.
\<close>

section \<open>The window of the packets sent\<close>

lemma send_window_start_eq: "send_window_start n = n - MAX_RELIABLE_WINDOW_SIZE"
proof -
  define d where "d = uint n - 32768"
  have "0 \<le> uint n" "uint n < 65536" using uint_lt2p [of n] by simp_all
  then have "\<bar>d\<bar> \<le> 32768" by (simp add: d_def abs_le_iff)
  then have "\<bar>d\<bar> mod 32769 = \<bar>d\<bar>" by (intro mod_pos_pos_trivial) simp_all
  then have "sgn d * (\<bar>d\<bar> mod 32769) = d" by (simp add: abs_mult_sgn mult.commute)
  moreover have m: "uint MAX_RELIABLE_WINDOW_SIZE = 32768" by (simp add: MAX_RELIABLE_WINDOW_SIZE_def)
  have "send_window_start n = word_of_int (sgn d * (\<bar>d\<bar> mod 32769))"
    by (simp only: send_window_start_def Let_def m d_def) simp
  ultimately have "send_window_start n = word_of_int d" by simp
  also have "\<dots> = n - 0x8000" by (simp add: d_def wi_hom_sub [symmetric])
  finally show ?thesis by (simp add: MAX_RELIABLE_WINDOW_SIZE_def)
qed

lemma dist_window_start:
  "seqnum_dist (n - MAX_RELIABLE_WINDOW_SIZE) s < 32768 \<and> s \<noteq> n - MAX_RELIABLE_WINDOW_SIZE \<longleftrightarrow>
    0 < seqnum_dist s n \<and> seqnum_dist s n < 32768"
proof -
  have n: "unat (n - 0x8000) = (if 32768 \<le> unat n then unat n - 32768 else unat n + 32768)"
    using unat16_lt [of n] by (simp add: unat_sub16 word_le_nat_alt)
  show ?thesis
    using unat16_lt [of n] unat16_lt [of s]
    by (auto simp: seqnum_dist_unat n MAX_RELIABLE_WINDOW_SIZE_def word_unat_eq_iff split: if_splits)
qed

section \<open>Sending one packet\<close>

lemma insert_search_length:
  "insert_search s n t passed l = (l1, l2, u) \<Longrightarrow> length l1 + length l2 = length passed + length l"
  by (induction s n t passed l rule: insert_search.induct) (auto split: if_splits)

lemma rb_insert_size:
  assumes "rb_insert p n b = Inr b'"
  shows "rb_size b' \<le> rb_size b + 1"
proof (cases "rb_list b")
  case Nil
  then have "b' = b \<or> rb_list b' = [p]"
    using assms by (auto simp: rb_insert_def Let_def split: if_split_asm)
  then show ?thesis by (auto simp: rb_size_def)
next
  case (Cons f fs)
  obtain l1 l2 u where s: "insert_search (getSeqnum p) n (getSeqnum f) [] (f # fs) = (l1, l2, u)"
    by (rule prod_cases3)
  then have "length l1 + length l2 = length (f # fs)" using insert_search_length [OF s] by simp
  then show ?thesis using rb_insert_list [OF assms Cons s] Cons by (auto simp: rb_size_def)
qed

lemma send_reliable_peer:
  assumes "sendAsPacketReliable now q (i, k) c = Inr c'" and "get_peer i c = Some p"
  shows "\<exists>b. rb_insert (q\<lparr>bp_absolute_send_time := unat now\<rparr>)
      (send_window_start (next_outgoing_seqnum (channels p ! k)))
      (outgoing_reliables_sent (channels p ! k)) = Inr b \<and>
    get_peer i c' = Some (update_channel k (\<lambda>ch. ch\<lparr>outgoing_reliables_sent := b\<rparr>) p) \<and>
    m_udp_out c' = m_udp_out c @ [(bp_address q, bp_data q)]"
  using assms
  by (auto simp: sendAsPacketReliable_def Let_def get_channel_def rawSend_def set_channel_def
      update_peer_def set_peer_def update_channel_def get_peer_def map_of_peers_set split: sum.split_asm)

text \<open>
  Reliable packets are kept for resending.  The start of the window computed with a
  signed remainder is the number half the range before the next outgoing one, so a packet
  that is sent is put into the buffer of packets to be resent exactly if its number is one
  of the last 32767 handed out; it goes on the wire in any case.
\<close>

lemma sent_packet_kept:
  assumes p: "get_peer i c = Some p" "k < length (channels p)" and ch: "channels p ! k = ch"
    and ok: "rb_ok (next_outgoing_seqnum ch - MAX_RELIABLE_WINDOW_SIZE) (outgoing_reliables_sent ch)"
    and q: "reliable_packet s q" "rb_content (outgoing_reliables_sent ch) s = None"
  shows "\<exists>c'. sendAsPacketReliable now q (i, k) c = Inr c' \<and>
    m_udp_out c' = m_udp_out c @ [(bp_address q, bp_data q)] \<and>
    rb_content (outgoing_reliables_sent (get_channel (i, k) c')) =
      (rb_content (outgoing_reliables_sent ch))(s :=
        (if 0 < seqnum_dist s (next_outgoing_seqnum ch) \<and> seqnum_dist s (next_outgoing_seqnum ch) < 32768
         then Some (q\<lparr>bp_absolute_send_time := unat now\<rparr>) else None))"
proof -
  let ?q = "q\<lparr>bp_absolute_send_time := unat now\<rparr>" and ?b = "outgoing_reliables_sent ch"
  let ?start = "next_outgoing_seqnum ch - MAX_RELIABLE_WINDOW_SIZE"
  have same: "getSeqnum ?q = getSeqnum q" by (simp add: getSeqnum_def)
  then have num: "getSeqnum ?q = s" using q(1) by (simp add: reliable_packet_def)
  have "rb_storable ?start ?q \<longleftrightarrow>
      seqnum_dist ?start s < 32768 \<and> s \<noteq> ?start"
    using q(1) num same
    by (auto simp: rb_storable_def reliable_packet_def seq_arith MAX_RELIABLE_WINDOW_SIZE_def)
  then have st: "rb_storable ?start ?q \<longleftrightarrow>
      0 < seqnum_dist s (next_outgoing_seqnum ch) \<and> seqnum_dist s (next_outgoing_seqnum ch) < 32768"
    by (simp add: dist_window_start)
  obtain b where b: "rb_insert ?q ?start ?b = Inr b"
    and content: "rb_content b = (if rb_storable ?start ?q then (rb_content ?b)(s \<mapsto> ?q) else rb_content ?b)"
    using rb_insert_result [OF ok, of ?q] q(2) num by (cases "rb_insert ?q ?start ?b") auto
  obtain c' where run: "sendAsPacketReliable now q (i, k) c = Inr c'"
    using b p ch by (simp add: sendAsPacketReliable_def Let_def get_channel_def send_window_start_eq)
  then obtain p' where "get_peer i c' = Some p'" "outgoing_reliables_sent (channels p' ! k) = b"
    "m_udp_out c' = m_udp_out c @ [(bp_address q, bp_data q)]"
    using send_reliable_peer [OF run p(1)] p(2) ch b
    by (auto simp: send_window_start_eq update_channel_def)
  then show ?thesis
    using run content st q(2) by (auto simp: get_channel_def fun_upd_idem)
qed

section \<open>Sending what is queued\<close>

definition on_wire :: "buffered_packet list \<Rightarrow> (address \<times> bytes) list" where
  "on_wire qs = map (\<lambda>q. (bp_address q, bp_data q)) qs"

definition window_full :: "channel \<Rightarrow> bool" where
  "window_full ch \<longleftrightarrow> \<not> rb_size (outgoing_reliables_sent ch) < unat (m_window_size ch)"

lemma unat_pred: "0 < (x :: u32) \<Longrightarrow> unat (x - 1) = unat x - 1"
  by (simp add: unat_sub word_less_nat_alt unat_minus_one word_neq_0_conv)

lemma send_queued_run:
  "send_queued now (i, k) qs c = Inr c' \<Longrightarrow> get_peer i c = Some p \<Longrightarrow> k < length (channels p) \<Longrightarrow>
    queued_reliables (channels p ! k) = qs \<Longrightarrow>
    \<exists>n p'. n \<le> length qs \<and> get_peer i c' = Some p' \<and>
      m_udp_out c' = m_udp_out c @ on_wire (take n qs) \<and>
      queued_reliables (channels p' ! k) = drop n qs \<and>
      unat (m_increment_packets_remaining p') + n = unat (m_increment_packets_remaining p) \<and>
      m_window_size (channels p' ! k) = m_window_size (channels p ! k) \<and>
      rb_size (outgoing_reliables_sent (channels p' ! k)) \<le>
        max (rb_size (outgoing_reliables_sent (channels p ! k))) (unat (m_window_size (channels p ! k))) \<and>
      (n = length qs \<or> window_full (channels p' ! k) \<or> m_increment_packets_remaining p' = 0)"
proof (induction qs arbitrary: c p)
  case Nil
  then show ?case by (intro exI [of _ 0] exI [of _ p]) (simp add: on_wire_def)
next
  case (Cons q qs)
  let ?ch = "channels p ! k" and ?rem = "m_increment_packets_remaining p"
  have ch: "get_channel (i, k) c = ?ch" and rem: "remaining i c = ?rem"
    using Cons.prems(2) by (simp_all add: get_channel_def remaining_def)
  show ?case
  proof (cases "\<not> window_full ?ch \<and> ?rem > 0")
    case False
    then have "c' = c"
      using Cons.prems(1) by (auto simp: ch rem window_full_def Let_def split: if_split_asm)
    then show ?thesis
      using False Cons.prems by (intro exI [of _ 0] exI [of _ p]) (auto simp: on_wire_def word_neq_0_conv)
  next
    case True
    let ?c = "set_channel (i, k) (?ch\<lparr>queued_reliables := qs\<rparr>) c"
    obtain c1 where c1: "sendAsPacketReliable now q (i, k) ?c = Inr c1"
      and rest: "send_queued now (i, k) qs (count_packet i c1) = Inr c'"
      using Cons.prems(1) True by (auto simp: ch rem window_full_def Let_def bind_ok_Inr)
    let ?p = "update_channel k (\<lambda>_. ?ch\<lparr>queued_reliables := qs\<rparr>) p"
    have p: "get_peer i ?c = Some ?p" using Cons.prems(2) by simp
    obtain b where b: "rb_insert (q\<lparr>bp_absolute_send_time := unat now\<rparr>)
        (send_window_start (next_outgoing_seqnum (channels ?p ! k)))
        (outgoing_reliables_sent (channels ?p ! k)) = Inr b"
      and p1: "get_peer i c1 = Some (update_channel k (\<lambda>ch. ch\<lparr>outgoing_reliables_sent := b\<rparr>) ?p)"
      and out: "m_udp_out c1 = m_udp_out ?c @ [(bp_address q, bp_data q)]"
      using send_reliable_peer [OF c1 p] by blast
    let ?p1 = "update_channel k (\<lambda>ch. ch\<lparr>outgoing_reliables_sent := b\<rparr>) ?p"
    let ?p2 = "?p1\<lparr>m_increment_packets_remaining := ?rem - 1\<rparr>"
    have p2: "get_peer i (count_packet i c1) = Some ?p2"
      using p1 by (simp add: count_packet_def get_update_peer update_channel_def)
    have chan: "channels ?p2 ! k = ?ch\<lparr>queued_reliables := qs, outgoing_reliables_sent := b\<rparr>"
      and len: "k < length (channels ?p2)"
      using Cons.prems(3) by (simp_all add: update_channel_def)
    have sz: "rb_size b \<le> rb_size (outgoing_reliables_sent ?ch) + 1"
      using rb_insert_size [OF b] Cons.prems(3) by (simp add: update_channel_def)
    have udp: "m_udp_out (count_packet i c1) = m_udp_out c @ [(bp_address q, bp_data q)]"
      using out p1 Cons.prems(2)
      by (simp add: count_packet_def update_peer_def set_peer_def set_channel_def split: option.split)
    obtain n p' where n: "n \<le> length qs" "get_peer i c' = Some p'"
      "m_udp_out c' = m_udp_out (count_packet i c1) @ on_wire (take n qs)"
      "queued_reliables (channels p' ! k) = drop n qs"
      "unat (m_increment_packets_remaining p') + n = unat (?rem - 1)"
      "m_window_size (channels p' ! k) = m_window_size ?ch"
      "rb_size (outgoing_reliables_sent (channels p' ! k)) \<le> max (rb_size b) (unat (m_window_size ?ch))"
      "n = length qs \<or> window_full (channels p' ! k) \<or> m_increment_packets_remaining p' = 0"
      using Cons.IH [OF rest p2 len] chan by auto
    have "unat ?rem = unat (?rem - 1) + 1"
      using True unat_pred [of ?rem] by (simp add: word_less_nat_alt)
    moreover have "max (rb_size b) (unat (m_window_size ?ch)) \<le> unat (m_window_size ?ch)"
      using sz True by (simp add: window_full_def)
    ultimately show ?thesis
      using n udp by (intro exI [of _ "Suc n"] exI [of _ p']) (auto simp: on_wire_def)
  qed
qed

text \<open>
  C14.  Sending keeps the order, the window and the quota.  A round sends the first packets
  of the queue of a channel, in their order, and leaves the others queued; it takes what it
  sends off the quota of the peer and never lets the packets on the wire exceed the window;
  and it stops only when the queue is empty, the window full or the quota used up.
\<close>

theorem send_channel_correct:
  assumes "send_channel now (i, k) c = Inr c'" and "get_peer i c = Some p" and "k < length (channels p)"
  shows "\<exists>n p'. get_peer i c' = Some p' \<and> n \<le> length (queued_reliables (channels p ! k)) \<and>
    m_udp_out c' = m_udp_out c @ on_wire (take n (queued_reliables (channels p ! k))) \<and>
    queued_reliables (channels p' ! k) = drop n (queued_reliables (channels p ! k)) \<and>
    unat (m_increment_packets_remaining p') + n = unat (m_increment_packets_remaining p) \<and>
    rb_size (outgoing_reliables_sent (channels p' ! k)) \<le>
      max (rb_size (outgoing_reliables_sent (channels p ! k))) (unat (m_window_size (channels p ! k))) \<and>
    (queued_reliables (channels p' ! k) = [] \<or> window_full (channels p' ! k) \<or>
      m_increment_packets_remaining p' = 0)"
proof -
  obtain n p' where "n \<le> length (queued_reliables (channels p ! k))" "get_peer i c' = Some p'"
    "m_udp_out c' = m_udp_out c @ on_wire (take n (queued_reliables (channels p ! k)))"
    "queued_reliables (channels p' ! k) = drop n (queued_reliables (channels p ! k))"
    "unat (m_increment_packets_remaining p') + n = unat (m_increment_packets_remaining p)"
    "rb_size (outgoing_reliables_sent (channels p' ! k)) \<le>
      max (rb_size (outgoing_reliables_sent (channels p ! k))) (unat (m_window_size (channels p ! k)))"
    "n = length (queued_reliables (channels p ! k)) \<or> window_full (channels p' ! k) \<or>
      m_increment_packets_remaining p' = 0"
    using send_queued_run [of now i k "queued_reliables (channels p ! k)" c c' p] assms
    by (auto simp: send_channel_def get_channel_def)
  then show ?thesis by (intro exI [of _ n] exI [of _ p']) auto
qed

definition example_packet :: buffered_packet where
  "example_packet = makePacket (Address4 1 30000) (makeReliablePacket [1] 65500) PROTOCOL_ID 1 0"

definition example_queue :: connection where
  "example_queue = set_peer 2 ((update_channel 0 (\<lambda>ch. ch\<lparr>next_outgoing_seqnum := 65501,
     queued_reliables := [example_packet]\<rparr>) (newUDPPeer (Address4 1 30000) 0))
     \<lparr>m_increment_packets_remaining := 1\<rparr>) newConnection"

lemma rb_insert_first: "rb_list b = [] \<Longrightarrow> \<exists>b'. rb_insert q n b = Inr b'"
  by (auto simp: rb_insert_def Let_def)

theorem send_channel_correct_witness:
  "\<exists>c' n p'. send_channel 7 (2, 0) example_queue = Inr c' \<and> get_peer 2 c' = Some p' \<and> n \<le> 1 \<and>
    m_udp_out c' = on_wire (take n [example_packet]) \<and>
    queued_reliables (channels p' ! 0) = drop n [example_packet]"
proof -
  obtain p where p: "get_peer 2 example_queue = Some p" "0 < length (channels p)"
    and ch: "queued_reliables (channels p ! 0) = [example_packet]"
      "rb_list (outgoing_reliables_sent (channels p ! 0)) = []"
    by (simp add: example_queue_def update_channel_def newUDPPeer_def CHANNEL_COUNT_def newChannel_def
        setWindowSize_def newReliablePacketBuffer_def)
  have out: "m_udp_out example_queue = []"
    by (simp add: example_queue_def set_peer_def newConnection_def)
  let ?c = "set_channel (2, 0) ((channels p ! 0)\<lparr>queued_reliables := []\<rparr>) example_queue"
  have "outgoing_reliables_sent (get_channel (2, 0) ?c) = outgoing_reliables_sent (channels p ! 0)"
    using p by (simp add: get_channel_def update_channel_def)
  then obtain b where b: "rb_insert (example_packet\<lparr>bp_absolute_send_time := unat (7 :: u64)\<rparr>)
      (send_window_start (next_outgoing_seqnum (get_channel (2, 0) ?c)))
      (outgoing_reliables_sent (get_channel (2, 0) ?c)) = Inr b"
    using rb_insert_first ch(2) by metis
  then obtain c1 where "sendAsPacketReliable 7 example_packet (2, 0) ?c = Inr c1"
    by (simp add: sendAsPacketReliable_def Let_def)
  then obtain c' where run: "send_channel 7 (2, 0) example_queue = Inr c'"
    using p ch by (cases "rb_size (outgoing_reliables_sent (channels p ! 0)) <
        unat (m_window_size (channels p ! 0)) \<and> 0 < remaining 2 example_queue")
      (auto simp: send_channel_def get_channel_def Let_def)
  from send_channel_correct [OF run p] show ?thesis
    using run ch(1) out by auto
qed

end
