(* ===== verification/PeerLife.thy ===== *)
theory PeerLife
  imports Prelude
begin

text \<open>
  The life of a \<open>Peer\<close> object (\<open>src/network/mtp/impl.cpp\<close>): it is shared by the threads
  through \<open>PeerHelper\<close> and freed by whoever lets go of it last, or with the connection when its
  threads have ended.  Each operation runs under the mutex of the peer, or of the table, so the
  interleavings are sequences of steps.  Outside of the model is the one pointer to a peer that no
  helper holds: \<open>ConnectionSendThread::connect\<close> reads the id and the address of the peer that it has
  just put into the table.
\<close>

section \<open>The object\<close>

text \<open>\<open>Freed\<close> is the object after \<open>delete\<close>; what touches it then is an error.\<close>

record peer_object =
  m_usage :: u32
  m_pending_deletion :: bool

datatype peer_memory = Live peer_object | Freed

datatype life_error = UseAfterFree | UsageUnderflow | UsageNotZero

definition newPeerObject :: peer_memory where
  "newPeerObject = Live \<lparr>m_usage = 0, m_pending_deletion = False\<rparr>"

text \<open>The destructor, which ends the process if the object is still in use.\<close>

definition delete_peer_object :: "peer_object \<Rightarrow> life_error + peer_memory" where
  "delete_peer_object p = (if m_usage p \<noteq> 0 then Inl UsageNotZero else Inr Freed)"

definition IncUseCount :: "peer_memory \<Rightarrow> life_error + bool \<times> peer_memory" where
  "IncUseCount m =
     (case m of
        Freed \<Rightarrow> Inl UseAfterFree
      | Live p \<Rightarrow>
          if \<not> m_pending_deletion p then Inr (True, Live (p\<lparr>m_usage := m_usage p + 1\<rparr>))
          else Inr (False, m))"

definition DecUseCount :: "peer_memory \<Rightarrow> life_error + peer_memory" where
  "DecUseCount m =
     (case m of
        Freed \<Rightarrow> Inl UseAfterFree
      | Live p \<Rightarrow>
          if \<not> m_usage p > 0 then Inl UsageUnderflow
          else
            let p' = p\<lparr>m_usage := m_usage p - 1\<rparr> in
            if \<not> (m_pending_deletion p' \<and> m_usage p' = 0) then Inr (Live p')
            else delete_peer_object p')"

definition Drop :: "peer_memory \<Rightarrow> life_error + peer_memory" where
  "Drop m =
     (case m of
        Freed \<Rightarrow> Inl UseAfterFree
      | Live p \<Rightarrow>
          let p' = p\<lparr>m_pending_deletion := True\<rparr> in
          if m_usage p' \<noteq> 0 then Inr (Live p') else delete_peer_object p')"

section \<open>Helpers and the table\<close>

text \<open>
  A helper is an object on the stack of a thread, so that there are never as many as the counter has
  values.
\<close>

definition MAX_HELPERS :: nat where
  "MAX_HELPERS = 4294967295"

text \<open>
  One peer as all threads see it: whether the table still has it, how many helpers refer
  to it, whether a thread is between taking it from the table and dropping it, and whether
  an operation has failed.
\<close>

record peer_world =
  pw_memory :: peer_memory
  pw_in_table :: bool
  pw_helpers :: nat
  pw_dropping :: bool
  pw_failed :: bool

definition newPeerWorld :: peer_world where
  "newPeerWorld = \<lparr>pw_memory = newPeerObject, pw_in_table = True, pw_helpers = 0,
     pw_dropping = False, pw_failed = False\<rparr>"

text \<open>\<open>getPeerNoEx\<close> makes a helper, which is empty if the count was refused.\<close>

definition make_helper :: "peer_world \<Rightarrow> peer_world" where
  "make_helper w =
     (case IncUseCount (pw_memory w) of
        Inl e \<Rightarrow> w\<lparr>pw_failed := True\<rparr>
      | Inr (counted, m) \<Rightarrow>
          w\<lparr>pw_memory := m, pw_helpers := pw_helpers w + (if counted then 1 else 0)\<rparr>)"

definition release_helper :: "peer_world \<Rightarrow> peer_world" where
  "release_helper w =
     (case DecUseCount (pw_memory w) of
        Inl e \<Rightarrow> w\<lparr>pw_failed := True\<rparr>
      | Inr m \<Rightarrow> w\<lparr>pw_memory := m, pw_helpers := pw_helpers w - 1\<rparr>)"

text \<open>The two halves of \<open>deletePeer\<close>.\<close>

definition take_from_table :: "peer_world \<Rightarrow> peer_world" where
  "take_from_table w = w\<lparr>pw_in_table := False, pw_dropping := True\<rparr>"

definition drop_peer :: "peer_world \<Rightarrow> peer_world" where
  "drop_peer w =
     (case Drop (pw_memory w) of
        Inl e \<Rightarrow> w\<lparr>pw_failed := True\<rparr>
      | Inr m \<Rightarrow> w\<lparr>pw_memory := m, pw_dropping := False\<rparr>)"

text \<open>\<open>~Connection\<close>, for a peer that is left in the table; the threads have ended, and their helpers with them.\<close>

definition destroy_peer :: "peer_world \<Rightarrow> peer_world" where
  "destroy_peer w =
     (case pw_memory w of
        Freed \<Rightarrow> w\<lparr>pw_failed := True\<rparr>
      | Live p \<Rightarrow>
          (case delete_peer_object p of
             Inl e \<Rightarrow> w\<lparr>pw_failed := True\<rparr>
           | Inr m \<Rightarrow> w\<lparr>pw_memory := m, pw_in_table := False\<rparr>))"

inductive life_step :: "peer_world \<Rightarrow> peer_world \<Rightarrow> bool" where
  lookup: "pw_in_table w \<Longrightarrow> pw_helpers w < MAX_HELPERS \<Longrightarrow> life_step w (make_helper w)"
| release: "0 < pw_helpers w \<Longrightarrow> life_step w (release_helper w)"
| erase: "pw_in_table w \<Longrightarrow> life_step w (take_from_table w)"
| drop: "pw_dropping w \<Longrightarrow> life_step w (drop_peer w)"
| destroy: "pw_in_table w \<Longrightarrow> pw_helpers w = 0 \<Longrightarrow> life_step w (destroy_peer w)"

inductive_simps life_step_iff: "life_step w w'"

section \<open>Invariant\<close>

text \<open>
  The count is the number of helpers; the peer is in the table, or about to be dropped, or
  pending deletion; and it is freed exactly when it is none of these and no helper is left.
\<close>

definition life_ok :: "peer_world \<Rightarrow> bool" where
  "life_ok w \<longleftrightarrow> \<not> pw_failed w \<and> \<not> (pw_in_table w \<and> pw_dropping w) \<and>
     (case pw_memory w of
        Live p \<Rightarrow> m_usage p = of_nat (pw_helpers w) \<and> pw_helpers w \<le> MAX_HELPERS \<and>
          (m_pending_deletion p \<longleftrightarrow> \<not> pw_in_table w \<and> \<not> pw_dropping w) \<and>
          (m_pending_deletion p \<longrightarrow> 0 < pw_helpers w)
      | Freed \<Rightarrow> pw_helpers w = 0 \<and> \<not> pw_in_table w \<and> \<not> pw_dropping w)"

lemma life_ok_new: "life_ok newPeerWorld"
  by (simp add: life_ok_def newPeerWorld_def newPeerObject_def)

lemma usage_zero: "n \<le> MAX_HELPERS \<Longrightarrow> (of_nat n :: u32) = 0 \<longleftrightarrow> n = 0"
  by (rule of_nat32_eq_0) (simp add: MAX_HELPERS_def)

lemma life_step_ok:
  assumes "life_step w w'" and "life_ok w"
  shows "life_ok w'"
proof (cases "pw_memory w")
  case Freed
  with assms show ?thesis by (auto simp: life_step_iff life_ok_def take_from_table_def)
next
  case (Live p)
  with assms(2) have u: "m_usage p = of_nat (pw_helpers w)" "pw_helpers w \<le> MAX_HELPERS" by (simp_all add: life_ok_def)
  show ?thesis
  proof (cases "pw_helpers w")
    case 0
    with assms Live u show ?thesis
      by (auto simp: life_step_iff life_ok_def make_helper_def take_from_table_def drop_peer_def destroy_peer_def
          IncUseCount_def Drop_def delete_peer_object_def Let_def MAX_HELPERS_def)
  next
    case (Suc n)
    then have "m_usage p - 1 = of_nat n" "m_usage p \<noteq> 0" "0 < m_usage p" "(of_nat n :: u32) = 0 \<longleftrightarrow> n = 0"
      using u usage_zero [of n] usage_zero [OF u(2)] by (simp_all add: word_gt_0)
    with assms Live u Suc show ?thesis
      by (auto simp: life_step_iff life_ok_def make_helper_def release_helper_def take_from_table_def drop_peer_def
          IncUseCount_def DecUseCount_def Drop_def delete_peer_object_def Let_def)
  qed
qed

lemma life_reachable: "life_step\<^sup>*\<^sup>* newPeerWorld w \<Longrightarrow> life_ok w"
  by (induction rule: rtranclp_induct) (auto intro: life_ok_new life_step_ok)

text \<open>
  C16.  A peer is freed once, and neither too early nor never.  However the threads look a
  peer up, let go of it, and take it from the table and drop it, and whenever the connection is
  destroyed after them, none of these operations touches the freed object, no count underflows and
  no object in use is destroyed; and the object is freed as soon as it is out of the table, dropped,
  and the last helper is gone.
\<close>

theorem peer_freed_in_time:
  assumes "life_step\<^sup>*\<^sup>* newPeerWorld w"
  shows "\<not> pw_failed w \<and>
    (pw_memory w = Freed \<longleftrightarrow> \<not> pw_in_table w \<and> \<not> pw_dropping w \<and> pw_helpers w = 0)"
  using life_reachable [OF assms] by (auto simp: life_ok_def split: peer_memory.split_asm)

theorem peer_freed_in_time_witness:
  "\<not> pw_failed (release_helper (drop_peer (take_from_table (make_helper newPeerWorld)))) \<and>
   pw_memory (release_helper (drop_peer (take_from_table (make_helper newPeerWorld)))) = Freed"
proof -
  let ?w1 = "make_helper newPeerWorld" and ?w2 = "take_from_table (make_helper newPeerWorld)"
  have "life_step newPeerWorld ?w1" by (rule lookup) (simp_all add: newPeerWorld_def MAX_HELPERS_def)
  moreover have "life_step ?w1 ?w2"
    by (rule erase) (simp add: make_helper_def newPeerWorld_def newPeerObject_def IncUseCount_def)
  moreover have "life_step ?w2 (drop_peer ?w2)"
    by (rule drop) (simp add: take_from_table_def)
  moreover have "life_step (drop_peer ?w2) (release_helper (drop_peer ?w2))"
    by (rule release) (simp add: drop_peer_def take_from_table_def make_helper_def newPeerWorld_def
        newPeerObject_def IncUseCount_def Drop_def)
  ultimately have "life_step\<^sup>*\<^sup>* newPeerWorld (release_helper (drop_peer ?w2))"
    by (meson converse_rtranclp_into_rtranclp rtranclp.rtrancl_refl)
  from peer_freed_in_time [OF this] show ?thesis
    by (simp add: release_helper_def drop_peer_def take_from_table_def make_helper_def newPeerWorld_def
        newPeerObject_def IncUseCount_def Drop_def DecUseCount_def delete_peer_object_def)
qed

end
