(* ===== verification/Text.thy ===== *)
theory Text
  imports Serialize
begin

text \<open>
  Text on byte strings, as \<open>src/util/string.h\<close>, \<open>src/util/strfnd.h\<close> and the stream
  operators of the standard library that the serializers use handle it: tokens up to a
  separator, decimal numbers, white space.
\<close>

section \<open>Literals and characters\<close>

definition lit :: "string \<Rightarrow> bytes" where
  "lit s = map of_char s"

abbreviation SPACE :: u8 where "SPACE \<equiv> 32"
abbreviation NEWLINE :: u8 where "NEWLINE \<equiv> 10"
abbreviation COMMA :: u8 where "COMMA \<equiv> 44"
abbreviation COLON :: u8 where "COLON \<equiv> 58"

definition my_isspace :: "u8 \<Rightarrow> bool" where
  "my_isspace c \<longleftrightarrow> c = 32 \<or> c = 9 \<or> c = 10 \<or> c = 11 \<or> c = 12 \<or> c = 13"

definition isdigit :: "u8 \<Rightarrow> bool" where
  "isdigit c \<longleftrightarrow> 48 \<le> c \<and> c \<le> 57"

definition my_tolower :: "u8 \<Rightarrow> u8" where
  "my_tolower c =
     (if c > 0x7f then c else if 65 \<le> c \<and> c \<le> 90 then c + 32 else c)"

definition lowercase :: "bytes \<Rightarrow> bytes" where
  "lowercase s = map my_tolower s"

text \<open>Both loops of \<open>trim\<close>: the front first, then the back of what is left.\<close>

definition trim :: "bytes \<Rightarrow> bytes" where
  "trim s = rev (dropWhile my_isspace (rev (dropWhile my_isspace s)))"

definition str_equal :: "bytes \<Rightarrow> bytes \<Rightarrow> bool \<Rightarrow> bool" where
  "str_equal s1 s2 case_insensitive \<longleftrightarrow>
     (if \<not> case_insensitive then s1 = s2
      else length s1 = length s2 \<and>
        list_all (\<lambda>(a, b). my_tolower a = my_tolower b) (zip s1 s2))"

definition str_starts_with :: "bytes \<Rightarrow> bytes \<Rightarrow> bool \<Rightarrow> bool" where
  "str_starts_with s p case_insensitive \<longleftrightarrow>
     length p \<le> length s \<and>
     (if \<not> case_insensitive then take (length p) s = p
      else list_all (\<lambda>(a, b). my_tolower a = my_tolower b) (zip s p))"

definition str_ends_with :: "bytes \<Rightarrow> bytes \<Rightarrow> bool \<Rightarrow> bool" where
  "str_ends_with s p case_insensitive \<longleftrightarrow>
     length p \<le> length s \<and>
     (let start = length s - length p in
      if \<not> case_insensitive then drop start s = p
      else list_all (\<lambda>(a, b). my_tolower a = my_tolower b) (zip (drop start s) p))"

text \<open>The first of the endings that fits, with \<open>ends\<close> up to its terminator.\<close>

fun removeStringEnd :: "bytes \<Rightarrow> bytes list \<Rightarrow> bytes" where
  "removeStringEnd s [] = []"
| "removeStringEnd s (e # es) =
     (if e = [] then []
      else if length s < length e then removeStringEnd s es
      else if drop (length s - length e) s = e then take (length s - length e) s
      else removeStringEnd s es)"

definition is_number :: "bytes \<Rightarrow> bool" where
  "is_number s \<longleftrightarrow> list_all isdigit s \<and> s \<noteq> []"

fun str_join :: "bytes list \<Rightarrow> bytes \<Rightarrow> bytes" where
  "str_join [] delimiter = []"
| "str_join [p] delimiter = p"
| "str_join (p # q # ps) delimiter = p @ delimiter @ str_join (q # ps) delimiter"

section \<open>Tokens\<close>

text \<open>
  An input stream is the bytes left and whether it is still \<open>good()\<close>.  \<open>std::getline\<close>
  on a stream that is not leaves the variable it reads into as it was (\<open>old\<close>); otherwise
  it reads up to the separator, which it takes out, and the stream is not good any more
  when it has run into the end.
\<close>

type_synonym istream = "bytes \<times> bool"

definition getline :: "u8 \<Rightarrow> bytes \<Rightarrow> istream \<Rightarrow> bytes \<times> istream" where
  "getline sep old is =
     (if \<not> snd is then (old, is)
      else (takeWhile (\<lambda>c. c \<noteq> sep) (fst is),
            case dropWhile (\<lambda>c. c \<noteq> sep) (fst is) of
              [] \<Rightarrow> ([], False) | _ # r \<Rightarrow> (r, True)))"

text \<open>\<open>Strfnd\<close> is the part of the string from its position on.\<close>

definition strfnd_next :: "u8 \<Rightarrow> bytes \<Rightarrow> bytes \<times> bytes" where
  "strfnd_next sep s =
     (takeWhile (\<lambda>c. c \<noteq> sep) s, drop 1 (dropWhile (\<lambda>c. c \<noteq> sep) s))"

definition strfnd_skip_over :: "bytes \<Rightarrow> bytes \<Rightarrow> bytes" where
  "strfnd_skip_over chars s =
     (if list_all (\<lambda>c. c \<in> set chars) s then s else dropWhile (\<lambda>c. c \<in> set chars) s)"

text \<open>\<open>str_split\<close>: the loop of \<open>getline\<close>, which gives no token after a last separator.\<close>

function str_split :: "bytes \<Rightarrow> u8 \<Rightarrow> bytes list" where
  "str_split s delimiter =
     (if s = [] then []
      else fst (strfnd_next delimiter s) # str_split (snd (strfnd_next delimiter s)) delimiter)"
  by pat_completeness auto

lemma strfnd_next_less: "s \<noteq> [] \<Longrightarrow> length (snd (strfnd_next sep s)) < length s"
  using length_dropWhile_le [of "\<lambda>c. c \<noteq> sep" s] by (cases s) (auto simp: strfnd_next_def)

termination str_split
  by (relation "measure (length \<circ> fst)") (auto simp: strfnd_next_less)

declare str_split.simps [simp del]

lemma up_to_sep:
  assumes "sep \<notin> set t"
  shows "takeWhile (\<lambda>c. c \<noteq> sep) (t @ sep # r) = t"
    and "dropWhile (\<lambda>c. c \<noteq> sep) (t @ sep # r) = sep # r"
    and "takeWhile (\<lambda>c. c \<noteq> sep) t = t" and "dropWhile (\<lambda>c. c \<noteq> sep) t = []"
  using assms by (induction t) auto

lemma getline_token [simp]:
  "sep \<notin> set t \<Longrightarrow> getline sep old (t @ sep # r, True) = (t, r, True)"
  by (simp add: getline_def up_to_sep)

lemma getline_last [simp]:
  "sep \<notin> set t \<Longrightarrow> getline sep old (t, True) = (t, [], False)"
  by (simp add: getline_def up_to_sep)

lemma getline_bad [simp]: "getline sep old (s, False) = (old, s, False)"
  by (simp add: getline_def)

lemma strfnd_next_token [simp]:
  "sep \<notin> set t \<Longrightarrow> strfnd_next sep (t @ sep # r) = (t, r)"
  by (simp add: strfnd_next_def up_to_sep)

lemma strfnd_next_last [simp]: "sep \<notin> set t \<Longrightarrow> strfnd_next sep t = (t, [])"
  by (simp add: strfnd_next_def up_to_sep)

section \<open>Decimal numbers\<close>

text \<open>What \<open>os << n\<close> prints.\<close>

fun dec :: "nat \<Rightarrow> bytes" where
  "dec n = (if n < 10 then [48 + of_nat n] else dec (n div 10) @ [48 + of_nat (n mod 10)])"

declare dec.simps [simp del]

definition sdec :: "int \<Rightarrow> bytes" where
  "sdec i = (if i < 0 then 45 # dec (nat (- i)) else dec (nat i))"

text \<open>The digits at the front, and the number they denote.\<close>

definition digits_value :: "bytes \<Rightarrow> nat" where
  "digits_value ds = foldl (\<lambda>a c. 10 * a + (unat c - 48)) 0 ds"

text \<open>
  \<open>atoi\<close>: white space, a sign, digits; what follows is ignored, and no digits are 0.  The
  C library reads a \<open>long\<close>, held to its range, and cuts it to an \<open>int\<close>.
\<close>

definition long_range :: "int \<Rightarrow> int" where
  "long_range i = max (- (2 ^ 63)) (min (2 ^ 63 - 1) i)"

definition mystoi :: "bytes \<Rightarrow> s32" where
  "mystoi s =
     (let t = dropWhile my_isspace s;
          (neg, u) = (case t of [] \<Rightarrow> (False, [])
            | c # r \<Rightarrow> if c = 45 then (True, r) else if c = 43 then (False, r) else (False, t));
          v = int (digits_value (takeWhile isdigit u)) in
      of_int (long_range (if neg then - v else v)))"

definition mystoi_range :: "bytes \<Rightarrow> s32 \<Rightarrow> s32 \<Rightarrow> s32" where
  "mystoi_range s mn mx =
     (let i = mystoi s;
          i = (if sint i < sint mn then mn else i) in
      if sint i > sint mx then mx else i)"

definition is_yes :: "bytes \<Rightarrow> bool" where
  "is_yes s =
     (let s2 = lowercase (trim s) in
      s2 = lit ''y'' \<or> s2 = lit ''yes'' \<or> s2 = lit ''true'' \<or> mystoi s2 \<noteq> 0)"

text \<open>
  \<open>is >> x\<close> for an unsigned \<open>x\<close>: what is stored and whether it failed, and the stream.
  Nothing is stored (\<open>None\<close>) when the stream was not good or held only white space.  A
  sign is read and a negative number wraps; no digits store 0, too many the largest value,
  and both fail.
\<close>

definition extract_unsigned :: "istream \<Rightarrow> ('a::len word \<times> bool) option \<times> istream" where
  "extract_unsigned is =
     (let t = dropWhile my_isspace (fst is) in
      if \<not> snd is \<or> t = [] then (None, (t, False))
      else
        let (neg, u) = (if hd t = 45 then (True, tl t) else if hd t = 43 then (False, tl t)
               else (False, t));
            ds = takeWhile isdigit u;
            r = dropWhile isdigit u;
            v = digits_value ds in
        if ds = [] then (Some (0, True), (r, False))
        else if v \<ge> 2 ^ LENGTH('a) then (Some (- 1, True), (r, False))
        else (Some (if neg then - of_nat v else of_nat v, False), (r, r \<noteq> [])))"

lemma dec_digits: "list_all isdigit (dec n)"
proof (induction n rule: dec.induct)
  case (1 n)
  have "isdigit (48 + of_nat (n mod 10))" for n
  proof -
    have "n mod 10 < 10" by simp
    then have "n mod 10 \<in> {0, 1, 2, 3, 4, 5, 6, 7, 8, 9}" by (simp; arith)
    then show ?thesis by (elim insertE) (simp_all add: isdigit_def)
  qed
  from this [of n] 1 show ?case
    by (subst dec.simps) auto
qed

lemma dec_not_Nil [simp]: "dec n \<noteq> []"
  by (subst dec.simps) simp

lemma digits_value_snoc [simp]:
  "digits_value (ds @ [c]) = 10 * digits_value ds + (unat c - 48)"
  by (simp add: digits_value_def)

lemma digits_value_dec [simp]: "digits_value (dec n) = n"
proof (induction n rule: dec.induct)
  case (1 n)
  have *: "unat (48 + of_nat k :: u8) - 48 = k" if "k < 10" for k
  proof -
    from that have "k \<in> {0, 1, 2, 3, 4, 5, 6, 7, 8, 9}" by (simp; arith)
    then show ?thesis by (elim insertE) simp_all
  qed
  show ?case
  proof (cases "n < 10")
    case True
    then show ?thesis by (subst dec.simps) (simp add: digits_value_def *)
  next
    case False
    then show ?thesis using 1 by (subst dec.simps) (simp add: *)
  qed
qed

text \<open>A printed number is followed by something that is no digit, or by nothing.\<close>

definition no_digit :: "bytes \<Rightarrow> bool" where
  "no_digit r \<longleftrightarrow> (case r of [] \<Rightarrow> True | c # _ \<Rightarrow> \<not> isdigit c)"

lemma no_digit_simps [simp]:
  "no_digit []" "no_digit (c # r) \<longleftrightarrow> \<not> isdigit c"
  by (simp_all add: no_digit_def)

lemma take_digits:
  assumes "list_all isdigit ds" and "no_digit r"
  shows "takeWhile isdigit (ds @ r) = ds" and "dropWhile isdigit (ds @ r) = r"
proof -
  have "takeWhile isdigit (ds @ r) = ds \<and> dropWhile isdigit (ds @ r) = r"
    using assms by (induction ds) (auto simp: no_digit_def split: list.splits)
  then show "takeWhile isdigit (ds @ r) = ds" and "dropWhile isdigit (ds @ r) = r"
    by simp_all
qed

lemma digit_first:
  assumes "isdigit c"
  shows "\<not> my_isspace c" and "c \<noteq> 45" and "c \<noteq> 43" and "c \<noteq> SPACE" and "c \<noteq> NEWLINE"
    and "c \<noteq> COMMA" and "c \<noteq> COLON"
  using assms by (auto simp: isdigit_def my_isspace_def)

lemma dec_plain:
  assumes "c \<in> set (dec n)"
  shows "isdigit c"
  using assms dec_digits [of n] by (auto simp: list_all_iff)

lemma dec_no_sep [simp]:
  "SPACE \<notin> set (dec n)" "NEWLINE \<notin> set (dec n)" "COMMA \<notin> set (dec n)" "COLON \<notin> set (dec n)"
  by (auto dest!: dec_plain simp: isdigit_def)

lemma sdec_no_sep [simp]:
  "SPACE \<notin> set (sdec i)" "NEWLINE \<notin> set (sdec i)" "COMMA \<notin> set (sdec i)" "COLON \<notin> set (sdec i)"
  by (auto simp: sdec_def)

lemma skip_digits:
  "dropWhile my_isspace (dec n @ r) = dec n @ r" "hd (dec n) \<noteq> 45" "hd (dec n) \<noteq> 43"
proof -
  obtain c cs where d: "dec n = c # cs" by (cases "dec n") auto
  then have "isdigit c" using dec_digits [of n] by simp
  then have "\<not> my_isspace c" "c \<noteq> 45" "c \<noteq> 43" by (simp_all add: digit_first)
  with d show "dropWhile my_isspace (dec n @ r) = dec n @ r" "hd (dec n) \<noteq> 45" "hd (dec n) \<noteq> 43"
    by simp_all
qed

lemma minus_no_space [simp]: "\<not> my_isspace 45"
  by (simp add: my_isspace_def)

lemma sign_of_dec:
  "(case dec n @ r of [] \<Rightarrow> (False, []) | c # s \<Rightarrow>
      if c = 45 then (True, s) else if c = 43 then (False, s) else (False, dec n @ r))
   = (False, dec n @ r)"
  using skip_digits [of n] by (cases "dec n") auto

lemma long_range_id: "- (2 ^ 31) \<le> i \<Longrightarrow> i < 2 ^ 31 \<Longrightarrow> long_range i = i"
  by (simp add: long_range_def)

lemma mystoi_dec [simp]:
  assumes "n < 2 ^ 31" and "no_digit r"
  shows "mystoi (dec n @ r) = of_nat n"
  using assms
  by (simp add: mystoi_def skip_digits sign_of_dec take_digits dec_digits long_range_id)

lemma mystoi_sdec [simp]:
  assumes "- (2 ^ 31) \<le> i" and "i < 2 ^ 31" and "no_digit r"
  shows "mystoi (sdec i @ r) = of_int i"
proof (cases "i < 0")
  case True
  with assms have "mystoi (sdec i @ r) = of_int (long_range i)"
    by (simp add: sdec_def mystoi_def take_digits dec_digits)
  with assms show ?thesis by (simp add: long_range_id)
next
  case False
  with assms have "mystoi (sdec i @ r) = of_nat (nat i)"
    by (simp add: sdec_def nat_less_iff)
  with False show ?thesis by simp
qed

lemmas mystoi_exact [simp] =
  mystoi_dec [where r = "[]", simplified] mystoi_sdec [where r = "[]", simplified]

lemma extract_dec [simp]:
  assumes "n < 2 ^ LENGTH('a::len)" and "no_digit r"
  shows "extract_unsigned (dec n @ r, True) = (Some (of_nat n :: 'a word, False), (r, r \<noteq> []))"
  using assms skip_digits [of n]
  by (simp add: extract_unsigned_def take_digits dec_digits Let_def)

lemma extract_dec_word [simp]:
  "no_digit r \<Longrightarrow>
   extract_unsigned (dec (unat (w :: 'a::len word)) @ r, True) = (Some (w, False), (r, r \<noteq> []))"
  using unsigned_less [of w] by simp

lemmas extract_dec_exact [simp] =
  extract_dec [where r = "[]", simplified] extract_dec_word [where r = "[]", simplified]

lemma is_number_dec: "is_number (dec n)"
  by (simp add: is_number_def dec_digits)

text \<open>What is left of a stream, which every \<open>getline\<close> makes less.\<close>

definition istream_left :: "istream \<Rightarrow> nat" where
  "istream_left is = length (fst is) + (if snd is then 1 else 0)"

lemma getline_progress:
  assumes "snd is"
  shows "istream_left (snd (getline sep old is)) < istream_left is"
  using assms length_dropWhile_le [of "\<lambda>c. c \<noteq> sep" "fst is"]
  by (auto simp: getline_def istream_left_def split: list.split)

end
