(* ===== verification/Metadata.thy ===== *)
theory Metadata
  imports Text "HOL-Library.Finite_Map"
begin

text \<open>
  \<open>src/metadata.cpp\<close>, \<open>src/metadata.h\<close> and \<open>src/itemstackmetadata.cpp\<close>: tables of strings
  by name.  The hash table of the code is a finite map; the order in which it is walked is
  not fixed by the code and is an argument of \<open>serialize\<close>.  The tool capabilities and the
  wear bar that an item's metadata overrides are parsed from two of the strings and are not
  kept apart here.
\<close>

section \<open>Simple metadata\<close>

record metadata =
  m_stringvars :: "(bytes, bytes) fmap"
  m_modified :: bool

definition new_metadata :: metadata where
  "new_metadata = \<lparr>m_stringvars = fmempty, m_modified = False\<rparr>"

text \<open>\<open>IMetadata::operator==\<close> compares the tables only.\<close>

definition meta_eq :: "metadata \<Rightarrow> metadata \<Rightarrow> bool" where
  "meta_eq a b \<longleftrightarrow> m_stringvars a = m_stringvars b"

definition meta_clear :: "metadata \<Rightarrow> metadata" where
  "meta_clear m = m\<lparr>m_stringvars := fmempty, m_modified := True\<rparr>"

definition meta_empty :: "metadata \<Rightarrow> bool" where
  "meta_empty m \<longleftrightarrow> m_stringvars m = fmempty"

definition meta_size :: "metadata \<Rightarrow> nat" where
  "meta_size m = fcard (fmdom (m_stringvars m))"

definition meta_contains :: "metadata \<Rightarrow> bytes \<Rightarrow> bool" where
  "meta_contains m name \<longleftrightarrow> name |\<in>| fmdom (m_stringvars m)"

definition getStringRaw :: "metadata \<Rightarrow> bytes \<Rightarrow> bytes option" where
  "getStringRaw m name = fmlookup (m_stringvars m) name"

text \<open>An empty string removes the entry; the result says whether anything changed.\<close>

definition meta_setString :: "metadata \<Rightarrow> bytes \<Rightarrow> bytes \<Rightarrow> bool \<times> metadata" where
  "meta_setString m name var =
     (if var = []
      then if name |\<notin>| fmdom (m_stringvars m) then (False, m)
        else (True, m\<lparr>m_stringvars := fmdrop name (m_stringvars m), m_modified := True\<rparr>)
      else if fmlookup (m_stringvars m) name = Some var then (False, m)
      else (True, m\<lparr>m_stringvars := fmupd name var (m_stringvars m), m_modified := True\<rparr>))"

definition removeString :: "metadata \<Rightarrow> bytes \<Rightarrow> bool \<times> metadata" where
  "removeString m name = meta_setString m name []"

text \<open>
  \<open>resolveString\<close> and \<open>getString\<close> call each other: a value \<open>${name}\<close> stands for the value
  of \<open>name\<close>, at most twice in a row.
\<close>

function resolveString :: "metadata \<Rightarrow> bytes \<Rightarrow> nat \<Rightarrow> bytes" where
  "resolveString m s recursion =
     (if recursion \<le> 1 \<and> str_starts_with s [36, 123] False \<and> last s = 125
      then case getStringRaw m (take (length s - 3) (drop 2 s)) of
          None \<Rightarrow> []
        | Some raw \<Rightarrow> resolveString m raw (recursion + 1)
      else s)"
  by pat_completeness auto
termination
  by (relation "measure (\<lambda>(m, s, recursion). 2 - recursion)") auto

definition getString :: "metadata \<Rightarrow> bytes \<Rightarrow> nat \<Rightarrow> bytes" where
  "getString m name recursion =
     (case getStringRaw m name of None \<Rightarrow> [] | Some raw \<Rightarrow> resolveString m raw recursion)"

definition getStringToRef :: "metadata \<Rightarrow> bytes \<Rightarrow> nat \<Rightarrow> bytes option" where
  "getStringToRef m name recursion =
     (case getStringRaw m name of None \<Rightarrow> None | Some raw \<Rightarrow> Some (resolveString m raw recursion))"

section \<open>Metadata of an item\<close>

definition sanitize_string :: "bytes \<Rightarrow> bytes" where
  "sanitize_string s =
     removeAll 3 (removeAll 2 (removeAll 1 s))"

definition item_setString :: "metadata \<Rightarrow> bytes \<Rightarrow> bytes \<Rightarrow> bool \<times> metadata" where
  "item_setString m name var = meta_setString m (sanitize_string name) (sanitize_string var)"

definition meta_pair :: "metadata \<Rightarrow> bytes \<Rightarrow> bytes" where
  "meta_pair m k =
     (case fmlookup (m_stringvars m) k of
        None \<Rightarrow> []
      | Some v \<Rightarrow> if k \<noteq> [] \<or> v \<noteq> [] then k @ [2] @ v @ [3] else [])"

text \<open>\<open>ord\<close>: the names in the order in which the table is walked.\<close>

definition meta_serialize :: "bytes list \<Rightarrow> metadata \<Rightarrow> bytes" where
  "meta_serialize ord m =
     serializeJsonStringIfNeeded ([1] @ concat (map (meta_pair m) ord))"

text \<open>The loop of \<open>deSerialize\<close> over the pairs.\<close>

function read_pairs :: "bytes \<Rightarrow> (bytes, bytes) fmap \<Rightarrow> (bytes, bytes) fmap" where
  "read_pairs s m =
     (if s = [] then m
      else
        let (name, s1) = strfnd_next 2 s;
            (var, s2) = strfnd_next 3 s1 in
        read_pairs s2 (fmupd name var m))"
  by pat_completeness auto

lemma strfnd_next_le: "length (snd (strfnd_next sep s)) \<le> length s"
  using strfnd_next_less [of s sep] by (cases "s = []") (auto simp: strfnd_next_def)

termination read_pairs
proof (relation "measure (length \<circ> fst)", simp, clarsimp)
  fix s name s1 var s2
  assume *: "(name, s1) = strfnd_next 2 s" "(var, s2) = strfnd_next 3 s1" "s \<noteq> []"
  then have "length s1 < length s" using strfnd_next_less [of s 2] by (metis snd_conv)
  moreover have "length s2 \<le> length s1" using * strfnd_next_le [of 3 s1] by (metis snd_conv)
  ultimately show "length s2 < length s" by simp
qed

declare read_pairs.simps [simp del] resolveString.simps [simp del]

definition meta_deSerialize :: "metadata \<Rightarrow> bytes \<Rightarrow> ser_error + metadata \<times> bytes" where
  "meta_deSerialize m is =
     bind_ok (deSerializeJsonStringIfNeeded is) (\<lambda>(inp, r).
       Inr (m\<lparr>m_stringvars :=
         (case inp of
            [] \<Rightarrow> fmempty
          | c # cs \<Rightarrow> if c = 1 then read_pairs cs fmempty
              else fmupd [] inp fmempty)\<rparr>, r))"

section \<open>Reading back what was written\<close>

definition clean :: "bytes \<Rightarrow> bool" where
  "clean s \<longleftrightarrow> 1 \<notin> set s \<and> 2 \<notin> set s \<and> 3 \<notin> set s"

definition item_meta_ok :: "metadata \<Rightarrow> bool" where
  "item_meta_ok m \<longleftrightarrow>
     (\<forall>k v. fmlookup (m_stringvars m) k = Some v \<longrightarrow> clean k \<and> clean v \<and> v \<noteq> [])"

definition walks :: "bytes list \<Rightarrow> metadata \<Rightarrow> bool" where
  "walks ord m \<longleftrightarrow> fset_of_list ord = fmdom (m_stringvars m)"

lemma clean_sanitize [simp]: "clean (sanitize_string s)"
  by (auto simp: clean_def sanitize_string_def)

lemma sanitize_clean [simp]: "clean s \<Longrightarrow> sanitize_string s = s"
  by (simp add: clean_def sanitize_string_def removeAll_id)

lemma meta_setString_lookup:
  "fmlookup (m_stringvars (snd (meta_setString m name var))) k =
     (if k = name then (if var = [] then None else Some var) else fmlookup (m_stringvars m) k)"
  by (auto simp: meta_setString_def fmdom_notD)

lemma meta_setString_changed:
  "fst (meta_setString m name var) \<longleftrightarrow>
     m_stringvars (snd (meta_setString m name var)) \<noteq> m_stringvars m"
proof -
  have "fmdrop name f \<noteq> f" if "name |\<in>| fmdom f" for f :: "(bytes, bytes) fmap"
    using that by (metis fmlookup_dom_iff fmlookup_drop option.distinct(1))
  moreover have "fmupd name var f \<noteq> f" if "fmlookup f name \<noteq> Some var"
    for f :: "(bytes, bytes) fmap"
    using that by (metis fmupd_lookup)
  ultimately show ?thesis by (auto simp: meta_setString_def)
qed

lemma item_setString_ok [intro]:
  "item_meta_ok m \<Longrightarrow> item_meta_ok (snd (item_setString m name var))"
  by (auto simp: item_meta_ok_def item_setString_def meta_setString_lookup split: if_splits)

lemma item_meta_ok_empty [simp]:
  "m_stringvars m = fmempty \<Longrightarrow> item_meta_ok m"
  by (simp add: item_meta_ok_def)

lemma read_pairs_one:
  assumes "clean k" and "clean v"
  shows "read_pairs (k @ [2] @ v @ [3] @ s) acc = read_pairs s (fmupd k v acc)"
  using assms by (subst read_pairs.simps) (simp add: clean_def Let_def)

lemma read_pairs_Nil [simp]: "read_pairs [] acc = acc"
  by (subst read_pairs.simps) simp

lemma read_pairs_all:
  assumes "item_meta_ok m" and "set ord \<subseteq> fset (fmdom (m_stringvars m))"
  shows "fmlookup (read_pairs (concat (map (meta_pair m) ord)) acc) x =
     (if x \<in> set ord then fmlookup (m_stringvars m) x else fmlookup acc x)"
  using assms(2)
proof (induction ord arbitrary: acc)
  case (Cons k ord)
  then obtain v where v: "fmlookup (m_stringvars m) k = Some v"
    by (auto simp: fmlookup_dom_iff)
  with assms have "clean k" "clean v" "v \<noteq> []" by (auto simp: item_meta_ok_def)
  then have "read_pairs (concat (map (meta_pair m) (k # ord))) acc =
      read_pairs (concat (map (meta_pair m) ord)) (fmupd k v acc)"
    using read_pairs_one [of k v] by (simp add: meta_pair_def v)
  with Cons v show ?case by auto
qed simp

lemma meta_roundtrip:
  assumes "item_meta_ok m" and "walks ord m" and "r = [] \<or> hd r = 32"
  shows "meta_deSerialize m0 (meta_serialize ord m @ r) =
    Inr (m0\<lparr>m_stringvars := m_stringvars m\<rparr>, r)"
proof -
  have ord: "set ord = fset (fmdom (m_stringvars m))"
    using assms(2) by (metis fset_of_list.rep_eq walks_def)
  have "read_pairs (concat (map (meta_pair m) ord)) fmempty = m_stringvars m"
    by (rule fmap_ext) (simp add: read_pairs_all [OF assms(1)] ord fmdom_notD)
  then show ?thesis
    by (simp add: meta_deSerialize_def meta_serialize_def json_if_needed_roundtrip [OF assms(3)])
qed

end
