(* ===== verification/NameIdMapping.thy ===== *)
theory NameIdMapping
  imports Text "HOL-Library.Finite_Map"
begin

text \<open>
  \<open>src/nameidmapping.h\<close>, \<open>src/nameidmapping.cpp\<close>: names of node types by number and back,
  two hash tables; and the table of \<open>src/content_mapnode.cpp\<close> for what old maps contain.
  A map block carries its own mapping on the wire.
\<close>

section \<open>The two tables\<close>

record NameIdMapping =
  m_id_to_name :: "(u16, bytes) fmap"
  m_name_to_id :: "(bytes, u16) fmap"

definition new_mapping :: NameIdMapping where
  "new_mapping = \<lparr>m_id_to_name = fmempty, m_name_to_id = fmempty\<rparr>"

definition nim_clear :: "NameIdMapping \<Rightarrow> NameIdMapping" where
  "nim_clear m = m\<lparr>m_id_to_name := fmempty, m_name_to_id := fmempty\<rparr>"

text \<open>\<open>None\<close>: the assertion that the name is not empty fails.\<close>

definition nim_set :: "u16 \<Rightarrow> bytes \<Rightarrow> NameIdMapping \<Rightarrow> NameIdMapping option" where
  "nim_set i n m =
     (if n = [] then None
      else Some (m\<lparr>m_id_to_name := fmupd i n (m_id_to_name m),
                   m_name_to_id := fmupd n i (m_name_to_id m)\<rparr>))"

definition getName :: "NameIdMapping \<Rightarrow> u16 \<Rightarrow> bytes option" where
  "getName m i = fmlookup (m_id_to_name m) i"

definition getId :: "NameIdMapping \<Rightarrow> bytes \<Rightarrow> u16 option" where
  "getId m n = fmlookup (m_name_to_id m) n"

definition removeId :: "u16 \<Rightarrow> NameIdMapping \<Rightarrow> NameIdMapping" where
  "removeId i m =
     (case getName m i of
        None \<Rightarrow> m
      | Some n \<Rightarrow> m\<lparr>m_id_to_name := fmdrop i (m_id_to_name m),
                     m_name_to_id := fmdrop n (m_name_to_id m)\<rparr>)"

definition eraseName :: "bytes \<Rightarrow> NameIdMapping \<Rightarrow> NameIdMapping" where
  "eraseName n m =
     (case getId m n of
        None \<Rightarrow> m
      | Some i \<Rightarrow> m\<lparr>m_id_to_name := fmdrop i (m_id_to_name m),
                     m_name_to_id := fmdrop n (m_name_to_id m)\<rparr>)"

definition nim_size :: "NameIdMapping \<Rightarrow> u16" where
  "nim_size m = of_nat (fcard (fmdom (m_id_to_name m)))"

section \<open>On the wire\<close>

text \<open>\<open>ord\<close>: the numbers in the order in which the table is walked.\<close>

definition nim_serialize :: "u16 list \<Rightarrow> NameIdMapping \<Rightarrow> ser_error + bytes" where
  "nim_serialize ord m =
     fold_ok (\<lambda>i out.
         bind_ok (serializeString16 (case getName m i of None \<Rightarrow> [] | Some n \<Rightarrow> n)) (\<lambda>s.
           Inr (out @ writeU16 i @ s)))
       ord (writeU8 0 @ writeU16 (nim_size m))"

fun nim_read :: "nat \<Rightarrow> NameIdMapping \<Rightarrow> bytes \<Rightarrow> ser_error + NameIdMapping \<times> bytes" where
  "nim_read 0 m is = Inr (m, is)"
| "nim_read (Suc k) m is =
     bind_ok (stream_read 2 readU16 is) (\<lambda>(i, is1).
     bind_ok (deSerializeString16 is1) (\<lambda>(n, is2).
       nim_read k (m\<lparr>m_id_to_name := fmupd i n (m_id_to_name m),
                     m_name_to_id := fmupd n i (m_name_to_id m)\<rparr>) is2))"

definition nim_deSerialize :: "NameIdMapping \<Rightarrow> bytes \<Rightarrow> ser_error + NameIdMapping \<times> bytes" where
  "nim_deSerialize m is =
     bind_ok (stream_read 1 readU8 is) (\<lambda>(version, is1).
       if version \<noteq> 0
       then Inl (SerializationError ''unsupported NameIdMapping version'')
       else bind_ok (stream_read 2 readU16 is1) (\<lambda>(n, is2).
         nim_read (unat n) (nim_clear m) is2))"

section \<open>Node types of old maps\<close>

abbreviation CONTENT_UNKNOWN :: u16 where "CONTENT_UNKNOWN \<equiv> 125"
abbreviation CONTENT_AIR :: u16 where "CONTENT_AIR \<equiv> 126"
abbreviation CONTENT_IGNORE :: u16 where "CONTENT_IGNORE \<equiv> 127"

definition trans_table_19 :: "(u16 \<times> u16) list" where
  "trans_table_19 =
     [(0x800, 1), (0x801, 4), (0x802, 5), (0x803, 6), (0x804, 7), (0x805, 8), (0x806, 10),
      (0x807, 11), (0x808, 12), (0x809, 13), (0x80a, 18), (0x80b, 19), (0x80c, 20), (0x80d, 22),
      (0x80e, 23), (0x80f, 24), (0x810, 25), (0x811, 26), (0x812, 27), (0x813, 28), (0x814, 29)]"

definition content_translate_from_19_to_internal :: "u16 \<Rightarrow> u16" where
  "content_translate_from_19_to_internal c_from =
     (case find (\<lambda>tt. snd tt = c_from) trans_table_19 of
        None \<Rightarrow> c_from
      | Some tt \<Rightarrow> fst tt)"

definition legacy_names :: "(u16 \<times> string) list" where
  "legacy_names =
     [(0, ''default:stone''), (2, ''default:water_flowing''), (3, ''default:torch''),
      (9, ''default:water_source''), (14, ''default:sign_wall''), (15, ''default:chest''),
      (16, ''default:furnace''), (17, ''default:chest_locked''), (21, ''default:fence_wood''),
      (30, ''default:rail''), (31, ''default:ladder''), (32, ''default:lava_flowing''),
      (33, ''default:lava_source''), (0x800, ''default:dirt_with_grass''),
      (0x801, ''default:tree''), (0x802, ''default:leaves''),
      (0x803, ''default:dirt_with_grass_footsteps''), (0x804, ''default:mese''),
      (0x805, ''default:dirt''), (0x806, ''default:cloud''), (0x807, ''default:coalstone''),
      (0x808, ''default:wood''), (0x809, ''default:sand''), (0x80a, ''default:cobble''),
      (0x80b, ''default:steelblock''), (0x80c, ''default:glass''),
      (0x80d, ''default:mossycobble''), (0x80e, ''default:gravel''),
      (0x80f, ''default:sandstone''), (0x810, ''default:cactus''), (0x811, ''default:brick''),
      (0x812, ''default:clay''), (0x813, ''default:papyrus''), (0x814, ''default:bookshelf''),
      (0x815, ''default:jungletree''), (0x816, ''default:junglegrass''),
      (0x817, ''default:nyancat''), (0x818, ''default:nyancat_rainbow''),
      (0x819, ''default:apple''), (0x820, ''default:sapling''), (127, ''ignore''), (126, ''air'')]"

definition content_mapnode_get_name_id_mapping :: "NameIdMapping \<Rightarrow> NameIdMapping option" where
  "content_mapnode_get_name_id_mapping m =
     fold (\<lambda>(i, n) st. case st of None \<Rightarrow> None | Some m \<Rightarrow> nim_set i (lit n) m) legacy_names (Some m)"

section \<open>The tables agree\<close>

text \<open>
  One is the inverse of the other.  \<open>set\<close> keeps this for a name and a number that are not
  in use yet, removal always.
\<close>

definition nim_ok :: "NameIdMapping \<Rightarrow> bool" where
  "nim_ok m \<longleftrightarrow> (\<forall>i n. getName m i = Some n \<longleftrightarrow> getId m n = Some i)"

lemma nim_ok_new [simp]: "nim_ok new_mapping" "nim_ok (nim_clear m)"
  by (simp_all add: nim_ok_def new_mapping_def nim_clear_def getName_def getId_def)

lemma nim_okD:
  assumes "nim_ok m"
  shows "getName m i = Some n \<Longrightarrow> getId m n = Some i" and "getId m n = Some i \<Longrightarrow> getName m i = Some n"
  using assms by (simp_all add: nim_ok_def)

lemma nim_ok_fresh:
  assumes "nim_ok m"
  shows "getName m i = None \<Longrightarrow> getId m n \<noteq> Some i" and "getId m n = None \<Longrightarrow> getName m i \<noteq> Some n"
  using nim_okD(2) [OF assms, of n i] nim_okD(1) [OF assms, of i n] by auto

lemma nim_ok_inj:
  assumes "nim_ok m" and "getId m n = Some i" and "getId m n' = Some i"
  shows "n = n'"
  using assms by (metis nim_okD(2) option.inject)

lemma nim_ok_set:
  assumes "nim_ok m" and "nim_set i n m = Some m'" and "getName m i = None" and "getId m n = None"
  shows "nim_ok m'" and "getName m' i = Some n"
proof -
  have "getName m' = (getName m)(i \<mapsto> n)" "getId m' = (getId m)(n \<mapsto> i)"
    using assms(2) by (auto simp: nim_set_def getName_def getId_def fun_eq_iff split: if_splits)
  with assms nim_ok_fresh [OF assms(1)] show "nim_ok m'" and "getName m' i = Some n"
    by (auto simp: nim_ok_def)
qed

text \<open>Both ways to forget an entry do the same to tables that agree.\<close>

lemma nim_ok_remove:
  assumes "nim_ok m"
  shows "nim_ok (removeId i m)" and "nim_ok (eraseName n m)"
    and "getName (removeId i m) i = None" and "getId (eraseName n m) n = None"
    and "getName m i = Some n \<Longrightarrow> removeId i m = eraseName n m"
proof -
  have drop: "nim_ok (m\<lparr>m_id_to_name := fmdrop j (m_id_to_name m), m_name_to_id := fmdrop k (m_name_to_id m)\<rparr>)"
    (is "nim_ok ?m") if "getName m j = Some k" for j k
  proof -
    have "getName ?m = (getName m)(j := None)" "getId ?m = (getId m)(k := None)"
      by (simp_all add: getName_def getId_def fun_eq_iff)
    moreover have "getName m j' = Some k' \<Longrightarrow> k' = k \<longleftrightarrow> j' = j" for j' k'
      using that nim_okD(1) [OF assms, of j k] nim_okD(1) [OF assms, of j' k'] by auto
    ultimately show ?thesis using assms by (auto simp: nim_ok_def)
  qed
  then show "nim_ok (removeId i m)" "nim_ok (eraseName n m)"
    using assms nim_okD(2) [OF assms]
    by (auto simp: removeId_def eraseName_def split: option.split)
  show "getName (removeId i m) i = None" "getId (eraseName n m) n = None"
    by (auto simp: removeId_def eraseName_def getName_def getId_def split: option.split)
  show "getName m i = Some n \<Longrightarrow> removeId i m = eraseName n m"
    using nim_okD(1) [OF assms, of i n] by (simp add: removeId_def eraseName_def)
qed

section \<open>Round trip\<close>

definition nim_walks :: "u16 list \<Rightarrow> NameIdMapping \<Rightarrow> bool" where
  "nim_walks ord m \<longleftrightarrow> distinct ord \<and> set ord = fset (fmdom (m_id_to_name m))"

definition nim_put :: "NameIdMapping \<Rightarrow> u16 \<Rightarrow> NameIdMapping \<Rightarrow> NameIdMapping" where
  "nim_put src i m =
     (let n = (case getName src i of None \<Rightarrow> [] | Some n \<Rightarrow> n) in
      m\<lparr>m_id_to_name := fmupd i n (m_id_to_name m), m_name_to_id := fmupd n i (m_name_to_id m)\<rparr>)"

definition nim_entry :: "NameIdMapping \<Rightarrow> u16 \<Rightarrow> bytes" where
  "nim_entry m i =
     writeU16 i @ encoded serializeString16 (case getName m i of None \<Rightarrow> [] | Some n \<Rightarrow> n)"

definition names_short :: "NameIdMapping \<Rightarrow> bool" where
  "names_short m \<longleftrightarrow> (\<forall>i n. getName m i = Some n \<longrightarrow> length n \<le> STRING_MAX_LEN)"

lemma string16_written:
  "length n \<le> STRING_MAX_LEN \<Longrightarrow> serializeString16 n = Inr (encoded serializeString16 n)"
  by (simp add: encoded_def serializeString16_def)

lemma entry_short: "names_short m \<Longrightarrow> length (case getName m i of None \<Rightarrow> [] | Some n \<Rightarrow> n) \<le> STRING_MAX_LEN"
  by (auto simp: names_short_def string_limits split: option.split)

lemma nim_serialize_entries:
  assumes "names_short m"
  shows "fold_ok (\<lambda>i out.
      bind_ok (serializeString16 (case getName m i of None \<Rightarrow> [] | Some n \<Rightarrow> n)) (\<lambda>s.
        Inr (out @ writeU16 i @ s))) ord out = Inr (out @ concat (map (nim_entry m) ord))"
  by (induction ord arbitrary: out)
    (simp_all add: string16_written [OF entry_short [OF assms]] nim_entry_def)

lemma nim_read_entries:
  assumes "names_short m"
  shows "nim_read (length ord) m0 (concat (map (nim_entry m) ord) @ r) = Inr (fold (nim_put m) ord m0, r)"
  by (induction ord arbitrary: m0)
    (simp_all add: nim_entry_def u16_codec.roundtrip string16_codec.roundtrip entry_short [OF assms]
      nim_put_def Let_def)

lemma fold_put_name:
  "fmlookup (m_id_to_name (fold (nim_put m) ord m0)) i =
     (if i \<in> set ord then Some (case getName m i of None \<Rightarrow> [] | Some n \<Rightarrow> n)
      else fmlookup (m_id_to_name m0) i)"
  by (induction ord arbitrary: m0) (auto simp: nim_put_def Let_def)

lemma fold_put_id:
  assumes "nim_ok m" and "set ord \<subseteq> fset (fmdom (m_id_to_name m))"
  shows "fmlookup (m_name_to_id (fold (nim_put m) ord m0)) n =
    (case getId m n of
       Some i \<Rightarrow> if i \<in> set ord then Some i else fmlookup (m_name_to_id m0) n
     | None \<Rightarrow> fmlookup (m_name_to_id m0) n)"
  using assms(2)
proof (induction ord arbitrary: m0)
  case (Cons j ord)
  then obtain nj where nj: "getName m j = Some nj"
    by (auto simp: getName_def fmlookup_dom_iff)
  then have j: "getId m nj = Some j" by (rule nim_okD [OF assms(1)])
  show ?case
  proof (cases "n = nj")
    case True
    with Cons nj j show ?thesis by (simp add: nim_put_def)
  next
    case False
    then have "getId m n \<noteq> Some j" using j nim_ok_inj [OF assms(1)] by blast
    with False Cons nj show ?thesis by (auto simp: nim_put_def split: option.split)
  qed
qed (simp split: option.split)

lemma nim_deSerialize_serialize:
  assumes "nim_ok m" and "names_short m" and "nim_walks ord m" and "length ord < 65536"
  obtains b where "nim_serialize ord m = Inr b"
    and "nim_deSerialize m0 (b @ r) = Inr (m0\<lparr>m_id_to_name := m_id_to_name m, m_name_to_id := m_name_to_id m\<rparr>, r)"
proof
  let ?body = "concat (map (nim_entry m) ord)"
  show "nim_serialize ord m = Inr ((writeU8 0 @ writeU16 (nim_size m)) @ ?body)"
    using nim_serialize_entries [OF assms(2)] by (simp add: nim_serialize_def)
  have dom: "set ord = fset (fmdom (m_id_to_name m))" and "distinct ord"
    using assms(3) by (simp_all add: nim_walks_def)
  have card: "fcard (fmdom (m_id_to_name m)) = length ord"
    using \<open>distinct ord\<close> by (simp add: fcard.rep_eq flip: dom distinct_card)
  define f where "f = fold (nim_put m) ord (nim_clear m0)"
  have "m_id_to_name f = m_id_to_name m"
  proof (rule fmap_ext)
    fix i
    show "fmlookup (m_id_to_name f) i = fmlookup (m_id_to_name m) i"
      unfolding f_def fold_put_name dom
      by (cases "fmlookup (m_id_to_name m) i")
        (simp_all add: fmdom_notI fmdomI getName_def nim_clear_def)
  qed
  moreover have "m_name_to_id f = m_name_to_id m"
  proof (rule fmap_ext)
    fix n
    have "i \<in> set ord" if "getId m n = Some i" for i
      using nim_okD(2) [OF assms(1) that] by (simp add: dom getName_def fmlookup_dom_iff)
    then show "fmlookup (m_name_to_id f) n = fmlookup (m_name_to_id m) n"
      using fold_put_id [OF assms(1), of ord "nim_clear m0" n] dom
      by (auto simp: f_def nim_clear_def getId_def split: option.splits)
  qed
  moreover have "NameIdMapping.more f = NameIdMapping.more m0"
    unfolding f_def
    by (rule fold_invariant_list) (simp_all add: nim_clear_def nim_put_def Let_def)
  ultimately have f: "f = m0\<lparr>m_id_to_name := m_id_to_name m, m_name_to_id := m_name_to_id m\<rparr>"
    by simp
  show "nim_deSerialize m0 (((writeU8 0 @ writeU16 (nim_size m)) @ ?body) @ r) =
      Inr (m0\<lparr>m_id_to_name := m_id_to_name m, m_name_to_id := m_name_to_id m\<rparr>, r)"
  proof -
    have "unat (nim_size m) = length ord"
      using assms(4) by (simp add: nim_size_def card unat_of_nat16)
    then show ?thesis
      using nim_read_entries [OF assms(2), of ord "nim_clear m0" r]
      by (simp add: nim_deSerialize_def u8_codec.roundtrip [simplified] u16_codec.roundtrip f flip: f_def)
  qed
qed

section \<open>Properties\<close>

text \<open>
  A mapping whose two tables agree, with names that fit their length field, comes back
  from its own bytes: both tables are as they were, whatever order the hash table was
  walked in, and what follows in the stream is left over.  (A table of all 65536 numbers
  would be written with the length 0.)
\<close>

theorem name_id_roundtrip:
  assumes "nim_ok m" and "names_short m" and "nim_walks ord m" and "length ord < 65536"
  shows "bind_ok (nim_serialize ord m) (\<lambda>b. nim_deSerialize m0 (b @ r)) =
    Inr (m0\<lparr>m_id_to_name := m_id_to_name m, m_name_to_id := m_name_to_id m\<rparr>, r)"
  by (rule nim_deSerialize_serialize [OF assms, of m0 r]) simp

theorem name_id_roundtrip_witness:
  "let m = \<lparr>m_id_to_name = fmupd 7 [97] (fmupd 9 [98] fmempty),
            m_name_to_id = fmupd [97] 7 (fmupd [98] 9 fmempty)\<rparr> in
   bind_ok (nim_serialize [9, 7] m) (\<lambda>b. nim_deSerialize new_mapping (b @ [1])) = Inr (m, [1])"
proof -
  let ?m = "\<lparr>m_id_to_name = fmupd 7 [97] (fmupd 9 [98] fmempty),
             m_name_to_id = fmupd [97] 7 (fmupd [98] 9 fmempty)\<rparr> :: NameIdMapping"
  have "nim_ok ?m" by (auto simp: nim_ok_def getName_def getId_def)
  moreover have "names_short ?m" by (auto simp: names_short_def getName_def string_limits split: if_splits)
  moreover have "nim_walks [9, 7] ?m" by (auto simp: nim_walks_def)
  ultimately show ?thesis
    using name_id_roundtrip [of ?m "[9, 7]" new_mapping "[1]"] by (simp add: new_mapping_def Let_def)
qed

end
