(* ===== verification/ItemStack.thy ===== *)
theory ItemStack
  imports Metadata NameIdMapping "HOL-Library.Multiset"
begin

text \<open>
  The item definitions (\<open>CItemDefManager\<close> of \<open>src/itemdef.cpp\<close>, the part the inventory
  uses) and \<open>ItemStack\<close> (\<open>src/inventory.h\<close>, first part of \<open>src/inventory.cpp\<close>): a name, how
  many, the wear and the metadata; adding and taking items, and the item string.
\<close>

section \<open>Item definitions\<close>

datatype ItemType = ITEM_NONE | ITEM_NODE | ITEM_CRAFT | ITEM_TOOL

record ItemDefinition =
  def_type :: ItemType
  def_name :: bytes
  def_stack_max :: u16
  def_has_tool_capabilities :: bool
  def_groups :: "(bytes, int) fmap"

definition new_ItemDefinition :: ItemDefinition where
  "new_ItemDefinition = \<lparr>def_type = ITEM_NONE, def_name = [], def_stack_max = 99,
     def_has_tool_capabilities = False, def_groups = fmempty\<rparr>"

text \<open>\<open>itemgroup_get\<close> (\<open>src/itemgroup.h\<close>).\<close>

definition itemgroup_get :: "(bytes, int) fmap \<Rightarrow> bytes \<Rightarrow> int" where
  "itemgroup_get groups name = (case fmlookup groups name of None \<Rightarrow> 0 | Some v \<Rightarrow> v)"

record CItemDefManager =
  m_item_definitions :: "(bytes, ItemDefinition) fmap"
  m_aliases :: "(bytes, bytes) fmap"

definition idm_getAlias :: "CItemDefManager \<Rightarrow> bytes \<Rightarrow> bytes" where
  "idm_getAlias m name = (case fmlookup (m_aliases m) name of Some n \<Rightarrow> n | None \<Rightarrow> name)"

text \<open>\<open>None\<close>: the assertion that \<open>unknown\<close> is defined fails.\<close>

definition idm_get :: "CItemDefManager \<Rightarrow> bytes \<Rightarrow> ItemDefinition option" where
  "idm_get m nam =
     (case fmlookup (m_item_definitions m) (idm_getAlias m nam) of
        Some d \<Rightarrow> Some d
      | None \<Rightarrow> fmlookup (m_item_definitions m) (lit ''unknown''))"

definition idm_isKnown :: "CItemDefManager \<Rightarrow> bytes \<Rightarrow> bool" where
  "idm_isKnown m nam \<longleftrightarrow> idm_getAlias m nam |\<in>| fmdom (m_item_definitions m)"

definition idm_getAll :: "CItemDefManager \<Rightarrow> bytes fset" where
  "idm_getAll m = fmdom (m_item_definitions m) |\<union>| fmdom (m_aliases m)"

definition idm_clear :: "CItemDefManager \<Rightarrow> CItemDefManager" where
  "idm_clear m =
     \<lparr>m_item_definitions =
        fmupd (lit ''ignore'') (new_ItemDefinition\<lparr>def_type := ITEM_NODE, def_name := lit ''ignore''\<rparr>)
        (fmupd (lit ''air'') (new_ItemDefinition\<lparr>def_type := ITEM_NODE, def_name := lit ''air''\<rparr>)
        (fmupd (lit ''unknown'') (new_ItemDefinition\<lparr>def_type := ITEM_NODE, def_name := lit ''unknown''\<rparr>)
        (fmupd [] (new_ItemDefinition\<lparr>def_has_tool_capabilities := True\<rparr>) fmempty))),
      m_aliases = fmempty\<rparr>"

text \<open>\<open>None\<close>: the hand would have no tool capabilities, which is fatal.\<close>

definition registerItem :: "ItemDefinition \<Rightarrow> CItemDefManager \<Rightarrow> CItemDefManager option" where
  "registerItem d m =
     (if def_name d = [] \<and> \<not> def_has_tool_capabilities d then None
      else Some (m\<lparr>m_item_definitions := fmupd (def_name d) d (m_item_definitions m),
                   m_aliases := fmdrop (def_name d) (m_aliases m)\<rparr>))"

definition unregisterItem :: "bytes \<Rightarrow> CItemDefManager \<Rightarrow> CItemDefManager" where
  "unregisterItem name m = m\<lparr>m_item_definitions := fmdrop name (m_item_definitions m)\<rparr>"

definition registerAlias :: "bytes \<Rightarrow> bytes \<Rightarrow> CItemDefManager \<Rightarrow> CItemDefManager" where
  "registerAlias name convert_to m =
     (if name |\<notin>| fmdom (m_item_definitions m)
      then m\<lparr>m_aliases := fmupd name convert_to (m_aliases m)\<rparr> else m)"

text \<open>
  What the inventory sees of the manager, the abstract class \<open>IItemDefManager\<close>.
\<close>

record IItemDefManager =
  idef_get :: "bytes \<Rightarrow> ItemDefinition"
  idef_getAlias :: "bytes \<Rightarrow> bytes"
  idef_isKnown :: "bytes \<Rightarrow> bool"

definition idm_interface :: "CItemDefManager \<Rightarrow> IItemDefManager" where
  "idm_interface m = \<lparr>idef_get = (\<lambda>n. the (idm_get m n)), idef_getAlias = idm_getAlias m,
     idef_isKnown = idm_isKnown m\<rparr>"

text \<open>
  Invariant of the manager: \<open>unknown\<close> and the hand are defined, and no alias hides a
  definition.
\<close>

definition idm_ok :: "CItemDefManager \<Rightarrow> bool" where
  "idm_ok m \<longleftrightarrow> lit ''unknown'' |\<in>| fmdom (m_item_definitions m) \<and>
     [] |\<in>| fmdom (m_item_definitions m) \<and>
     (\<forall>n. n |\<in>| fmdom (m_item_definitions m) \<longrightarrow> n |\<notin>| fmdom (m_aliases m))"

lemma idm_ok_clear [simp]: "idm_ok (idm_clear m)"
  by (simp add: idm_ok_def idm_clear_def)

lemma idm_ok_registerItem: "idm_ok m \<Longrightarrow> registerItem d m = Some m' \<Longrightarrow> idm_ok m'"
  by (auto simp: idm_ok_def registerItem_def split: if_splits)

lemma idm_ok_registerAlias: "idm_ok m \<Longrightarrow> idm_ok (registerAlias n c m)"
  by (auto simp: idm_ok_def registerAlias_def)

lemma idm_ok_unregisterItem:
  "idm_ok m \<Longrightarrow> n \<noteq> lit ''unknown'' \<Longrightarrow> n \<noteq> [] \<Longrightarrow> idm_ok (unregisterItem n m)"
  by (auto simp: idm_ok_def unregisterItem_def)

lemma idm_get_defined: "idm_ok m \<Longrightarrow> \<exists>d. idm_get m n = Some d"
  by (auto simp: idm_ok_def idm_get_def fmlookup_dom_iff split: option.split)

lemma idm_registered:
  "registerItem d m = Some m' \<Longrightarrow> idm_get m' (def_name d) = Some d \<and> idm_isKnown m' (def_name d)"
  by (auto simp: registerItem_def idm_get_def idm_getAlias_def idm_isKnown_def split: if_splits)

section \<open>Item stacks\<close>

record ItemStack =
  st_name :: bytes
  st_count :: u16
  st_wear :: u16
  st_metadata :: metadata

definition no_item :: ItemStack where
  "no_item = \<lparr>st_name = [], st_count = 0, st_wear = 0, st_metadata = new_metadata\<rparr>"

definition st_empty :: "ItemStack \<Rightarrow> bool" where
  "st_empty s \<longleftrightarrow> st_count s = 0"

definition st_clear :: "ItemStack \<Rightarrow> ItemStack" where
  "st_clear s = s\<lparr>st_name := [], st_count := 0, st_wear := 0, st_metadata := meta_clear (st_metadata s)\<rparr>"

text \<open>The constructor with a name, a count and the wear.\<close>

definition new_ItemStack :: "bytes \<Rightarrow> u16 \<Rightarrow> u16 \<Rightarrow> IItemDefManager \<Rightarrow> ItemStack" where
  "new_ItemStack name cnt wear idef =
     (let s = \<lparr>st_name = idef_getAlias idef name, st_count = cnt, st_wear = wear,
               st_metadata = new_metadata\<rparr> in
      if st_name s = [] \<or> st_count s = 0 then st_clear s
      else if def_type (idef_get idef (st_name s)) = ITEM_TOOL then s\<lparr>st_count := 1\<rparr>
      else s)"

definition st_add :: "u16 \<Rightarrow> ItemStack \<Rightarrow> ItemStack" where
  "st_add n s = s\<lparr>st_count := st_count s + n\<rparr>"

text \<open>The code asserts \<open>n \<le> st_count s\<close>; the callers are shown to keep to it.\<close>

definition st_remove :: "u16 \<Rightarrow> ItemStack \<Rightarrow> ItemStack" where
  "st_remove n s =
     (let s = s\<lparr>st_count := st_count s - n\<rparr> in if st_count s = 0 then st_clear s else s)"

definition getStackMax :: "IItemDefManager \<Rightarrow> ItemStack \<Rightarrow> u16" where
  "getStackMax idef s = def_stack_max (idef_get idef (st_name s))"

definition freeSpace :: "IItemDefManager \<Rightarrow> ItemStack \<Rightarrow> u16" where
  "freeSpace idef s =
     (let mx = getStackMax idef s in if st_count s \<ge> mx then 0 else mx - st_count s)"

definition st_isKnown :: "IItemDefManager \<Rightarrow> ItemStack \<Rightarrow> bool" where
  "st_isKnown idef s = idef_isKnown idef (st_name s)"

text \<open>\<open>operator==\<close> and \<open>stacksWith\<close>.\<close>

definition st_eq :: "ItemStack \<Rightarrow> ItemStack \<Rightarrow> bool" where
  "st_eq a b \<longleftrightarrow> st_name a = st_name b \<and> st_count a = st_count b \<and> st_wear a = st_wear b \<and>
     meta_eq (st_metadata a) (st_metadata b)"

definition stacksWith :: "ItemStack \<Rightarrow> ItemStack \<Rightarrow> bool" where
  "stacksWith a b \<longleftrightarrow> st_name a = st_name b \<and> st_wear a = st_wear b \<and>
     meta_eq (st_metadata a) (st_metadata b)"

definition addWear :: "s32 \<Rightarrow> IItemDefManager \<Rightarrow> ItemStack \<Rightarrow> bool \<times> ItemStack" where
  "addWear amount idef s =
     (if def_type (idef_get idef (st_name s)) = ITEM_TOOL
      then (True,
        if sint amount > 65535 - uint (st_wear s) then st_clear s
        else if sint amount < - uint (st_wear s) then s\<lparr>st_wear := 0\<rparr>
        else s\<lparr>st_wear := of_int (uint (st_wear s) + sint amount)\<rparr>)
      else (False, s))"

text \<open>\<open>addItem\<close>: the stack and what is left of the new item.\<close>

definition st_addItem :: "IItemDefManager \<Rightarrow> ItemStack \<Rightarrow> ItemStack \<Rightarrow> ItemStack \<times> ItemStack" where
  "st_addItem idef newitem s =
     (if st_empty newitem then (s, newitem)
      else if st_empty s then (newitem, st_clear newitem)
      else if st_name s \<noteq> st_name newitem \<or> \<not> meta_eq (st_metadata s) (st_metadata newitem)
      then (s, newitem)
      else if st_count newitem \<le> freeSpace idef s
      then (st_add (st_count newitem) s, st_clear newitem)
      else let freespace = freeSpace idef s in
        (st_add freespace s, st_remove freespace newitem))"

definition st_itemFits :: "IItemDefManager \<Rightarrow> ItemStack \<Rightarrow> ItemStack \<Rightarrow> bool \<times> ItemStack" where
  "st_itemFits idef newitem s =
     (let rest =
        (if st_empty newitem then newitem
         else if st_empty s then st_clear newitem
         else if st_name s \<noteq> st_name newitem \<or> \<not> meta_eq (st_metadata s) (st_metadata newitem)
         then newitem
         else if st_count newitem \<le> freeSpace idef s then st_clear newitem
         else st_remove (freeSpace idef s) newitem) in
      (st_empty rest, rest))"

text \<open>\<open>takeItem\<close>: the stack and what was taken.\<close>

definition st_takeItem :: "u32 \<Rightarrow> ItemStack \<Rightarrow> ItemStack \<times> ItemStack" where
  "st_takeItem takecount s =
     (if takecount = 0 \<or> st_count s = 0 then (s, no_item)
      else if takecount \<ge> ucast (st_count s) then (st_clear s, s)
      else (st_remove (ucast takecount) s, s\<lparr>st_count := ucast takecount\<rparr>))"

definition st_peekItem :: "u32 \<Rightarrow> ItemStack \<Rightarrow> ItemStack" where
  "st_peekItem peekcount s =
     (if peekcount = 0 \<or> st_count s = 0 then no_item
      else if peekcount < ucast (st_count s) then s\<lparr>st_count := ucast peekcount\<rparr> else s)"

section \<open>What a stack holds\<close>

text \<open>
  The items of a stack, each with what decides whether it may be put to others of its kind:
  the name and the metadata.  The wear is not part of it.
\<close>

type_synonym item_kind = "bytes \<times> (bytes, bytes) fmap"

definition st_kind :: "ItemStack \<Rightarrow> item_kind" where
  "st_kind s = (st_name s, m_stringvars (st_metadata s))"

definition items :: "ItemStack \<Rightarrow> item_kind multiset" where
  "items s = replicate_mset (unat (st_count s)) (st_kind s)"

lemma items_empty [simp]:
  "st_empty s \<Longrightarrow> items s = {#}" "items no_item = {#}" "items (st_clear s) = {#}"
  by (simp_all add: items_def st_empty_def no_item_def st_clear_def)

lemma st_empty_simps [simp]: "st_empty no_item" "st_empty (st_clear s)"
  by (simp_all add: st_empty_def no_item_def st_clear_def)

lemma items_empty_iff: "items s = {#} \<longleftrightarrow> st_empty s"
  by (auto simp: items_def st_empty_def unat_eq_zero)

lemma kind_eq_iff:
  "st_kind a = st_kind b \<longleftrightarrow> st_name a = st_name b \<and> meta_eq (st_metadata a) (st_metadata b)"
  by (auto simp: st_kind_def meta_eq_def)

lemma size_items: "size (items s) = unat (st_count s)"
  by (simp add: items_def)

lemma replicate_plus: "replicate_mset (m + n) x = replicate_mset m x + replicate_mset n x"
  by (induction m) simp_all

lemma items_same_kind:
  "st_kind a = st_kind b \<Longrightarrow> st_kind c = st_kind b \<Longrightarrow>
   unat (st_count a) = unat (st_count b) + unat (st_count c) \<Longrightarrow> items a = items b + items c"
  by (simp add: items_def replicate_plus)

lemma st_kind_count [simp]:
  "st_kind (s\<lparr>st_count := n\<rparr>) = st_kind s" "st_kind (st_add n s) = st_kind s"
  by (simp_all add: st_kind_def st_add_def)

lemma unat_plus16: "unat a + unat b < 65536 \<Longrightarrow> unat (a + b :: u16) = unat a + unat b"
  by (simp add: unat_word_ariths)

lemma items_add:
  "unat (st_count s) + unat n < 65536 \<Longrightarrow> items (st_add n s) = items s + replicate_mset (unat n) (st_kind s)"
  by (simp add: items_def unat_plus16 replicate_plus) (simp add: st_add_def unat_plus16 replicate_plus)

lemma items_remove:
  "n \<le> st_count s \<Longrightarrow> items (st_remove n s) + replicate_mset (unat n) (st_kind s) = items s"
proof -
  assume n: "n \<le> st_count s"
  let ?s = "s\<lparr>st_count := st_count s - n\<rparr>"
  have "items (st_remove n s) = items ?s"
    by (auto simp: st_remove_def Let_def items_def st_clear_def)
  moreover have "unat (st_count s - n) + unat n = unat (st_count s)"
    using n by (simp add: unat_sub_if' word_le_nat_alt)
  ultimately show ?thesis
    by (simp add: items_def flip: replicate_plus)
qed

lemma free_fits:
  "unat (st_count s) + unat (freeSpace idef s) < 65536"
proof (cases "st_count s \<ge> getStackMax idef s")
  case False
  then have "unat (freeSpace idef s) = unat (getStackMax idef s) - unat (st_count s)"
    by (simp add: freeSpace_def Let_def unat_sub_if' word_le_nat_alt)
  with False show ?thesis
    using unat16_lt [of "getStackMax idef s"] by (simp add: word_le_nat_alt)
qed (use unat16_lt [of "st_count s"] in \<open>simp add: freeSpace_def\<close>)

section \<open>Adding\<close>

lemma st_addItem_kind:
  "st_addItem idef newitem s =
     (if st_empty newitem then (s, newitem)
      else if st_empty s then (newitem, st_clear newitem)
      else if st_kind s \<noteq> st_kind newitem then (s, newitem)
      else if st_count newitem \<le> freeSpace idef s
      then (st_add (st_count newitem) s, st_clear newitem)
      else (st_add (freeSpace idef s) s, st_remove (freeSpace idef s) newitem))"
  by (simp add: st_addItem_def kind_eq_iff Let_def)

text \<open>Nothing appears or vanishes, and the precondition of \<open>remove\<close> holds.\<close>

lemma addItem_items:
  assumes "st_addItem idef newitem s = (s', rest)"
  shows "items s' + items rest = items s + items newitem"
proof -
  consider "st_empty newitem" | "\<not> st_empty newitem" "st_empty s"
    | "\<not> st_empty newitem" "\<not> st_empty s" "st_kind s \<noteq> st_kind newitem"
    | "\<not> st_empty newitem" "\<not> st_empty s" "st_kind s = st_kind newitem" by blast
  then show ?thesis
  proof cases
    case 4
    show ?thesis
    proof (cases "st_count newitem \<le> freeSpace idef s")
      case True
      then have "unat (st_count s) + unat (st_count newitem) < 65536"
        using free_fits [of s idef] by (simp add: word_le_nat_alt)
      with True 4 assms show ?thesis
        by (auto simp: st_addItem_kind items_add) (simp add: items_def)
    next
      case False
      then have "freeSpace idef s \<le> st_count newitem" by simp
      from items_remove [OF this] items_add [OF free_fits [of s idef]] False 4 assms
      show ?thesis
        by (auto simp: st_addItem_kind add_ac)
    qed
  qed (use assms in \<open>auto simp: st_addItem_kind\<close>)
qed

lemma itemFits_addItem: "st_itemFits idef n s = (st_empty (snd (st_addItem idef n s)), snd (st_addItem idef n s))"
  by (simp add: st_itemFits_def st_addItem_def Let_def)

lemma addItem_rest_le:
  assumes "st_addItem idef newitem s = (s', rest)"
  shows "st_count rest \<le> st_count newitem"
    and "st_empty rest \<or> st_kind rest = st_kind newitem \<and> st_wear rest = st_wear newitem"
  using assms
  by (auto simp: st_addItem_def st_remove_def st_clear_def st_empty_def Let_def word_le_nat_alt
      unat_sub_if' st_kind_def split: if_splits)

lemma addItem_max:
  assumes "st_addItem idef newitem s = (s', rest)" and "st_kind s = st_kind newitem"
    and "\<not> st_empty newitem" and "\<not> st_empty s"
  shows "unat (st_count s') =
    max (unat (st_count s)) (min (unat (st_count s) + unat (st_count newitem)) (unat (getStackMax idef s)))"
proof -
  let ?c = "unat (st_count s)" and ?n = "unat (st_count newitem)" and ?m = "unat (getStackMax idef s)"
  have f: "unat (freeSpace idef s) = ?m - ?c"
    by (auto simp: freeSpace_def Let_def unat_sub_if' word_le_nat_alt)
  have free: "?c + unat (freeSpace idef s) < 65536" by (rule free_fits)
  show ?thesis
  proof (cases "st_count newitem \<le> freeSpace idef s")
    case True
    then have "?n \<le> unat (freeSpace idef s)" by (simp add: word_le_nat_alt)
    with True assms f free show ?thesis
      by (auto simp: st_addItem_kind st_add_def unat_plus16)
  next
    case False
    then have "unat (freeSpace idef s) < ?n" by (simp add: word_le_nat_alt)
    with False assms f free show ?thesis
      by (auto simp: st_addItem_kind st_add_def unat_plus16 Let_def)
  qed
qed

section \<open>Taking\<close>

lemma takeItem_items:
  assumes "st_takeItem k s = (s', t)"
  shows "items s' + items t = items s"
    and "unat (st_count t) = min (unat k) (unat (st_count s))"
    and "\<not> st_empty t \<Longrightarrow> st_kind t = st_kind s \<and> st_wear t = st_wear s"
proof -
  have "items s' + items t = items s \<and> unat (st_count t) = min (unat k) (unat (st_count s)) \<and>
    (\<not> st_empty t \<longrightarrow> st_kind t = st_kind s \<and> st_wear t = st_wear s)"
  proof (cases "k = 0 \<or> st_count s = 0 \<or> k \<ge> ucast (st_count s)")
    case True
    with assms show ?thesis
      by (auto simp: st_takeItem_def no_item_def st_empty_def word_le_nat_alt min_def split: if_splits)
  next
    case False
    then have "unat k < unat (st_count s)" by (simp add: word_le_nat_alt)
    moreover from this have "unat (ucast k :: u16) = unat k"
      using unat16_lt [of "st_count s"] by (simp add: unsigned_ucast_eq take_bit_nat_eq_self)
    moreover from calculation have "ucast k \<le> st_count s" by (simp add: word_le_nat_alt)
    ultimately show ?thesis
      using False assms items_remove [of "ucast k" s]
      by (auto simp: st_takeItem_def st_kind_def items_def)
  qed
  then show "items s' + items t = items s" "unat (st_count t) = min (unat k) (unat (st_count s))"
    "\<not> st_empty t \<Longrightarrow> st_kind t = st_kind s \<and> st_wear t = st_wear s" by blast+
qed

section \<open>Item strings\<close>

text \<open>\<open>ord\<close>: the order in which the table of the metadata is walked.\<close>

definition st_serialize :: "(metadata \<Rightarrow> bytes list) \<Rightarrow> bool \<Rightarrow> ItemStack \<Rightarrow> bytes" where
  "st_serialize ord serialize_meta s =
     (if st_empty s then []
      else
        let parts = (if \<not> meta_empty (st_metadata s) then 4 else if st_wear s \<noteq> 0 then 3
               else if st_count s \<noteq> 1 then 2 else 1 :: nat) in
        serializeJsonStringIfNeeded (st_name s) @
        (if parts \<ge> 2 then [SPACE] @ dec (unat (st_count s)) else []) @
        (if parts \<ge> 3 then [SPACE] @ dec (unat (st_wear s)) else []) @
        (if parts \<ge> 4 then [SPACE] @
           (if serialize_meta then meta_serialize (ord (st_metadata s)) (st_metadata s)
            else lit ''<metadata size='' @ dec (meta_size (st_metadata s)) @ lit ''>'')
         else []))"

text \<open>The readers on a stream that may have ended (\<open>peek\<close> on it gives the end again).\<close>

definition read_json_if_needed :: "istream \<Rightarrow> ser_error + bytes \<times> istream" where
  "read_json_if_needed is =
     (if \<not> snd is then Inr ([], is)
      else bind_ok (deSerializeJsonStringIfNeeded (fst is)) (\<lambda>(t, r).
        Inr (t, r, r \<noteq> [] \<or> (fst is \<noteq> [] \<and> hd (fst is) = 34))))"

definition stoi_count :: "bytes \<Rightarrow> u16" where
  "stoi_count s = ucast (mystoi s)"

text \<open>
  The two oldest formats: a number of a node type and a count.  What an \<open>is >> x\<close> does not
  store is whatever the uninitialised variable holds (\<open>stale\<close>).
\<close>

definition st_read_material ::
  "bool \<Rightarrow> u16 \<Rightarrow> IItemDefManager option \<Rightarrow> bytes \<Rightarrow> istream \<Rightarrow> ser_error + ItemStack" where
  "st_read_material old stale itemdef name is =
     (let (m, is1) = extract_unsigned is;
          material = (case m of None \<Rightarrow> stale | Some (v, _) \<Rightarrow> v);
          (c, is2) = extract_unsigned is1;
          materialcount = (case c of None \<Rightarrow> stale | Some (v, _) \<Rightarrow> v);
          material = (if old \<and> material \<le> 0xff
            then content_translate_from_19_to_internal material else material) in
      if material > 0xfff then Inl (SerializationError ''Too large material number'')
      else
        let name1 = (case content_mapnode_get_name_id_mapping new_mapping of
              None \<Rightarrow> name
            | Some nimap \<Rightarrow> (case getName nimap material of None \<Rightarrow> name | Some n \<Rightarrow> n));
            name2 = (if name1 = [] then lit ''unknown_block'' else name1);
            name3 = (case itemdef of None \<Rightarrow> name2 | Some d \<Rightarrow> idef_getAlias d name2) in
        Inr (no_item\<lparr>st_name := name3, st_count := materialcount\<rparr>))"

text \<open>The formats before that of today: a name in quotes or a word, then a number.\<close>

definition st_read_quoted :: "IItemDefManager option \<Rightarrow> istream \<Rightarrow> bytes \<times> bytes" where
  "st_read_quoted itemdef is =
     (let all = fst (getline NEWLINE [] is);
          rest = snd (strfnd_next 34 all);
          (name, fnd) = (if rest \<noteq> [] then strfnd_next 34 rest else strfnd_next SPACE all);
          fnd = strfnd_skip_over [SPACE] fnd in
      (case itemdef of None \<Rightarrow> name | Some d \<Rightarrow> idef_getAlias d name, fnd))"

text \<open>The format of today, after the name: count, wear and metadata, each may be missing.\<close>

definition st_read_fields ::
  "IItemDefManager option \<Rightarrow> bytes \<Rightarrow> istream \<Rightarrow> ser_error + ItemStack" where
  "st_read_fields itemdef name is =
     (let s = no_item\<lparr>st_name := (case itemdef of None \<Rightarrow> name | Some d \<Rightarrow> idef_getAlias d name)\<rparr>;
          (count_str, is1) = getline SPACE [] is in
      if count_str = [] then Inr (s\<lparr>st_count := 1\<rparr>)
      else
        let s = s\<lparr>st_count := stoi_count count_str\<rparr>;
            (wear_str, is2) = getline SPACE [] is1 in
        if wear_str = [] then Inr s
        else
          let s = s\<lparr>st_wear := stoi_count wear_str\<rparr> in
          bind_ok (meta_deSerialize (st_metadata s) (fst is2)) (\<lambda>(m, _).
            Inr (s\<lparr>st_metadata := m\<rparr>)))"

definition st_deSerialize ::
  "u16 \<Rightarrow> IItemDefManager option \<Rightarrow> istream \<Rightarrow> ser_error + ItemStack" where
  "st_deSerialize stale itemdef is =
     bind_ok (read_json_if_needed is) (\<lambda>(name, is1).
       let (tmp, is2) = getline SPACE [] is1 in
       if tmp \<noteq> [] then Inl (SerializationError ''Unexpected text after item name'')
       else bind_ok
        (if name = lit ''MaterialItem'' then st_read_material True stale itemdef name is2
         else if name = lit ''MaterialItem2'' then st_read_material False stale itemdef name is2
         else if name = lit ''node'' \<or> name = lit ''NodeItem'' \<or> name = lit ''MaterialItem3'' \<or>
                 name = lit ''craft'' \<or> name = lit ''CraftItem''
         then
           let (name, fnd) = st_read_quoted itemdef is2;
               cnt = stoi_count (trim fnd) in
           Inr (no_item\<lparr>st_name := name, st_count := (if cnt = 0 then 1 else cnt)\<rparr>)
         else if name = lit ''MBOItem''
         then Inl (SerializationError ''MBOItem not supported anymore'')
         else if name = lit ''tool'' \<or> name = lit ''ToolItem''
         then
           let (name, fnd) = st_read_quoted itemdef is2 in
           Inr (no_item\<lparr>st_name := name, st_count := 1, st_wear := stoi_count (trim fnd)\<rparr>)
         else st_read_fields itemdef name is2)
        (\<lambda>s. Inr (if st_name s = [] \<or> st_count s = 0 then st_clear s
          else case itemdef of
              None \<Rightarrow> s
            | Some d \<Rightarrow> if def_type (idef_get d (st_name s)) = ITEM_TOOL then s\<lparr>st_count := 1\<rparr> else s)))"

definition getItemString :: "(metadata \<Rightarrow> bytes list) \<Rightarrow> bool \<Rightarrow> ItemStack \<Rightarrow> bytes" where
  "getItemString ord include_meta s = st_serialize ord include_meta s"

text \<open>
  A stack that can be written: not empty, with a name that no old format has taken, that no
  alias changes, one item of a tool, and metadata without the separators.
\<close>

definition old_formats :: "bytes list" where
  "old_formats = map lit [''MaterialItem'', ''MaterialItem2'', ''node'', ''NodeItem'',
     ''MaterialItem3'', ''craft'', ''CraftItem'', ''MBOItem'', ''tool'', ''ToolItem'']"

definition st_ok :: "IItemDefManager \<Rightarrow> (metadata \<Rightarrow> bytes list) \<Rightarrow> ItemStack \<Rightarrow> bool" where
  "st_ok idef ord s \<longleftrightarrow>
     st_empty s \<or>
     st_name s \<noteq> [] \<and> st_name s \<notin> set old_formats \<and> idef_getAlias idef (st_name s) = st_name s \<and>
     (def_type (idef_get idef (st_name s)) = ITEM_TOOL \<longrightarrow> st_count s = 1) \<and>
     item_meta_ok (st_metadata s) \<and> walks (ord (st_metadata s)) (st_metadata s)"

lemma ucast_16_32_16 [simp]: "ucast (ucast (w :: u16) :: u32) = w"
  by (rule bit_word_eqI) (auto simp: bit_simps)

lemma stoi_count_dec [simp]: "stoi_count (dec (unat (w :: u16))) = w"
  using unat16_lt [of w] by (simp add: stoi_count_def)

lemma json_named:
  assumes "r = [] \<or> hd r = SPACE" and "n \<noteq> []"
  shows "\<exists>g. read_json_if_needed (serializeJsonStringIfNeeded n @ r, True) = Inr (n, r, g) \<and>
    (r \<noteq> [] \<longrightarrow> g)"
  using json_if_needed_roundtrip [OF assms(1), of n]
  by (simp add: read_json_if_needed_def)

lemma getline_first_space [simp]: "getline SPACE old (SPACE # r, True) = ([], r, True)"
  using getline_token [of SPACE "[]"] by simp

lemma getline_Nil [simp]: "getline sep [] ([], g) = ([], [], False)"
  by (simp add: getline_def)


lemma meta_deSerialize_Nil [simp]: "meta_deSerialize m [] = Inr (m\<lparr>m_stringvars := fmempty\<rparr>, [])"
  by (simp add: meta_deSerialize_def deSerializeJsonStringIfNeeded_def)

text \<open>What follows the name, and that the fields are read back from it.\<close>

definition st_fields :: "(metadata \<Rightarrow> bytes list) \<Rightarrow> ItemStack \<Rightarrow> bytes" where
  "st_fields ord s =
     (let parts = (if \<not> meta_empty (st_metadata s) then 4 else if st_wear s \<noteq> 0 then 3
               else if st_count s \<noteq> 1 then 2 else 1 :: nat) in
      (if parts \<ge> 2 then [SPACE] @ dec (unat (st_count s)) else []) @
      (if parts \<ge> 3 then [SPACE] @ dec (unat (st_wear s)) else []) @
      (if parts \<ge> 4 then [SPACE] @ meta_serialize (ord (st_metadata s)) (st_metadata s) else []))"

definition st_plain :: "ItemStack \<Rightarrow> ItemStack" where
  "st_plain s = s\<lparr>st_metadata := (st_metadata s)\<lparr>m_modified := False\<rparr>\<rparr>"

lemma st_plain_eq: "st_eq (st_plain s) s" "items (st_plain s) = items s"
  by (simp_all add: st_eq_def st_plain_def meta_eq_def items_def st_kind_def)

lemma st_serialize_fields:
  "\<not> st_empty s \<Longrightarrow> st_serialize ord True s = serializeJsonStringIfNeeded (st_name s) @ st_fields ord s"
  by (simp add: st_serialize_def st_fields_def Let_def)

lemma st_fields_first: "st_fields ord s = [] \<or> hd (st_fields ord s) = SPACE"
  by (auto simp: st_fields_def Let_def)

lemma st_fields_read:
  assumes "st_ok idef ord s" and "\<not> st_empty s" and that: "st_fields ord s \<noteq> [] \<Longrightarrow> g"
  shows "st_read_fields (Some idef) (st_name s) (snd (getline SPACE [] (st_fields ord s, g))) =
    Inr (st_plain s)"
proof -
  have al: "idef_getAlias idef (st_name s) = st_name s"
    and m: "item_meta_ok (st_metadata s)" "walks (ord (st_metadata s)) (st_metadata s)"
    using assms by (auto simp: st_ok_def)
  consider (meta) "\<not> meta_empty (st_metadata s)"
    | (wear) "meta_empty (st_metadata s)" "st_wear s \<noteq> 0"
    | (count) "meta_empty (st_metadata s)" "st_wear s = 0" "st_count s \<noteq> 1"
    | (one) "meta_empty (st_metadata s)" "st_wear s = 0" "st_count s = 1" by blast
  then show ?thesis
  proof cases
    case meta
    then have f: "st_fields ord s = SPACE # dec (unat (st_count s)) @ SPACE # dec (unat (st_wear s)) @
        SPACE # meta_serialize (ord (st_metadata s)) (st_metadata s)"
      by (simp add: st_fields_def)
    then have g using that by simp
    then show ?thesis
      using meta_roundtrip [OF m, of "[]" new_metadata]
      by (simp add: f st_read_fields_def al no_item_def new_metadata_def st_plain_def)
  next
    case wear
    then have f: "st_fields ord s = SPACE # dec (unat (st_count s)) @ SPACE # dec (unat (st_wear s))"
      by (simp add: st_fields_def)
    then have g using that by simp
    with wear show ?thesis
      by (simp add: f st_read_fields_def al no_item_def new_metadata_def st_plain_def meta_empty_def)
  next
    case count
    then have f: "st_fields ord s = SPACE # dec (unat (st_count s))"
      by (simp add: st_fields_def)
    then have g using that by simp
    with count show ?thesis
      by (simp add: f st_read_fields_def al no_item_def new_metadata_def st_plain_def meta_empty_def)
  next
    case one
    then have f: "st_fields ord s = []" by (simp add: st_fields_def)
    from one show ?thesis
      by (simp add: f st_read_fields_def al no_item_def new_metadata_def st_plain_def meta_empty_def)
  qed
qed

lemma st_roundtrip:
  assumes "st_ok idef ord s" and "\<not> st_empty s"
  shows "st_deSerialize stale (Some idef) (st_serialize ord True s, True) = Inr (st_plain s)"
proof -
  let ?f = "st_fields ord s"
  have n: "st_name s \<noteq> []" "st_name s \<notin> set old_formats"
    and tool: "def_type (idef_get idef (st_name s)) = ITEM_TOOL \<longrightarrow> st_count s = 1"
    using assms by (auto simp: st_ok_def)
  obtain g where g: "read_json_if_needed (st_serialize ord True s, True) = Inr (st_name s, ?f, g)"
      "?f \<noteq> [] \<longrightarrow> g"
    using json_named [OF st_fields_first n(1)] by (auto simp: st_serialize_fields [OF assms(2)])
  have tmp: "fst (getline SPACE [] (?f, g)) = []"
    using st_fields_first [of ord s] g(2) by (cases ?f) (auto simp: getline_def)
  have f: "st_read_fields (Some idef) (st_name s) (snd (getline SPACE [] (?f, g))) = Inr (st_plain s)"
    using st_fields_read [OF assms] g(2) by blast
  have "st_count s \<noteq> 0" using assms(2) by (simp add: st_empty_def)
  with n tool f tmp g(1) show ?thesis
    by (auto simp: st_deSerialize_def old_formats_def case_prod_beta Let_def st_plain_def)
qed

end
