(* ===== verification/InventoryList.thy ===== *)
theory InventoryList
  imports ItemStack
begin

text \<open>
  \<open>InventoryList\<close> (\<open>src/inventory.h\<close>, \<open>src/inventory.cpp\<close>): the slots of one list of an
  inventory, adding, searching and removing items, and moving them from one list to another,
  which may be the same.  The lists that a move refers to are looked up in a store, so that
  the two references may be equal.  A slot number is the value of the \<open>u32\<close> of the code.
\<close>

section \<open>State and simple operations\<close>

record InventoryList =
  il_items :: "ItemStack list"
  il_name :: bytes
  il_size :: u32
  il_width :: u32
  il_dirty :: bool
  il_resize_locks :: int

text \<open>What leaves an operation on inventories as an exception.\<close>

datatype inv_error = BaseException string | InvSerializationError ser_error

definition il_setModified :: "bool \<Rightarrow> InventoryList \<Rightarrow> InventoryList" where
  "il_setModified dirty l = l\<lparr>il_dirty := dirty\<rparr>"

definition il_clearItems :: "InventoryList \<Rightarrow> InventoryList" where
  "il_clearItems l = il_setModified True (l\<lparr>il_items := replicate (unat (il_size l)) no_item\<rparr>)"

definition new_InventoryList :: "bytes \<Rightarrow> u32 \<Rightarrow> InventoryList" where
  "new_InventoryList name sz =
     il_clearItems \<lparr>il_items = [], il_name = name, il_size = sz, il_width = 0, il_dirty = True,
       il_resize_locks = 0\<rparr>"

definition checkResizeLock :: "InventoryList \<Rightarrow> inv_error + unit" where
  "checkResizeLock l =
     (if il_resize_locks l = 0 then Inr ()
      else Inl (BaseException ''is currently in use and cannot be deleted or resized.''))"

definition resizeLock :: "InventoryList \<Rightarrow> InventoryList" where
  "resizeLock l = l\<lparr>il_resize_locks := il_resize_locks l + 1\<rparr>"

definition resizeUnlock :: "InventoryList \<Rightarrow> InventoryList" where
  "resizeUnlock l = l\<lparr>il_resize_locks := il_resize_locks l - 1\<rparr>"

definition il_setSize :: "u32 \<Rightarrow> InventoryList \<Rightarrow> inv_error + InventoryList" where
  "il_setSize newsize l =
     (let n = unat newsize in
      if n = length (il_items l) then Inr l
      else bind_ok (if n < length (il_items l) then checkResizeLock l else Inr ()) (\<lambda>_.
        Inr (il_setModified True
          (l\<lparr>il_items := take n (il_items l) @ replicate (n - length (il_items l)) no_item,
             il_size := newsize\<rparr>))))"

definition il_setWidth :: "u32 \<Rightarrow> InventoryList \<Rightarrow> InventoryList" where
  "il_setWidth newwidth l = il_setModified True (l\<lparr>il_width := newwidth\<rparr>)"

definition il_setName :: "bytes \<Rightarrow> InventoryList \<Rightarrow> InventoryList" where
  "il_setName name l = il_setModified True (l\<lparr>il_name := name\<rparr>)"

text \<open>\<open>operator=\<close>: everything but the dirty flag and the locks.\<close>

definition il_assign :: "InventoryList \<Rightarrow> InventoryList \<Rightarrow> inv_error + InventoryList" where
  "il_assign other l =
     bind_ok (checkResizeLock l) (\<lambda>_.
       Inr (l\<lparr>il_items := il_items other, il_size := il_size other, il_width := il_width other,
              il_name := il_name other\<rparr>))"

definition il_eq :: "InventoryList \<Rightarrow> InventoryList \<Rightarrow> bool" where
  "il_eq a b \<longleftrightarrow> il_size a = il_size b \<and> il_width a = il_width b \<and> il_name a = il_name b \<and>
     list_all2 st_eq (il_items a) (il_items b)"

definition getUsedSlots :: "InventoryList \<Rightarrow> nat" where
  "getUsedSlots l = length (filter (\<lambda>s. \<not> st_empty s) (il_items l))"

text \<open>Both give back what was in the slot before; a slot that is not there takes nothing.\<close>

definition il_changeItem :: "nat \<Rightarrow> ItemStack \<Rightarrow> InventoryList \<Rightarrow> InventoryList \<times> ItemStack" where
  "il_changeItem i newitem l =
     (if i \<ge> length (il_items l) then (l, newitem)
      else
        let olditem = il_items l ! i in
        (if \<not> st_eq olditem newitem
         then il_setModified True (l\<lparr>il_items := (il_items l)[i := newitem]\<rparr>) else l,
         olditem))"

text \<open>\<open>None\<close>: the assertion that the slot is there fails.\<close>

definition il_getItem :: "nat \<Rightarrow> InventoryList \<Rightarrow> ItemStack option" where
  "il_getItem i l = (if i < length (il_items l) then Some (il_items l ! i) else None)"

definition il_deleteItem :: "nat \<Rightarrow> InventoryList \<Rightarrow> InventoryList option" where
  "il_deleteItem i l =
     (if i < length (il_items l)
      then Some (il_setModified True (l\<lparr>il_items := (il_items l)[i := st_clear (il_items l ! i)]\<rparr>))
      else None)"

section \<open>Adding\<close>

text \<open>Into one slot: the list and what is left.\<close>

definition il_addItem_at ::
  "IItemDefManager \<Rightarrow> nat \<Rightarrow> ItemStack \<Rightarrow> InventoryList \<Rightarrow> InventoryList \<times> ItemStack" where
  "il_addItem_at idef i newitem l =
     (if i \<ge> length (il_items l) then (l, newitem)
      else
        let (s, leftover) = st_addItem idef newitem (il_items l ! i);
            l = l\<lparr>il_items := (il_items l)[i := s]\<rparr> in
        (if \<not> st_eq leftover newitem then il_setModified True l else l, leftover))"

text \<open>A loop over slots, which skips those that \<open>skip\<close> names and stops when all is eaten.\<close>

fun il_add_loop ::
  "IItemDefManager \<Rightarrow> (ItemStack \<Rightarrow> bool) \<Rightarrow> nat list \<Rightarrow> ItemStack \<Rightarrow> InventoryList \<Rightarrow>
   InventoryList \<times> ItemStack" where
  "il_add_loop idef skip [] newitem l = (l, newitem)"
| "il_add_loop idef skip (i # is) newitem l =
     (if skip (il_items l ! i) then il_add_loop idef skip is newitem l
      else
        let (l, newitem) = il_addItem_at idef i newitem l in
        if st_empty newitem then (l, newitem) else il_add_loop idef skip is newitem l)"

definition il_addItem ::
  "IItemDefManager \<Rightarrow> ItemStack \<Rightarrow> InventoryList \<Rightarrow> InventoryList \<times> ItemStack" where
  "il_addItem idef newitem l =
     (if st_empty newitem then (l, newitem)
      else
        let slots = [0..<length (il_items l)];
            (l, newitem) = il_add_loop idef st_empty slots newitem l in
        if st_empty newitem then (l, newitem)
        else il_add_loop idef (\<lambda>s. \<not> st_empty s) slots newitem l)"

definition il_itemFits ::
  "IItemDefManager \<Rightarrow> nat \<Rightarrow> ItemStack \<Rightarrow> InventoryList \<Rightarrow> bool \<times> ItemStack" where
  "il_itemFits idef i newitem l =
     (if i \<ge> length (il_items l) then (False, newitem)
      else st_itemFits idef newitem (il_items l ! i))"

fun il_room_loop :: "IItemDefManager \<Rightarrow> nat list \<Rightarrow> ItemStack \<Rightarrow> InventoryList \<Rightarrow> bool" where
  "il_room_loop idef [] item l = False"
| "il_room_loop idef (i # is) item l =
     (let (fits, leftover) = il_itemFits idef i item l in
      fits \<or> il_room_loop idef is leftover l)"

definition roomForItem :: "IItemDefManager \<Rightarrow> ItemStack \<Rightarrow> InventoryList \<Rightarrow> bool" where
  "roomForItem idef item l = il_room_loop idef [0..<length (il_items l)] item l"

section \<open>Searching and removing\<close>

definition il_matches :: "bool \<Rightarrow> ItemStack \<Rightarrow> ItemStack \<Rightarrow> bool" where
  "il_matches match_meta item s \<longleftrightarrow>
     st_name s = st_name item \<and> (\<not> match_meta \<or> meta_eq (st_metadata s) (st_metadata item))"

text \<open>The slots from the last to the first; \<open>cnt\<close> are still to be found.\<close>

fun il_contains_loop :: "(ItemStack \<Rightarrow> bool) \<Rightarrow> u32 \<Rightarrow> ItemStack list \<Rightarrow> bool" where
  "il_contains_loop ok cnt [] = False"
| "il_contains_loop ok cnt (s # ss) =
     (if cnt = 0 then False
      else if ok s
      then if ucast (st_count s) \<ge> cnt then True
        else il_contains_loop ok (cnt - ucast (st_count s)) ss
      else il_contains_loop ok cnt ss)"

definition containsItem :: "ItemStack \<Rightarrow> bool \<Rightarrow> InventoryList \<Rightarrow> bool" where
  "containsItem item match_meta l \<longleftrightarrow>
     st_count item = 0 \<or>
     il_contains_loop (il_matches match_meta item) (ucast (st_count item)) (rev (il_items l))"

fun il_remove_loop ::
  "IItemDefManager \<Rightarrow> (ItemStack \<Rightarrow> bool) \<Rightarrow> u16 \<Rightarrow> ItemStack \<Rightarrow> ItemStack list \<Rightarrow>
   ItemStack list \<times> ItemStack" where
  "il_remove_loop idef ok wanted removed [] = ([], removed)"
| "il_remove_loop idef ok wanted removed (s # ss) =
     (if ok s
      then
        let still_to_remove = ucast wanted - ucast (st_count removed);
            (s, taken) = st_takeItem still_to_remove s;
            (removed, leftover) = st_addItem idef taken removed;
            removed = removed\<lparr>st_count := st_count removed + st_count leftover\<rparr> in
        if st_count removed = wanted then (s # ss, removed)
        else let (ss, removed) = il_remove_loop idef ok wanted removed ss in (s # ss, removed)
      else let (ss, removed) = il_remove_loop idef ok wanted removed ss in (s # ss, removed))"

definition removeItem ::
  "IItemDefManager \<Rightarrow> ItemStack \<Rightarrow> bool \<Rightarrow> InventoryList \<Rightarrow> InventoryList \<times> ItemStack" where
  "removeItem idef item match_meta l =
     (let (ss, removed) = il_remove_loop idef (il_matches match_meta item) (st_count item) no_item
            (rev (il_items l));
          l = l\<lparr>il_items := rev ss\<rparr> in
      (if \<not> st_empty removed then il_setModified True l else l, removed))"

definition il_takeItem :: "nat \<Rightarrow> u32 \<Rightarrow> InventoryList \<Rightarrow> InventoryList \<times> ItemStack" where
  "il_takeItem i takecount l =
     (if i \<ge> length (il_items l) then (l, no_item)
      else
        let (s, taken) = st_takeItem takecount (il_items l ! i);
            l = l\<lparr>il_items := (il_items l)[i := s]\<rparr> in
        (if \<not> st_empty taken then il_setModified True l else l, taken))"

section \<open>Moving\<close>

text \<open>
  \<open>this\<close> and \<open>dest\<close> are references into the store.  The slot that leftovers go back to is
  there, because something came out of it.
\<close>

type_synonym 'r store = "'r \<Rightarrow> InventoryList"

definition on_list :: "'r \<Rightarrow> (InventoryList \<Rightarrow> InventoryList \<times> 'a) \<Rightarrow> 'r store \<Rightarrow> 'r store \<times> 'a" where
  "on_list r f st = (let (l, a) = f (st r) in (st(r := l), a))"

definition moveItemSomewhere ::
  "IItemDefManager \<Rightarrow> 'r \<Rightarrow> nat \<Rightarrow> 'r \<Rightarrow> u32 \<Rightarrow> 'r store \<Rightarrow> 'r store" where
  "moveItemSomewhere idef this i dest cnt st =
     (let (st, item1) = on_list this
            (if cnt = 0 then il_changeItem i no_item else il_takeItem i cnt) st in
      if st_empty item1 then st
      else
        let (st, leftover) = on_list dest (il_addItem idef item1) st in
        if st_empty leftover then st
        else
          let leftover = st_add (st_count (il_items (st this) ! i)) leftover in
          fst (on_list this (il_changeItem i leftover) st))"

definition moveItem ::
  "IItemDefManager \<Rightarrow> 'r \<Rightarrow> nat \<Rightarrow> 'r \<Rightarrow> nat \<Rightarrow> u32 \<Rightarrow> bool \<Rightarrow> 'r store \<Rightarrow> 'r store \<times> ItemStack \<times> bool" where
  "moveItem idef this i dest dest_i cnt swap_if_needed st =
     (if this = dest \<and> i = dest_i then (st, no_item, False)
      else
        let (st, moved) = on_list this
              (if cnt = 0 then il_changeItem i no_item else il_takeItem i cnt) st;
            (st, leftover) = on_list dest (il_addItem_at idef dest_i moved) st in
        if st_empty leftover then (st, moved, False)
        else
          let moved = st_remove (st_count leftover) moved;
              leftover = st_add (st_count (il_items (st this) ! i)) leftover;
              (st, _) = on_list this (il_changeItem i leftover) st in
          if st_empty moved \<and> swap_if_needed
          then
            let (st, moved) = on_list this (il_changeItem i no_item) st;
                (st, item2) = on_list dest (il_changeItem dest_i moved) st;
                (st, _) = on_list this (il_changeItem i item2) st in
            (st, moved, True)
          else (st, moved, False))"

section \<open>What a list holds\<close>

definition il_content :: "InventoryList \<Rightarrow> item_kind multiset" where
  "il_content l = sum_list (map items (il_items l))"

text \<open>The list has as many slots as its size field says.\<close>

definition il_ok :: "InventoryList \<Rightarrow> bool" where
  "il_ok l \<longleftrightarrow> length (il_items l) = unat (il_size l)"

lemma il_ok_new [simp]: "il_ok (new_InventoryList n sz)" "il_ok l \<Longrightarrow> il_ok (il_clearItems l)"
  by (simp_all add: il_ok_def new_InventoryList_def il_clearItems_def il_setModified_def)

lemma il_ok_setSize: "il_setSize n l = Inr l' \<Longrightarrow> il_ok l \<Longrightarrow> il_ok l'"
  by (auto simp: il_ok_def il_setSize_def il_setModified_def Let_def bind_ok_Inr split: if_splits)

lemma content_update:
  assumes "i < length xs"
  shows "sum_list (map items (xs[i := s])) + items (xs ! i) = sum_list (map items xs) + items s"
  using assms
proof (induction xs arbitrary: i)
  case (Cons x xs)
  then show ?case by (cases i) (simp_all add: ac_simps)
qed simp

lemma exchange_items:
  fixes A :: "item_kind multiset"
  assumes "A + x = B + s" and "s + r = x + n"
  shows "A + r = B + n"
proof -
  have "(A + x) + (s + r) = (B + s) + (x + n)" using assms by simp
  then have "(A + r) + (x + s) = (B + n) + (x + s)" by (simp add: ac_simps)
  then show ?thesis by simp
qed

text \<open>What every operation leaves alone, and that a slot changes by what goes in and out.\<close>

definition same_frame :: "InventoryList \<Rightarrow> InventoryList \<Rightarrow> bool" where
  "same_frame l l' \<longleftrightarrow> length (il_items l') = length (il_items l) \<and> il_name l' = il_name l \<and>
     il_size l' = il_size l \<and> il_width l' = il_width l \<and> il_resize_locks l' = il_resize_locks l"

lemma same_frame_refl [simp]: "same_frame l l"
  by (simp add: same_frame_def)

lemma same_frame_trans [trans]: "same_frame a b \<Longrightarrow> same_frame b c \<Longrightarrow> same_frame a c"
  by (simp add: same_frame_def)

lemma il_ok_frame: "same_frame l l' \<Longrightarrow> il_ok l \<Longrightarrow> il_ok l'"
  by (simp add: same_frame_def il_ok_def)

lemma il_setModified_simps [simp]:
  "il_items (il_setModified d l) = il_items l" "il_content (il_setModified d l) = il_content l"
  "same_frame l (il_setModified d l)" "il_content (l\<lparr>il_dirty := d\<rparr>) = il_content l"
  by (simp_all add: il_setModified_def il_content_def same_frame_def)

lemma changeItem_items:
  assumes "il_changeItem i s l = (l', old)"
  shows "il_content l' + items old = il_content l + items s" and "same_frame l l'"
proof -
  have "items a = items b" if "st_eq a b" for a b
    using that by (simp add: st_eq_def items_def st_kind_def meta_eq_def)
  then show "il_content l' + items old = il_content l + items s"
    using assms content_update [of i "il_items l" s]
    by (auto simp: il_changeItem_def Let_def il_content_def il_setModified_def split: if_splits)
  show "same_frame l l'"
    using assms by (auto simp: il_changeItem_def Let_def il_setModified_def same_frame_def split: if_splits)
qed

lemma takeItem_list_items:
  assumes "il_takeItem i k l = (l', t)"
  shows "il_content l' + items t = il_content l" and "same_frame l l'"
proof -
  show "same_frame l l'"
    using assms
    by (auto simp: il_takeItem_def case_prod_beta Let_def il_setModified_def same_frame_def split: if_splits)
  show "il_content l' + items t = il_content l"
  proof (cases "i < length (il_items l)")
    case True
    obtain s where s: "st_takeItem k (il_items l ! i) = (s, t)"
      and l': "il_items l' = (il_items l)[i := s]"
      using assms True
      by (cases "st_takeItem k (il_items l ! i)")
        (auto simp: il_takeItem_def Let_def il_setModified_def split: if_splits)
    have "il_content l' + items (il_items l ! i) = il_content l + items s"
      using content_update [OF True, of s] by (simp add: il_content_def l')
    from exchange_items [OF this, of "items t" "{#}"] takeItem_items(1) [OF s] show ?thesis
      by simp
  next
    case False
    with assms show ?thesis by (auto simp: il_takeItem_def)
  qed
qed

lemma addItem_at_items:
  assumes "il_addItem_at idef i n l = (l', rest)"
  shows "il_content l' + items rest = il_content l + items n" and "same_frame l l'"
proof -
  show "same_frame l l'"
    using assms
    by (auto simp: il_addItem_at_def case_prod_beta Let_def il_setModified_def same_frame_def split: if_splits)
  show "il_content l' + items rest = il_content l + items n"
  proof (cases "i < length (il_items l)")
    case True
    obtain s where s: "st_addItem idef n (il_items l ! i) = (s, rest)"
      and l': "il_items l' = (il_items l)[i := s]"
      using assms True
      by (cases "st_addItem idef n (il_items l ! i)")
        (auto simp: il_addItem_at_def Let_def il_setModified_def split: if_splits)
    have "il_content l' + items (il_items l ! i) = il_content l + items s"
      using content_update [OF True, of s] by (simp add: il_content_def l')
    from exchange_items [OF this addItem_items [OF s]] show ?thesis
      by simp
  next
    case False
    with assms show ?thesis by (auto simp: il_addItem_at_def)
  qed
qed

lemma add_loop_items:
  "il_add_loop idef skip is n l = (l', rest) \<Longrightarrow>
   il_content l' + items rest = il_content l + items n \<and> same_frame l l'"
proof (induction "is" arbitrary: n l)
  case (Cons i "is")
  show ?case
  proof (cases "skip (il_items l ! i)")
    case True
    with Cons show ?thesis by simp
  next
    case False
    obtain l1 n1 where 1: "il_addItem_at idef i n l = (l1, n1)" by fastforce
    note step = addItem_at_items [OF 1]
    show ?thesis
    proof (cases "st_empty n1")
      case True
      with False 1 Cons.prems step show ?thesis by simp
    next
      case nonempty: False
      with False 1 Cons.prems have "il_add_loop idef skip is n1 l1 = (l', rest)" by simp
      from Cons.IH [OF this] step show ?thesis by (metis same_frame_trans)
    qed
  qed
qed simp

lemma addItem_list_items:
  assumes "il_addItem idef n l = (l', rest)"
  shows "il_content l' + items rest = il_content l + items n" and "same_frame l l'"
proof -
  have "il_content l' + items rest = il_content l + items n \<and> same_frame l l'"
  proof (cases "st_empty n")
    case True
    with assms show ?thesis by (simp add: il_addItem_def)
  next
    case False
    obtain l1 n1 where 1: "il_add_loop idef st_empty [0..<length (il_items l)] n l = (l1, n1)" by fastforce
    note step = add_loop_items [OF 1]
    show ?thesis
    proof (cases "st_empty n1")
      case True
      with False 1 assms step show ?thesis by (simp add: il_addItem_def)
    next
      case nonempty: False
      with False 1 assms have
        "il_add_loop idef (\<lambda>s. \<not> st_empty s) [0..<length (il_items l)] n1 l1 = (l', rest)"
        by (simp add: il_addItem_def)
      from add_loop_items [OF this] step show ?thesis by (metis same_frame_trans)
    qed
  qed
  then show "il_content l' + items rest = il_content l + items n" and "same_frame l l'" by simp_all
qed

section \<open>Moving loses nothing\<close>

definition store_content :: "'r set \<Rightarrow> 'r store \<Rightarrow> item_kind multiset" where
  "store_content R st = (\<Sum>r\<in>R. il_content (st r))"

lemma store_update:
  assumes "finite R" and "r \<in> R" and "il_content l + X = il_content (st r) + Y"
  shows "store_content R (st(r := l)) + X = store_content R st + Y"
proof -
  have 1: "(\<Sum>q\<in>R - {r}. il_content ((st(r := l)) q)) = (\<Sum>q\<in>R - {r}. il_content (st q))"
    by (rule sum.cong) auto
  then show ?thesis
    using assms by (simp add: store_content_def sum.remove [of R r] ac_simps)
qed

lemma on_listD:
  "on_list r f st = (st', a) \<Longrightarrow> \<exists>l'. f (st r) = (l', a) \<and> st' = st(r := l')"
  by (cases "f (st r)") (auto simp: on_list_def)

text \<open>One step on a list of the store: its content, its frame, and the other lists.\<close>

definition store_step :: "'r set \<Rightarrow> 'r \<Rightarrow> 'r store \<Rightarrow> item_kind multiset \<Rightarrow> 'r store \<Rightarrow> item_kind multiset \<Rightarrow> bool" where
  "store_step R r st X st' Y \<longleftrightarrow>
     store_content R st' + X = store_content R st + Y \<and> (\<forall>q. same_frame (st q) (st' q)) \<and>
     (\<forall>q. q \<noteq> r \<longrightarrow> st' q = st q)"

lemma on_list_step:
  assumes "finite R" and "r \<in> R" and "on_list r f st = (st', a)"
    and "\<And>l'. f (st r) = (l', a) \<Longrightarrow>
      il_content l' + X = il_content (st r) + Y \<and> same_frame (st r) l'"
  shows "store_step R r st X st' Y"
proof -
  obtain l' where l': "f (st r) = (l', a)" and st': "st' = st(r := l')"
    using on_listD [OF assms(3)] by blast
  from assms(4) [OF l'] store_update [OF assms(1,2), of l' X st Y] show ?thesis
    by (simp add: store_step_def st')
qed

definition slot :: "'r store \<Rightarrow> 'r \<Rightarrow> nat \<Rightarrow> ItemStack" where
  "slot st r i = il_items (st r) ! i"

text \<open>What is taken out of a slot for a move, and what stays.\<close>

lemma take_for_move:
  assumes "on_list this (if cnt = 0 then il_changeItem i no_item else il_takeItem i cnt) st = (st', moved)"
    and "finite R" and "this \<in> R"
  shows "store_step R this st (items moved) st' {#}"
    and "\<not> st_empty moved \<Longrightarrow> i < length (il_items (st this)) \<and>
      (st_empty (slot st' this i) \<or> st_kind (slot st' this i) = st_kind moved) \<and>
      unat (st_count (slot st' this i)) + unat (st_count moved) = unat (st_count (slot st this i)) \<and>
      unat (st_count moved) = (if cnt = 0 then unat (st_count (slot st this i))
        else min (unat cnt) (unat (st_count (slot st this i)))) \<and>
      st_kind moved = st_kind (slot st this i)"
proof -
  let ?f = "if cnt = 0 then il_changeItem i no_item else il_takeItem i cnt"
  show "store_step R this st (items moved) st' {#}"
  proof (rule on_list_step [OF assms(2,3,1)])
    fix l' assume "?f (st this) = (l', moved)"
    then show "il_content l' + items moved = il_content (st this) + {#} \<and> same_frame (st this) l'"
      using changeItem_items [of i no_item "st this" l' moved] takeItem_list_items [of i cnt "st this" l' moved]
      by (auto split: if_splits)
  qed
  assume ne: "\<not> st_empty moved"
  obtain l' where l': "?f (st this) = (l', moved)" and st': "st' = st(this := l')"
    using on_listD [OF assms(1)] by blast
  show "i < length (il_items (st this)) \<and>
      (st_empty (slot st' this i) \<or> st_kind (slot st' this i) = st_kind moved) \<and>
      unat (st_count (slot st' this i)) + unat (st_count moved) = unat (st_count (slot st this i)) \<and>
      unat (st_count moved) = (if cnt = 0 then unat (st_count (slot st this i))
        else min (unat cnt) (unat (st_count (slot st this i)))) \<and>
      st_kind moved = st_kind (slot st this i)"
  proof (cases "cnt = 0")
    case True
    with l' have c: "il_changeItem i no_item (st this) = (l', moved)" by simp
    with ne have i: "i < length (il_items (st this))" and m: "moved = slot st this i"
      by (auto simp: il_changeItem_def Let_def slot_def split: if_splits)
    moreover from ne m have "\<not> st_eq (slot st this i) no_item"
      by (auto simp: st_eq_def st_empty_def no_item_def)
    ultimately have "slot st' this i = no_item"
      using c by (auto simp: il_changeItem_def Let_def slot_def st' il_setModified_def)
    with i m True show ?thesis by (simp add: no_item_def st_empty_def)
  next
    case False
    with l' have c: "il_takeItem i cnt (st this) = (l', moved)" by simp
    with ne have i: "i < length (il_items (st this))"
      by (auto simp: il_takeItem_def split: if_splits)
    obtain s where s: "st_takeItem cnt (slot st this i) = (s, moved)" "slot st' this i = s"
      using c i by (cases "st_takeItem cnt (il_items (st this) ! i)")
        (auto simp: il_takeItem_def Let_def il_setModified_def slot_def st' split: if_splits)
    have k: "st_kind moved = st_kind (slot st this i)" using takeItem_items(3) [OF s(1) ne] by simp
    have sum: "items s + items moved = items (slot st this i)" by (rule takeItem_items(1) [OF s(1)])
    then have "size (items s) + size (items moved) = size (items (slot st this i))"
      by (metis size_union)
    then have "unat (st_count s) + unat (st_count moved) = unat (st_count (slot st this i))"
      by (simp add: size_items)
    moreover have "st_empty s \<or> st_kind s = st_kind moved"
    proof (cases "st_empty s")
      case False
      then have "st_kind s \<in># items s"
        by (simp add: items_def st_empty_def unat_eq_zero)
      then have "st_kind s \<in># items (slot st this i)" by (simp flip: sum)
      with k show ?thesis by (simp add: items_def split: if_splits)
    qed simp
    ultimately show ?thesis using i s k False takeItem_items(2) [OF s(1)] by simp
  qed
qed

lemma add_for_move:
  assumes "on_list dest (il_addItem_at idef dest_i moved) st = (st', leftover)"
    and "finite R" and "dest \<in> R"
  shows "store_step R dest st (items leftover) st' (items moved)"
    and "st_count leftover \<le> st_count moved"
    and "st_empty leftover \<or> st_kind leftover = st_kind moved"
    and "\<And>q i. q \<noteq> dest \<or> i \<noteq> dest_i \<Longrightarrow> slot st' q i = slot st q i"
proof -
  obtain l' where l': "il_addItem_at idef dest_i moved (st dest) = (l', leftover)" and st': "st' = st(dest := l')"
    using on_listD [OF assms(1)] by blast
  show "store_step R dest st (items leftover) st' (items moved)"
    by (rule on_list_step [OF assms(2,3,1)]) (use addItem_at_items in blast)
  have "st_count leftover \<le> st_count moved \<and> (st_empty leftover \<or> st_kind leftover = st_kind moved)"
  proof (cases "dest_i < length (il_items (st dest))")
    case True
    then obtain s where "st_addItem idef moved (slot st dest dest_i) = (s, leftover)"
      using l' by (cases "st_addItem idef moved (il_items (st dest) ! dest_i)")
        (auto simp: il_addItem_at_def Let_def slot_def split: if_splits)
    from addItem_rest_le [OF this] show ?thesis by blast
  next
    case False
    with l' show ?thesis by (simp add: il_addItem_at_def)
  qed
  then show "st_count leftover \<le> st_count moved" "st_empty leftover \<or> st_kind leftover = st_kind moved"
    by simp_all
  show "slot st' q i = slot st q i" if "q \<noteq> dest \<or> i \<noteq> dest_i" for q i
    using that l' by (auto simp: st' slot_def il_addItem_at_def case_prod_beta Let_def il_setModified_def split: if_splits)
qed

lemma change_for_move:
  assumes "on_list r (il_changeItem i s) st = (st', old)" and "finite R" and "r \<in> R"
  shows "store_step R r st (items old) st' (items s)"
    and "i < length (il_items (st r)) \<Longrightarrow> old = slot st r i \<and> st_eq (slot st' r i) s"
    and "\<And>q j. q \<noteq> r \<or> j \<noteq> i \<Longrightarrow> slot st' q j = slot st q j"
proof -
  obtain l' where l': "il_changeItem i s (st r) = (l', old)" and st': "st' = st(r := l')"
    using on_listD [OF assms(1)] by blast
  show "store_step R r st (items old) st' (items s)"
    by (rule on_list_step [OF assms(2,3,1)]) (use changeItem_items in blast)
  show "i < length (il_items (st r)) \<Longrightarrow> old = slot st r i \<and> st_eq (slot st' r i) s"
    using l' by (auto simp: st' slot_def il_changeItem_def Let_def il_setModified_def split: if_splits)
      (simp_all add: st_eq_def meta_eq_def)
  show "slot st' q j = slot st q j" if "q \<noteq> r \<or> j \<noteq> i" for q j
    using that l' by (auto simp: st' slot_def il_changeItem_def Let_def il_setModified_def split: if_splits)
qed

lemma items_st_eq: "st_eq a b \<Longrightarrow> items a = items b"
  by (simp add: st_eq_def items_def st_kind_def meta_eq_def)

text \<open>A state of the store in which \<open>R\<close> holds the same, but for what is in the hand.\<close>

definition conserved :: "'r set \<Rightarrow> 'r \<Rightarrow> 'r \<Rightarrow> 'r store \<Rightarrow> 'r store \<Rightarrow> item_kind multiset \<Rightarrow> bool" where
  "conserved R p q st st' hand \<longleftrightarrow>
     store_content R st' + hand = store_content R st \<and> (\<forall>r. same_frame (st r) (st' r)) \<and>
     (\<forall>r. r \<noteq> p \<longrightarrow> r \<noteq> q \<longrightarrow> st' r = st r)"

lemma conserved_step:
  assumes "conserved R p q st st1 Y" and "store_step R r st1 X st2 Y" and "r = p \<or> r = q"
  shows "conserved R p q st st2 X"
  using assms by (auto simp: conserved_def store_step_def intro: same_frame_trans)

text \<open>The leftover goes back to the slot it came from.\<close>

lemma put_back:
  assumes 3: "on_list this (il_changeItem i refund) st2 = (st3, old3)"
    and R: "finite R" "this \<in> R" and i: "i < length (il_items (st2 this))"
    and refund: "refund = st_add (st_count (slot st2 this i)) leftover"
    and ovf: "unat (st_count leftover) + unat (st_count (slot st2 this i)) < 65536"
    and kind: "st_empty (slot st2 this i) \<or> st_kind (slot st2 this i) = st_kind leftover"
  shows "store_step R this st2 {#} st3 (items leftover)"
proof -
  let ?s = "slot st2 this i"
  note c = change_for_move [OF 3 R]
  have "replicate_mset (unat (st_count ?s)) (st_kind leftover) = items ?s"
    using kind by (auto simp: items_def st_empty_def)
  then have "items refund = items leftover + items ?s"
    using items_add [OF ovf] by (simp add: refund)
  moreover have "old3 = ?s" using c(2) [OF i] by simp
  ultimately show ?thesis using c(1) by (simp add: store_step_def)
qed

lemma swap_stacks:
  assumes 4: "on_list this (il_changeItem i no_item) st3 = (st4, m4)"
    and 5: "on_list dest (il_changeItem dest_i m4) st4 = (st5, m5)"
    and 6: "on_list this (il_changeItem i m5) st5 = (st6, m6)"
    and apart: "this \<noteq> dest \<or> i \<noteq> dest_i" and i: "i < length (il_items (st3 this))"
    and c: "conserved R this dest st st3 {#}" and R: "finite R" "this \<in> R" "dest \<in> R"
  shows "conserved R this dest st st6 {#}"
proof -
  note c4 = change_for_move [OF 4 R(1,2)] and c5 = change_for_move [OF 5 R(1,3)]
    and c6 = change_for_move [OF 6 R(1,2)]
  have "length (il_items (st5 this)) = length (il_items (st3 this))"
    using c4(1) c5(1) by (simp add: store_step_def same_frame_def)
  moreover have "slot st5 this i = slot st4 this i" using apart by (intro c5(3)) auto
  ultimately have "st_eq m6 no_item" using c4(2) [OF i] c6(2) i by simp
  then have m6: "items m6 = {#}" using items_st_eq by fastforce
  have "conserved R this dest st st4 (items m4)"
    by (rule conserved_step [OF c c4(1) [unfolded items_empty]]) simp
  then have "conserved R this dest st st5 (items m5)"
    by (rule conserved_step [OF _ c5(1)]) simp
  then have "conserved R this dest st st6 (items m6)"
    by (rule conserved_step [OF _ c6(1)]) simp
  with m6 show ?thesis by simp
qed

text \<open>
  The two lists together hold after a move what they held before; only they change, and
  they keep their size, name, width and locks.
\<close>

lemma moveItem_conserves:
  assumes move: "moveItem idef this i dest dest_i cnt swap st = (st', moved, did_swap)"
    and R: "finite R" "this \<in> R" "dest \<in> R"
  shows "conserved R this dest st st' {#}"
proof (cases "this = dest \<and> i = dest_i")
  case True
  with move show ?thesis by (auto simp: moveItem_def conserved_def)
next
  case apart: False
  obtain st1 moved1 where 1: "on_list this (if cnt = 0 then il_changeItem i no_item else il_takeItem i cnt) st
      = (st1, moved1)" by fastforce
  obtain st2 leftover where 2: "on_list dest (il_addItem_at idef dest_i moved1) st1 = (st2, leftover)"
    by fastforce
  note t = take_for_move [OF 1 R(1,2)] and a = add_for_move [OF 2 R(1,3)]
  have "conserved R this dest st st {#}" by (simp add: conserved_def)
  from conserved_step [OF this t(1)] have "conserved R this dest st st1 (items moved1)" by simp
  from conserved_step [OF this a(1)] have c2: "conserved R this dest st st2 (items leftover)" by simp
  show ?thesis
  proof (cases "st_empty leftover")
    case True
    with apart 1 2 move have "st' = st2" by (simp only: moveItem_def) (simp add: apart)
    with True c2 show ?thesis by simp
  next
    case left: False
    with a(2) have "\<not> st_empty moved1" by (auto simp: st_empty_def)
    note tn = t(2) [OF this]
    define s where "s = slot st2 this i"
    have s: "s = slot st1 this i" unfolding s_def using apart by (intro a(4)) auto
    have i: "i < length (il_items (st2 this))" using tn c2 by (simp add: conserved_def same_frame_def)
    define refund where "refund = st_add (st_count s) leftover"
    obtain st3 old3 where 3: "on_list this (il_changeItem i refund) st2 = (st3, old3)" by fastforce
    have "unat (st_count leftover) + unat (st_count s) < 65536"
      using tn a(2) unat16_lt [of "st_count (slot st this i)"] s by (simp add: word_le_nat_alt)
    then have "store_step R this st2 {#} st3 (items leftover)"
      using tn a(3) left s by (intro put_back [OF 3 R(1,2) i]) (auto simp: refund_def s_def)
    from conserved_step [OF c2 this] have c3: "conserved R this dest st st3 {#}" by simp
    show ?thesis
    proof (cases "st_empty (st_remove (st_count leftover) moved1) \<and> swap")
      case False
      with apart 1 2 3 left move have "st' = st3"
        by (simp only: moveItem_def) (auto simp: refund_def s_def slot_def)
      with c3 show ?thesis by simp
    next
      case True
      obtain st4 m4 where 4: "on_list this (il_changeItem i no_item) st3 = (st4, m4)" by fastforce
      obtain st5 m5 where 5: "on_list dest (il_changeItem dest_i m4) st4 = (st5, m5)" by fastforce
      obtain st6 m6 where 6: "on_list this (il_changeItem i m5) st5 = (st6, m6)" by fastforce
      have "i < length (il_items (st3 this))"
        using i c2 c3 by (simp add: conserved_def same_frame_def)
      then have "conserved R this dest st st6 {#}"
        using apart c3 R by (intro swap_stacks [OF 4 5 6]) auto
      moreover have "st' = st6"
        using True apart 1 2 3 4 5 6 left move
        by (simp only: moveItem_def) (auto simp: refund_def s_def slot_def)
      ultimately show ?thesis by simp
    qed
  qed
qed

text \<open>\<open>addItem\<close> may fill the slot a leftover came from, but only with items of its kind.\<close>

definition grown :: "ItemStack \<Rightarrow> ItemStack \<Rightarrow> ItemStack \<Rightarrow> ItemStack \<Rightarrow> bool" where
  "grown n a rest b \<longleftrightarrow>
     unat (st_count a) \<le> unat (st_count b) \<and>
     unat (st_count b) + unat (st_count rest) \<le> unat (st_count a) + unat (st_count n) \<and>
     (b = a \<or> (st_empty a \<or> st_kind a = st_kind n) \<and> st_kind b = st_kind n)"

definition rest_of :: "ItemStack \<Rightarrow> ItemStack \<Rightarrow> bool" where
  "rest_of n rest \<longleftrightarrow> st_count rest \<le> st_count n \<and> (st_empty rest \<or> st_kind rest = st_kind n)"

lemma addItem_grown:
  assumes "st_addItem idef n a = (b, rest)"
  shows "grown n a rest b \<and> rest_of n rest"
proof -
  have "items b + items rest = items a + items n" by (rule addItem_items [OF assms])
  then have "size (items b) + size (items rest) = size (items a) + size (items n)"
    by (metis size_union)
  with addItem_rest_le [OF assms] assms show ?thesis
    by (auto simp: grown_def rest_of_def size_items st_addItem_kind word_le_nat_alt split: if_splits)
qed

lemma grown_trans:
  assumes "grown n a r1 b" and "rest_of n r1" and "grown r1 b r2 c" and "rest_of r1 r2" and "\<not> st_empty r1"
  shows "grown n a r2 c" and "rest_of n r2"
  using assms by (auto simp: grown_def rest_of_def)

lemma add_loop_grown:
  "il_add_loop idef skip is n l = (l', rest) \<Longrightarrow> \<not> st_empty n \<Longrightarrow> j < length (il_items l) \<Longrightarrow>
   grown n (il_items l ! j) rest (il_items l' ! j) \<and> rest_of n rest"
proof (induction "is" arbitrary: n l)
  case Nil
  then show ?case by (simp add: grown_def rest_of_def)
next
  case (Cons i "is")
  show ?case
  proof (cases "skip (il_items l ! i)")
    case True
    with Cons show ?thesis by simp
  next
    case False
    obtain l1 n1 where 1: "il_addItem_at idef i n l = (l1, n1)" by fastforce
    have g1: "grown n (il_items l ! j) n1 (il_items l1 ! j) \<and> rest_of n n1"
    proof (cases "i < length (il_items l)")
      case True
      obtain s where s: "st_addItem idef n (il_items l ! i) = (s, n1)" "il_items l1 = (il_items l)[i := s]"
        using 1 True by (cases "st_addItem idef n (il_items l ! i)")
          (auto simp: il_addItem_at_def Let_def il_setModified_def split: if_splits)
      from addItem_grown [OF s(1)] s(2) Cons.prems(3) show ?thesis
        by (cases "i = j") (auto simp: grown_def rest_of_def word_le_nat_alt)
    next
      case out: False
      with 1 show ?thesis by (auto simp: il_addItem_at_def grown_def rest_of_def)
    qed
    show ?thesis
    proof (cases "st_empty n1")
      case True
      with False 1 Cons.prems g1 show ?thesis by simp
    next
      case nonempty: False
      with False 1 Cons.prems have "il_add_loop idef skip is n1 l1 = (l', rest)" by simp
      moreover have "j < length (il_items l1)"
        using addItem_at_items(2) [OF 1] Cons.prems(3) by (simp add: same_frame_def)
      ultimately show ?thesis
        using Cons.IH nonempty g1 grown_trans by blast
    qed
  qed
qed

lemma addItem_list_grown:
  assumes "il_addItem idef n l = (l', rest)" and "\<not> st_empty n" and j: "j < length (il_items l)"
  shows "grown n (il_items l ! j) rest (il_items l' ! j) \<and> rest_of n rest"
proof -
  obtain l1 n1 where 1: "il_add_loop idef st_empty [0..<length (il_items l)] n l = (l1, n1)" by fastforce
  note g1 = add_loop_grown [OF 1 assms(2) j]
  show ?thesis
  proof (cases "st_empty n1")
    case True
    with assms 1 g1 show ?thesis by (simp add: il_addItem_def)
  next
    case False
    with assms 1 have "il_add_loop idef (\<lambda>s. \<not> st_empty s) [0..<length (il_items l)] n1 l1 = (l', rest)"
      by (simp add: il_addItem_def)
    moreover have "j < length (il_items l1)"
      using add_loop_items [OF 1] j by (simp add: same_frame_def)
    ultimately have "grown n1 (il_items l1 ! j) rest (il_items l' ! j) \<and> rest_of n1 rest"
      using add_loop_grown False by blast
    with g1 False grown_trans show ?thesis by blast
  qed
qed

lemma moveItemSomewhere_conserves:
  assumes move: "moveItemSomewhere idef this i dest cnt st = st'"
    and R: "finite R" "this \<in> R" "dest \<in> R"
  shows "conserved R this dest st st' {#}"
proof -
  obtain st1 item1 where 1: "on_list this (if cnt = 0 then il_changeItem i no_item else il_takeItem i cnt) st
      = (st1, item1)" by fastforce
  note t = take_for_move [OF 1 R(1,2)]
  have "conserved R this dest st st {#}" by (simp add: conserved_def)
  from conserved_step [OF this t(1)] have c1: "conserved R this dest st st1 (items item1)" by simp
  show ?thesis
  proof (cases "st_empty item1")
    case True
    with 1 move have "st' = st1" by (simp add: moveItemSomewhere_def)
    with True c1 show ?thesis by simp
  next
    case False
    note tn = t(2) [OF False]
    obtain st2 leftover where 2: "on_list dest (il_addItem idef item1) st1 = (st2, leftover)" by fastforce
    have "store_step R dest st1 (items leftover) st2 (items item1)"
      by (rule on_list_step [OF R(1,3) 2]) (use addItem_list_items in blast)
    from conserved_step [OF c1 this] have c2: "conserved R this dest st st2 (items leftover)" by simp
    show ?thesis
    proof (cases "st_empty leftover")
      case True
      with False 1 2 move have "st' = st2" by (simp add: moveItemSomewhere_def)
      with True c2 show ?thesis by simp
    next
      case left: False
      have i: "i < length (il_items (st2 this))" and i1: "i < length (il_items (st1 this))"
        using tn c1 c2 by (simp_all add: conserved_def same_frame_def)
      obtain l' where l': "il_addItem idef item1 (st1 dest) = (l', leftover)" "st2 = st1(dest := l')"
        using on_listD [OF 2] by blast
      have g: "grown item1 (slot st1 this i) leftover (slot st2 this i) \<and> rest_of item1 leftover"
      proof (cases "this = dest")
        case True
        with addItem_list_grown [OF l'(1) False, of i] i1 l'(2) show ?thesis by (simp add: slot_def)
      next
        case other: False
        have "rest_of item1 leftover"
        proof (cases "il_items (st1 dest)")
          case Nil
          with l'(1) False show ?thesis by (auto simp: il_addItem_def rest_of_def)
        next
          case (Cons a as)
          with addItem_list_grown [OF l'(1) False, of 0] show ?thesis by simp
        qed
        with other l'(2) show ?thesis by (auto simp: grown_def rest_of_def slot_def word_le_nat_alt)
      qed
      define refund where "refund = st_add (st_count (slot st2 this i)) leftover"
      obtain st3 old3 where 3: "on_list this (il_changeItem i refund) st2 = (st3, old3)" by fastforce
      have "unat (st_count leftover) + unat (st_count (slot st2 this i)) < 65536"
        using g tn unat16_lt [of "st_count (slot st this i)"] by (simp add: grown_def)
      then have "store_step R this st2 {#} st3 (items leftover)"
        using g tn left by (intro put_back [OF 3 R(1,2) i refund_def]) (auto simp: grown_def rest_of_def)
      from conserved_step [OF c2 this] have "conserved R this dest st st3 {#}" by simp
      moreover have "st' = st3"
        using False 1 2 3 left move by (auto simp: moveItemSomewhere_def refund_def slot_def)
      ultimately show ?thesis by simp
    qed
  qed
qed

lemma il_ok_items: "il_ok l \<Longrightarrow> length xs = length (il_items l) \<Longrightarrow> il_ok (l\<lparr>il_items := xs\<rparr>)"
  by (simp add: il_ok_def)

lemma il_ok_simps [simp]:
  "il_ok (il_setModified d l) = il_ok l" "il_ok (l\<lparr>il_width := w\<rparr>) = il_ok l"
  "il_ok (l\<lparr>il_dirty := d\<rparr>) = il_ok l" "il_ok (resizeLock l) = il_ok l"
  by (simp_all add: il_ok_def il_setModified_def resizeLock_def)

text \<open>Sample values for the witnesses: a list of two slots, and a definition for every item.\<close>

definition sample_idef :: IItemDefManager where
  "sample_idef = \<lparr>idef_get = (\<lambda>_. new_ItemDefinition), idef_getAlias = (\<lambda>n. n), idef_isKnown = (\<lambda>_. True)\<rparr>"

definition sample_stack :: "u8 \<Rightarrow> u16 \<Rightarrow> ItemStack" where
  "sample_stack c n = no_item\<lparr>st_name := [c], st_count := n\<rparr>"

definition sample_list :: InventoryList where
  "sample_list = (new_InventoryList [97] 2)\<lparr>il_items := [sample_stack 98 5, no_item]\<rparr>"

section \<open>Properties\<close>

text \<open>
  C21.  Moving items between two slots, or from a slot to wherever they fit, loses and makes
  nothing: the lists of any finite set with both ends in it hold the same items after it as
  before, also when both ends are the same list, when the target is full or is not there,
  and when the stacks are swapped.  No other list changes.
\<close>

theorem move_conserves:
  assumes "finite R" and "this \<in> R" and "dest \<in> R"
    and "st' = fst (moveItem idef this i dest dest_i cnt swap st) \<or>
      st' = moveItemSomewhere idef this i dest cnt st"
  shows "store_content R st' = store_content R st \<and> (\<forall>r. same_frame (st r) (st' r)) \<and>
    (\<forall>r. r \<noteq> this \<longrightarrow> r \<noteq> dest \<longrightarrow> st' r = st r)"
proof -
  have "conserved R this dest st st' {#}"
    using assms moveItem_conserves [of idef this i dest dest_i cnt swap st] moveItemSomewhere_conserves
    by (metis prod.collapse)
  then show ?thesis by (simp add: conserved_def)
qed

theorem move_conserves_witness:
  "store_content {True, False} (fst (moveItem sample_idef True 0 False 1 3 True (\<lambda>_. sample_list))) =
    store_content {True, False} (\<lambda>_. sample_list)"
  using move_conserves [of "{True, False}" True False _ sample_idef 0 1 3 True "\<lambda>_. sample_list"]
  by blast


end
