(* ===== verification/InventorySearch.thy ===== *)
theory InventorySearch
  imports InventoryList
begin

text \<open>
  Searching an inventory list (\<open>containsItem\<close>, \<open>removeItem\<close>, \<open>roomForItem\<close> of
  \<open>src/inventory.cpp\<close>): what is counted, what is taken out, and when there is room.
\<close>

section \<open>Searching and removing\<close>

definition available :: "(ItemStack \<Rightarrow> bool) \<Rightarrow> ItemStack list \<Rightarrow> nat" where
  "available ok ss = sum_list (map (\<lambda>s. if ok s then unat (st_count s) else 0) ss)"

lemma available_rev [simp]: "available ok (rev ss) = available ok ss"
  by (simp add: available_def rev_map [symmetric] sum_list_rev)

lemma contains_loop_available:
  "cnt \<noteq> 0 \<Longrightarrow> il_contains_loop ok cnt ss \<longleftrightarrow> unat cnt \<le> available ok ss"
proof (induction ss arbitrary: cnt)
  case (Cons s ss)
  show ?case
  proof (cases "ok s \<and> \<not> cnt \<le> ucast (st_count s)")
    case True
    then have "unat (cnt - ucast (st_count s)) = unat cnt - unat (st_count s)"
      and "cnt - ucast (st_count s) \<noteq> 0"
      by (auto simp: unat_sub_if' word_le_nat_alt)
    with True Cons show ?thesis by (auto simp: available_def word_le_nat_alt)
  next
    case False
    with Cons show ?thesis by (auto simp: available_def word_le_nat_alt)
  qed
qed (simp add: available_def unat_eq_zero)

lemma containsItem_available:
  "containsItem item match_meta l \<longleftrightarrow>
     unat (st_count item) \<le> available (il_matches match_meta item) (il_items l)"
proof (cases "st_count item = 0")
  case False
  then have "ucast (st_count item) \<noteq> (0 :: u32)"
    by (metis unat_0 unat_ucast_16_32 unat_eq_zero)
  with False contains_loop_available [OF this] show ?thesis by (simp add: containsItem_def)
qed (simp add: containsItem_def)

text \<open>
  Removing, seen through a projection \<open>g\<close> of the kinds under which everything that matches
  is the same \<open>c\<close>: the kind itself, or only the name.
\<close>

lemma takeItem_count:
  assumes "st_takeItem k s = (s', t)"
  shows "unat (st_count s') + unat (st_count t) = unat (st_count s)"
    and "unat (st_count t) = min (unat k) (unat (st_count s))"
    and "st_empty t \<or> st_kind t = st_kind s" and "st_empty s' \<or> st_kind s' = st_kind s"
proof -
  have "items s' + items t = items s" by (rule takeItem_items(1) [OF assms])
  then have "size (items s') + size (items t) = size (items s)" by (metis size_union)
  then show "unat (st_count s') + unat (st_count t) = unat (st_count s)" by (simp add: size_items)
  show "unat (st_count t) = min (unat k) (unat (st_count s))" "st_empty t \<or> st_kind t = st_kind s"
    using takeItem_items(2,3) [OF assms] by blast+
  show "st_empty s' \<or> st_kind s' = st_kind s"
    using assms by (auto simp: st_takeItem_def st_remove_def Let_def st_kind_def split: if_splits)
qed

definition proj_items :: "(item_kind \<Rightarrow> 'k) \<Rightarrow> ItemStack \<Rightarrow> 'k multiset" where
  "proj_items g s = image_mset g (items s)"

lemma proj_items_kind:
  "st_empty s \<or> g (st_kind s) = c \<Longrightarrow> proj_items g s = replicate_mset (unat (st_count s)) c"
  by (auto simp: proj_items_def items_def st_empty_def)

lemma remove_one:
  assumes take: "st_takeItem (ucast wanted - ucast (st_count removed)) s = (s', t)"
    and add: "st_addItem idef t removed = (r, leftover)"
    and le: "st_count removed \<le> wanted"
    and kinds: "g (st_kind s) = c" "st_empty removed \<or> g (st_kind removed) = c"
    and r': "r' = r\<lparr>st_count := st_count r + st_count leftover\<rparr>"
  shows "unat (st_count r') = min (unat wanted) (unat (st_count removed) + unat (st_count s))"
    and "st_empty r' \<or> g (st_kind r') = c" and "st_empty s' \<or> g (st_kind s') = c"
    and "unat (st_count s') + unat (st_count r') = unat (st_count s) + unat (st_count removed)"
proof -
  note t = takeItem_count [OF take]
  have still: "unat (ucast wanted - ucast (st_count removed) :: u32) = unat wanted - unat (st_count removed)"
    using le by (simp add: unat_sub_if' word_le_nat_alt)
  have "items r + items leftover = items removed + items t" by (rule addItem_items [OF add])
  then have "size (items r) + size (items leftover) = size (items removed) + size (items t)"
    by (metis size_union)
  then have sum: "unat (st_count r) + unat (st_count leftover) = unat (st_count removed) + unat (st_count t)"
    by (simp add: size_items)
  have le': "unat (st_count removed) \<le> unat wanted" using le by (simp add: word_le_nat_alt)
  have "unat (st_count removed) + unat (st_count t) < 65536"
    using t(2) still le' unat16_lt [of wanted] by simp
  then have r'c: "unat (st_count r') = unat (st_count removed) + unat (st_count t)"
    using sum by (simp add: r' unat_plus16)
  then show "unat (st_count r') = min (unat wanted) (unat (st_count removed) + unat (st_count s))"
    and "unat (st_count s') + unat (st_count r') = unat (st_count s) + unat (st_count removed)"
    using t(1,2) still le' by (simp_all add: min_def) linarith+
  show "st_empty s' \<or> g (st_kind s') = c" using t(4) kinds(1) by auto
  have "st_empty r' \<or> st_kind r = st_kind t \<or> st_kind r = st_kind removed \<and> \<not> st_empty removed \<or> st_empty t"
    using add by (auto simp: st_addItem_kind split: if_splits)
  moreover have "st_empty t \<Longrightarrow> r = removed \<and> leftover = t"
    using add by (simp add: st_addItem_def)
  moreover have "\<not> st_empty t \<Longrightarrow> g (st_kind t) = c" using t(3) kinds(1) by auto
  ultimately show "st_empty r' \<or> g (st_kind r') = c"
    using kinds(2) by (cases "st_empty t") (auto simp: r' st_empty_def)
qed

lemma remove_loop_correct:
  assumes "il_remove_loop idef ok wanted removed ss = (ss', r)"
    and "\<And>s. ok s \<Longrightarrow> g (st_kind s) = c" and "st_count removed \<le> wanted"
    and "st_empty removed \<or> g (st_kind removed) = c"
  shows "unat (st_count r) = min (unat wanted) (unat (st_count removed) + available ok ss) \<and>
    (st_empty r \<or> g (st_kind r) = c) \<and> length ss' = length ss \<and>
    sum_list (map (proj_items g) ss') + proj_items g r =
    sum_list (map (proj_items g) ss) + proj_items g removed"
  using assms(1,3,4)
proof (induction ss arbitrary: removed ss' r)
  case Nil
  then show ?case by (simp add: available_def word_le_nat_alt)
next
  case (Cons s ss)
  show ?case
  proof (cases "ok s")
    case False
    obtain ss1 where "il_remove_loop idef ok wanted removed ss = (ss1, r)" "ss' = s # ss1"
      using Cons.prems(1) False by (cases "il_remove_loop idef ok wanted removed ss") auto
    with Cons.IH [OF this(1) Cons.prems(2,3)] False show ?thesis
      by (simp add: available_def ac_simps)
  next
    case True
    obtain s1 t where take: "st_takeItem (ucast wanted - ucast (st_count removed)) s = (s1, t)" by fastforce
    obtain r1 lo where add: "st_addItem idef t removed = (r1, lo)" by fastforce
    define r2 where "r2 = r1\<lparr>st_count := st_count r1 + st_count lo\<rparr>"
    note one = remove_one [OF take add Cons.prems(2) assms(2) [OF True] Cons.prems(3) r2_def]
    have r2: "st_count r2 \<le> wanted" using one(1) by (simp add: word_le_nat_alt)
    have eq: "proj_items g s1 + proj_items g r2 = proj_items g s + proj_items g removed"
      using one(2-4) assms(2) [OF True] Cons.prems(3)
      by (simp add: proj_items_kind [where c = c] flip: replicate_plus)
    show ?thesis
    proof (cases "st_count r2 = wanted")
      case enough: True
      with True take add Cons.prems(1) have "ss' = s1 # ss" "r = r2" by (simp_all add: r2_def)
      moreover have "unat wanted \<le> unat (st_count removed) + unat (st_count s)"
        using one(1) enough by simp
      ultimately show ?thesis
        using eq one(2) enough True by (simp add: available_def ac_simps)
    next
      case more: False
      obtain ss1 where rec: "il_remove_loop idef ok wanted r2 ss = (ss1, r)" "ss' = s1 # ss1"
        using Cons.prems(1) True more take add
        by (cases "il_remove_loop idef ok wanted r2 ss") (auto simp: r2_def)
      have "unat (st_count r2) \<noteq> unat wanted" using more by (metis word_unat_eq_iff)
      with one(1) have r2c: "unat (st_count r2) = unat (st_count removed) + unat (st_count s)" by auto
      note ih = Cons.IH [OF rec(1) r2 one(2)]
      have "proj_items g s1 + (sum_list (map (proj_items g) ss1) + proj_items g r) =
          proj_items g s1 + (sum_list (map (proj_items g) ss) + proj_items g r2)" using ih by simp
      also have "\<dots> = sum_list (map (proj_items g) ss) + (proj_items g s1 + proj_items g r2)"
        by (simp add: ac_simps)
      also have "\<dots> = proj_items g s + sum_list (map (proj_items g) ss) + proj_items g removed"
        using eq by (simp add: ac_simps)
      finally have "proj_items g s1 + sum_list (map (proj_items g) ss1) + proj_items g r =
          proj_items g s + sum_list (map (proj_items g) ss) + proj_items g removed"
        by (simp add: add.assoc)
      moreover from ih have "unat (st_count r) = min (unat wanted) (unat (st_count r2) + available ok ss)"
        and "st_empty r \<or> g (st_kind r) = c" and "length ss1 = length ss" by auto
      ultimately show ?thesis
        using rec(2) True r2c by (simp add: available_def ac_simps)
    qed
  qed
qed

section \<open>Room for an item\<close>

lemma addItem_at_rest:
  "i < length (il_items l) \<Longrightarrow> snd (il_addItem_at idef i n l) = snd (il_itemFits idef i n l)"
  "fst (il_itemFits idef i n l) \<longleftrightarrow> i < length (il_items l) \<and> st_empty (snd (il_itemFits idef i n l))"
  by (auto simp: il_addItem_at_def il_itemFits_def itemFits_addItem case_prod_beta Let_def)

lemma addItem_at_other:
  "il_addItem_at idef i n l = (l1, n1) \<Longrightarrow> j \<noteq> i \<Longrightarrow> il_items l1 ! j = il_items l ! j"
  by (auto simp: il_addItem_at_def case_prod_beta Let_def il_setModified_def split: if_splits)

lemma addItem_at_empty_slot:
  "i < length (il_items l) \<Longrightarrow> st_empty (il_items l ! i) \<Longrightarrow> \<not> st_empty n \<Longrightarrow>
   st_empty (snd (il_addItem_at idef i n l))"
  by (simp add: addItem_at_rest il_itemFits_def st_itemFits_def)

lemma add_loop_keeps_empty:
  "il_add_loop idef st_empty is n l = (l1, n1) \<Longrightarrow> st_empty (il_items l ! j) \<Longrightarrow>
   il_items l1 ! j = il_items l ! j"
proof (induction "is" arbitrary: n l)
  case (Cons i "is")
  show ?case
  proof (cases "st_empty (il_items l ! i)")
    case False
    obtain l2 n2 where 2: "il_addItem_at idef i n l = (l2, n2)" by fastforce
    have "j \<noteq> i" using False Cons.prems(2) by blast
    then have "il_items l2 ! j = il_items l ! j" by (rule addItem_at_other [OF 2])
    with Cons False 2 show ?thesis by (auto split: if_splits)
  qed (use Cons in simp)
qed simp

lemma add_loop_finds_empty:
  "\<exists>i\<in>set is. i < length (il_items l) \<and> st_empty (il_items l ! i) \<Longrightarrow> \<not> st_empty n \<Longrightarrow>
   st_empty (snd (il_add_loop idef (\<lambda>s. \<not> st_empty s) is n l))"
proof (induction "is")
  case (Cons i "is")
  show ?case
  proof (cases "st_empty (il_items l ! i)")
    case False
    with Cons show ?thesis by auto
  next
    case True
    obtain l2 n2 where 2: "il_addItem_at idef i n l = (l2, n2)" by fastforce
    show ?thesis
    proof (cases "i < length (il_items l)")
      case in_range: True
      with True 2 addItem_at_empty_slot [OF in_range True Cons.prems(2), of idef] show ?thesis by simp
    next
      case False
      then have "l2 = l" "n2 = n" using 2 by (simp_all add: il_addItem_at_def)
      with Cons True False 2 show ?thesis by auto
    qed
  qed
qed simp

lemma room_finds_empty:
  "\<exists>i\<in>set is. i < length (il_items l) \<and> st_empty (il_items l ! i) \<Longrightarrow> \<not> st_empty n \<Longrightarrow>
   il_room_loop idef is n l"
proof (induction "is" arbitrary: n)
  case (Cons i "is")
  show ?case
  proof (cases "fst (il_itemFits idef i n l)")
    case False
    then have "\<not> st_empty (snd (il_itemFits idef i n l))"
      using Cons.prems(2) by (auto simp: il_itemFits_def st_itemFits_def Let_def split: if_splits)
    moreover have "\<not> (i < length (il_items l) \<and> st_empty (il_items l ! i))"
      using False addItem_at_empty_slot [of i l n idef] Cons.prems(2) addItem_at_rest by auto
    ultimately show ?thesis using Cons by (auto simp: case_prod_beta)
  qed (simp add: case_prod_beta)
qed simp

lemma room_loop_cong:
  "(\<And>i. i \<in> set is \<Longrightarrow> il_items l ! i = il_items l' ! i) \<Longrightarrow> length (il_items l) = length (il_items l') \<Longrightarrow>
   il_room_loop idef is n l = il_room_loop idef is n l'"
  by (induction "is" arbitrary: n) (auto simp: il_itemFits_def case_prod_beta)

lemma room_loop_adds:
  "distinct is \<Longrightarrow> (\<And>i. i \<in> set is \<Longrightarrow> i < length (il_items l) \<and> \<not> st_empty (il_items l ! i)) \<Longrightarrow>
   \<not> st_empty n \<Longrightarrow>
   il_room_loop idef is n l \<longleftrightarrow> st_empty (snd (il_add_loop idef st_empty is n l))"
proof (induction "is" arbitrary: n l)
  case (Cons i "is")
  obtain l2 n2 where 2: "il_addItem_at idef i n l = (l2, n2)" by fastforce
  have i: "i < length (il_items l)" "\<not> st_empty (il_items l ! i)" using Cons.prems(2) by auto
  have n2: "snd (il_itemFits idef i n l) = n2" "fst (il_itemFits idef i n l) \<longleftrightarrow> st_empty n2"
    using addItem_at_rest i(1) 2 by (metis snd_conv)+
  show ?case
  proof (cases "st_empty n2")
    case True
    with 2 i n2 show ?thesis by (simp add: case_prod_beta)
  next
    case False
    have other: "il_items l2 ! j = il_items l ! j" if "j \<in> set is" for j
      by (rule addItem_at_other [OF 2]) (use Cons.prems(1) that in auto)
    have "il_room_loop idef is n2 l = il_room_loop idef is n2 l2"
      using other addItem_at_items(2) [OF 2] by (intro room_loop_cong) (auto simp: same_frame_def)
    also have "\<dots> = st_empty (snd (il_add_loop idef st_empty is n2 l2))"
      using Cons.prems other addItem_at_items(2) [OF 2] False
      by (intro Cons.IH) (auto simp: same_frame_def)
    finally show ?thesis using 2 i n2 False by (simp add: case_prod_beta)
  qed
qed simp

lemma room_iff_added:
  assumes "\<not> st_empty item"
  shows "roomForItem idef item l \<longleftrightarrow> st_empty (snd (il_addItem idef item l))"
proof -
  let ?is = "[0..<length (il_items l)]"
  obtain l1 n1 where 1: "il_add_loop idef st_empty ?is item l = (l1, n1)" by fastforce
  show ?thesis
  proof (cases "\<exists>i<length (il_items l). st_empty (il_items l ! i)")
    case True
    then obtain i where i: "i < length (il_items l)" "st_empty (il_items l ! i)" by blast
    have room: "roomForItem idef item l"
      unfolding roomForItem_def using i assms by (intro room_finds_empty) auto
    show ?thesis
    proof (cases "st_empty n1")
      case True
      with 1 room assms show ?thesis by (simp add: il_addItem_def)
    next
      case False
      have "length (il_items l1) = length (il_items l)"
        using add_loop_items [OF 1] by (simp add: same_frame_def)
      then have "st_empty (snd (il_add_loop idef (\<lambda>s. \<not> st_empty s) ?is n1 l1))"
        using i add_loop_keeps_empty [OF 1 i(2)] False
        by (intro add_loop_finds_empty) (auto intro!: bexI [of _ i])
      with 1 room assms False show ?thesis by (simp add: il_addItem_def)
    qed
  next
    case full: False
    have room: "roomForItem idef item l \<longleftrightarrow> st_empty n1"
      unfolding roomForItem_def using full assms 1 by (subst room_loop_adds) auto
    have skip_all: "il_add_loop idef (\<lambda>s. \<not> st_empty s) is n l' = (l', n)"
      if "\<And>i. i \<in> set is \<Longrightarrow> \<not> st_empty (il_items l' ! i)" for "is" n l'
      using that by (induction "is") auto
    show ?thesis
    proof (cases "st_empty n1")
      case True
      with 1 room assms show ?thesis by (simp add: il_addItem_def)
    next
      case False
      have "\<not> st_empty (il_items l1 ! i)" if "i < length (il_items l)" for i
        using add_loop_grown [OF 1 assms that] full that False
        by (auto simp: grown_def st_empty_def unat_eq_zero)
      then have "il_add_loop idef (\<lambda>s. \<not> st_empty s) ?is n1 l1 = (l1, n1)"
        by (intro skip_all) auto
      with 1 room assms False show ?thesis by (simp add: il_addItem_def)
    qed
  qed
qed

lemma removeItemD:
  assumes "removeItem idef item mm l = (l', r)"
  obtains ss where "il_remove_loop idef (il_matches mm item) (st_count item) no_item (rev (il_items l)) = (ss, r)"
    and "il_items l' = rev ss" and "length ss = length (il_items l) \<Longrightarrow> same_frame l l'"
proof (cases "il_remove_loop idef (il_matches mm item) (st_count item) no_item (rev (il_items l))")
  case (Pair ss r')
  with assms show ?thesis
    by (intro that [of ss]) (auto simp: removeItem_def same_frame_def il_setModified_def Let_def split: if_splits)
qed

lemma removeItem_frame:
  assumes "removeItem idef item mm l = (l', r)"
  shows "same_frame l l'"
proof (rule removeItemD [OF assms])
  fix ss
  assume loop: "il_remove_loop idef (il_matches mm item) (st_count item) no_item (rev (il_items l)) = (ss, r)"
    and frame: "length ss = length (il_items l) \<Longrightarrow> same_frame l l'"
  have "length ss = length (rev (il_items l))"
    using remove_loop_correct [OF loop, of "\<lambda>_. ()" "()"] by (simp add: no_item_def)
  with frame show ?thesis by simp
qed

section \<open>Properties\<close>

text \<open>
  \<open>removeItem\<close> takes out as many of the items asked for as there are, up to the count
  asked for, which is exactly that count when \<open>containsItem\<close> says so; nothing is lost
  between what stays and what is returned (by name, or by name and metadata if these count).
\<close>

theorem remove_exact:
  assumes "removeItem idef item match_meta l = (l', r)"
  shows "unat (st_count r) =
      min (unat (st_count item)) (available (il_matches match_meta item) (il_items l)) \<and>
    (containsItem item match_meta l \<longleftrightarrow> st_count r = st_count item) \<and>
    (st_empty r \<or> st_name r = st_name item) \<and>
    image_mset fst (il_content l') + image_mset fst (items r) = image_mset fst (il_content l) \<and>
    (match_meta \<longrightarrow> il_content l' + items r = il_content l)"
proof -
  obtain ss where ss: "il_remove_loop idef (il_matches match_meta item) (st_count item) no_item
      (rev (il_items l)) = (ss, r)"
    and l': "il_items l' = rev ss"
    using removeItemD [OF assms] by metis
  have content: "sum_list (map (proj_items g) (il_items k)) = image_mset g (il_content k)"
    for g :: "item_kind \<Rightarrow> 'k" and k
  proof -
    have "sum_list (map (proj_items g) xs) = image_mset g (sum_list (map items xs))" for xs
      by (induction xs) (simp_all add: proj_items_def)
    then show ?thesis by (simp add: il_content_def)
  qed
  have proj: "sum_list (map (proj_items g) (rev xs)) = sum_list (map (proj_items g) xs)"
    for g :: "item_kind \<Rightarrow> 'k" and xs
    by (simp add: sum_list_rev flip: rev_map)
  have none: "st_count no_item \<le> st_count item" "unat (st_count no_item) = 0"
      "proj_items g no_item = {#}" for g :: "item_kind \<Rightarrow> 'k"
    by (simp_all add: proj_items_def) (simp_all add: no_item_def)
  note names = remove_loop_correct [OF ss _ none(1), of fst "st_name item"]
  have n: "unat (st_count r) = min (unat (st_count item)) (available (il_matches match_meta item) (il_items l))"
    and nm: "st_empty r \<or> fst (st_kind r) = st_name item"
    and c: "sum_list (map (proj_items fst) (il_items l')) + proj_items fst r =
      sum_list (map (proj_items fst) (il_items l))"
    using names by (simp_all add: il_matches_def l' proj none) (simp_all add: st_kind_def)
  have "il_content l' + items r = il_content l" if match_meta
  proof -
    have "sum_list (map (proj_items (\<lambda>x. x)) (il_items l')) + proj_items (\<lambda>x. x) r =
        sum_list (map (proj_items (\<lambda>x. x)) (il_items l))"
      using remove_loop_correct [OF ss _ none(1), of "\<lambda>x. x" "st_kind item"] that
      by (simp add: il_matches_def kind_eq_iff l' proj none)
    then show ?thesis by (simp add: content) (simp add: proj_items_def)
  qed
  moreover have "st_count r = st_count item \<longleftrightarrow> unat (st_count r) = unat (st_count item)"
    by (simp only: word_unat_eq_iff)
  ultimately show ?thesis
    using n nm c by (auto simp: containsItem_available content proj_items_def st_kind_def)
qed

theorem remove_exact_witness:
  "unat (st_count (snd (removeItem sample_idef (sample_stack 98 3) True sample_list))) =
    min 3 (available (il_matches True (sample_stack 98 3)) (il_items sample_list))"
proof -
  obtain l' r where lr: "removeItem sample_idef (sample_stack 98 3) True sample_list = (l', r)" by fastforce
  from remove_exact [OF lr] show ?thesis by (simp add: lr) (simp add: sample_stack_def)
qed

lemma room_for_nothing: "st_empty item \<Longrightarrow> roomForItem idef item l \<longleftrightarrow> il_items l \<noteq> []"
  unfolding roomForItem_def
  by (cases "il_items l") (simp_all add: upt_conv_Cons il_itemFits_def st_itemFits_def del: upt_Suc)

text \<open>
  C22.  \<open>roomForItem\<close>, which looks through the slots once in order, agrees with \<open>addItem\<close>,
  which fills the stacks that are there before it takes an empty slot: it says yes exactly
  if adding the item would leave nothing over.  Only for no item at all it says no, if the list has no
  slots, although nothing would be left over.
\<close>

theorem room_for_item:
  "roomForItem idef item l =
     (if st_empty item then il_items l \<noteq> [] else st_empty (snd (il_addItem idef item l)))"
  using room_iff_added room_for_nothing by simp

theorem room_for_item_witness:
  "roomForItem sample_idef (sample_stack 98 7) sample_list \<longleftrightarrow>
    st_empty (snd (il_addItem sample_idef (sample_stack 98 7) sample_list))"
  using room_for_item [of sample_idef "sample_stack 98 7" sample_list] by (simp add: sample_stack_def st_empty_def)

end
