(* ===== verification/InventoryText.thy ===== *)
theory InventoryText
  imports InventorySearch
begin

text \<open>
  The text form of an inventory list (\<open>serialize\<close> and \<open>deSerialize\<close> of \<open>src/inventory.cpp\<close>),
  one line for each slot, which world files and the network carry.
\<close>

section \<open>Text form\<close>

definition il_item_line :: "(metadata \<Rightarrow> bytes list) \<Rightarrow> ItemStack \<Rightarrow> bytes" where
  "il_item_line ord s =
     (if st_empty s then lit ''Empty'' else lit ''Item '' @ st_serialize ord True s) @ [NEWLINE]"

definition il_serialize :: "(metadata \<Rightarrow> bytes list) \<Rightarrow> InventoryList \<Rightarrow> bytes" where
  "il_serialize ord l =
     lit ''Width '' @ dec (unat (il_width l)) @ [NEWLINE] @
     concat (map (il_item_line ord) (il_items l)) @
     lit ''EndInventoryList'' @ [NEWLINE]"

text \<open>
  One line of \<open>deSerialize\<close>: the list and the next slot, or an exception with the list as
  far as it was read.
\<close>

definition il_read_line ::
  "u16 \<Rightarrow> IItemDefManager \<Rightarrow> bytes \<Rightarrow> nat \<Rightarrow> InventoryList \<Rightarrow>
   (ser_error \<times> InventoryList) + nat \<times> InventoryList" where
  "il_read_line stale idef line item_i l =
     (let (name, iss) = getline SPACE [] (line, True) in
      if name = lit ''Width''
      then
        (case extract_unsigned iss of
           (None, _) \<Rightarrow> Inl (SerializationError ''incorrect width property'', l)
         | (Some (w, fail), _) \<Rightarrow>
             if fail then Inl (SerializationError ''incorrect width property'', l\<lparr>il_width := w\<rparr>)
             else Inr (item_i, l\<lparr>il_width := w\<rparr>))
      else if name = lit ''Item''
      then
        if item_i \<ge> length (il_items l) then Inl (SerializationError ''too many items'', l)
        else
          (case st_deSerialize stale (Some idef) iss of
             Inl e \<Rightarrow> Inl (e, l)
           | Inr s \<Rightarrow> Inr (item_i + 1, l\<lparr>il_items := (il_items l)[item_i := s]\<rparr>))
      else if name = lit ''Empty''
      then
        if item_i \<ge> length (il_items l) then Inl (SerializationError ''too many items'', l)
        else Inr (item_i + 1, l\<lparr>il_items := (il_items l)[item_i := st_clear (il_items l ! item_i)]\<rparr>)
      else if name = lit ''Keep'' then Inr (item_i + 1, l)
      else Inr (item_i, l))"

text \<open>The loop over the lines, which ends by throwing if no end mark comes.\<close>

definition is_end :: "bytes \<Rightarrow> bytes \<Rightarrow> bool" where
  "is_end mark line \<longleftrightarrow>
     (let name = fst (getline SPACE [] (line, True)) in name = mark \<or> name = lit ''end'')"

function il_read ::
  "u16 \<Rightarrow> IItemDefManager \<Rightarrow> nat \<Rightarrow> InventoryList \<Rightarrow> istream \<Rightarrow>
   (ser_error \<times> InventoryList) + InventoryList \<times> istream" where
  "il_read stale idef item_i l is =
     (if \<not> snd is then Inl (SerializationError ''Malformatted inventory list.'', l)
      else
        let (line, is1) = getline NEWLINE [] is in
        if is_end (lit ''EndInventoryList'') line
        then Inr (l\<lparr>il_items := take item_i (il_items l) @ map st_clear (drop item_i (il_items l))\<rparr>, is1)
        else
          (case il_read_line stale idef line item_i l of
             Inl e \<Rightarrow> Inl e
           | Inr (item_i, l) \<Rightarrow> il_read stale idef item_i l is1))"
  by pat_completeness auto

termination il_read
  by (relation "measure (\<lambda>(stale, idef, item_i, l, is). istream_left is)")
    (use getline_progress [of _ NEWLINE "[]"] in \<open>auto, metis snd_conv\<close>)

declare il_read.simps [simp del]

definition il_deSerialize ::
  "u16 \<Rightarrow> IItemDefManager \<Rightarrow> InventoryList \<Rightarrow> istream \<Rightarrow>
   (ser_error \<times> InventoryList) + InventoryList \<times> istream" where
  "il_deSerialize stale idef l is =
     il_read stale idef 0 ((il_setModified True l)\<lparr>il_width := 0\<rparr>) is"

lemma hex_no_newline: "i < 16 \<Longrightarrow> hex_chars ! i \<noteq> NEWLINE"
proof -
  assume "i < 16"
  then have "hex_chars ! i \<in> set hex_chars" by (intro nth_mem) (simp add: hex_chars_def)
  then show ?thesis by (auto simp: hex_chars_def)
qed

lemma escape_no_newline: "NEWLINE \<notin> set (json_escape_char c)"
proof -
  have "unat (c AND 0xf) \<le> unat (0xf :: u8)"
    using word_and_le1 [of c "0xf"] by (simp only: word_le_nat_alt)
  then have 1: "unat (c AND 0xf) < 16" by simp
  have 2: "unat (drop_bit 4 c) < 16"
    using unat8_lt [of c] by (simp only: drop_bit_eq_div) (simp add: unat_div)
  show ?thesis
    using hex_no_newline [OF 1] hex_no_newline [OF 2] by (auto simp: json_escape_char_def)
qed

lemma json_no_newline: "NEWLINE \<notin> set (serializeJsonStringIfNeeded s)"
proof (cases "list_ex json_needed s")
  case True
  then show ?thesis
    using escape_no_newline by (auto simp: serializeJsonStringIfNeeded_def serializeJsonString_def)
next
  case False
  moreover have "json_needed NEWLINE" by (simp add: json_needed_def)
  ultimately show ?thesis
    by (auto simp: serializeJsonStringIfNeeded_def list_ex_iff)
qed

lemma st_serialize_no_newline: "NEWLINE \<notin> set (st_serialize ord True s)"
  using json_no_newline dec_no_sep(2)
  by (auto simp: st_serialize_def meta_serialize_def Let_def)

text \<open>What a written slot is read back as: an empty one keeps nothing of what it held.\<close>

definition st_read_back :: "ItemStack \<Rightarrow> ItemStack \<Rightarrow> ItemStack" where
  "st_read_back old s = (if st_empty s then st_clear old else st_plain s)"

lemma st_read_back_items [simp]: "items (st_read_back old s) = items s"
  by (simp add: st_read_back_def st_plain_eq)

lemma lit_eval: "lit [] = []" "lit (c # cs) = of_char c # lit cs"
  by (simp_all add: lit_def)

text \<open>The key words of the format as single lines.\<close>

lemma word_lines:
  "NEWLINE \<notin> set (lit ''Empty'')" "NEWLINE \<notin> set (lit ''Item'')" "NEWLINE \<notin> set (lit ''Width'')"
  "NEWLINE \<notin> set (lit ''EndInventoryList'')"
  "SPACE \<notin> set (lit ''Empty'')" "SPACE \<notin> set (lit ''Item'')" "SPACE \<notin> set (lit ''Width'')"
  "SPACE \<notin> set (lit ''EndInventoryList'')"
  "lit ''Item '' = lit ''Item'' @ [SPACE]" "lit ''Width '' = lit ''Width'' @ [SPACE]"
  by (simp_all add: lit_eval)

lemma words_differ:
  "lit ''Empty'' \<noteq> lit ''EndInventoryList''" "lit ''Empty'' \<noteq> lit ''end''"
  "lit ''Empty'' \<noteq> lit ''Width''" "lit ''Empty'' \<noteq> lit ''Item''"
  "lit ''Item'' \<noteq> lit ''EndInventoryList''" "lit ''Item'' \<noteq> lit ''end''"
  "lit ''Item'' \<noteq> lit ''Width''"
  "lit ''Width'' \<noteq> lit ''EndInventoryList''" "lit ''Width'' \<noteq> lit ''end''"
  by (simp_all add: lit_eval)

lemma il_item_line_read:
  assumes "st_ok idef ord s" and "k < length (il_items l)"
  obtains line where "il_item_line ord s = line @ [NEWLINE]" and "NEWLINE \<notin> set line"
    and "\<not> is_end (lit ''EndInventoryList'') line"
    and "il_read_line stale idef line k l =
      Inr (k + 1, l\<lparr>il_items := (il_items l)[k := st_read_back (il_items l ! k) s]\<rparr>)"
proof (cases "st_empty s")
  case True
  show ?thesis
  proof (rule that)
    show "il_item_line ord s = lit ''Empty'' @ [NEWLINE]" using True by (simp add: il_item_line_def)
    show "NEWLINE \<notin> set (lit ''Empty'')" by (rule word_lines)
    have g: "getline SPACE [] (lit ''Empty'', True) = (lit ''Empty'', [], False)"
      by (rule getline_last) (rule word_lines)
    show "\<not> is_end (lit ''EndInventoryList'') (lit ''Empty'')"
      by (simp add: is_end_def g words_differ)
    show "il_read_line stale idef (lit ''Empty'') k l =
        Inr (k + 1, l\<lparr>il_items := (il_items l)[k := st_read_back (il_items l ! k) s]\<rparr>)"
      using True assms(2) by (simp add: il_read_line_def g words_differ st_read_back_def)
  qed
next
  case False
  let ?line = "lit ''Item'' @ SPACE # st_serialize ord True s"
  show ?thesis
  proof (rule that)
    show "il_item_line ord s = ?line @ [NEWLINE]" using False by (simp add: il_item_line_def word_lines)
    show "NEWLINE \<notin> set ?line" using st_serialize_no_newline by (simp add: word_lines)
    have g: "getline SPACE [] (?line, True) = (lit ''Item'', st_serialize ord True s, True)"
      by (rule getline_token) (rule word_lines)
    show "\<not> is_end (lit ''EndInventoryList'') ?line"
      by (simp add: is_end_def g words_differ)
    show "il_read_line stale idef ?line k l =
        Inr (k + 1, l\<lparr>il_items := (il_items l)[k := st_read_back (il_items l ! k) s]\<rparr>)"
      using False assms(2) st_roundtrip [OF assms(1) False]
      by (simp add: il_read_line_def g words_differ st_read_back_def)
  qed
qed

lemma il_read_items:
  assumes "list_all (st_ok idef ord) ss" and "k + length ss = length (il_items l)"
  shows "il_read stale idef k l (concat (map (il_item_line ord) ss) @ lit ''EndInventoryList'' @ NEWLINE # r, True) =
    Inr (l\<lparr>il_items := take k (il_items l) @ map2 st_read_back (drop k (il_items l)) ss\<rparr>, r, True)"
  using assms
proof (induction ss arbitrary: k l)
  case Nil
  have e: "is_end (lit ''EndInventoryList'') (lit ''EndInventoryList'')"
    by (simp add: is_end_def word_lines)
  from Nil show ?case
    by (subst il_read.simps) (simp add: e word_lines)
next
  case (Cons s ss)
  have k: "k < length (il_items l)" using Cons.prems by simp
  obtain line where line: "il_item_line ord s = line @ [NEWLINE]" "NEWLINE \<notin> set line"
      "\<not> is_end (lit ''EndInventoryList'') line"
      "il_read_line stale idef line k l =
        Inr (k + 1, l\<lparr>il_items := (il_items l)[k := st_read_back (il_items l ! k) s]\<rparr>)"
    using il_item_line_read [OF _ k] Cons.prems(1) by (metis list.pred_inject(2))
  let ?l = "l\<lparr>il_items := (il_items l)[k := st_read_back (il_items l ! k) s]\<rparr>"
  let ?rest = "concat (map (il_item_line ord) ss) @ lit ''EndInventoryList'' @ NEWLINE # r"
  have "il_read stale idef k l (line @ NEWLINE # ?rest, True) = il_read stale idef (k + 1) ?l (?rest, True)"
    using line(2-4) by (subst il_read.simps) simp
  also have "\<dots> = Inr (?l\<lparr>il_items := take (k + 1) (il_items ?l) @ map2 st_read_back (drop (k + 1) (il_items ?l)) ss\<rparr>, r, True)"
    using Cons.prems by (intro Cons.IH) simp_all
  also have "take (k + 1) (il_items ?l) = take k (il_items l) @ [st_read_back (il_items l ! k) s]"
    using k by (simp add: take_Suc_conv_app_nth)
  also have "drop (k + 1) (il_items ?l) = drop (k + 1) (il_items l)" by simp
  finally show ?case
    using line(1) k by (simp add: Cons_nth_drop_Suc [symmetric])
qed

lemma il_roundtrip:
  assumes "list_all (st_ok idef ord) (il_items l)" and "length (il_items l0) = length (il_items l)"
  shows "il_deSerialize stale idef l0 (il_serialize ord l @ r, True) =
    Inr (l0\<lparr>il_dirty := True, il_width := il_width l,
           il_items := map2 st_read_back (il_items l0) (il_items l)\<rparr>, r, True)"
proof -
  let ?body = "concat (map (il_item_line ord) (il_items l)) @ lit ''EndInventoryList'' @ NEWLINE # r"
  let ?line = "lit ''Width'' @ SPACE # dec (unat (il_width l))"
  let ?l = "(il_setModified True l0)\<lparr>il_width := 0\<rparr>"
  have w: "getline SPACE [] (?line, True) = (lit ''Width'', dec (unat (il_width l)), True)"
    by (rule getline_token) (rule word_lines)
  then have e: "\<not> is_end (lit ''EndInventoryList'') ?line"
    by (simp add: is_end_def words_differ)
  have "extract_unsigned (dec (unat (il_width l)), True) = (Some (il_width l, False), [], False)"
    using extract_dec_word [of "[]" "il_width l"] by simp
  then have rl: "il_read_line stale idef ?line 0 ?l = Inr (0, ?l\<lparr>il_width := il_width l\<rparr>)"
    by (simp add: il_read_line_def w)
  have "il_deSerialize stale idef l0 (?line @ NEWLINE # ?body, True) =
      il_read stale idef 0 (?l\<lparr>il_width := il_width l\<rparr>) (?body, True)"
    unfolding il_deSerialize_def using e rl
    by (subst il_read.simps) (simp add: word_lines del: append_assoc append.simps)
  also have "\<dots> = Inr (?l\<lparr>il_width := il_width l,
      il_items := map2 st_read_back (il_items l0) (il_items l)\<rparr>, r, True)"
    using assms by (subst il_read_items) (simp_all add: il_setModified_def)
  also have "?line @ NEWLINE # ?body = il_serialize ord l @ r"
    by (simp add: il_serialize_def word_lines)
  finally show ?thesis by (simp add: il_setModified_def)
qed

section \<open>A text that has been cut off\<close>

text \<open>Some line of the text is an end mark.\<close>

function has_end :: "bytes \<Rightarrow> bytes \<Rightarrow> bool" where
  "has_end mark s =
     (if s = [] then False
      else is_end mark (takeWhile (\<lambda>c. c \<noteq> NEWLINE) s) \<or>
        has_end mark (drop 1 (dropWhile (\<lambda>c. c \<noteq> NEWLINE) s)))"
  by pat_completeness auto

termination has_end
proof (relation "measure (length \<circ> snd)", simp, clarsimp)
  fix s :: bytes assume "s \<noteq> []"
  then show "length (dropWhile (\<lambda>c. c \<noteq> NEWLINE) s) - Suc 0 < length s"
    using strfnd_next_less [of s NEWLINE] by (simp add: strfnd_next_def)
qed

declare has_end.simps [simp del]

lemma has_end_Nil [simp]: "\<not> has_end mark []"
  by (simp add: has_end.simps)

lemma has_end_line:
  "NEWLINE \<notin> set line \<Longrightarrow> has_end mark (line @ NEWLINE # s) \<longleftrightarrow> is_end mark line \<or> has_end mark s"
  by (subst has_end.simps) (simp add: up_to_sep)

lemma has_end_last:
  "NEWLINE \<notin> set line \<Longrightarrow> line \<noteq> [] \<Longrightarrow> has_end mark line \<longleftrightarrow> is_end mark line"
  by (subst has_end.simps) (simp add: up_to_sep)

lemma il_read_needs_end:
  "il_read stale idef k l is = Inr res \<Longrightarrow> snd is \<Longrightarrow> has_end (lit ''EndInventoryList'') (fst is)"
proof (induction stale idef k l "is" arbitrary: res rule: il_read.induct)
  case (1 stale idef k l "is")
  obtain s where s: "is = (s, True)" using "1.prems"(2) by (cases "is") simp
  let ?line = "takeWhile (\<lambda>c. c \<noteq> NEWLINE) s"
  obtain is1 where g: "getline NEWLINE [] is = (?line, is1)"
    by (simp add: getline_def s)
  show ?case
  proof (cases "is_end (lit ''EndInventoryList'') ?line")
    case True
    then have "s \<noteq> []" by (auto simp: is_end_def getline_def lit_eval)
    with True s show ?thesis by (subst has_end.simps) simp
  next
    case False
    obtain k1 l1 where rl: "il_read_line stale idef ?line k l = Inr (k1, l1)"
      and rec: "il_read stale idef k1 l1 is1 = Inr res"
      using "1.prems" g False s
      by (subst (asm) il_read.simps) (auto split: sum.splits)
    have good: "snd is1"
    proof (rule ccontr)
      assume "\<not> snd is1"
      with rec show False by (subst (asm) il_read.simps) simp
    qed
    then have "s \<noteq> []" and is1: "fst is1 = drop 1 (dropWhile (\<lambda>c. c \<noteq> NEWLINE) s)"
      using g by (cases "dropWhile (\<lambda>c. c \<noteq> NEWLINE) s"; auto simp: getline_def s)+
    moreover have "has_end (lit ''EndInventoryList'') (fst is1)"
      using "1.IH" [OF _ refl] g False rl rec good s by (auto simp: s)
    ultimately show ?thesis using s by (subst has_end.simps) auto
  qed
qed

text \<open>The beginnings of the lines that are written before the end mark.\<close>

lemma is_end_first:
  "is_end (lit ''EndInventoryList'') line \<Longrightarrow>
   take 2 line = lit ''En'' \<and> take 16 line = lit ''EndInventoryList'' \<or> take 2 line = lit ''en''"
proof -
  assume "is_end (lit ''EndInventoryList'') line"
  then have "takeWhile (\<lambda>c. c \<noteq> SPACE) line = lit ''EndInventoryList'' \<or>
      takeWhile (\<lambda>c. c \<noteq> SPACE) line = lit ''end''"
    by (simp add: is_end_def getline_def Let_def)
  moreover obtain r where "line = takeWhile (\<lambda>c. c \<noteq> SPACE) line @ r"
    by (metis takeWhile_dropWhile_id)
  ultimately have "line = lit ''EndInventoryList'' @ r \<or> line = lit ''end'' @ r" by auto
  then show ?thesis by (elim disjE) (simp_all add: lit_eval)
qed

lemma not_end_prefix:
  assumes "take 2 s \<noteq> lit ''En''" and "take 2 s \<noteq> lit ''en''"
  shows "\<not> is_end (lit ''EndInventoryList'') (take n s)"
proof
  assume "is_end (lit ''EndInventoryList'') (take n s)"
  then have "take 2 (take n s) = lit ''En'' \<or> take 2 (take n s) = lit ''en''"
    using is_end_first by blast
  moreover from this have "length (take 2 (take n s)) = 2"
    by (auto simp: lit_eval simp del: take_take length_take dest: arg_cong [where f = length])
  then have "take 2 (take n s) = take 2 s" by (auto simp: min_def split: if_splits)
  ultimately show False using assms by simp
qed

lemma has_end_prefix_of_line:
  assumes "NEWLINE \<notin> set line" and "take 2 line \<noteq> lit ''En''" and "take 2 line \<noteq> lit ''en''"
    and "\<And>m. m < length r - keep \<Longrightarrow> \<not> has_end (lit ''EndInventoryList'') (take m r)"
    and "n < length (line @ NEWLINE # r) - keep"
  shows "\<not> has_end (lit ''EndInventoryList'') (take n (line @ NEWLINE # r))"
proof (cases "n \<le> length line")
  case True
  then have eq: "take n (line @ NEWLINE # r) = take n line" by simp
  have "NEWLINE \<notin> set (take n line)" using assms(1) by (meson in_set_takeD)
  with not_end_prefix [OF assms(2,3), of n] show ?thesis
    unfolding eq by (cases "take n line = []") (simp_all only: has_end_Nil has_end_last not_False_eq_True)
next
  case False
  define m where "m = n - length line - 1"
  have eq: "take n (line @ NEWLINE # r) = line @ NEWLINE # take m r"
    using False by (simp add: m_def take_Cons' )
  have "m < length r - keep" using assms(5) False by (auto simp: m_def)
  from assms(4) [OF this] show ?thesis
    unfolding eq has_end_line [OF assms(1)]
    using not_end_prefix [OF assms(2,3), of "length line"] by simp
qed

lemma item_line_no_end:
  assumes "il_item_line ord s = line @ [NEWLINE]"
  shows "NEWLINE \<notin> set line" and "take 2 line \<noteq> lit ''En''" and "take 2 line \<noteq> lit ''en''"
  using assms st_serialize_no_newline [of ord s]
  by (auto simp: il_item_line_def word_lines lit_eval split: if_splits)

lemma item_lines_no_end:
  "m < length (concat (map (il_item_line ord) ss) @ lit ''EndInventoryList'' @ [NEWLINE]) - 1 \<Longrightarrow>
   \<not> has_end (lit ''EndInventoryList'')
     (take m (concat (map (il_item_line ord) ss) @ lit ''EndInventoryList'' @ [NEWLINE]))"
proof (induction ss arbitrary: m)
  case Nil
  then have m: "m < 16" by (simp add: lit_eval)
  moreover have "length (lit ''EndInventoryList'') = 16" by (simp add: lit_eval)
  ultimately have eq: "take m (lit ''EndInventoryList'' @ [NEWLINE]) = take m (lit ''EndInventoryList'')"
    by simp
  have nl: "NEWLINE \<notin> set (take m (lit ''EndInventoryList''))"
    using word_lines by (meson in_set_takeD)
  have "length (take 16 (take m (lit ''EndInventoryList''))) < 16" using m by simp
  then have "take 16 (take m (lit ''EndInventoryList'')) \<noteq> lit ''EndInventoryList''"
    by (auto simp: lit_eval simp del: take_take length_take dest: arg_cong [where f = length])
  moreover have "take 2 (take m (lit ''EndInventoryList'')) \<noteq> lit ''en''"
    by (cases m; cases "m - 1") (auto simp: lit_eval)
  ultimately have "\<not> is_end (lit ''EndInventoryList'') (take m (lit ''EndInventoryList''))"
    using is_end_first by blast
  with nl have "\<not> has_end (lit ''EndInventoryList'') (take m (lit ''EndInventoryList''))"
    by (cases "take m (lit ''EndInventoryList'') = []") (simp_all only: has_end_last has_end_Nil not_False_eq_True)
  then show ?case by (simp only: eq list.map concat.simps append_Nil not_False_eq_True)
next
  case (Cons s ss)
  obtain line where line: "il_item_line ord s = line @ [NEWLINE]"
    by (auto simp: il_item_line_def)
  let ?r = "concat (map (il_item_line ord) ss) @ lit ''EndInventoryList'' @ [NEWLINE]"
  have "concat (map (il_item_line ord) (s # ss)) @ lit ''EndInventoryList'' @ [NEWLINE] =
      line @ NEWLINE # ?r" by (simp add: line)
  with Cons.prems have m: "m < length (line @ NEWLINE # ?r) - 1" by (simp only:)
  have "\<not> has_end (lit ''EndInventoryList'') (take m (line @ NEWLINE # ?r))"
    by (rule has_end_prefix_of_line [OF item_line_no_end [OF line] _ m]) (erule Cons.IH)
  then show ?case by (simp add: line)
qed

lemma cut_off_throws:
  assumes "n < length (il_serialize ord l) - 1"
  shows "\<exists>e. il_deSerialize stale idef l0 (take n (il_serialize ord l), True) = Inl e"
proof (rule ccontr)
  assume "\<not> ?thesis"
  then obtain res where "il_deSerialize stale idef l0 (take n (il_serialize ord l), True) = Inr res"
    by (cases "il_deSerialize stale idef l0 (take n (il_serialize ord l), True)") auto
  then have yes: "has_end (lit ''EndInventoryList'') (take n (il_serialize ord l))"
    using il_read_needs_end unfolding il_deSerialize_def by fastforce
  let ?line = "lit ''Width'' @ SPACE # dec (unat (il_width l))"
  let ?r = "concat (map (il_item_line ord) (il_items l)) @ lit ''EndInventoryList'' @ [NEWLINE]"
  have eq: "il_serialize ord l = ?line @ NEWLINE # ?r"
    by (simp add: il_serialize_def word_lines)
  have line: "NEWLINE \<notin> set ?line" "take 2 ?line \<noteq> lit ''En''" "take 2 ?line \<noteq> lit ''en''"
    by (simp add: word_lines) (simp_all add: lit_eval)
  have "\<not> has_end (lit ''EndInventoryList'') (take n (?line @ NEWLINE # ?r))"
    by (rule has_end_prefix_of_line [OF line _ assms [unfolded eq]]) (erule item_lines_no_end)
  with yes show False unfolding eq by simp
qed

lemma il_read_line_ok:
  "il_ok l \<Longrightarrow> case il_read_line stale idef line k l of Inl (e, l') \<Rightarrow> il_ok l' | Inr (k', l') \<Rightarrow> il_ok l'"
  by (auto simp: il_read_line_def case_prod_beta Let_def il_ok_items split: sum.split option.split prod.split)

lemma il_read_ok:
  "il_ok l \<Longrightarrow> case il_read stale idef k l is of Inl (e, l') \<Rightarrow> il_ok l' | Inr (l', is') \<Rightarrow> il_ok l'"
proof (induction stale idef k l "is" rule: il_read.induct)
  case (1 stale idef k l "is")
  obtain line is1 where g: "getline NEWLINE [] is = (line, is1)"
    by (cases "getline NEWLINE [] is")
  show ?case
  proof (cases "snd is \<and> \<not> is_end (lit ''EndInventoryList'') line")
    case False
    with "1.prems" g show ?thesis by (subst il_read.simps) (auto intro: il_ok_items)
  next
    case True
    show ?thesis
    proof (cases "il_read_line stale idef line k l")
      case (Inl e)
      with True g il_read_line_ok [OF "1.prems", of stale idef line k] show ?thesis
        by (subst il_read.simps) simp
    next
      case (Inr a)
      obtain k1 l1 where a: "a = (k1, l1)" by fastforce
      have "il_ok l1" using il_read_line_ok [OF "1.prems", of stale idef line k] Inr a by simp
      then have "case il_read stale idef k1 l1 is1 of Inl (e, l') \<Rightarrow> il_ok l' | Inr (l', is') \<Rightarrow> il_ok l'"
        using True Inr a g by (intro "1.IH") auto
      with True Inr a g show ?thesis by (subst il_read.simps) simp
    qed
  qed
qed

section \<open>Properties\<close>

text \<open>
  C23.  The number of slots of a list is always its size field: every operation that changes a
  list keeps it so, the reader included, whether it succeeds or throws half way.
\<close>

theorem list_size_kept:
  assumes "il_ok l"
  shows "il_ok (il_clearItems l) \<and>
    (\<forall>n l'. il_setSize n l = Inr l' \<longrightarrow> il_ok l' \<and> length (il_items l') = unat n) \<and>
    il_ok (fst (il_changeItem i s l)) \<and> il_ok (fst (il_addItem_at idef i s l)) \<and>
    il_ok (fst (il_addItem idef s l)) \<and> il_ok (fst (removeItem idef s mm l)) \<and>
    il_ok (fst (il_takeItem i k l)) \<and>
    (\<forall>l'. il_deleteItem i l = Some l' \<longrightarrow> il_ok l') \<and>
    (\<forall>o' l'. il_ok o' \<longrightarrow> il_assign o' l = Inr l' \<longrightarrow> il_ok l') \<and>
    (case il_deSerialize stale idef l is of Inl (e, l') \<Rightarrow> il_ok l' | Inr (l', _) \<Rightarrow> il_ok l')"
proof (intro conjI allI impI)
  show "il_ok (il_clearItems l)" using assms by simp
  show "il_ok l'" if "il_setSize n l = Inr l'" for n l' using il_ok_setSize [OF that assms] .
  then show "length (il_items l') = unat n" if "il_setSize n l = Inr l'" for n l'
    using that assms by (auto simp: il_setSize_def bind_ok_Inr Let_def split: if_splits)
  show "il_ok (fst (il_changeItem i s l))"
    using changeItem_items(2) il_ok_frame [OF _ assms] by (metis prod.collapse)
  show "il_ok (fst (il_addItem_at idef i s l))"
    using addItem_at_items(2) il_ok_frame [OF _ assms] by (metis prod.collapse)
  show "il_ok (fst (il_addItem idef s l))"
    using addItem_list_items(2) il_ok_frame [OF _ assms] by (metis prod.collapse)
  show "il_ok (fst (removeItem idef s mm l))"
    using removeItem_frame il_ok_frame [OF _ assms] by (metis prod.collapse)
  show "il_ok (fst (il_takeItem i k l))"
    using takeItem_list_items(2) il_ok_frame [OF _ assms] by (metis prod.collapse)
  show "il_ok l'" if "il_deleteItem i l = Some l'" for l'
    using that assms by (auto simp: il_deleteItem_def il_ok_items split: if_splits)
  show "il_ok l'" if "il_ok o'" "il_assign o' l = Inr l'" for o' l'
    using that by (auto simp: il_assign_def bind_ok_Inr il_ok_def)
  show "case il_deSerialize stale idef l is of Inl (e, l') \<Rightarrow> il_ok l' | Inr (l', _) \<Rightarrow> il_ok l'"
    using assms unfolding il_deSerialize_def by (intro il_read_ok) simp
qed

theorem list_size_kept_witness:
  "il_ok sample_list \<and> il_ok (fst (il_addItem sample_idef (sample_stack 98 7) sample_list))"
proof -
  have "il_ok sample_list" by (simp add: sample_list_def il_ok_def new_InventoryList_def
        il_clearItems_def il_setModified_def)
  with list_size_kept [OF this, of _ "sample_stack 98 7"] show ?thesis by blast
qed

text \<open>
  C24.  The text of a list that has been cut off anywhere before its last byte is never taken
  for a list: the reader throws.
\<close>

theorem cut_off_list_throws:
  assumes "n < length (il_serialize ord l) - 1"
  shows "\<exists>e l'. il_deSerialize stale idef l0 (take n (il_serialize ord l), True) = Inl (e, l')"
  using cut_off_throws [OF assms] by auto

theorem cut_off_list_throws_witness:
  "\<exists>e l'. il_deSerialize 0 sample_idef sample_list (take 9 (il_serialize (\<lambda>_. []) sample_list), True) = Inl (e, l')"
  by (rule cut_off_list_throws) (simp add: il_serialize_def lit_eval)

end
