(* ===== verification/Inventory.thy ===== *)
theory Inventory
  imports InventoryText
begin

text \<open>
  \<open>Inventory\<close> (\<open>src/inventory.h\<close>, last part of \<open>src/inventory.cpp\<close>): the named lists of a
  player, a node or a mod, and their text form.  The vector of pointers of the code is the
  list of what they point to; a pointer to a list is the name it is found under.
\<close>

section \<open>Lists by name\<close>

record Inventory =
  m_lists :: "InventoryList list"
  inv_dirty :: bool

definition new_Inventory :: Inventory where
  "new_Inventory = \<lparr>m_lists = [], inv_dirty = True\<rparr>"

definition inv_setModified :: "bool \<Rightarrow> Inventory \<Rightarrow> Inventory" where
  "inv_setModified dirty iv =
     (if dirty then iv\<lparr>inv_dirty := True\<rparr>
      else iv\<lparr>inv_dirty := False, m_lists := map (il_setModified False) (m_lists iv)\<rparr>)"

definition inv_checkModified :: "Inventory \<Rightarrow> bool" where
  "inv_checkModified iv \<longleftrightarrow> inv_dirty iv \<or> list_ex il_dirty (m_lists iv)"

fun find_index :: "('a \<Rightarrow> bool) \<Rightarrow> 'a list \<Rightarrow> nat option" where
  "find_index P [] = None"
| "find_index P (x # xs) = (if P x then Some 0 else map_option Suc (find_index P xs))"

text \<open>The first list of that name; \<open>None\<close> is the code's -1.\<close>

definition getListIndex :: "bytes \<Rightarrow> Inventory \<Rightarrow> nat option" where
  "getListIndex name iv = find_index (\<lambda>l. il_name l = name) (m_lists iv)"

definition getList :: "bytes \<Rightarrow> Inventory \<Rightarrow> InventoryList option" where
  "getList name iv = map_option ((!) (m_lists iv)) (getListIndex name iv)"

text \<open>What is done to a list through its pointer.\<close>

definition putList :: "bytes \<Rightarrow> InventoryList \<Rightarrow> Inventory \<Rightarrow> Inventory" where
  "putList name l iv =
     (case getListIndex name iv of
        None \<Rightarrow> iv
      | Some i \<Rightarrow> iv\<lparr>m_lists := (m_lists iv)[i := l]\<rparr>)"

definition inv_clear :: "Inventory \<Rightarrow> inv_error + Inventory" where
  "inv_clear iv =
     bind_ok (fold_ok (\<lambda>l _. checkResizeLock l) (m_lists iv) ()) (\<lambda>_.
       Inr (inv_setModified True (iv\<lparr>m_lists := []\<rparr>)))"

text \<open>The copy of a list starts dirty and without locks.\<close>

definition copy_list :: "InventoryList \<Rightarrow> InventoryList" where
  "copy_list l = l\<lparr>il_dirty := True, il_resize_locks := 0\<rparr>"

text \<open>\<open>operator=\<close> from another inventory.\<close>

definition inv_assign :: "Inventory \<Rightarrow> Inventory \<Rightarrow> inv_error + Inventory" where
  "inv_assign other iv =
     bind_ok (inv_clear iv) (\<lambda>iv.
       Inr (inv_setModified True (iv\<lparr>m_lists := map copy_list (m_lists other)\<rparr>)))"

definition inv_eq :: "Inventory \<Rightarrow> Inventory \<Rightarrow> bool" where
  "inv_eq a b \<longleftrightarrow> list_all2 il_eq (m_lists a) (m_lists b)"

text \<open>A list that is there is resized and cleared; a name with a space gives none.\<close>

definition addList :: "bytes \<Rightarrow> u32 \<Rightarrow> Inventory \<Rightarrow> inv_error + Inventory \<times> bool" where
  "addList name sz iv =
     (let iv = inv_setModified True iv in
      case getListIndex name iv of
        Some i \<Rightarrow>
          bind_ok (il_setSize sz (m_lists iv ! i)) (\<lambda>l.
            Inr (iv\<lparr>m_lists := (m_lists iv)[i := il_clearItems l]\<rparr>, True))
      | None \<Rightarrow>
          if SPACE \<in> set name then Inr (iv, False)
          else Inr (iv\<lparr>m_lists := m_lists iv @ [il_setModified True (new_InventoryList name sz)]\<rparr>, True))"

definition deleteList :: "bytes \<Rightarrow> Inventory \<Rightarrow> inv_error + Inventory \<times> bool" where
  "deleteList name iv =
     (case getListIndex name iv of
        None \<Rightarrow> Inr (iv, False)
      | Some i \<Rightarrow>
          bind_ok (checkResizeLock (m_lists iv ! i)) (\<lambda>_.
            Inr ((inv_setModified True iv)\<lparr>m_lists := take i (m_lists iv) @ drop (i + 1) (m_lists iv)\<rparr>,
                 True)))"

definition inv_addItem ::
  "IItemDefManager \<Rightarrow> bytes \<Rightarrow> ItemStack \<Rightarrow> Inventory \<Rightarrow> Inventory \<times> ItemStack" where
  "inv_addItem idef listname newitem iv =
     (case getList listname iv of
        None \<Rightarrow> (iv, newitem)
      | Some l \<Rightarrow> let (l, rest) = il_addItem idef newitem l in (putList listname l iv, rest))"

section \<open>Text form\<close>

definition inv_list_text :: "(metadata \<Rightarrow> bytes list) \<Rightarrow> bool \<Rightarrow> InventoryList \<Rightarrow> bytes" where
  "inv_list_text ord incremental l =
     (if \<not> incremental \<or> il_dirty l
      then lit ''List '' @ il_name l @ [SPACE] @ dec (length (il_items l)) @ [NEWLINE] @ il_serialize ord l
      else lit ''KeepList '' @ il_name l @ [NEWLINE])"

definition inv_serialize :: "(metadata \<Rightarrow> bytes list) \<Rightarrow> bool \<Rightarrow> Inventory \<Rightarrow> bytes" where
  "inv_serialize ord incremental iv =
     concat (map (inv_list_text ord incremental) (m_lists iv)) @ lit ''EndInventory'' @ [NEWLINE]"

text \<open>
  \<open>deSerialize\<close> remembers the pointers to the lists it has read (\<open>new_lists\<close>); here their
  positions.  At the end mark the others are deleted.  An exception leaves the inventory as
  far as it was read; a list that was being created is lost with it.
\<close>

definition inv_finish :: "nat list \<Rightarrow> Inventory \<Rightarrow> Inventory" where
  "inv_finish new_lists iv =
     (let kept = map snd (filter (\<lambda>(i, l). i \<in> set new_lists) (zip [0..<length (m_lists iv)] (m_lists iv))) in
      if length kept = length (m_lists iv) then iv
      else (inv_setModified True iv)\<lparr>m_lists := kept\<rparr>)"

definition inv_read_list ::
  "u16 \<Rightarrow> u32 \<Rightarrow> IItemDefManager \<Rightarrow> istream \<Rightarrow> nat list \<Rightarrow> Inventory \<Rightarrow> istream \<Rightarrow>
   (inv_error \<times> Inventory) + nat list \<times> Inventory \<times> istream" where
  "inv_read_list stale stale_size idef iss new_lists iv is =
     (let (listname, iss) = getline SPACE [] iss;
          listsize = (case fst (extract_unsigned iss) of None \<Rightarrow> stale_size | Some (v, _) \<Rightarrow> v) in
      case getListIndex listname iv of
        Some i \<Rightarrow>
          (case il_setSize listsize (m_lists iv ! i) of
             Inl e \<Rightarrow> Inl (e, iv)
           | Inr l \<Rightarrow>
               (case il_deSerialize stale idef l is of
                  Inl (e, l) \<Rightarrow> Inl (InvSerializationError e, iv\<lparr>m_lists := (m_lists iv)[i := l]\<rparr>)
                | Inr (l, is) \<Rightarrow> Inr (new_lists @ [i], iv\<lparr>m_lists := (m_lists iv)[i := l]\<rparr>, is)))
      | None \<Rightarrow>
          (case il_deSerialize stale idef (new_InventoryList listname listsize) is of
             Inl (e, _) \<Rightarrow> Inl (InvSerializationError e, iv)
           | Inr (l, is) \<Rightarrow>
               Inr (new_lists @ [length (m_lists iv)], iv\<lparr>m_lists := m_lists iv @ [l]\<rparr>, is)))"

text \<open>The loop over the lines; it uses up the stream, which is the fuel.\<close>

fun inv_read ::
  "nat \<Rightarrow> u16 \<Rightarrow> u32 \<Rightarrow> IItemDefManager \<Rightarrow> nat list \<Rightarrow> Inventory \<Rightarrow> istream \<Rightarrow>
   ((inv_error \<times> Inventory) + Inventory \<times> istream) option" where
  "inv_read 0 stale stale_size idef new_lists iv is = None"
| "inv_read (Suc n) stale stale_size idef new_lists iv is =
     (if \<not> snd is
      then Some (Inl (InvSerializationError (SerializationError ''Malformatted inventory (damaged?).''), iv))
      else
        let (line, is) = getline NEWLINE [] is;
            (name, iss) = getline SPACE [] (line, True) in
        if name = lit ''EndInventory'' \<or> name = lit ''end''
        then Some (Inr (inv_finish new_lists iv, is))
        else if name = lit ''List''
        then
          (case inv_read_list stale stale_size idef iss new_lists iv is of
             Inl e \<Rightarrow> Some (Inl e)
           | Inr (new_lists, iv, is) \<Rightarrow> inv_read n stale stale_size idef new_lists iv is)
        else if name = lit ''KeepList''
        then
          (case getListIndex (fst (getline SPACE [] iss)) iv of
             Some i \<Rightarrow> inv_read n stale stale_size idef (new_lists @ [i]) iv is
           | None \<Rightarrow> inv_read n stale stale_size idef new_lists iv is)
        else inv_read n stale stale_size idef new_lists iv is)"

definition inv_deSerialize ::
  "u16 \<Rightarrow> u32 \<Rightarrow> IItemDefManager \<Rightarrow> Inventory \<Rightarrow> istream \<Rightarrow>
   ((inv_error \<times> Inventory) + Inventory \<times> istream) option" where
  "inv_deSerialize stale stale_size idef iv is =
     inv_read (istream_left is + 1) stale stale_size idef [] iv is"

section \<open>Every text is read to an end\<close>

lemma il_read_left:
  "il_read stale idef k l is = Inr (l', is') \<Longrightarrow> istream_left is' < istream_left is"
proof (induction stale idef k l "is" rule: il_read.induct)
  case (1 stale idef k l "is")
  obtain line is1 where g: "getline NEWLINE [] is = (line, is1)"
    by (cases "getline NEWLINE [] is")
  have good: "snd is" using "1.prems" by (subst (asm) il_read.simps) (auto split: if_splits)
  then have less: "istream_left is1 < istream_left is"
    using getline_progress [of "is" NEWLINE "[]"] g by simp
  show ?case
  proof (cases "is_end (lit ''EndInventoryList'') line")
    case True
    with "1.prems" g good less show ?thesis by (subst (asm) il_read.simps) auto
  next
    case False
    then obtain k1 l1 where "il_read_line stale idef line k l = Inr (k1, l1)"
      and "il_read stale idef k1 l1 is1 = Inr (l', is')"
      using "1.prems" g good by (subst (asm) il_read.simps) (auto split: sum.splits)
    with "1.IH" g good False less show ?thesis by (metis less_trans)
  qed
qed

lemma il_deSerialize_left:
  "il_deSerialize stale idef l is = Inr (l', is') \<Longrightarrow> istream_left is' < istream_left is"
  unfolding il_deSerialize_def by (rule il_read_left)

lemma inv_read_list_left:
  "inv_read_list stale ssz idef iss nl iv is = Inr (nl', iv', is') \<Longrightarrow> istream_left is' < istream_left is"
  by (auto simp: inv_read_list_def case_prod_beta Let_def split: option.splits sum.splits
      dest: il_deSerialize_left)

lemma inv_read_ends:
  "istream_left is < n \<Longrightarrow> \<exists>r. inv_read n stale ssz idef nl iv is = Some r"
proof (induction n arbitrary: nl iv "is")
  case (Suc n)
  show ?case
  proof (cases "snd is")
    case True
    obtain line is1 where g: "getline NEWLINE [] is = (line, is1)" by (cases "getline NEWLINE [] is")
    then have less: "istream_left is1 < n"
      using getline_progress [OF True, of NEWLINE "[]"] Suc.prems by simp
    have IH: "\<exists>r. inv_read n stale ssz idef nl' iv' is' = Some r"
      if "istream_left is' \<le> istream_left is1" for nl' iv' is'
      using that less by (intro Suc.IH) simp
    show ?thesis
      using True g IH
      by (auto simp: case_prod_beta Let_def split: sum.split option.split dest!: inv_read_list_left)
  qed simp
qed simp

section \<open>Sending an inventory\<close>

definition list_ok :: "IItemDefManager \<Rightarrow> (metadata \<Rightarrow> bytes list) \<Rightarrow> InventoryList \<Rightarrow> bool" where
  "list_ok idef ord l \<longleftrightarrow> il_ok l \<and> SPACE \<notin> set (il_name l) \<and> NEWLINE \<notin> set (il_name l) \<and>
     list_all (\<lambda>s. st_ok idef ord s \<and> (st_empty s \<longrightarrow> st_eq no_item s)) (il_items l)"

definition inv_ok :: "IItemDefManager \<Rightarrow> (metadata \<Rightarrow> bytes list) \<Rightarrow> Inventory \<Rightarrow> bool" where
  "inv_ok idef ord iv \<longleftrightarrow> distinct (map il_name (m_lists iv)) \<and> list_all (list_ok idef ord) (m_lists iv)"

definition unlocked :: "Inventory \<Rightarrow> bool" where
  "unlocked iv \<longleftrightarrow> distinct (map il_name (m_lists iv)) \<and> list_all (\<lambda>l. il_resize_locks l = 0) (m_lists iv)"

lemma find_index_Some:
  "find_index P xs = Some i \<Longrightarrow> i < length xs \<and> P (xs ! i)"
  by (induction xs arbitrary: i) (auto split: if_splits)

lemma find_index_None: "find_index P xs = None \<longleftrightarrow> (\<forall>x\<in>set xs. \<not> P x)"
  by (induction xs) auto

lemma getListIndex_Some:
  "getListIndex n iv = Some i \<Longrightarrow> i < length (m_lists iv) \<and> il_name (m_lists iv ! i) = n"
  unfolding getListIndex_def by (drule find_index_Some)

lemma getListIndex_None: "getListIndex n iv = None \<longleftrightarrow> (\<forall>l\<in>set (m_lists iv). il_name l \<noteq> n)"
  by (simp add: getListIndex_def find_index_None)

lemma getListIndex_distinct:
  assumes "distinct (map il_name (m_lists iv))" and "i < length (m_lists iv)"
  shows "getListIndex (il_name (m_lists iv ! i)) iv = Some i"
proof (cases "getListIndex (il_name (m_lists iv ! i)) iv")
  case None
  then show ?thesis using assms(2) by (auto simp: getListIndex_None)
next
  case (Some j)
  from getListIndex_Some [OF this] assms show ?thesis
    by (metis Some distinct_conv_nth length_map nth_map)
qed

lemma getList_iff:
  assumes "distinct (map il_name (m_lists iv))"
  shows "getList n iv = Some l \<longleftrightarrow> l \<in> set (m_lists iv) \<and> il_name l = n"
proof
  assume "getList n iv = Some l"
  then show "l \<in> set (m_lists iv) \<and> il_name l = n"
    using getListIndex_Some by (fastforce simp: getList_def)
next
  assume "l \<in> set (m_lists iv) \<and> il_name l = n"
  then obtain i where "i < length (m_lists iv)" "m_lists iv ! i = l" "il_name l = n"
    by (metis in_set_conv_nth)
  with getListIndex_distinct [OF assms, of i] show "getList n iv = Some l" by (simp add: getList_def)
qed

lemma st_read_back_eq:
  "(st_empty s \<longrightarrow> st_eq no_item s) \<Longrightarrow> st_eq (st_read_back old s) s"
  using st_plain_eq(1) [of s]
  by (cases "st_empty s")
    (auto simp: st_read_back_def st_eq_def meta_eq_def st_clear_def meta_clear_def
      no_item_def new_metadata_def)

lemma il_deSerialize_eq:
  assumes l: "list_ok idef ord l" and l0: "il_size l0 = il_size l" "il_ok l0" "il_name l0 = il_name l"
  obtains l' where "il_deSerialize stale idef l0 (il_serialize ord l @ r, True) = Inr (l', r, True)"
    and "il_eq l' l" and "il_name l' = il_name l" and "il_resize_locks l' = il_resize_locks l0"
proof
  let ?l = "l0\<lparr>il_dirty := True, il_width := il_width l,
      il_items := map2 st_read_back (il_items l0) (il_items l)\<rparr>"
  have items: "list_all (st_ok idef ord) (il_items l)" and len: "length (il_items l0) = length (il_items l)"
    using l l0 by (auto simp: list_ok_def list_all_iff il_ok_def)
  from il_roundtrip [OF items len] show "il_deSerialize stale idef l0 (il_serialize ord l @ r, True) = Inr (?l, r, True)" .
  have "list_all2 st_eq (map2 st_read_back (il_items l0) (il_items l)) (il_items l)"
    using l len by (auto simp: list_all2_conv_all_nth list_ok_def list_all_length intro!: st_read_back_eq)
  then show "il_eq ?l l" using l0 by (simp add: il_eq_def)
qed (use l0 in simp_all)

lemma written_header:
  assumes "list_ok idef ord l"
  shows "getline SPACE [] (lit ''List'' @ SPACE # il_name l @ SPACE # dec (length (il_items l)), True) =
      (lit ''List'', il_name l @ SPACE # dec (length (il_items l)), True)"
    and "getline SPACE [] (il_name l @ SPACE # dec (length (il_items l)), True) =
      (il_name l, dec (length (il_items l)), True)"
    and "fst (extract_unsigned (dec (length (il_items l)), True)) = Some (il_size l, False)"
    and "NEWLINE \<notin> set (lit ''List'' @ SPACE # il_name l @ SPACE # dec (length (il_items l)))"
proof -
  show "getline SPACE [] (lit ''List'' @ SPACE # il_name l @ SPACE # dec (length (il_items l)), True) =
      (lit ''List'', il_name l @ SPACE # dec (length (il_items l)), True)"
    by (rule getline_token) (simp add: lit_eval)
  show "getline SPACE [] (il_name l @ SPACE # dec (length (il_items l)), True) =
      (il_name l, dec (length (il_items l)), True)"
    by (rule getline_token) (use assms in \<open>simp add: list_ok_def\<close>)
  have "length (il_items l) = unat (il_size l)" using assms by (simp add: list_ok_def il_ok_def)
  then show "fst (extract_unsigned (dec (length (il_items l)), True)) = Some (il_size l, False)"
    using extract_dec_word [of "[]" "il_size l"] by simp
  show "NEWLINE \<notin> set (lit ''List'' @ SPACE # il_name l @ SPACE # dec (length (il_items l)))"
    using assms by (simp add: list_ok_def lit_eval)
qed

lemma inv_words:
  "lit ''List '' = lit ''List'' @ [SPACE]" "lit ''KeepList '' = lit ''KeepList'' @ [SPACE]"
  "lit ''List'' \<noteq> lit ''EndInventory''" "lit ''List'' \<noteq> lit ''end''"
  "lit ''KeepList'' \<noteq> lit ''EndInventory''" "lit ''KeepList'' \<noteq> lit ''end''" "lit ''KeepList'' \<noteq> lit ''List''"
  "SPACE \<notin> set (lit ''KeepList'')" "NEWLINE \<notin> set (lit ''KeepList'')"
  "SPACE \<notin> set (lit ''EndInventory'')" "NEWLINE \<notin> set (lit ''EndInventory'')"
  by (simp_all add: lit_eval)

text \<open>What reading one list does to the inventory that is being filled.\<close>

definition received :: "nat list \<Rightarrow> Inventory \<Rightarrow> InventoryList \<Rightarrow> nat list \<Rightarrow> Inventory \<Rightarrow> bool" where
  "received nl cur l nl' cur' \<longleftrightarrow>
     (\<exists>i l'. nl' = nl @ [i] \<and> il_eq l' l \<and> il_resize_locks l' = 0 \<and> i \<le> length (m_lists cur) \<and>
       m_lists cur' = (m_lists cur @ (if i = length (m_lists cur) then [l'] else []))[i := l'] \<and>
       (\<forall>j<length (m_lists cur). il_name (m_lists cur ! j) = il_name l \<longleftrightarrow> j = i))"

lemma unlocked_index:
  assumes "unlocked cur" and "getListIndex n cur = Some i"
  shows "\<forall>j<length (m_lists cur). il_name (m_lists cur ! j) = n \<longleftrightarrow> j = i"
    and "il_resize_locks (m_lists cur ! i) = 0"
proof -
  show "\<forall>j<length (m_lists cur). il_name (m_lists cur ! j) = n \<longleftrightarrow> j = i"
    using getListIndex_Some [OF assms(2)] getListIndex_distinct [of cur] assms
    by (metis option.inject unlocked_def)
  show "il_resize_locks (m_lists cur ! i) = 0"
    using assms getListIndex_Some [OF assms(2)] by (simp add: unlocked_def list_all_length)
qed

lemma inv_read_list_written:
  assumes l: "list_ok idef ord l" and cur: "unlocked cur" "list_all il_ok (m_lists cur)"
  obtains nl' cur' where "inv_read_list stale ssz idef (il_name l @ SPACE # dec (length (il_items l)), True)
      nl cur (il_serialize ord l @ r, True) = Inr (nl', cur', r, True)"
    and "received nl cur l nl' cur'"
proof (cases "getListIndex (il_name l) cur")
  case None
  have "il_size (new_InventoryList (il_name l) (il_size l)) = il_size l" "il_ok (new_InventoryList (il_name l) (il_size l))"
    "il_name (new_InventoryList (il_name l) (il_size l)) = il_name l"
    "il_resize_locks (new_InventoryList (il_name l) (il_size l)) = 0"
    by (simp_all add: new_InventoryList_def il_clearItems_def il_setModified_def il_ok_def)
  note new = this
  obtain l' where l': "il_deSerialize stale idef (new_InventoryList (il_name l) (il_size l)) (il_serialize ord l @ r, True)
      = Inr (l', r, True)" "il_eq l' l" "il_resize_locks l' = 0"
    using il_deSerialize_eq [OF l new(1-3)] new(4) by metis
  show ?thesis
  proof (rule that)
    show "inv_read_list stale ssz idef (il_name l @ SPACE # dec (length (il_items l)), True)
        nl cur (il_serialize ord l @ r, True) =
        Inr (nl @ [length (m_lists cur)], cur\<lparr>m_lists := m_lists cur @ [l']\<rparr>, r, True)"
      by (simp add: inv_read_list_def written_header [OF l] None l'(1))
    show "received nl cur l (nl @ [length (m_lists cur)]) (cur\<lparr>m_lists := m_lists cur @ [l']\<rparr>)"
      using l'(2,3) None by (auto simp: received_def getListIndex_None)
  qed
next
  case (Some i)
  note i = getListIndex_Some [OF Some] unlocked_index [OF cur(1) Some]
  obtain l1 where l1: "il_setSize (il_size l) (m_lists cur ! i) = Inr l1" "il_size l1 = il_size l"
      "il_ok l1" "il_name l1 = il_name l" "il_resize_locks l1 = 0"
  proof -
    have ok: "il_ok (m_lists cur ! i)" using cur(2) i(1) by (simp add: list_all_length)
    obtain l1 where l1: "il_setSize (il_size l) (m_lists cur ! i) = Inr l1"
      using i(3) by (cases "il_setSize (il_size l) (m_lists cur ! i)")
        (auto simp: il_setSize_def Let_def checkResizeLock_def split: if_splits)
    moreover have "il_size l1 = il_size l \<and> il_name l1 = il_name l \<and> il_resize_locks l1 = 0"
      using l1 i ok
      by (auto simp: il_setSize_def Let_def bind_ok_Inr il_setModified_def il_ok_def word_unat_eq_iff split: if_splits)
    ultimately show ?thesis using that il_ok_setSize [OF l1 ok] by blast
  qed
  obtain l' where l': "il_deSerialize stale idef l1 (il_serialize ord l @ r, True) = Inr (l', r, True)"
      "il_eq l' l" "il_resize_locks l' = 0"
    using il_deSerialize_eq [OF l l1(2-4)] l1(5) by metis
  show ?thesis
  proof (rule that)
    show "inv_read_list stale ssz idef (il_name l @ SPACE # dec (length (il_items l)), True)
        nl cur (il_serialize ord l @ r, True) =
        Inr (nl @ [i], cur\<lparr>m_lists := (m_lists cur)[i := l']\<rparr>, r, True)"
      by (simp add: inv_read_list_def written_header [OF l] Some l1(1) l'(1))
    show "received nl cur l (nl @ [i]) (cur\<lparr>m_lists := (m_lists cur)[i := l']\<rparr>)"
      using l'(2,3) i by (auto simp: received_def)
  qed
qed

text \<open>
  The receiver while the lists \<open>ls\<close> have been read: the positions it remembers hold these
  lists and no other.
\<close>

definition synced :: "nat list \<Rightarrow> Inventory \<Rightarrow> InventoryList list \<Rightarrow> bool" where
  "synced nl cur ls \<longleftrightarrow> unlocked cur \<and> list_all il_ok (m_lists cur) \<and>
     (\<forall>i\<in>set nl. i < length (m_lists cur) \<and> (\<exists>l\<in>set ls. il_eq (m_lists cur ! i) l)) \<and>
     (\<forall>l\<in>set ls. \<exists>i\<in>set nl. il_eq (m_lists cur ! i) l)"

text \<open>The receiver has what will not be sent.\<close>

definition has_rest :: "bool \<Rightarrow> Inventory \<Rightarrow> InventoryList list \<Rightarrow> bool" where
  "has_rest incremental cur ls \<longleftrightarrow>
     (\<forall>l\<in>set ls. incremental \<and> \<not> il_dirty l \<longrightarrow> (\<exists>c\<in>set (m_lists cur). il_eq c l))"

lemma il_eq_name: "il_eq a b \<Longrightarrow> il_name a = il_name b"
  by (simp add: il_eq_def)

lemma il_eq_ok: "il_eq a b \<Longrightarrow> il_ok b \<Longrightarrow> il_ok a"
  by (auto simp: il_eq_def il_ok_def list_all2_lengthD)

lemma received_synced:
  assumes rc: "received nl cur l nl' cur'" and sy: "synced nl cur ls" and l: "il_ok l"
    and fresh: "il_name l \<notin> il_name ` set ls"
  shows "synced nl' cur' (ls @ [l])"
    and "\<And>c. c \<in> set (m_lists cur) \<Longrightarrow> il_name c \<noteq> il_name l \<Longrightarrow> c \<in> set (m_lists cur')"
proof -
  obtain i l' where nl': "nl' = nl @ [i]" and l': "il_eq l' l" "il_resize_locks l' = 0"
    and i: "i \<le> length (m_lists cur)"
    and m: "m_lists cur' = (m_lists cur @ (if i = length (m_lists cur) then [l'] else []))[i := l']"
    and named: "\<forall>j<length (m_lists cur). il_name (m_lists cur ! j) = il_name l \<longleftrightarrow> j = i"
    using rc unfolding received_def by blast
  have len: "length (m_lists cur') = max (length (m_lists cur)) (i + 1)" using i by (simp add: m)
  have at_i: "m_lists cur' ! i = l'" using i by (simp add: m nth_append)
  have at_j: "m_lists cur' ! j = m_lists cur ! j" if "j < length (m_lists cur)" "j \<noteq> i" for j
    using that by (simp add: m nth_append)
  have old: "i \<notin> set nl"
  proof
    assume "i \<in> set nl"
    then obtain k where "k \<in> set ls" "il_eq (m_lists cur ! i) k" "i < length (m_lists cur)"
      using sy by (auto simp: synced_def)
    moreover from this have "il_name (m_lists cur ! i) = il_name k" by (simp add: il_eq_name)
    ultimately show False using named fresh by (metis image_eqI)
  qed
  have names: "distinct (map il_name (m_lists cur'))"
  proof (cases "i < length (m_lists cur)")
    case True
    then have "map il_name (m_lists cur') = (map il_name (m_lists cur))[i := il_name l]"
      using l'(1) by (simp add: m map_update il_eq_name)
    also have "\<dots> = map il_name (m_lists cur)"
      using named True by (intro list_update_same_conv [THEN iffD2]) auto
    finally show ?thesis using sy by (simp add: synced_def unlocked_def)
  next
    case False
    with i have "m_lists cur' = m_lists cur @ [l']" by (simp add: m)
    moreover have "il_name l \<notin> il_name ` set (m_lists cur)"
      using named False by (auto simp: in_set_conv_nth)
    ultimately show ?thesis using sy l'(1) by (simp add: synced_def unlocked_def il_eq_name)
  qed
  have all: "list_all P (m_lists cur')" if "list_all P (m_lists cur)" "P l'" for P
    unfolding list_all_length
  proof (intro allI impI)
    fix j assume j: "j < length (m_lists cur')"
    show "P (m_lists cur' ! j)"
    proof (cases "j = i")
      case True
      with that(2) at_i show ?thesis by simp
    next
      case False
      with j len i have "j < length (m_lists cur)" by auto
      with that(1) at_j False show ?thesis by (simp add: list_all_length)
    qed
  qed
  show "synced nl' cur' (ls @ [l])"
    unfolding synced_def unlocked_def
  proof (intro conjI ballI)
    show "distinct (map il_name (m_lists cur'))" by (rule names)
    show "list_all (\<lambda>l. il_resize_locks l = 0) (m_lists cur')"
      using sy l'(2) by (intro all) (simp_all add: synced_def unlocked_def)
    show "list_all il_ok (m_lists cur')"
      using sy il_eq_ok [OF l'(1) l] by (intro all) (simp_all add: synced_def)
  next
    fix j assume "j \<in> set nl'"
    then consider "j = i" | "j \<in> set nl" "j \<noteq> i" using nl' old by auto
    then show "j < length (m_lists cur')"
      using sy len by cases (auto simp: synced_def)
  next
    fix j assume "j \<in> set nl'"
    then consider "j = i" | "j \<in> set nl" "j \<noteq> i" using nl' old by auto
    then show "\<exists>k\<in>set (ls @ [l]). il_eq (m_lists cur' ! j) k"
    proof cases
      case 1
      with at_i l' show ?thesis by simp
    next
      case 2
      with sy at_j show ?thesis unfolding synced_def by fastforce
    qed
  next
    fix k assume "k \<in> set (ls @ [l])"
    then consider "k = l" | "k \<in> set ls" by auto
    then show "\<exists>j\<in>set nl'. il_eq (m_lists cur' ! j) k"
    proof cases
      case 1
      with at_i l' nl' show ?thesis by auto
    next
      case 2
      then obtain j where "j \<in> set nl" "il_eq (m_lists cur ! j) k" "j < length (m_lists cur)"
        using sy unfolding synced_def by blast
      moreover from this old have "j \<noteq> i" by blast
      ultimately show ?thesis using at_j [of j] nl' by (intro bexI [of _ j]) simp_all
    qed
  qed
  show "c \<in> set (m_lists cur')" if c: "c \<in> set (m_lists cur)" "il_name c \<noteq> il_name l" for c
  proof -
    obtain j where j: "j < length (m_lists cur)" "m_lists cur ! j = c" using c(1) by (metis in_set_conv_nth)
    with named c(2) have "j \<noteq> i" by blast
    with at_j [of j] j have "m_lists cur' ! j = c" by simp
    with j(1) len show ?thesis by (metis less_max_iff_disj nth_mem)
  qed
qed

lemma kept_synced:
  assumes sy: "synced nl cur ls" and idx: "getListIndex (il_name l) cur = Some i"
    and eq: "il_eq (m_lists cur ! i) l"
  shows "synced (nl @ [i]) cur (ls @ [l])"
proof -
  have "i < length (m_lists cur)" using getListIndex_Some [OF idx] by simp
  with sy eq show ?thesis unfolding synced_def by auto
qed

lemma inv_read_one:
  assumes l: "list_ok idef ord l" and sy: "synced nl cur ls" and rest: "has_rest incremental cur (l # todo)"
    and fresh: "il_name l \<notin> il_name ` set ls" "il_name l \<notin> il_name ` set todo"
  obtains nl' cur' where
    "inv_read (Suc n) stale ssz idef nl cur (inv_list_text ord incremental l @ r, True) =
     inv_read n stale ssz idef nl' cur' (r, True)"
    and "synced nl' cur' (ls @ [l])" and "has_rest incremental cur' todo"
proof (cases "\<not> incremental \<or> il_dirty l")
  case True
  define line where "line = lit ''List'' @ SPACE # il_name l @ SPACE # dec (length (il_items l))"
  have written: "inv_list_text ord incremental l @ r = line @ NEWLINE # il_serialize ord l @ r"
    using True by (simp add: inv_list_text_def inv_words line_def)
  note line = written_header(1,4) [OF l, folded line_def]
  have cur: "unlocked cur" "list_all il_ok (m_lists cur)" using sy by (simp_all add: synced_def)
  obtain nl' cur' where rd: "inv_read_list stale ssz idef (il_name l @ SPACE # dec (length (il_items l)), True)
        nl cur (il_serialize ord l @ r, True) = Inr (nl', cur', r, True)"
    and rc: "received nl cur l nl' cur'"
    using inv_read_list_written [OF l cur] by metis
  have ok: "il_ok l" using l by (simp add: list_ok_def)
  note rs = received_synced [OF rc sy ok fresh(1)]
  show ?thesis
  proof (rule that)
    show "inv_read (Suc n) stale ssz idef nl cur (inv_list_text ord incremental l @ r, True) =
        inv_read n stale ssz idef nl' cur' (r, True)"
      unfolding written using line rd by (simp add: inv_words)
    show "synced nl' cur' (ls @ [l])" by (rule rs(1))
    show "has_rest incremental cur' todo"
      unfolding has_rest_def
    proof (intro ballI impI)
      fix k assume k: "k \<in> set todo" "incremental \<and> \<not> il_dirty k"
      then obtain c where c: "c \<in> set (m_lists cur)" "il_eq c k" using rest by (auto simp: has_rest_def)
      then have "il_name c \<noteq> il_name l" using fresh(2) k(1) il_eq_name [OF c(2)] by (metis image_eqI)
      from rs(2) [OF c(1) this] c(2) show "\<exists>c\<in>set (m_lists cur'). il_eq c k" by blast
    qed
  qed
next
  case False
  define line where "line = lit ''KeepList'' @ SPACE # il_name l"
  have written: "inv_list_text ord incremental l @ r = line @ NEWLINE # r"
    using False by (simp add: inv_list_text_def inv_words line_def)
  have nl: "NEWLINE \<notin> set line" and sp: "SPACE \<notin> set (il_name l)"
    using l by (auto simp: list_ok_def inv_words line_def)
  have g: "getline SPACE [] (line, True) = (lit ''KeepList'', il_name l, True)"
    unfolding line_def by (rule getline_token) (rule inv_words)
  obtain c where c: "c \<in> set (m_lists cur)" "il_eq c l" using rest False by (auto simp: has_rest_def)
  then obtain i where i: "i < length (m_lists cur)" "m_lists cur ! i = c" by (metis in_set_conv_nth)
  have "distinct (map il_name (m_lists cur))" using sy by (simp add: synced_def unlocked_def)
  from getListIndex_distinct [OF this i(1)] have idx: "getListIndex (il_name l) cur = Some i"
    using i(2) il_eq_name [OF c(2)] by simp
  show ?thesis
  proof (rule that)
    show "inv_read (Suc n) stale ssz idef nl cur (inv_list_text ord incremental l @ r, True) =
        inv_read n stale ssz idef (nl @ [i]) cur (r, True)"
      unfolding written using g nl sp idx by (simp add: inv_words)
    show "synced (nl @ [i]) cur (ls @ [l])" using kept_synced [OF sy idx] c(2) i(2) by simp
    show "has_rest incremental cur todo" using rest by (simp add: has_rest_def)
  qed
qed

lemma inv_read_all:
  assumes "list_all (list_ok idef ord) todo" and "synced nl cur ls" and "has_rest incremental cur todo"
    and "distinct (map il_name (ls @ todo))"
  shows "\<exists>nl' cur'. inv_read (Suc (n + length todo)) stale ssz idef nl cur
      (concat (map (inv_list_text ord incremental) todo) @ lit ''EndInventory'' @ NEWLINE # r, True) =
      Some (Inr (inv_finish nl' cur', r, True)) \<and> synced nl' cur' (ls @ todo)"
  using assms
proof (induction todo arbitrary: nl cur ls)
  case Nil
  have "getline SPACE [] (lit ''EndInventory'', True) = (lit ''EndInventory'', [], False)"
    by (rule getline_last) (rule inv_words)
  with Nil show ?case by (auto simp: inv_words)
next
  case (Cons l todo)
  have l: "list_ok idef ord l" and todo: "list_all (list_ok idef ord) todo" using Cons.prems(1) by simp_all
  have fresh: "il_name l \<notin> il_name ` set ls" "il_name l \<notin> il_name ` set todo"
    using Cons.prems(4) by auto
  let ?r = "concat (map (inv_list_text ord incremental) todo) @ lit ''EndInventory'' @ NEWLINE # r"
  obtain nl1 cur1 where 1:
    "inv_read (Suc (Suc (n + length todo))) stale ssz idef nl cur (inv_list_text ord incremental l @ ?r, True) =
     inv_read (Suc (n + length todo)) stale ssz idef nl1 cur1 (?r, True)"
    "synced nl1 cur1 (ls @ [l])" "has_rest incremental cur1 todo"
    by (rule inv_read_one [OF l Cons.prems(2,3) fresh])
  have "distinct (map il_name ((ls @ [l]) @ todo))" using Cons.prems(4) by simp
  from Cons.IH [OF todo 1(2,3) this] 1(1) show ?case by simp
qed

lemma inv_finish_synced:
  assumes sy: "synced nl cur ls"
  shows "set (m_lists (inv_finish nl cur)) = {m_lists cur ! i | i. i \<in> set nl}"
    and "distinct (map il_name (m_lists (inv_finish nl cur)))"
proof -
  let ?z = "zip [0..<length (m_lists cur)] (m_lists cur)"
  let ?kept = "map snd (filter (\<lambda>(i, l). i \<in> set nl) ?z)"
  have in_range: "\<forall>i\<in>set nl. i < length (m_lists cur)" using sy by (simp add: synced_def)
  have kept: "set ?kept = {m_lists cur ! i | i. i \<in> set nl}"
    using in_range by (force simp: set_zip)
  have all: "?kept = m_lists cur" if "length ?kept = length (m_lists cur)"
  proof -
    have "length (filter (\<lambda>(i, l). i \<in> set nl) ?z) = length ?z" using that by simp
    then have "filter (\<lambda>(i, l). i \<in> set nl) ?z = ?z" by (metis length_filter_less less_irrefl filter_True)
    then show ?thesis by simp
  qed
  have m: "m_lists (inv_finish nl cur) = ?kept"
    using all by (auto simp: inv_finish_def inv_setModified_def Let_def)
  show "set (m_lists (inv_finish nl cur)) = {m_lists cur ! i | i. i \<in> set nl}"
    unfolding m by (rule kept)
  have "distinct (map (il_name \<circ> snd) (filter (\<lambda>(i, l). i \<in> set nl) ?z))"
    by (rule distinct_map_filter) (use sy in \<open>simp add: synced_def unlocked_def flip: map_map\<close>)
  then show "distinct (map il_name (m_lists (inv_finish nl cur)))" unfolding m by simp
qed

section \<open>Properties\<close>

lemma inventory_transfer_run:
  assumes "inv_ok idef ord iv" and "unlocked cur" and "list_all il_ok (m_lists cur)"
    and "has_rest incremental cur (m_lists iv)"
  shows "\<exists>iv'. inv_deSerialize stale ssz idef cur (inv_serialize ord incremental iv @ r, True) =
      Some (Inr (iv', r, True)) \<and>
    (\<forall>n. rel_option il_eq (getList n iv') (getList n iv))"
proof -
  let ?t = "concat (map (inv_list_text ord incremental) (m_lists iv)) @ lit ''EndInventory'' @ NEWLINE # r"
  have d: "distinct (map il_name (m_lists iv))" and ok: "list_all (list_ok idef ord) (m_lists iv)"
    using assms(1) by (simp_all add: inv_ok_def)
  have "synced [] cur []" using assms(2,3) by (simp add: synced_def)
  note all = inv_read_all [OF ok this assms(4)]
  have "length (m_lists iv) \<le> length ?t"
  proof -
    have "length xs \<le> length (concat (map (inv_list_text ord incremental) xs))" for xs
      by (induction xs) (auto simp: inv_list_text_def lit_eval)
    from this [of "m_lists iv"] show ?thesis by simp
  qed
  then obtain j where "length ?t = length (m_lists iv) + j" using le_Suc_ex by blast
  then have k: "istream_left (?t, True) = Suc j + length (m_lists iv)"
    by (simp only: istream_left_def fst_conv snd_conv if_True)
  obtain nl' cur' where rd: "inv_read (Suc (Suc j + length (m_lists iv))) stale ssz idef [] cur (?t, True) =
      Some (Inr (inv_finish nl' cur', r, True))" and sy: "synced nl' cur' (m_lists iv)"
    using all [of "Suc j" stale ssz r] d by auto
  let ?iv = "inv_finish nl' cur'"
  note fin = inv_finish_synced [OF sy]
  have "rel_option il_eq (getList n ?iv) (getList n iv)" for n
  proof (cases "getList n iv")
    case None
    have "getList n ?iv = None"
    proof (rule ccontr)
      assume "getList n ?iv \<noteq> None"
      then obtain l' where "l' \<in> set (m_lists ?iv)" "il_name l' = n"
        using getList_iff [OF fin(2)] by auto
      then obtain l where "l \<in> set (m_lists iv)" "il_name l = n"
        using sy fin(1) il_eq_name unfolding synced_def by fastforce
      with None getList_iff [OF d, of n l] show False by simp
    qed
    with None show ?thesis by simp
  next
    case (Some l)
    then have l: "l \<in> set (m_lists iv)" "il_name l = n" using getList_iff [OF d] by auto
    then obtain l' where l': "l' \<in> set (m_lists ?iv)" "il_eq l' l"
      using sy fin(1) unfolding synced_def by fastforce
    then have "getList n ?iv = Some l'" using getList_iff [OF fin(2)] il_eq_name l(2) by metis
    with Some l' show ?thesis by simp
  qed
  moreover have "inv_deSerialize stale ssz idef cur (?t, True) = Some (Inr (?iv, r, True))"
    using rd by (simp only: inv_deSerialize_def k) simp
  ultimately show ?thesis by (auto simp: inv_serialize_def)
qed

text \<open>
  C25.  A client that reads what the server has written of an inventory holds the same lists
  under the same names afterwards, equal slot by slot, and no others, whatever it held
  before; of an incremental text this holds if its copies of the lists that were not sent
  again were up to date.  The reader leaves the rest of the stream.
\<close>

theorem inventory_transfer:
  assumes "inv_ok idef ord iv" and "unlocked cur" and "list_all il_ok (m_lists cur)"
    and "has_rest incremental cur (m_lists iv)"
  shows "\<exists>iv'. inv_deSerialize stale ssz idef cur (inv_serialize ord incremental iv @ r, True) =
      Some (Inr (iv', r, True)) \<and>
    (\<forall>n. rel_option il_eq (getList n iv') (getList n iv))"
  using assms by (rule inventory_transfer_run)

definition sample_inventory :: Inventory where
  "sample_inventory = \<lparr>m_lists = [sample_list], inv_dirty = False\<rparr>"

lemma sample_inv_ok: "inv_ok sample_idef (\<lambda>_. []) sample_inventory"
  by (auto simp: inv_ok_def sample_inventory_def list_ok_def il_ok_def sample_list_def
      new_InventoryList_def il_clearItems_def il_setModified_def st_ok_def sample_stack_def
      st_empty_def no_item_def st_eq_def meta_eq_def old_formats_def lit_eval sample_idef_def
      new_ItemDefinition_def new_metadata_def walks_def)

theorem inventory_transfer_witness:
  "\<exists>iv'. inv_deSerialize 0 0 sample_idef new_Inventory (inv_serialize (\<lambda>_. []) False sample_inventory @ [7], True) =
      Some (Inr (iv', [7], True)) \<and>
    (\<forall>n. rel_option il_eq (getList n iv') (getList n sample_inventory))"
  by (rule inventory_transfer [OF sample_inv_ok])
    (simp_all add: unlocked_def new_Inventory_def has_rest_def)

text \<open>
  The reader of an inventory always comes to an end, on any text and from any state.
\<close>

theorem inventory_reader_ends:
  "\<exists>res. inv_deSerialize stale ssz idef iv is = Some res"
  unfolding inv_deSerialize_def by (rule inv_read_ends) simp

end
