(* ===== verification/InventoryAction.thy ===== *)
theory InventoryAction
  imports Inventory
begin

text \<open>
  Locations of inventories and the actions on them (\<open>src/inventorymanager.h\<close>, first part of
  \<open>src/inventorymanager.cpp\<close>), with the text form in which a client sends an action.
\<close>

section \<open>Locations\<close>

text \<open>The name and the position are kept only where the type of the location uses them.\<close>

datatype InventoryLocation =
    UNDEFINED
  | CURRENT_PLAYER
  | PLAYER bytes
  | NODEMETA "s16 v3d"
  | DETACHED bytes

text \<open>\<open>operator==\<close>: an undefined location is not even equal to itself.\<close>

definition loc_eq :: "InventoryLocation \<Rightarrow> InventoryLocation \<Rightarrow> bool" where
  "loc_eq a b \<longleftrightarrow> a = b \<and> a \<noteq> UNDEFINED"

definition applyCurrentPlayer :: "bytes \<Rightarrow> InventoryLocation \<Rightarrow> InventoryLocation" where
  "applyCurrentPlayer name loc = (if loc = CURRENT_PLAYER then PLAYER name else loc)"

definition loc_serialize :: "InventoryLocation \<Rightarrow> bytes" where
  "loc_serialize loc =
     (case loc of
        UNDEFINED \<Rightarrow> lit ''undefined''
      | CURRENT_PLAYER \<Rightarrow> lit ''current_player''
      | PLAYER name \<Rightarrow> lit ''player:'' @ name
      | NODEMETA p \<Rightarrow> lit ''nodemeta:'' @ sdec (sint (v3X p)) @ [COMMA] @ sdec (sint (v3Y p)) @ [COMMA] @
          sdec (sint (v3Z p))
      | DETACHED name \<Rightarrow> lit ''detached:'' @ name)"

text \<open>From a string of its own, as all callers do it.\<close>

definition loc_deSerialize :: "bytes \<Rightarrow> ser_error + InventoryLocation" where
  "loc_deSerialize s =
     (let (tname, is) = getline COLON [] (s, True) in
      if tname = lit ''undefined'' then Inr UNDEFINED
      else if tname = lit ''current_player'' then Inr CURRENT_PLAYER
      else if tname = lit ''player'' then Inr (PLAYER (fst (getline NEWLINE [] is)))
      else if tname = lit ''nodemeta''
      then
        let pos = fst (getline NEWLINE [] is);
            (x, fn) = strfnd_next COMMA pos;
            (y, fn) = strfnd_next COMMA fn;
            (z, fn) = strfnd_next COMMA fn in
        Inr (NODEMETA \<lparr>v3X = ucast (mystoi x), v3Y = ucast (mystoi y), v3Z = ucast (mystoi z)\<rparr>)
      else if tname = lit ''detached'' then Inr (DETACHED (fst (getline NEWLINE [] is)))
      else Inl (SerializationError ''Unknown InventoryLocation type''))"

section \<open>Actions\<close>

record MoveAction =
  from_inv :: InventoryLocation
  from_list :: bytes
  from_i :: s16
  to_inv :: InventoryLocation
  to_list :: bytes
  to_i :: s16

record IMoveAction = MoveAction +
  ma_count :: u16
  move_somewhere :: bool
  caused_by_move_somewhere :: bool
  move_count :: u32

record IDropAction = MoveAction +
  da_count :: u16

record ICraftAction =
  ca_count :: u16
  craft_inv :: InventoryLocation

datatype InventoryAction = Move IMoveAction | Drop IDropAction | Craft ICraftAction

definition new_MoveAction :: MoveAction where
  "new_MoveAction = \<lparr>from_inv = UNDEFINED, from_list = [], from_i = - 1, to_inv = UNDEFINED,
     to_list = [], to_i = - 1\<rparr>"

definition new_IMoveAction :: IMoveAction where
  "new_IMoveAction = MoveAction.extend new_MoveAction
     \<lparr>ma_count = 0, move_somewhere = False, caused_by_move_somewhere = False, move_count = 0\<rparr>"

definition swapDirections :: "IMoveAction \<Rightarrow> IMoveAction" where
  "swapDirections a =
     a\<lparr>from_inv := to_inv a, to_inv := from_inv a, from_list := to_list a, to_list := from_list a,
       from_i := to_i a, to_i := from_i a\<rparr>"

definition move_serialize :: "IMoveAction \<Rightarrow> bytes" where
  "move_serialize a =
     (if \<not> move_somewhere a then lit ''Move '' else lit ''MoveSomewhere '') @
     dec (unat (ma_count a)) @ [SPACE] @ loc_serialize (from_inv a) @ [SPACE] @ from_list a @ [SPACE] @
     sdec (sint (from_i a)) @ [SPACE] @ loc_serialize (to_inv a) @ [SPACE] @ to_list a @
     (if \<not> move_somewhere a then [SPACE] @ sdec (sint (to_i a)) else [])"

definition drop_serialize :: "IDropAction \<Rightarrow> bytes" where
  "drop_serialize a =
     lit ''Drop '' @ dec (unat (da_count a)) @ [SPACE] @ loc_serialize (from_inv a) @ [SPACE] @
     from_list a @ [SPACE] @ sdec (sint (from_i a))"

definition craft_serialize :: "ICraftAction \<Rightarrow> bytes" where
  "craft_serialize a =
     lit ''Craft '' @ dec (unat (ca_count a)) @ [SPACE] @ loc_serialize (craft_inv a) @ [SPACE]"

definition action_serialize :: "InventoryAction \<Rightarrow> bytes" where
  "action_serialize a = (case a of Move m \<Rightarrow> move_serialize m | Drop d \<Rightarrow> drop_serialize d
     | Craft c \<Rightarrow> craft_serialize c)"

text \<open>
  The constructors from a stream.  The variable \<open>ts\<close> is read into again and again, so that it
  keeps its last token once the stream is at its end.
\<close>

definition read_IMoveAction :: "bool \<Rightarrow> istream \<Rightarrow> ser_error + IMoveAction \<times> istream" where
  "read_IMoveAction somewhere is =
     (let a = new_IMoveAction\<lparr>move_somewhere := somewhere\<rparr>;
          (ts, is) = getline SPACE [] is;
          a = a\<lparr>ma_count := ucast (mystoi ts)\<rparr>;
          (ts, is) = getline SPACE ts is in
      bind_ok (loc_deSerialize ts) (\<lambda>loc.
        let a = a\<lparr>from_inv := loc\<rparr>;
            (fl, is) = getline SPACE [] is;
            a = a\<lparr>from_list := fl\<rparr>;
            (ts, is) = getline SPACE ts is;
            a = a\<lparr>from_i := ucast (mystoi ts)\<rparr>;
            (ts, is) = getline SPACE ts is in
        bind_ok (loc_deSerialize ts) (\<lambda>loc.
          let a = a\<lparr>to_inv := loc\<rparr>;
              (tl, is) = getline SPACE [] is;
              a = a\<lparr>to_list := tl\<rparr> in
          if somewhere then Inr (a, is)
          else let (ts, is) = getline SPACE ts is in Inr (a\<lparr>to_i := ucast (mystoi ts)\<rparr>, is))))"

definition read_IDropAction :: "istream \<Rightarrow> ser_error + IDropAction \<times> istream" where
  "read_IDropAction is =
     (let (ts, is) = getline SPACE [] is;
          a = MoveAction.extend new_MoveAction \<lparr>da_count = ucast (mystoi ts)\<rparr>;
          (ts, is) = getline SPACE ts is in
      bind_ok (loc_deSerialize ts) (\<lambda>loc.
        let a = a\<lparr>from_inv := loc\<rparr>;
            (fl, is) = getline SPACE [] is;
            a = a\<lparr>from_list := fl\<rparr>;
            (ts, is) = getline SPACE ts is in
        Inr (a\<lparr>from_i := ucast (mystoi ts)\<rparr>, is)))"

definition read_ICraftAction :: "istream \<Rightarrow> ser_error + ICraftAction \<times> istream" where
  "read_ICraftAction is =
     (let (ts, is) = getline SPACE [] is;
          n = ucast (mystoi ts);
          (ts, is) = getline SPACE ts is in
      bind_ok (loc_deSerialize ts) (\<lambda>loc. Inr (\<lparr>ca_count = n, craft_inv = loc\<rparr>, is)))"

text \<open>\<open>None\<close> is the null pointer for a type that is not known.\<close>

definition action_deSerialize :: "istream \<Rightarrow> ser_error + InventoryAction option" where
  "action_deSerialize is =
     (let (type, is) = getline SPACE [] is in
      if type = lit ''Move'' then bind_ok (read_IMoveAction False is) (\<lambda>(a, _). Inr (Some (Move a)))
      else if type = lit ''MoveSomewhere''
      then bind_ok (read_IMoveAction True is) (\<lambda>(a, _). Inr (Some (Move a)))
      else if type = lit ''Drop'' then bind_ok (read_IDropAction is) (\<lambda>(a, _). Inr (Some (Drop a)))
      else if type = lit ''Craft'' then bind_ok (read_ICraftAction is) (\<lambda>(a, _). Inr (Some (Craft a)))
      else Inr None)"

section \<open>An action arrives as it was sent\<close>

definition token :: "bytes \<Rightarrow> bool" where
  "token s \<longleftrightarrow> SPACE \<notin> set s \<and> NEWLINE \<notin> set s"

definition loc_ok :: "InventoryLocation \<Rightarrow> bool" where
  "loc_ok loc \<longleftrightarrow> (case loc of PLAYER n \<Rightarrow> token n | DETACHED n \<Rightarrow> token n | _ \<Rightarrow> True)"

lemma sint_16: "- (2 ^ 15) \<le> sint (w :: s16)" "sint (w :: s16) < 2 ^ 15"
  using sint_greater_eq [of w] sint_less [of w] by simp_all

lemma ucast_scast_16_32 [simp]: "ucast (scast (w :: s16) :: s32) = w"
  by (rule bit_word_eqI) (auto simp: bit_simps)

lemma mystoi_s16 [simp]: "no_digit r \<Longrightarrow> ucast (mystoi (sdec (sint (w :: s16)) @ r)) = w"
  using sint_16 [of w] by (subst mystoi_sdec) simp_all

lemma mystoi_s16_exact [simp]: "ucast (mystoi (sdec (sint (w :: s16)))) = w"
  using mystoi_s16 [of "[]" w] by simp

lemma mystoi_u16 [simp]: "ucast (mystoi (dec (unat (w :: u16)))) = w"
  using stoi_count_dec [of w] by (simp add: stoi_count_def)

lemma loc_words:
  "lit ''player:'' = lit ''player'' @ [COLON]" "lit ''detached:'' = lit ''detached'' @ [COLON]"
  "lit ''nodemeta:'' = lit ''nodemeta'' @ [COLON]"
  "COLON \<notin> set (lit ''player'')" "COLON \<notin> set (lit ''detached'')" "COLON \<notin> set (lit ''nodemeta'')"
  "COLON \<notin> set (lit ''undefined'')" "COLON \<notin> set (lit ''current_player'')"
  "lit ''current_player'' \<noteq> lit ''undefined''"
  "lit ''player'' \<noteq> lit ''undefined''" "lit ''player'' \<noteq> lit ''current_player''"
  "lit ''nodemeta'' \<noteq> lit ''undefined''" "lit ''nodemeta'' \<noteq> lit ''current_player''"
  "lit ''nodemeta'' \<noteq> lit ''player''"
  "lit ''detached'' \<noteq> lit ''undefined''" "lit ''detached'' \<noteq> lit ''current_player''"
  "lit ''detached'' \<noteq> lit ''player''" "lit ''detached'' \<noteq> lit ''nodemeta''"
  "token (lit ''undefined'')" "token (lit ''current_player'')" "token (lit ''player'')"
  "token (lit ''nodemeta'')" "token (lit ''detached'')"
  by (simp_all add: lit_eval token_def)

lemma token_append [simp]: "token (s @ t) \<longleftrightarrow> token s \<and> token t"
  by (auto simp: token_def)

lemma token_simps [simp]:
  "token []" "token (c # s) \<longleftrightarrow> c \<noteq> SPACE \<and> c \<noteq> NEWLINE \<and> token s" "token (sdec i)" "token (dec n)"
  by (auto simp: token_def)

lemma loc_token: "loc_ok loc \<Longrightarrow> token (loc_serialize loc)"
  by (cases loc) (simp_all add: loc_ok_def loc_serialize_def loc_words)

lemma loc_roundtrip:
  assumes "loc_ok loc"
  shows "loc_deSerialize (loc_serialize loc) = Inr loc"
proof (cases loc)
  case UNDEFINED
  have "getline COLON [] (lit ''undefined'', True) = (lit ''undefined'', [], False)"
    by (rule getline_last) (rule loc_words)
  then show ?thesis using UNDEFINED by (simp add: loc_deSerialize_def loc_serialize_def)
next
  case CURRENT_PLAYER
  have "getline COLON [] (lit ''current_player'', True) = (lit ''current_player'', [], False)"
    by (rule getline_last) (rule loc_words)
  then show ?thesis using CURRENT_PLAYER by (simp add: loc_deSerialize_def loc_serialize_def loc_words)
next
  case (PLAYER n)
  then have n: "NEWLINE \<notin> set n" using assms by (simp add: loc_ok_def token_def)
  have "getline COLON [] (lit ''player'' @ COLON # n, True) = (lit ''player'', n, True)"
    by (rule getline_token) (rule loc_words)
  then show ?thesis using PLAYER n by (simp add: loc_deSerialize_def loc_serialize_def loc_words)
next
  case (DETACHED n)
  then have n: "NEWLINE \<notin> set n" using assms by (simp add: loc_ok_def token_def)
  have "getline COLON [] (lit ''detached'' @ COLON # n, True) = (lit ''detached'', n, True)"
    by (rule getline_token) (rule loc_words)
  then show ?thesis using DETACHED n by (simp add: loc_deSerialize_def loc_serialize_def loc_words)
next
  case (NODEMETA p)
  let ?n = "sdec (sint (v3X p)) @ COMMA # sdec (sint (v3Y p)) @ COMMA # sdec (sint (v3Z p))"
  have n: "NEWLINE \<notin> set ?n" by simp
  have "getline COLON [] (lit ''nodemeta'' @ COLON # ?n, True) = (lit ''nodemeta'', ?n, True)"
    by (rule getline_token) (rule loc_words)
  then show ?thesis using NODEMETA n by (simp add: loc_deSerialize_def loc_serialize_def loc_words)
qed

text \<open>What is not sent has the value it is created with.\<close>

definition action_ok :: "InventoryAction \<Rightarrow> bool" where
  "action_ok a \<longleftrightarrow>
     (case a of
        Move m \<Rightarrow> loc_ok (from_inv m) \<and> loc_ok (to_inv m) \<and> token (from_list m) \<and> token (to_list m) \<and>
          \<not> caused_by_move_somewhere m \<and> move_count m = 0 \<and> (move_somewhere m \<longrightarrow> to_i m = - 1)
      | Drop d \<Rightarrow> loc_ok (from_inv d) \<and> token (from_list d) \<and>
          MoveAction.truncate d = new_MoveAction\<lparr>from_inv := from_inv d, from_list := from_list d, from_i := from_i d\<rparr>
      | Craft c \<Rightarrow> loc_ok (craft_inv c))"

lemma token_space [simp]: "token t \<Longrightarrow> SPACE \<notin> set t"
  by (simp add: token_def)

lemma action_words:
  "lit ''Move '' = lit ''Move'' @ [SPACE]" "lit ''MoveSomewhere '' = lit ''MoveSomewhere'' @ [SPACE]"
  "lit ''Drop '' = lit ''Drop'' @ [SPACE]" "lit ''Craft '' = lit ''Craft'' @ [SPACE]"
  "SPACE \<notin> set (lit ''Move'')" "SPACE \<notin> set (lit ''MoveSomewhere'')" "SPACE \<notin> set (lit ''Drop'')"
  "SPACE \<notin> set (lit ''Craft'')"
  "lit ''MoveSomewhere'' \<noteq> lit ''Move''" "lit ''Drop'' \<noteq> lit ''Move''" "lit ''Drop'' \<noteq> lit ''MoveSomewhere''"
  "lit ''Craft'' \<noteq> lit ''Move''" "lit ''Craft'' \<noteq> lit ''MoveSomewhere''" "lit ''Craft'' \<noteq> lit ''Drop''"
  by (simp_all add: lit_eval)

text \<open>
  C26.  What the server reads of an action that a client has written is that action: the move
  with a target slot or without, the drop and the craft, for every location whose name holds
  no space and no line end.
\<close>

theorem action_transfer:
  assumes "action_ok a"
  shows "action_deSerialize (action_serialize a, True) = Inr (Some a)"
proof (cases a)
  case (Move m)
  then have ok: "loc_ok (from_inv m)" "loc_ok (to_inv m)" "token (from_list m)" "token (to_list m)"
    "\<not> caused_by_move_somewhere m" "move_count m = 0" "move_somewhere m \<Longrightarrow> to_i m = - 1"
    using assms by (auto simp: action_ok_def)
  note rt = loc_roundtrip [OF ok(1)] loc_roundtrip [OF ok(2)] loc_token [OF ok(1)] loc_token [OF ok(2)]
  show ?thesis
  proof (cases "move_somewhere m")
    case True
    with Move ok rt show ?thesis
      by (simp add: action_deSerialize_def action_serialize_def move_serialize_def action_words
          read_IMoveAction_def new_IMoveAction_def new_MoveAction_def MoveAction.defs)
  next
    case False
    with Move ok rt show ?thesis
      by (simp add: action_deSerialize_def action_serialize_def move_serialize_def action_words
          read_IMoveAction_def new_IMoveAction_def new_MoveAction_def MoveAction.defs)
  qed
next
  case (Drop d)
  then have ok: "loc_ok (from_inv d)" "token (from_list d)"
    "MoveAction.truncate d = new_MoveAction\<lparr>from_inv := from_inv d, from_list := from_list d, from_i := from_i d\<rparr>"
    using assms by (auto simp: action_ok_def)
  with Drop loc_roundtrip [OF ok(1)] loc_token [OF ok(1)] show ?thesis
    by (simp add: action_deSerialize_def action_serialize_def drop_serialize_def action_words
        read_IDropAction_def new_MoveAction_def MoveAction.defs)
next
  case (Craft c)
  then have ok: "loc_ok (craft_inv c)" using assms by (simp add: action_ok_def)
  with Craft loc_roundtrip [OF ok(1)] loc_token [OF ok(1)] show ?thesis
    by (simp add: action_deSerialize_def action_serialize_def craft_serialize_def action_words
        read_ICraftAction_def)
qed

theorem action_transfer_witness:
  "let a = Move \<lparr>from_inv = PLAYER [97], from_list = [98], from_i = 3,
       to_inv = NODEMETA \<lparr>v3X = 1, v3Y = - 2, v3Z = 3\<rparr>, to_list = [99], to_i = 0, ma_count = 5,
       move_somewhere = False, caused_by_move_somewhere = False, move_count = 0\<rparr> in
   action_deSerialize (action_serialize a, True) = Inr (Some a)"
  unfolding Let_def by (rule action_transfer) (simp add: action_ok_def loc_ok_def)

end
