(* ===== verification/InventoryMove.thy ===== *)
theory InventoryMove
  imports InventoryAction
begin

text \<open>
  The actions on inventories as the server carries them out (\<open>apply\<close> and \<open>clientApply\<close> in
  \<open>src/inventorymanager.cpp\<close>).  What a script answers and does is an argument; the game is
  the inventories that \<open>getInventory\<close> finds, the locations reported as modified, the
  rollback records, and a state of the scripts.  A list that is referred to is the pair of a
  location and a name.  A failed assertion is \<open>None\<close>.
\<close>

section \<open>The game as the actions see it\<close>

record rollback_record =
  rb_location :: InventoryLocation
  rb_list :: bytes
  rb_index :: s16
  rb_add :: bool
  rb_stack :: ItemStack

record 'w game =
  g_inv :: "InventoryLocation \<Rightarrow> Inventory option"
  g_modified :: "InventoryLocation list"
  g_rollback :: "rollback_record list"
  g_script :: 'w

type_synonym list_ref = "InventoryLocation \<times> bytes"

definition list_of :: "'w game \<Rightarrow> list_ref \<Rightarrow> InventoryList option" where
  "list_of w r = (case g_inv w (fst r) of None \<Rightarrow> None | Some iv \<Rightarrow> getList (snd r) iv)"

definition put_list :: "list_ref \<Rightarrow> InventoryList \<Rightarrow> 'w game \<Rightarrow> 'w game" where
  "put_list r l w = w\<lparr>g_inv := (g_inv w)(fst r := map_option (putList (snd r) l) (g_inv w (fst r)))\<rparr>"

text \<open>What a pointer that has been looked up points to.\<close>

definition the_list :: "'w game \<Rightarrow> list_ref \<Rightarrow> InventoryList" where
  "the_list w r = (case list_of w r of Some l \<Rightarrow> l | None \<Rightarrow> new_InventoryList [] 0)"

definition on_ref :: "list_ref \<Rightarrow> (InventoryList \<Rightarrow> InventoryList \<times> 'a) \<Rightarrow> 'w game \<Rightarrow> 'w game \<times> 'a" where
  "on_ref r f w = (let (l, a) = f (the_list w r) in (put_list r l w, a))"

definition change_ref :: "list_ref \<Rightarrow> (InventoryList \<Rightarrow> InventoryList) \<Rightarrow> 'w game \<Rightarrow> 'w game" where
  "change_ref r f w = put_list r (f (the_list w r)) w"

text \<open>\<open>get_borrow_checked_invlist\<close>: whether the list is there, and its lock.\<close>

definition borrow :: "list_ref \<Rightarrow> 'w game \<Rightarrow> bool \<times> 'w game" where
  "borrow r w =
     (case list_of w r of None \<Rightarrow> (False, w) | Some l \<Rightarrow> (True, change_ref r resizeLock w))"

definition release :: "list_ref \<Rightarrow> 'w game \<Rightarrow> 'w game" where
  "release r w = change_ref r resizeUnlock w"

definition setInventoryModified :: "InventoryLocation \<Rightarrow> 'w game \<Rightarrow> 'w game" where
  "setInventoryModified loc w = w\<lparr>g_modified := g_modified w @ [loc]\<rparr>"

definition reportAction :: "rollback_record \<Rightarrow> 'w game \<Rightarrow> 'w game" where
  "reportAction rb w = w\<lparr>g_rollback := g_rollback w @ [rb]\<rparr>"

text \<open>
  The script callbacks of the three kinds of inventory; the code asserts that a location
  that has an inventory is of one of them.
\<close>

datatype inv_kind = KDetached | KNodemeta | KPlayer

definition kind_of :: "InventoryLocation \<Rightarrow> inv_kind option" where
  "kind_of loc = (case loc of DETACHED _ \<Rightarrow> Some KDetached | NODEMETA _ \<Rightarrow> Some KNodemeta
     | PLAYER _ \<Rightarrow> Some KPlayer | _ \<Rightarrow> None)"

record 'w scripts =
  s_AllowMove :: "inv_kind \<Rightarrow> MoveAction \<Rightarrow> int \<Rightarrow> 'w game \<Rightarrow> int \<times> 'w game"
  s_AllowPut :: "inv_kind \<Rightarrow> MoveAction \<Rightarrow> ItemStack \<Rightarrow> 'w game \<Rightarrow> int \<times> 'w game"
  s_AllowTake :: "inv_kind \<Rightarrow> MoveAction \<Rightarrow> ItemStack \<Rightarrow> 'w game \<Rightarrow> int \<times> 'w game"
  s_OnMove :: "inv_kind \<Rightarrow> MoveAction \<Rightarrow> int \<Rightarrow> 'w game \<Rightarrow> 'w game"
  s_OnPut :: "inv_kind \<Rightarrow> MoveAction \<Rightarrow> ItemStack \<Rightarrow> 'w game \<Rightarrow> 'w game"
  s_OnTake :: "inv_kind \<Rightarrow> MoveAction \<Rightarrow> ItemStack \<Rightarrow> 'w game \<Rightarrow> 'w game"
  s_OnDrop :: "ItemStack \<Rightarrow> 'w game \<Rightarrow> u16 \<times> 'w game"
  s_CraftPredict :: "ItemStack \<Rightarrow> InventoryLocation \<Rightarrow> 'w game \<Rightarrow> ItemStack \<times> 'w game"
  s_OnCraft :: "ItemStack \<Rightarrow> InventoryList \<Rightarrow> InventoryLocation \<Rightarrow> 'w game \<Rightarrow> ItemStack \<times> 'w game"

definition act_of :: "IMoveAction \<Rightarrow> MoveAction" where
  "act_of a = MoveAction.truncate a"

definition allowMove :: "'w scripts \<Rightarrow> IMoveAction \<Rightarrow> int \<Rightarrow> 'w game \<Rightarrow> (int \<times> 'w game) option" where
  "allowMove sc a try_take_count w =
     map_option (\<lambda>k. s_AllowMove sc k (act_of a) try_take_count w) (kind_of (from_inv a))"

definition allowPut :: "'w scripts \<Rightarrow> IMoveAction \<Rightarrow> ItemStack \<Rightarrow> 'w game \<Rightarrow> (int \<times> 'w game) option" where
  "allowPut sc a dst_item w =
     map_option (\<lambda>k. s_AllowPut sc k (act_of a) dst_item w) (kind_of (to_inv a))"

definition allowTake :: "'w scripts \<Rightarrow> IMoveAction \<Rightarrow> ItemStack \<Rightarrow> 'w game \<Rightarrow> (int \<times> 'w game) option" where
  "allowTake sc a src_item w =
     map_option (\<lambda>k. s_AllowTake sc k (act_of a) src_item w) (kind_of (from_inv a))"

definition onMove :: "'w scripts \<Rightarrow> IMoveAction \<Rightarrow> int \<Rightarrow> 'w game \<Rightarrow> 'w game option" where
  "onMove sc a cnt w = map_option (\<lambda>k. s_OnMove sc k (act_of a) cnt w) (kind_of (from_inv a))"

definition onPut :: "'w scripts \<Rightarrow> IMoveAction \<Rightarrow> ItemStack \<Rightarrow> 'w game \<Rightarrow> 'w game option" where
  "onPut sc a src_item w = map_option (\<lambda>k. s_OnPut sc k (act_of a) src_item w) (kind_of (to_inv a))"

definition onTake :: "'w scripts \<Rightarrow> IMoveAction \<Rightarrow> ItemStack \<Rightarrow> 'w game \<Rightarrow> 'w game option" where
  "onTake sc a src_item w = map_option (\<lambda>k. s_OnTake sc k (act_of a) src_item w) (kind_of (from_inv a))"

section \<open>Asking for permission\<close>

text \<open>
  The answers for taking and putting, and whether a swap is still allowed.  A swap that is
  not allowed sets both to 0.  An answer of -1 means without limit.
\<close>

definition enough :: "int \<Rightarrow> u16 \<Rightarrow> bool" where
  "enough answer n \<longleftrightarrow> answer = - 1 \<or> answer \<ge> int (unat n)"

definition ask_same ::
  "'w scripts \<Rightarrow> IMoveAction \<Rightarrow> ItemStack \<Rightarrow> bool \<Rightarrow> 'w game \<Rightarrow> (int \<times> int \<times> bool \<times> 'w game) option" where
  "ask_same sc a src_item swap_expected w =
     Option.bind (allowMove sc a (int (unat (st_count src_item))) w) (\<lambda>(take, w).
       if swap_expected \<and> enough take (st_count src_item)
       then
         let try_put_count = st_count (il_items (the_list w (to_inv a, to_list a)) ! unat (to_i a)) in
         Option.bind (allowMove sc (swapDirections a) (int (unat try_put_count)) w) (\<lambda>(put, w).
           if enough put try_put_count then Some (take, put, True, w) else Some (0, 0, False, w))
       else if swap_expected then Some (0, 0, False, w)
       else Some (take, take, False, w))"

definition ask_two ::
  "'w scripts \<Rightarrow> IMoveAction \<Rightarrow> ItemStack \<Rightarrow> bool \<Rightarrow> 'w game \<Rightarrow> (int \<times> int \<times> bool \<times> 'w game) option" where
  "ask_two sc a src_item swap_expected w =
     Option.bind (allowPut sc a src_item w) (\<lambda>(put, w).
     Option.bind (allowTake sc a src_item w) (\<lambda>(take, w).
       if swap_expected \<and> enough take (st_count src_item) \<and> enough put (st_count src_item)
       then
         let dst_item = il_items (the_list w (to_inv a, to_list a)) ! unat (to_i a);
             b = swapDirections a in
         Option.bind (allowPut sc b dst_item w) (\<lambda>(src_can_take, w).
         Option.bind (allowTake sc b dst_item w) (\<lambda>(dst_can_put, w).
           if enough src_can_take (st_count dst_item) \<and> enough dst_can_put (st_count dst_item)
           then Some (take, put, True, w) else Some (0, 0, False, w)))
       else if swap_expected then Some (0, 0, False, w)
       else Some (take, put, False, w)))"

definition ask ::
  "'w scripts \<Rightarrow> IMoveAction \<Rightarrow> ItemStack \<Rightarrow> bool \<Rightarrow> 'w game \<Rightarrow> (int \<times> int \<times> bool \<times> 'w game) option" where
  "ask sc a src_item swap_expected w =
     (if loc_eq (from_inv a) (to_inv a) then ask_same sc a src_item swap_expected w
      else ask_two sc a src_item swap_expected w)"

text \<open>\<open>move_count = (u32)std::min<s32>(answer, move_count)\<close>, unless the answer is -1.\<close>

definition limit_count :: "int \<Rightarrow> u32 \<Rightarrow> u32" where
  "limit_count answer n = (if answer = - 1 then n else of_int (min answer (sint n)))"

section \<open>One move\<close>

text \<open>
  What the move would do before anybody is asked: the stack to move and whether it takes a
  swap, or nothing.
\<close>

definition move_plan ::
  "IItemDefManager \<Rightarrow> IMoveAction \<Rightarrow> 'w game \<Rightarrow> IMoveAction \<times> (ItemStack \<times> bool) option" where
  "move_plan idef a w =
     (let lf = the_list w (from_inv a, from_list a);
          lt = the_list w (to_inv a, to_list a) in
      if sint (from_i a) < 0 \<or> length (il_items lf) \<le> unat (from_i a) then (a, None)
      else if sint (to_i a) < 0 \<or> length (il_items lt) \<le> unat (to_i a) then (a, None)
      else if (from_inv a, from_list a) = (to_inv a, to_list a) \<and> from_i a = to_i a then (a, None)
      else
        let item = il_items lf ! unat (from_i a);
            src_item = (if ma_count a > 0 \<and> ma_count a < st_count item
              then item\<lparr>st_count := ma_count a\<rparr> else item) in
        if st_empty src_item then (a, None)
        else
          let (fits, restitem) = il_itemFits idef (unat (to_i a)) src_item lt;
              allow_swap = (\<not> fits \<and> st_count restitem = st_count src_item \<and> \<not> caused_by_move_somewhere a);
              a = a\<lparr>move_count := ucast (st_count src_item) - ucast (st_count restitem)\<rparr> in
          if caused_by_move_somewhere a \<and> move_count a = 0 then (a, None)
          else if allow_swap
          then (a\<lparr>move_count := ucast (st_count item)\<rparr>, Some (item, True))
          else (a, Some (src_item\<lparr>st_count := ucast (move_count a)\<rparr>, False)))"

definition game_moveItem ::
  "IItemDefManager \<Rightarrow> list_ref \<Rightarrow> nat \<Rightarrow> list_ref \<Rightarrow> nat \<Rightarrow> u32 \<Rightarrow> bool \<Rightarrow> 'w game \<Rightarrow>
   'w game \<times> ItemStack \<times> bool" where
  "game_moveItem idef this i dest dest_i cnt swap w =
     (let (st, moved, did_swap) = moveItem idef this i dest dest_i cnt swap (the_list w) in
      (put_list dest (st dest) (put_list this (st this) w), moved, did_swap))"

text \<open>A source or a target without limit gets its stack back.\<close>

definition reset_source ::
  "IMoveAction \<Rightarrow> bool \<Rightarrow> ItemStack \<Rightarrow> ItemStack \<Rightarrow> 'w game \<Rightarrow> 'w game" where
  "reset_source a did_swap from_stack_was to_stack_was w =
     (let from = (from_inv a, from_list a);
          to = (to_inv a, to_list a);
          w = (if \<not> caused_by_move_somewhere a \<and> st_name from_stack_was \<noteq> st_name to_stack_was
            then (case find_index st_empty (il_items (the_list w to)) of
                None \<Rightarrow> w
              | Some i \<Rightarrow> fst (on_ref to (il_changeItem i to_stack_was) w))
            else w) in
      if move_count a > 0 \<or> did_swap
      then fst (on_ref from (il_changeItem (unat (from_i a)) from_stack_was) w) else w)"

definition reset_target ::
  "IMoveAction \<Rightarrow> bool \<Rightarrow> ItemStack \<Rightarrow> ItemStack \<Rightarrow> 'w game \<Rightarrow> 'w game" where
  "reset_target a did_swap from_stack_was to_stack_was w =
     (let from = (from_inv a, from_list a);
          to = (to_inv a, to_list a);
          w = fst (on_ref to (il_changeItem (unat (to_i a)) to_stack_was) w) in
      if did_swap
      then fst (on_ref from (il_takeItem (unat (from_i a)) (move_count a))
        (fst (on_ref from (il_changeItem (unat (from_i a)) from_stack_was) w)))
      else w)"

definition is_player :: "InventoryLocation \<Rightarrow> bool" where
  "is_player loc \<longleftrightarrow> (case loc of PLAYER _ \<Rightarrow> True | _ \<Rightarrow> False)"

text \<open>
  The move up to the reports: \<open>Stopped\<close> is an early return, \<open>Moved\<close> has what was moved,
  whether stacks were swapped, and the two answers.
\<close>

datatype 'w move_outcome =
    Stopped IMoveAction "'w game"
  | Moved IMoveAction "'w game" ItemStack bool int int

definition undo_prediction :: "IMoveAction \<Rightarrow> 'w game \<Rightarrow> 'w game" where
  "undo_prediction a w =
     (let w = (if is_player (from_inv a) then change_ref (from_inv a, from_list a) (il_setModified True) w else w) in
      if is_player (to_inv a) then change_ref (to_inv a, to_list a) (il_setModified True) w else w)"

text \<open>The count that the answers leave, which is no more than the stack holds now.\<close>

definition allowed_count :: "int \<Rightarrow> int \<Rightarrow> u32 \<Rightarrow> ItemStack \<Rightarrow> u32" where
  "allowed_count can_take can_put n from_stack =
     (let n = limit_count can_put (limit_count can_take n) in
      if n > ucast (st_count from_stack) then ucast (st_count from_stack) else n)"

text \<open>From the answers on.  \<open>None\<close>: the assertion that what was planned as a swap is one fails.\<close>

definition limited_move ::
  "IItemDefManager \<Rightarrow> IMoveAction \<Rightarrow> int \<Rightarrow> int \<Rightarrow> bool \<Rightarrow> 'w game \<Rightarrow> 'w move_outcome option" where
  "limited_move idef a can_take can_put allow_swap w =
     (let from = (from_inv a, from_list a);
          to = (to_inv a, to_list a);
          from_stack_was = slot (the_list w) from (unat (from_i a));
          to_stack_was = slot (the_list w) to (unat (to_i a));
          n = allowed_count can_take can_put (move_count a) from_stack_was;
          a = a\<lparr>move_count := n\<rparr> in
      if n = 0 then Some (Stopped a (undo_prediction a w))
      else
        let (w, src_item, did_swap) = game_moveItem idef from (unat (from_i a)) to (unat (to_i a)) n
              allow_swap w;
            a = a\<lparr>move_count := ucast (st_count src_item)\<rparr> in
        if allow_swap \<noteq> did_swap then None
        else
          let w = (if can_take = - 1 then reset_source a did_swap from_stack_was to_stack_was w else w);
              w = (if can_put = - 1 then reset_target a did_swap from_stack_was to_stack_was w else w) in
          Some (Moved a w src_item did_swap can_take can_put))"

definition move_transfer ::
  "'w scripts \<Rightarrow> IItemDefManager \<Rightarrow> IMoveAction \<Rightarrow> 'w game \<Rightarrow> 'w move_outcome option" where
  "move_transfer sc idef a w =
     (case move_plan idef a w of
        (a, None) \<Rightarrow> Some (Stopped a w)
      | (a, Some (src_item, swap_planned)) \<Rightarrow>
          Option.bind (ask sc a src_item swap_planned w) (\<lambda>(can_take, can_put, allow_swap, w).
            limited_move idef a can_take can_put allow_swap w))"

definition record_rollback ::
  "bool \<Rightarrow> IMoveAction \<Rightarrow> ItemStack \<Rightarrow> int \<Rightarrow> int \<Rightarrow> 'w game \<Rightarrow> 'w game" where
  "record_rollback has_rollback a src_item can_take can_put w =
     (if \<not> (is_player (from_inv a) \<and> loc_eq (from_inv a) (to_inv a)) \<and> has_rollback
      then
        let w = (if can_take \<noteq> - 1 then reportAction \<lparr>rb_location = from_inv a, rb_list = from_list a,
              rb_index = from_i a, rb_add = False, rb_stack = src_item\<rparr> w else w) in
        if can_put \<noteq> - 1 then reportAction \<lparr>rb_location = to_inv a, rb_list = to_list a,
              rb_index = to_i a, rb_add = True, rb_stack = src_item\<rparr> w else w
      else w)"

text \<open>The reports after the move, with the lists released.\<close>

definition swapped_stack :: "IMoveAction \<Rightarrow> bool \<Rightarrow> 'w game \<Rightarrow> ItemStack option" where
  "swapped_stack a did_swap w =
     (if did_swap
      then map_option (\<lambda>l. il_items l ! unat (from_i a)) (list_of w (from_inv a, from_list a))
      else None)"

definition when_list :: "list_ref \<Rightarrow> ('w game \<Rightarrow> 'w game option) \<Rightarrow> 'w game \<Rightarrow> 'w game option" where
  "when_list r f w = (if list_of w r \<noteq> None then f w else Some w)"

definition move_report ::
  "'w scripts \<Rightarrow> IMoveAction \<Rightarrow> ItemStack \<Rightarrow> bool \<Rightarrow> 'w game \<Rightarrow> 'w game option" where
  "move_report sc a src_item did_swap w =
     (let b = swapDirections a;
          to = (to_inv a, to_list a) in
      if loc_eq (from_inv a) (to_inv a)
      then
        Option.bind (onMove sc a (int (unat (move_count a))) w) (\<lambda>w.
        Option.bind (case swapped_stack a did_swap w of
            None \<Rightarrow> Some w
          | Some s \<Rightarrow> onMove sc b (int (unat (st_count s))) w) (\<lambda>w.
          Some (setInventoryModified (from_inv a) w)))
      else
        let swap_item = (case swapped_stack a did_swap w of None \<Rightarrow> no_item | Some s \<Rightarrow> s) in
        Option.bind (onTake sc a src_item w) (\<lambda>w.
        Option.bind (if st_empty swap_item then Some w else when_list to (onTake sc b swap_item) w) (\<lambda>w.
        Option.bind (when_list to (onPut sc a src_item) w) (\<lambda>w.
        Option.bind (if st_empty swap_item then Some w else when_list to (onPut sc b swap_item) w) (\<lambda>w.
          Some (setInventoryModified (from_inv a) (setInventoryModified (to_inv a) w)))))))"

text \<open>\<open>apply\<close> with both lists borrowed, without the loop over slots.\<close>

definition apply_held ::
  "'w scripts \<Rightarrow> IItemDefManager \<Rightarrow> bool \<Rightarrow> IMoveAction \<Rightarrow> 'w game \<Rightarrow> (IMoveAction \<times> 'w game) option" where
  "apply_held sc idef has_rollback a w =
     (let done = (\<lambda>w. release (from_inv a, from_list a) (release (to_inv a, to_list a) w)) in
      Option.bind (move_transfer sc idef a w) (\<lambda>out.
        case out of
          Stopped a w \<Rightarrow> Some (a, done w)
        | Moved a w src_item did_swap can_take can_put \<Rightarrow>
            if caused_by_move_somewhere a \<and> move_count a = 0 then Some (a, done w)
            else
              Option.bind (move_report sc a src_item did_swap
                (done (record_rollback has_rollback a src_item can_take can_put w))) (\<lambda>w. Some (a, w))))"

definition borrow_both ::
  "IMoveAction \<Rightarrow> 'w game \<Rightarrow> bool \<times> 'w game" where
  "borrow_both a w =
     (let from = (from_inv a, from_list a);
          to = (to_inv a, to_list a);
          (found_from, w) = borrow from w;
          (found_to, w) = borrow to w in
      if found_from \<and> found_to then (True, w)
      else (False, if found_to then release to w else if found_from then release from w else w))"

definition apply_single ::
  "'w scripts \<Rightarrow> IItemDefManager \<Rightarrow> bool \<Rightarrow> IMoveAction \<Rightarrow> 'w game \<Rightarrow> (IMoveAction \<times> 'w game) option" where
  "apply_single sc idef has_rollback a w =
     (let (found, w) = borrow_both a w in
      if found then apply_held sc idef has_rollback a w else Some (a, w))"

section \<open>Moving to wherever there is room\<close>

text \<open>
  \<open>add_to\<close>: one slot of the target; \<open>held\<close> says whether the list is borrowed again
  afterwards.  The assertion is that no more was moved than was asked for.
\<close>

definition add_to ::
  "'w scripts \<Rightarrow> IItemDefManager \<Rightarrow> bool \<Rightarrow> s16 \<Rightarrow> IMoveAction \<Rightarrow> 'w game \<Rightarrow>
   (IMoveAction \<times> 'w game \<times> bool \<times> s16) option" where
  "add_to sc idef has_rollback dest_i a w =
     (let to = (to_inv a, to_list a) in
      Option.bind (apply_single sc idef has_rollback (a\<lparr>to_i := dest_i\<rparr>) (release to w)) (\<lambda>(a, w).
        if move_count a > ucast (ma_count a) then None
        else
          let a = a\<lparr>ma_count := ucast (ucast (ma_count a) - move_count a)\<rparr>;
              (held, w) = borrow to w in
          Some (a, w, held, if held then ucast (il_size (the_list w to)) else 0)))"

lemma sint_s16_bound: "sint (x :: s16) \<le> 32767"
  using sint_16(2) [of x] by simp

lemma s16_below: "int n < sint (x :: s16) \<Longrightarrow> n < 32768"
  using sint_s16_bound [of x] by linarith

text \<open>One of the two loops: over the slots that are empty, or over those that are not.\<close>

function somewhere_loop ::
  "'w scripts \<Rightarrow> IItemDefManager \<Rightarrow> bool \<Rightarrow> bool \<Rightarrow> nat \<Rightarrow> IMoveAction \<times> 'w game \<times> bool \<times> s16 \<Rightarrow>
   (IMoveAction \<times> 'w game \<times> bool \<times> s16) option" where
  "somewhere_loop sc idef has_rollback empties dest_i (a, w, held, dest_size) =
     (if int dest_i < sint dest_size \<and> ma_count a > 0
      then
        case il_getItem dest_i (the_list w (to_inv a, to_list a)) of
          None \<Rightarrow> None
        | Some s \<Rightarrow>
            Option.bind (if st_empty s = empties then add_to sc idef has_rollback (of_nat dest_i) a w
                else Some (a, w, held, dest_size))
              (somewhere_loop sc idef has_rollback empties (dest_i + 1))
      else Some (a, w, held, dest_size))"
  by pat_completeness auto

termination
  by (relation "measure (\<lambda>(sc, idef, rb, empties, dest_i, st). 32768 - dest_i)")
    (auto dest: s16_below)

declare somewhere_loop.simps [simp del]

definition apply_move ::
  "'w scripts \<Rightarrow> IItemDefManager \<Rightarrow> bool \<Rightarrow> IMoveAction \<Rightarrow> 'w game \<Rightarrow> (IMoveAction \<times> 'w game) option" where
  "apply_move sc idef has_rollback a w =
     (let (found, w) = borrow_both a w in
      if \<not> found then Some (a, w)
      else if \<not> move_somewhere a then apply_held sc idef has_rollback a w
      else
        let to = (to_inv a, to_list a);
            w = release (from_inv a, from_list a) w;
            b = a\<lparr>caused_by_move_somewhere := True, move_somewhere := False\<rparr> in
        Option.bind (somewhere_loop sc idef has_rollback False 0
            (b, w, True, ucast (il_size (the_list w to)))) (\<lambda>st.
        Option.bind (somewhere_loop sc idef has_rollback True 0 st) (\<lambda>(b, w, held, _).
          Some (b\<lparr>to_i := to_i a, ma_count := ma_count a, caused_by_move_somewhere := False,
                 move_somewhere := True\<rparr>,
                if held then release to w else w))))"


section \<open>Dropping\<close>

text \<open>The callbacks for a drop action; a location without inventories has none.\<close>

definition drop_allowTake :: "'w scripts \<Rightarrow> IDropAction \<Rightarrow> ItemStack \<Rightarrow> int \<Rightarrow> 'w game \<Rightarrow> int \<times> 'w game" where
  "drop_allowTake sc a src_item take_count w =
     (case kind_of (from_inv a) of
        None \<Rightarrow> (take_count, w)
      | Some k \<Rightarrow> s_AllowTake sc k (MoveAction.truncate a) src_item w)"

definition drop_onTake :: "'w scripts \<Rightarrow> IDropAction \<Rightarrow> ItemStack \<Rightarrow> 'w game \<Rightarrow> 'w game" where
  "drop_onTake sc a src_item w =
     (case kind_of (from_inv a) of
        None \<Rightarrow> w
      | Some k \<Rightarrow> s_OnTake sc k (MoveAction.truncate a) src_item w)"

text \<open>Nothing is dropped: the prediction of the client is undone, and the lock goes.\<close>

definition drop_refused :: "IDropAction \<Rightarrow> 'w game \<Rightarrow> 'w game" where
  "drop_refused a w =
     (let from = (from_inv a, from_list a) in
      release from (if is_player (from_inv a) then change_ref from (il_setModified True) w else w))"

text \<open>From the answer of the script on, with the list locked.\<close>

definition drop_allowed ::
  "'w scripts \<Rightarrow> bool \<Rightarrow> IDropAction \<Rightarrow> int \<Rightarrow> int \<Rightarrow> 'w game \<Rightarrow> 'w game" where
  "drop_allowed sc has_rollback a take_count can_take w =
     (let from = (from_inv a, from_list a);
          src_item = il_items (the_list w from) ! unat (from_i a);
          take_count = (if can_take \<noteq> - 1 \<and> can_take < take_count then can_take else take_count) in
      if take_count = 0 then drop_refused a w
      else
        let (kept, w) = s_OnDrop sc (src_item\<lparr>st_count := of_int take_count\<rparr>) w;
            dropped = max 0 (take_count - int (unat kept)) in
        if dropped = 0 then drop_refused a w
        else
          let w = (if can_take \<noteq> - 1
                then fst (on_ref from (il_takeItem (unat (from_i a)) (of_int dropped)) w) else w);
              w = release from (setInventoryModified (from_inv a) w);
              src_item = src_item\<lparr>st_count := of_int dropped\<rparr>;
              w = drop_onTake sc a src_item w in
          if \<not> is_player (from_inv a) \<and> has_rollback \<and> can_take \<noteq> - 1
          then reportAction \<lparr>rb_location = from_inv a, rb_list = from_list a, rb_index = from_i a,
            rb_add = False, rb_stack = src_item\<rparr> w
          else w)"

definition apply_drop :: "'w scripts \<Rightarrow> bool \<Rightarrow> IDropAction \<Rightarrow> 'w game \<Rightarrow> 'w game" where
  "apply_drop sc has_rollback a w =
     (let from = (from_inv a, from_list a) in
      case list_of w from of
        None \<Rightarrow> w
      | Some l \<Rightarrow>
          if sint (from_i a) < 0 \<or> length (il_items l) \<le> unat (from_i a) then w
          else
            let src_item = il_items l ! unat (from_i a) in
            if st_empty src_item then w
            else
              let w = change_ref from resizeLock w;
                  take_count = (if da_count a \<noteq> 0 \<and> da_count a < st_count src_item
                    then int (unat (da_count a)) else int (unat (st_count src_item)));
                  (can_take, w) = drop_allowTake sc a (src_item\<lparr>st_count := of_int take_count\<rparr>) take_count w in
              drop_allowed sc has_rollback a take_count can_take w)"

section \<open>What a client predicts\<close>

text \<open>
  The client carries out the moves within its own inventory at once, which is both
  \<open>CURRENT_PLAYER\<close> and the inventory of the player \<open>me\<close> that it is (\<open>Client::getInventory\<close>).
\<close>

definition client_loc :: "bytes \<Rightarrow> InventoryLocation \<Rightarrow> InventoryLocation" where
  "client_loc me loc = (if loc = PLAYER me then CURRENT_PLAYER else loc)"

definition clientApply_move :: "bytes \<Rightarrow> IItemDefManager \<Rightarrow> IMoveAction \<Rightarrow> 'w game \<Rightarrow> 'w game" where
  "clientApply_move me idef a w =
     (let from = (client_loc me (from_inv a), from_list a);
          to = (client_loc me (to_inv a), to_list a);
          i = unat (scast (from_i a) :: u32) in
      if g_inv w (fst from) = None \<or> g_inv w (fst to) = None then w
      else if fst from \<noteq> CURRENT_PLAYER \<or> fst to \<noteq> CURRENT_PLAYER then w
      else if list_of w from = None \<or> list_of w to = None then w
      else
        let w = (if \<not> move_somewhere a
              then fst (game_moveItem idef from i to (unat (scast (to_i a) :: u32)) (ucast (ma_count a)) True w)
              else
                let st = moveItemSomewhere idef from i to (ucast (ma_count a)) (the_list w) in
                put_list to (st to) (put_list from (st from) w)) in
        setInventoryModified (from_inv a) w)"

definition clientApply_drop :: "bytes \<Rightarrow> IDropAction \<Rightarrow> 'w game \<Rightarrow> 'w game" where
  "clientApply_drop me a w =
     (let from = (client_loc me (from_inv a), from_list a);
          i = unat (scast (from_i a) :: u32) in
      if fst from \<noteq> CURRENT_PLAYER \<or> list_of w from = None then w
      else
        setInventoryModified (from_inv a)
          (if da_count a = 0 then fst (on_ref from (il_changeItem i no_item) w)
           else fst (on_ref from (il_takeItem i (ucast (da_count a))) w)))"

text \<open>Craft actions predict nothing.\<close>

definition clientApply :: "bytes \<Rightarrow> IItemDefManager \<Rightarrow> InventoryAction \<Rightarrow> 'w game \<Rightarrow> 'w game" where
  "clientApply me idef a w =
     (case a of Move m \<Rightarrow> clientApply_move me idef m w | Drop d \<Rightarrow> clientApply_drop me d w
      | Craft c \<Rightarrow> w)"

end
