(* ===== verification/MoveConserve.thy ===== *)
theory MoveConserve
  imports InventoryMove
begin

text \<open>
  What an action of a player does to the items of the game (\<open>apply\<close> in
  \<open>src/inventorymanager.cpp\<close>), whatever the scripts answer, as long as they leave the
  inventories alone and set limits: nothing is lost or made, the locks on the lists are given
  back, and what is forbidden does not happen.
\<close>

section \<open>Lists behind their references\<close>

lemma find_index_update:
  assumes "find_index P xs = Some i" and "P x"
  shows "find_index P (xs[i := x]) = Some i"
  using assms by (induction xs arbitrary: i) (auto split: if_splits)

lemma find_index_update_other:
  assumes "\<not> P x" and "i < length xs" and "\<not> P (xs ! i)"
  shows "find_index P (xs[i := x]) = find_index P xs"
  using assms by (induction xs arbitrary: i) (auto simp: nth_Cons split: nat.splits)

lemma getList_putList:
  assumes "getList n iv \<noteq> None" and "il_name l = n"
  shows "getList k (putList n l iv) = (if k = n then Some l else getList k iv)"
proof -
  obtain i where i: "getListIndex n iv = Some i" using assms(1) by (auto simp: getList_def)
  note b = getListIndex_Some [OF i]
  show ?thesis
  proof (cases "k = n")
    case True
    with i b assms(2) find_index_update [of "\<lambda>l. il_name l = n" "m_lists iv" i l] show ?thesis
      by (simp add: getList_def putList_def getListIndex_def)
  next
    case False
    then have "getListIndex k (putList n l iv) = getListIndex k iv"
      using find_index_update_other [of "\<lambda>l. il_name l = k" l i "m_lists iv"] i b assms(2)
      by (simp add: putList_def getListIndex_def)
    moreover have "j \<noteq> i" if "getListIndex k iv = Some j" for j
      using getListIndex_Some [OF that] b False by auto
    ultimately show ?thesis using i False by (cases "getListIndex k iv") (auto simp: getList_def putList_def)
  qed
qed

definition there :: "'w game \<Rightarrow> list_ref \<Rightarrow> bool" where
  "there w r \<longleftrightarrow> list_of w r \<noteq> None"

lemma getList_name: "getList n iv = Some l \<Longrightarrow> il_name l = n"
  using getListIndex_Some by (auto simp: getList_def)

lemma the_list_name: "there w r \<Longrightarrow> il_name (the_list w r) = snd r"
  by (auto simp: there_def the_list_def list_of_def split: option.splits dest: getList_name)

lemma list_of_put_list:
  assumes "there w r" and "il_name l = snd r"
  shows "list_of (put_list r l w) q = (if q = r then Some l else list_of w q)"
proof -
  obtain iv where iv: "g_inv w (fst r) = Some iv" and l: "getList (snd r) iv \<noteq> None"
    using assms(1) by (auto simp: there_def list_of_def split: option.splits)
  show ?thesis
  proof (cases "fst q = fst r")
    case True
    with iv getList_putList [OF l assms(2), of "snd q"] show ?thesis
      by (auto simp: list_of_def put_list_def prod_eq_iff)
  next
    case False
    then show ?thesis by (auto simp: list_of_def put_list_def)
  qed
qed

lemma put_list_lists:
  assumes "there w r" and "il_name l = snd r"
  shows "the_list (put_list r l w) = (the_list w)(r := l)" and "there (put_list r l w) = there w"
  using list_of_put_list [OF assms] assms(1) by (auto simp: the_list_def there_def fun_eq_iff)

section \<open>The effect of a step on the items and the locks\<close>

text \<open>
  The same lists are there, those in \<open>R\<close> hold the same items altogether, and the locks of
  every list have changed by \<open>d\<close>.
\<close>

definition effect :: "list_ref set \<Rightarrow> (list_ref \<Rightarrow> int) \<Rightarrow> 'w game \<Rightarrow> 'w game \<Rightarrow> bool" where
  "effect R d w w' \<longleftrightarrow>
     there w' = there w \<and> store_content R (the_list w') = store_content R (the_list w) \<and>
     (\<forall>r. there w r \<longrightarrow> il_resize_locks (the_list w' r) = il_resize_locks (the_list w r) + d r)"

abbreviation "no_locks \<equiv> (\<lambda>_. 0) :: list_ref \<Rightarrow> int"

lemma effect_refl [simp]: "effect R no_locks w w"
  by (simp add: effect_def)

lemma effect_there: "effect R d w w' \<Longrightarrow> there w' = there w"
  by (simp add: effect_def)

lemma effect_cong: "effect R d w w' \<Longrightarrow> (\<And>r. d r = e r) \<Longrightarrow> effect R e w w'"
  by (metis ext)

lemma effect_trans:
  "effect R d w w' \<Longrightarrow> effect R e w' w'' \<Longrightarrow> effect R (\<lambda>r. d r + e r) w w''"
  by (auto simp: effect_def)

lemma effect_trans0 [trans]:
  "effect R no_locks w w' \<Longrightarrow> effect R no_locks w' w'' \<Longrightarrow> effect R no_locks w w''"
  using effect_trans [of R no_locks w w' no_locks w''] by simp

text \<open>A step that leaves the inventories alone.\<close>

lemma same_inv_lists: "g_inv w' = g_inv w \<Longrightarrow> list_of w' = list_of w"
  by (simp add: list_of_def fun_eq_iff)

lemma effect_same_inv: "g_inv w' = g_inv w \<Longrightarrow> effect R no_locks w w'"
proof -
  assume "g_inv w' = g_inv w"
  from same_inv_lists [OF this] have "the_list w' = the_list w" and "there w' = there w"
    by (rule_tac [!] ext) (simp_all add: the_list_def there_def)
  then show ?thesis by (simp add: effect_def)
qed

lemma same_content: "il_content (l\<lparr>il_resize_locks := n\<rparr>) = il_content l"
  by (simp add: il_content_def)

lemma store_content_same:
  "(\<And>r. r \<in> R \<Longrightarrow> il_content (st' r) = il_content (st r)) \<Longrightarrow> store_content R st' = store_content R st"
  unfolding store_content_def by (rule sum.cong) auto

text \<open>A change of one list that keeps its items.\<close>

lemma effect_change_ref:
  assumes "there w r" and "il_name (f (the_list w r)) = il_name (the_list w r)"
    and "il_content (f (the_list w r)) = il_content (the_list w r)"
    and "il_resize_locks (f (the_list w r)) = il_resize_locks (the_list w r) + n"
  shows "effect R (no_locks(r := n)) w (change_ref r f w)"
proof -
  have name: "il_name (f (the_list w r)) = snd r" using assms(2) the_list_name [OF assms(1)] by simp
  show ?thesis
    unfolding effect_def change_ref_def put_list_lists [OF assms(1) name]
    using assms(3,4) by (auto intro!: store_content_same)
qed

lemma effect_lock: "there w r \<Longrightarrow> effect R (no_locks(r := 1)) w (change_ref r resizeLock w)"
  by (rule effect_change_ref) (simp_all add: resizeLock_def il_content_def)

lemma effect_release: "there w r \<Longrightarrow> effect R (no_locks(r := - 1)) w (release r w)"
  unfolding release_def by (rule effect_change_ref) (simp_all add: resizeUnlock_def il_content_def)

lemma effect_dirty: "there w r \<Longrightarrow> effect R no_locks w (change_ref r (il_setModified d) w)"
  by (rule effect_cong [OF effect_change_ref [of w r "il_setModified d" 0]])
    (simp_all add: il_setModified_def il_content_def)

lemma effect_moveItem:
  assumes R: "finite R" "p \<in> R" "q \<in> R" and p: "there w p" and q: "there w q"
    and st: "\<And>r. same_frame (the_list w r) (st r)" "\<And>r. r \<noteq> p \<Longrightarrow> r \<noteq> q \<Longrightarrow> st r = the_list w r"
    and content: "store_content R st = store_content R (the_list w)"
  shows "effect R no_locks w (put_list q (st q) (put_list p (st p) w))" (is "effect R _ w ?w")
    and "the_list (put_list q (st q) (put_list p (st p) w)) = st"
proof -
  have name: "il_name (st r) = il_name (the_list w r)" for r using st(1) by (simp add: same_frame_def)
  note 1 = put_list_lists [OF p, of "st p"]
  have np: "il_name (st p) = snd p" "il_name (st q) = snd q"
    using name the_list_name p q by simp_all
  have "there (put_list p (st p) w) q" using 1(2) [OF np(1)] q by simp
  note 2 = put_list_lists [OF this np(2)]
  show lists: "the_list ?w = st"
    using 1(1) [OF np(1)] 2(1) st(2) by (auto simp: fun_eq_iff)
  have "il_resize_locks (st r) = il_resize_locks (the_list w r)" for r
    using st(1) by (simp add: same_frame_def)
  then show "effect R no_locks w ?w"
    using 1(2) [OF np(1)] 2(2) content by (simp add: effect_def lists)
qed

lemma game_moveItem_effect:
  assumes "game_moveItem idef p i q j n swap w = (w', moved, did_swap)"
    and "finite R" and "p \<in> R" and "q \<in> R" and "there w p" and "there w q"
  shows "effect R no_locks w w'" and "the_list w' = fst (moveItem idef p i q j n swap (the_list w))"
proof -
  obtain st where st: "moveItem idef p i q j n swap (the_list w) = (st, moved, did_swap)"
    and w': "w' = put_list q (st q) (put_list p (st p) w)"
    using assms(1) by (auto simp: game_moveItem_def split: prod.splits)
  from moveItem_conserves [OF st assms(2-4)]
  have c: "store_content R st = store_content R (the_list w)"
    "\<And>r. same_frame (the_list w r) (st r)" "\<And>r. r \<noteq> p \<Longrightarrow> r \<noteq> q \<Longrightarrow> st r = the_list w r"
    unfolding conserved_def by (simp, blast, blast)
  show "effect R no_locks w w'" and "the_list w' = fst (moveItem idef p i q j n swap (the_list w))"
    using effect_moveItem [OF assms(2-6) c(2,3,1)] by (simp_all add: w' st)
qed

section \<open>Scripts that set limits\<close>

text \<open>
  The callbacks answer with a limit, which is not negative, and leave the inventories alone;
  the state of the scripts may change.
\<close>

definition answers :: "(int \<Rightarrow> bool) \<Rightarrow> ('a \<Rightarrow> 'w game \<Rightarrow> int \<times> 'w game) \<Rightarrow> bool" where
  "answers P f \<longleftrightarrow> (\<forall>x w. P (fst (f x w)) \<and> g_inv (snd (f x w)) = g_inv w)"

definition silent :: "('a \<Rightarrow> 'w game \<Rightarrow> 'w game) \<Rightarrow> bool" where
  "silent f \<longleftrightarrow> (\<forall>x w. g_inv (f x w) = g_inv w)"

definition obliging :: "(int \<Rightarrow> bool) \<Rightarrow> 'w scripts \<Rightarrow> bool" where
  "obliging P sc \<longleftrightarrow>
     (\<forall>k a. answers P (s_AllowMove sc k a) \<and> answers P (s_AllowPut sc k a) \<and>
        answers P (s_AllowTake sc k a) \<and> silent (s_OnMove sc k a) \<and> silent (s_OnPut sc k a) \<and>
        silent (s_OnTake sc k a)) \<and>
     (\<forall>s w. g_inv (snd (s_OnDrop sc s w)) = g_inv w)"

abbreviation limiting :: "'w scripts \<Rightarrow> bool" where
  "limiting \<equiv> obliging (\<lambda>n. 0 \<le> n)"

abbreviation forbidding :: "'w scripts \<Rightarrow> bool" where
  "forbidding \<equiv> obliging (\<lambda>n. n = 0)"

lemma obliging_mono: "obliging P sc \<Longrightarrow> (\<And>n. P n \<Longrightarrow> Q n) \<Longrightarrow> obliging Q sc"
  by (simp add: obliging_def answers_def)

lemma answersD: "answers P f \<Longrightarrow> f x w = (n, w') \<Longrightarrow> P n \<and> g_inv w' = g_inv w"
  by (metis answers_def fst_conv snd_conv)

lemma allow_obliging:
  assumes "obliging P sc"
  shows "allowMove sc a k w = Some (n, w') \<Longrightarrow> P n \<and> g_inv w' = g_inv w"
    and "allowPut sc a s w = Some (n, w') \<Longrightarrow> P n \<and> g_inv w' = g_inv w"
    and "allowTake sc a s w = Some (n, w') \<Longrightarrow> P n \<and> g_inv w' = g_inv w"
  using assms unfolding obliging_def allowMove_def allowPut_def allowTake_def
  by (blast dest: answersD elim: option.rel_cases | clarsimp, metis answersD)+

lemma on_obliging:
  assumes "obliging P sc"
  shows "onMove sc a n w = Some w' \<Longrightarrow> g_inv w' = g_inv w"
    and "onPut sc a s w = Some w' \<Longrightarrow> g_inv w' = g_inv w"
    and "onTake sc a s w = Some w' \<Longrightarrow> g_inv w' = g_inv w"
  using assms by (auto simp: obliging_def silent_def onMove_def onPut_def onTake_def)

text \<open>The answers to the questions of a move; a swap is only allowed if both are enough.\<close>

lemma ask_same_obliging:
  assumes "ask_same sc a src sw w = Some (t, p, s, w')" and ob: "obliging P sc" and "P 0"
  shows "P t \<and> P p \<and> g_inv w' = g_inv w \<and> (s \<longrightarrow> sw \<and> enough t (st_count src))"
proof -
  obtain t0 w1 where 1: "allowMove sc a (int (unat (st_count src))) w = Some (t0, w1)"
    using assms(1) by (auto simp: ask_same_def Option.bind_eq_Some_conv)
  note q1 = allow_obliging(1) [OF ob 1]
  show ?thesis
  proof (cases "sw \<and> enough t0 (st_count src)")
    case True
    then obtain p0 w2 n where 2: "allowMove sc (swapDirections a) n w1 = Some (p0, w2)"
      and r: "(t, p, s, w') = (t0, p0, True, w2) \<or> (t, p, s, w') = (0, 0, False, w2)"
      using assms(1) 1 by (auto simp: ask_same_def Option.bind_eq_Some_conv Let_def split: if_splits)
    from r allow_obliging(1) [OF ob 2] q1 True \<open>P 0\<close> show ?thesis by auto
  next
    case False
    then have "(t, p, s, w') = (0, 0, False, w1) \<or> (t, p, s, w') = (t0, t0, False, w1)"
      using assms(1) 1 by (auto simp: ask_same_def split: if_splits)
    with q1 \<open>P 0\<close> show ?thesis by auto
  qed
qed

lemma ask_two_obliging:
  assumes "ask_two sc a src sw w = Some (t, p, s, w')" and ob: "obliging P sc" and "P 0"
  shows "P t \<and> P p \<and> g_inv w' = g_inv w \<and> (s \<longrightarrow> sw \<and> enough t (st_count src))"
proof -
  obtain p0 w1 t0 w2 where 1: "allowPut sc a src w = Some (p0, w1)" and 2: "allowTake sc a src w1 = Some (t0, w2)"
    using assms(1) by (auto simp: ask_two_def Option.bind_eq_Some_conv)
  note q = allow_obliging(2) [OF ob 1] allow_obliging(3) [OF ob 2]
  show ?thesis
  proof (cases "sw \<and> enough t0 (st_count src) \<and> enough p0 (st_count src)")
    case True
    then obtain u w3 v w4 b x y where 3: "allowPut sc b x w2 = Some (u, w3)" "allowTake sc b y w3 = Some (v, w4)"
      and r: "(t, p, s, w') = (t0, p0, True, w4) \<or> (t, p, s, w') = (0, 0, False, w4)"
      using assms(1) 1 2 by (auto simp: ask_two_def Option.bind_eq_Some_conv Let_def split: if_splits)
    from r allow_obliging(2) [OF ob 3(1)] allow_obliging(3) [OF ob 3(2)] q True \<open>P 0\<close> show ?thesis by auto
  next
    case False
    then have "(t, p, s, w') = (0, 0, False, w2) \<or> (t, p, s, w') = (t0, p0, False, w2)"
      using assms(1) 1 2 by (auto simp: ask_two_def split: if_splits)
    with q \<open>P 0\<close> show ?thesis by auto
  qed
qed

lemma ask_obliging:
  assumes "ask sc a src sw w = Some (t, p, s, w')" and "obliging P sc" and "P 0"
  shows "P t \<and> P p \<and> g_inv w' = g_inv w \<and> (s \<longrightarrow> sw \<and> enough t (st_count src))"
  using assms ask_same_obliging ask_two_obliging by (fastforce simp: ask_def split: if_splits)

lemma bind_Some: "m \<noteq> None \<Longrightarrow> (\<And>x. f x \<noteq> None) \<Longrightarrow> Option.bind m f \<noteq> None"
  by (cases m) auto

lemma if_Some: "x \<noteq> None \<Longrightarrow> y \<noteq> None \<Longrightarrow> (if b then x else y) \<noteq> None"
  by simp

lemma ask_answers:
  assumes from_kind: "kind_of (from_inv a) \<noteq> None" and to_kind: "kind_of (to_inv a) \<noteq> None"
  shows "ask sc a src sw w \<noteq> None"
proof -
  have m: "allowMove sc b n w \<noteq> None" "allowPut sc b x w \<noteq> None" "allowTake sc b x w \<noteq> None"
    if "b = a \<or> b = swapDirections a" for b n x w
    using that assms by (auto simp: allowMove_def allowPut_def allowTake_def swapDirections_def)
  note some = bind_Some if_Some option.distinct(2) m
  have "ask_same sc a src sw w \<noteq> None"
    unfolding ask_same_def Let_def case_prod_beta by (intro some) simp_all
  moreover have "ask_two sc a src sw w \<noteq> None"
    unfolding ask_two_def Let_def case_prod_beta by (intro some) simp_all
  ultimately show ?thesis by (simp only: ask_def split: if_split) simp
qed

text \<open>Limits as numbers of items.\<close>

lemma limit_count_le:
  assumes "0 \<le> answer" and "unat n < 2 ^ 31"
  shows "unat (limit_count answer n) = min (nat answer) (unat n)"
proof -
  define k where "k = min (nat answer) (unat n)"
  have u: "uint n = int (unat n)" by simp
  have "uint n < 2 ^ 31" using assms(2) unfolding u by (simp only: of_nat_less_numeral_power_cancel_iff)
  moreover have "0 \<le> uint n" by simp
  ultimately have "sint n = uint n"
    unfolding sint_uint by (intro signed_take_bit_int_eq_self) (use \<open>0 \<le> uint n\<close> in \<open>simp_all, linarith\<close>)
  then have "min answer (sint n) = min (int (nat answer)) (int (unat n))"
    by (simp only: u nat_0_le [OF assms(1)])
  then have "min answer (sint n) = int k" by (simp only: k_def of_nat_min)
  then have "limit_count answer n = of_nat k" using assms(1) by (simp add: limit_count_def)
  then have "unat (limit_count answer n) = k mod 2 ^ LENGTH(32)" by (simp only: unat_of_nat)
  moreover have "k < 2 ^ LENGTH(32)" using assms(2) by (simp add: k_def)
  ultimately have "unat (limit_count answer n) = k" by (simp only: mod_less)
  then show ?thesis by (simp only: k_def)
qed

section \<open>One move\<close>

lemma itemFits_rest: "il_itemFits idef i x l = (fits, rest) \<Longrightarrow> st_count rest \<le> st_count x"
  using addItem_rest_le(1) [of idef x "il_items l ! i"]
  by (cases "st_addItem idef x (il_items l ! i)") (auto simp: il_itemFits_def itemFits_addItem split: if_splits)

lemma unat_ucast_minus: "(y :: u16) \<le> x \<Longrightarrow> unat (ucast x - ucast y :: u32) = unat x - unat y"
  by (simp add: unat_sub word_le_nat_alt)

text \<open>The plan changes nothing but the count, and asks for no more than there is.\<close>

definition planned :: "IItemDefManager \<Rightarrow> IMoveAction \<Rightarrow> 'w game \<Rightarrow> u32 \<Rightarrow> ItemStack \<Rightarrow> bool \<Rightarrow> bool" where
  "planned idef a w n src sw \<longleftrightarrow>
     (let p = (from_inv a, from_list a); q = (to_inv a, to_list a);
          i = unat (from_i a); j = unat (to_i a);
          s = slot (the_list w) p i; d = slot (the_list w) q j in
      i < length (il_items (the_list w p)) \<and> j < length (il_items (the_list w q)) \<and> (p, i) \<noteq> (q, j) \<and>
      unat n \<le> unat (st_count s) \<and>
      (sw \<longrightarrow> n = ucast (st_count s) \<and> src = s \<and>
        (\<exists>c rest. 0 < c \<and> c \<le> st_count s \<and> st_itemFits idef (s\<lparr>st_count := c\<rparr>) d = (False, rest) \<and>
          st_count rest = c)))"

lemma move_plan_Some:
  assumes "move_plan idef a w = (a', Some (src, sw))"
  shows "\<exists>n. a' = a\<lparr>move_count := n\<rparr> \<and> planned idef a w n src sw"
proof -
  define p where "p = (from_inv a, from_list a)"
  define q where "q = (to_inv a, to_list a)"
  define s where "s = slot (the_list w) p (unat (from_i a))"
  define c where "c = (if ma_count a > 0 \<and> ma_count a < st_count s then ma_count a else st_count s)"
  obtain fits rest where fits: "il_itemFits idef (unat (to_i a)) (s\<lparr>st_count := c\<rparr>) (the_list w q) = (fits, rest)"
    by fastforce
  have src0: "(if ma_count a > 0 \<and> ma_count a < st_count s then s\<lparr>st_count := ma_count a\<rparr> else s) =
      s\<lparr>st_count := c\<rparr>" by (simp add: c_def)
  note plan = assms [unfolded move_plan_def Let_def, folded p_def q_def slot_def, folded s_def,
      unfolded src0 fits prod.case]
  from plan have bounds: "unat (from_i a) < length (il_items (the_list w p))"
      "unat (to_i a) < length (il_items (the_list w q))" "\<not> (p = q \<and> from_i a = to_i a)" "c \<noteq> 0"
    by (auto simp: st_empty_def split: if_splits)
  have c: "c \<le> st_count s" by (auto simp: c_def)
  have rest: "st_count rest \<le> c" using itemFits_rest [OF fits] by simp
  from bounds(2) fits have f: "st_itemFits idef (s\<lparr>st_count := c\<rparr>) (slot (the_list w) q (unat (to_i a))) = (fits, rest)"
    by (simp add: il_itemFits_def slot_def)
  have apart: "(p, unat (from_i a)) \<noteq> (q, unat (to_i a))"
    using bounds(3) by (auto dest: word_unat_eq_iff [THEN iffD2])
  let ?m = "ucast c - ucast (st_count rest) :: u32"
  have m: "unat ?m \<le> unat (st_count s)"
    using unat_ucast_minus [OF rest] c by (simp add: word_le_nat_alt)
  show ?thesis
  proof (cases "\<not> fits \<and> st_count rest = c \<and> \<not> caused_by_move_somewhere a")
    case True
    with plan have "a' = a\<lparr>move_count := ucast (st_count s)\<rparr>" "src = s"
      by (auto split: if_splits)
    moreover have "planned idef a w (ucast (st_count s)) s sw"
      unfolding planned_def Let_def p_def [symmetric] q_def [symmetric] s_def [symmetric]
      using bounds(1,2) apart True f c bounds(4) by (auto simp: word_gt_0)
    ultimately show ?thesis by blast
  next
    case False
    with plan have "a' = a\<lparr>move_count := ?m\<rparr>" "sw = False"
      by (auto split: if_splits)
    moreover have "planned idef a w ?m src False"
      unfolding planned_def Let_def p_def [symmetric] q_def [symmetric] s_def [symmetric]
      using bounds(1,2) apart m by blast
    ultimately show ?thesis by blast
  qed
qed

lemma move_plan_None:
  assumes "move_plan idef a w = (a', None)"
  shows "\<exists>n. a' = a\<lparr>move_count := n\<rparr>"
proof -
  have "a' = a\<lparr>move_count := move_count a'\<rparr>"
    using assms by (auto simp: move_plan_def Let_def case_prod_beta split: if_splits)
  then show ?thesis by blast
qed

text \<open>A stack of which nothing fits is swapped, however much of it is to be moved.\<close>

lemma no_fit_no_add:
  assumes "st_itemFits idef (s\<lparr>st_count := c\<rparr>) d = (False, rest)" and "st_count rest = c" and "0 < c"
    and "st_addItem idef (s\<lparr>st_count := n\<rparr>) d = (d', rest')" and "n \<noteq> 0"
  shows "st_count rest' = n"
proof -
  have ne: "\<not> st_empty (s\<lparr>st_count := n\<rparr>)" using assms(5) by (simp add: st_empty_def)
  have nd: "\<not> st_empty d"
    using assms(1,3) by (auto simp: st_itemFits_def Let_def st_empty_def st_clear_def split: if_splits)
  have "freeSpace idef d = 0" if same: "st_name d = st_name s" "meta_eq (st_metadata d) (st_metadata s)"
  proof -
    let ?f = "freeSpace idef d"
    have "rest = st_remove ?f (s\<lparr>st_count := c\<rparr>)"
      using assms(1) same nd assms(3)
      by (auto simp: st_itemFits_def Let_def st_empty_def st_clear_def split: if_splits)
    then have "st_count rest = c - ?f" by (simp add: st_remove_def st_clear_def Let_def)
    with assms(2) show ?thesis by simp
  qed
  with nd consider "st_name d \<noteq> st_name s \<or> \<not> meta_eq (st_metadata d) (st_metadata s)"
    | "st_name d = st_name s" "meta_eq (st_metadata d) (st_metadata s)" "freeSpace idef d = 0"
    by blast
  then show ?thesis
  proof cases
    case 1
    with ne nd assms(4) show ?thesis by (auto simp: st_addItem_def)
  next
    case 2
    with ne nd assms(4) show ?thesis
      by (auto simp: st_addItem_def Let_def st_remove_def st_empty_def st_clear_def split: if_splits)
  qed
qed

lemma moveItem_swaps:
  assumes apart: "(p, i) \<noteq> (q, j)" and i: "i < length (il_items (st p))" and j: "j < length (il_items (st q))"
    and fits: "st_itemFits idef (slot st p i\<lparr>st_count := c\<rparr>) (slot st q j) = (False, rest)" "st_count rest = c"
      "0 < c" and n: "0 < unat n" "unat n \<le> unat (st_count (slot st p i))"
  shows "snd (snd (moveItem idef p i q j n True st))"
proof -
  let ?s = "slot st p i"
  have n0: "n \<noteq> 0" using n(1) by auto
  have uc: "unat (ucast n :: u16) = unat n"
    using n(2) unat16_lt [of "st_count ?s"] by (simp add: unsigned_ucast_eq take_bit_nat_eq_self)
  then have c0: "(ucast n :: u16) \<noteq> 0" using n(1) by auto
  have full: "ucast n = st_count ?s" if "n \<ge> ucast (st_count ?s)"
    using that n(2) uc by (simp add: word_le_nat_alt word_unat_eq_iff)
  obtain st1 moved where 1: "on_list p (if n = 0 then il_changeItem i no_item else il_takeItem i n) st = (st1, moved)"
    by fastforce
  have s0: "st_count ?s \<noteq> 0" using n by auto
  have moved: "moved = ?s\<lparr>st_count := ucast n\<rparr>"
    using 1 n0 s0 i full
    by (auto simp: on_list_def il_takeItem_def st_takeItem_def Let_def slot_def il_setModified_def split: if_splits)
  have kept: "\<And>r k. (r, k) \<noteq> (p, i) \<Longrightarrow> slot st1 r k = slot st r k"
      "\<And>r. length (il_items (st1 r)) = length (il_items (st r))"
    using 1 n0 i
    by (auto simp: on_list_def il_takeItem_def Let_def slot_def il_setModified_def split: if_splits prod.splits)
  obtain d' rest' where d': "st_addItem idef (?s\<lparr>st_count := ucast n\<rparr>) (slot st q j) = (d', rest')" by fastforce
  have r: "st_count rest' = ucast n" by (rule no_fit_no_add [OF fits d' c0])
  obtain st2 leftover where 2: "on_list q (il_addItem_at idef j moved) st1 = (st2, leftover)" by fastforce
  have "slot st1 q j = slot st q j" using kept(1) apart by auto
  then have "leftover = rest'"
    using 2 j d' moved kept(2)
    by (auto simp: on_list_def il_addItem_at_def Let_def slot_def split: prod.splits if_splits)
  with r c0 have "\<not> st_empty leftover" "st_empty (st_remove (st_count leftover) moved)"
    by (simp_all add: st_empty_def moved st_remove_def st_clear_def)
  with apart 1 2 show ?thesis
    by (simp only: moveItem_def) (auto split: prod.splits)
qed

lemma moveItem_no_swap: "snd (snd (moveItem idef p i q j n False st)) = False"
  by (auto simp: moveItem_def Let_def split: prod.splits)

definition same_refs :: "IMoveAction \<Rightarrow> IMoveAction \<Rightarrow> bool" where
  "same_refs a b \<longleftrightarrow> from_inv b = from_inv a \<and> from_list b = from_list a \<and> to_inv b = to_inv a \<and>
     to_list b = to_list a"

lemma same_refs_simps [simp]:
  "same_refs a a" "same_refs a (a\<lparr>move_count := n\<rparr>)" "same_refs a (a\<lparr>to_i := j\<rparr>)"
  "same_refs a (a\<lparr>ma_count := c\<rparr>)" "same_refs a (a\<lparr>caused_by_move_somewhere := b\<rparr>)"
  "same_refs a (a\<lparr>move_somewhere := b\<rparr>)"
  by (simp_all add: same_refs_def)

lemma same_refs_trans: "same_refs a b \<Longrightarrow> same_refs b c \<Longrightarrow> same_refs a c"
  by (simp add: same_refs_def)

abbreviation from_ref :: "IMoveAction \<Rightarrow> list_ref" where
  "from_ref a \<equiv> (from_inv a, from_list a)"

abbreviation to_ref :: "IMoveAction \<Rightarrow> list_ref" where
  "to_ref a \<equiv> (to_inv a, to_list a)"

lemma same_refsD: "same_refs a b \<Longrightarrow> from_ref b = from_ref a \<and> to_ref b = to_ref a"
  by (simp add: same_refs_def)

text \<open>
  How a move goes under scripts that set limits: it stops, or moves at most as much as both
  answers allow.
\<close>

lemma allowed_count_le:
  assumes "0 \<le> t" and "0 \<le> p" and "unat n < 2 ^ 31"
  shows "unat (allowed_count t p n s) = min (nat t) (min (nat p) (min (unat n) (unat (st_count s))))"
proof -
  have 1: "unat (limit_count t n) = min (nat t) (unat n)" by (rule limit_count_le [OF assms(1,3)])
  have "unat (limit_count p (limit_count t n)) = min (nat p) (unat (limit_count t n))"
    using 1 assms(3) by (intro limit_count_le [OF assms(2)]) simp
  with 1 show ?thesis
    by (auto simp: allowed_count_def Let_def word_less_nat_alt min_def)
qed

definition limited_outcome ::
  "IItemDefManager \<Rightarrow> IMoveAction \<Rightarrow> int \<Rightarrow> int \<Rightarrow> 'w game \<Rightarrow> 'w move_outcome \<Rightarrow> bool" where
  "limited_outcome idef a t p w out \<longleftrightarrow>
     (\<exists>b. same_refs a b \<and> (out = Stopped b w \<or> out = Stopped b (undo_prediction b w) \<or>
       (\<exists>n sw w' moved did_swap. 0 < unat n \<and> unat n \<le> nat t \<and> unat n \<le> nat p \<and>
          game_moveItem idef (from_ref a) (unat (from_i a)) (to_ref a) (unat (to_i a)) n sw w =
            (w', moved, did_swap) \<and> out = Moved b w' moved did_swap t p)))"

lemma limited_move_outcome:
  assumes out: "limited_move idef a t p sw w = Some out" and "0 \<le> t" "0 \<le> p"
    and "unat (move_count a) < 2 ^ 31"
  shows "limited_outcome idef a t p w out"
proof -
  define n where "n = allowed_count t p (move_count a) (slot (the_list w) (from_ref a) (unat (from_i a)))"
  have n: "unat n \<le> nat t" "unat n \<le> nat p"
    using allowed_count_le [OF assms(2-4)] by (simp_all add: n_def)
  note out = out [unfolded limited_move_def Let_def, folded n_def]
  show ?thesis
  proof (cases "n = 0")
    case True
    with out have "out = Stopped (a\<lparr>move_count := 0\<rparr>) (undo_prediction (a\<lparr>move_count := 0\<rparr>) w)"
      by simp
    then show ?thesis unfolding limited_outcome_def using same_refs_simps(2) by blast
  next
    case False
    obtain w' moved did_swap where g: "game_moveItem idef (from_ref a) (unat (from_i a)) (to_ref a)
        (unat (to_i a)) n sw w = (w', moved, did_swap)" by (metis prod_cases3)
    have "t \<noteq> - 1" "p \<noteq> - 1" using assms(2,3) by auto
    with out False g have "out = Moved (a\<lparr>move_count := ucast (st_count moved)\<rparr>) w' moved did_swap t p"
      by (auto split: if_splits)
    moreover have "0 < unat n" using False by (simp add: unat_gt_0)
    ultimately show ?thesis using n g same_refs_simps(2) unfolding limited_outcome_def by blast
  qed
qed

lemma planned_less: "planned idef a w m src sw \<Longrightarrow> unat m < 2 ^ 31"
proof -
  assume "planned idef a w m src sw"
  then have "unat m \<le> unat (st_count (slot (the_list w) (from_ref a) (unat (from_i a))))"
    by (simp add: planned_def Let_def)
  then have "unat m < 65536" using unat16_lt by (rule le_less_trans)
  then show "unat m < 2 ^ 31" by simp
qed

lemma move_transfer_limited:
  assumes out: "move_transfer sc idef a w = Some out" and ob: "obliging P sc" and P0: "P 0"
    and Pn: "\<And>n. P n \<Longrightarrow> 0 \<le> n"
  shows "\<exists>t p w1. P t \<and> P p \<and> g_inv w1 = g_inv w \<and> limited_outcome idef a t p w1 out"
proof (cases "move_plan idef a w")
  case (Pair a1 plan)
  show ?thesis
  proof (cases plan)
    case None
    with Pair out have "out = Stopped a1 w" by (simp add: move_transfer_def)
    moreover have "same_refs a a1" using Pair None move_plan_None [of idef a w a1] by auto
    ultimately have "limited_outcome idef a 0 0 w out" unfolding limited_outcome_def by blast
    with P0 show ?thesis by blast
  next
    case (Some pl)
    then obtain src sw where pl: "plan = Some (src, sw)" by (cases pl) simp
    with Pair obtain m where a1: "a1 = a\<lparr>move_count := m\<rparr>" and planned: "planned idef a w m src sw"
      using move_plan_Some by blast
    from out obtain t p s w1 where ask: "ask sc a1 src sw w = Some (t, p, s, w1)"
      and l: "limited_move idef a1 t p s w1 = Some out"
      by (auto simp: move_transfer_def Pair pl Option.bind_eq_Some_conv)
    note q = ask_obliging [OF ask ob P0]
    have "limited_outcome idef a1 t p w1 out"
      using q Pn planned_less [OF planned] by (intro limited_move_outcome [OF l]) (auto simp: a1)
    then have "limited_outcome idef a t p w1 out"
      unfolding limited_outcome_def a1 using same_refs_trans [OF same_refs_simps(2)] by fastforce
    with q show ?thesis by blast
  qed
qed

text \<open>The assertion that a swap that was planned and allowed takes place never fails.\<close>

lemma move_transfer_returns:
  assumes ob: "limiting sc" and kinds: "kind_of (from_inv a) \<noteq> None" "kind_of (to_inv a) \<noteq> None"
  shows "move_transfer sc idef a w \<noteq> None"
proof (cases "move_plan idef a w")
  case (Pair a1 plan)
  show ?thesis
  proof (cases plan)
    case None
    with Pair show ?thesis by (simp add: move_transfer_def)
  next
    case (Some pl)
    then obtain src sw where pl: "plan = Some (src, sw)" by (cases pl) simp
    with Pair obtain m where a1: "a1 = a\<lparr>move_count := m\<rparr>" and planned: "planned idef a w m src sw"
      using move_plan_Some by blast
    obtain t p s w1 where ask: "ask sc a1 src sw w = Some (t, p, s, w1)"
      using ask_answers [of a1 sc src sw w] kinds a1 by auto
    note q = ask_obliging [OF ask ob, simplified]
    have lists: "the_list w1 = the_list w"
      using q same_inv_lists [of w1 w] by (auto simp: the_list_def fun_eq_iff)
    define n where "n = allowed_count t p m (slot (the_list w1) (from_ref a) (unat (from_i a)))"
    obtain w' moved did_swap where g: "game_moveItem idef (from_ref a) (unat (from_i a)) (to_ref a)
        (unat (to_i a)) n s w1 = (w', moved, did_swap)" by (metis prod_cases3)
    have did: "did_swap = snd (snd (moveItem idef (from_ref a) (unat (from_i a)) (to_ref a) (unat (to_i a)) n s
        (the_list w1)))" using g by (auto simp: game_moveItem_def split: prod.splits)
    have "did_swap = s" if "n \<noteq> 0"
    proof (cases s)
      case False
      then show ?thesis using did moveItem_no_swap by simp
    next
      case True
      have "unat n \<le> unat (st_count (slot (the_list w1) (from_ref a) (unat (from_i a))))"
        using allowed_count_le [OF _ _ planned_less [OF planned]] q by (simp add: n_def)
      moreover have "0 < unat n" using that by (simp add: unat_gt_0)
      ultimately have "snd (snd (moveItem idef (from_ref a) (unat (from_i a)) (to_ref a) (unat (to_i a)) n True
          (the_list w1)))"
        using planned q True unfolding planned_def Let_def lists by (auto intro: moveItem_swaps)
      with did True show ?thesis by simp
    qed
    then have "limited_move idef a1 t p s w1 \<noteq> None"
      using g by (auto simp: limited_move_def Let_def a1 simp flip: n_def)
    with ask show ?thesis by (simp add: move_transfer_def Pair pl)
  qed
qed

section \<open>From one step to the whole action\<close>

primrec outcome_game :: "'w move_outcome \<Rightarrow> 'w game" where
  "outcome_game (Stopped a w) = w"
| "outcome_game (Moved a w src did_swap t p) = w"

lemma report_same_inv:
  assumes "move_report sc a src did_swap w = Some w'" and ob: "obliging P sc"
  shows "g_inv w' = g_inv w"
proof -
  have swap: "g_inv v' = g_inv v" if "(case x of None \<Rightarrow> Some v | Some s \<Rightarrow> onMove sc b (n s) v) = Some v'"
    for x :: "ItemStack option" and b n v v'
    using that on_obliging(1) [OF ob] by (cases x) auto
  have there: "g_inv v' = g_inv v" if "when_list r f v = Some v'" "\<And>v v'. f v = Some v' \<Longrightarrow> g_inv v' = g_inv v"
    for r f v v'
    using that by (auto simp: when_list_def split: if_splits)
  have opt: "g_inv v' = g_inv v" if "(if e then Some v else when_list r f v) = Some v'"
    "\<And>v v'. f v = Some v' \<Longrightarrow> g_inv v' = g_inv v" for e r f v v'
    using that(1) there [OF _ that(2), of r f] by (cases e) auto
  note on = on_obliging [OF ob]
  show ?thesis
  proof (cases "loc_eq (from_inv a) (to_inv a)")
    case True
    with assms(1) obtain w1 w2 where 1: "onMove sc a (int (unat (move_count a))) w = Some w1"
      and 2: "(case swapped_stack a did_swap w1 of None \<Rightarrow> Some w1
        | Some s \<Rightarrow> onMove sc (swapDirections a) (int (unat (st_count s))) w1) = Some w2"
      and 3: "w' = setInventoryModified (from_inv a) w2"
      by (auto simp: move_report_def Let_def Option.bind_eq_Some_conv)
    from on(1) [OF 1] swap [OF 2] show ?thesis by (simp add: 3 setInventoryModified_def)
  next
    case False
    with assms(1) obtain sw w1 w2 w3 w4 where 1: "onTake sc a src w = Some w1"
      and 2: "(if st_empty sw then Some w1 else when_list (to_ref a) (onTake sc (swapDirections a) sw) w1) = Some w2"
      and 3: "when_list (to_ref a) (onPut sc a src) w2 = Some w3"
      and 4: "(if st_empty sw then Some w3 else when_list (to_ref a) (onPut sc (swapDirections a) sw) w3) = Some w4"
      and 5: "w' = setInventoryModified (from_inv a) (setInventoryModified (to_inv a) w4)"
      by (auto simp: move_report_def Let_def Option.bind_eq_Some_conv)
    from on(3) [OF 1] opt [OF 2 on(3)] there [OF 3 on(2)] opt [OF 4 on(2)] show ?thesis
      by (simp add: 5 setInventoryModified_def)
  qed
qed

lemma rollback_same_inv [simp]: "g_inv (record_rollback rb a src t p w) = g_inv w"
  by (simp add: record_rollback_def reportAction_def Let_def)

definition held_locks :: "IMoveAction \<Rightarrow> list_ref \<Rightarrow> int" where
  "held_locks a r = (if r = from_ref a then 1 else 0) + (if r = to_ref a then 1 else 0)"

text \<open>
  A relation between the game before and after that depends on the inventories and on the
  change of the locks only, and that holds for one move of items, holds for a whole action.
\<close>

locale move_relation =
  fixes P :: "int \<Rightarrow> bool"
    and rel :: "(list_ref \<Rightarrow> int) \<Rightarrow> 'w game \<Rightarrow> 'w game \<Rightarrow> bool"
    and ok :: "IMoveAction \<Rightarrow> bool"
  assumes P0: "P 0" and Pn: "P k \<Longrightarrow> 0 \<le> k"
    and same: "g_inv w' = g_inv w \<Longrightarrow> rel no_locks w w'"
    and comp: "rel d w w' \<Longrightarrow> rel e w' w'' \<Longrightarrow> rel (\<lambda>r. d r + e r) w w''"
    and keeps: "rel d w w' \<Longrightarrow> there w' = there w"
    and lock: "ok a \<Longrightarrow> r = from_ref a \<or> r = to_ref a \<Longrightarrow> there w r \<Longrightarrow>
      rel (no_locks(r := 1)) w (change_ref r resizeLock w)"
    and unlock: "ok a \<Longrightarrow> r = from_ref a \<or> r = to_ref a \<Longrightarrow> there w r \<Longrightarrow>
      rel (no_locks(r := - 1)) w (release r w)"
    and marks: "ok a \<Longrightarrow> r = from_ref a \<or> r = to_ref a \<Longrightarrow> there w r \<Longrightarrow>
      rel no_locks w (change_ref r (il_setModified dirty) w)"
    and moves: "ok a \<Longrightarrow> there w (from_ref a) \<Longrightarrow> there w (to_ref a) \<Longrightarrow> P t \<Longrightarrow> P p \<Longrightarrow>
      0 < unat n \<Longrightarrow> unat n \<le> nat t \<Longrightarrow> unat n \<le> nat p \<Longrightarrow>
      game_moveItem idef (from_ref a) i (to_ref a) j n sw w = (w', moved, did_swap) \<Longrightarrow> rel no_locks w w'"
    and ok_refs: "ok a \<Longrightarrow> same_refs a b \<Longrightarrow> ok b"
begin

lemma comp0: "rel no_locks w w' \<Longrightarrow> rel no_locks w' w'' \<Longrightarrow> rel no_locks w w''"
  using comp [of no_locks w w' no_locks w''] by simp

lemma undo:
  assumes "ok b" and "there w (from_ref b)" and "there w (to_ref b)"
  shows "rel no_locks w (undo_prediction b w)"
proof -
  define w1 where "w1 = (if is_player (from_inv b) then change_ref (from_ref b) (il_setModified True) w else w)"
  have 1: "rel no_locks w w1"
    using marks [OF assms(1) _ assms(2)] same by (simp add: w1_def)
  then have "there w1 (to_ref b)" using keeps assms(3) by simp
  then have "rel no_locks w1 (undo_prediction b w)"
    using marks [OF assms(1), of "to_ref b" w1] same
    by (simp add: undo_prediction_def Let_def flip: w1_def)
  with 1 show ?thesis by (rule comp0)
qed

lemma transfer:
  assumes "move_transfer sc idef a w = Some out" and "obliging P sc" and "ok a"
    and "there w (from_ref a)" and "there w (to_ref a)"
  shows "rel no_locks w (outcome_game out)" and "\<exists>b w' src did_swap t p. same_refs a b \<and>
    (out = Stopped b w' \<or> out = Moved b w' src did_swap t p)"
proof -
  obtain t p w1 b where P: "P t" "P p" and w1: "g_inv w1 = g_inv w" and b: "same_refs a b"
    and o: "out = Stopped b w1 \<or> out = Stopped b (undo_prediction b w1) \<or>
       (\<exists>n sw w' moved did_swap. 0 < unat n \<and> unat n \<le> nat t \<and> unat n \<le> nat p \<and>
          game_moveItem idef (from_ref a) (unat (from_i a)) (to_ref a) (unat (to_i a)) n sw w1 =
            (w', moved, did_swap) \<and> out = Moved b w' moved did_swap t p)"
    using move_transfer_limited [OF assms(1,2) P0 Pn] unfolding limited_outcome_def by blast
  have 1: "rel no_locks w w1" using w1 by (rule same)
  have th: "there w1 (from_ref a)" "there w1 (to_ref a)" using keeps [OF 1] assms(4,5) by simp_all
  have "rel no_locks w1 (outcome_game out)"
    using o
  proof (elim disjE exE conjE)
    assume "out = Stopped b w1"
    then show ?thesis using same by simp
  next
    assume "out = Stopped b (undo_prediction b w1)"
    then show ?thesis using undo [OF ok_refs [OF assms(3) b]] th same_refsD [OF b] by simp
  next
    fix n sw w' moved did_swap
    assume "0 < unat n" "unat n \<le> nat t" "unat n \<le> nat p"
      "game_moveItem idef (from_ref a) (unat (from_i a)) (to_ref a) (unat (to_i a)) n sw w1 =
        (w', moved, did_swap)" "out = Moved b w' moved did_swap t p"
    with moves [OF assms(3) th P] show ?thesis by simp
  qed
  with 1 show "rel no_locks w (outcome_game out)" by (rule comp0)
  show "\<exists>b w' src did_swap t p. same_refs a b \<and> (out = Stopped b w' \<or> out = Moved b w' src did_swap t p)"
    using o b by blast
qed

lemma release_both:
  assumes "ok a" and "there w (from_ref a)" and "there w (to_ref a)"
  shows "rel (\<lambda>r. - held_locks a r) w (release (from_ref a) (release (to_ref a) w))"
proof -
  have 1: "rel (no_locks(to_ref a := - 1)) w (release (to_ref a) w)"
    using unlock [OF assms(1)] assms(3) by simp
  then have "there (release (to_ref a) w) (from_ref a)" using keeps assms(2) by simp
  then have "rel (no_locks(from_ref a := - 1)) (release (to_ref a) w) (release (from_ref a) (release (to_ref a) w))"
    using unlock [OF assms(1)] by simp
  from comp [OF 1 this] show ?thesis
    by (rule back_subst [of "\<lambda>d. rel d w _"]) (auto simp: held_locks_def)
qed

lemma held:
  assumes "apply_held sc idef rb a w = Some (a', w')" and "obliging P sc" and "ok a"
    and "there w (from_ref a)" and "there w (to_ref a)"
  shows "rel (\<lambda>r. - held_locks a r) w w' \<and> same_refs a a'"
proof -
  obtain out where out: "move_transfer sc idef a w = Some out"
    using assms(1) by (auto simp: apply_held_def Option.bind_eq_Some_conv)
  note t = transfer [OF out assms(2-5)]
  let ?rel2 = "\<lambda>w. release (from_ref a) (release (to_ref a) w)"
  have dn: "rel (\<lambda>r. - held_locks a r) w (?rel2 v)" if "rel no_locks w v" for v
    using comp [OF that release_both [OF assms(3)]] keeps [OF that] assms(4,5) by simp
  from t(2) obtain b v src did_swap t p where b: "same_refs a b"
    and o: "out = Stopped b v \<or> out = Moved b v src did_swap t p" by blast
  have v: "rel no_locks w v" using t(1) o by auto
  show ?thesis
  proof (cases "w' = ?rel2 v \<and> a' = b")
    case True
    with dn [OF v] b show ?thesis by simp
  next
    case False
    define x where "x = record_rollback rb b src t p v"
    from False assms(1) out o have x: "g_inv x = g_inv v" "a' = b"
      and r: "move_report sc b src did_swap (?rel2 x) = Some w'"
      unfolding x_def by (auto simp: apply_held_def Option.bind_eq_Some_conv Let_def split: if_splits)
    have "rel no_locks v x" using x(1) by (rule same)
    from dn [OF comp0 [OF v this]] have "rel (\<lambda>r. - held_locks a r) w (?rel2 x)" .
    moreover have "rel no_locks (?rel2 x) w'" by (rule same) (rule report_same_inv [OF r assms(2)])
    ultimately have "rel (\<lambda>r. - held_locks a r) w w'" using comp by fastforce
    with x(2) b show ?thesis by simp
  qed
qed

lemma borrow_ref:
  assumes "borrow r w = (found, w')" and "ok a" and "r = from_ref a \<or> r = to_ref a"
  shows "found = there w r" and "rel (if found then no_locks(r := 1) else no_locks) w w'"
  using assms lock [OF assms(2,3)] same [of w w]
  by (auto simp: borrow_def there_def split: option.splits)

lemma borrow_both_found:
  assumes b: "borrow_both a w = (found, w')" and "ok a"
  shows "found \<longleftrightarrow> there w (from_ref a) \<and> there w (to_ref a)"
    and "rel (if found then held_locks a else no_locks) w w'"
proof -
  obtain ff w1 where 1: "borrow (from_ref a) w = (ff, w1)" by fastforce
  obtain ft w2 where 2: "borrow (to_ref a) w1 = (ft, w2)" by fastforce
  note b1 = borrow_ref [OF 1 assms(2)] and b2 = borrow_ref [OF 2 assms(2)]
  have th: "there w1 = there w" "there w2 = there w" using keeps b1(2) b2(2) by (metis | simp)+
  have r: "rel (\<lambda>r. (if ff then no_locks(from_ref a := 1) else no_locks) r +
      (if ft then no_locks(to_ref a := 1) else no_locks) r) w w2"
    using comp b1(2) b2(2) by blast
  have w': "found = (ff \<and> ft)" "w' = (if found then w2 else if ft then release (to_ref a) w2
      else if ff then release (from_ref a) w2 else w2)"
    using b 1 2 by (auto simp: borrow_both_def split: if_splits)
  show "found \<longleftrightarrow> there w (from_ref a) \<and> there w (to_ref a)" using w'(1) b1(1) b2(1) th by simp
  consider "ff" "ft" | "ff" "\<not> ft" | "\<not> ff" "ft" | "\<not> ff" "\<not> ft" by blast
  then show "rel (if found then held_locks a else no_locks) w w'"
  proof cases
    case 1
    with r w' show ?thesis
      by (auto simp: held_locks_def elim!: back_subst [of "\<lambda>d. rel d w _"])
  next
    case 2
    with th b1(1) have "there w2 (from_ref a)" by simp
    from comp [OF r unlock [OF assms(2) _ this]] 2 w' show ?thesis
      by (auto elim!: back_subst [of "\<lambda>d. rel d w _"])
  next
    case 3
    with th b2(1) have "there w2 (to_ref a)" by simp
    from comp [OF r unlock [OF assms(2) _ this]] 3 w' show ?thesis
      by (auto elim!: back_subst [of "\<lambda>d. rel d w _"])
  next
    case 4
    with r w' show ?thesis by (auto elim!: back_subst [of "\<lambda>d. rel d w _"])
  qed
qed

lemma single:
  assumes "apply_single sc idef rb a w = Some (a', w')" and "obliging P sc" and "ok a"
  shows "rel no_locks w w' \<and> same_refs a a'"
proof -
  obtain found w1 where b: "borrow_both a w = (found, w1)" by fastforce
  note bb = borrow_both_found [OF b assms(3)]
  show ?thesis
  proof (cases found)
    case True
    then have 1: "rel (held_locks a) w w1" and "there w1 (from_ref a)" "there w1 (to_ref a)"
      using bb keeps by fastforce+
    moreover have "apply_held sc idef rb a w1 = Some (a', w')"
      using assms(1) b True by (simp add: apply_single_def)
    ultimately have 2: "rel (\<lambda>r. - held_locks a r) w1 w' \<and> same_refs a a'" using held assms(2,3) by blast
    then have "rel no_locks w w'" using comp [OF 1] by fastforce
    with 2 show ?thesis by simp
  next
    case False
    with assms(1) b bb show ?thesis by (auto simp: apply_single_def)
  qed
qed

lemma one_slot:
  assumes "add_to sc idef rb j a w = Some (a', w', held, sz)" and "obliging P sc" and "ok a"
    and "there w (to_ref a)"
  shows "held \<and> rel no_locks w w' \<and> same_refs a a'"
proof -
  obtain b w1 where s: "apply_single sc idef rb (a\<lparr>to_i := j\<rparr>) (release (to_ref a) w) = Some (b, w1)"
    and a': "a' = b\<lparr>ma_count := ucast (ucast (ma_count b) - move_count b)\<rparr>"
    and held: "borrow (to_ref a) w1 = (held, w')"
    using assms(1) by (auto simp: add_to_def Let_def Option.bind_eq_Some_conv split: prod.splits if_splits)
  have 1: "rel (no_locks(to_ref a := - 1)) w (release (to_ref a) w)"
    using unlock [OF assms(3)] assms(4) by simp
  have 2: "rel no_locks (release (to_ref a) w) w1" and refs: "same_refs a b"
    using single [OF s assms(2) ok_refs [OF assms(3)]] by (simp_all add: same_refs_def)
  have "there w1 (to_ref a)" using keeps [OF 1] keeps [OF 2] assms(4) by simp
  then have "held" and 3: "rel (no_locks(to_ref a := 1)) w1 w'"
    using borrow_ref [OF held assms(3)] by auto
  moreover have "same_refs a a'" using refs same_refs_trans by (simp add: a' same_refs_def)
  moreover have "rel no_locks w w'"
    using comp [OF comp [OF 1 2] 3] by (rule back_subst [of "\<lambda>d. rel d w w'"]) auto
  ultimately show ?thesis by simp
qed

lemma slots:
  assumes "somewhere_loop sc idef rb empties dest_i (a, w, held, sz) = Some (a', w', held', sz')"
    and "obliging P sc" and "ok a" and "there w (to_ref a)" and "held"
  shows "held' \<and> rel no_locks w w' \<and> same_refs a a'"
  using assms
proof (induction sc idef rb empties dest_i "(a, w, held, sz)" arbitrary: a w held sz rule: somewhere_loop.induct)
  case (1 sc idef rb empties dest_i a w held sz)
  note eq = "1.prems"(1) [unfolded somewhere_loop.simps [of sc idef rb empties dest_i a w held sz]]
  show ?case
  proof (cases "int dest_i < sint sz \<and> ma_count a > 0")
    case False
    with eq 1 same show ?thesis by (simp add: if_split)
  next
    case go: True
    with eq obtain s where s: "il_getItem dest_i (the_list w (to_ref a)) = Some s"
      by (auto split: option.splits)
    obtain b w1 h1 sz1 where step: "(if st_empty s = empties then add_to sc idef rb (of_nat dest_i) a w
        else Some (a, w, held, sz)) = Some (b, w1, h1, sz1)"
      and rest: "somewhere_loop sc idef rb empties (dest_i + 1) (b, w1, h1, sz1) = Some (a', w', held', sz')"
      using eq go s by (auto simp: Option.bind_eq_Some_conv)
    have one: "h1 \<and> rel no_locks w w1 \<and> same_refs a b"
    proof (cases "st_empty s = empties")
      case True
      with step have "add_to sc idef rb (of_nat dest_i) a w = Some (b, w1, h1, sz1)" by simp
      from one_slot [OF this "1.prems"(2-4)] show ?thesis .
    next
      case False
      with step "1.prems"(5) have "w1 = w" "b = a" "h1" by simp_all
      then show ?thesis using same [of w w] by simp
    qed
    then have "there w1 (to_ref b)" using keeps [of no_locks w w1] same_refsD [of a b] "1.prems"(4) by simp
    moreover have "ok b" using ok_refs "1.prems"(3) one by blast
    ultimately have "held' \<and> rel no_locks w1 w' \<and> same_refs b a'"
      using "1.hyps" [OF go s step rest "1.prems"(2)] one by blast
    with one comp0 same_refs_trans show ?thesis by blast
  qed
qed

text \<open>The whole action, of either kind.\<close>

lemma action:
  assumes "apply_move sc idef rb a w = Some (a', w')" and "obliging P sc" and "ok a"
  shows "rel no_locks w w'"
proof (cases "move_somewhere a")
  case False
  with assms(1) have "apply_single sc idef rb a w = Some (a', w')"
    by (auto simp: apply_move_def apply_single_def split: prod.splits)
  then show ?thesis using single assms(2,3) by blast
next
  case True
  obtain found w1 where b: "borrow_both a w = (found, w1)" by fastforce
  note bb = borrow_both_found [OF b assms(3)]
  show ?thesis
  proof (cases found)
    case False
    with assms(1) b bb show ?thesis by (simp add: apply_move_def)
  next
    case found: True
    then have 1: "rel (held_locks a) w w1" and th: "there w1 (from_ref a)" "there w1 (to_ref a)"
      using bb keeps by fastforce+
    define w2 where "w2 = release (from_ref a) w1"
    have 2: "rel (no_locks(from_ref a := - 1)) w1 w2"
      unfolding w2_def using unlock [OF assms(3)] th by simp
    define b where "b = a\<lparr>caused_by_move_somewhere := True, move_somewhere := False\<rparr>"
    obtain b1 w3 h3 sz3 where l1: "somewhere_loop sc idef rb False 0
        (b, w2, True, ucast (il_size (the_list w2 (to_ref a)))) = Some (b1, w3, h3, sz3)"
      and rest: "Option.bind (somewhere_loop sc idef rb True 0 (b1, w3, h3, sz3)) (\<lambda>(b, w, held, _).
        Some (b\<lparr>to_i := to_i a, ma_count := ma_count a, caused_by_move_somewhere := False, move_somewhere := True\<rparr>,
          if held then release (to_ref a) w else w)) = Some (a', w')"
      using assms(1) \<open>borrow_both a w = (found, w1)\<close> found True
      by (auto simp: apply_move_def Let_def Option.bind_eq_Some_conv w2_def b_def split: prod.splits)
    have ref: "same_refs a b" by (simp add: b_def same_refs_def)
    have okb: "ok b" using ok_refs [OF assms(3) ref] .
    have "there w2 (to_ref b)" using keeps [OF 2] th same_refsD [OF ref] by simp
    from slots [OF l1 assms(2) okb this] have s1: "h3" "rel no_locks w2 w3" "same_refs b b1" by simp_all
    obtain b2 w4 h4 sz4 where l2: "somewhere_loop sc idef rb True 0 (b1, w3, h3, sz3) = Some (b2, w4, h4, sz4)"
      and w': "w' = (if h4 then release (to_ref a) w4 else w4)"
      using rest by (auto simp: Option.bind_eq_Some_conv)
    have "there w3 (to_ref b1)"
      using keeps [OF s1(2)] \<open>there w2 (to_ref b)\<close> same_refsD [OF s1(3)] by simp
    from slots [OF l2 assms(2) ok_refs [OF okb s1(3)] this s1(1)] have s2: "h4" "rel no_locks w3 w4" by simp_all
    have "there w4 (to_ref a)" using keeps [OF 2] keeps [OF s1(2)] keeps [OF s2(2)] th by simp
    then have 5: "rel (no_locks(to_ref a := - 1)) w4 w'"
      using unlock [OF assms(3)] s2(1) by (simp add: w')
    from comp [OF comp [OF 1 2] comp [OF comp0 [OF s1(2) s2(2)] 5]] show ?thesis
      by (rule back_subst [of "\<lambda>d. rel d w w'"]) (auto simp: held_locks_def fun_eq_iff)
  qed
qed

end

end
