(* ===== verification/ActionSafety.thy ===== *)
theory ActionSafety
  imports MoveConserve
begin

text \<open>
  What the actions of a player do to the items of the game: \<open>MoveConserve.move_relation\<close> read
  for the items and the locks, for the items under scripts that forbid, and for the
  inventories that an action does not name; and drops.
\<close>

section \<open>What the actions keep\<close>

interpretation conserve: move_relation "\<lambda>n. 0 \<le> n" "effect R"
  "\<lambda>a. finite R \<and> from_ref a \<in> R \<and> to_ref a \<in> R" for R
proof (unfold_locales, goal_cases)
  case (9 a w t p n idef i j sw w' moved did_swap)
  then show ?case using game_moveItem_effect(1) by blast
qed (auto intro: effect_same_inv effect_trans effect_there effect_lock effect_release effect_dirty
    simp: same_refs_def)

text \<open>The same lists are there with the same items.\<close>

definition same_items :: "'w game \<Rightarrow> 'w game \<Rightarrow> bool" where
  "same_items w w' \<longleftrightarrow> there w' = there w \<and> (\<forall>r. il_items (the_list w' r) = il_items (the_list w r))"

lemma same_items_change_ref:
  assumes "there w r" and "il_name (f (the_list w r)) = il_name (the_list w r)"
    and "il_items (f (the_list w r)) = il_items (the_list w r)"
  shows "same_items w (change_ref r f w)"
proof -
  have name: "il_name (f (the_list w r)) = snd r" using assms(2) the_list_name [OF assms(1)] by simp
  show ?thesis
    unfolding same_items_def change_ref_def put_list_lists [OF assms(1) name] using assms(3) by simp
qed

lemma same_items_same_inv: "g_inv w' = g_inv w \<Longrightarrow> same_items w w'"
proof -
  assume "g_inv w' = g_inv w"
  from same_inv_lists [OF this] have "the_list w' = the_list w" and "there w' = there w"
    by (rule_tac [!] ext) (simp_all add: the_list_def there_def)
  then show "same_items w w'" by (simp add: same_items_def)
qed

interpretation forbid: move_relation "\<lambda>n. n = 0" "\<lambda>_. same_items" "\<lambda>_. True"
proof (unfold_locales, goal_cases)
  case (4 d w w' e w'')
  then show ?case by (simp add: same_items_def)
next
  case (6 a r w)
  then show ?case by (intro same_items_change_ref) (simp_all add: resizeLock_def)
next
  case (7 a r w)
  then show ?case unfolding release_def by (intro same_items_change_ref) (simp_all add: resizeUnlock_def)
next
  case (8 a r w dirty)
  then show ?case by (intro same_items_change_ref) (simp_all add: il_setModified_def)
qed (auto simp: same_items_def dest: same_items_same_inv)

text \<open>An inventory that the action does not name stays as it is.\<close>

definition untouched :: "InventoryLocation \<Rightarrow> 'w game \<Rightarrow> 'w game \<Rightarrow> bool" where
  "untouched loc w w' \<longleftrightarrow> there w' = there w \<and> g_inv w' loc = g_inv w loc"

lemma untouched_change_ref:
  assumes "there w r" and "il_name (f (the_list w r)) = il_name (the_list w r)" and "fst r \<noteq> loc"
  shows "untouched loc w (change_ref r f w)"
proof -
  have name: "il_name (f (the_list w r)) = snd r" using assms(2) the_list_name [OF assms(1)] by simp
  show ?thesis
    unfolding untouched_def change_ref_def put_list_lists [OF assms(1) name]
    using assms(3) by (auto simp: put_list_def)
qed

lemma untouched_moveItem:
  assumes "game_moveItem idef p i q j n sw w = (w', moved, did_swap)"
    and "there w p" and "there w q" and "loc \<noteq> fst p" and "loc \<noteq> fst q"
  shows "untouched loc w w'"
proof -
  have "there w' = there w"
    using game_moveItem_effect(1) [OF assms(1), of "{p, q}"] assms(2,3) by (simp add: effect_def)
  moreover have "g_inv w' loc = g_inv w loc"
    using assms(1,4,5) by (auto simp: game_moveItem_def put_list_def split: prod.splits)
  ultimately show ?thesis by (simp add: untouched_def)
qed

interpretation frame: move_relation "\<lambda>n. 0 \<le> n" "\<lambda>_. untouched loc"
  "\<lambda>a. loc \<noteq> from_inv a \<and> loc \<noteq> to_inv a" for loc
proof (unfold_locales, goal_cases)
  case (3 w' w)
  then show ?case using same_items_same_inv [of w' w] by (simp add: untouched_def same_items_def)
next
  case (6 a r w)
  then show ?case by (intro untouched_change_ref) (auto simp: resizeLock_def)
next
  case (7 a r w)
  then show ?case unfolding release_def by (intro untouched_change_ref) (auto simp: resizeUnlock_def)
next
  case (8 a r w dirty)
  then show ?case by (intro untouched_change_ref) (auto simp: il_setModified_def)
next
  case (9 a w t p n idef i j sw w' moved did_swap)
  then show ?case
    using untouched_moveItem [of idef "from_ref a" i "to_ref a" j n sw w w' moved did_swap loc] by simp
qed (auto simp: untouched_def same_refs_def)

section \<open>Moves return\<close>

lemma move_report_returns:
  assumes "kind_of (from_inv a) \<noteq> None" and "kind_of (to_inv a) \<noteq> None"
  shows "move_report sc a src did_swap w \<noteq> None"
proof -
  have on: "onMove sc b n w \<noteq> None" "onPut sc b s w \<noteq> None" "onTake sc b s w \<noteq> None"
    if "b = a \<or> b = swapDirections a" for b n s w
    using that assms by (auto simp: onMove_def onPut_def onTake_def swapDirections_def)
  have whenS: "when_list r f w \<noteq> None" if "\<And>w. f w \<noteq> None" for r f and w :: "'a game"
    using that by (simp add: when_list_def)
  have caseS: "(case x of None \<Rightarrow> Some w | Some s \<Rightarrow> f s w) \<noteq> None" if "\<And>s w. f s w \<noteq> None"
    for x :: "ItemStack option" and f and w :: "'a game"
    using that by (cases x) auto
  show ?thesis
    unfolding move_report_def Let_def
    by (intro if_Some bind_Some caseS whenS on option.distinct(2)) simp_all
qed

lemma apply_single_returns:
  assumes "limiting sc" and kinds: "\<And>r. there w r \<Longrightarrow> kind_of (fst r) \<noteq> None"
  shows "apply_single sc idef rb a w \<noteq> None"
proof -
  obtain found w1 where b: "borrow_both a w = (found, w1)" by fastforce
  show ?thesis
  proof (cases found)
    case False
    with b show ?thesis by (simp add: apply_single_def)
  next
    case True
    have "from_ref a \<in> {from_ref a, to_ref a}" by simp
    then have "there w (from_ref a)" "there w (to_ref a)"
      using conserve.borrow_both_found(1) [OF b, of "{from_ref a, to_ref a}"] True by simp_all
    then have k: "kind_of (from_inv a) \<noteq> None" "kind_of (to_inv a) \<noteq> None" using kinds by fastforce+
    obtain out where out: "move_transfer sc idef a w1 = Some out"
      using move_transfer_returns [OF assms(1) k] by blast
    obtain t p w2 c where c: "same_refs a c" and o: "out = Stopped c w2 \<or> out = Stopped c (undo_prediction c w2)
        \<or> (\<exists>w' moved did_swap. out = Moved c w' moved did_swap t p)"
      using move_transfer_limited [OF out assms(1)] unfolding limited_outcome_def by force
    have "kind_of (from_inv c) \<noteq> None" "kind_of (to_inv c) \<noteq> None" using c k by (simp_all add: same_refs_def)
    note r = move_report_returns [OF this]
    have "apply_held sc idef rb a w1 \<noteq> None"
      using o
    proof (elim disjE exE)
      fix w' moved did_swap
      assume m: "out = Moved c w' moved did_swap t p"
      obtain w3 where "move_report sc c moved did_swap (release (from_ref a) (release (to_ref a)
          (record_rollback rb c moved t p w'))) = Some w3" using r by blast
      then show ?thesis by (simp add: apply_held_def Let_def out m)
    qed (simp_all add: apply_held_def out)
    with b True show ?thesis by (simp add: apply_single_def)
  qed
qed

section \<open>Dropping\<close>

text \<open>
  What leaves the inventories in a drop is what the script took over, which is no more than
  the answer allows; without leave the items stay.
\<close>

lemma there_the: "list_of w r = Some l \<Longrightarrow> there w r \<and> the_list w r = l"
  by (simp add: there_def the_list_def)

lemma takeItem_effect:
  assumes "there w r" and "finite R" and "r \<in> R" and "on_ref r (il_takeItem i n) w = (w', s)"
  shows "there w' = there w" and "store_content R (the_list w') + items s = store_content R (the_list w)"
    and "il_resize_locks (the_list w' q) = il_resize_locks (the_list w q)"
    and "\<And>loc. loc \<noteq> fst r \<Longrightarrow> g_inv w' loc = g_inv w loc"
    and "n = 0 \<Longrightarrow> il_items (the_list w' q) = il_items (the_list w q)"
proof -
  obtain l where l: "il_takeItem i n (the_list w r) = (l, s)" and w': "w' = put_list r l w"
    using assms(4) by (auto simp: on_ref_def split: prod.splits)
  note t = takeItem_list_items [OF l]
  then have name: "il_name l = snd r" using the_list_name [OF assms(1)] by (simp add: same_frame_def)
  note p = put_list_lists [OF assms(1) name]
  show "there w' = there w" using p by (simp add: w')
  have "il_content l + items s = il_content (the_list w r) + {#}" using t(1) by simp
  from store_update [OF assms(2,3), of l "items s" "the_list w" "{#}"] this
  show "store_content R (the_list w') + items s = store_content R (the_list w)" using p by (simp add: w')
  show "il_resize_locks (the_list w' q) = il_resize_locks (the_list w q)"
    using p t(2) by (simp add: w' same_frame_def)
  show "loc \<noteq> fst r \<Longrightarrow> g_inv w' loc = g_inv w loc" for loc by (simp add: w' put_list_def)
  show "il_items (the_list w' q) = il_items (the_list w q)" if "n = 0"
    using that l p
    by (auto simp: w' il_takeItem_def st_takeItem_def Let_def no_item_def st_empty_def split: if_splits)
qed

text \<open>
  The lists in \<open>R\<close> lose at most \<open>n\<close> items, the locks change by \<open>d\<close>, and no inventory but that
  at \<open>loc\<close> changes.
\<close>

definition lost :: "InventoryLocation \<Rightarrow> list_ref set \<Rightarrow> nat \<Rightarrow> (list_ref \<Rightarrow> int) \<Rightarrow> 'w game \<Rightarrow> 'w game \<Rightarrow> bool" where
  "lost loc R n d w w' \<longleftrightarrow> there w' = there w \<and>
     (\<exists>X. store_content R (the_list w') + X = store_content R (the_list w) \<and> size X \<le> n) \<and>
     (\<forall>r. there w r \<longrightarrow> il_resize_locks (the_list w' r) = il_resize_locks (the_list w r) + d r) \<and>
     (\<forall>l. l \<noteq> loc \<longrightarrow> g_inv w' l = g_inv w l)"

lemma lost_effect:
  assumes "effect R d w w'" and "\<And>l. l \<noteq> loc \<Longrightarrow> g_inv w' l = g_inv w l"
  shows "lost loc R n d w w'"
  using assms by (auto simp: lost_def effect_def intro: exI [of _ "{#}"])

lemma lost_trans:
  assumes "lost loc R m d w w'" and "effect R e w' w''" and "\<And>l. l \<noteq> loc \<Longrightarrow> g_inv w'' l = g_inv w' l"
  shows "lost loc R m (\<lambda>r. d r + e r) w w''"
  using assms by (auto simp: lost_def effect_def)

lemma lost_after:
  assumes "effect R d w w'" and "\<And>l. l \<noteq> loc \<Longrightarrow> g_inv w' l = g_inv w l" and "lost loc R m e w' w''"
  shows "lost loc R m (\<lambda>r. d r + e r) w w''"
  using assms by (auto simp: lost_def effect_def)

lemma drop_refused_items:
  assumes "there w (from_inv a, from_list a)"
  shows "same_items w (drop_refused a w)" and "effect R (no_locks((from_inv a, from_list a) := - 1)) w (drop_refused a w)"
    and "\<And>loc. loc \<noteq> from_inv a \<Longrightarrow> untouched loc w (drop_refused a w)"
proof -
  let ?r = "(from_inv a, from_list a)"
  define w1 where "w1 = (if is_player (from_inv a) then change_ref ?r (il_setModified True) w else w)"
  have w': "drop_refused a w = release ?r w1" by (simp add: drop_refused_def w1_def Let_def)
  have s: "same_items w w1" and e: "effect R no_locks w w1" and u: "loc \<noteq> from_inv a \<Longrightarrow> untouched loc w w1" for loc
    unfolding w1_def
    using effect_dirty [OF assms] same_items_change_ref [OF assms, of "il_setModified True"]
      untouched_change_ref [OF assms, of "il_setModified True"]
    by (auto simp: il_setModified_def same_items_def untouched_def)
  have th: "there w1 ?r" using e assms by (simp add: effect_def)
  have "same_items w1 (release ?r w1)"
    unfolding release_def by (rule same_items_change_ref [OF th]) (simp_all add: resizeUnlock_def)
  with s show "same_items w (drop_refused a w)" by (simp add: w' same_items_def)
  from effect_trans [OF e effect_release [OF th]]
  show "effect R (no_locks(?r := - 1)) w (drop_refused a w)"
    by (simp add: w' fun_upd_def)
  show "untouched loc w (drop_refused a w)" if "loc \<noteq> from_inv a" for loc
  proof -
    have "untouched loc w1 (release ?r w1)"
      unfolding release_def by (rule untouched_change_ref [OF th]) (simp_all add: resizeUnlock_def that [symmetric])
    with u [OF that] show ?thesis by (simp add: w' untouched_def)
  qed
qed

lemma unat_of_int_le: "0 \<le> x \<Longrightarrow> unat (of_int x :: u32) \<le> nat x"
proof -
  assume "0 \<le> x"
  then obtain m where x: "x = int m" using nonneg_int_cases by blast
  have "unat (of_nat m :: u32) = m mod 2 ^ LENGTH(32)" by (rule unat_of_nat)
  also have "\<dots> \<le> m" by simp
  finally show ?thesis by (simp add: x)
qed

lemma drop_allowed_lost:
  assumes ob: "obliging P sc" and P: "\<And>x. P x \<Longrightarrow> 0 \<le> x \<and> x \<le> int k" and can: "P can_take"
    and th: "there w (from_inv a, from_list a)" and R: "finite R" "(from_inv a, from_list a) \<in> R"
  shows "lost (from_inv a) R k (no_locks((from_inv a, from_list a) := - 1)) w
    (drop_allowed sc rb a take_count can_take w)"
proof -
  let ?r = "(from_inv a, from_list a)"
  define n where "n = (if can_take \<noteq> - 1 \<and> can_take < take_count then can_take else take_count)"
  have nk: "n \<le> int k" using P [OF can] by (auto simp: n_def)
  define src where "src = il_items (the_list w ?r) ! unat (from_i a)"
  obtain kept w1 where d: "s_OnDrop sc (src\<lparr>st_count := of_int n\<rparr>) w = (kept, w1)" by fastforce
  have w1: "g_inv w1 = g_inv w" using ob d by (metis obliging_def snd_conv)
  define dr where "dr = max 0 (n - int (unat kept))"
  have refused: "lost (from_inv a) R k (no_locks(?r := - 1)) v (drop_refused a v)" if "there v ?r" for v
    using drop_refused_items(2,3) [OF that] by (intro lost_effect) (auto simp: untouched_def)
  show ?thesis
  proof (cases "n = 0 \<or> dr = 0")
    case True
    have th1: "there w1 ?r" using th same_inv_lists [OF w1] by (simp add: there_def)
    have "lost (from_inv a) R k (no_locks(?r := - 1)) w (drop_refused a w1)"
      using lost_after [OF effect_same_inv [OF w1] _ refused [OF th1]] w1
      by (simp add: fun_upd_def)
    then show ?thesis
      using True refused [OF th] unfolding drop_allowed_def Let_def n_def [symmetric] src_def [symmetric] d
        prod.case dr_def [symmetric]
      by auto
  next
    case False
    have ne: "can_take \<noteq> - 1" using P [OF can] by auto
    have th1: "there w1 ?r" using th same_inv_lists [OF w1] by (simp add: there_def)
    obtain w2 s where t: "on_ref ?r (il_takeItem (unat (from_i a)) (of_int dr)) w1 = (w2, s)" by fastforce
    note te = takeItem_effect [OF th1 R t]
    obtain l where "il_takeItem (unat (from_i a)) (of_int dr) (the_list w1 ?r) = (l, s)"
      using t by (auto simp: on_ref_def split: prod.splits)
    then have "unat (st_count s) \<le> unat (of_int dr :: u32)"
      using takeItem_items(2)
      by (auto simp: il_takeItem_def Let_def no_item_def split: if_splits prod.splits)
    also have "\<dots> \<le> nat dr" by (rule unat_of_int_le) (simp add: dr_def)
    also have "\<dots> \<le> k"
      unfolding dr_def using nk of_nat_0_le_iff [where 'a = int, of "unat kept"] by linarith
    finally have "size (items s) \<le> k" by (simp add: size_items)
    then have "lost (from_inv a) R k no_locks w1 w2"
      using te(1-4) unfolding lost_def by (auto intro!: exI [of _ "items s"])
    from lost_after [OF effect_same_inv [OF w1] _ this] w1
    have l1: "lost (from_inv a) R k no_locks w w2" by simp
    define w3 where "w3 = release ?r (setInventoryModified (from_inv a) w2)"
    have "there (setInventoryModified (from_inv a) w2) = there w2"
      by (rule effect_there [OF effect_same_inv]) (simp add: setInventoryModified_def)
    then have th2: "there (setInventoryModified (from_inv a) w2) ?r" using te(1) th1 by simp
    have l2: "lost (from_inv a) R k (no_locks(?r := - 1)) w w3"
      using lost_trans [OF lost_trans [OF l1 effect_same_inv, of "setInventoryModified (from_inv a) w2"]
          effect_release [OF th2]]
      by (simp add: fun_upd_def w3_def setInventoryModified_def release_def change_ref_def put_list_def)
    have onTake: "g_inv (drop_onTake sc a x v) = g_inv v" for x v
      using ob by (auto simp: drop_onTake_def obliging_def silent_def split: option.splits)
    have l3: "lost (from_inv a) R k (no_locks(?r := - 1)) w v" if "g_inv v = g_inv w3" for v
      using lost_trans [OF l2 effect_same_inv [OF that]] that by (simp add: fun_upd_def)
    show ?thesis
      using False t ne unfolding drop_allowed_def Let_def n_def [symmetric] src_def [symmetric] d
        prod.case dr_def [symmetric]
      by (auto simp: onTake reportAction_def simp flip: w3_def intro!: l3)
  qed
qed

lemma apply_drop_lost:
  assumes ob: "obliging P sc" and P: "\<And>x. P x \<Longrightarrow> 0 \<le> x \<and> x \<le> int k"
    and kind: "kind_of (from_inv a) \<noteq> None" and R: "finite R" "(from_inv a, from_list a) \<in> R"
  shows "lost (from_inv a) R k no_locks w (apply_drop sc rb a w)"
proof -
  let ?r = "(from_inv a, from_list a)"
  have refl: "lost (from_inv a) R k no_locks w w" by (rule lost_effect) simp_all
  show ?thesis
  proof (cases "list_of w ?r")
    case None
    with refl show ?thesis by (simp add: apply_drop_def)
  next
    case (Some l)
    note th = conjunct1 [OF there_the [OF Some]]
    show ?thesis
    proof (cases "sint (from_i a) < 0 \<or> length (il_items l) \<le> unat (from_i a) \<or>
        st_empty (il_items l ! unat (from_i a))")
      case True
      with Some refl show ?thesis by (auto simp: apply_drop_def)
    next
      case False
      define src where "src = il_items l ! unat (from_i a)"
      define n where "n = (if da_count a \<noteq> 0 \<and> da_count a < st_count src
        then int (unat (da_count a)) else int (unat (st_count src)))"
      define w1 where "w1 = change_ref ?r resizeLock w"
      obtain can w2 where ask: "drop_allowTake sc a (src\<lparr>st_count := of_int n\<rparr>) n w1 = (can, w2)" by fastforce
      obtain i where i: "kind_of (from_inv a) = Some i" using kind by blast
      have "answers P (s_AllowTake sc i (MoveAction.truncate a))" using ob unfolding obliging_def by blast
      from answersD [OF this] ask i have can: "P can" and w2: "g_inv w2 = g_inv w1"
        unfolding drop_allowTake_def by simp_all
      have e1: "effect R (no_locks(?r := 1)) w w1" unfolding w1_def by (rule effect_lock [OF th])
      have e2: "effect R (no_locks(?r := 1)) w w2"
        using effect_trans [OF e1 effect_same_inv [OF w2]] by (simp add: fun_upd_def)
      have g: "l \<noteq> from_inv a \<Longrightarrow> g_inv w2 l = g_inv w l" for l
        by (simp add: w2 w1_def change_ref_def put_list_def)
      have "there w2 ?r" using e2 th by (simp add: effect_def)
      from lost_after [OF e2 g drop_allowed_lost [OF ob P can this R]]
      have "lost (from_inv a) R k no_locks w (drop_allowed sc rb a n can w2)"
        by (rule back_subst [of "\<lambda>d. lost (from_inv a) R k d w _"]) auto
      moreover have "apply_drop sc rb a w = drop_allowed sc rb a n can w2"
        using False ask unfolding apply_drop_def Let_def Some option.case src_def [symmetric] n_def [symmetric]
          w1_def [symmetric] ask prod.case
        by (simp add: src_def)
      ultimately show ?thesis by simp
    qed
  qed
qed

section \<open>Properties\<close>

text \<open>Sample values for the witnesses: one player with one list, and scripts that always answer the same.\<close>

definition sample_scripts :: "int \<Rightarrow> 'w scripts" where
  "sample_scripts n =
     \<lparr>s_AllowMove = (\<lambda>k a m w. (n, w)), s_AllowPut = (\<lambda>k a s w. (n, w)), s_AllowTake = (\<lambda>k a s w. (n, w)),
      s_OnMove = (\<lambda>k a m w. w), s_OnPut = (\<lambda>k a s w. w), s_OnTake = (\<lambda>k a s w. w),
      s_OnDrop = (\<lambda>s w. (0, w)), s_CraftPredict = (\<lambda>s l w. (s, w)), s_OnCraft = (\<lambda>s l i w. (s, w))\<rparr>"

definition sample_game :: "unit game" where
  "sample_game =
     \<lparr>g_inv = (\<lambda>l. if l = PLAYER [97] then Some \<lparr>m_lists = [sample_list], inv_dirty = False\<rparr> else None),
      g_modified = [], g_rollback = [], g_script = ()\<rparr>"

definition sample_move :: "u16 \<Rightarrow> bool \<Rightarrow> IMoveAction" where
  "sample_move n somewhere =
     \<lparr>from_inv = PLAYER [97], from_list = [97], from_i = 0, to_inv = PLAYER [97], to_list = [97], to_i = 1,
      ma_count = n, move_somewhere = somewhere, caused_by_move_somewhere = False, move_count = 0\<rparr>"

lemma sample_scripts_obliging: "P n \<Longrightarrow> obliging P (sample_scripts n)"
  by (simp add: obliging_def answers_def silent_def sample_scripts_def)

lemma sample_kinds: "there sample_game r \<Longrightarrow> kind_of (fst r) \<noteq> None"
  by (auto simp: there_def list_of_def sample_game_def kind_of_def split: if_splits option.splits)

text \<open>
  C27.  With scripts that set limits and leave the inventories alone, a move that comes to its end
  has lost and made nothing, whatever the client asked for: every list is still there, any finite
  set of lists that contains both ends holds the same items together, and no list is left locked.
  A move to a slot does come to its end, without a failed assertion, also when it is a swap.  (A move
  to wherever there is room need not: \<open>shift_click_overrun\<close>.)
\<close>

theorem move_action_safe:
  assumes "limiting sc" and "\<And>r. there w r \<Longrightarrow> kind_of (fst r) \<noteq> None"
    and "finite R" and "from_ref a \<in> R" and "to_ref a \<in> R"
  shows "(\<not> move_somewhere a \<longrightarrow> apply_move sc idef has_rollback a w \<noteq> None) \<and>
    (\<forall>a' w'. apply_move sc idef has_rollback a w = Some (a', w') \<longrightarrow>
      there w' = there w \<and> store_content R (the_list w') = store_content R (the_list w) \<and>
      (\<forall>r. there w r \<longrightarrow> il_resize_locks (the_list w' r) = il_resize_locks (the_list w r)))"
proof -
  have "apply_move sc idef has_rollback a w = apply_single sc idef has_rollback a w" if "\<not> move_somewhere a"
    using that by (auto simp: apply_move_def apply_single_def split: prod.splits)
  then have "\<not> move_somewhere a \<longrightarrow> apply_move sc idef has_rollback a w \<noteq> None"
    using apply_single_returns [OF assms(1,2)] by simp
  moreover have "effect R no_locks w w'" if "apply_move sc idef has_rollback a w = Some (a', w')" for a' w'
    using conserve.action [OF that, of R] assms by simp
  ultimately show ?thesis by (simp add: effect_def)
qed

theorem move_action_safe_witness:
  "\<exists>a' w'. apply_move (sample_scripts 3) sample_idef False (sample_move 2 False) sample_game = Some (a', w') \<and>
    store_content {(PLAYER [97], [97])} (the_list w') = store_content {(PLAYER [97], [97])} (the_list sample_game)"
proof -
  have R: "finite {(PLAYER [97], [97])}" "from_ref (sample_move 2 False) \<in> {(PLAYER [97], [97])}"
    "to_ref (sample_move 2 False) \<in> {(PLAYER [97], [97])}" by (simp_all add: sample_move_def)
  have "\<not> move_somewhere (sample_move 2 False)" by (simp add: sample_move_def)
  with move_action_safe [OF sample_scripts_obliging sample_kinds R, of "3"] show ?thesis
    by (metis not_None_eq prod.collapse zero_le_numeral)
qed

text \<open>
  C28.  What a script forbids does not happen: if every question is answered with 0, a move, also
  one to wherever there is room, leaves every slot of every list as it was.  And a drop takes at
  most as many items out of the game as the script allows, from no inventory but the one it
  names, and leaves no list locked.
\<close>

theorem limits_obeyed:
  "(forbidding sc \<longrightarrow> apply_move sc idef has_rollback a w = Some (a', w') \<longrightarrow> same_items w w') \<and>
   (obliging (\<lambda>n. 0 \<le> n \<and> n \<le> int k) sc \<longrightarrow> kind_of (from_inv d) \<noteq> None \<longrightarrow>
      finite R \<longrightarrow> (from_inv d, from_list d) \<in> R \<longrightarrow>
      lost (from_inv d) R k no_locks w (apply_drop sc has_rollback d w))"
  using forbid.action apply_drop_lost [of _ sc k d R w has_rollback] by blast

theorem limits_obeyed_witness:
  "(\<exists>a' w'. apply_move (sample_scripts 0) sample_idef False (sample_move 2 True) sample_game = Some (a', w') \<and>
     same_items sample_game w') \<and>
   lost (PLAYER [97]) {(PLAYER [97], [97])} 2 no_locks sample_game
     (apply_drop (sample_scripts 2) False \<lparr>from_inv = PLAYER [97], from_list = [97], from_i = 0,
        to_inv = UNDEFINED, to_list = [], to_i = 0, da_count = 4\<rparr> sample_game)"
proof -
  have "forbidding (sample_scripts 0 :: unit scripts)" by (rule sample_scripts_obliging) simp
  moreover have "obliging (\<lambda>n. 0 \<le> n \<and> n \<le> int 2) (sample_scripts 2 :: unit scripts)"
    by (rule sample_scripts_obliging) simp
  moreover have "apply_move (sample_scripts 0) sample_idef False (sample_move 2 True) sample_game \<noteq> None"
    by code_simp
  then obtain a' w' where
    "apply_move (sample_scripts 0) sample_idef False (sample_move 2 True) sample_game = Some (a', w')" by auto
  ultimately show ?thesis
    using conjunct1 [OF limits_obeyed [of "sample_scripts 0" sample_idef False "sample_move 2 True" sample_game]]
      conjunct2 [OF limits_obeyed [of "sample_scripts 2" _ False _ sample_game _ _ 2 "\<lparr>from_inv = PLAYER [97],
        from_list = [97], from_i = 0, to_inv = UNDEFINED, to_list = [], to_i = 0, da_count = 4\<rparr>"
        "{(PLAYER [97], [97])}"]]
    by (simp add: kind_of_def)
qed

definition sample_rows :: "unit game" where
  "sample_rows =
     \<lparr>g_inv = (\<lambda>l. if l = PLAYER [97] then Some \<lparr>m_lists = [sample_list,
        (new_InventoryList [98] 2)\<lparr>il_items := [no_item, no_item]\<rparr>], inv_dirty = False\<rparr> else None),
      g_modified = [], g_rollback = [], g_script = ()\<rparr>"

text \<open>
  What a move to wherever there is room may do instead of coming to its end.  The assertion in the loop that moves items to wherever there is room can fail by a
  request of a client: asked for seven of a stack of five, it moves five to the first slot and
  then counts these five a second time at the next one, where there is nothing left to move.
  With as many as there are it returns, with the items in the first slot.
\<close>

lemma shift_click_overrun:
  "apply_move (sample_scripts 100) sample_idef False
      ((sample_move 7 True)\<lparr>to_list := [98]\<rparr>) sample_rows = None \<and>
    map_option (\<lambda>(a, w). map st_count (il_items (the_list w (PLAYER [97], [98]))))
      (apply_move (sample_scripts 100) sample_idef False
        ((sample_move 5 True)\<lparr>to_list := [98]\<rparr>) sample_rows) = Some [5, 0]"
  by (intro conjI) code_simp+

end
