(* ===== verification/Matching.thy ===== *)
theory Matching
  imports Prelude
begin

text \<open>
  \<open>hopcroft_karp_can_match_all\<close> (\<open>src/craftdef.cpp\<close>): whether the nodes of one side of a
  bipartite graph can all be matched.  \<open>bip_graph ! u\<close> are the neighbours of \<open>u\<close>; both
  sides have the nodes below the length of the graph, which also is the dummy \<open>nil\<close>.  The
  numbers are \<open>u16\<close> in the code; the distances are shown to stay below 65535, the value of
  \<open>inf\<close>.

  The queue and the depth of the recursion are bounded by fuel; \<open>None\<close> is out of fuel, which
  is shown not to happen.
\<close>

section \<open>The algorithm\<close>

definition hk_inf :: int where
  "hk_inf = 65535"

record hk_state =
  pair_u :: "nat list"
  pair_v :: "nat list"
  dist :: "int list"

text \<open>The neighbours of the node taken from the queue.\<close>

fun bfs_edges :: "nat list \<Rightarrow> nat \<Rightarrow> nat list \<Rightarrow> int list \<Rightarrow> nat list \<Rightarrow> int list \<times> nat list" where
  "bfs_edges pv u [] d queue = (d, queue)"
| "bfs_edges pv u (v # vs) d queue =
     (let u_back = pv ! v in
      if d ! u_back = hk_inf then bfs_edges pv u vs (d[u_back := d ! u + 1]) (queue @ [u_back])
      else bfs_edges pv u vs d queue)"

fun bfs_loop :: "nat \<Rightarrow> nat list list \<Rightarrow> nat list \<Rightarrow> int list \<Rightarrow> nat list \<Rightarrow> int list option" where
  "bfs_loop fuel g pv d [] = Some d"
| "bfs_loop 0 g pv d (u # queue) = None"
| "bfs_loop (Suc fuel) g pv d (u # queue) =
     (let nil = length g;
          (d, queue) = (if d ! u < d ! nil then bfs_edges pv u (g ! u) d queue else (d, queue)) in
      bfs_loop fuel g pv d queue)"

definition do_bfs :: "nat list list \<Rightarrow> hk_state \<Rightarrow> (bool \<times> hk_state) option" where
  "do_bfs g s =
     (let nil = length g;
          free = filter (\<lambda>u. pair_u s ! u = nil) [0..<nil];
          d = map (\<lambda>u. if u < nil \<and> pair_u s ! u = nil then 0 else hk_inf) [0..<nil + 1] in
      map_option (\<lambda>d. (d ! nil \<noteq> hk_inf, s\<lparr>dist := d\<rparr>)) (bfs_loop (nil + 1) g (pair_v s) d free))"

text \<open>\<open>do_dfs_raw\<close> and its loop over the neighbours.\<close>

function dfs :: "nat \<Rightarrow> nat list list \<Rightarrow> nat \<Rightarrow> hk_state \<Rightarrow> (bool \<times> hk_state) option"
  and dfs_edges :: "nat \<Rightarrow> nat list list \<Rightarrow> nat \<Rightarrow> nat list \<Rightarrow> hk_state \<Rightarrow> (bool \<times> hk_state) option" where
  "dfs 0 g u s = None"
| "dfs (Suc fuel) g u s = (if u = length g then Some (True, s) else dfs_edges fuel g u (g ! u) s)"
| "dfs_edges fuel g u [] s = Some (False, s\<lparr>dist := (dist s)[u := hk_inf]\<rparr>)"
| "dfs_edges fuel g u (v # vs) s =
     (let u_back = pair_v s ! v in
      if dist s ! u_back \<noteq> dist s ! u + 1 then dfs_edges fuel g u vs s
      else
        case dfs fuel g u_back s of
          None \<Rightarrow> None
        | Some (found, s) \<Rightarrow>
            if found
            then Some (True, s\<lparr>pair_v := (pair_v s)[v := u], pair_u := (pair_u s)[u := v]\<rparr>)
            else dfs_edges fuel g u vs s)"
  by pat_completeness auto

termination
  by (relation "measures [case_sum (\<lambda>(fuel, g, u, s). 2 * fuel) (\<lambda>(fuel, g, u, vs, s). 2 * fuel + 1),
      case_sum (\<lambda>_. 0) (\<lambda>(fuel, g, u, vs, s). length vs)]") auto

text \<open>One round over the unmatched nodes.\<close>

fun hk_phase :: "nat list list \<Rightarrow> nat list \<Rightarrow> hk_state \<Rightarrow> nat \<Rightarrow> (hk_state \<times> nat) option" where
  "hk_phase g [] s num_matched = Some (s, num_matched)"
| "hk_phase g (u # us) s num_matched =
     (if pair_u s ! u = length g
      then
        case dfs (length g + 2) g u s of
          None \<Rightarrow> None
        | Some (found, s) \<Rightarrow> hk_phase g us s (if found then num_matched + 1 else num_matched)
      else hk_phase g us s num_matched)"

fun hk_rounds :: "nat \<Rightarrow> nat list list \<Rightarrow> hk_state \<Rightarrow> nat \<Rightarrow> nat option" where
  "hk_rounds 0 g s num_matched = None"
| "hk_rounds (Suc fuel) g s num_matched =
     (case do_bfs g s of
        None \<Rightarrow> None
      | Some (go, s) \<Rightarrow>
          if \<not> go then Some num_matched
          else
            case hk_phase g [0..<length g] s num_matched of
              None \<Rightarrow> None
            | Some (s, num_matched) \<Rightarrow> hk_rounds fuel g s num_matched)"

definition hk_start :: "nat \<Rightarrow> hk_state" where
  "hk_start nil = \<lparr>pair_u = replicate (nil + 1) nil, pair_v = replicate (nil + 1) nil, dist = replicate (nil + 1) 0\<rparr>"

definition hopcroft_karp_can_match_all :: "nat list list \<Rightarrow> bool option" where
  "hopcroft_karp_can_match_all g =
     map_option (\<lambda>num_matched. num_matched = length g) (hk_rounds (length g + 1) g (hk_start (length g)) 0)"

section \<open>What it decides\<close>

definition graph_ok :: "nat list list \<Rightarrow> bool" where
  "graph_ok g \<longleftrightarrow> length g \<le> 30000 \<and> (\<forall>u < length g. \<forall>v \<in> set (g ! u). v < length g)"

definition can_match_all :: "nat list list \<Rightarrow> bool" where
  "can_match_all g \<longleftrightarrow> (\<exists>f. inj_on f {..<length g} \<and> (\<forall>u < length g. f u \<in> set (g ! u)))"

section \<open>Breadth first search\<close>

text \<open>
  Every node with a distance is a root, exactly if that is 0, or is reached from a node one
  nearer by an edge to a partner.
\<close>

definition levels :: "nat list list \<Rightarrow> nat list \<Rightarrow> nat set \<Rightarrow> int list \<Rightarrow> bool" where
  "levels g pv F d \<longleftrightarrow> length d = length g + 1 \<and> (\<forall>w\<in>F. d ! w = 0) \<and>
     (\<forall>w\<le>length g. d ! w \<noteq> hk_inf \<longrightarrow> 0 \<le> d ! w \<and> (d ! w = 0 \<longrightarrow> w \<in> F) \<and>
       (0 < d ! w \<longrightarrow> (\<exists>u<length g. d ! u = d ! w - 1 \<and> (\<exists>v\<in>set (g ! u). pv ! v = w))))"

lemma levelsD:
  assumes "levels g pv F d" and "w \<le> length g" and "d ! w \<noteq> hk_inf"
  shows "0 \<le> d ! w" and "d ! w = 0 \<Longrightarrow> w \<in> F"
    and "0 < d ! w \<Longrightarrow> \<exists>u<length g. d ! u = d ! w - 1 \<and> (\<exists>v\<in>set (g ! u). pv ! v = w)"
  using assms unfolding levels_def by blast+

lemma levels_all_below:
  assumes "levels g pv F d" and "w \<le> length g" and "d ! w = int k" and "int k \<noteq> hk_inf" and "k < 65536"
  shows "j \<le> k \<Longrightarrow> \<exists>x\<le>length g. d ! x = int j"
  using assms(2-5)
proof (induction k arbitrary: w)
  case 0
  then show ?case by auto
next
  case (Suc k)
  show ?case
  proof (cases "j = Suc k")
    case True
    with Suc.prems show ?thesis by auto
  next
    case False
    have "d ! w \<noteq> hk_inf" "0 < d ! w" using Suc.prems by simp_all
    then obtain u where u: "u < length g" "d ! u = int k"
      using levelsD(3) [OF assms(1) Suc.prems(2)] Suc.prems(3) by auto
    have "int k \<noteq> hk_inf" using Suc.prems(4,5) by (simp add: hk_inf_def)
    with Suc.IH [of u] u False Suc.prems show ?thesis by simp
  qed
qed

text \<open>There are no more distances than nodes.\<close>

lemma levels_bound:
  assumes "levels g pv F d" and "w \<le> length g" and "d ! w \<noteq> hk_inf" and "length g \<le> 30000"
    and "d ! w < hk_inf"
  shows "0 \<le> d ! w \<and> d ! w \<le> int (length g)"
proof -
  from levelsD(1) [OF assms(1-3)] have "0 \<le> d ! w" .
  then obtain k where k: "d ! w = int k" using nonneg_int_cases by blast
  then have "k < 65536" using assms(5) by (simp add: hk_inf_def)
  have "int j \<in> (!) d ` {..length g}" if "j \<le> k" for j
    using levels_all_below [OF assms(1,2) k _ \<open>k < 65536\<close> that] assms(3) k by force
  then have "(\<lambda>j. int j) ` {..k} \<subseteq> (!) d ` {..length g}" by blast
  from card_mono [OF _ this] have "k + 1 \<le> card ((!) d ` {..length g})"
    by (simp add: card_image inj_on_def)
  also have "\<dots> \<le> length g + 1" using card_image_le [of "{..length g}" "(!) d"] by simp
  finally show ?thesis using k by simp
qed

definition unseen :: "nat list list \<Rightarrow> int list \<Rightarrow> nat set" where
  "unseen g d = {w. w \<le> length g \<and> d ! w = hk_inf}"

lemma finite_unseen [simp]: "finite (unseen g d)"
  by (rule finite_subset [of _ "{..length g}"]) (auto simp: unseen_def)

text \<open>No distance is above the bound; what is not reached is at \<open>hk_inf\<close>.\<close>

definition near :: "nat list list \<Rightarrow> int list \<Rightarrow> bool" where
  "near g d \<longleftrightarrow> (\<forall>w\<le>length g. d ! w = hk_inf \<or> 0 \<le> d ! w \<and> d ! w \<le> int (length g))"

lemma nearD: "near g d \<Longrightarrow> w \<le> length g \<Longrightarrow> d ! w \<noteq> hk_inf \<Longrightarrow> 0 \<le> d ! w \<and> d ! w \<le> int (length g)"
  unfolding near_def by blast

lemma bfs_edges_ok:
  assumes "bfs_edges pv u vs d q = (d', q')" and "levels g pv F d" and "near g d" and "u < length g"
    and "d ! u \<noteq> hk_inf" and "set vs \<subseteq> set (g ! u)" and "\<And>v. v \<in> set (g ! u) \<Longrightarrow> pv ! v \<le> length g"
    and "length g \<le> 30000"
  shows "levels g pv F d' \<and> near g d' \<and> (\<forall>w\<le>length g. d ! w \<noteq> hk_inf \<longrightarrow> d' ! w = d ! w) \<and>
    (\<forall>v\<in>set vs. d' ! (pv ! v) \<noteq> hk_inf) \<and>
    length q' + card (unseen g d') = length q + card (unseen g d) \<and>
    set q \<subseteq> set q' \<and> (\<forall>w\<in>set q'. w \<in> set q \<or> w \<le> length g \<and> d' ! w \<noteq> hk_inf) \<and>
    (\<forall>w\<le>length g. d' ! w \<noteq> hk_inf \<longrightarrow> d ! w \<noteq> hk_inf \<or> w \<in> set q')"
  using assms(1-3,5,6)
proof (induction vs arbitrary: d q)
  case Nil
  then show ?case by auto
next
  case (Cons v vs)
  let ?w = "pv ! v"
  have w: "?w \<le> length g" using assms(7) Cons.prems by simp
  show ?case
  proof (cases "d ! ?w = hk_inf")
    case False
    with Cons.prems have "bfs_edges pv u vs d q = (d', q')" by simp
    from Cons.IH [OF this Cons.prems(2-4)] Cons.prems(5) False w show ?thesis by auto
  next
    case True
    define d1 where "d1 = d[?w := d ! u + 1]"
    have len: "length d = length g + 1" using Cons.prems(2) by (simp add: levels_def)
    have du: "0 \<le> d ! u" "d ! u \<le> int (length g)"
      using nearD [OF Cons.prems(3) less_imp_le [OF assms(4)] Cons.prems(4)] by simp_all
    have uw: "u \<noteq> ?w" using True Cons.prems(4) by auto
    have d1w: "d1 ! ?w = d ! u + 1" using w len by (simp add: d1_def)
    have fin: "d1 ! ?w \<noteq> hk_inf" using du assms(8) d1w by (simp add: hk_inf_def)
    have keep: "d1 ! x = d ! x" if "x \<noteq> ?w" for x using that by (simp add: d1_def)
    have keep_fin: "d1 ! x = d ! x" if "d ! x \<noteq> hk_inf" for x using that True keep by metis
    have lv: "levels g pv F d1"
      unfolding levels_def
    proof (intro conjI allI impI ballI)
      show "length d1 = length g + 1" using len by (simp add: d1_def)
      show "d1 ! x = 0" if "x \<in> F" for x
      proof -
        from that Cons.prems(2) have "d ! x = 0" by (simp add: levels_def)
        with keep_fin show ?thesis by (simp add: hk_inf_def)
      qed
      fix x assume x: "x \<le> length g" "d1 ! x \<noteq> hk_inf"
      show "0 \<le> d1 ! x"
        using levelsD(1) [OF Cons.prems(2) x(1)] x(2) du keep d1w by (cases "x = ?w") auto
      show "x \<in> F" if "d1 ! x = 0"
        using levelsD(2) [OF Cons.prems(2) x(1)] that x(2) du keep d1w by (cases "x = ?w") auto
      show "\<exists>u<length g. d1 ! u = d1 ! x - 1 \<and> (\<exists>v\<in>set (g ! u). pv ! v = x)" if pos: "0 < d1 ! x"
      proof (cases "x = ?w")
        case True
        with d1w keep [OF uw] assms(4) Cons.prems(5) show ?thesis
          by (intro exI [of _ u]) auto
      next
        case False
        then have x': "d ! x \<noteq> hk_inf" "0 < d ! x" using x pos keep by simp_all
        obtain y where y: "y < length g" "d ! y = d ! x - 1" "\<exists>v\<in>set (g ! y). pv ! v = x"
          using levelsD(3) [OF Cons.prems(2) x(1) x'] by blast
        have "d ! y \<noteq> hk_inf"
          using y(2) nearD [OF Cons.prems(3) x(1) x'(1)] assms(8) by (simp add: hk_inf_def)
        with y keep_fin keep False show ?thesis by (intro exI [of _ y]) auto
      qed
    qed
    have nr: "near g d1"
      unfolding near_def
    proof (intro allI impI)
      fix x assume x: "x \<le> length g"
      show "d1 ! x = hk_inf \<or> 0 \<le> d1 ! x \<and> d1 ! x \<le> int (length g)"
      proof (cases "x = ?w")
        case True
        have "d1 ! ?w < hk_inf" using du assms(8) d1w by (simp add: hk_inf_def)
        with levels_bound [OF lv w fin assms(8)] True show ?thesis by simp
      next
        case False
        with keep x Cons.prems(3) show ?thesis by (auto simp: near_def)
      qed
    qed
    have eq: "bfs_edges pv u vs d1 (q @ [?w]) = (d', q')"
      using Cons.prems(1) True by (simp add: d1_def Let_def)
    have fu: "d1 ! u \<noteq> hk_inf" using keep [OF uw] Cons.prems(4) by simp
    have un: "unseen g d = insert ?w (unseen g d1)" "?w \<notin> unseen g d1"
      using True w keep fin by (auto simp: unseen_def) metis
    have ih: "levels g pv F d' \<and> near g d' \<and> (\<forall>w\<le>length g. d1 ! w \<noteq> hk_inf \<longrightarrow> d' ! w = d1 ! w) \<and>
      (\<forall>v\<in>set vs. d' ! (pv ! v) \<noteq> hk_inf) \<and>
      length q' + card (unseen g d') = length (q @ [?w]) + card (unseen g d1) \<and>
      set (q @ [?w]) \<subseteq> set q' \<and> (\<forall>w\<in>set q'. w \<in> set (q @ [?w]) \<or> w \<le> length g \<and> d' ! w \<noteq> hk_inf) \<and>
      (\<forall>w\<le>length g. d' ! w \<noteq> hk_inf \<longrightarrow> d1 ! w \<noteq> hk_inf \<or> w \<in> set q')"
      by (rule Cons.IH [OF eq lv nr fu]) (use Cons.prems(5) in auto)
    have "d' ! ?w \<noteq> hk_inf" using ih w fin by simp
    moreover have "d' ! x = d ! x" if "x \<le> length g" "d ! x \<noteq> hk_inf" for x
      using that ih keep_fin by simp
    moreover have "d ! x \<noteq> hk_inf \<or> x \<in> set q'" if "x \<le> length g" "d' ! x \<noteq> hk_inf" for x
      using that ih keep by (cases "x = ?w") auto
    ultimately show ?thesis using ih un w by auto
  qed
qed

text \<open>Nodes that are neither in the queue nor at the end of the search have all partners found.\<close>

definition explored :: "nat list list \<Rightarrow> nat list \<Rightarrow> nat set \<Rightarrow> int list \<Rightarrow> bool" where
  "explored g pv waiting d \<longleftrightarrow>
     (d ! length g = hk_inf \<longrightarrow>
       (\<forall>u<length g. d ! u \<noteq> hk_inf \<longrightarrow> u \<in> waiting \<or> (\<forall>v\<in>set (g ! u). d ! (pv ! v) \<noteq> hk_inf)))"

lemma bfs_loop_ok:
  assumes "levels g pv F d" and "near g d" and "graph_ok g" and "\<And>v. v < length g \<Longrightarrow> pv ! v \<le> length g"
    and "\<forall>w\<in>set q. w \<le> length g \<and> d ! w \<noteq> hk_inf" and "explored g pv (set q) d"
    and "length q + card (unseen g d) \<le> fuel"
  shows "\<exists>d'. bfs_loop fuel g pv d q = Some d' \<and> levels g pv F d' \<and> near g d' \<and> explored g pv {} d'"
  using assms(1,2,5-7)
proof (induction fuel arbitrary: d q)
  case 0
  then show ?case by simp
next
  case (Suc fuel)
  show ?case
  proof (cases q)
    case Nil
    with Suc.prems show ?thesis by simp
  next
    case (Cons u us)
    have u: "u \<le> length g" "d ! u \<noteq> hk_inf" using Suc.prems(3) Cons by simp_all
    show ?thesis
    proof (cases "d ! u < d ! length g")
      case False
      have "explored g pv (set us) d"
        using Suc.prems(4) False u nearD [OF Suc.prems(2) u] assms(3) Cons
        by (auto simp: explored_def hk_inf_def graph_ok_def)
      with Suc.IH [OF Suc.prems(1,2)] Suc.prems(3,5) Cons False show ?thesis by simp
    next
      case True
      then have un: "u < length g" using u by (cases "u = length g") auto
      obtain d1 q1 where e: "bfs_edges pv u (g ! u) d us = (d1, q1)" by fastforce
      have pv: "v \<in> set (g ! u) \<Longrightarrow> pv ! v \<le> length g" for v
        using assms(3,4) un by (simp add: graph_ok_def)
      have n: "length g \<le> 30000" using assms(3) by (simp add: graph_ok_def)
      note b = bfs_edges_ok [OF e Suc.prems(1,2) un u(2) order.refl pv n]
      then have b1: "levels g pv F d1" "near g d1" by blast+
      have keep: "d1 ! w = d ! w" if "w \<le> length g" "d ! w \<noteq> hk_inf" for w using b that by blast
      have found: "d1 ! (pv ! v) \<noteq> hk_inf" if "v \<in> set (g ! u)" for v using b that by blast
      have q1: "\<forall>w\<in>set q1. w \<le> length g \<and> d1 ! w \<noteq> hk_inf"
        using b Suc.prems(3) Cons keep by (metis list.set_intros(2))
      have "explored g pv (set q1) d1"
        unfolding explored_def
      proof (intro impI allI)
        fix x assume inf: "d1 ! length g = hk_inf" and x: "x < length g" "d1 ! x \<noteq> hk_inf"
        show "x \<in> set q1 \<or> (\<forall>v\<in>set (g ! x). d1 ! (pv ! v) \<noteq> hk_inf)"
        proof (cases "d ! x = hk_inf")
          case True
          with b x less_imp_le show ?thesis by blast
        next
          case False
          have "d ! length g = hk_inf" using keep inf by (metis order.refl)
          with Suc.prems(4) False x(1) have "x \<in> set q \<or> (\<forall>v\<in>set (g ! x). d ! (pv ! v) \<noteq> hk_inf)"
            by (simp add: explored_def)
          then consider "x = u" | "x \<in> set us" | "\<forall>v\<in>set (g ! x). d ! (pv ! v) \<noteq> hk_inf"
            using Cons by auto
          then show ?thesis
          proof cases
            case 1
            with found show ?thesis by blast
          next
            case 2
            with b show ?thesis by blast
          next
            case 3
            have "d1 ! (pv ! v) \<noteq> hk_inf" if "v \<in> set (g ! x)" for v
              using 3 keep that assms(3,4) x(1) by (metis graph_ok_def)
            then show ?thesis by blast
          qed
        qed
      qed
      moreover have "length q1 + card (unseen g d1) \<le> fuel"
        using b Suc.prems(5) Cons by simp
      ultimately show ?thesis
        using Suc.IH [OF b1 q1] Cons True e by simp
    qed
  qed
qed

text \<open>What a state of the algorithm has: a matching, which \<open>pair_u\<close> and \<open>pair_v\<close> agree on.\<close>

definition matching :: "nat list list \<Rightarrow> nat list \<Rightarrow> nat list \<Rightarrow> bool" where
  "matching g pu pv \<longleftrightarrow> length pu = length g + 1 \<and> length pv = length g + 1 \<and>
     (\<forall>u<length g. pu ! u = length g \<or> pu ! u < length g \<and> pu ! u \<in> set (g ! u) \<and> pv ! (pu ! u) = u) \<and>
     (\<forall>v<length g. pv ! v = length g \<or> pv ! v < length g \<and> pu ! (pv ! v) = v)"

lemma matchingD:
  assumes "matching g pu pv"
  shows "u < length g \<Longrightarrow> pu ! u \<noteq> length g \<Longrightarrow> pu ! u < length g \<and> pu ! u \<in> set (g ! u) \<and> pv ! (pu ! u) = u"
    and "v < length g \<Longrightarrow> pv ! v \<noteq> length g \<Longrightarrow> pv ! v < length g \<and> pu ! (pv ! v) = v"
    and "length pu = length g + 1" and "length pv = length g + 1"
  using assms unfolding matching_def by blast+

lemma matching_le: "matching g pu pv \<Longrightarrow> v < length g \<Longrightarrow> pv ! v \<le> length g"
  using matchingD(2) [of g pu pv v] by (cases "pv ! v = length g") simp_all

definition free_nodes :: "nat list list \<Rightarrow> nat list \<Rightarrow> nat set" where
  "free_nodes g pu = {u. u < length g \<and> pu ! u = length g}"

definition matched :: "nat list list \<Rightarrow> nat list \<Rightarrow> nat set" where
  "matched g pu = {u. u < length g \<and> pu ! u \<noteq> length g}"

lemma finite_matched [simp]: "finite (matched g pu)" "finite (free_nodes g pu)"
  by (simp_all add: matched_def free_nodes_def)

lemma card_matched: "card (matched g pu) + card (free_nodes g pu) = length g"
proof -
  have "card (matched g pu \<union> free_nodes g pu) = card (matched g pu) + card (free_nodes g pu)"
    by (rule card_Un_disjoint) (auto simp: matched_def free_nodes_def)
  moreover have "matched g pu \<union> free_nodes g pu = {..<length g}" by (auto simp: matched_def free_nodes_def)
  ultimately show ?thesis by simp
qed

lemma do_bfs_ok:
  assumes "graph_ok g" and "matching g (pair_u s) (pair_v s)"
  shows "\<exists>d. do_bfs g s = Some (d ! length g \<noteq> hk_inf, s\<lparr>dist := d\<rparr>) \<and>
    levels g (pair_v s) (free_nodes g (pair_u s)) d \<and> near g d \<and> explored g (pair_v s) {} d"
proof -
  define n where "n = length g"
  define free where "free = filter (\<lambda>u. pair_u s ! u = n) [0..<n]"
  define d where "d = map (\<lambda>u. if u < n \<and> pair_u s ! u = n then 0 else hk_inf) [0..<n + 1]"
  have dn: "d ! u = (if u < n \<and> pair_u s ! u = n then 0 else hk_inf)" if "u \<le> n" for u
    using that by (simp add: d_def del: upt_Suc)
  have setf: "set free = free_nodes g (pair_u s)" by (auto simp: free_def free_nodes_def n_def)
  have lv: "levels g (pair_v s) (free_nodes g (pair_u s)) d"
    using dn by (auto simp: levels_def d_def free_nodes_def hk_inf_def simp flip: n_def simp del: upt_Suc)
  have nr: "near g d" using dn by (auto simp: near_def simp flip: n_def)
  have "unseen g d = insert n (matched g (pair_u s))"
    using dn by (auto simp: unseen_def matched_def hk_inf_def simp flip: n_def split: if_splits)
  then have "card (unseen g d) = card (matched g (pair_u s)) + 1" by (simp add: matched_def n_def)
  moreover have "length free = card (free_nodes g (pair_u s))"
    by (metis setf distinct_card distinct_filter distinct_upt free_def)
  ultimately have fuel: "length free + card (unseen g d) \<le> n + 1"
    using card_matched [of g "pair_u s"] by (simp add: n_def)
  have q: "\<forall>w\<in>set free. w \<le> length g \<and> d ! w \<noteq> hk_inf"
    using dn by (auto simp: free_def hk_inf_def n_def)
  have ex: "explored g (pair_v s) (set free) d"
    using dn by (auto simp: explored_def free_def simp flip: n_def split: if_splits)
  from bfs_loop_ok [OF lv nr assms(1) matching_le [OF assms(2)] q ex fuel [unfolded n_def]]
  show ?thesis by (auto simp: do_bfs_def Let_def d_def free_def n_def)
qed

section \<open>Depth first search\<close>

text \<open>A path from \<open>u\<close> to the dummy over edges of the graph and partners, one further each time.\<close>

fun aug_path :: "nat list list \<Rightarrow> nat list \<Rightarrow> int list \<Rightarrow> nat \<Rightarrow> nat list \<Rightarrow> bool" where
  "aug_path g pv d u [] \<longleftrightarrow> u = length g"
| "aug_path g pv d u (v # vs) \<longleftrightarrow>
     u < length g \<and> v \<in> set (g ! u) \<and> d ! (pv ! v) = d ! u + 1 \<and> aug_path g pv d (pv ! v) vs"

fun flip_path :: "nat list \<Rightarrow> nat list \<Rightarrow> nat \<Rightarrow> nat list \<Rightarrow> nat list \<times> nat list" where
  "flip_path pu pv u [] = (pu, pv)"
| "flip_path pu pv u (v # vs) =
     (let (pu', pv') = flip_path pu pv (pv ! v) vs in (pu'[u := v], pv'[v := u]))"

text \<open>The search only gives nodes up, and none as near as the one it starts from.\<close>

definition gives_up :: "nat list list \<Rightarrow> nat \<Rightarrow> int list \<Rightarrow> int list \<Rightarrow> bool" where
  "gives_up g u d d' \<longleftrightarrow> length d' = length d \<and> (\<forall>w\<le>length g. d' ! w = d ! w \<or> d' ! w = hk_inf) \<and>
     (\<forall>w\<le>length g. w \<noteq> u \<longrightarrow> d ! w \<le> d ! u \<longrightarrow> d' ! w = d ! w) \<and> d' ! length g = d ! length g"

text \<open>A node that has been given up leads only to nodes that have been given up.\<close>

definition given_up_closed :: "nat list list \<Rightarrow> nat list \<Rightarrow> int list \<Rightarrow> int list \<Rightarrow> bool" where
  "given_up_closed g pv D d \<longleftrightarrow> (\<forall>w\<le>length g. d ! w = D ! w \<or> d ! w = hk_inf) \<and> d ! length g = D ! length g \<and>
     (\<forall>x<length g. D ! x \<noteq> hk_inf \<longrightarrow> d ! x = hk_inf \<longrightarrow>
       (\<forall>v\<in>set (g ! x). D ! (pv ! v) = D ! x + 1 \<longrightarrow> d ! (pv ! v) = hk_inf))"

lemma aug_path_more:
  assumes "aug_path g pv d' u vs" and "gives_up g x d d'" and "near g d'" and "graph_ok g"
    and "\<And>v. v < length g \<Longrightarrow> pv ! v \<le> length g" and "d' ! u \<noteq> hk_inf" and "u \<le> length g"
  shows "aug_path g pv d u vs"
  using assms(1,6,7)
proof (induction vs arbitrary: u)
  case Nil
  then show ?case by simp
next
  case (Cons v vs)
  have n: "length g \<le> 30000" using assms(4) by (simp add: graph_ok_def)
  have v: "v < length g" using Cons.prems(1) assms(4) by (auto simp: graph_ok_def)
  have step: "d' ! (pv ! v) = d' ! u + 1" using Cons.prems(1) by simp
  have fin: "d' ! (pv ! v) \<noteq> hk_inf"
    using step nearD [OF assms(3) Cons.prems(3,2)] n by (simp add: hk_inf_def)
  have "d ! u = d' ! u" "d ! (pv ! v) = d' ! (pv ! v)"
    using assms(2) Cons.prems(2,3) fin assms(5) [OF v] by (auto simp: gives_up_def)
  with Cons.IH [of "pv ! v"] Cons.prems(1) fin assms(5) [OF v] step show ?case by simp
qed

lemma near_gives_up: "near g d \<Longrightarrow> gives_up g u d d' \<Longrightarrow> near g d'"
  unfolding near_def gives_up_def by metis

text \<open>What a call of the search gives back.\<close>

definition dfs_result ::
  "nat list list \<Rightarrow> nat \<Rightarrow> nat list \<Rightarrow> hk_state \<Rightarrow> bool \<Rightarrow> hk_state \<Rightarrow> bool" where
  "dfs_result g u edges s found s' \<longleftrightarrow>
     gives_up g u (dist s) (dist s') \<and>
     (\<not> found \<longrightarrow> u \<noteq> length g \<and> pair_u s' = pair_u s \<and> pair_v s' = pair_v s \<and> dist s' ! u = hk_inf \<and>
       (\<forall>D. given_up_closed g (pair_v s) D (dist s) \<longrightarrow>
         (\<forall>v\<in>set (g ! u) - set edges. D ! (pair_v s ! v) = D ! u + 1 \<longrightarrow> dist s ! (pair_v s ! v) = hk_inf) \<longrightarrow>
         given_up_closed g (pair_v s) D (dist s'))) \<and>
     (found \<longrightarrow> (\<exists>vs. aug_path g (pair_v s) (dist s) u vs \<and>
        (pair_u s', pair_v s') = flip_path (pair_u s) (pair_v s) u vs))"

lemma dfs_result_skip:
  assumes r: "dfs_result g u vs s found s'" and no: "dist s ! (pair_v s ! v) \<noteq> dist s ! u + 1"
    and u: "u \<le> length g" "dist s ! u \<noteq> hk_inf" and b: "pair_v s ! v \<le> length g"
  shows "dfs_result g u (v # vs) s found s'"
proof -
  have "dist s ! (pair_v s ! v) = hk_inf"
    if "given_up_closed g (pair_v s) D (dist s)" "D ! (pair_v s ! v) = D ! u + 1" for D
    using that(2) no u b that(1) [unfolded given_up_closed_def, THEN conjunct1] by metis
  then have "given_up_closed g (pair_v s) D (dist s')"
    if "\<not> found" "given_up_closed g (pair_v s) D (dist s)"
      "\<forall>x\<in>set (g ! u) - set (v # vs). D ! (pair_v s ! x) = D ! u + 1 \<longrightarrow> dist s ! (pair_v s ! x) = hk_inf" for D
    using that r unfolding dfs_result_def by (metis Diff_iff set_ConsD)
  with r show ?thesis unfolding dfs_result_def by blast
qed

lemma dfs_result_found:
  assumes r: "dfs_result g (pair_v s ! v) e s True s1" and u: "u < length g" and v: "v \<in> set (g ! u)"
    and d: "dist s ! (pair_v s ! v) = dist s ! u + 1"
  shows "dfs_result g u e' s True (s1\<lparr>pair_v := (pair_v s1)[v := u], pair_u := (pair_u s1)[u := v]\<rparr>)"
proof -
  from r have g: "gives_up g (pair_v s ! v) (dist s) (dist s1)" by (simp add: dfs_result_def)
  have "gives_up g u (dist s) (dist s1)"
    using g d unfolding gives_up_def by fastforce
  moreover obtain vs where vs: "aug_path g (pair_v s) (dist s) (pair_v s ! v) vs"
    "(pair_u s1, pair_v s1) = flip_path (pair_u s) (pair_v s) (pair_v s ! v) vs"
    using r by (auto simp: dfs_result_def)
  have "aug_path g (pair_v s) (dist s) u (v # vs)" using vs u v d by simp
  moreover have "flip_path (pair_u s) (pair_v s) u (v # vs) = ((pair_u s1)[u := v], (pair_v s1)[v := u])"
    using vs(2) [symmetric] by simp
  ultimately show ?thesis unfolding dfs_result_def by (auto intro!: exI [of _ "v # vs"])
qed

lemma dfs_result_next:
  assumes r1: "dfs_result g b (g ! b) s False s1" and b: "b = pair_v s ! v" "b < length g"
    and r2: "dfs_result g u vs s1 found s'" and u: "u < length g" "dist s ! u \<noteq> hk_inf"
    and d: "dist s ! b = dist s ! u + 1" and near: "near g (dist s)" and g: "graph_ok g"
    and pv: "\<forall>x<length g. pair_v s ! x \<le> length g"
  shows "dfs_result g u (v # vs) s found s'"
proof -
  from r1 have g1: "gives_up g b (dist s) (dist s1)" and same: "pair_u s1 = pair_u s" "pair_v s1 = pair_v s"
    and b_inf: "dist s1 ! b = hk_inf"
    and cl1: "\<And>D. given_up_closed g (pair_v s) D (dist s) \<Longrightarrow> given_up_closed g (pair_v s) D (dist s1)"
    by (simp_all add: dfs_result_def)
  from r2 have g2: "gives_up g u (dist s1) (dist s')" by (simp add: dfs_result_def)
  have keep: "dist s1 ! w = dist s ! w" if "w \<le> length g" "dist s ! w \<le> dist s ! u" for w
    using that g1 d unfolding gives_up_def by (cases "w = b") auto
  have g12: "gives_up g u (dist s) (dist s')"
    unfolding gives_up_def
  proof (intro conjI allI impI)
    show "length (dist s') = length (dist s)" "dist s' ! length g = dist s ! length g"
      using g1 g2 by (simp_all add: gives_up_def)
    show "dist s' ! w = dist s ! w \<or> dist s' ! w = hk_inf" if "w \<le> length g" for w
      using that g1 g2 unfolding gives_up_def by metis
    show "dist s' ! w = dist s ! w" if "w \<le> length g" "w \<noteq> u" "dist s ! w \<le> dist s ! u" for w
      using that g2 keep [of w] keep [of u] u(1) unfolding gives_up_def by simp
  qed
  have u1: "dist s1 ! u \<noteq> hk_inf" using keep [of u] u by simp
  have pv1: "\<And>x. x < length g \<Longrightarrow> pair_v s ! x \<le> length g" using pv by blast
  have path: "aug_path g (pair_v s) (dist s) u ws" if "aug_path g (pair_v s) (dist s1) u ws" for ws
    using aug_path_more [OF that g1 near_gives_up [OF near g1] g pv1 u1 less_imp_le [OF u(1)]] .
  have dead: "dist s1 ! (pair_v s ! x) = hk_inf"
    if "x \<in> set (g ! u) - set vs" "D ! (pair_v s ! x) = D ! u + 1"
      "\<forall>x\<in>set (g ! u) - set (v # vs). D ! (pair_v s ! x) = D ! u + 1 \<longrightarrow> dist s ! (pair_v s ! x) = hk_inf" for x D
  proof (cases "x = v")
    case True
    with b_inf b show ?thesis by simp
  next
    case False
    with that have "dist s ! (pair_v s ! x) = hk_inf" by auto
    moreover have "pair_v s ! x \<le> length g" using that(1) u(1) g pv1 by (auto simp: graph_ok_def)
    ultimately show ?thesis using g1 unfolding gives_up_def by metis
  qed
  have fail: "given_up_closed g (pair_v s) D (dist s')"
    if "\<not> found" "given_up_closed g (pair_v s) D (dist s)"
      "\<forall>x\<in>set (g ! u) - set (v # vs). D ! (pair_v s ! x) = D ! u + 1 \<longrightarrow> dist s ! (pair_v s ! x) = hk_inf" for D
    using that(1) r2 cl1 [OF that(2)] dead [OF _ _ that(3)] unfolding dfs_result_def same by blast
  show ?thesis
    using g12 fail r2 path unfolding dfs_result_def same by blast
qed

lemma dfs_ok:
  "graph_ok g \<Longrightarrow> length (dist s) = length g + 1 \<Longrightarrow> near g (dist s) \<Longrightarrow>
   \<forall>v<length g. pair_v s ! v \<le> length g \<Longrightarrow> u \<le> length g \<Longrightarrow> dist s ! u \<noteq> hk_inf \<Longrightarrow>
   int (length g) - dist s ! u < int fuel \<Longrightarrow>
   \<exists>found s'. dfs fuel g u s = Some (found, s') \<and> dfs_result g u (if u < length g then g ! u else []) s found s'"
  "graph_ok g \<Longrightarrow> length (dist s) = length g + 1 \<Longrightarrow> near g (dist s) \<Longrightarrow>
   \<forall>v<length g. pair_v s ! v \<le> length g \<Longrightarrow> u < length g \<Longrightarrow> dist s ! u \<noteq> hk_inf \<Longrightarrow>
   int (length g) - dist s ! u \<le> int fuel \<Longrightarrow> set edges \<subseteq> set (g ! u) \<Longrightarrow>
   \<exists>found s'. dfs_edges fuel g u edges s = Some (found, s') \<and> dfs_result g u edges s found s'"
proof (induction fuel g u s and fuel g u edges s rule: dfs_dfs_edges.induct)
  case (1 g u s)
  with nearD [of g "dist s" u] show ?case by simp
next
  case (2 fuel g u s)
  show ?case
  proof (cases "u = length g")
    case True
    then have "dfs_result g u [] s True s"
      by (auto simp: dfs_result_def gives_up_def intro: exI [of _ "[]"])
    with True show ?thesis by (intro exI [of _ True] exI [of _ s]) simp
  next
    case False
    with 2 show ?thesis by simp
  qed
next
  case (3 fuel g u s)
  let ?d = "(dist s)[u := hk_inf]"
  have "gives_up g u (dist s) ?d"
    using 3 by (auto simp: gives_up_def nth_list_update)
  moreover have "given_up_closed g (pair_v s) D ?d"
    if "given_up_closed g (pair_v s) D (dist s)"
      and dead: "\<forall>v\<in>set (g ! u). D ! (pair_v s ! v) = D ! u + 1 \<longrightarrow> dist s ! (pair_v s ! v) = hk_inf" for D
  proof -
    have nth: "?d ! w = (if w = u then hk_inf else dist s ! w)" if "w \<le> length g" for w
      using that 3 by (simp add: nth_list_update)
    have pv: "pair_v s ! v \<le> length g" if "v \<in> set (g ! x)" "x < length g" for v x
      using that 3 by (auto simp: graph_ok_def)
    show ?thesis
      unfolding given_up_closed_def
    proof (intro conjI allI impI ballI)
      show "?d ! w = D ! w \<or> ?d ! w = hk_inf" if "w \<le> length g" for w
        using that nth \<open>given_up_closed g (pair_v s) D (dist s)\<close> by (simp add: given_up_closed_def)
      show "?d ! length g = D ! length g"
        using 3 \<open>given_up_closed g (pair_v s) D (dist s)\<close> by (simp add: given_up_closed_def)
      fix x v assume x: "x < length g" "D ! x \<noteq> hk_inf" "?d ! x = hk_inf" "v \<in> set (g ! x)"
        "D ! (pair_v s ! v) = D ! x + 1"
      have "dist s ! (pair_v s ! v) = hk_inf"
        using x dead nth [of x] \<open>given_up_closed g (pair_v s) D (dist s)\<close>
        by (cases "x = u") (auto simp: given_up_closed_def)
      with nth pv x show "?d ! (pair_v s ! v) = hk_inf" by simp
    qed
  qed
  ultimately have "dfs_result g u [] s False (s\<lparr>dist := ?d\<rparr>)"
    using 3 by (simp add: dfs_result_def)
  then show ?case by (intro exI [of _ False]) simp
next
  case (4 fuel g u v vs s)
  note IH = "4.IH" and P = "4.prems"
  let ?b = "pair_v s ! v"
  have n: "length g \<le> 30000" using P(1) by (simp add: graph_ok_def)
  have v: "v < length g" "v \<in> set (g ! u)" "set vs \<subseteq> set (g ! u)"
    using P(1,5,8) by (auto simp: graph_ok_def)
  have b: "?b \<le> length g" using P(4) v by simp
  have du: "0 \<le> dist s ! u" "dist s ! u \<le> int (length g)"
    using nearD [OF P(3) less_imp_le [OF P(5)] P(6)] by simp_all
  show ?case
  proof (cases "dist s ! ?b \<noteq> dist s ! u + 1")
    case True
    obtain found s' where r: "dfs_edges fuel g u vs s = Some (found, s')" "dfs_result g u vs s found s'"
      using IH(1) [OF refl True P(1-7) v(3)] by blast
    have "dfs_result g u (v # vs) s found s'"
      using dfs_result_skip [OF r(2)] True P(5,6) b by simp
    with r(1) True show ?thesis by (simp add: Let_def)
  next
    case False
    then have db: "dist s ! ?b = dist s ! u + 1" by simp
    have fin: "dist s ! ?b \<noteq> hk_inf" using db du n by (simp add: hk_inf_def)
    have "int (length g) - dist s ! ?b < int fuel" using P(7) db by simp
    then obtain f1 s1 where r1: "dfs fuel g ?b s = Some (f1, s1)"
      "dfs_result g ?b (if ?b < length g then g ! ?b else []) s f1 s1"
      using IH(2) [OF refl _ P(1-4) b fin] False by blast
    show ?thesis
    proof (cases f1)
      case True
      then have "dfs_result g ?b (if ?b < length g then g ! ?b else []) s True s1" using r1(2) by simp
      from dfs_result_found [OF this P(5) v(2) db] have
        "dfs_result g u (v # vs) s True (s1\<lparr>pair_v := (pair_v s1)[v := u], pair_u := (pair_u s1)[u := v]\<rparr>)" .
      with True False r1(1) show ?thesis by (intro exI [of _ True]) (simp add: Let_def)
    next
      case f1: False
      have bn: "?b < length g"
        using r1(2) f1 b by (cases "?b = length g") (simp_all add: dfs_result_def)
      from r1(2) f1 bn have r1': "dfs_result g ?b (g ! ?b) s False s1" by simp
      then have g1: "gives_up g ?b (dist s) (dist s1)" and same: "pair_v s1 = pair_v s"
        by (simp_all add: dfs_result_def)
      have "u \<noteq> ?b" using db by (metis add_cancel_right_right zero_neq_one)
      then have u1: "dist s1 ! u = dist s ! u" using g1 db P(5) by (simp add: gives_up_def)
      have len1: "length (dist s1) = length g + 1" using g1 P(2) by (simp add: gives_up_def)
      obtain found s' where r: "dfs_edges fuel g u vs s1 = Some (found, s')" "dfs_result g u vs s1 found s'"
        using IH(3) [OF refl _ _ _ _ P(1) len1 near_gives_up [OF P(3) g1] _ P(5) _ _ v(3)] P(4,6,7) u1 same False f1 r1(1)
        by fastforce
      have "dfs_result g u (v # vs) s found s'"
        by (rule dfs_result_next [OF r1' refl bn r(2) P(5,6) db P(3,1,4)])
      with r(1) f1 False r1(1) show ?thesis by (simp add: Let_def)
    qed
  qed
qed

section \<open>A round\<close>

lemma match_one:
  assumes m: "matching g pu pv" and u: "u < length g" and v: "v < length g" "v \<in> set (g ! u)" "pv ! v = length g"
  shows "matching g (pu[u := v]) (if pu ! u = length g then pv[v := u] else pv[v := u, pu ! u := length g])"
    and "matched g (pu[u := v]) = insert u (matched g pu)"
proof -
  have len: "length pu = length g + 1" "length pv = length g + 1" using m by (simp_all add: matching_def)
  let ?pv = "if pu ! u = length g then pv[v := u] else pv[v := u, pu ! u := length g]"
  have w: "pu ! u < length g \<and> pv ! (pu ! u) = u \<and> pu ! u \<noteq> v" if "pu ! u \<noteq> length g"
    using matchingD(1) [OF m u that] v(3) u by auto
  have pv: "?pv ! x = (if x = v then u else if x = pu ! u then length g else pv ! x)" if "x < length g" for x
    using that w v len by auto
  have pu: "pu[u := v] ! x = (if x = u then v else pu ! x)" if "x < length g" for x
    using that len by (simp add: nth_list_update)
  show "matching g (pu[u := v]) ?pv"
    unfolding matching_def
  proof (intro conjI allI impI)
    show "length (pu[u := v]) = length g + 1" "length ?pv = length g + 1" using len by simp_all
    fix x assume x: "x < length g"
    show "pu[u := v] ! x = length g \<or> pu[u := v] ! x < length g \<and> pu[u := v] ! x \<in> set (g ! x) \<and> ?pv ! (pu[u := v] ! x) = x"
    proof (cases "x = u \<or> pu ! x = length g")
      case True
      with v u pu [OF x] pv [OF v(1)] show ?thesis by auto
    next
      case False
      then have xy: "pu ! x < length g" "pu ! x \<in> set (g ! x)" "pv ! (pu ! x) = x"
        using matchingD(1) [OF m x] by simp_all
      with False v(3) x have "pu ! x \<noteq> v" by auto
      moreover have "pu ! x \<noteq> pu ! u" using xy(1,3) w False by fastforce
      ultimately show ?thesis using xy pu [OF x] pv [OF xy(1)] False by simp
    qed
    show "?pv ! x = length g \<or> ?pv ! x < length g \<and> pu[u := v] ! (?pv ! x) = x"
    proof (cases "x = v \<or> x = pu ! u \<or> pv ! x = length g")
      case True
      with u pv [OF x] pu [OF u] show ?thesis by auto
    next
      case False
      then have xy: "pv ! x < length g" "pu ! (pv ! x) = x" using matchingD(2) [OF m x] by simp_all
      then have "pv ! x \<noteq> u" using False by auto
      with xy pu [OF xy(1)] pv [OF x] False show ?thesis by simp
    qed
  qed
  show "matched g (pu[u := v]) = insert u (matched g pu)"
    using pu u v by (auto simp: matched_def split: if_splits)
qed

lemma flip_path_ok:
  assumes "graph_ok g" and "matching g pu pv"
  shows "aug_path g pv d u vs \<Longrightarrow> u < length g \<Longrightarrow> flip_path pu pv u vs = (pu', pv') \<Longrightarrow>
    matching g pu' (if pu ! u = length g then pv' else pv'[pu ! u := length g]) \<and>
    matched g pu' = insert u (matched g pu) \<and> (\<forall>x<length g. d ! x < d ! u \<longrightarrow> pu' ! x = pu ! x)"
proof (induction vs arbitrary: u pu' pv')
  case Nil
  then show ?case by simp
next
  case (Cons v vs)
  let ?b = "pv ! v"
  have v: "v < length g" "v \<in> set (g ! u)" using Cons.prems assms(1) by (auto simp: graph_ok_def)
  have b: "?b \<le> length g" by (rule matching_le [OF assms(2) v(1)])
  have db: "d ! ?b = d ! u + 1" using Cons.prems(1) by simp
  obtain pu1 pv1 where f: "flip_path pu pv ?b vs = (pu1, pv1)" by fastforce
  have res: "pu' = pu1[u := v]" "pv' = pv1[v := u]" using Cons.prems(3) f by simp_all
  obtain pv2 where pv2: "matching g pu1 pv2" "pv2[v := u] = pv1[v := u]" "pv2 ! v = length g"
    and ms: "matched g pu1 = matched g pu" and keep: "\<forall>x<length g. d ! x < d ! ?b \<longrightarrow> pu1 ! x = pu ! x"
  proof (cases "?b = length g")
    case True
    with Cons.prems(1) have "vs = []" by (cases vs) simp_all
    with f have "pu1 = pu" "pv1 = pv" by simp_all
    with assms(2) True that [of pv] show ?thesis by simp
  next
    case False
    then have bn: "?b < length g" using b by simp
    have path: "aug_path g pv d ?b vs" using Cons.prems(1) by simp
    have pub: "pu ! ?b = v" using matchingD(2) [OF assms(2) v(1) False] by simp
    have bm: "?b \<in> matched g pu" using pub v(1) bn by (simp add: matched_def)
    from Cons.IH [OF path bn f] pub v(1) bm
    have ih: "matching g pu1 (pv1[v := length g])" "matched g pu1 = matched g pu"
      "\<forall>x<length g. d ! x < d ! ?b \<longrightarrow> pu1 ! x = pu ! x" by (simp_all add: insert_absorb)
    then have "length pv1 = length g + 1" by (simp add: matching_def)
    with that [OF ih(1)] ih v(1) show ?thesis by simp
  qed
  have pu1u: "pu1 ! u = pu ! u" using keep db Cons.prems(2) by simp
  note one = match_one [OF pv2(1) Cons.prems(2) v pv2(3)]
  have "matching g pu' (if pu ! u = length g then pv' else pv'[pu ! u := length g])"
    using one(1) unfolding pu1u pv2(2) res .
  moreover have "matched g pu' = insert u (matched g pu)" using one(2) ms res by simp
  moreover have "pu' ! x = pu ! x" if "x < length g" "d ! x < d ! u" for x
    using keep that db res by (cases "x = u") simp_all
  ultimately show ?case by blast
qed

lemma hk_phase_ok:
  assumes "graph_ok g"
  shows "distinct us \<Longrightarrow> set us \<subseteq> {..<length g} \<Longrightarrow> matching g (pair_u s) (pair_v s) \<Longrightarrow>
    length (dist s) = length g + 1 \<Longrightarrow> near g (dist s) \<Longrightarrow>
    \<forall>u\<in>set us. pair_u s ! u = length g \<longrightarrow> dist s ! u = 0 \<Longrightarrow>
    \<exists>s' k. hk_phase g us s k0 = Some (s', k0 + k) \<and> matching g (pair_u s') (pair_v s') \<and>
      card (matched g (pair_u s')) = card (matched g (pair_u s)) + k \<and>
      (k = 0 \<longrightarrow> pair_v s' = pair_v s \<and> (\<forall>w\<le>length g. dist s ! w = hk_inf \<longrightarrow> dist s' ! w = hk_inf) \<and>
        (\<forall>D. given_up_closed g (pair_v s) D (dist s) \<longrightarrow> given_up_closed g (pair_v s) D (dist s')) \<and>
        (\<forall>u\<in>set us. pair_u s ! u = length g \<longrightarrow> dist s' ! u = hk_inf))"
proof (induction us arbitrary: s k0)
  case Nil
  then show ?case by simp
next
  case (Cons u us)
  have u: "u < length g" "set us \<subseteq> {..<length g}" "distinct us" "u \<notin> set us" using Cons.prems by auto
  show ?case
  proof (cases "pair_u s ! u = length g")
    case False
    with Cons.IH [OF u(3,2) Cons.prems(3-5)] Cons.prems(6) show ?thesis by simp
  next
    case True
    have du: "dist s ! u = 0" using Cons.prems(6) True by simp
    have pv: "\<forall>v<length g. pair_v s ! v \<le> length g" using matching_le [OF Cons.prems(3)] by blast
    obtain found s1 where r: "dfs (length g + 2) g u s = Some (found, s1)" "dfs_result g u (g ! u) s found s1"
      using dfs_ok(1) [OF assms Cons.prems(4,5) pv less_imp_le [OF u(1)], of "length g + 2"] du u(1)
      by (auto simp: hk_inf_def)
    from r(2) have gu: "gives_up g u (dist s) (dist s1)" by (simp add: dfs_result_def)
    have s1: "length (dist s1) = length g + 1" "near g (dist s1)"
      using gu Cons.prems(4) near_gives_up [OF Cons.prems(5) gu] by (simp_all add: gives_up_def)
    have zero: "dist s1 ! x = 0" if "x \<in> set us" "dist s ! x = 0" for x
    proof -
      have "x \<le> length g" "x \<noteq> u" using that(1) u by auto
      with gu that(2) du show ?thesis by (simp add: gives_up_def)
    qed
    show ?thesis
    proof (cases found)
      case True': True
      then obtain vs where vs: "aug_path g (pair_v s) (dist s) u vs"
        "flip_path (pair_u s) (pair_v s) u vs = (pair_u s1, pair_v s1)" using r(2) by (auto simp: dfs_result_def)
      have m1: "matching g (pair_u s1) (pair_v s1)" "matched g (pair_u s1) = insert u (matched g (pair_u s))"
        using flip_path_ok [OF assms Cons.prems(3) vs(1) u(1) vs(2)] True by simp_all
      have "u \<notin> matched g (pair_u s)" using True by (simp add: matched_def)
      then have c1: "card (matched g (pair_u s1)) = card (matched g (pair_u s)) + 1" using m1(2) by simp
      have fr: "\<forall>x\<in>set us. pair_u s1 ! x = length g \<longrightarrow> dist s1 ! x = 0"
      proof (intro ballI impI)
        fix x assume x: "x \<in> set us" "pair_u s1 ! x = length g"
        then have "x \<notin> matched g (pair_u s1)" "x < length g" using u(2) by (auto simp: matched_def)
        then have "pair_u s ! x = length g" using m1(2) by (auto simp: matched_def)
        with Cons.prems(6) x(1) zero show "dist s1 ! x = 0" by simp
      qed
      from Cons.IH [OF u(3,2) m1(1) s1 fr, of "k0 + 1"] obtain s' k where
        "hk_phase g us s1 (k0 + 1) = Some (s', k0 + 1 + k)" "matching g (pair_u s') (pair_v s')"
        "card (matched g (pair_u s')) = card (matched g (pair_u s1)) + k" by blast
      with True True' r(1) c1 show ?thesis by (intro exI [of _ s'] exI [of _ "k + 1"]) simp
    next
      case False
      then have same: "pair_u s1 = pair_u s" "pair_v s1 = pair_v s" and inf: "dist s1 ! u = hk_inf"
        and cl: "\<And>D. given_up_closed g (pair_v s) D (dist s) \<Longrightarrow> given_up_closed g (pair_v s) D (dist s1)"
        using r(2) by (simp_all add: dfs_result_def)
      have more: "dist s1 ! w = hk_inf" if "w \<le> length g" "dist s ! w = hk_inf" for w
        using gu that unfolding gives_up_def by metis
      have fr: "\<forall>x\<in>set us. pair_u s1 ! x = length g \<longrightarrow> dist s1 ! x = 0"
        using Cons.prems(6) zero same by simp
      from Cons.prems(3) have m1: "matching g (pair_u s1) (pair_v s1)" by (simp add: same)
      from Cons.IH [OF u(3,2) m1 s1 fr, of k0] obtain s' k where
        "hk_phase g us s1 k0 = Some (s', k0 + k)" "matching g (pair_u s') (pair_v s')"
        "card (matched g (pair_u s')) = card (matched g (pair_u s)) + k"
        and z: "k = 0 \<longrightarrow> pair_v s' = pair_v s \<and> (\<forall>w\<le>length g. dist s1 ! w = hk_inf \<longrightarrow> dist s' ! w = hk_inf) \<and>
          (\<forall>D. given_up_closed g (pair_v s) D (dist s1) \<longrightarrow> given_up_closed g (pair_v s) D (dist s')) \<and>
          (\<forall>u\<in>set us. pair_u s ! u = length g \<longrightarrow> dist s' ! u = hk_inf)"
        unfolding same by blast
      moreover have "k = 0 \<longrightarrow> pair_v s' = pair_v s \<and> (\<forall>w\<le>length g. dist s ! w = hk_inf \<longrightarrow> dist s' ! w = hk_inf) \<and>
          (\<forall>D. given_up_closed g (pair_v s) D (dist s) \<longrightarrow> given_up_closed g (pair_v s) D (dist s')) \<and>
          (\<forall>u\<in>set (u # us). pair_u s ! u = length g \<longrightarrow> dist s' ! u = hk_inf)"
        using z cl more inf u(1) by simp
      ultimately show ?thesis using True False r(1) by (intro exI [of _ s'] exI [of _ k]) simp
    qed
  qed
qed

lemma hk_phase_progress:
  assumes g: "graph_ok g" and m: "matching g (pair_u s) (pair_v s)"
    and lv: "levels g (pair_v s) (free_nodes g (pair_u s)) (dist s)" and nr: "near g (dist s)"
    and go: "dist s ! length g \<noteq> hk_inf"
  shows "\<exists>s' k. hk_phase g [0..<length g] s k0 = Some (s', k0 + k) \<and> matching g (pair_u s') (pair_v s') \<and>
      card (matched g (pair_u s')) = card (matched g (pair_u s)) + k \<and> 0 < k"
proof -
  have len: "length (dist s) = length g + 1" using lv by (simp add: levels_def)
  have fr: "\<forall>u\<in>set [0..<length g]. pair_u s ! u = length g \<longrightarrow> dist s ! u = 0"
    using lv by (simp add: levels_def free_nodes_def)
  have all_below: "set [0..<length g] \<subseteq> {..<length g}" by auto
  obtain s' k where r: "hk_phase g [0..<length g] s k0 = Some (s', k0 + k)" "matching g (pair_u s') (pair_v s')"
    "card (matched g (pair_u s')) = card (matched g (pair_u s)) + k"
    and z: "k = 0 \<Longrightarrow> (\<forall>D. given_up_closed g (pair_v s) D (dist s) \<longrightarrow> given_up_closed g (pair_v s) D (dist s')) \<and>
        (\<forall>u\<in>set [0..<length g]. pair_u s ! u = length g \<longrightarrow> dist s' ! u = hk_inf)"
    using hk_phase_ok [OF g distinct_upt all_below m len nr fr, of k0] by auto
  have "0 < k"
  proof (rule ccontr)
    assume "\<not> 0 < k"
    then have k: "k = 0" by simp
    have "given_up_closed g (pair_v s) (dist s) (dist s)" by (simp add: given_up_closed_def)
    with z [OF k] have cl: "given_up_closed g (pair_v s) (dist s) (dist s')" by blast
    have roots: "dist s' ! u = hk_inf" if "u \<in> free_nodes g (pair_u s)" for u
      using that z [OF k] by (simp add: free_nodes_def)
    have all: "w \<le> length g \<Longrightarrow> dist s ! w = int j \<Longrightarrow> dist s ! w \<noteq> hk_inf \<Longrightarrow> dist s' ! w = hk_inf" for j w
    proof (induction j arbitrary: w)
      case 0
      with levelsD(2) [OF lv] roots show ?case by simp
    next
      case (Suc j)
      then obtain x v where x: "x < length g" "dist s ! x = int j" "v \<in> set (g ! x)" "pair_v s ! v = w"
        using levelsD(3) [OF lv Suc.prems(1,3)] by auto
      have fin: "dist s ! x \<noteq> hk_inf"
        using x(2) Suc.prems nearD [OF nr Suc.prems(1,3)] g by (simp add: hk_inf_def graph_ok_def)
      then have "dist s' ! x = hk_inf" using Suc.IH [of x] x by simp
      with cl x fin Suc.prems(2) show ?case by (auto simp: given_up_closed_def)
    qed
    obtain j where "dist s ! length g = int j"
      using levelsD(1) [OF lv order.refl go] nonneg_int_cases by blast
    with all [OF order.refl this go] cl go show False by (simp add: given_up_closed_def)
  qed
  with r show ?thesis by blast
qed

section \<open>The answer\<close>

text \<open>When the dummy is not reached, a node without partner shows that not all can be matched.\<close>

lemma matched_all:
  assumes g: "graph_ok g" and m: "matching g pu pv" and lv: "levels g pv (free_nodes g pu) d"
    and ex: "explored g pv {} d" and stop: "d ! length g = hk_inf"
  shows "card (matched g pu) = length g \<longleftrightarrow> can_match_all g"
proof
  assume "card (matched g pu) = length g"
  then have "free_nodes g pu = {}" using card_matched [of g pu] by simp
  then have all: "pu ! u \<noteq> length g" if "u < length g" for u using that by (auto simp: free_nodes_def)
  show "can_match_all g"
    unfolding can_match_all_def
  proof (intro exI conjI allI impI)
    show "inj_on (\<lambda>u. pu ! u) {..<length g}"
    proof (rule inj_onI)
      fix x y assume "x \<in> {..<length g}" "y \<in> {..<length g}" "pu ! x = pu ! y"
      then show "x = y" using matchingD(1) [OF m _ all] by (metis lessThan_iff)
    qed
    show "pu ! u \<in> set (g ! u)" if "u < length g" for u using matchingD(1) [OF m that all [OF that]] by simp
  qed
next
  assume "can_match_all g"
  then obtain f where f: "inj_on f {..<length g}" "\<And>u. u < length g \<Longrightarrow> f u \<in> set (g ! u)"
    by (auto simp: can_match_all_def)
  define R where "R = {u. u < length g \<and> d ! u \<noteq> hk_inf}"
  have fl: "f u < length g" if "u < length g" for u using f(2) [OF that] g that by (auto simp: graph_ok_def)
  have partner: "pv ! f u \<in> R \<and> pu ! (pv ! f u) = f u" if "u \<in> R" for u
  proof -
    have u: "u < length g" "d ! u \<noteq> hk_inf" using that by (simp_all add: R_def)
    with ex stop f(2) have fin: "d ! (pv ! f u) \<noteq> hk_inf" by (simp add: explored_def)
    with stop have "pv ! f u \<noteq> length g" by auto
    with matchingD(2) [OF m fl [OF u(1)]] fin show ?thesis by (simp add: R_def)
  qed
  have "inj_on (\<lambda>u. pv ! f u) R"
  proof (rule inj_onI)
    fix x y assume xy: "x \<in> R" "y \<in> R" "pv ! f x = pv ! f y"
    then have "f x = f y" using partner by metis
    with f(1) xy show "x = y" by (auto simp: inj_on_def R_def)
  qed
  moreover have "(\<lambda>u. pv ! f u) ` R \<subseteq> R" using partner by blast
  moreover have "finite R" by (simp add: R_def)
  ultimately have onto: "(\<lambda>u. pv ! f u) ` R = R" by (simp add: endo_inj_surj)
  have "free_nodes g pu = {}"
  proof (rule ccontr)
    assume "free_nodes g pu \<noteq> {}"
    then obtain u where u: "u < length g" "pu ! u = length g" "u \<in> free_nodes g pu"
      by (auto simp: free_nodes_def)
    then have "d ! u = 0" using lv by (simp add: levels_def)
    then have "u \<in> R" using u by (simp add: R_def hk_inf_def)
    then obtain x where "x \<in> R" "u = pv ! f x" using onto by blast
    with partner fl have "pu ! u < length g" by (auto simp: R_def)
    with u show False by simp
  qed
  with card_matched [of g pu] show "card (matched g pu) = length g" by simp
qed

lemma hk_rounds_ok:
  assumes g: "graph_ok g"
  shows "matching g (pair_u s) (pair_v s) \<Longrightarrow> length g - card (matched g (pair_u s)) < fuel \<Longrightarrow>
    \<exists>k. hk_rounds fuel g s (card (matched g (pair_u s))) = Some k \<and> (k = length g \<longleftrightarrow> can_match_all g)"
proof (induction fuel arbitrary: s)
  case 0
  then show ?case by simp
next
  case (Suc fuel)
  obtain d where d: "do_bfs g s = Some (d ! length g \<noteq> hk_inf, s\<lparr>dist := d\<rparr>)"
    "levels g (pair_v s) (free_nodes g (pair_u s)) d" "near g d" "explored g (pair_v s) {} d"
    using do_bfs_ok [OF g Suc.prems(1)] by blast
  show ?case
  proof (cases "d ! length g = hk_inf")
    case True
    with d matched_all [OF g Suc.prems(1) d(2,4) True] show ?thesis by simp
  next
    case False
    let ?s = "s\<lparr>dist := d\<rparr>"
    obtain s' k where r: "hk_phase g [0..<length g] ?s (card (matched g (pair_u s))) = Some (s', card (matched g (pair_u s)) + k)"
      "matching g (pair_u s') (pair_v s')" "card (matched g (pair_u s')) = card (matched g (pair_u s)) + k" "0 < k"
      using hk_phase_progress [OF g, of ?s "card (matched g (pair_u s))"] Suc.prems(1) d(2,3) False by auto
    have "card (matched g (pair_u s')) \<le> length g" using card_matched [of g "pair_u s'"] by simp
    with r(3,4) Suc.prems(2) have "length g - card (matched g (pair_u s')) < fuel" by linarith
    from Suc.IH [OF r(2) this] r(1,3) d(1) False show ?thesis by simp
  qed
qed

lemma hopcroft_karp_run:
  assumes "graph_ok g"
  shows "hopcroft_karp_can_match_all g = Some (can_match_all g)"
proof -
  let ?n = "length g"
  have m: "matching g (pair_u (hk_start ?n)) (pair_v (hk_start ?n))"
    by (auto simp: matching_def hk_start_def simp del: replicate_Suc)
  have "matched g (pair_u (hk_start ?n)) = {}" by (auto simp: matched_def hk_start_def simp del: replicate_Suc)
  then have c: "card (matched g (pair_u (hk_start ?n))) = 0" by simp
  then have "?n - card (matched g (pair_u (hk_start ?n))) < ?n + 1" by simp
  from hk_rounds_ok [OF assms m this] c show ?thesis by (auto simp: hopcroft_karp_can_match_all_def)
qed

text \<open>
  C20.  \<open>hopcroft_karp_can_match_all\<close> ends and says whether every node of one side can be given
  a neighbour of its own: after as many rounds as there are nodes no augmenting path is left,
  and then the nodes the last search reached have too few neighbours, unless all are matched.
\<close>

theorem hopcroft_karp_correct:
  assumes "graph_ok g"
  shows "hopcroft_karp_can_match_all g = Some (can_match_all g)"
  using assms by (rule hopcroft_karp_run)

theorem hopcroft_karp_correct_witness:
  "can_match_all [[0, 1], [0], [1, 2]] \<and> \<not> can_match_all [[0, 1], [0, 1], [1, 0]]"
proof -
  have a: "graph_ok [[0, 1], [0], [1, 2]]" and b: "graph_ok [[0, 1], [0, 1], [1, 0]]"
    by (auto simp: graph_ok_def nth_Cons less_Suc_eq split: nat.splits)
  have "hopcroft_karp_can_match_all [[0, 1], [0], [1, 2]] = Some True"
    "hopcroft_karp_can_match_all [[0, 1], [0, 1], [1, 0]] = Some False" by code_simp+
  with hopcroft_karp_correct [OF a] hopcroft_karp_correct [OF b] show ?thesis by simp
qed

end
