(* ===== verification/CraftDef.thy ===== *)
theory CraftDef
  imports ItemStack Matching "HOL-Library.List_Lexorder"
begin

text \<open>
  The recipes: the classes of \<open>src/craftdef.h\<close> and \<open>src/craftdef.cpp\<close>.  A recipe is a
  \<open>CraftDefinition\<close>, whose class and constructor arguments are its \<open>cd_class\<close>; the manager
  refers to recipes by pointer, here by number.

  Strings are ordered bytewise, as \<open>std::sort\<close> orders them (\<open>List_Lexorder\<close>).  Times and wear
  are \<open>float\<close> in the code and rational numbers here; the only computation with one of them,
  \<open>floor(additional_wear * 65536 + 0.5)\<close>, loses nothing to rounding for a \<open>float\<close> in the range
  the header allows, from -1 to 1.

  \<open>stale\<close> and \<open>ord\<close> are those of the item strings (theory \<open>ItemStack\<close>): what uninitialised
  variables hold and how hash tables are walked.
\<close>

section \<open>Inputs, outputs and recipes\<close>

datatype CraftMethod = CRAFT_METHOD_NORMAL | CRAFT_METHOD_COOKING | CRAFT_METHOD_FUEL

datatype CraftHashType = CRAFT_HASH_TYPE_ITEM_NAMES | CRAFT_HASH_TYPE_COUNT | CRAFT_HASH_TYPE_UNHASHED

datatype RecipePriority = PRIORITY_NO_RECIPE | PRIORITY_TOOLREPAIR | PRIORITY_SHAPELESS_AND_GROUPS
  | PRIORITY_SHAPELESS | PRIORITY_SHAPED_AND_GROUPS | PRIORITY_SHAPED

text \<open>The enumeration is ordered as its values are.\<close>

fun priority_value :: "RecipePriority \<Rightarrow> nat" where
  "priority_value PRIORITY_NO_RECIPE = 0"
| "priority_value PRIORITY_TOOLREPAIR = 1"
| "priority_value PRIORITY_SHAPELESS_AND_GROUPS = 2"
| "priority_value PRIORITY_SHAPELESS = 3"
| "priority_value PRIORITY_SHAPED_AND_GROUPS = 4"
| "priority_value PRIORITY_SHAPED = 5"

lemma priority_value_inject [simp]: "priority_value p = priority_value q \<longleftrightarrow> p = q"
  by (cases p; cases q) simp_all

instantiation RecipePriority :: linorder
begin

definition less_eq_RecipePriority :: "RecipePriority \<Rightarrow> RecipePriority \<Rightarrow> bool" where
  "p \<le> q \<longleftrightarrow> priority_value p \<le> priority_value q"

definition less_RecipePriority :: "RecipePriority \<Rightarrow> RecipePriority \<Rightarrow> bool" where
  "p < q \<longleftrightarrow> priority_value p < priority_value q"

instance
  by standard (auto simp: less_eq_RecipePriority_def less_RecipePriority_def)

end

lemma no_recipe_least [simp]: "PRIORITY_NO_RECIPE \<le> p" "\<not> p < PRIORITY_NO_RECIPE"
  by (simp_all add: less_eq_RecipePriority_def less_RecipePriority_def)

lemma no_recipe_less [simp]: "PRIORITY_NO_RECIPE < p \<longleftrightarrow> p \<noteq> PRIORITY_NO_RECIPE"
  by (cases p) (simp_all add: less_RecipePriority_def)

record CraftInput =
  ci_method :: CraftMethod
  ci_width :: u32
  ci_items :: "ItemStack list"

definition new_CraftInput :: CraftInput where
  "new_CraftInput = \<lparr>ci_method = CRAFT_METHOD_NORMAL, ci_width = 0, ci_items = []\<rparr>"

definition ci_empty :: "CraftInput \<Rightarrow> bool" where
  "ci_empty inp \<longleftrightarrow> list_all st_empty (ci_items inp)"

record CraftOutput =
  co_item :: bytes
  co_time :: rat

type_synonym CraftReplacements = "(bytes \<times> bytes) list"

datatype craft_class =
    CraftDefinitionShaped bytes u32 "bytes list" CraftReplacements
  | CraftDefinitionShapeless bytes "bytes list" CraftReplacements
  | CraftDefinitionToolRepair rat
  | CraftDefinitionCooking bytes bytes rat CraftReplacements
  | CraftDefinitionFuel bytes rat CraftReplacements

text \<open>
  \<open>cd_recipe_names\<close> is \<open>recipe_names\<close> of the first two classes, \<open>cd_recipe_name\<close> the
  \<open>recipe_name\<close> of the last two.  \<open>hash_type\<close> is not set before \<open>initHash\<close> and not read.
\<close>

record CraftDefinition =
  cd_class :: craft_class
  cd_priority :: RecipePriority
  cd_hash_type :: CraftHashType
  cd_hash_inited :: bool
  cd_recipe_names :: "bytes list"
  cd_recipe_name :: bytes

section \<open>Names and groups\<close>

definition isGroupRecipeStr :: "bytes \<Rightarrow> bool" where
  "isGroupRecipeStr rec_name \<longleftrightarrow> str_starts_with rec_name (lit ''group:'') False"

definition hasGroupItem :: "bytes list \<Rightarrow> bool" where
  "hasGroupItem recipe \<longleftrightarrow> list_ex isGroupRecipeStr recipe"

lemma strfnd_next_rest: "snd (strfnd_next sep s) \<noteq> [] \<Longrightarrow> length (snd (strfnd_next sep s)) < length s"
  using strfnd_next_less [of s sep] by (cases s) (simp_all add: strfnd_next_def)

text \<open>The loop over the groups: the first name is read in any case.\<close>

function in_all_groups :: "(bytes, int) fmap \<Rightarrow> bytes \<Rightarrow> bool" where
  "in_all_groups groups f =
     (let (check_group, rest) = strfnd_next COMMA f in
      if itemgroup_get groups check_group = 0 then False
      else if rest = [] then True else in_all_groups groups rest)"
  by pat_completeness auto

termination
proof (relation "measure (length \<circ> snd)")
  show "wf (measure (length \<circ> snd))" by simp
qed (use strfnd_next_rest in \<open>metis comp_apply in_measure snd_conv\<close>)

declare in_all_groups.simps [simp del]

definition inputItemMatchesRecipe :: "bytes \<Rightarrow> bytes \<Rightarrow> IItemDefManager \<Rightarrow> bool" where
  "inputItemMatchesRecipe inp_name rec_name idef \<longleftrightarrow>
     inp_name = rec_name \<or>
     isGroupRecipeStr rec_name \<and> idef_isKnown idef inp_name \<and>
       in_all_groups (def_groups (idef_get idef inp_name)) (drop 6 rec_name)"

definition craftGetItemName :: "u16 \<Rightarrow> bytes \<Rightarrow> IItemDefManager \<Rightarrow> ser_error + bytes" where
  "craftGetItemName stale itemstring idef =
     bind_ok (st_deSerialize stale (Some idef) (itemstring, True)) (\<lambda>item. Inr (st_name item))"

fun craftGetItemNames :: "u16 \<Rightarrow> bytes list \<Rightarrow> IItemDefManager \<Rightarrow> ser_error + bytes list" where
  "craftGetItemNames stale [] idef = Inr []"
| "craftGetItemNames stale (s # ss) idef =
     bind_ok (craftGetItemName stale s idef) (\<lambda>n.
     bind_ok (craftGetItemNames stale ss idef) (\<lambda>ns. Inr (n # ns)))"

definition stackNames :: "ItemStack list \<Rightarrow> bytes list" where
  "stackNames stacks = map st_name stacks"

definition craftGetItems :: "bytes list \<Rightarrow> IItemDefManager \<Rightarrow> ItemStack list" where
  "craftGetItems names idef = map (\<lambda>item. new_ItemStack item 1 0 idef) names"

section \<open>The grid\<close>

text \<open>
  \<open>craftGetBounds\<close> walks the matrix with the coordinates \<open>x\<close>, \<open>y\<close> and keeps the bounds
  \<open>(min_x, max_x, min_y, max_y)\<close> of what is not empty.  Coordinates are \<open>unsigned int\<close> in the
  code and stay below the length of the list.
\<close>

type_synonym bounds = "nat \<times> nat \<times> nat \<times> nat"

fun widen :: "nat \<Rightarrow> nat \<Rightarrow> bounds option \<Rightarrow> bounds" where
  "widen x y None = (x, x, y, y)"
| "widen x y (Some (min_x, max_x, min_y, max_y)) =
     (if x < min_x then x else min_x, if x > max_x then x else max_x,
      if y < min_y then y else min_y, if y > max_y then y else max_y)"

fun bounds_loop :: "nat \<Rightarrow> bytes list \<Rightarrow> nat \<Rightarrow> nat \<Rightarrow> bounds option \<Rightarrow> bounds option" where
  "bounds_loop width [] x y b = b"
| "bounds_loop width (item # names) x y b =
     (let b = (if item \<noteq> [] then Some (widen x y b) else b);
          x = x + 1;
          (x, y) = (if x = width then (0, y + 1) else (x, y)) in
      bounds_loop width names x y b)"

definition craftGetBounds :: "bytes list \<Rightarrow> nat \<Rightarrow> bounds option" where
  "craftGetBounds names width = bounds_loop width names 0 0 None"

lemma pad_rows_less: "0 < width \<Longrightarrow> width - Suc (n mod width) < width - n mod width" for n :: nat
  using mod_less_divisor [of width n] by linarith

text \<open>The loop that adds empty names until the rows are full; the callers exclude the width 0.\<close>

function pad_rows :: "nat \<Rightarrow> bytes list \<Rightarrow> bytes list" where
  "pad_rows width names =
     (if width = 0 \<or> length names mod width = 0 then names else pad_rows width (names @ [[]]))"
  by pat_completeness auto

termination
  by (relation "measure (\<lambda>(width, names). if length names mod width = 0 then 0 else width - length names mod width)")
    (auto simp: mod_Suc pad_rows_less)

declare pad_rows.simps [simp del]

section \<open>Taking the input away\<close>

definition craftDecrementInput :: "CraftInput \<Rightarrow> CraftInput" where
  "craftDecrementInput inp =
     inp\<lparr>ci_items := map (\<lambda>item. if st_count item \<noteq> 0 then st_remove 1 item else item) (ci_items inp)\<rparr>"

text \<open>
  \<open>ItemStack::remove\<close> asserts that the count is at least 1; an item that is taken to match a
  replacement although it is empty would violate that, and without assertions its count wraps.

  The first pair whose name the item matches, and the pairs without it.\<close>

fun find_replacement :: "bytes \<Rightarrow> CraftReplacements \<Rightarrow> IItemDefManager \<Rightarrow> (bytes \<times> CraftReplacements) option" where
  "find_replacement name [] idef = None"
| "find_replacement name (j # pairs) idef =
     (if inputItemMatchesRecipe name (fst j) idef then Some (snd j, pairs)
      else map_option (\<lambda>(r, ps). (r, j # ps)) (find_replacement name pairs idef))"

fun replace_loop :: "u16 \<Rightarrow> IItemDefManager \<Rightarrow> CraftReplacements \<Rightarrow> ItemStack list \<Rightarrow> ItemStack list \<Rightarrow>
    ser_error + ItemStack list \<times> ItemStack list" where
  "replace_loop stale idef pairs [] output_replacements = Inr ([], output_replacements)"
| "replace_loop stale idef pairs (item # stacks) output_replacements =
     bind_ok
      (case find_replacement (st_name item) pairs idef of
         Some (r, pairs) \<Rightarrow>
           bind_ok (st_deSerialize stale (Some idef) (r, True)) (\<lambda>rep.
             if st_count item = 1 then Inr (rep, pairs, output_replacements)
             else Inr (st_remove 1 item, pairs, output_replacements @ [rep]))
       | None \<Rightarrow>
           Inr (if st_count item > 0 then st_remove 1 item else item, pairs, output_replacements))
      (\<lambda>(item, pairs, output_replacements).
        bind_ok (replace_loop stale idef pairs stacks output_replacements) (\<lambda>(stacks, output_replacements).
          Inr (item # stacks, output_replacements)))"

definition craftDecrementOrReplaceInput ::
  "u16 \<Rightarrow> IItemDefManager \<Rightarrow> CraftReplacements \<Rightarrow> CraftInput \<Rightarrow> ItemStack list \<Rightarrow>
   ser_error + CraftInput \<times> ItemStack list" where
  "craftDecrementOrReplaceInput stale idef replacements inp output_replacements =
     (if replacements = [] then Inr (craftDecrementInput inp, output_replacements)
      else bind_ok (replace_loop stale idef replacements (ci_items inp) output_replacements)
        (\<lambda>(stacks, output_replacements). Inr (inp\<lparr>ci_items := stacks\<rparr>, output_replacements)))"

section \<open>Hashes\<close>

text \<open>\<open>murmur_hash_64_ua\<close> (\<open>src/util/numeric.cpp\<close>); \<open>load_u64\<close> is the \<open>memcpy\<close> on a little endian machine.\<close>

definition load_u64 :: "bytes \<Rightarrow> u64" where
  "load_u64 bs = foldr (\<lambda>b w. push_bit 8 w OR ucast b) bs 0"

definition murmur_m :: u64 where
  "murmur_m = 0xc6a4a7935bd1e995"

fun murmur_words :: "nat \<Rightarrow> bytes \<Rightarrow> u64 \<Rightarrow> u64" where
  "murmur_words 0 key h = h"
| "murmur_words (Suc n) key h =
     (let k = load_u64 (take 8 key) * murmur_m;
          k = k XOR drop_bit 47 k;
          k = k * murmur_m in
      murmur_words n (drop 8 key) ((h XOR k) * murmur_m))"

definition murmur_hash_64_ua :: "bytes \<Rightarrow> u32 \<Rightarrow> u64" where
  "murmur_hash_64_ua key seed =
     (let h = ucast seed XOR (of_nat (length key) * murmur_m);
          h = murmur_words (length key div 8) key h;
          rest = drop (8 * (length key div 8)) key;
          h = (if rest = [] then h else (h XOR load_u64 rest) * murmur_m);
          h = (h XOR drop_bit 47 h) * murmur_m in
      h XOR drop_bit 47 h)"

definition getHashForString :: "bytes \<Rightarrow> u64" where
  "getHashForString recipe_str = murmur_hash_64_ua recipe_str 0xdeadbeef"

fun getHashForGrid :: "CraftHashType \<Rightarrow> bytes list \<Rightarrow> u64" where
  "getHashForGrid CRAFT_HASH_TYPE_ITEM_NAMES grid_names =
     getHashForString (str_join (filter (\<lambda>n. n \<noteq> []) grid_names) [NEWLINE])"
| "getHashForGrid CRAFT_HASH_TYPE_COUNT grid_names = of_nat (length (filter (\<lambda>n. n \<noteq> []) grid_names))"
| "getHashForGrid CRAFT_HASH_TYPE_UNHASHED grid_names = 0"

section \<open>The classes of recipes\<close>

text \<open>
  The constructors: what priority they give.  That of \<open>CraftDefinitionFuel\<close> looks at
  \<open>recipe_name\<close>, which is still empty, and not at \<open>recipe\<close>.
\<close>

definition shaped_priority :: "bytes list \<Rightarrow> RecipePriority" where
  "shaped_priority recipe = (if hasGroupItem recipe then PRIORITY_SHAPED_AND_GROUPS else PRIORITY_SHAPED)"

definition shapeless_priority :: "bytes list \<Rightarrow> RecipePriority" where
  "shapeless_priority recipe = (if hasGroupItem recipe then PRIORITY_SHAPELESS_AND_GROUPS else PRIORITY_SHAPELESS)"

definition cooking_priority :: "bytes \<Rightarrow> RecipePriority" where
  "cooking_priority recipe = (if isGroupRecipeStr recipe then PRIORITY_SHAPELESS_AND_GROUPS else PRIORITY_SHAPELESS)"

definition fuel_priority :: "bytes \<Rightarrow> RecipePriority" where
  "fuel_priority recipe_name =
     (if isGroupRecipeStr recipe_name then PRIORITY_SHAPELESS_AND_GROUPS else PRIORITY_SHAPELESS)"

definition new_CraftDefinition :: "craft_class \<Rightarrow> CraftDefinition" where
  "new_CraftDefinition c =
     \<lparr>cd_class = c,
      cd_priority =
        (case c of
           CraftDefinitionShaped out width recipe replacements \<Rightarrow> shaped_priority recipe
         | CraftDefinitionShapeless out recipe replacements \<Rightarrow> shapeless_priority recipe
         | CraftDefinitionToolRepair additional_wear \<Rightarrow> PRIORITY_TOOLREPAIR
         | CraftDefinitionCooking out recipe cooktime replacements \<Rightarrow> cooking_priority recipe
         | CraftDefinitionFuel recipe burntime replacements \<Rightarrow> fuel_priority []),
      cd_hash_type = CRAFT_HASH_TYPE_UNHASHED, cd_hash_inited = False,
      cd_recipe_names = [], cd_recipe_name = []\<rparr>"

lemmas priority_defs = shaped_priority_def shapeless_priority_def cooking_priority_def fuel_priority_def

definition shaped_initHash :: "u16 \<Rightarrow> IItemDefManager \<Rightarrow> bytes list \<Rightarrow> CraftDefinition \<Rightarrow> ser_error + CraftDefinition" where
  "shaped_initHash stale idef recipe d =
     (if cd_hash_inited d then Inr d
      else bind_ok (craftGetItemNames stale recipe idef) (\<lambda>names.
        Inr (d\<lparr>cd_hash_inited := True, cd_recipe_names := names,
          cd_hash_type := (if hasGroupItem names then CRAFT_HASH_TYPE_COUNT else CRAFT_HASH_TYPE_ITEM_NAMES)\<rparr>)))"

definition shapeless_initHash :: "u16 \<Rightarrow> IItemDefManager \<Rightarrow> bytes list \<Rightarrow> CraftDefinition \<Rightarrow> ser_error + CraftDefinition" where
  "shapeless_initHash stale idef recipe d =
     (if cd_hash_inited d then Inr d
      else bind_ok (craftGetItemNames stale recipe idef) (\<lambda>names.
        Inr (d\<lparr>cd_hash_inited := True, cd_recipe_names := sort names,
          cd_hash_type := (if hasGroupItem (sort names) then CRAFT_HASH_TYPE_COUNT else CRAFT_HASH_TYPE_ITEM_NAMES)\<rparr>)))"

definition cooking_initHash :: "u16 \<Rightarrow> IItemDefManager \<Rightarrow> bytes \<Rightarrow> CraftDefinition \<Rightarrow> ser_error + CraftDefinition" where
  "cooking_initHash stale idef recipe d =
     (if cd_hash_inited d then Inr d
      else bind_ok (craftGetItemName stale recipe idef) (\<lambda>name.
        Inr (d\<lparr>cd_hash_inited := True, cd_recipe_name := name,
          cd_hash_type := (if isGroupRecipeStr name then CRAFT_HASH_TYPE_COUNT else CRAFT_HASH_TYPE_ITEM_NAMES)\<rparr>)))"

definition fuel_initHash :: "u16 \<Rightarrow> IItemDefManager \<Rightarrow> bytes \<Rightarrow> CraftDefinition \<Rightarrow> ser_error + CraftDefinition" where
  "fuel_initHash stale idef recipe d =
     (if cd_hash_inited d then Inr d
      else bind_ok (craftGetItemName stale recipe idef) (\<lambda>name.
        Inr (d\<lparr>cd_hash_inited := True, cd_recipe_name := name,
          cd_hash_type := (if isGroupRecipeStr name then CRAFT_HASH_TYPE_COUNT else CRAFT_HASH_TYPE_ITEM_NAMES)\<rparr>)))"

definition toolrepair_initHash :: "CraftDefinition \<Rightarrow> CraftDefinition" where
  "toolrepair_initHash d = d\<lparr>cd_hash_type := CRAFT_HASH_TYPE_COUNT\<rparr>"

definition initHash :: "u16 \<Rightarrow> IItemDefManager \<Rightarrow> CraftDefinition \<Rightarrow> ser_error + CraftDefinition" where
  "initHash stale idef d =
     (case cd_class d of
        CraftDefinitionShaped out width recipe replacements \<Rightarrow> shaped_initHash stale idef recipe d
      | CraftDefinitionShapeless out recipe replacements \<Rightarrow> shapeless_initHash stale idef recipe d
      | CraftDefinitionToolRepair additional_wear \<Rightarrow> Inr (toolrepair_initHash d)
      | CraftDefinitionCooking out recipe cooktime replacements \<Rightarrow> cooking_initHash stale idef recipe d
      | CraftDefinitionFuel recipe burntime replacements \<Rightarrow> fuel_initHash stale idef recipe d)"

lemmas initHash_defs = initHash_def shaped_initHash_def shapeless_initHash_def toolrepair_initHash_def
  cooking_initHash_def fuel_initHash_def

text \<open>\<open>getHash\<close>; the preconditions (\<open>hash_inited\<close>, a type the class has) are assertions in the code.\<close>

definition shaped_getHash :: "CraftDefinition \<Rightarrow> CraftHashType \<Rightarrow> u64" where
  "shaped_getHash d type = getHashForGrid type (sort (cd_recipe_names d))"

definition shapeless_getHash :: "CraftDefinition \<Rightarrow> CraftHashType \<Rightarrow> u64" where
  "shapeless_getHash d type = getHashForGrid type (cd_recipe_names d)"

definition toolrepair_getHash :: "CraftHashType \<Rightarrow> u64" where
  "toolrepair_getHash type = 2"

definition cooking_getHash :: "CraftDefinition \<Rightarrow> CraftHashType \<Rightarrow> u64" where
  "cooking_getHash d type =
     (case type of
        CRAFT_HASH_TYPE_ITEM_NAMES \<Rightarrow> getHashForString (cd_recipe_name d)
      | CRAFT_HASH_TYPE_COUNT \<Rightarrow> 1
      | CRAFT_HASH_TYPE_UNHASHED \<Rightarrow> 0)"

definition fuel_getHash :: "CraftDefinition \<Rightarrow> CraftHashType \<Rightarrow> u64" where
  "fuel_getHash d type =
     (case type of
        CRAFT_HASH_TYPE_ITEM_NAMES \<Rightarrow> getHashForString (cd_recipe_name d)
      | CRAFT_HASH_TYPE_COUNT \<Rightarrow> 1
      | CRAFT_HASH_TYPE_UNHASHED \<Rightarrow> 0)"

definition getHash :: "CraftDefinition \<Rightarrow> CraftHashType \<Rightarrow> u64" where
  "getHash d type =
     (case cd_class d of
        CraftDefinitionShaped out width recipe replacements \<Rightarrow> shaped_getHash d type
      | CraftDefinitionShapeless out recipe replacements \<Rightarrow> shapeless_getHash d type
      | CraftDefinitionToolRepair additional_wear \<Rightarrow> toolrepair_getHash type
      | CraftDefinitionCooking out recipe cooktime replacements \<Rightarrow> cooking_getHash d type
      | CraftDefinitionFuel recipe burntime replacements \<Rightarrow> fuel_getHash d type)"

lemmas getHash_defs = getHash_def shaped_getHash_def shapeless_getHash_def toolrepair_getHash_def
  cooking_getHash_def fuel_getHash_def

subsection \<open>Shaped\<close>

fun box_matches :: "(nat \<Rightarrow> nat \<Rightarrow> bool) \<Rightarrow> nat \<Rightarrow> nat \<Rightarrow> bool" where
  "box_matches cell_matches w h = list_all (\<lambda>y. list_all (\<lambda>x. cell_matches x y) [0..<w]) [0..<h]"

definition shaped_check :: "IItemDefManager \<Rightarrow> bytes list \<Rightarrow> nat \<Rightarrow> bytes list \<Rightarrow> nat \<Rightarrow> bool" where
  "shaped_check idef inp_names inp_width rec_names rec_width =
     (if inp_width = 0 then False
      else
        let inp_names = pad_rows inp_width inp_names in
        case craftGetBounds inp_names inp_width of
          None \<Rightarrow> False
        | Some (inp_min_x, inp_max_x, inp_min_y, inp_max_y) \<Rightarrow>
            if rec_width = 0 then False
            else
              let rec_names = pad_rows rec_width rec_names in
              case craftGetBounds rec_names rec_width of
                None \<Rightarrow> False
              | Some (rec_min_x, rec_max_x, rec_min_y, rec_max_y) \<Rightarrow>
                  if inp_max_x - inp_min_x \<noteq> rec_max_x - rec_min_x \<or>
                     inp_max_y - inp_min_y \<noteq> rec_max_y - rec_min_y
                  then False
                  else
                    box_matches (\<lambda>x y. inputItemMatchesRecipe
                        (inp_names ! ((inp_min_y + y) * inp_width + (inp_min_x + x)))
                        (rec_names ! ((rec_min_y + y) * rec_width + (rec_min_x + x))) idef)
                      (inp_max_x - inp_min_x + 1) (inp_max_y - inp_min_y + 1))"

subsection \<open>Shapeless\<close>

text \<open>\<open>std::set_difference\<close> of sorted lists.\<close>

fun set_difference :: "('a::linorder) list \<Rightarrow> 'a list \<Rightarrow> 'a list" where
  "set_difference [] ys = []"
| "set_difference xs [] = xs"
| "set_difference (x # xs) (y # ys) =
     (if x < y then x # set_difference xs (y # ys)
      else if y < x then set_difference (x # xs) ys
      else set_difference xs ys)"

definition SHAPELESS_GROUPS_MAX :: nat where
  "SHAPELESS_GROUPS_MAX = 30000"

definition bip_graph :: "IItemDefManager \<Rightarrow> bytes list \<Rightarrow> bytes list \<Rightarrow> nat list list" where
  "bip_graph idef input_for_group recipe_onlygroup =
     map (\<lambda>i. filter (\<lambda>j. inputItemMatchesRecipe (input_for_group ! i) (recipe_onlygroup ! j) idef)
         [0..<length recipe_onlygroup])
       [0..<length recipe_onlygroup]"

text \<open>
  The names of the input and the sorted names of the recipe, as many as names that are not
  empty.  The matching is shown to end;
  the \<open>the\<close> is the value it ends with.
\<close>

definition shapeless_check :: "IItemDefManager \<Rightarrow> bytes list \<Rightarrow> bytes list \<Rightarrow> bool" where
  "shapeless_check idef names recipe_copy =
     (let input_filtered = sort (filter (\<lambda>n. n \<noteq> []) names);
          recipe_onlygroup = filter isGroupRecipeStr recipe_copy;
          recipe_nogroup = filter (\<lambda>n. \<not> isGroupRecipeStr n) recipe_copy;
          input_for_group = set_difference input_filtered recipe_nogroup in
      if length input_filtered - length input_for_group \<noteq> length recipe_nogroup then False
      else if length recipe_onlygroup > SHAPELESS_GROUPS_MAX then False
      else the (hopcroft_karp_can_match_all (bip_graph idef input_for_group recipe_onlygroup)))"

subsection \<open>Tool repair\<close>

definition craftToolRepair :: "ItemStack \<Rightarrow> ItemStack \<Rightarrow> rat \<Rightarrow> IItemDefManager \<Rightarrow> ItemStack" where
  "craftToolRepair item1 item2 additional_wear idef =
     (if st_count item1 \<noteq> 1 \<or> st_count item2 \<noteq> 1 \<or> st_name item1 \<noteq> st_name item2 \<or>
         def_type (idef_get idef (st_name item1)) \<noteq> ITEM_TOOL \<or>
         itemgroup_get (def_groups (idef_get idef (st_name item1))) (lit ''disable_repair'') = 1
      then no_item
      else
        let item1_uses = 65536 - uint (st_wear item1);
            item2_uses = 65536 - uint (st_wear item2);
            new_uses = item1_uses + item2_uses;
            new_wear = 65536 - new_uses + \<lfloor>additional_wear * 65536 + 1 / 2\<rfloor> in
        if new_wear \<ge> 65536 then no_item
        else item1\<lparr>st_wear := of_int (if new_wear < 0 then 0 else new_wear)\<rparr>)"

text \<open>The first two stacks that are not empty; \<open>None\<close> when there is a third.\<close>

fun two_items :: "ItemStack list \<Rightarrow> ItemStack \<Rightarrow> ItemStack \<Rightarrow> (ItemStack \<times> ItemStack) option" where
  "two_items [] item1 item2 = Some (item1, item2)"
| "two_items (item # stacks) item1 item2 =
     (if st_empty item then two_items stacks item1 item2
      else if st_empty item1 then two_items stacks item item2
      else if st_empty item2 then two_items stacks item1 item
      else None)"

text \<open>\<open>getOutput\<close> does not give up at the third.\<close>

fun first_two_items :: "ItemStack list \<Rightarrow> ItemStack \<Rightarrow> ItemStack \<Rightarrow> ItemStack \<times> ItemStack" where
  "first_two_items [] item1 item2 = (item1, item2)"
| "first_two_items (item # stacks) item1 item2 =
     (if st_empty item then first_two_items stacks item1 item2
      else if st_empty item1 then first_two_items stacks item item2
      else if st_empty item2 then first_two_items stacks item1 item
      else first_two_items stacks item1 item2)"

subsection \<open>The operations of a recipe\<close>

text \<open>What \<open>check\<close> of cooking and fuel does after it has looked at the method.\<close>

definition single_check :: "u16 \<Rightarrow> IItemDefManager \<Rightarrow> ItemStack list \<Rightarrow> bytes \<Rightarrow> ser_error + bool" where
  "single_check stale idef stacks recipe =
     (let input_filtered = filter (\<lambda>n. n \<noteq> []) (stackNames stacks) in
      if length input_filtered \<noteq> 1 then Inr False
      else bind_ok (craftGetItemName stale recipe idef) (\<lambda>rec_name.
        Inr (inputItemMatchesRecipe (input_filtered ! 0) rec_name idef)))"

definition check_shaped :: "u16 \<Rightarrow> IItemDefManager \<Rightarrow> CraftInput \<Rightarrow> u32 \<Rightarrow> bytes list \<Rightarrow> CraftDefinition \<Rightarrow> ser_error + bool" where
  "check_shaped stale idef inp width recipe d =
     (if ci_method inp \<noteq> CRAFT_METHOD_NORMAL then Inr False
      else
        let inp_names = stackNames (ci_items inp);
            inp_width = unat (ci_width inp) in
        if inp_width = 0 \<or> craftGetBounds (pad_rows inp_width inp_names) inp_width = None then Inr False
        else
          bind_ok (if cd_hash_inited d then Inr (cd_recipe_names d) else craftGetItemNames stale recipe idef)
            (\<lambda>rec_names. Inr (shaped_check idef inp_names inp_width rec_names (unat width))))"

definition check_shapeless :: "u16 \<Rightarrow> IItemDefManager \<Rightarrow> CraftInput \<Rightarrow> bytes list \<Rightarrow> CraftDefinition \<Rightarrow> ser_error + bool" where
  "check_shapeless stale idef inp recipe d =
     (if ci_method inp \<noteq> CRAFT_METHOD_NORMAL then Inr False
      else if length (filter (\<lambda>n. n \<noteq> []) (stackNames (ci_items inp))) \<noteq> length recipe then Inr False
      else
        bind_ok (if cd_hash_inited d then Inr (cd_recipe_names d)
                 else bind_ok (craftGetItemNames stale recipe idef) (\<lambda>names. Inr (sort names)))
          (\<lambda>recipe_copy. Inr (shapeless_check idef (stackNames (ci_items inp)) recipe_copy)))"

definition check_toolrepair :: "IItemDefManager \<Rightarrow> CraftInput \<Rightarrow> rat \<Rightarrow> bool" where
  "check_toolrepair idef inp additional_wear =
     (if ci_method inp \<noteq> CRAFT_METHOD_NORMAL then False
      else
        (case two_items (ci_items inp) no_item no_item of
           None \<Rightarrow> False
         | Some (item1, item2) \<Rightarrow> \<not> st_empty (craftToolRepair item1 item2 additional_wear idef)))"

definition check_cooking :: "u16 \<Rightarrow> IItemDefManager \<Rightarrow> CraftInput \<Rightarrow> bytes \<Rightarrow> ser_error + bool" where
  "check_cooking stale idef inp recipe =
     (if ci_method inp \<noteq> CRAFT_METHOD_COOKING then Inr False
      else single_check stale idef (ci_items inp) recipe)"

definition check_fuel :: "u16 \<Rightarrow> IItemDefManager \<Rightarrow> CraftInput \<Rightarrow> bytes \<Rightarrow> ser_error + bool" where
  "check_fuel stale idef inp recipe =
     (if ci_method inp \<noteq> CRAFT_METHOD_FUEL then Inr False
      else single_check stale idef (ci_items inp) recipe)"

definition check :: "u16 \<Rightarrow> IItemDefManager \<Rightarrow> CraftInput \<Rightarrow> CraftDefinition \<Rightarrow> ser_error + bool" where
  "check stale idef inp d =
     (case cd_class d of
        CraftDefinitionShaped out width recipe replacements \<Rightarrow> check_shaped stale idef inp width recipe d
      | CraftDefinitionShapeless out recipe replacements \<Rightarrow> check_shapeless stale idef inp recipe d
      | CraftDefinitionToolRepair additional_wear \<Rightarrow> Inr (check_toolrepair idef inp additional_wear)
      | CraftDefinitionCooking out recipe cooktime replacements \<Rightarrow> check_cooking stale idef inp recipe
      | CraftDefinitionFuel recipe burntime replacements \<Rightarrow> check_fuel stale idef inp recipe)"

lemmas check_defs = check_def check_shaped_def check_shapeless_def check_toolrepair_def
  check_cooking_def check_fuel_def

definition getOutput :: "(metadata \<Rightarrow> bytes list) \<Rightarrow> IItemDefManager \<Rightarrow> CraftInput \<Rightarrow> CraftDefinition \<Rightarrow> CraftOutput" where
  "getOutput ord idef inp d =
     (case cd_class d of
        CraftDefinitionShaped out width recipe replacements \<Rightarrow> \<lparr>co_item = out, co_time = 0\<rparr>
      | CraftDefinitionShapeless out recipe replacements \<Rightarrow> \<lparr>co_item = out, co_time = 0\<rparr>
      | CraftDefinitionToolRepair additional_wear \<Rightarrow>
          (let (item1, item2) = first_two_items (ci_items inp) no_item no_item in
           \<lparr>co_item = getItemString ord True (craftToolRepair item1 item2 additional_wear idef), co_time = 0\<rparr>)
      | CraftDefinitionCooking out recipe cooktime replacements \<Rightarrow> \<lparr>co_item = out, co_time = cooktime\<rparr>
      | CraftDefinitionFuel recipe burntime replacements \<Rightarrow> \<lparr>co_item = [], co_time = burntime\<rparr>)"

definition getInput :: "IItemDefManager \<Rightarrow> CraftDefinition \<Rightarrow> CraftInput" where
  "getInput idef d =
     (case cd_class d of
        CraftDefinitionShaped out width recipe replacements \<Rightarrow>
          \<lparr>ci_method = CRAFT_METHOD_NORMAL, ci_width = width, ci_items = craftGetItems recipe idef\<rparr>
      | CraftDefinitionShapeless out recipe replacements \<Rightarrow>
          \<lparr>ci_method = CRAFT_METHOD_NORMAL, ci_width = 0, ci_items = craftGetItems recipe idef\<rparr>
      | CraftDefinitionToolRepair additional_wear \<Rightarrow>
          \<lparr>ci_method = CRAFT_METHOD_NORMAL, ci_width = 0, ci_items = [no_item]\<rparr>
      | CraftDefinitionCooking out recipe cooktime replacements \<Rightarrow>
          \<lparr>ci_method = CRAFT_METHOD_COOKING, ci_width = 0, ci_items = craftGetItems [recipe] idef\<rparr>
      | CraftDefinitionFuel recipe burntime replacements \<Rightarrow>
          \<lparr>ci_method = CRAFT_METHOD_FUEL, ci_width = 0, ci_items = craftGetItems [recipe] idef\<rparr>)"

definition decrementInput ::
  "u16 \<Rightarrow> IItemDefManager \<Rightarrow> CraftInput \<Rightarrow> ItemStack list \<Rightarrow> CraftDefinition \<Rightarrow>
   ser_error + CraftInput \<times> ItemStack list" where
  "decrementInput stale idef inp output_replacements d =
     (case cd_class d of
        CraftDefinitionShaped out width recipe replacements \<Rightarrow>
          craftDecrementOrReplaceInput stale idef replacements inp output_replacements
      | CraftDefinitionShapeless out recipe replacements \<Rightarrow>
          craftDecrementOrReplaceInput stale idef replacements inp output_replacements
      | CraftDefinitionToolRepair additional_wear \<Rightarrow> Inr (craftDecrementInput inp, output_replacements)
      | CraftDefinitionCooking out recipe cooktime replacements \<Rightarrow>
          craftDecrementOrReplaceInput stale idef replacements inp output_replacements
      | CraftDefinitionFuel recipe burntime replacements \<Rightarrow>
          craftDecrementOrReplaceInput stale idef replacements inp output_replacements)"

section \<open>The manager\<close>

text \<open>
  \<open>CCraftDefManager\<close>: the recipes by their pointers (numbers, \<open>craft_next\<close> is the next), for
  each hash type a table from hashes to recipes, and the table from the names of outputs.
\<close>

record CCraftDefManager =
  craft_store :: "(nat, CraftDefinition) fmap"
  craft_next :: nat
  m_craft_defs :: "CraftHashType \<Rightarrow> (u64, nat list) fmap"
  m_output_craft_definitions :: "(bytes, nat list) fmap"

definition new_CCraftDefManager :: CCraftDefManager where
  "new_CCraftDefManager = \<lparr>craft_store = fmempty, craft_next = 0, m_craft_defs = (\<lambda>_. fmempty),
     m_output_craft_definitions = fmempty\<rparr>"

text \<open>What \<open>operator[]\<close> of a table gives: an entry that is missing is added as the empty list.\<close>

definition entry :: "('k, nat list) fmap \<Rightarrow> 'k \<Rightarrow> nat list" where
  "entry t k = (case fmlookup t k of None \<Rightarrow> [] | Some ids \<Rightarrow> ids)"

definition add_entry :: "'k \<Rightarrow> nat \<Rightarrow> ('k, nat list) fmap \<Rightarrow> ('k, nat list) fmap" where
  "add_entry k i t = fmupd k (entry t k @ [i]) t"

definition the_def :: "CCraftDefManager \<Rightarrow> nat \<Rightarrow> CraftDefinition" where
  "the_def m i = the (fmlookup (craft_store m) i)"

definition registerCraft ::
  "u16 \<Rightarrow> (metadata \<Rightarrow> bytes list) \<Rightarrow> IItemDefManager \<Rightarrow> CraftDefinition \<Rightarrow> CCraftDefManager \<Rightarrow>
   ser_error + CCraftDefManager" where
  "registerCraft stale ord idef d m =
     (let i = craft_next m;
          m = m\<lparr>craft_store := fmupd i d (craft_store m), craft_next := i + 1,
                m_craft_defs := (m_craft_defs m)(CRAFT_HASH_TYPE_UNHASHED :=
                  add_entry 0 i (m_craft_defs m CRAFT_HASH_TYPE_UNHASHED))\<rparr> in
      bind_ok (craftGetItemName stale (co_item (getOutput ord idef new_CraftInput d)) idef) (\<lambda>output_name.
        Inr (m\<lparr>m_output_craft_definitions := add_entry output_name i (m_output_craft_definitions m)\<rparr>)))"

definition initHash_step :: "u16 \<Rightarrow> IItemDefManager \<Rightarrow> nat \<Rightarrow> CCraftDefManager \<Rightarrow> ser_error + CCraftDefManager" where
  "initHash_step stale idef i m =
     bind_ok (initHash stale idef (the_def m i)) (\<lambda>d.
       let type = cd_hash_type d;
           hash = getHash d type in
       Inr (m\<lparr>craft_store := fmupd i d (craft_store m),
              m_craft_defs := (m_craft_defs m)(type := add_entry hash i (m_craft_defs m type))\<rparr>))"

definition initHashes :: "u16 \<Rightarrow> IItemDefManager \<Rightarrow> CCraftDefManager \<Rightarrow> ser_error + CCraftDefManager" where
  "initHashes stale idef m =
     bind_ok (fold_ok (initHash_step stale idef) (entry (m_craft_defs m CRAFT_HASH_TYPE_UNHASHED) 0) m) (\<lambda>m.
       Inr (m\<lparr>m_craft_defs := (m_craft_defs m)(CRAFT_HASH_TYPE_UNHASHED :=
         fmupd 0 [] (m_craft_defs m CRAFT_HASH_TYPE_UNHASHED))\<rparr>))"

definition crafts_clear :: "CCraftDefManager \<Rightarrow> CCraftDefManager" where
  "crafts_clear m = m\<lparr>craft_store := fmempty, m_craft_defs := (\<lambda>_. fmempty), m_output_craft_definitions := fmempty\<rparr>"

subsection \<open>Finding a recipe\<close>

text \<open>The best recipe so far: its priority, the recipe and its output.\<close>

type_synonym craft_best = "RecipePriority \<times> nat \<times> CraftOutput"

definition no_best :: craft_best where
  "no_best = (PRIORITY_NO_RECIPE, 0, \<lparr>co_item = [], co_time = 0\<rparr>)"

text \<open>One recipe of a bucket.\<close>

definition try_recipe ::
  "u16 \<Rightarrow> (metadata \<Rightarrow> bytes list) \<Rightarrow> IItemDefManager \<Rightarrow> CCraftDefManager \<Rightarrow> CraftInput \<Rightarrow> nat \<Rightarrow> craft_best \<Rightarrow>
   ser_error + craft_best" where
  "try_recipe stale ord idef m inp i best =
     (let d = the_def m i; priority = cd_priority d in
      if \<not> priority > fst best then Inr best
      else bind_ok (check stale idef inp d) (\<lambda>ok.
        if \<not> ok then Inr best
        else
          let out = getOutput ord idef inp d in
          bind_ok (st_deSerialize stale (Some idef) (co_item out, True)) (\<lambda>is.
            if \<not> st_isKnown idef is then Inr best else Inr (priority, i, out))))"

definition try_bucket ::
  "u16 \<Rightarrow> (metadata \<Rightarrow> bytes list) \<Rightarrow> IItemDefManager \<Rightarrow> CCraftDefManager \<Rightarrow> CraftInput \<Rightarrow> bytes list \<Rightarrow>
   CraftHashType \<Rightarrow> craft_best \<Rightarrow> ser_error + craft_best" where
  "try_bucket stale ord idef m inp input_names type best =
     (case fmlookup (m_craft_defs m type) (getHashForGrid type input_names) of
        None \<Rightarrow> Inr best
      | Some hash_collisions \<Rightarrow> fold_ok (try_recipe stale ord idef m inp) (rev hash_collisions) best)"

definition find_recipe ::
  "u16 \<Rightarrow> (metadata \<Rightarrow> bytes list) \<Rightarrow> IItemDefManager \<Rightarrow> CCraftDefManager \<Rightarrow> CraftInput \<Rightarrow> ser_error + craft_best" where
  "find_recipe stale ord idef m inp =
     fold_ok (try_bucket stale ord idef m inp (sort (stackNames (ci_items inp))))
       [CRAFT_HASH_TYPE_ITEM_NAMES, CRAFT_HASH_TYPE_COUNT, CRAFT_HASH_TYPE_UNHASHED] no_best"

text \<open>
  \<open>getCraftResult\<close>: the output, and the input and the replacements after it; \<open>None\<close> when
  there is no recipe.
\<close>

definition getCraftResult ::
  "u16 \<Rightarrow> (metadata \<Rightarrow> bytes list) \<Rightarrow> IItemDefManager \<Rightarrow> CCraftDefManager \<Rightarrow> CraftInput \<Rightarrow> ItemStack list \<Rightarrow>
   bool \<Rightarrow> ser_error + (CraftOutput \<times> CraftInput \<times> ItemStack list) option" where
  "getCraftResult stale ord idef m inp output_replacement decrement =
     (if ci_empty inp then Inr None
      else bind_ok (find_recipe stale ord idef m inp) (\<lambda>(priority_best, def_best, output).
        if priority_best = PRIORITY_NO_RECIPE then Inr None
        else if decrement
        then bind_ok (decrementInput stale idef inp output_replacement (the_def m def_best))
          (\<lambda>(inp, output_replacement). Inr (Some (output, inp, output_replacement)))
        else Inr (Some (output, inp, output_replacement))))"

text \<open>The recipes of an output, the latest first; a limit of 0 is none.\<close>

definition getCraftRecipes :: "CCraftDefManager \<Rightarrow> CraftOutput \<Rightarrow> nat \<Rightarrow> nat list" where
  "getCraftRecipes m output limit =
     (case fmlookup (m_output_craft_definitions m) (co_item output) of
        None \<Rightarrow> []
      | Some vec \<Rightarrow> if limit = 0 then rev vec else take limit (rev vec))"

subsection \<open>Removing recipes\<close>

text \<open>Both look only at the recipes that have no hash yet.\<close>

definition clearCraftsByOutput :: "CraftOutput \<Rightarrow> CCraftDefManager \<Rightarrow> bool \<times> CCraftDefManager" where
  "clearCraftsByOutput output m =
     (case fmlookup (m_output_craft_definitions m) (co_item output) of
        None \<Rightarrow> (False, m)
      | Some to_clear \<Rightarrow>
          (True,
           m\<lparr>craft_store := fold fmdrop to_clear (craft_store m),
             m_craft_defs := (m_craft_defs m)(CRAFT_HASH_TYPE_UNHASHED :=
               fmupd 0 (filter (\<lambda>i. i \<notin> set to_clear) (entry (m_craft_defs m CRAFT_HASH_TYPE_UNHASHED) 0))
                 (m_craft_defs m CRAFT_HASH_TYPE_UNHASHED)),
             m_output_craft_definitions := fmdrop (co_item output) (m_output_craft_definitions m)\<rparr>))"

fun partition_defs ::
  "u16 \<Rightarrow> IItemDefManager \<Rightarrow> CCraftDefManager \<Rightarrow> CraftInput \<Rightarrow> nat list \<Rightarrow> ser_error + nat list \<times> nat list" where
  "partition_defs stale idef m inp [] = Inr ([], [])"
| "partition_defs stale idef m inp (i # ids) =
     bind_ok (check stale idef inp (the_def m i)) (\<lambda>ok.
     bind_ok (partition_defs stale idef m inp ids) (\<lambda>(defs_to_remove, new_defs).
       Inr (if ok then (i # defs_to_remove, new_defs) else (defs_to_remove, i # new_defs))))"

definition clearCraftsByInput ::
  "u16 \<Rightarrow> IItemDefManager \<Rightarrow> CraftInput \<Rightarrow> CCraftDefManager \<Rightarrow> ser_error + bool \<times> CCraftDefManager" where
  "clearCraftsByInput stale idef inp m =
     (if ci_empty inp then Inr (False, m)
      else bind_ok (partition_defs stale idef m inp (entry (m_craft_defs m CRAFT_HASH_TYPE_UNHASHED) 0))
        (\<lambda>(defs_to_remove, new_defs).
          if defs_to_remove = [] then Inr (False, m)
          else Inr (True,
            m\<lparr>craft_store := fold fmdrop defs_to_remove (craft_store m),
              m_craft_defs := (m_craft_defs m)(CRAFT_HASH_TYPE_UNHASHED :=
                fmupd 0 new_defs (m_craft_defs m CRAFT_HASH_TYPE_UNHASHED)),
              m_output_craft_definitions :=
                fmmap (filter (\<lambda>i. i \<notin> set defs_to_remove)) (m_output_craft_definitions m)\<rparr>)))"

end
