(* ===== verification/CraftMatch.thy ===== *)
theory CraftMatch
  imports CraftDef
begin

text \<open>
  What the checks of the shaped and shapeless recipes of \<open>src/craftdef.cpp\<close> decide.
\<close>

section \<open>Shapeless recipes\<close>

lemma mset_set_difference:
  "sorted xs \<Longrightarrow> sorted ys \<Longrightarrow> mset (set_difference xs ys) = mset xs - mset ys"
proof (induction xs ys rule: set_difference.induct)
  case (3 x xs y ys)
  consider "x < y" | "y < x" | "x = y" by force
  then show ?case
  proof cases
    case 1
    with 3(5) have "x \<notin># mset (y # ys)" by auto
    with 1 3 show ?thesis by (simp add: add_mset_diff_bothsides)
  next
    case 2
    with 3(4) have "y \<notin># mset (x # xs)" by auto
    then have "mset (x # xs) - mset (y # ys) = mset (x # xs) - mset ys" by simp
    with 2 3 show ?thesis by simp
  next
    case 3: 3
    with "3.IH"(3) "3.prems" show ?thesis by simp
  qed
qed simp_all

text \<open>The stacks can be put to the slots of the recipe so that each fits its slot.\<close>

definition fills :: "('a \<Rightarrow> 'b \<Rightarrow> bool) \<Rightarrow> 'a list \<Rightarrow> 'b list \<Rightarrow> bool" where
  "fills P xs rs \<longleftrightarrow> (\<exists>ys. mset ys = mset xs \<and> list_all2 P ys rs)"

lemma fills_mset_left: "mset xs = mset xs' \<Longrightarrow> fills P xs rs \<longleftrightarrow> fills P xs' rs"
  by (simp add: fills_def)

lemma fills_reorder:
  assumes "mset rs = mset rs'" and "fills P xs rs"
  shows "fills P xs rs'"
proof -
  obtain ys where ys: "mset ys = mset xs" "list_all2 P ys rs" using assms(2) by (auto simp: fills_def)
  have "list_all2 (\<lambda>r y. P y r) rs ys" using ys(2) by (simp add: list_all2_conv_all_nth)
  then obtain zs where "list_all2 (\<lambda>r y. P y r) rs' zs" "mset zs = mset ys"
    using list_all2_reorder_left_invariance assms(1) by metis
  with ys(1) show ?thesis
    unfolding fills_def by (intro exI [of _ zs]) (simp add: list_all2_conv_all_nth)
qed

lemma fills_mset_right: "mset rs = mset rs' \<Longrightarrow> fills P xs rs \<longleftrightarrow> fills P xs rs'"
  using fills_reorder by metis

lemma fills_length: "fills P xs rs \<Longrightarrow> length xs = length rs"
  unfolding fills_def by (metis list_all2_lengthD size_mset)

text \<open>Slots that only one name fits are filled first.\<close>

lemma fills_exact:
  assumes "\<And>x n. n \<in> set N \<Longrightarrow> P x n \<longleftrightarrow> x = n"
  shows "fills P xs (G @ N) \<longleftrightarrow> mset N \<subseteq># mset xs \<and> (\<exists>zs. mset zs = mset xs - mset N \<and> fills P zs G)"
proof
  assume "fills P xs (G @ N)"
  then obtain y1 y2 where y: "mset (y1 @ y2) = mset xs" "list_all2 P y1 G" "list_all2 P y2 N"
    by (auto simp: fills_def list_all2_append2)
  have "y2 = N" using y(3) assms by (induction y2 N rule: list_all2_induct) auto
  with y(1) have "mset xs = mset y1 + mset N" by (metis mset_append)
  with y(2) show "mset N \<subseteq># mset xs \<and> (\<exists>zs. mset zs = mset xs - mset N \<and> fills P zs G)"
    by (auto simp: fills_def)
next
  assume r: "mset N \<subseteq># mset xs \<and> (\<exists>zs. mset zs = mset xs - mset N \<and> fills P zs G)"
  then obtain ys where ys: "mset ys = mset xs - mset N" "list_all2 P ys G"
    by (auto simp: fills_def)
  have "list_all2 P N N" using assms by (auto simp: list_all2_conv_all_nth)
  with ys r have "mset (ys @ N) = mset xs" "list_all2 P (ys @ N) (G @ N)"
    by (simp_all add: list_all2_appendI)
  then show "fills P xs (G @ N)" unfolding fills_def by blast
qed

lemma fills_by_matching:
  assumes "length xs = length rs"
  shows "can_match_all (map (\<lambda>i. filter (\<lambda>j. P (xs ! i) (rs ! j)) [0..<length rs]) [0..<length rs]) \<longleftrightarrow> fills P xs rs"
    (is "can_match_all ?g \<longleftrightarrow> _")
proof
  let ?n = "length rs"
  assume "can_match_all ?g"
  then obtain f where f: "inj_on f {..<?n}" "\<And>u. u < ?n \<Longrightarrow> f u < ?n \<and> P (xs ! u) (rs ! f u)"
    by (fastforce simp: can_match_all_def)
  have onto: "f ` {..<?n} = {..<?n}" using f by (intro endo_inj_surj) auto
  define h where "h = inv_into {..<?n} f"
  have h: "h j < ?n \<and> f (h j) = j" if "j < ?n" for j
    using that onto by (metis f_inv_into_f h_def inv_into_into lessThan_iff)
  have inj_h: "inj_on h {..<?n}" using h by (metis inj_on_def lessThan_iff)
  have "h ` {..<?n} = {..<?n}" using h inj_h by (intro endo_inj_surj) auto
  then have "image_mset h (mset_set {..<?n}) = mset_set {..<?n}"
    using image_mset_mset_set [OF inj_h] by simp
  moreover have upt: "mset [0..<?n] = mset_set {..<?n}" by (simp add: mset_upt lessThan_atLeast0)
  ultimately have m: "mset (map h [0..<?n]) = mset [0..<?n]" by simp
  have "mset (map (\<lambda>j. xs ! h j) [0..<?n]) = image_mset ((!) xs) (mset (map h [0..<?n]))"
    by (simp add: image_mset.compositionality comp_def)
  also have "\<dots> = image_mset ((!) xs) (mset [0..<?n])" unfolding m ..
  also have "\<dots> = mset (map ((!) xs) [0..<?n])" by (simp only: mset_map)
  also have "\<dots> = mset xs" using assms map_nth [of xs] by simp
  finally have "mset (map (\<lambda>j. xs ! h j) [0..<?n]) = mset xs" .
  moreover have "list_all2 P (map (\<lambda>j. xs ! h j) [0..<?n]) rs"
    using h f(2) by (fastforce simp: list_all2_conv_all_nth)
  ultimately show "fills P xs rs" unfolding fills_def by blast
next
  let ?n = "length rs"
  assume "fills P xs rs"
  then obtain ys where ys: "mset ys = mset xs" "list_all2 P ys rs" by (auto simp: fills_def)
  have len: "length ys = ?n" using ys(2) by (rule list_all2_lengthD)
  have "list_all2 (\<lambda>x i. x = ys ! i) ys [0..<?n]" using len by (simp add: list_all2_conv_all_nth)
  with ys(1) obtain ks where ks: "mset ks = mset [0..<?n]" "list_all2 (\<lambda>x i. x = ys ! i) xs ks"
    using list_all2_reorder_left_invariance by metis
  have d: "distinct ks" "set ks = {..<?n}" "length ks = ?n"
    using ks(1) mset_eq_imp_distinct_iff [OF ks(1)] mset_eq_setD [OF ks(1)] mset_eq_length [OF ks(1)]
    by (auto simp: lessThan_atLeast0)
  have "ks ! u < ?n \<and> P (xs ! u) (rs ! (ks ! u))" if "u < ?n" for u
  proof -
    have "ks ! u < ?n" using d that nth_mem [of u ks] by auto
    with ks(2) ys(2) that d(3) len show ?thesis by (simp add: list_all2_conv_all_nth)
  qed
  moreover have "inj_on ((!) ks) {..<?n}" using d by (simp add: inj_on_nth)
  ultimately show "can_match_all ?g"
    unfolding can_match_all_def by (intro exI [of _ "(!) ks"]) simp
qed

lemma exact_slot: "\<not> isGroupRecipeStr r \<Longrightarrow> inputItemMatchesRecipe n r idef \<longleftrightarrow> n = r"
  by (simp add: inputItemMatchesRecipe_def)

text \<open>\<open>fits idef\<close>: a stack of that name fits that slot.\<close>

definition fits :: "IItemDefManager \<Rightarrow> bytes \<Rightarrow> bytes \<Rightarrow> bool" where
  "fits idef n r \<longleftrightarrow> inputItemMatchesRecipe n r idef"

lemma shapeless_check_ok:
  assumes len: "length (filter (\<lambda>n. n \<noteq> []) names) = length rs" and srt: "sorted rs"
    and few: "length (filter isGroupRecipeStr rs) \<le> SHAPELESS_GROUPS_MAX"
  shows "shapeless_check idef names rs \<longleftrightarrow> fills (fits idef) (filter (\<lambda>n. n \<noteq> []) names) rs"
proof -
  define xs where "xs = sort (filter (\<lambda>n. n \<noteq> []) names)"
  define G where "G = filter isGroupRecipeStr rs"
  define N where "N = filter (\<lambda>n. \<not> isGroupRecipeStr n) rs"
  define zs where "zs = set_difference xs N"
  have "sorted xs" "sorted N" using srt by (simp_all add: xs_def N_def sorted_wrt_filter)
  then have zs: "mset zs = mset xs - mset N" by (simp add: zs_def mset_set_difference)
  have rs: "mset rs = mset (G @ N)" by (simp add: G_def N_def)
  then have lrs: "length rs = length G + length N" by (metis length_append mset_eq_length)
  have lxs: "length xs = length rs" using len by (simp add: xs_def)
  have sub: "length xs - length zs = length N \<longleftrightarrow> mset N \<subseteq># mset xs"
  proof -
    have z: "size (mset zs) = size (mset xs - mset N)" using zs by simp
    have "size (mset xs - mset N) = size (mset xs) - size (mset xs \<inter># mset N)"
      by (metis diff_intersect_left_idem size_Diff_submset subset_mset.inf_le1)
    moreover have "size (mset xs \<inter># mset N) \<le> size (mset xs)"
      by (simp only: size_mset_mono subset_mset.inf_le1)
    ultimately have "length xs - length zs = size (mset xs \<inter># mset N)" using z by simp
    moreover have "size (mset xs \<inter># mset N) = size (mset N) \<longleftrightarrow> mset N \<subseteq># mset xs"
      by (metis mset_subset_size nless_le subset_mset.inf.absorb_iff2 subset_mset.inf_le2 subset_mset.nless_le)
    ultimately show ?thesis by simp
  qed
  have cases: "fills (fits idef) xs rs \<longleftrightarrow> mset N \<subseteq># mset xs \<and> fills (fits idef) zs G"
  proof -
    have "fills (fits idef) xs rs \<longleftrightarrow> fills (fits idef) xs (G @ N)" by (rule fills_mset_right [OF rs])
    also have "\<dots> \<longleftrightarrow> mset N \<subseteq># mset xs \<and> (\<exists>us. mset us = mset xs - mset N \<and> fills (fits idef) us G)"
      by (rule fills_exact) (simp add: fits_def N_def exact_slot)
    also have "\<dots> \<longleftrightarrow> mset N \<subseteq># mset xs \<and> fills (fits idef) zs G"
      using zs fills_mset_left by metis
    finally show ?thesis .
  qed
  have match: "the (hopcroft_karp_can_match_all (bip_graph idef zs G)) = fills (fits idef) zs G"
    if "mset N \<subseteq># mset xs"
  proof -
    have "length zs = length G"
      using that zs lxs lrs by (metis add_diff_cancel_right' size_Diff_submset size_mset)
    from fills_by_matching [OF this, of "fits idef"]
    have "can_match_all (bip_graph idef zs G) = fills (fits idef) zs G" by (simp add: bip_graph_def fits_def)
    moreover have "graph_ok (bip_graph idef zs G)"
      using few by (auto simp: graph_ok_def bip_graph_def G_def SHAPELESS_GROUPS_MAX_def)
    ultimately show ?thesis using hopcroft_karp_run by simp
  qed
  have "shapeless_check idef names rs \<longleftrightarrow> fills (fits idef) xs rs"
    using few sub cases match unfolding shapeless_check_def Let_def
    by (simp flip: xs_def G_def N_def zs_def)
  also have "\<dots> \<longleftrightarrow> fills (fits idef) (filter (\<lambda>n. n \<noteq> []) names) rs"
    by (rule fills_mset_left) (simp add: xs_def)
  finally show ?thesis .
qed

section \<open>Shaped recipes\<close>

text \<open>What is at a place of a matrix, nothing outside it, and the places where something is.\<close>

definition cell :: "bytes list \<Rightarrow> nat \<Rightarrow> int \<Rightarrow> int \<Rightarrow> bytes" where
  "cell names width x y =
     (if 0 \<le> x \<and> x < int width \<and> 0 \<le> y \<and> nat y * width + nat x < length names
      then names ! (nat y * width + nat x) else [])"

definition occupied :: "bytes list \<Rightarrow> nat \<Rightarrow> (int \<times> int) set" where
  "occupied names width = {(x, y). cell names width x y \<noteq> []}"

text \<open>The smallest box around a set of places.\<close>

fun is_box :: "(int \<times> int) set \<Rightarrow> bounds option \<Rightarrow> bool" where
  "is_box S None \<longleftrightarrow> S = {}"
| "is_box S (Some (min_x, max_x, min_y, max_y)) \<longleftrightarrow>
     (\<forall>(x, y)\<in>S. int min_x \<le> x \<and> x \<le> int max_x \<and> int min_y \<le> y \<and> y \<le> int max_y) \<and>
     int min_x \<in> fst ` S \<and> int max_x \<in> fst ` S \<and> int min_y \<in> snd ` S \<and> int max_y \<in> snd ` S"

lemma is_box_widen: "is_box S b \<Longrightarrow> is_box (insert (int x, int y) S) (Some (widen x y b))"
proof (cases b)
  case (Some q)
  assume b: "is_box S b"
  obtain a c e f where q: "q = (a, c, e, f)" by (cases q)
  from b show ?thesis unfolding Some q by (fastforce simp: image_iff)
qed simp

lemma mod_div_step:
  fixes k :: nat
  assumes "0 < w"
  shows "(if Suc (k mod w) = w then (0, Suc (k div w)) else (Suc (k mod w), k div w)) = (Suc k mod w, Suc k div w)"
  using assms by (simp add: mod_Suc div_Suc)

definition places :: "bytes list \<Rightarrow> nat \<Rightarrow> nat \<Rightarrow> (int \<times> int) set" where
  "places names width n =
     {(int ((n + k) mod width), int ((n + k) div width)) |k. k < length names \<and> names ! k \<noteq> []}"

lemma places_Nil [simp]: "places [] width n = {}"
  by (simp add: places_def)

lemma places_Cons:
  "places (item # names) width n =
     (if item \<noteq> [] then insert (int (n mod width), int (n div width)) (places names width (Suc n))
      else places names width (Suc n))"
proof -
  have "(\<exists>k. P k \<and> k < length (item # names) \<and> (item # names) ! k \<noteq> []) \<longleftrightarrow>
      (item \<noteq> [] \<and> P 0) \<or> (\<exists>k. P (Suc k) \<and> k < length names \<and> names ! k \<noteq> [])" for P
  proof
    assume "\<exists>k. P k \<and> k < length (item # names) \<and> (item # names) ! k \<noteq> []"
    then obtain k where "P k" "k < length (item # names)" "(item # names) ! k \<noteq> []" by blast
    then show "(item \<noteq> [] \<and> P 0) \<or> (\<exists>k. P (Suc k) \<and> k < length names \<and> names ! k \<noteq> [])"
      by (cases k) auto
  next
    assume "(item \<noteq> [] \<and> P 0) \<or> (\<exists>k. P (Suc k) \<and> k < length names \<and> names ! k \<noteq> [])"
    then show "\<exists>k. P k \<and> k < length (item # names) \<and> (item # names) ! k \<noteq> []"
    proof
      assume "item \<noteq> [] \<and> P 0"
      then show ?thesis by (intro exI [of _ 0]) simp
    next
      assume "\<exists>k. P (Suc k) \<and> k < length names \<and> names ! k \<noteq> []"
      then obtain k where "P (Suc k)" "k < length names" "names ! k \<noteq> []" by blast
      then show ?thesis by (intro exI [of _ "Suc k"]) simp
    qed
  qed
  from this [of "\<lambda>k. z = (int ((n + k) mod width), int ((n + k) div width))" for z]
  show ?thesis by (auto simp: places_def)
qed

lemma bounds_loop_box:
  assumes "0 < width"
  shows "is_box S b \<Longrightarrow> is_box (S \<union> places names width n) (bounds_loop width names (n mod width) (n div width) b)"
proof (induction names arbitrary: S b n)
  case (Cons item names)
  have step: "bounds_loop width (item # names) (n mod width) (n div width) b =
    bounds_loop width names (Suc n mod width) (Suc n div width) (if item \<noteq> [] then Some (widen (n mod width) (n div width) b) else b)"
    using mod_div_step [OF assms, of n] by (simp add: Let_def split: if_splits)
  show ?case
  proof (cases "item = []")
    case True
    with Cons.IH [OF Cons.prems, of "Suc n"] show ?thesis unfolding step places_Cons by simp
  next
    case False
    with Cons.IH [OF is_box_widen [OF Cons.prems, of "n mod width" "n div width"], of "Suc n"]
    show ?thesis unfolding step places_Cons by simp
  qed
qed simp

lemma places_occupied:
  assumes "0 < width"
  shows "places names width 0 = occupied names width"
proof -
  have "(x, y) \<in> places names width 0" if "cell names width x y \<noteq> []" for x y
  proof -
    have c: "0 \<le> x" "x < int width" "0 \<le> y" "nat y * width + nat x < length names"
      "names ! (nat y * width + nat x) \<noteq> []"
      using that by (auto simp: cell_def split: if_splits)
    then have "(nat y * width + nat x) mod width = nat x" "(nat y * width + nat x) div width = nat y"
      by (auto simp: nat_less_iff)
    with c show ?thesis unfolding places_def
      by (intro CollectI exI [of _ "nat y * width + nat x"]) simp
  qed
  moreover have "cell names width (int (k mod width)) (int (k div width)) = names ! k"
    if "k < length names" for k
    using assms that by (simp add: cell_def)
  ultimately show ?thesis by (auto simp: places_def occupied_def)
qed

lemma craftGetBounds_box: "0 < width \<Longrightarrow> is_box (occupied names width) (craftGetBounds names width)"
  using bounds_loop_box [of width "{}" None names 0] by (simp add: craftGetBounds_def places_occupied)

lemma pad_rows_ok:
  assumes "0 < width"
  shows "\<exists>k. pad_rows width names = names @ replicate k [] \<and> length (pad_rows width names) mod width = 0"
  using assms
proof (induction width names rule: pad_rows.induct)
  case (1 width names)
  show ?case
  proof (cases "width = 0 \<or> length names mod width = 0")
    case True
    then have "pad_rows width names = names" by (simp add: pad_rows.simps [of width names])
    with True "1.prems" show ?thesis by (intro exI [of _ 0]) simp
  next
    case False
    from "1.IH" [OF False "1.prems"] obtain k where "pad_rows width (names @ [[]]) = (names @ [[]]) @ replicate k []"
      "length (pad_rows width (names @ [[]])) mod width = 0" by (elim exE conjE)
    moreover have "pad_rows width names = pad_rows width (names @ [[]])"
      using False by (simp only: pad_rows.simps [of width names] if_False)
    ultimately show ?thesis by (intro exI [of _ "Suc k"]) simp
  qed
qed

lemma cell_pad: "0 < width \<Longrightarrow> cell (pad_rows width names) width x y = cell names width x y"
proof -
  assume "0 < width"
  then obtain k where "pad_rows width names = names @ replicate k []" using pad_rows_ok by blast
  then show ?thesis by (auto simp: cell_def nth_append)
qed

text \<open>A box of the input that has been moved onto one of the recipe has the same size.\<close>

lemma is_box_nonempty: "is_box S (Some q) \<Longrightarrow> S \<noteq> {}"
  by (cases q) auto

lemma is_box_moved:
  assumes "is_box S (Some (a, c, e, f))" and "is_box ((\<lambda>(x, y). (x + dx, y + dy)) ` S) (Some (a', c', e', f'))"
  shows "int a' = int a + dx" and "int c' = int c + dx" and "int e' = int e + dy" and "int f' = int f + dy"
proof -
  have le: "int a \<le> x \<and> x \<le> int c \<and> int e \<le> y \<and> y \<le> int f" if "(x, y) \<in> S" for x y
    using assms(1) that by auto
  have le': "int a' \<le> x + dx \<and> x + dx \<le> int c' \<and> int e' \<le> y + dy \<and> y + dy \<le> int f'" if "(x, y) \<in> S" for x y
    using assms(2) that by auto
  obtain y1 x2 x3 y4 where "(int a, y1) \<in> S" "(int c, x2) \<in> S" "(x3, int e) \<in> S" "(y4, int f) \<in> S"
    using assms(1) by auto
  note m = this [THEN le']
  obtain u1 v1 u2 v2 u3 v3 u4 v4 where
    "(u1, v1) \<in> S \<and> int a' = u1 + dx" "(u2, v2) \<in> S \<and> int c' = u2 + dx"
    "(u3, v3) \<in> S \<and> int e' = v3 + dy" "(u4, v4) \<in> S \<and> int f' = v4 + dy"
    using assms(2) by auto
  with le m show "int a' = int a + dx" "int c' = int c + dx" "int e' = int e + dy" "int f' = int f + dy"
    by (metis add.commute add_le_cancel_left order_antisym)+
qed

lemma is_box_le:
  assumes "is_box S (Some (a, c, e, f))"
  shows "a \<le> c" and "e \<le> f"
proof -
  obtain x y where "(x, y) \<in> S" using is_box_nonempty [OF assms] by auto
  with assms have "int a \<le> x \<and> x \<le> int c \<and> int e \<le> y \<and> y \<le> int f" by auto
  then show "a \<le> c" "e \<le> f" by linarith+
qed

lemma cell_inside:
  assumes "0 < width" and "is_box (occupied names width) (Some (a, c, e, f))"
    and "length names mod width = 0" and "a + i \<le> c" and "e + j \<le> f"
  shows "cell names width (int (a + i)) (int (e + j)) = names ! ((e + j) * width + (a + i))"
proof -
  obtain y x where o: "(int c, y) \<in> occupied names width" "(x, int f) \<in> occupied names width"
    using assms(2) by auto
  have cw: "c < width" using o(1) by (auto simp: occupied_def cell_def split: if_splits)
  have x: "f * width + nat x < length names"
    using o(2) by (auto simp: occupied_def cell_def split: if_splits)
  have "f < length names div width"
  proof (rule ccontr)
    assume "\<not> f < length names div width"
    then have "length names div width * width \<le> f * width" by simp
    then have "length names \<le> f * width" using assms(3) by (metis dvd_div_mult_self mod_0_imp_dvd)
    with x show False by simp
  qed
  then have "Suc (e + j) * width \<le> length names div width * width"
    using assms(5) by (intro mult_le_mono1) simp
  also have "\<dots> \<le> length names" by simp
  finally have "(e + j) * width + width \<le> length names" by simp
  then have "(e + j) * width + (a + i) < length names" using cw assms(4) by linarith
  with cw assms(4) show ?thesis by (simp add: cell_def del: of_nat_add)
qed

text \<open>
  The declarative meaning of a shaped recipe: moved by some distance, every place of the input
  fits what the recipe has there, everything outside the two matrices being nothing.
\<close>

definition shape_fits :: "IItemDefManager \<Rightarrow> bytes list \<Rightarrow> nat \<Rightarrow> bytes list \<Rightarrow> nat \<Rightarrow> bool" where
  "shape_fits idef inp_names inp_width rec_names rec_width \<longleftrightarrow>
     occupied inp_names inp_width \<noteq> {} \<and>
     (\<exists>dx dy. \<forall>x y. fits idef (cell inp_names inp_width (x + dx) (y + dy)) (cell rec_names rec_width x y))"

text \<open>
  Every slot of the recipe that is not empty needs an item.  The exception is a slot that asks for a
  group which the hand is in, whose name is empty: the definitions that come with the engine put the hand
  into \<open>not_in_creative_inventory\<close>, and an empty place of the grid then fits a slot for that group.
\<close>

definition needs_items :: "IItemDefManager \<Rightarrow> bytes list \<Rightarrow> bool" where
  "needs_items idef names \<longleftrightarrow> (\<forall>r\<in>set names. fits idef [] r \<longrightarrow> r = [])"

lemma fits_nothing [simp]: "fits idef n [] \<longleftrightarrow> n = []"
  by (auto simp: fits_def inputItemMatchesRecipe_def isGroupRecipeStr_def str_starts_with_def lit_def)

lemma cell_fits_nothing: "needs_items idef names \<Longrightarrow> fits idef [] (cell names w x y) \<longleftrightarrow> cell names w x y = []"
  by (auto simp: needs_items_def cell_def)

lemma cell_width_0 [simp]: "cell names 0 x y = []"
  by (auto simp: cell_def)

lemma occupied_pad: "0 < width \<Longrightarrow> occupied (pad_rows width names) width = occupied names width"
  by (simp add: occupied_def cell_pad)

lemma box_matches_iff: "box_matches P (Suc w) (Suc h) \<longleftrightarrow> (\<forall>j\<le>h. \<forall>i\<le>w. P i j)"
  by (auto simp: list_all_iff less_Suc_eq_le simp del: upt_Suc)

lemma shaped_check_ok:
  assumes need: "needs_items idef rec"
  shows "shaped_check idef inp iw rec rw \<longleftrightarrow> shape_fits idef inp iw rec rw"
proof (cases "iw = 0")
  case True
  then show ?thesis by (simp add: shaped_check_def shape_fits_def occupied_def)
next
  case iw: False
  define ip where "ip = pad_rows iw inp"
  have obi: "is_box (occupied inp iw) (craftGetBounds ip iw)"
    using craftGetBounds_box [of iw ip] iw by (simp add: ip_def occupied_pad)
  show ?thesis
  proof (cases "craftGetBounds ip iw")
    case None
    with obi have "occupied inp iw = {}" by simp
    with None iw show ?thesis by (simp add: shaped_check_def shape_fits_def Let_def flip: ip_def)
  next
    case (Some b)
    obtain a c e f where b: "b = (a, c, e, f)" by (cases b)
    have ob: "is_box (occupied inp iw) (Some (a, c, e, f))" using obi Some b by simp
    have ne: "occupied inp iw \<noteq> {}" using is_box_nonempty [OF ob] .
    have moved: "occupied inp iw = (\<lambda>(x, y). (x + dx, y + dy)) ` occupied rec rw"
      if "\<forall>x y. fits idef (cell inp iw (x + dx) (y + dy)) (cell rec rw x y)" for dx dy
    proof -
      have "cell inp iw (x + dx) (y + dy) = [] \<longleftrightarrow> cell rec rw x y = []" for x y
        using that fits_nothing cell_fits_nothing [OF need] by metis
      then have "(x, y) \<in> occupied rec rw \<longleftrightarrow> (x + dx, y + dy) \<in> occupied inp iw" for x y
        by (simp add: occupied_def)
      note iff = this
      show ?thesis
      proof (intro set_eqI iffI)
        fix z assume "z \<in> occupied inp iw"
        moreover obtain x y where "z = (x, y)" by (cases z)
        ultimately have "(x - dx, y - dy) \<in> occupied rec rw" using iff [of "x - dx" "y - dy"] by simp
        then show "z \<in> (\<lambda>(x, y). (x + dx, y + dy)) ` occupied rec rw"
          using \<open>z = (x, y)\<close> by (force simp: image_iff)
      qed (use iff in auto)
    qed
    show ?thesis
    proof (cases "rw = 0")
      case True
      then have "occupied rec rw = {}" by (simp add: occupied_def)
      then have "\<not> shape_fits idef inp iw rec rw" using moved ne by (auto simp: shape_fits_def)
      with True Some iw b show ?thesis by (simp add: shaped_check_def Let_def flip: ip_def)
    next
      case rw: False
      define rp where "rp = pad_rows rw rec"
      have obr: "is_box (occupied rec rw) (craftGetBounds rp rw)"
        using craftGetBounds_box [of rw rp] rw by (simp add: rp_def occupied_pad)
      show ?thesis
      proof (cases "craftGetBounds rp rw")
        case None
        with obr have "occupied rec rw = {}" by simp
        then have "\<not> shape_fits idef inp iw rec rw" using moved ne by (auto simp: shape_fits_def)
        with None Some iw rw b show ?thesis by (simp add: shaped_check_def Let_def flip: ip_def rp_def)
      next
        case Some': (Some b')
        obtain p q r s where b': "b' = (p, q, r, s)" by (cases b')
        have ob': "is_box (occupied rec rw) (Some (p, q, r, s))" using obr Some' b' by simp
        note le = is_box_le [OF ob] is_box_le [OF ob']
        have ipm: "length ip mod iw = 0" "length rp mod rw = 0"
          using pad_rows_ok iw rw by (simp_all add: ip_def rp_def)
        have ci: "cell inp iw (int (a + i)) (int (e + j)) = ip ! ((e + j) * iw + (a + i))"
          if "a + i \<le> c" "e + j \<le> f" for i j
          using cell_inside [of iw ip a c e f i j] ob that ipm iw by (simp add: ip_def occupied_pad cell_pad)
        have cr: "cell rec rw (int (p + i)) (int (r + j)) = rp ! ((r + j) * rw + (p + i))"
          if "p + i \<le> q" "r + j \<le> s" for i j
          using cell_inside [of rw rp p q r s i j] ob' that ipm rw by (simp add: rp_def occupied_pad cell_pad)
        have sc: "shaped_check idef inp iw rec rw \<longleftrightarrow> c - a = q - p \<and> f - e = s - r \<and>
          (\<forall>j\<le>f - e. \<forall>i\<le>c - a. fits idef (ip ! ((e + j) * iw + (a + i))) (rp ! ((r + j) * rw + (p + i))))"
          using Some Some' iw rw b b'
          by (simp add: shaped_check_def Let_def fits_def box_matches_iff del: box_matches.simps flip: ip_def rp_def) blast
        show ?thesis
        proof
          assume "shaped_check idef inp iw rec rw"
          with sc have sizes: "c - a = q - p" "f - e = s - r" and
            all: "\<And>i j. j \<le> f - e \<Longrightarrow> i \<le> c - a \<Longrightarrow> fits idef (ip ! ((e + j) * iw + (a + i))) (rp ! ((r + j) * rw + (p + i)))"
            by blast+
          define dx where "dx = int a - int p"
          define dy where "dy = int e - int r"
          have "fits idef (cell inp iw (x + dx) (y + dy)) (cell rec rw x y)" for x y
          proof (cases "int p \<le> x \<and> x \<le> int q \<and> int r \<le> y \<and> y \<le> int s")
            case True
            define i where "i = nat (x - int p)"
            define j where "j = nat (y - int r)"
            have ij: "x = int (p + i)" "y = int (r + j)" "i \<le> c - a" "j \<le> f - e"
              using True sizes by (auto simp: i_def j_def)
            have xd: "x + dx = int (a + i)" "y + dy = int (e + j)" using ij by (simp_all add: dx_def dy_def)
            have "fits idef (cell inp iw (int (a + i)) (int (e + j))) (cell rec rw (int (p + i)) (int (r + j)))"
              using all [OF ij(4,3)] ci [of i j] cr [of i j] ij(3,4) sizes le by simp
            then show ?thesis unfolding xd unfolding ij(1,2) .
          next
            case False
            then have "(x, y) \<notin> occupied rec rw" using ob' by auto
            moreover have "(x + dx, y + dy) \<notin> occupied inp iw"
              using ob False sizes le by (auto simp: dx_def dy_def)
            ultimately show ?thesis by (simp add: occupied_def)
          qed
          with ne show "shape_fits idef inp iw rec rw" unfolding shape_fits_def by blast
        next
          assume "shape_fits idef inp iw rec rw"
          then obtain dx dy where d: "\<forall>x y. fits idef (cell inp iw (x + dx) (y + dy)) (cell rec rw x y)"
            by (auto simp: shape_fits_def)
          note m = is_box_moved [OF ob' ob [unfolded moved [OF d]]]
          have sizes: "c - a = q - p" "f - e = s - r" using m le by linarith+
          have "fits idef (ip ! ((e + j) * iw + (a + i))) (rp ! ((r + j) * rw + (p + i)))"
            if "j \<le> f - e" "i \<le> c - a" for i j
          proof -
            have "int (p + i) + dx = int (a + i)" "int (r + j) + dy = int (e + j)" using m by simp_all
            then have "fits idef (cell inp iw (int (a + i)) (int (e + j))) (cell rec rw (int (p + i)) (int (r + j)))"
              using d by metis
            with ci [of i j] cr [of i j] that sizes le show ?thesis by simp
          qed
          with sc sizes show "shaped_check idef inp iw rec rw" by blast
        qed
      qed
    qed
  qed
qed

section \<open>What a recipe means\<close>

text \<open>
  The names of a recipe, which \<open>initHash\<close> keeps and \<open>check\<close> otherwise reads from the item
  strings again.
\<close>

definition has_names :: "u16 \<Rightarrow> IItemDefManager \<Rightarrow> CraftDefinition \<Rightarrow> bytes list \<Rightarrow> bool" where
  "has_names stale idef d names \<longleftrightarrow>
     (case cd_class d of
        CraftDefinitionShaped out width recipe replacements \<Rightarrow>
          craftGetItemNames stale recipe idef = Inr names \<and> (cd_hash_inited d \<longrightarrow> cd_recipe_names d = names)
      | CraftDefinitionShapeless out recipe replacements \<Rightarrow>
          craftGetItemNames stale recipe idef = Inr names \<and> (cd_hash_inited d \<longrightarrow> cd_recipe_names d = sort names)
      | CraftDefinitionToolRepair additional_wear \<Rightarrow> names = []
      | CraftDefinitionCooking out recipe cooktime replacements \<Rightarrow>
          craftGetItemNames stale [recipe] idef = Inr names \<and> (cd_hash_inited d \<longrightarrow> [cd_recipe_name d] = names)
      | CraftDefinitionFuel recipe burntime replacements \<Rightarrow>
          craftGetItemNames stale [recipe] idef = Inr names \<and> (cd_hash_inited d \<longrightarrow> [cd_recipe_name d] = names))"

definition named :: "bytes \<Rightarrow> bool" where
  "named n \<longleftrightarrow> n \<noteq> []"

text \<open>
  The meaning: a shaped recipe fits somewhere on the grid; the stacks fill the slots of the
  others, one each; tool repair takes exactly two stacks.
\<close>

definition recipe_fits :: "IItemDefManager \<Rightarrow> CraftInput \<Rightarrow> CraftDefinition \<Rightarrow> bytes list \<Rightarrow> bool" where
  "recipe_fits idef inp d names \<longleftrightarrow>
     (let inp_names = stackNames (ci_items inp) in
      case cd_class d of
        CraftDefinitionShaped out width recipe replacements \<Rightarrow>
          ci_method inp = CRAFT_METHOD_NORMAL \<and> shape_fits idef inp_names (unat (ci_width inp)) names (unat width)
      | CraftDefinitionShapeless out recipe replacements \<Rightarrow>
          ci_method inp = CRAFT_METHOD_NORMAL \<and> fills (fits idef) (filter named inp_names) names
      | CraftDefinitionToolRepair additional_wear \<Rightarrow>
          ci_method inp = CRAFT_METHOD_NORMAL \<and>
          (\<exists>a b. filter (\<lambda>s. \<not> st_empty s) (ci_items inp) = [a, b] \<and>
            \<not> st_empty (craftToolRepair a b additional_wear idef))
      | CraftDefinitionCooking out recipe cooktime replacements \<Rightarrow>
          ci_method inp = CRAFT_METHOD_COOKING \<and> fills (fits idef) (filter named inp_names) names
      | CraftDefinitionFuel recipe burntime replacements \<Rightarrow>
          ci_method inp = CRAFT_METHOD_FUEL \<and> fills (fits idef) (filter named inp_names) names)"

lemma filter_named [simp]: "filter (\<lambda>n. n \<noteq> []) ns = filter named ns"
  by (simp add: named_def [abs_def])

lemma fills_single: "fills P xs [r] \<longleftrightarrow> (\<exists>n. xs = [n] \<and> P n r)"
proof
  assume "fills P xs [r]"
  then obtain ys where ys: "mset ys = mset xs" "list_all2 P ys [r]" by (auto simp: fills_def)
  then obtain n where "ys = [n]" "P n r" by (auto simp: list_all2_Cons2)
  with ys(1) show "\<exists>n. xs = [n] \<and> P n r" by (metis mset_single_iff_right mset_single_iff mset.simps(1,2))
qed (auto simp: fills_def)

lemma single_check_ok:
  assumes "craftGetItemNames stale [recipe] idef = Inr names"
  shows "single_check stale idef stacks recipe = Inr (fills (fits idef) (filter named (stackNames stacks)) names)"
proof -
  obtain r where r: "craftGetItemName stale recipe idef = Inr r" "names = [r]"
    using assms by (auto simp: bind_ok_Inr)
  show ?thesis
  proof (cases "\<exists>n. filter named (stackNames stacks) = [n]")
    case True
    with r show ?thesis by (auto simp: single_check_def fills_single fits_def)
  next
    case False
    then have "length (filter named (stackNames stacks)) \<noteq> 1"
      by (metis length_0_conv length_Suc_conv One_nat_def)
    with False r show ?thesis by (simp add: single_check_def fills_single)
  qed
qed

lemma two_items_ok:
  "two_items stacks a b =
     (let l = filter (\<lambda>s. \<not> st_empty s) stacks in
      if st_empty a then
        (case l of [] \<Rightarrow> Some (a, b) | [x] \<Rightarrow> if st_empty b then Some (x, b) else Some (x, b)
         | [x, y] \<Rightarrow> if st_empty b then Some (x, y) else None | _ \<Rightarrow> None)
      else if st_empty b then (case l of [] \<Rightarrow> Some (a, b) | [y] \<Rightarrow> Some (a, y) | _ \<Rightarrow> None)
      else (case l of [] \<Rightarrow> Some (a, b) | _ \<Rightarrow> None))"
  by (induction stacks a b rule: two_items.induct) (auto simp: Let_def split: list.splits)

lemma repair_needs_two: "st_empty b \<Longrightarrow> craftToolRepair a b w idef = no_item"
  by (simp add: craftToolRepair_def st_empty_def)

lemma craftGetItemNames_length: "craftGetItemNames stale ss idef = Inr names \<Longrightarrow> length names = length ss"
  by (induction ss arbitrary: names) (auto simp: bind_ok_Inr)

text \<open>Recipes with too many group slots are refused by the code.\<close>

definition not_too_many :: "CraftDefinition \<Rightarrow> bytes list \<Rightarrow> bool" where
  "not_too_many d names \<longleftrightarrow>
     (case cd_class d of
        CraftDefinitionShapeless out recipe replacements \<Rightarrow> length (filter isGroupRecipeStr names) \<le> SHAPELESS_GROUPS_MAX
      | _ \<Rightarrow> True)"

lemma check_run:
  assumes need: "needs_items idef names" and n: "has_names stale idef d names" and few: "not_too_many d names"
  shows "check stale idef inp d = Inr (recipe_fits idef inp d names)"
proof (cases "cd_class d")
  case (CraftDefinitionShaped out width recipe replacements)
  with n have names: "craftGetItemNames stale recipe idef = Inr names" "cd_hash_inited d \<Longrightarrow> cd_recipe_names d = names"
    by (auto simp: has_names_def)
  let ?in = "stackNames (ci_items inp)" and ?w = "unat (ci_width inp)"
  have *: "\<not> shape_fits idef ?in ?w names (unat width)"
    if "?w = 0 \<or> craftGetBounds (pad_rows ?w ?in) ?w = None"
  proof -
    from that have "\<not> shaped_check idef ?in ?w names (unat width)"
      by (auto simp: shaped_check_def Let_def split: if_splits)
    with shaped_check_ok [OF need] show ?thesis by simp
  qed
  from names CraftDefinitionShaped * show ?thesis
    by (auto simp: check_defs recipe_fits_def Let_def shaped_check_ok [OF need])
next
  case (CraftDefinitionShapeless out recipe replacements)
  with n have names: "craftGetItemNames stale recipe idef = Inr names" "cd_hash_inited d \<Longrightarrow> cd_recipe_names d = sort names"
    by (auto simp: has_names_def)
  let ?in = "stackNames (ci_items inp)"
  have len: "length names = length recipe" using craftGetItemNames_length [OF names(1)] .
  have "shapeless_check idef ?in (sort names) = fills (fits idef) (filter named ?in) names"
    if "length (filter named ?in) = length recipe"
  proof -
    have "mset (filter isGroupRecipeStr (sort names)) = mset (filter isGroupRecipeStr names)" by simp
    then have "length (filter isGroupRecipeStr (sort names)) \<le> SHAPELESS_GROUPS_MAX"
      using few CraftDefinitionShapeless by (metis (no_types, lifting) mset_eq_length not_too_many_def craft_class.simps(27))
    then have "shapeless_check idef ?in (sort names) = fills (fits idef) (filter named ?in) (sort names)"
      using shapeless_check_ok [of ?in "sort names" idef] that len by simp
    also have "\<dots> = fills (fits idef) (filter named ?in) names" by (rule fills_mset_right) simp
    finally show ?thesis .
  qed
  moreover have "\<not> fills (fits idef) (filter named ?in) names" if "length (filter named ?in) \<noteq> length recipe"
    using that len fills_length by metis
  ultimately show ?thesis using names CraftDefinitionShapeless
    by (auto simp: check_defs recipe_fits_def Let_def)
next
  case (CraftDefinitionToolRepair additional_wear)
  let ?l = "filter (\<lambda>s. \<not> st_empty s) (ci_items inp)"
  consider "?l = []" | a where "?l = [a]" | a b where "?l = [a, b]" | a b c r where "?l = a # b # c # r"
    by (metis neq_Nil_conv)
  then show ?thesis
    using CraftDefinitionToolRepair
    by cases (simp_all add: check_defs recipe_fits_def Let_def two_items_ok repair_needs_two)
next
  case (CraftDefinitionCooking out recipe cooktime replacements)
  with n have "craftGetItemNames stale [recipe] idef = Inr names" by (simp add: has_names_def)
  from single_check_ok [OF this] CraftDefinitionCooking show ?thesis
    by (simp add: check_defs recipe_fits_def Let_def)
next
  case (CraftDefinitionFuel recipe burntime replacements)
  with n have "craftGetItemNames stale [recipe] idef = Inr names" by (simp add: has_names_def)
  from single_check_ok [OF this] CraftDefinitionFuel show ?thesis
    by (simp add: check_defs recipe_fits_def Let_def)
qed

text \<open>
  C17.  \<open>check\<close> decides what a recipe means.  Shaped: some displacement puts every place of the
  input on a place of the recipe it fits, wherever on the grid the items are and whatever its
  width.  Shapeless, cooking, fuel: the stacks can be put to the slots one each so that every
  slot is filled by a stack of that name or of all its groups; the exact names are removed from
  both sides first, and the matching decides about the rest.  Tool repair: exactly two stacks.  This is
  so for a recipe whose names can be read, which has no more group slots than the code takes, and none
  for a group that the hand is in.
\<close>

theorem check_decides:
  assumes "needs_items idef names" and "has_names stale idef d names" and "not_too_many d names"
  shows "check stale idef inp d = Inr (recipe_fits idef inp d names)"
  using assms by (rule check_run)

definition craft_idef :: IItemDefManager where
  "craft_idef =
     \<lparr>idef_get = (\<lambda>n. if n = lit ''wood'' then new_ItemDefinition\<lparr>def_groups := fmupd (lit ''fuel'') 1 fmempty\<rparr>
        else if n = [] then new_ItemDefinition\<lparr>def_groups := fmupd (lit ''not_in_creative_inventory'') 1 fmempty\<rparr>
        else new_ItemDefinition), idef_getAlias = (\<lambda>n. n), idef_isKnown = (\<lambda>_. True)\<rparr>"

definition one_item :: "string \<Rightarrow> ItemStack" where
  "one_item n = new_ItemStack (lit n) 1 0 craft_idef"

definition sample_recipe :: CraftDefinition where
  "sample_recipe = new_CraftDefinition
     (CraftDefinitionShapeless (lit ''torch'') [lit ''coal'', lit ''group:fuel''] [])"

definition sample_grid :: CraftInput where
  "sample_grid = \<lparr>ci_method = CRAFT_METHOD_NORMAL, ci_width = 2,
     ci_items = [one_item ''wood'', no_item, one_item ''coal'']\<rparr>"

lemma sample_needs: "needs_items craft_idef [lit ''coal'', lit ''group:fuel'']"
proof -
  have "\<not> inputItemMatchesRecipe [] (lit ''coal'') craft_idef" by code_simp
  moreover have "\<not> inputItemMatchesRecipe [] (lit ''group:fuel'') craft_idef" by code_simp
  ultimately show ?thesis by (simp add: needs_items_def fits_def)
qed

lemma sample_names: "has_names stale craft_idef sample_recipe [lit ''coal'', lit ''group:fuel'']"
proof -
  have "craftGetItemNames stale [lit ''coal'', lit ''group:fuel''] craft_idef = Inr [lit ''coal'', lit ''group:fuel'']"
    by code_simp
  then show ?thesis by (simp add: has_names_def sample_recipe_def new_CraftDefinition_def)
qed

lemma sample_fits: "recipe_fits craft_idef sample_grid sample_recipe [lit ''coal'', lit ''group:fuel'']"
proof -
  have "fits craft_idef (lit ''coal'') (lit ''coal'')" by (simp add: fits_def inputItemMatchesRecipe_def)
  moreover have "fits craft_idef (lit ''wood'') (lit ''group:fuel'')" unfolding fits_def by code_simp
  ultimately have "fills (fits craft_idef) [lit ''wood'', lit ''coal''] [lit ''coal'', lit ''group:fuel'']"
    by (auto simp: fills_def intro!: exI [of _ "[lit ''coal'', lit ''wood'']"])
  moreover have "filter named (stackNames (ci_items sample_grid)) = [lit ''wood'', lit ''coal'']" by code_simp
  moreover have "ci_method sample_grid = CRAFT_METHOD_NORMAL" by (simp add: sample_grid_def)
  ultimately show ?thesis by (simp add: recipe_fits_def sample_recipe_def new_CraftDefinition_def)
qed

theorem check_decides_witness:
  "check 0 craft_idef sample_grid sample_recipe = Inr True"
  using check_decides [OF sample_needs sample_names] sample_fits
  by (simp add: not_too_many_def sample_recipe_def new_CraftDefinition_def SHAPELESS_GROUPS_MAX_def)

end
