(* ===== verification/CraftLookup.thy ===== *)
theory CraftLookup
  imports CraftMatch
begin

text \<open>
  The manager of the recipes (\<open>CCraftDefManager\<close> of \<open>src/craftdef.cpp\<close>) finds by hash what
  looking at all recipes would find: a recipe that fits the input has the hash of the input.
\<close>

section \<open>A fitting recipe has the hash of the input\<close>

lemma mset_filter_nth:
  "mset (filter P xs) = image_mset ((!) xs) (mset_set {k. k < length xs \<and> P (xs ! k)})"
proof (induction xs rule: rev_induct)
  case (snoc x xs)
  have "{k. k < length (xs @ [x]) \<and> P ((xs @ [x]) ! k)} =
      {k. k < length xs \<and> P (xs ! k)} \<union> (if P x then {length xs} else {})"
    by (auto simp: nth_append less_Suc_eq)
  moreover have "image_mset ((!) (xs @ [x])) (mset_set {k. k < length xs \<and> P (xs ! k)}) =
      image_mset ((!) xs) (mset_set {k. k < length xs \<and> P (xs ! k)})"
    by (rule image_mset_cong) (simp add: nth_append)
  ultimately show ?case using snoc by simp
qed simp

text \<open>The names of a matrix by place.\<close>

lemma finite_occupied [simp]: "finite (occupied names width)"
proof (cases "width = 0")
  case True
  then show ?thesis by (simp add: occupied_def)
next
  case False
  then have "occupied names width = places names width 0" by (simp add: places_occupied)
  then show ?thesis by (simp add: places_def)
qed

lemma names_by_place:
  assumes "0 < width"
  shows "mset (filter named names) = image_mset (\<lambda>(x, y). cell names width x y) (mset_set (occupied names width))"
proof -
  define K where "K = {k. k < length names \<and> named (names ! k)}"
  define pos where "pos k = (int (k mod width), int (k div width))" for k
  have "occupied names width = pos ` K"
    using places_occupied [OF assms, of names] by (auto simp: places_def K_def pos_def named_def)
  moreover have "inj_on pos K"
  proof (rule inj_onI)
    fix a b assume "pos a = pos b"
    then have "a mod width = b mod width" "a div width = b div width" by (simp_all add: pos_def)
    then show "a = b" by (metis div_mult_mod_eq)
  qed
  ultimately have "mset_set (occupied names width) = image_mset pos (mset_set K)"
    by (simp add: image_mset_mset_set)
  then have "image_mset (\<lambda>(x, y). cell names width x y) (mset_set (occupied names width)) =
      image_mset (\<lambda>k. cell names width (int (k mod width)) (int (k div width))) (mset_set K)"
    by (simp add: image_mset.compositionality comp_def pos_def)
  also have "\<dots> = image_mset ((!) names) (mset_set K)"
    by (rule image_mset_cong) (use assms in \<open>simp add: cell_def K_def\<close>)
  finally show ?thesis unfolding mset_filter_nth K_def by (rule sym)
qed

lemma shape_fits_moved:
  assumes "needs_items idef rec" and "shape_fits idef inp iw rec rw"
  shows "\<exists>dx dy. occupied inp iw = (\<lambda>(x, y). (x + dx, y + dy)) ` occupied rec rw \<and>
    (\<forall>x y. fits idef (cell inp iw (x + dx) (y + dy)) (cell rec rw x y)) \<and> 0 < iw \<and> 0 < rw"
proof -
  obtain dx dy where d: "\<forall>x y. fits idef (cell inp iw (x + dx) (y + dy)) (cell rec rw x y)"
    and ne: "occupied inp iw \<noteq> {}" using assms(2) by (auto simp: shape_fits_def)
  have iff: "(x, y) \<in> occupied rec rw \<longleftrightarrow> (x + dx, y + dy) \<in> occupied inp iw" for x y
    using d fits_nothing cell_fits_nothing [OF assms(1)] unfolding occupied_def mem_Collect_eq split_conv by metis
  have "occupied inp iw = (\<lambda>(x, y). (x + dx, y + dy)) ` occupied rec rw"
  proof (intro set_eqI iffI)
    fix z assume "z \<in> occupied inp iw"
    moreover obtain x y where "z = (x, y)" by (cases z)
    ultimately have "(x - dx, y - dy) \<in> occupied rec rw" using iff [of "x - dx" "y - dy"] by simp
    then show "z \<in> (\<lambda>(x, y). (x + dx, y + dy)) ` occupied rec rw"
      using \<open>z = (x, y)\<close> by (force simp: image_iff)
  qed (use iff in auto)
  moreover have "0 < iw" "0 < rw"
    using ne calculation by (auto simp: occupied_def intro: Nat.gr0I)
  ultimately show ?thesis using d by blast
qed

lemma shape_fits_names:
  assumes "needs_items idef rec" and "shape_fits idef inp iw rec rw"
  shows "length (filter named inp) = length (filter named rec)"
    and "\<not> hasGroupItem rec \<Longrightarrow> mset (filter named inp) = mset (filter named rec)"
proof -
  obtain dx dy where m: "occupied inp iw = (\<lambda>(x, y). (x + dx, y + dy)) ` occupied rec rw"
    "\<And>x y. fits idef (cell inp iw (x + dx) (y + dy)) (cell rec rw x y)" "0 < iw" "0 < rw"
    using shape_fits_moved [OF assms] by auto
  have "inj_on (\<lambda>(x, y). (x + dx, y + dy)) (occupied rec rw)" by (auto simp: inj_on_def)
  then have "mset_set (occupied inp iw) = image_mset (\<lambda>(x, y). (x + dx, y + dy)) (mset_set (occupied rec rw))"
    by (simp add: m(1) image_mset_mset_set)
  then have inp: "mset (filter named inp) = image_mset (\<lambda>(x, y). cell inp iw (x + dx) (y + dy)) (mset_set (occupied rec rw))"
    unfolding names_by_place [OF m(3)] by (simp add: image_mset.compositionality comp_def case_prod_unfold)
  note rec = names_by_place [OF m(4), of rec]
  show "length (filter named inp) = length (filter named rec)"
    using arg_cong [OF inp, of size] arg_cong [OF rec, of size] unfolding size_mset size_image_mset by simp
  assume no: "\<not> hasGroupItem rec"
  have "cell inp iw (x + dx) (y + dy) = cell rec rw x y" for x y
  proof -
    have "cell rec rw x y = [] \<or> cell rec rw x y \<in> set rec" by (auto simp: cell_def)
    moreover have "\<not> isGroupRecipeStr []" by (simp add: isGroupRecipeStr_def str_starts_with_def lit_def)
    ultimately have "\<not> isGroupRecipeStr (cell rec rw x y)"
      using no by (auto simp: hasGroupItem_def list_ex_iff)
    with m(2) [of x y] show ?thesis by (simp add: fits_def exact_slot)
  qed
  then show "mset (filter named inp) = mset (filter named rec)" unfolding inp rec by simp
qed

lemma fills_names:
  assumes "fills (fits idef) (filter named inp) rec"
  shows "filter named rec = rec" and "\<not> hasGroupItem rec \<Longrightarrow> mset (filter named inp) = mset rec"
proof -
  obtain ys where ys: "mset ys = mset (filter named inp)" "list_all2 (fits idef) ys rec"
    using assms by (auto simp: fills_def)
  have named: "named y" if "y \<in> set ys" for y
    using that mset_eq_setD [OF ys(1)] by auto
  have "named r" if r: "r \<in> set rec" for r
  proof -
    obtain k where "k < length rec" "rec ! k = r" using r by (auto simp: in_set_conv_nth)
    with ys(2) have "fits idef (ys ! k) r" "ys ! k \<in> set ys" by (auto simp: list_all2_conv_all_nth)
    with named [of "ys ! k"] show ?thesis by (auto simp: named_def)
  qed
  then show "filter named rec = rec" by (simp add: filter_id_conv)
  assume no: "\<not> hasGroupItem rec"
  have "ys = rec"
  proof (rule nth_equalityI)
    show "length ys = length rec" using ys(2) by (rule list_all2_lengthD)
    fix k assume "k < length ys"
    with ys(2) have "fits idef (ys ! k) (rec ! k)" "rec ! k \<in> set rec" by (auto simp: list_all2_conv_all_nth)
    with no show "ys ! k = rec ! k" by (auto simp: fits_def exact_slot hasGroupItem_def list_ex_iff)
  qed
  with ys(1) show "mset (filter named inp) = mset rec" by simp
qed

text \<open>The hash type of a recipe is that of its names.\<close>

definition hash_ready :: "u16 \<Rightarrow> IItemDefManager \<Rightarrow> CraftDefinition \<Rightarrow> bytes list \<Rightarrow> bool" where
  "hash_ready stale idef d names \<longleftrightarrow> has_names stale idef d names \<and>
     (case cd_class d of
        CraftDefinitionToolRepair additional_wear \<Rightarrow> cd_hash_type d = CRAFT_HASH_TYPE_COUNT
      | _ \<Rightarrow> cd_hash_inited d \<and>
          cd_hash_type d = (if hasGroupItem names then CRAFT_HASH_TYPE_COUNT else CRAFT_HASH_TYPE_ITEM_NAMES))"

lemma hash_of_names:
  assumes "mset (filter named a) = mset (filter named b)"
  shows "getHashForGrid type (sort a) = getHashForGrid type (sort b)"
proof -
  have "sort (filter named a) = sort (filter named b)"
    using assms by (metis sorted_list_of_multiset_mset)
  then show ?thesis by (cases type) (simp_all add: filter_sort)
qed

lemma hash_of_count:
  "length (filter named a) = length (filter named b) \<Longrightarrow>
   getHashForGrid CRAFT_HASH_TYPE_COUNT a = getHashForGrid CRAFT_HASH_TYPE_COUNT b"
  by simp

lemma count_sort [simp]: "length (filter P (sort xs)) = length (filter P xs)"
  by (simp add: filter_sort)

text \<open>Stacks as the code keeps them: those without a name are those without items.\<close>

definition clean_stacks :: "ItemStack list \<Rightarrow> bool" where
  "clean_stacks stacks \<longleftrightarrow> (\<forall>s\<in>set stacks. st_empty s \<longleftrightarrow> st_name s = [])"

lemma fitting_hash:
  assumes need: "needs_items idef names" and r: "hash_ready stale idef d names"
    and f: "recipe_fits idef inp d names" and clean: "clean_stacks (ci_items inp)"
  shows "getHash d (cd_hash_type d) = getHashForGrid (cd_hash_type d) (sort (stackNames (ci_items inp)))"
proof -
  let ?in = "stackNames (ci_items inp)"
  have single: "\<exists>n r. filter named ?in = [n] \<and> [cd_recipe_name d] = [r] \<and> fits idef n r \<and> (\<not> isGroupRecipeStr r \<longrightarrow> n = r)"
    if "fills (fits idef) (filter named ?in) [cd_recipe_name d]"
    using that by (auto simp: fills_single fits_def exact_slot)
  have one: "filter named (sort ?in) = [n]" if "filter named ?in = [n]" for n
    using that by (simp add: filter_sort)
  show ?thesis
  proof (cases "cd_class d")
    case (CraftDefinitionShaped out width recipe replacements)
    with r have n: "cd_recipe_names d = names" "cd_hash_type d = (if hasGroupItem names then CRAFT_HASH_TYPE_COUNT else CRAFT_HASH_TYPE_ITEM_NAMES)"
      by (auto simp: hash_ready_def has_names_def)
    from f CraftDefinitionShaped have "shape_fits idef ?in (unat (ci_width inp)) names (unat width)"
      by (simp add: recipe_fits_def)
    note s = shape_fits_names [OF need this]
    show ?thesis
    proof (cases "hasGroupItem names")
      case True
      with CraftDefinitionShaped n s(1) show ?thesis by (simp add: getHash_defs)
    next
      case False
      with CraftDefinitionShaped n hash_of_names [OF s(2) [OF False], of "CRAFT_HASH_TYPE_ITEM_NAMES"] show ?thesis
        by (simp add: getHash_defs)
    qed
  next
    case (CraftDefinitionShapeless out recipe replacements)
    with r have n: "cd_recipe_names d = sort names" "cd_hash_type d = (if hasGroupItem names then CRAFT_HASH_TYPE_COUNT else CRAFT_HASH_TYPE_ITEM_NAMES)"
      by (auto simp: hash_ready_def has_names_def)
    from f CraftDefinitionShapeless have fl: "fills (fits idef) (filter named ?in) names" by (simp add: recipe_fits_def)
    note s = fills_names [OF fl]
    show ?thesis
    proof (cases "hasGroupItem names")
      case True
      with CraftDefinitionShapeless n s(1) fills_length [OF fl] show ?thesis by (simp add: getHash_defs)
    next
      case False
      have "mset (filter named ?in) = mset (filter named names)" using s(1) s(2) [OF False] by simp
      with CraftDefinitionShapeless n False hash_of_names [OF this, of "CRAFT_HASH_TYPE_ITEM_NAMES"] show ?thesis
        by (simp add: getHash_defs)
    qed
  next
    case (CraftDefinitionToolRepair additional_wear)
    with r have t: "cd_hash_type d = CRAFT_HASH_TYPE_COUNT" by (simp add: hash_ready_def)
    obtain a b where ab: "filter (\<lambda>s. \<not> st_empty s) (ci_items inp) = [a, b]"
      using f CraftDefinitionToolRepair by (auto simp: recipe_fits_def)
    have "filter named ?in = map st_name (filter (\<lambda>s. \<not> st_empty s) (ci_items inp))"
      using clean unfolding stackNames_def filter_map
      by (intro arg_cong [where f = "map st_name"] filter_cong) (auto simp: named_def clean_stacks_def)
    with ab CraftDefinitionToolRepair t show ?thesis by (simp add: getHash_defs)
  next
    case (CraftDefinitionCooking out recipe cooktime replacements)
    with r have n: "names = [cd_recipe_name d]" "cd_hash_type d = (if hasGroupItem names then CRAFT_HASH_TYPE_COUNT else CRAFT_HASH_TYPE_ITEM_NAMES)"
      by (auto simp: hash_ready_def has_names_def)
    with f CraftDefinitionCooking single one show ?thesis
      by (auto simp: recipe_fits_def getHash_defs hasGroupItem_def)
  next
    case (CraftDefinitionFuel recipe burntime replacements)
    with r have n: "names = [cd_recipe_name d]" "cd_hash_type d = (if hasGroupItem names then CRAFT_HASH_TYPE_COUNT else CRAFT_HASH_TYPE_ITEM_NAMES)"
      by (auto simp: hash_ready_def has_names_def)
    with f CraftDefinitionFuel single one show ?thesis
      by (auto simp: recipe_fits_def getHash_defs hasGroupItem_def)
  qed
qed

section \<open>The manager before the hashes are made\<close>

text \<open>
  All recipes are in the bucket 0 of \<open>CRAFT_HASH_TYPE_UNHASHED\<close>, in the order in which they were
  registered, and the outputs refer to these recipes only, each to its own.
\<close>

definition crafts_ok :: "CCraftDefManager \<Rightarrow> bool" where
  "crafts_ok m \<longleftrightarrow>
     (\<forall>type hash. (type, hash) \<noteq> (CRAFT_HASH_TYPE_UNHASHED, 0) \<longrightarrow> entry (m_craft_defs m type) hash = []) \<and>
     (\<forall>i. i \<in> set (entry (m_craft_defs m CRAFT_HASH_TYPE_UNHASHED) 0) \<longleftrightarrow> i |\<in>| fmdom (craft_store m)) \<and>
     sorted_wrt (<) (entry (m_craft_defs m CRAFT_HASH_TYPE_UNHASHED) 0) \<and>
     (\<forall>i d. fmlookup (craft_store m) i = Some d \<longrightarrow> i < craft_next m \<and> d = new_CraftDefinition (cd_class d)) \<and>
     (\<forall>name i. i \<in> set (entry (m_output_craft_definitions m) name) \<longrightarrow> i |\<in>| fmdom (craft_store m) \<and>
       (\<forall>name'. i \<in> set (entry (m_output_craft_definitions m) name') \<longrightarrow> name' = name))"

lemma crafts_okD:
  assumes "crafts_ok m"
  shows "(type, hash) \<noteq> (CRAFT_HASH_TYPE_UNHASHED, 0) \<Longrightarrow> entry (m_craft_defs m type) hash = []"
    and "i \<in> set (entry (m_craft_defs m CRAFT_HASH_TYPE_UNHASHED) 0) \<longleftrightarrow> i |\<in>| fmdom (craft_store m)"
    and "sorted_wrt (<) (entry (m_craft_defs m CRAFT_HASH_TYPE_UNHASHED) 0)"
    and "fmlookup (craft_store m) i = Some d \<Longrightarrow> i < craft_next m \<and> d = new_CraftDefinition (cd_class d)"
    and "i \<in> set (entry (m_output_craft_definitions m) name) \<Longrightarrow> i |\<in>| fmdom (craft_store m)"
    and "i \<in> set (entry (m_output_craft_definitions m) name) \<Longrightarrow> i \<in> set (entry (m_output_craft_definitions m) name') \<Longrightarrow> name' = name"
  using assms unfolding crafts_ok_def by blast+

lemma entry_simps [simp]:
  "entry fmempty k = []" "entry (fmupd k ids t) k' = (if k = k' then ids else entry t k')"
  "entry (fmdrop k t) k' = (if k = k' then [] else entry t k')"
  "entry (add_entry k i t) k' = (if k = k' then entry t k @ [i] else entry t k')"
  "entry (fmmap f t) k = (case fmlookup t k of None \<Rightarrow> [] | Some ids \<Rightarrow> f ids)"
  by (auto simp: entry_def add_entry_def split: option.splits)

lemma new_manager_ok: "crafts_ok new_CCraftDefManager"
  by (simp add: crafts_ok_def new_CCraftDefManager_def)

lemma clear_ok: "crafts_ok (crafts_clear m)"
  by (simp add: crafts_ok_def crafts_clear_def)

lemma register_ok:
  assumes ok: "crafts_ok m" and r: "registerCraft stale ord idef (new_CraftDefinition c) m = Inr m'"
  shows "crafts_ok m'"
proof -
  let ?i = "craft_next m"
  obtain name where m': "m' = m\<lparr>craft_store := fmupd ?i (new_CraftDefinition c) (craft_store m), craft_next := ?i + 1,
      m_craft_defs := (m_craft_defs m)(CRAFT_HASH_TYPE_UNHASHED := add_entry 0 ?i (m_craft_defs m CRAFT_HASH_TYPE_UNHASHED)),
      m_output_craft_definitions := add_entry name ?i (m_output_craft_definitions m)\<rparr>"
    using r by (auto simp: registerCraft_def Let_def bind_ok_Inr)
  have less: "j < ?i" if "j |\<in>| fmdom (craft_store m)" for j
    using crafts_okD(4) [OF ok] that by (auto simp: fmlookup_dom_iff)
  have new: "?i |\<notin>| fmdom (craft_store m)" using less by blast
  have cls: "cd_class (new_CraftDefinition c) = c" by (simp add: new_CraftDefinition_def)
  show ?thesis
    unfolding crafts_ok_def
  proof (intro conjI allI impI)
    show "entry (m_craft_defs m' type) hash = []" if "(type, hash) \<noteq> (CRAFT_HASH_TYPE_UNHASHED, 0)" for type hash
      using that crafts_okD(1) [OF ok] by (auto simp: m')
    show "i \<in> set (entry (m_craft_defs m' CRAFT_HASH_TYPE_UNHASHED) 0) \<longleftrightarrow> i |\<in>| fmdom (craft_store m')" for i
      using crafts_okD(2) [OF ok] by (auto simp: m')
    show "sorted_wrt (<) (entry (m_craft_defs m' CRAFT_HASH_TYPE_UNHASHED) 0)"
      using crafts_okD(2,3) [OF ok] less by (simp add: m' sorted_wrt_append)
    fix i d assume "fmlookup (craft_store m') i = Some d"
    then show "i < craft_next m'" "d = new_CraftDefinition (cd_class d)"
      using crafts_okD(4) [OF ok, of i d] cls by (auto simp: m' split: if_splits)
  next
    fix n i assume "i \<in> set (entry (m_output_craft_definitions m') n)"
    then show "i |\<in>| fmdom (craft_store m')"
      using crafts_okD(5) [OF ok, of i n] by (auto simp: m' split: if_splits)
  next
    fix n i n' assume "i \<in> set (entry (m_output_craft_definitions m') n)"
      "i \<in> set (entry (m_output_craft_definitions m') n')"
    then show "n' = n"
      using crafts_okD(5,6) [OF ok] new by (auto simp: m' split: if_splits)
  qed
qed

lemma fmlookup_fold_fmdrop:
  "fmlookup (fold fmdrop ids t) i = (if i \<in> set ids then None else fmlookup t i)"
  by (induction ids arbitrary: t) auto

lemma clear_output_ok:
  assumes ok: "crafts_ok m" and r: "clearCraftsByOutput output m = (found, m')"
  shows "crafts_ok m'"
proof (cases "fmlookup (m_output_craft_definitions m) (co_item output)")
  case None
  with r ok show ?thesis by (simp add: clearCraftsByOutput_def)
next
  case (Some ids)
  let ?u = "entry (m_craft_defs m CRAFT_HASH_TYPE_UNHASHED) 0"
  have m': "m' = m\<lparr>craft_store := fold fmdrop ids (craft_store m),
      m_craft_defs := (m_craft_defs m)(CRAFT_HASH_TYPE_UNHASHED :=
        fmupd 0 (filter (\<lambda>i. i \<notin> set ids) ?u) (m_craft_defs m CRAFT_HASH_TYPE_UNHASHED)),
      m_output_craft_definitions := fmdrop (co_item output) (m_output_craft_definitions m)\<rparr>"
    using r Some by (simp add: clearCraftsByOutput_def)
  have ids: "entry (m_output_craft_definitions m) (co_item output) = ids" using Some by (simp add: entry_def)
  show ?thesis
    unfolding crafts_ok_def
  proof (intro conjI allI impI)
    show "entry (m_craft_defs m' type) hash = []" if "(type, hash) \<noteq> (CRAFT_HASH_TYPE_UNHASHED, 0)" for type hash
      using that crafts_okD(1) [OF ok] by (auto simp: m')
    show "i \<in> set (entry (m_craft_defs m' CRAFT_HASH_TYPE_UNHASHED) 0) \<longleftrightarrow> i |\<in>| fmdom (craft_store m')" for i
      using crafts_okD(2) [OF ok, of i] by (auto simp: m' fmlookup_dom_iff fmlookup_fold_fmdrop)
    show "sorted_wrt (<) (entry (m_craft_defs m' CRAFT_HASH_TYPE_UNHASHED) 0)"
      using crafts_okD(3) [OF ok] by (simp add: m' sorted_wrt_filter)
    fix i d assume "fmlookup (craft_store m') i = Some d"
    then show "i < craft_next m'" "d = new_CraftDefinition (cd_class d)"
      using crafts_okD(4) [OF ok, of i d] by (auto simp: m' fmlookup_fold_fmdrop split: if_splits)
  next
    fix n i assume "i \<in> set (entry (m_output_craft_definitions m') n)"
    then show "i |\<in>| fmdom (craft_store m')"
      using crafts_okD(5) [OF ok, of i n] crafts_okD(6) [OF ok, of i n "co_item output"] ids
      by (auto simp: m' fmlookup_dom_iff fmlookup_fold_fmdrop split: if_splits)
  next
    fix n i n' assume "i \<in> set (entry (m_output_craft_definitions m') n)"
      "i \<in> set (entry (m_output_craft_definitions m') n')"
    then show "n' = n"
      using crafts_okD(6) [OF ok] by (auto simp: m' split: if_splits)
  qed
qed

lemma partition_defs_ok:
  assumes "partition_defs stale idef m inp ids = Inr (gone, new)"
  shows "set gone \<subseteq> set ids \<and> new = filter (\<lambda>i. i \<notin> set gone) ids \<or> \<not> distinct ids"
  using assms
proof (induction ids arbitrary: gone new)
  case (Cons i ids)
  then obtain ok gone' new' where r: "partition_defs stale idef m inp ids = Inr (gone', new')"
    "gone = (if ok then i # gone' else gone')" "new = (if ok then new' else i # new')"
    by (auto simp: bind_ok_Inr split: if_splits)
  have f: "filter (\<lambda>j. j \<notin> set (i # gone')) ids = filter (\<lambda>j. j \<notin> set gone') ids" if "i \<notin> set ids"
    using that by (intro filter_cong) auto
  from Cons.IH [OF r(1)] r(2,3) f show ?case by auto
qed auto

lemma clear_input_ok:
  assumes ok: "crafts_ok m" and r: "clearCraftsByInput stale idef inp m = Inr (found, m')"
  shows "crafts_ok m'"
proof (cases "m' = m")
  case False
  let ?u = "entry (m_craft_defs m CRAFT_HASH_TYPE_UNHASHED) 0"
  obtain gone new where p: "partition_defs stale idef m inp ?u = Inr (gone, new)" and
    m': "m' = m\<lparr>craft_store := fold fmdrop gone (craft_store m),
      m_craft_defs := (m_craft_defs m)(CRAFT_HASH_TYPE_UNHASHED := fmupd 0 new (m_craft_defs m CRAFT_HASH_TYPE_UNHASHED)),
      m_output_craft_definitions := fmmap (filter (\<lambda>i. i \<notin> set gone)) (m_output_craft_definitions m)\<rparr>"
    using r False by (auto simp: clearCraftsByInput_def bind_ok_Inr split: if_splits)
  have "distinct ?u" using crafts_okD(3) [OF ok] by (simp add: strict_sorted_iff)
  with partition_defs_ok [OF p] have new: "new = filter (\<lambda>i. i \<notin> set gone) ?u" by blast
  have out: "set (entry (m_output_craft_definitions m') n) = set (entry (m_output_craft_definitions m) n) - set gone" for n
    by (auto simp: m' entry_def split: option.splits)
  show ?thesis
    unfolding crafts_ok_def
  proof (intro conjI allI impI)
    show "entry (m_craft_defs m' type) hash = []" if "(type, hash) \<noteq> (CRAFT_HASH_TYPE_UNHASHED, 0)" for type hash
      using that crafts_okD(1) [OF ok] by (auto simp: m')
    show "i \<in> set (entry (m_craft_defs m' CRAFT_HASH_TYPE_UNHASHED) 0) \<longleftrightarrow> i |\<in>| fmdom (craft_store m')" for i
      using crafts_okD(2) [OF ok, of i] by (auto simp: m' new fmlookup_dom_iff fmlookup_fold_fmdrop)
    show "sorted_wrt (<) (entry (m_craft_defs m' CRAFT_HASH_TYPE_UNHASHED) 0)"
      using crafts_okD(3) [OF ok] by (simp add: m' new sorted_wrt_filter)
    fix i d assume "fmlookup (craft_store m') i = Some d"
    then show "i < craft_next m'" "d = new_CraftDefinition (cd_class d)"
      using crafts_okD(4) [OF ok, of i d] by (auto simp: m' fmlookup_fold_fmdrop split: if_splits)
  next
    fix n i assume "i \<in> set (entry (m_output_craft_definitions m') n)"
    then show "i |\<in>| fmdom (craft_store m')"
      using crafts_okD(5) [OF ok, of i n] by (auto simp: out) (auto simp: m' fmlookup_dom_iff fmlookup_fold_fmdrop)
  next
    fix n i n' assume "i \<in> set (entry (m_output_craft_definitions m') n)"
      "i \<in> set (entry (m_output_craft_definitions m') n')"
    then show "n' = n" using crafts_okD(6) [OF ok] by (auto simp: out)
  qed
qed (use ok in simp)

section \<open>The manager with hashes\<close>

lemma new_CraftDefinition_simps [simp]:
  "cd_class (new_CraftDefinition c) = c" "\<not> cd_hash_inited (new_CraftDefinition c)"
  by (simp_all add: new_CraftDefinition_def)

lemma initHash_ready:
  assumes "initHash stale idef (new_CraftDefinition c) = Inr d"
  shows "\<exists>names. hash_ready stale idef d names" and "cd_class d = c"
    and "cd_priority d = cd_priority (new_CraftDefinition c)"
proof -
  have g: "hasGroupItem (sort names) = hasGroupItem names" for names
    by (simp add: hasGroupItem_def list_ex_iff)
  have "\<exists>names. hash_ready stale idef d names \<and> cd_class d = c \<and> cd_priority d = cd_priority (new_CraftDefinition c)"
  proof (cases c)
    case (CraftDefinitionShaped out width recipe replacements)
    with assms obtain names where "craftGetItemNames stale recipe idef = Inr names"
      "d = (new_CraftDefinition c)\<lparr>cd_hash_inited := True, cd_recipe_names := names,
        cd_hash_type := (if hasGroupItem names then CRAFT_HASH_TYPE_COUNT else CRAFT_HASH_TYPE_ITEM_NAMES)\<rparr>"
      by (auto simp: initHash_defs bind_ok_Inr)
    with CraftDefinitionShaped show ?thesis
      by (intro exI [of _ names]) (simp add: hash_ready_def has_names_def)
  next
    case (CraftDefinitionShapeless out recipe replacements)
    with assms obtain names where "craftGetItemNames stale recipe idef = Inr names"
      "d = (new_CraftDefinition c)\<lparr>cd_hash_inited := True, cd_recipe_names := sort names,
        cd_hash_type := (if hasGroupItem names then CRAFT_HASH_TYPE_COUNT else CRAFT_HASH_TYPE_ITEM_NAMES)\<rparr>"
      by (auto simp: initHash_defs bind_ok_Inr g)
    with CraftDefinitionShapeless show ?thesis
      by (intro exI [of _ names]) (simp add: hash_ready_def has_names_def)
  next
    case (CraftDefinitionToolRepair additional_wear)
    with assms show ?thesis
      by (intro exI [of _ "[]"]) (auto simp: initHash_defs hash_ready_def has_names_def)
  next
    case (CraftDefinitionCooking out recipe cooktime replacements)
    with assms obtain name where "craftGetItemName stale recipe idef = Inr name"
      "d = (new_CraftDefinition c)\<lparr>cd_hash_inited := True, cd_recipe_name := name,
        cd_hash_type := (if isGroupRecipeStr name then CRAFT_HASH_TYPE_COUNT else CRAFT_HASH_TYPE_ITEM_NAMES)\<rparr>"
      by (auto simp: initHash_defs bind_ok_Inr)
    with CraftDefinitionCooking show ?thesis
      by (intro exI [of _ "[name]"]) (simp add: hash_ready_def has_names_def hasGroupItem_def)
  next
    case (CraftDefinitionFuel recipe burntime replacements)
    with assms obtain name where "craftGetItemName stale recipe idef = Inr name"
      "d = (new_CraftDefinition c)\<lparr>cd_hash_inited := True, cd_recipe_name := name,
        cd_hash_type := (if isGroupRecipeStr name then CRAFT_HASH_TYPE_COUNT else CRAFT_HASH_TYPE_ITEM_NAMES)\<rparr>"
      by (auto simp: initHash_defs bind_ok_Inr)
    with CraftDefinitionFuel show ?thesis
      by (intro exI [of _ "[name]"]) (simp add: hash_ready_def has_names_def hasGroupItem_def)
  qed
  then show "\<exists>names. hash_ready stale idef d names" "cd_class d = c"
    "cd_priority d = cd_priority (new_CraftDefinition c)" by blast+
qed

lemma priority_known [simp]: "cd_priority (new_CraftDefinition c) \<noteq> PRIORITY_NO_RECIPE"
  by (simp add: new_CraftDefinition_def priority_defs split: craft_class.split)

text \<open>
  Every recipe is in the bucket of its hash, the buckets are in the order of registration and
  hold no others.
\<close>

definition hashed_ok :: "u16 \<Rightarrow> IItemDefManager \<Rightarrow> CCraftDefManager \<Rightarrow> bool" where
  "hashed_ok stale idef m \<longleftrightarrow>
     (\<forall>i d. fmlookup (craft_store m) i = Some d \<longrightarrow>
       (\<exists>names. hash_ready stale idef d names) \<and> cd_priority d \<noteq> PRIORITY_NO_RECIPE \<and>
       i \<in> set (entry (m_craft_defs m (cd_hash_type d)) (getHash d (cd_hash_type d)))) \<and>
     (\<forall>type hash i. i \<in> set (entry (m_craft_defs m type) hash) \<longrightarrow>
       (\<exists>d. fmlookup (craft_store m) i = Some d \<and> cd_hash_type d = type)) \<and>
     (\<forall>type hash. sorted_wrt (<) (entry (m_craft_defs m type) hash))"

lemma hashed_okD:
  assumes "hashed_ok stale idef m"
  shows "fmlookup (craft_store m) i = Some d \<Longrightarrow> \<exists>names. hash_ready stale idef d names"
    and "fmlookup (craft_store m) i = Some d \<Longrightarrow> cd_priority d \<noteq> PRIORITY_NO_RECIPE"
    and "fmlookup (craft_store m) i = Some d \<Longrightarrow> i \<in> set (entry (m_craft_defs m (cd_hash_type d)) (getHash d (cd_hash_type d)))"
    and "i \<in> set (entry (m_craft_defs m type) hash) \<Longrightarrow> \<exists>d. fmlookup (craft_store m) i = Some d \<and> cd_hash_type d = type"
    and "sorted_wrt (<) (entry (m_craft_defs m type) hash)"
  using assms unfolding hashed_ok_def by blast+

text \<open>While the hashes are made: the recipes up to some number have theirs, the others are new.\<close>

definition hashing :: "u16 \<Rightarrow> IItemDefManager \<Rightarrow> CCraftDefManager \<Rightarrow> nat set \<Rightarrow> CCraftDefManager \<Rightarrow> bool" where
  "hashing stale idef m0 done_ids m \<longleftrightarrow>
     m_craft_defs m CRAFT_HASH_TYPE_UNHASHED = m_craft_defs m0 CRAFT_HASH_TYPE_UNHASHED \<and>
     fmdom (craft_store m) = fmdom (craft_store m0) \<and>
     (\<forall>i d. fmlookup (craft_store m) i = Some d \<longrightarrow> i \<notin> done_ids \<longrightarrow> fmlookup (craft_store m0) i = Some d) \<and>
     (\<forall>i d. fmlookup (craft_store m) i = Some d \<longrightarrow> i \<in> done_ids \<longrightarrow>
       (\<exists>names. hash_ready stale idef d names) \<and> cd_priority d \<noteq> PRIORITY_NO_RECIPE \<and>
       cd_hash_type d \<noteq> CRAFT_HASH_TYPE_UNHASHED \<and>
       (\<exists>d0. fmlookup (craft_store m0) i = Some d0 \<and> cd_class d = cd_class d0) \<and>
       i \<in> set (entry (m_craft_defs m (cd_hash_type d)) (getHash d (cd_hash_type d)))) \<and>
     (\<forall>type hash i. type \<noteq> CRAFT_HASH_TYPE_UNHASHED \<longrightarrow> i \<in> set (entry (m_craft_defs m type) hash) \<longrightarrow>
       i \<in> done_ids \<and> (\<exists>d. fmlookup (craft_store m) i = Some d \<and> cd_hash_type d = type)) \<and>
     (\<forall>type hash. type \<noteq> CRAFT_HASH_TYPE_UNHASHED \<longrightarrow> sorted_wrt (<) (entry (m_craft_defs m type) hash))"

lemma hashing_done:
  assumes "hashing stale idef m0 D m" and "fmlookup (craft_store m) i = Some d" and "i \<in> D"
  shows "(\<exists>names. hash_ready stale idef d names) \<and> cd_priority d \<noteq> PRIORITY_NO_RECIPE \<and>
       cd_hash_type d \<noteq> CRAFT_HASH_TYPE_UNHASHED \<and>
       (\<exists>d0. fmlookup (craft_store m0) i = Some d0 \<and> cd_class d = cd_class d0) \<and>
       i \<in> set (entry (m_craft_defs m (cd_hash_type d)) (getHash d (cd_hash_type d)))"
  using assms unfolding hashing_def by blast

lemma hash_ready_type: "hash_ready stale idef d names \<Longrightarrow> cd_hash_type d \<noteq> CRAFT_HASH_TYPE_UNHASHED"
  by (auto simp: hash_ready_def split: craft_class.splits if_splits)

lemma hashing_step:
  assumes h: "hashing stale idef m0 D m" and ok: "crafts_ok m0" and i: "i |\<in>| fmdom (craft_store m0)"
    and above: "\<forall>j\<in>D. j < i" and r: "initHash_step stale idef i m = Inr m'"
  shows "hashing stale idef m0 (insert i D) m'"
proof -
  obtain d0 where d0: "fmlookup (craft_store m0) i = Some d0" using i by (auto simp: fmlookup_dom_iff)
  have new: "d0 = new_CraftDefinition (cd_class d0)" using crafts_okD(4) [OF ok d0] by blast
  have dom: "fmdom (craft_store m) = fmdom (craft_store m0)" using h by (simp add: hashing_def)
  obtain d1 where d1: "fmlookup (craft_store m) i = Some d1" using i dom by (metis fmlookup_dom_iff)
  have "i \<notin> D" using above by blast
  then have "fmlookup (craft_store m0) i = Some d1" using h d1 by (auto simp: hashing_def)
  with d0 d1 have the: "the_def m i = d0" by (simp add: the_def_def)
  obtain d where d: "initHash stale idef d0 = Inr d" and
    m': "m' = m\<lparr>craft_store := fmupd i d (craft_store m), m_craft_defs := (m_craft_defs m)(cd_hash_type d :=
       add_entry (getHash d (cd_hash_type d)) i (m_craft_defs m (cd_hash_type d)))\<rparr>"
    using r the by (auto simp: initHash_step_def bind_ok_Inr Let_def)
  have "initHash stale idef (new_CraftDefinition (cd_class d0)) = Inr d" unfolding new [symmetric] by (rule d)
  note ready = initHash_ready [OF this]
  then obtain names where names: "hash_ready stale idef d names" by blast
  have type: "cd_hash_type d \<noteq> CRAFT_HASH_TYPE_UNHASHED" using hash_ready_type [OF names] .
  have cls: "cd_class d = cd_class d0" by (rule ready(2))
  show ?thesis
    unfolding hashing_def
  proof (intro conjI allI impI)
    show "m_craft_defs m' CRAFT_HASH_TYPE_UNHASHED = m_craft_defs m0 CRAFT_HASH_TYPE_UNHASHED"
      using h type by (simp add: m' hashing_def)
    show "fmdom (craft_store m') = fmdom (craft_store m0)" using i dom by (auto simp: m')
    show "fmlookup (craft_store m0) j = Some e" if "fmlookup (craft_store m') j = Some e" "j \<notin> insert i D" for j e
      using h that by (auto simp: m' hashing_def)
    show "j \<in> insert i D" "\<exists>d. fmlookup (craft_store m') j = Some d \<and> cd_hash_type d = type"
      if "type \<noteq> CRAFT_HASH_TYPE_UNHASHED" "j \<in> set (entry (m_craft_defs m' type) hash)" for type hash j
      using h that \<open>i \<notin> D\<close> by (auto simp: m' hashing_def split: if_splits)
    show "sorted_wrt (<) (entry (m_craft_defs m' type) hash)" if "type \<noteq> CRAFT_HASH_TYPE_UNHASHED" for type hash
      using h that above by (auto simp: m' hashing_def sorted_wrt_append)
    fix j e assume j: "fmlookup (craft_store m') j = Some e" "j \<in> insert i D"
    have "(\<exists>names. hash_ready stale idef e names) \<and> cd_priority e \<noteq> PRIORITY_NO_RECIPE \<and>
       cd_hash_type e \<noteq> CRAFT_HASH_TYPE_UNHASHED \<and>
       (\<exists>d0. fmlookup (craft_store m0) j = Some d0 \<and> cd_class e = cd_class d0) \<and>
       j \<in> set (entry (m_craft_defs m' (cd_hash_type e)) (getHash e (cd_hash_type e)))"
    proof (cases "j = i")
      case True
      with j(1) have "e = d" by (simp add: m')
      with True ready(3) names type d0 cls show ?thesis by (auto simp: m')
    next
      case False
      with j have e: "fmlookup (craft_store m) j = Some e" "j \<in> D" by (simp_all add: m')
      from hashing_done [OF h e] show ?thesis by (auto simp: m')
    qed
    then show "\<exists>names. hash_ready stale idef e names" "cd_priority e \<noteq> PRIORITY_NO_RECIPE"
      "cd_hash_type e \<noteq> CRAFT_HASH_TYPE_UNHASHED"
      "\<exists>d0. fmlookup (craft_store m0) j = Some d0 \<and> cd_class e = cd_class d0"
      "j \<in> set (entry (m_craft_defs m' (cd_hash_type e)) (getHash e (cd_hash_type e)))" by blast+
  qed
qed

lemma hashing_all:
  assumes ok: "crafts_ok m0"
  shows "fold_ok (initHash_step stale idef) ids m = Inr m' \<Longrightarrow> hashing stale idef m0 D m \<Longrightarrow>
    sorted_wrt (<) ids \<Longrightarrow> \<forall>i\<in>set ids. i |\<in>| fmdom (craft_store m0) \<and> (\<forall>j\<in>D. j < i) \<Longrightarrow>
    hashing stale idef m0 (D \<union> set ids) m'"
proof (induction ids arbitrary: m D)
  case (Cons i ids)
  then obtain m1 where m1: "initHash_step stale idef i m = Inr m1" "fold_ok (initHash_step stale idef) ids m1 = Inr m'"
    by (auto simp: bind_ok_Inr)
  have "hashing stale idef m0 (insert i D) m1"
    using hashing_step [OF Cons.prems(2) ok _ _ m1(1)] Cons.prems(4) by simp
  from Cons.IH [OF m1(2) this] Cons.prems(3,4) show ?case by auto
qed simp

lemma initHashes_run:
  assumes ok: "crafts_ok m0" and r: "initHashes stale idef m0 = Inr m"
  shows "hashed_ok stale idef m" and "fmdom (craft_store m) = fmdom (craft_store m0)"
    and "fmlookup (craft_store m) i = Some d \<Longrightarrow> \<exists>d0. fmlookup (craft_store m0) i = Some d0 \<and> cd_class d = cd_class d0"
proof -
  let ?u = "entry (m_craft_defs m0 CRAFT_HASH_TYPE_UNHASHED) 0"
  obtain m1 where m1: "fold_ok (initHash_step stale idef) ?u m0 = Inr m1" and
    m: "m = m1\<lparr>m_craft_defs := (m_craft_defs m1)(CRAFT_HASH_TYPE_UNHASHED := fmupd 0 [] (m_craft_defs m1 CRAFT_HASH_TYPE_UNHASHED))\<rparr>"
    using r by (auto simp: initHashes_def bind_ok_Inr)
  have "hashing stale idef m0 {} m0"
    using crafts_okD(1) [OF ok] by (simp add: hashing_def)
  from hashing_all [OF ok m1 this crafts_okD(3) [OF ok]] crafts_okD(2) [OF ok]
  have h: "hashing stale idef m0 (set ?u) m1" by simp
  have dom: "fmdom (craft_store m1) = fmdom (craft_store m0)" using h by (simp add: hashing_def)
  have in_u: "i \<in> set ?u" if "fmlookup (craft_store m1) i = Some d" for i d
    using fmdomI [OF that] dom crafts_okD(2) [OF ok] by simp
  have unh: "entry (m_craft_defs m CRAFT_HASH_TYPE_UNHASHED) hash = []" for hash
    using h crafts_okD(1) [OF ok, of CRAFT_HASH_TYPE_UNHASHED] by (simp add: m hashing_def)
  have other: "entry (m_craft_defs m type) hash = entry (m_craft_defs m1 type) hash"
    if "type \<noteq> CRAFT_HASH_TYPE_UNHASHED" for type hash using that by (simp add: m)
  have store: "craft_store m = craft_store m1" by (simp add: m)
  show "hashed_ok stale idef m"
    unfolding hashed_ok_def
  proof (intro conjI allI impI)
    fix i d assume "fmlookup (craft_store m) i = Some d"
    then have d: "fmlookup (craft_store m1) i = Some d" by (simp add: store)
    have "i \<in> set ?u" using d by (rule in_u)
    from hashing_done [OF h d this] other
    show "\<exists>names. hash_ready stale idef d names" "cd_priority d \<noteq> PRIORITY_NO_RECIPE"
      "i \<in> set (entry (m_craft_defs m (cd_hash_type d)) (getHash d (cd_hash_type d)))" by auto
  next
    show "\<exists>d. fmlookup (craft_store m) i = Some d \<and> cd_hash_type d = type"
      if "i \<in> set (entry (m_craft_defs m type) hash)" for type hash i
      using that h unh other store by (cases "type = CRAFT_HASH_TYPE_UNHASHED") (auto simp: hashing_def)
    show "sorted_wrt (<) (entry (m_craft_defs m type) hash)" for type hash
      using h unh other by (cases "type = CRAFT_HASH_TYPE_UNHASHED") (auto simp: hashing_def)
  qed
  show "fmdom (craft_store m) = fmdom (craft_store m0)" using dom store by simp
  show "\<exists>d0. fmlookup (craft_store m0) i = Some d0 \<and> cd_class d = cd_class d0"
    if "fmlookup (craft_store m) i = Some d"
  proof -
    have d: "fmlookup (craft_store m1) i = Some d" using that store by simp
    have "i \<in> set ?u" using d by (rule in_u)
    from hashing_done [OF h d this] show ?thesis by blast
  qed
qed

section \<open>The lookup\<close>

text \<open>A recipe is usable when it fits and its output is a known item.\<close>

definition output_known :: "u16 \<Rightarrow> (metadata \<Rightarrow> bytes list) \<Rightarrow> IItemDefManager \<Rightarrow> CraftInput \<Rightarrow> CraftDefinition \<Rightarrow> bool" where
  "output_known stale ord idef inp d =
     (case st_deSerialize stale (Some idef) (co_item (getOutput ord idef inp d), True) of
        Inl e \<Rightarrow> False | Inr is \<Rightarrow> st_isKnown idef is)"

definition usable :: "u16 \<Rightarrow> (metadata \<Rightarrow> bytes list) \<Rightarrow> IItemDefManager \<Rightarrow> CCraftDefManager \<Rightarrow> CraftInput \<Rightarrow> nat \<Rightarrow> bool" where
  "usable stale ord idef m inp i \<longleftrightarrow>
     (\<exists>d names. fmlookup (craft_store m) i = Some d \<and> has_names stale idef d names \<and>
       recipe_fits idef inp d names \<and> output_known stale ord idef inp d)"

text \<open>Nothing the lookup reads throws, and no recipe has more groups than the code takes.\<close>

definition readable :: "u16 \<Rightarrow> (metadata \<Rightarrow> bytes list) \<Rightarrow> IItemDefManager \<Rightarrow> CCraftDefManager \<Rightarrow> CraftInput \<Rightarrow> bool" where
  "readable stale ord idef m inp \<longleftrightarrow>
     (\<forall>i d. fmlookup (craft_store m) i = Some d \<longrightarrow>
       (\<forall>names. has_names stale idef d names \<longrightarrow> not_too_many d names) \<and>
       (\<exists>is. st_deSerialize stale (Some idef) (co_item (getOutput ord idef inp d), True) = Inr is))"

text \<open>No recipe of the manager has a slot for a group that the hand is in.\<close>

definition recipes_need_items :: "u16 \<Rightarrow> IItemDefManager \<Rightarrow> CCraftDefManager \<Rightarrow> bool" where
  "recipes_need_items stale idef m \<longleftrightarrow>
     (\<forall>i d names. fmlookup (craft_store m) i = Some d \<longrightarrow> has_names stale idef d names \<longrightarrow> needs_items idef names)"

definition priority_of :: "CCraftDefManager \<Rightarrow> nat \<Rightarrow> RecipePriority" where
  "priority_of m i = cd_priority (the_def m i)"

lemma has_names_unique: "has_names stale idef d names \<Longrightarrow> has_names stale idef d names' \<Longrightarrow> names' = names"
  by (auto simp: has_names_def bind_ok_Inr split: craft_class.splits)

lemma try_recipe_run:
  assumes need: "recipes_need_items stale idef m" and ok: "hashed_ok stale idef m" and rd: "readable stale ord idef m inp"
    and i: "fmlookup (craft_store m) i = Some d"
  shows "try_recipe stale ord idef m inp i best =
    Inr (if fst best < priority_of m i \<and> usable stale ord idef m inp i
         then (priority_of m i, i, getOutput ord idef inp d) else best)"
proof -
  obtain names where "hash_ready stale idef d names" using hashed_okD(1) [OF ok i] by blast
  then have names: "has_names stale idef d names" by (simp add: hash_ready_def)
  from rd i names have "not_too_many d names" by (simp add: readable_def)
  from check_run [OF _ names this] need i names have c: "check stale idef inp d = Inr (recipe_fits idef inp d names)"
    unfolding recipes_need_items_def by blast
  have "usable stale ord idef m inp i \<longleftrightarrow> recipe_fits idef inp d names \<and> output_known stale ord idef inp d"
    using i names by (auto simp: usable_def dest: has_names_unique [OF names])
  moreover obtain s where "st_deSerialize stale (Some idef) (co_item (getOutput ord idef inp d), True) = Inr s"
    using rd i unfolding readable_def by meson
  ultimately show ?thesis using i c
    by (auto simp: try_recipe_def the_def_def priority_of_def output_known_def Let_def)
qed

text \<open>The loop over candidates keeps the first of the best.\<close>

lemma try_all:
  assumes need: "recipes_need_items stale idef m" and ok: "hashed_ok stale idef m" and rd: "readable stale ord idef m inp"
  shows "\<forall>i\<in>set ids. i |\<in>| fmdom (craft_store m) \<Longrightarrow> sorted_wrt R ids \<Longrightarrow>
    \<exists>best'. fold_ok (try_recipe stale ord idef m inp) ids best = Inr best' \<and> fst best \<le> fst best' \<and>
      (\<forall>j\<in>set ids. usable stale ord idef m inp j \<longrightarrow> priority_of m j \<le> fst best') \<and>
      (best' = best \<or>
       (\<exists>i\<in>set ids. usable stale ord idef m inp i \<and> fst best < priority_of m i \<and>
          best' = (priority_of m i, i, getOutput ord idef inp (the_def m i)) \<and>
          (\<forall>j\<in>set ids. usable stale ord idef m inp j \<longrightarrow> priority_of m j = priority_of m i \<longrightarrow> j = i \<or> R i j)))"
proof (induction ids arbitrary: best)
  case (Cons i ids)
  obtain d where d: "fmlookup (craft_store m) i = Some d" using Cons.prems by (auto simp: fmlookup_dom_iff)
  note step = try_recipe_run [OF need ok rd d]
  have the: "the_def m i = d" using d by (simp add: the_def_def)
  let ?b = "if fst best < priority_of m i \<and> usable stale ord idef m inp i
    then (priority_of m i, i, getOutput ord idef inp d) else best"
  have ids: "\<forall>i\<in>set ids. i |\<in>| fmdom (craft_store m)" "sorted_wrt R ids" "\<forall>j\<in>set ids. R i j"
    using Cons.prems by simp_all
  from Cons.IH [OF ids(1,2), of ?b] obtain best' where
    b: "fold_ok (try_recipe stale ord idef m inp) ids ?b = Inr best'" "fst ?b \<le> fst best'"
      "\<forall>j\<in>set ids. usable stale ord idef m inp j \<longrightarrow> priority_of m j \<le> fst best'" and
    r: "best' = ?b \<or>
       (\<exists>i\<in>set ids. usable stale ord idef m inp i \<and> fst ?b < priority_of m i \<and>
          best' = (priority_of m i, i, getOutput ord idef inp (the_def m i)) \<and>
          (\<forall>j\<in>set ids. usable stale ord idef m inp j \<longrightarrow> priority_of m j = priority_of m i \<longrightarrow> j = i \<or> R i j))" by blast
  have le: "fst best \<le> fst ?b" "usable stale ord idef m inp i \<Longrightarrow> priority_of m i \<le> fst ?b" by auto
  from r have "best' = best \<or>
       (\<exists>k\<in>set (i # ids). usable stale ord idef m inp k \<and> fst best < priority_of m k \<and>
          best' = (priority_of m k, k, getOutput ord idef inp (the_def m k)) \<and>
          (\<forall>j\<in>set (i # ids). usable stale ord idef m inp j \<longrightarrow> priority_of m j = priority_of m k \<longrightarrow> j = k \<or> R k j))"
  proof
    assume "best' = ?b"
    then show ?thesis using the ids(3) by auto
  next
    assume "\<exists>k\<in>set ids. usable stale ord idef m inp k \<and> fst ?b < priority_of m k \<and>
          best' = (priority_of m k, k, getOutput ord idef inp (the_def m k)) \<and>
          (\<forall>j\<in>set ids. usable stale ord idef m inp j \<longrightarrow> priority_of m j = priority_of m k \<longrightarrow> j = k \<or> R k j)"
    then obtain k where k: "k \<in> set ids" "usable stale ord idef m inp k" "fst ?b < priority_of m k"
      "best' = (priority_of m k, k, getOutput ord idef inp (the_def m k))"
      "\<forall>j\<in>set ids. usable stale ord idef m inp j \<longrightarrow> priority_of m j = priority_of m k \<longrightarrow> j = k \<or> R k j" by blast
    have "usable stale ord idef m inp i \<Longrightarrow> priority_of m i \<noteq> priority_of m k" using k(3) le(2) by auto
    moreover have "fst best < priority_of m k" using le(1) k(3) by (rule le_less_trans)
    ultimately show ?thesis using k by auto
  qed
  moreover have "fold_ok (try_recipe stale ord idef m inp) (i # ids) best = Inr best'"
    using step [of best] b(1) by simp
  moreover have "fst best \<le> fst best'" using le(1) b(2) by (rule order_trans)
  moreover have "\<forall>j\<in>set (i # ids). usable stale ord idef m inp j \<longrightarrow> priority_of m j \<le> fst best'"
    using b(2,3) le(2) by auto
  ultimately show ?case by blast
qed simp

text \<open>What the lookup tries, in its order.\<close>

definition candidates :: "CCraftDefManager \<Rightarrow> CraftInput \<Rightarrow> nat list" where
  "candidates m inp =
     (let input_names = sort (stackNames (ci_items inp));
          bucket = (\<lambda>type. rev (entry (m_craft_defs m type) (getHashForGrid type input_names))) in
      bucket CRAFT_HASH_TYPE_ITEM_NAMES @ bucket CRAFT_HASH_TYPE_COUNT @ bucket CRAFT_HASH_TYPE_UNHASHED)"

lemma fold_ok_append: "fold_ok f (xs @ ys) s = bind_ok (fold_ok f xs s) (fold_ok f ys)"
  by (induction xs arbitrary: s) (auto simp: bind_ok_def split: sum.splits)

lemma bind_ok_Inr_id [simp]: "bind_ok m Inr = m"
  by (cases m) simp_all

lemma try_bucket_candidates:
  "try_bucket stale ord idef m inp names type =
   fold_ok (try_recipe stale ord idef m inp) (rev (entry (m_craft_defs m type) (getHashForGrid type names)))"
  by (rule ext) (simp add: try_bucket_def entry_def split: option.split)

lemma try_buckets:
  "fold_ok (try_bucket stale ord idef m inp names) types best =
   fold_ok (try_recipe stale ord idef m inp)
     (concat (map (\<lambda>type. rev (entry (m_craft_defs m type) (getHashForGrid type names))) types)) best"
  by (induction types arbitrary: best) (simp_all add: fold_ok_append try_bucket_candidates bind_ok_def split: sum.split)

lemma find_recipe_candidates:
  "find_recipe stale ord idef m inp = fold_ok (try_recipe stale ord idef m inp) (candidates m inp) no_best"
  unfolding find_recipe_def candidates_def try_buckets by simp

text \<open>Candidates of the same hash type come latest first.\<close>

definition later :: "CCraftDefManager \<Rightarrow> nat \<Rightarrow> nat \<Rightarrow> bool" where
  "later m i j \<longleftrightarrow> (cd_hash_type (the_def m j) = cd_hash_type (the_def m i) \<longrightarrow> j < i)"

lemma bucket_type:
  "hashed_ok stale idef m \<Longrightarrow> i \<in> set (entry (m_craft_defs m type) hash) \<Longrightarrow>
   cd_hash_type (the_def m i) = type \<and> i |\<in>| fmdom (craft_store m)"
  using hashed_okD(4) [of stale idef m i type hash] by (auto simp: the_def_def fmlookup_dom_iff)

lemma candidates_sorted:
  assumes ok: "hashed_ok stale idef m"
  shows "sorted_wrt (later m) (candidates m inp)"
proof -
  have "sorted_wrt (later m) (rev (entry (m_craft_defs m type) hash))" for type hash
    unfolding sorted_wrt_rev
    by (rule sorted_wrt_mono_rel [OF _ hashed_okD(5) [OF ok]]) (simp add: later_def)
  moreover have "later m i j" if "i \<in> set (entry (m_craft_defs m s) h)" "j \<in> set (entry (m_craft_defs m t) h')"
    "s \<noteq> t" for i j s t h h'
    using bucket_type [OF ok that(1)] bucket_type [OF ok that(2)] that(3) by (simp add: later_def)
  ultimately show ?thesis
    by (auto simp: candidates_def Let_def sorted_wrt_append simp del: getHashForGrid.simps)
qed

lemma usable_is_candidate:
  assumes need: "recipes_need_items stale idef m" and ok: "hashed_ok stale idef m" and clean: "clean_stacks (ci_items inp)"
    and u: "usable stale ord idef m inp i"
  shows "i \<in> set (candidates m inp)"
proof -
  obtain d names where d: "fmlookup (craft_store m) i = Some d" "has_names stale idef d names"
    "recipe_fits idef inp d names" using u by (auto simp: usable_def)
  obtain names' where n: "hash_ready stale idef d names'" using hashed_okD(1) [OF ok d(1)] by blast
  then have "has_names stale idef d names'" by (simp add: hash_ready_def)
  with has_names_unique [OF d(2)] have "names' = names" by blast
  with fitting_hash [OF _ n _ clean] d(1,3) need d(2)
  have "getHash d (cd_hash_type d) = getHashForGrid (cd_hash_type d) (sort (stackNames (ci_items inp)))"
    unfolding recipes_need_items_def by blast
  with hashed_okD(3) [OF ok d(1)]
  have "i \<in> set (entry (m_craft_defs m (cd_hash_type d)) (getHashForGrid (cd_hash_type d) (sort (stackNames (ci_items inp)))))"
    by simp
  then show ?thesis
    by (cases "cd_hash_type d") (simp_all add: candidates_def Let_def del: getHashForGrid.simps)
qed

text \<open>The best recipe: usable, of the highest priority, and the latest of its hash type.\<close>

definition best_recipe ::
  "u16 \<Rightarrow> (metadata \<Rightarrow> bytes list) \<Rightarrow> IItemDefManager \<Rightarrow> CCraftDefManager \<Rightarrow> CraftInput \<Rightarrow> nat \<Rightarrow> bool" where
  "best_recipe stale ord idef m inp i \<longleftrightarrow>
     usable stale ord idef m inp i \<and>
     (\<forall>j. usable stale ord idef m inp j \<longrightarrow>
        priority_of m j < priority_of m i \<or> priority_of m j = priority_of m i \<and> (j = i \<or> later m i j))"

lemma find_recipe_run:
  assumes need: "recipes_need_items stale idef m" and ok: "hashed_ok stale idef m"
    and rd: "readable stale ord idef m inp" and clean: "clean_stacks (ci_items inp)"
  shows "\<exists>best. find_recipe stale ord idef m inp = Inr best \<and>
    (if \<exists>i. usable stale ord idef m inp i
     then best_recipe stale ord idef m inp (fst (snd best)) \<and>
       best = (priority_of m (fst (snd best)), fst (snd best), getOutput ord idef inp (the_def m (fst (snd best))))
     else best = no_best)"
proof -
  have dom: "\<forall>i\<in>set (candidates m inp). i |\<in>| fmdom (craft_store m)"
    using bucket_type [OF ok] by (auto simp: candidates_def Let_def simp del: getHashForGrid.simps)
  from try_all [OF need ok rd dom candidates_sorted [OF ok], of no_best]
  obtain best where r: "find_recipe stale ord idef m inp = Inr best"
    and up: "\<And>j. usable stale ord idef m inp j \<Longrightarrow> priority_of m j \<le> fst best"
    and b: "best = no_best \<or>
       (\<exists>i\<in>set (candidates m inp). usable stale ord idef m inp i \<and> fst no_best < priority_of m i \<and>
          best = (priority_of m i, i, getOutput ord idef inp (the_def m i)) \<and>
          (\<forall>j\<in>set (candidates m inp). usable stale ord idef m inp j \<longrightarrow> priority_of m j = priority_of m i \<longrightarrow> j = i \<or> later m i j))"
    using usable_is_candidate [OF need ok clean] unfolding find_recipe_candidates by blast
  have pos: "priority_of m i \<noteq> PRIORITY_NO_RECIPE" if "usable stale ord idef m inp i" for i
    using that hashed_okD(2) [OF ok] by (auto simp: usable_def priority_of_def the_def_def)
  show ?thesis
  proof (cases "\<exists>i. usable stale ord idef m inp i")
    case True
    then obtain j where j: "usable stale ord idef m inp j" by blast
    have "best \<noteq> no_best"
    proof
      assume "best = no_best"
      with up [OF j] pos [OF j] show False
        by (metis fst_conv no_best_def no_recipe_least(1) order_antisym)
    qed
    with b obtain i where i: "usable stale ord idef m inp i"
      "best = (priority_of m i, i, getOutput ord idef inp (the_def m i))"
      "\<forall>j\<in>set (candidates m inp). usable stale ord idef m inp j \<longrightarrow> priority_of m j = priority_of m i \<longrightarrow> j = i \<or> later m i j"
      by blast
    have "best_recipe stale ord idef m inp i"
      unfolding best_recipe_def using i up usable_is_candidate [OF need ok clean] by (auto simp: order_le_less)
    with r i True show ?thesis by simp
  next
    case False
    with b r show ?thesis by auto
  qed
qed

section \<open>Claims\<close>

text \<open>What the mods do to the manager while they are loaded.\<close>

inductive crafts_reachable :: "u16 \<Rightarrow> (metadata \<Rightarrow> bytes list) \<Rightarrow> IItemDefManager \<Rightarrow> CCraftDefManager \<Rightarrow> bool"
  for stale ord idef where
  start: "crafts_reachable stale ord idef new_CCraftDefManager"
| register: "crafts_reachable stale ord idef m \<Longrightarrow>
    registerCraft stale ord idef (new_CraftDefinition c) m = Inr m' \<Longrightarrow> crafts_reachable stale ord idef m'"
| by_output: "crafts_reachable stale ord idef m \<Longrightarrow> clearCraftsByOutput output m = (found, m') \<Longrightarrow>
    crafts_reachable stale ord idef m'"
| by_input: "crafts_reachable stale ord idef m \<Longrightarrow> clearCraftsByInput stale idef inp m = Inr (found, m') \<Longrightarrow>
    crafts_reachable stale ord idef m'"
| clear: "crafts_reachable stale ord idef m \<Longrightarrow> crafts_reachable stale ord idef (crafts_clear m)"

lemma reachable_crafts_ok: "crafts_reachable stale ord idef m \<Longrightarrow> crafts_ok m"
  by (induction rule: crafts_reachable.induct)
    (auto intro: new_manager_ok register_ok clear_output_ok clear_input_ok clear_ok)

text \<open>
  C19.  However recipes are registered and removed, no table of the manager refers to a recipe
  that has been deleted, and every recipe is in exactly one bucket; after \<open>initHashes\<close> each is in
  the bucket of its hash, in the order of registration.
\<close>

theorem crafts_tables_ok:
  assumes "crafts_reachable stale ord idef m"
  shows "crafts_ok m \<and> (case initHashes stale idef m of Inl e \<Rightarrow> True | Inr m' \<Rightarrow>
    hashed_ok stale idef m' \<and> fmdom (craft_store m') = fmdom (craft_store m))"
  using reachable_crafts_ok [OF assms] initHashes_run(1,2) [of m stale idef] by (auto split: sum.split)

text \<open>
  C18.  Looking up a craft by hash finds what looking at every recipe would find: a result exactly
  if some recipe fits and has a known output, and then that of a recipe of the highest priority,
  the latest of those with the same kind of hash.  This is so if the outputs can be read, no recipe has
  more group slots than the code takes or one for a group that the hand is in, and the stacks of the
  grid without a name are those without items.
\<close>

theorem craft_lookup_best:
  assumes "crafts_reachable stale ord idef m0" and "initHashes stale idef m0 = Inr m"
    and "recipes_need_items stale idef m" and "readable stale ord idef m inp" and "clean_stacks (ci_items inp)"
  shows "if \<not> ci_empty inp \<and> (\<exists>i. usable stale ord idef m inp i)
    then \<exists>i. best_recipe stale ord idef m inp i \<and>
      getCraftResult stale ord idef m inp reps False = Inr (Some (getOutput ord idef inp (the_def m i), inp, reps))
    else getCraftResult stale ord idef m inp reps False = Inr None"
proof -
  have ok: "hashed_ok stale idef m" by (rule initHashes_run(1) [OF reachable_crafts_ok [OF assms(1)] assms(2)])
  obtain best where r: "find_recipe stale ord idef m inp = Inr best" and
    b: "if \<exists>i. usable stale ord idef m inp i
     then best_recipe stale ord idef m inp (fst (snd best)) \<and>
       best = (priority_of m (fst (snd best)), fst (snd best), getOutput ord idef inp (the_def m (fst (snd best))))
     else best = no_best"
    using find_recipe_run [OF assms(3) ok assms(4,5)] by blast
  show ?thesis
  proof (cases "\<exists>i. usable stale ord idef m inp i")
    case True
    define i where "i = fst (snd best)"
    from b True have i: "best_recipe stale ord idef m inp i"
      "best = (priority_of m i, i, getOutput ord idef inp (the_def m i))" by (simp_all flip: i_def)
    then have "priority_of m i \<noteq> PRIORITY_NO_RECIPE"
      using hashed_okD(2) [OF ok] by (auto simp: best_recipe_def usable_def priority_of_def the_def_def)
    with i r True show ?thesis by (auto simp: getCraftResult_def)
  next
    case False
    with b r show ?thesis by (auto simp: getCraftResult_def no_best_def)
  qed
qed

definition sample_manager :: CCraftDefManager where
  "sample_manager = projr (registerCraft 0 (\<lambda>_. []) craft_idef sample_recipe new_CCraftDefManager)"

lemma sample_manager_run:
  "registerCraft 0 (\<lambda>_. []) craft_idef sample_recipe new_CCraftDefManager = Inr sample_manager"
  "crafts_reachable 0 (\<lambda>_. []) craft_idef sample_manager"
proof -
  have "isl (registerCraft 0 (\<lambda>_. []) craft_idef sample_recipe new_CCraftDefManager) = False" by code_simp
  then show r: "registerCraft 0 (\<lambda>_. []) craft_idef sample_recipe new_CCraftDefManager = Inr sample_manager"
    by (simp add: sample_manager_def)
  show "crafts_reachable 0 (\<lambda>_. []) craft_idef sample_manager"
    by (rule register [OF start r [unfolded sample_recipe_def]])
qed

definition sample_hashed :: CCraftDefManager where
  "sample_hashed = projr (initHashes 0 craft_idef sample_manager)"

lemma sample_hashed_run: "initHashes 0 craft_idef sample_manager = Inr sample_hashed"
proof -
  have "isl (initHashes 0 craft_idef sample_manager) = False" by code_simp
  then show ?thesis by (simp add: sample_hashed_def)
qed

lemma sample_hashed_store:
  "fmlookup (craft_store sample_hashed) 0 \<noteq> None"
  "fmlookup (craft_store sample_hashed) i = Some d \<Longrightarrow> cd_class d = cd_class sample_recipe"
proof -
  have "craft_store sample_manager = fmupd 0 sample_recipe fmempty"
  proof -
    from sample_manager_run(1) obtain name where "\<lparr>craft_store = fmupd 0 sample_recipe fmempty, craft_next = Suc 0,
        m_craft_defs = (\<lambda>_. fmempty)(CRAFT_HASH_TYPE_UNHASHED := add_entry 0 0 fmempty),
        m_output_craft_definitions = add_entry name 0 fmempty\<rparr> = sample_manager"
      by (auto simp: registerCraft_def Let_def bind_ok_Inr new_CCraftDefManager_def)
    from arg_cong [OF this, of craft_store] show ?thesis by simp
  qed
  then have s: "fmlookup (craft_store sample_manager) j = (if j = 0 then Some sample_recipe else None)" for j
    by simp
  note r = initHashes_run [OF reachable_crafts_ok [OF sample_manager_run(2)] sample_hashed_run]
  have "0 |\<in>| fmdom (craft_store sample_hashed)" using r(2) s [of 0] by (simp add: fmdomI)
  then show "fmlookup (craft_store sample_hashed) 0 \<noteq> None" by (auto simp: fmlookup_dom_iff)
  show "cd_class d = cd_class sample_recipe" if "fmlookup (craft_store sample_hashed) i = Some d"
    using r(3) [OF that] s by (auto split: if_splits)
qed

lemma sample_hashed_names:
  assumes "fmlookup (craft_store sample_hashed) i = Some d"
  shows "has_names 0 craft_idef d [lit ''coal'', lit ''group:fuel'']"
    and "recipe_fits craft_idef sample_grid d [lit ''coal'', lit ''group:fuel'']"
    and "getOutput ord craft_idef sample_grid d = \<lparr>co_item = lit ''torch'', co_time = 0\<rparr>"
proof -
  note cls = sample_hashed_store(2) [OF assms]
  have "hashed_ok 0 craft_idef sample_hashed"
    by (rule initHashes_run(1) [OF reachable_crafts_ok [OF sample_manager_run(2)] sample_hashed_run])
  from hashed_okD(1) [OF this assms] obtain names where n: "has_names 0 craft_idef d names"
    by (auto simp: hash_ready_def)
  moreover have "names = [lit ''coal'', lit ''group:fuel'']"
    using n sample_names [of 0] cls
    by (simp add: has_names_def sample_recipe_def)
  ultimately show "has_names 0 craft_idef d [lit ''coal'', lit ''group:fuel'']" by simp
  show "recipe_fits craft_idef sample_grid d [lit ''coal'', lit ''group:fuel'']"
    using sample_fits cls by (simp add: recipe_fits_def)
  show "getOutput ord craft_idef sample_grid d = \<lparr>co_item = lit ''torch'', co_time = 0\<rparr>"
    using cls by (simp add: getOutput_def sample_recipe_def)
qed

lemma sample_output:
  "\<exists>s. st_deSerialize 0 (Some craft_idef) (lit ''torch'', True) = Inr s \<and> st_isKnown craft_idef s"
proof -
  have "isl (st_deSerialize 0 (Some craft_idef) (lit ''torch'', True)) = False" by code_simp
  then show ?thesis
    by (cases "st_deSerialize 0 (Some craft_idef) (lit ''torch'', True)") (simp_all add: st_isKnown_def craft_idef_def)
qed

theorem crafts_tables_ok_witness:
  "crafts_ok sample_manager \<and> hashed_ok 0 craft_idef sample_hashed"
  using crafts_tables_ok [OF sample_manager_run(2)] sample_hashed_run by simp

theorem craft_lookup_best_witness:
  "getCraftResult 0 (\<lambda>_. []) craft_idef sample_hashed sample_grid [] False =
     Inr (Some (\<lparr>co_item = lit ''torch'', co_time = 0\<rparr>, sample_grid, []))"
proof -
  have rd: "readable 0 (\<lambda>_. []) craft_idef sample_hashed sample_grid"
    unfolding readable_def
  proof (intro allI impI conjI)
    fix i d assume d: "fmlookup (craft_store sample_hashed) i = Some d"
    show "not_too_many d names" if "has_names 0 craft_idef d names" for names
      using has_names_unique [OF sample_hashed_names(1) [OF d] that] sample_hashed_store(2) [OF d]
      by (simp add: not_too_many_def sample_recipe_def SHAPELESS_GROUPS_MAX_def)
    show "\<exists>is. st_deSerialize 0 (Some craft_idef) (co_item (getOutput (\<lambda>_. []) craft_idef sample_grid d), True) = Inr is"
      using sample_output sample_hashed_names(3) [OF d] by auto
  qed
  have clean: "clean_stacks (ci_items sample_grid)" unfolding clean_stacks_def by code_simp
  have ne: "\<not> ci_empty sample_grid" by code_simp
  have need: "recipes_need_items 0 craft_idef sample_hashed"
    unfolding recipes_need_items_def
    using has_names_unique [OF sample_hashed_names(1)] sample_needs by blast
  obtain d where d: "fmlookup (craft_store sample_hashed) 0 = Some d" using sample_hashed_store(1) by auto
  have "usable 0 (\<lambda>_. []) craft_idef sample_hashed sample_grid 0"
    unfolding usable_def output_known_def
    using d sample_hashed_names [OF d] sample_output by (intro exI conjI) auto
  with craft_lookup_best [OF sample_manager_run(2) sample_hashed_run need rd clean, of "[]"] ne
  obtain i where i: "best_recipe 0 (\<lambda>_. []) craft_idef sample_hashed sample_grid i"
    "getCraftResult 0 (\<lambda>_. []) craft_idef sample_hashed sample_grid [] False =
      Inr (Some (getOutput (\<lambda>_. []) craft_idef sample_grid (the_def sample_hashed i), sample_grid, []))"
    by (auto split: if_splits)
  from i(1) obtain e where "fmlookup (craft_store sample_hashed) i = Some e"
    by (auto simp: best_recipe_def usable_def)
  with i(2) sample_hashed_names(3) [OF this] show ?thesis by (simp add: the_def_def)
qed

end
