(* ===== verification/CraftAction.thy ===== *)
theory CraftAction
  imports ActionSafety CraftLookup
begin

text \<open>
  Crafting as an action of a player: \<open>getCraftingResult\<close> and \<open>ICraftAction::apply\<close> of
  \<open>src/inventorymanager.cpp\<close> on the game of theory \<open>InventoryMove\<close>.
\<close>

section \<open>The code\<close>

text \<open>
  What can end the action before its end: an exception of the reader of item strings, and a list
  \<open>main\<close> that is not there, whose null pointer is used.  \<open>CraftLoop\<close> is a loop over the slots of a list
  that does not end, and \<open>CraftFuel\<close> is out of fuel.
\<close>

datatype craft_error = CraftThrow ser_error | CraftNullList | CraftLoop | CraftFuel

definition craft_ok :: "ser_error + 'a \<Rightarrow> craft_error + 'a" where
  "craft_ok r = (case r of Inl e \<Rightarrow> Inl (CraftThrow e) | Inr a \<Rightarrow> Inr a)"

lemma craft_ok_simps [simp]: "craft_ok r = Inr a \<longleftrightarrow> r = Inr a" "craft_ok r = Inl e \<longleftrightarrow> (\<exists>x. r = Inl x \<and> e = CraftThrow x)"
  by (auto simp: craft_ok_def split: sum.split)

text \<open>What crafting uses: the item definitions and the recipes.\<close>

record craft_env =
  ce_stale :: u16
  ce_ord :: "metadata \<Rightarrow> bytes list"
  ce_idef :: IItemDefManager
  ce_crafts :: CCraftDefManager

text \<open>
  The loops over the slots of the grid count with a \<open>u16\<close> up to a size of 32 bits: these are the slots they
  visit from \<open>i\<close> on.  In a list of more than 65535 slots the counter starts again at 0, and they do not end.
\<close>

partial_function (option) slots_from :: "nat \<Rightarrow> u16 \<Rightarrow> nat list option" where
  "slots_from sz i =
     (if \<not> unat i < sz then Some []
      else Option.bind (slots_from sz (i + 1)) (\<lambda>is. Some (unat i # is)))"

definition craft_input :: "nat list \<Rightarrow> InventoryList \<Rightarrow> CraftInput" where
  "craft_input slots clist =
     \<lparr>ci_method = CRAFT_METHOD_NORMAL, ci_width = (if il_width clist \<noteq> 0 then il_width clist else 3),
      ci_items = map (\<lambda>i. il_items clist ! i) slots\<rparr>"

text \<open>The loop that writes the changed input back into the list, slot by slot.\<close>

definition write_back :: "nat list \<Rightarrow> ItemStack list \<Rightarrow> InventoryList \<Rightarrow> InventoryList" where
  "write_back slots stacks clist = fold (\<lambda>i l. fst (il_changeItem i (stacks ! i) l)) slots clist"

text \<open>The result, the replacements with new ones at their end, and the game.\<close>

definition getCraftingResult ::
  "craft_env \<Rightarrow> InventoryLocation \<Rightarrow> ItemStack list \<Rightarrow> bool \<Rightarrow> 'w game \<Rightarrow>
   craft_error + ItemStack \<times> ItemStack list \<times> 'w game" where
  "getCraftingResult ce loc output_replacements decrement w =
     (case list_of w (loc, lit ''craft'') of
        None \<Rightarrow> Inr (no_item, output_replacements, w)
      | Some clist \<Rightarrow>
          (case slots_from (length (il_items clist)) 0 of
             None \<Rightarrow> Inl CraftLoop
           | Some slots \<Rightarrow>
               bind_ok (craft_ok (getCraftResult (ce_stale ce) (ce_ord ce) (ce_idef ce) (ce_crafts ce)
                   (craft_input slots clist) output_replacements decrement)) (\<lambda>found.
                 case found of
                   None \<Rightarrow> Inr (no_item, output_replacements, w)
                 | Some (co, ci, output_replacements) \<Rightarrow>
                     bind_ok (craft_ok (st_deSerialize (ce_stale ce) (Some (ce_idef ce)) (co_item co, True))) (\<lambda>result.
                       Inr (result, output_replacements,
                         if decrement then change_ref (loc, lit ''craft'') (write_back slots (ci_items ci)) w else w)))))"

text \<open>A new replacement goes to those of its name first; what is left of it is a new one.\<close>

fun merge_into :: "IItemDefManager \<Rightarrow> ItemStack \<Rightarrow> ItemStack list \<Rightarrow> ItemStack \<times> ItemStack list" where
  "merge_into idef itemstack [] = (itemstack, [])"
| "merge_into idef itemstack (r # rs) =
     (if st_name itemstack = st_name r
      then
        let (r, itemstack) = st_addItem idef itemstack r;
            (itemstack, rs) = merge_into idef itemstack rs in
        (itemstack, r # rs)
      else
        let (itemstack, rs) = merge_into idef itemstack rs in
        (itemstack, r # rs))"

definition add_replacement :: "IItemDefManager \<Rightarrow> ItemStack \<Rightarrow> ItemStack list \<Rightarrow> ItemStack list" where
  "add_replacement idef itemstack rs =
     (let (itemstack, rs) = merge_into idef itemstack rs in rs @ [itemstack])"

text \<open>
  One round of the loop, up to the counter: \<open>predicted\<close> is what was shown to the player.  What
  does not fit of the item that the script makes of it is not kept.
\<close>

definition craft_round ::
  "'w scripts \<Rightarrow> craft_env \<Rightarrow> InventoryLocation \<Rightarrow> ItemStack list \<Rightarrow> 'w game \<Rightarrow>
   craft_error + ItemStack list \<times> 'w game" where
  "craft_round sc ce loc output_replacements w =
     (let saved_craft_list = the_list w (loc, lit ''craft'') in
      bind_ok (getCraftingResult ce loc [] True w) (\<lambda>(crafted, temp, w).
        let (crafted, w) = s_OnCraft sc crafted saved_craft_list loc w;
            w = fst (on_ref (loc, lit ''craftresult'') (il_addItem_at (ce_idef ce) 0 crafted) w);
            w = setInventoryModified loc w in
        Inr (fold (add_replacement (ce_idef ce)) temp output_replacements, w)))"

definition craft_predict ::
  "'w scripts \<Rightarrow> craft_env \<Rightarrow> InventoryLocation \<Rightarrow> 'w game \<Rightarrow> craft_error + ItemStack \<times> 'w game" where
  "craft_predict sc ce loc w =
     bind_ok (getCraftingResult ce loc [] False w) (\<lambda>(crafted, _, w).
       Inr (s_CraftPredict sc crafted loc w))"

text \<open>The loop; a count of 0 is as often as possible.\<close>

fun craft_loop ::
  "nat \<Rightarrow> 'w scripts \<Rightarrow> craft_env \<Rightarrow> InventoryLocation \<Rightarrow> nat \<Rightarrow> ItemStack \<Rightarrow> ItemStack list \<Rightarrow> 'w game \<Rightarrow>
   craft_error + ItemStack list \<times> 'w game" where
  "craft_loop 0 sc ce loc count_remaining crafted output_replacements w = Inl CraftFuel"
| "craft_loop (Suc fuel) sc ce loc count_remaining crafted output_replacements w =
     (if st_empty crafted \<or>
         \<not> fst (il_itemFits (ce_idef ce) 0 crafted (the_list w (loc, lit ''craftresult'')))
      then Inr (output_replacements, w)
      else
        bind_ok (craft_round sc ce loc output_replacements w) (\<lambda>(output_replacements, w).
          if count_remaining = 1 then Inr (output_replacements, w)
          else
            let count_remaining = (if count_remaining > 1 then count_remaining - 1 else count_remaining) in
            bind_ok (craft_predict sc ce loc w) (\<lambda>(crafted, w).
              craft_loop fuel sc ce loc count_remaining crafted output_replacements w)))"

text \<open>
  What becomes of the replacements.  The loop that drops a stack ends after its first round: the
  callback takes the stack by constant reference, so that its count stays as it was, and the
  number that it returns, how many are left, is not looked at.
\<close>

definition put_replacement :: "'w scripts \<Rightarrow> craft_env \<Rightarrow> InventoryLocation \<Rightarrow> ItemStack \<Rightarrow> 'w game \<Rightarrow> 'w game" where
  "put_replacement sc ce loc r w =
     (let (w, r) = on_ref (loc, lit ''main'') (il_addItem (ce_idef ce) r) w in
      if st_empty r then w else snd (s_OnDrop sc r w))"

definition craft_locked ::
  "nat \<Rightarrow> 'w scripts \<Rightarrow> craft_env \<Rightarrow> ICraftAction \<Rightarrow> 'w game \<Rightarrow> craft_error + 'w game" where
  "craft_locked fuel sc ce a w =
     (let loc = craft_inv a in
      bind_ok (craft_predict sc ce loc w) (\<lambda>(crafted, w).
      bind_ok (craft_loop fuel sc ce loc (unat (ca_count a)) crafted [] w) (\<lambda>(output_replacements, w).
        Inr (fold (put_replacement sc ce loc) output_replacements w))))"

definition apply_craft ::
  "nat \<Rightarrow> 'w scripts \<Rightarrow> craft_env \<Rightarrow> ICraftAction \<Rightarrow> 'w game \<Rightarrow> craft_error + 'w game" where
  "apply_craft fuel sc ce a w =
     (let craft = (craft_inv a, lit ''craft'');
          craftresult = (craft_inv a, lit ''craftresult'');
          main = (craft_inv a, lit ''main'') in
      case g_inv w (craft_inv a) of
        None \<Rightarrow> Inr w
      | Some _ \<Rightarrow>
          if list_of w craft = None then Inr w
          else
            (case list_of w craftresult of
               None \<Rightarrow> Inr w
             | Some l \<Rightarrow>
                 if il_size l < 1 then Inr w
                 else if list_of w main = None then Inl CraftNullList
                 else
                   bind_ok (craft_locked fuel sc ce a
                       (change_ref main resizeLock (change_ref craftresult resizeLock (change_ref craft resizeLock w))))
                     (\<lambda>w. Inr (release craft (release craftresult (release main w))))))"

section \<open>The frame\<close>

text \<open>
  Only the inventory at \<open>loc\<close> changes, no list appears or vanishes, and the sizes and the locks of all are
  as before.
\<close>

definition craft_frame :: "InventoryLocation \<Rightarrow> 'w game \<Rightarrow> 'w game \<Rightarrow> bool" where
  "craft_frame loc w w' \<longleftrightarrow> there w' = there w \<and> (\<forall>l. l \<noteq> loc \<longrightarrow> g_inv w' l = g_inv w l) \<and>
     (\<forall>r. il_resize_locks (the_list w' r) = il_resize_locks (the_list w r) \<and>
       length (il_items (the_list w' r)) = length (il_items (the_list w r)))"

lemma craft_frame_refl [simp]: "craft_frame loc w w"
  by (simp add: craft_frame_def)

lemma craft_frame_trans: "craft_frame loc w w1 \<Longrightarrow> craft_frame loc w1 w2 \<Longrightarrow> craft_frame loc w w2"
  by (simp add: craft_frame_def)

lemma same_inv_craft_frame: "g_inv w' = g_inv w \<Longrightarrow> craft_frame loc w w'"
  using effect_same_inv [of w' w "{}"] same_inv_lists [of w' w]
  by (simp add: craft_frame_def effect_def the_list_def)

lemma change_ref_there:
  assumes "there w r" and "il_name (f (the_list w r)) = il_name (the_list w r)"
  shows "the_list (change_ref r f w) = (the_list w)(r := f (the_list w r))" and "there (change_ref r f w) = there w"
    and "l \<noteq> fst r \<Longrightarrow> g_inv (change_ref r f w) l = g_inv w l"
  using put_list_lists [OF assms(1)] assms(2) the_list_name [OF assms(1)]
  by (auto simp: change_ref_def put_list_def)

lemma change_ref_craft_frame:
  assumes "there w r" and "same_frame (the_list w r) (f (the_list w r))" and "fst r = loc"
  shows "craft_frame loc w (change_ref r f w)"
  using change_ref_there [OF assms(1), of f] assms(2,3) by (simp add: craft_frame_def same_frame_def)

lemma on_ref_change: "fst (on_ref r f w) = change_ref r (\<lambda>l. fst (f l)) w"
  by (simp add: on_ref_def change_ref_def split: prod.split)


lemma write_back_frame: "same_frame l (write_back slots stacks l)"
proof -
  have "same_frame l (fold (\<lambda>i l. fst (il_changeItem i (stacks ! i) l)) slots l)"
  proof (induction slots arbitrary: l)
    case (Cons i slots)
    have "same_frame l (fst (il_changeItem i (stacks ! i) l))"
      by (simp add: il_changeItem_def il_setModified_def same_frame_def Let_def)
    from same_frame_trans [OF this Cons.IH] show ?case by simp
  qed (simp add: same_frame_def)
  then show ?thesis by (simp add: write_back_def)
qed

lemma addItem_at_frame: "same_frame l (fst (il_addItem_at idef i x l))"
  by (auto simp: il_addItem_at_def il_setModified_def same_frame_def Let_def split: prod.split)

lemma addItem_frame: "same_frame l (fst (il_addItem idef x l))"
  using addItem_list_items(2) [of idef x l] by (cases "il_addItem idef x l") auto

text \<open>Callbacks that leave the inventories and the crafted item alone.\<close>

definition plain_crafting :: "'w scripts \<Rightarrow> bool" where
  "plain_crafting sc \<longleftrightarrow>
     (\<forall>s loc w. fst (s_CraftPredict sc s loc w) = s \<and> g_inv (snd (s_CraftPredict sc s loc w)) = g_inv w) \<and>
     (\<forall>s l loc w. fst (s_OnCraft sc s l loc w) = s \<and> g_inv (snd (s_OnCraft sc s l loc w)) = g_inv w) \<and>
     (\<forall>s w. g_inv (snd (s_OnDrop sc s w)) = g_inv w)"

lemma plain_craftingD:
  assumes "plain_crafting sc"
  shows "s_CraftPredict sc s loc w = (s', w') \<Longrightarrow> s' = s \<and> g_inv w' = g_inv w"
    and "s_OnCraft sc s l loc w = (s', w') \<Longrightarrow> s' = s \<and> g_inv w' = g_inv w"
    and "g_inv (snd (s_OnDrop sc s w)) = g_inv w"
  using assms unfolding plain_crafting_def by (metis fst_conv snd_conv)+

lemma getCraftingResult_game:
  assumes "getCraftingResult ce loc reps decrement w = Inr (result, reps', w')"
  shows "w' = w \<or> decrement \<and> there w (loc, lit ''craft'') \<and>
    (\<exists>slots stacks. w' = change_ref (loc, lit ''craft'') (write_back slots stacks) w)"
  using assms
  by (cases decrement; auto simp: getCraftingResult_def bind_ok_Inr there_def split: option.split_asm prod.split_asm; blast)

lemma slots_from_all: "unat i \<le> sz \<Longrightarrow> sz < 65536 \<Longrightarrow> slots_from sz i = Some [unat i..<sz]"
proof (induction "sz - unat i" arbitrary: i)
  case 0
  then show ?case by (subst slots_from.simps) simp
next
  case (Suc n)
  then have u: "unat (i + 1) = unat i + 1" by (simp add: unat_succ16)
  have "slots_from sz (i + 1) = Some [unat (i + 1)..<sz]" using Suc u by (intro Suc.hyps(1)) simp_all
  with u Suc.hyps(2) show ?case by (subst slots_from.simps) (simp add: upt_conv_Cons)
qed

lemma slots_from_endless:
  assumes "slots_from sz i = Some slots"
  shows "sz < 65536"
proof (rule slots_from.raw_induct [where P = "\<lambda>sz i slots. sz < 65536", OF _ assms])
  fix f sz and i :: u16 and slots
  assume "\<And>sz i slots. f sz i = Some slots \<Longrightarrow> sz < 65536"
    and "(if \<not> unat i < sz then Some [] else Option.bind (f sz (i + 1)) (\<lambda>is. Some (unat i # is))) = Some slots"
  then show "sz < 65536"
    using unat16_lt [of i] by (cases "unat i < sz") (auto simp: bind_eq_Some_conv)
qed

text \<open>What else can become of it: a text that cannot be read, or a grid of too many slots.\<close>

definition craft_grid_small :: "InventoryLocation \<Rightarrow> 'w game \<Rightarrow> bool" where
  "craft_grid_small loc w \<longleftrightarrow> length (il_items (the_list w (loc, lit ''craft''))) < 65536"

lemma getCraftingResult_fails:
  assumes "getCraftingResult ce loc reps decrement w = Inl e"
  shows "e \<noteq> CraftFuel" and "craft_grid_small loc w \<Longrightarrow> \<exists>x. e = CraftThrow x"
  using assms slots_from_all [of 0]
  by (auto simp: getCraftingResult_def bind_ok_def craft_grid_small_def the_list_def
      split: option.splits sum.splits prod.splits)

lemma craft_round_fails:
  assumes "craft_round sc ce loc reps w = Inl e"
  shows "e \<noteq> CraftFuel" and "craft_grid_small loc w \<Longrightarrow> \<exists>x. e = CraftThrow x"
  using assms getCraftingResult_fails [of ce loc "[]" True w e]
  by (auto simp: craft_round_def bind_ok_def Let_def split: sum.splits prod.splits)

lemma craft_predict_fails:
  assumes "craft_predict sc ce loc w = Inl e"
  shows "e \<noteq> CraftFuel" and "craft_grid_small loc w \<Longrightarrow> \<exists>x. e = CraftThrow x"
  using assms getCraftingResult_fails [of ce loc "[]" False w e]
  by (auto simp: craft_predict_def bind_ok_def Let_def split: sum.splits prod.splits)

lemma craft_no_fuel [simp]:
  "craft_round sc ce loc reps w \<noteq> Inl CraftFuel" "craft_predict sc ce loc w \<noteq> Inl CraftFuel"
  using craft_round_fails(1) craft_predict_fails(1) by blast+

lemma craft_frame_small: "craft_frame loc' w w' \<Longrightarrow> craft_grid_small loc w' = craft_grid_small loc w"
  by (simp add: craft_frame_def craft_grid_small_def)

lemma getCraftingResult_frame:
  "getCraftingResult ce loc reps decrement w = Inr (result, reps', w') \<Longrightarrow> craft_frame loc w w'"
  using getCraftingResult_game [of ce loc reps decrement w result reps' w']
  by (auto intro: change_ref_craft_frame write_back_frame)

text \<open>Taking the input does not change what is crafted.\<close>

lemma getCraftingResult_same:
  assumes "getCraftingResult ce loc [] False w = Inr (predicted, x, w0)"
    and "getCraftingResult ce loc [] True w = Inr (crafted, temp, w')"
  shows "crafted = predicted"
  using assms
  by (auto simp: getCraftingResult_def getCraftResult_def bind_ok_Inr split: option.splits if_splits)

lemma getCraftingResult_lists:
  "list_of w' = list_of w \<Longrightarrow> getCraftingResult ce loc reps False w = Inr (r, x, w0) \<Longrightarrow>
   getCraftingResult ce loc reps False w' = Inr (r, x, w')"
  by (auto simp: getCraftingResult_def bind_ok_def split: option.splits sum.splits)

lemma craft_predict_run:
  assumes "craft_predict sc ce loc w = Inr (crafted, w')" and "plain_crafting sc"
  shows "g_inv w' = g_inv w" and "\<exists>x w0. getCraftingResult ce loc [] False w' = Inr (crafted, x, w0)"
proof -
  obtain c x w0 where g: "getCraftingResult ce loc [] False w = Inr (c, x, w0)"
    and p: "s_CraftPredict sc c loc w0 = (crafted, w')"
    using assms(1) by (auto simp: craft_predict_def bind_ok_Inr)
  have "w0 = w" using getCraftingResult_game [OF g] by simp
  with plain_craftingD(1) [OF assms(2) p] have r: "crafted = c" "g_inv w' = g_inv w" by simp_all
  then show "g_inv w' = g_inv w" by simp
  have "list_of w' = list_of w" using same_inv_lists [OF r(2)] .
  from getCraftingResult_lists [OF this g] r(1)
  show "\<exists>x w0. getCraftingResult ce loc [] False w' = Inr (crafted, x, w0)" by simp
qed

lemma craft_roundE:
  assumes "craft_round sc ce loc reps w = Inr (reps', w')"
  obtains crafted temp w1 item w2 where "getCraftingResult ce loc [] True w = Inr (crafted, temp, w1)"
    "s_OnCraft sc crafted (the_list w (loc, lit ''craft'')) loc w1 = (item, w2)"
    "w' = setInventoryModified loc (fst (on_ref (loc, lit ''craftresult'') (il_addItem_at (ce_idef ce) 0 item) w2))"
proof -
  obtain crafted temp w1 where g: "getCraftingResult ce loc [] True w = Inr (crafted, temp, w1)"
    using assms by (auto simp: craft_round_def bind_ok_Inr)
  obtain item w2 where "s_OnCraft sc crafted (the_list w (loc, lit ''craft'')) loc w1 = (item, w2)" by fastforce
  with assms g that show ?thesis by (auto simp: craft_round_def Let_def)
qed

lemma craft_round_frame:
  assumes "craft_round sc ce loc reps w = Inr (reps', w')" and "plain_crafting sc"
    and "there w (loc, lit ''craftresult'')"
  shows "craft_frame loc w w'"
proof -
  obtain crafted temp w1 item w2 where g: "getCraftingResult ce loc [] True w = Inr (crafted, temp, w1)"
    and o: "s_OnCraft sc crafted (the_list w (loc, lit ''craft'')) loc w1 = (item, w2)"
    and w': "w' = setInventoryModified loc (fst (on_ref (loc, lit ''craftresult'') (il_addItem_at (ce_idef ce) 0 item) w2))"
    using assms(1) by (rule craft_roundE)
  have 1: "craft_frame loc w w1" by (rule getCraftingResult_frame [OF g])
  have 2: "craft_frame loc w1 w2" using plain_craftingD(2) [OF assms(2) o] same_inv_craft_frame by blast
  have "there w2 (loc, lit ''craftresult'')" using 1 2 assms(3) by (simp add: craft_frame_def)
  then have "craft_frame loc w2 (fst (on_ref (loc, lit ''craftresult'') (il_addItem_at (ce_idef ce) 0 item) w2))"
    unfolding on_ref_change by (rule change_ref_craft_frame) (simp_all add: addItem_at_frame)
  moreover have "craft_frame loc w3 (setInventoryModified loc w3)" for w3 :: "'a game"
    by (rule same_inv_craft_frame) (simp add: setInventoryModified_def)
  ultimately show ?thesis unfolding w' using 1 2 craft_frame_trans by blast
qed

text \<open>Every round puts something more into the result slot.\<close>

definition result_count :: "InventoryLocation \<Rightarrow> 'w game \<Rightarrow> nat" where
  "result_count loc w = unat (st_count (il_items (the_list w (loc, lit ''craftresult'')) ! 0))"

lemma added_all:
  assumes "il_itemFits idef 0 x l = (True, rest)" and "\<not> st_empty x"
  shows "unat (st_count (il_items l ! 0)) < unat (st_count (il_items (fst (il_addItem_at idef 0 x l)) ! 0))"
proof -
  have len: "0 < length (il_items l)" and f: "st_itemFits idef x (il_items l ! 0) = (True, rest)"
    using assms(1) by (auto simp: il_itemFits_def split: if_splits)
  obtain s r where a: "st_addItem idef x (il_items l ! 0) = (s, r)" by fastforce
  have "st_empty r" using f a by (auto simp: itemFits_addItem)
  then have "size (items r) = 0" by simp
  with addItem_items [OF a] have "size (items s) = size (items (il_items l ! 0)) + size (items x)"
    by (metis add.right_neutral size_union)
  moreover have "0 < unat (st_count x)" using assms(2) by (simp add: st_empty_def unat_gt_0)
  ultimately have "unat (st_count (il_items l ! 0)) < unat (st_count s)" by (simp add: size_items)
  moreover have "il_items (fst (il_addItem_at idef 0 x l)) ! 0 = s"
    using len a by (simp add: il_addItem_at_def il_setModified_def Let_def)
  ultimately show ?thesis by simp
qed

lemma craft_round_adds:
  assumes r: "craft_round sc ce loc reps w = Inr (reps', w')" and plain: "plain_crafting sc"
    and th: "there w (loc, lit ''craftresult'')"
    and p: "getCraftingResult ce loc [] False w = Inr (predicted, x, w0)"
    and fits: "fst (il_itemFits (ce_idef ce) 0 predicted (the_list w (loc, lit ''craftresult'')))"
    and ne: "\<not> st_empty predicted"
  shows "result_count loc w < result_count loc w'"
proof -
  let ?r = "(loc, lit ''craftresult'')"
  obtain crafted temp w1 item w2 where g: "getCraftingResult ce loc [] True w = Inr (crafted, temp, w1)"
    and o: "s_OnCraft sc crafted (the_list w (loc, lit ''craft'')) loc w1 = (item, w2)"
    and w': "w' = setInventoryModified loc (fst (on_ref ?r (il_addItem_at (ce_idef ce) 0 item) w2))"
    using r by (rule craft_roundE)
  have item: "item = predicted" "g_inv w2 = g_inv w1"
    using plain_craftingD(2) [OF plain o] getCraftingResult_same [OF p g] by simp_all
  have other: "?r \<noteq> (loc, lit ''craft'')" by (simp add: lit_def)
  have same: "the_list w1 ?r = the_list w ?r"
  proof -
    have "the_list (change_ref (loc, lit ''craft'') (write_back slots stacks) w) ?r = the_list w ?r"
      if "there w (loc, lit ''craft'')" for slots stacks
      using change_ref_there(1) [OF that, of "write_back slots stacks"] write_back_frame [of _ slots stacks] other
      by (simp add: same_frame_def)
    with getCraftingResult_game [OF g] show ?thesis by blast
  qed
  have lists: "list_of w2 = list_of w1" by (rule same_inv_lists [OF item(2)])
  then have same2: "the_list w2 ?r = the_list w ?r" using same by (simp add: the_list_def)
  have "there w2 ?r" using lists getCraftingResult_frame [OF g] th by (simp add: there_def craft_frame_def fun_eq_iff)
  from change_ref_there(1) [OF this, of "\<lambda>l. fst (il_addItem_at (ce_idef ce) 0 item l)"] addItem_at_frame
  have "the_list (fst (on_ref ?r (il_addItem_at (ce_idef ce) 0 item) w2)) ?r =
      fst (il_addItem_at (ce_idef ce) 0 predicted (the_list w ?r))"
    unfolding on_ref_change by (simp add: same_frame_def item(1) same2)
  moreover have "the_list w' = the_list (fst (on_ref ?r (il_addItem_at (ce_idef ce) 0 item) w2))"
    unfolding w' by (rule ext) (simp add: the_list_def list_of_def setInventoryModified_def)
  moreover obtain rest where "il_itemFits (ce_idef ce) 0 predicted (the_list w ?r) = (True, rest)"
    using fits by (cases "il_itemFits (ce_idef ce) 0 predicted (the_list w ?r)") simp
  ultimately show ?thesis using added_all [of "ce_idef ce" predicted] ne by (simp add: result_count_def)
qed

section \<open>The loop\<close>

text \<open>A positive count bounds the rounds, whatever the callbacks do.\<close>

lemma craft_loop_counted:
  "0 < n \<Longrightarrow> n \<le> fuel \<Longrightarrow> craft_loop fuel sc ce loc n crafted reps w \<noteq> Inl CraftFuel"
proof (induction fuel arbitrary: n crafted reps w)
  case (Suc fuel)
  have ih: "craft_loop fuel sc ce loc (n - 1) c rs v \<noteq> Inl CraftFuel" if "n \<noteq> 1" for c rs v
    using that Suc.prems by (intro Suc.IH) simp_all
  show ?case
  proof (cases "n = 1")
    case True
    then show ?thesis by (auto simp: bind_ok_def craft_ok_def split: sum.splits prod.splits)
  next
    case False
    with ih Suc.prems(1) show ?thesis
      by (auto simp: bind_ok_def craft_ok_def split: sum.splits prod.splits)
  qed
qed simp

text \<open>Without a count the result slot ends the loop, if the callbacks are plain.\<close>

lemma craft_loop_frame:
  assumes plain: "plain_crafting sc"
  shows "craft_loop fuel sc ce loc n crafted reps w = Inr (reps', w') \<Longrightarrow>
    there w (loc, lit ''craftresult'') \<Longrightarrow> craft_frame loc w w'"
proof (induction fuel arbitrary: n crafted reps w)
  case (Suc fuel)
  show ?case
  proof (cases "st_empty crafted \<or> \<not> fst (il_itemFits (ce_idef ce) 0 crafted (the_list w (loc, lit ''craftresult'')))")
    case True
    with Suc.prems show ?thesis by auto
  next
    case False
    with Suc.prems obtain reps1 w1 where r: "craft_round sc ce loc reps w = Inr (reps1, w1)"
      by (cases "craft_round sc ce loc reps w") (auto simp: craft_ok_def)
    have f1: "craft_frame loc w w1" by (rule craft_round_frame [OF r plain Suc.prems(2)])
    show ?thesis
    proof (cases "n = 1")
      case True
      with Suc.prems False r f1 show ?thesis by (simp add: craft_ok_def)
    next
      case n: False
      with Suc.prems False r obtain c w2 where p: "craft_predict sc ce loc w1 = Inr (c, w2)"
        and l: "craft_loop fuel sc ce loc (if n > 1 then n - 1 else n) c reps1 w2 = Inr (reps', w')"
        by (cases "craft_predict sc ce loc w1") (auto simp: craft_ok_def Let_def)
      have f2: "craft_frame loc w1 w2" by (rule same_inv_craft_frame [OF craft_predict_run(1) [OF p plain]])
      have "there w2 (loc, lit ''craftresult'')" using f1 f2 Suc.prems(2) by (simp add: craft_frame_def)
      from Suc.IH [OF l this] f1 f2 show ?thesis using craft_frame_trans by blast
    qed
  qed
qed simp

lemma craft_loop_ends:
  assumes plain: "plain_crafting sc"
  shows "there w (loc, lit ''craftresult'') \<Longrightarrow> (\<exists>x w0. getCraftingResult ce loc [] False w = Inr (crafted, x, w0)) \<Longrightarrow>
    65536 - result_count loc w < fuel \<Longrightarrow> craft_grid_small loc w \<Longrightarrow>
    craft_loop fuel sc ce loc n crafted reps w = Inl e \<Longrightarrow> \<exists>x. e = CraftThrow x"
proof (induction fuel arbitrary: n crafted reps w)
  case (Suc fuel)
  show ?case
  proof (cases "st_empty crafted \<or> \<not> fst (il_itemFits (ce_idef ce) 0 crafted (the_list w (loc, lit ''craftresult'')))")
    case False
    show ?thesis
    proof (cases "craft_round sc ce loc reps w")
      case (Inr q)
      obtain reps1 w1 where q: "q = (reps1, w1)" by fastforce
      note r = Inr [unfolded q]
      have f1: "craft_frame loc w w1" by (rule craft_round_frame [OF r plain Suc.prems(1)])
      obtain x w0 where g: "getCraftingResult ce loc [] False w = Inr (crafted, x, w0)" using Suc.prems(2) by blast
      have more: "result_count loc w < result_count loc w1"
        using craft_round_adds [OF r plain Suc.prems(1) g] False by simp
      have up: "result_count loc w1 < 65536" using unat16_lt by (simp add: result_count_def)
      show ?thesis
      proof (cases "craft_predict sc ce loc w1")
        case (Inr p)
        obtain c w2 where p: "p = (c, w2)" by fastforce
        note pr = craft_predict_run [OF Inr [unfolded p] plain]
        have l2: "list_of w2 = list_of w1" by (rule same_inv_lists [OF pr(1)])
        then have "result_count loc w2 = result_count loc w1" by (simp add: result_count_def the_list_def)
        then have fuel: "65536 - result_count loc w2 < fuel" using more up Suc.prems(3) by linarith
        have th: "there w2 (loc, lit ''craftresult'')"
          using l2 f1 Suc.prems(1) by (simp add: there_def craft_frame_def fun_eq_iff)
        have small: "craft_grid_small loc w2"
          using Suc.prems(4) craft_frame_small [OF f1] craft_frame_small [OF same_inv_craft_frame [OF pr(1)]] by simp
        have "craft_loop fuel sc ce loc (if n > 1 then n - 1 else n) c reps1 w2 = Inl e"
          using Suc.prems(5) False r Inr p by (simp add: Let_def split: if_split_asm)
        from Suc.IH [OF th pr(2) fuel small this] show ?thesis .
      next
        case (Inl x)
        then show ?thesis
          using Suc.prems(4,5) False r craft_predict_fails(2) [OF Inl] craft_frame_small [OF f1]
          by (auto split: if_split_asm)
      qed
    next
      case (Inl x)
      then show ?thesis using Suc.prems(4,5) False craft_round_fails(2) [OF Inl] by simp
    qed
  qed (use Suc.prems in auto)
qed simp

section \<open>The action\<close>

lemma put_replacement_frame:
  assumes "plain_crafting sc" and "there w (loc, lit ''main'')"
  shows "craft_frame loc w (put_replacement sc ce loc r w)"
proof -
  let ?m = "(loc, lit ''main'')"
  obtain w1 s where o: "on_ref ?m (il_addItem (ce_idef ce) r) w = (w1, s)" by fastforce
  have "w1 = change_ref ?m (\<lambda>l. fst (il_addItem (ce_idef ce) r l)) w" using on_ref_change [of ?m "il_addItem (ce_idef ce) r" w] o by simp
  then have "craft_frame loc w w1"
    using change_ref_craft_frame [OF assms(2), of "\<lambda>l. fst (il_addItem (ce_idef ce) r l)"] addItem_frame by simp
  moreover have "craft_frame loc w1 (snd (s_OnDrop sc s w1))"
    by (rule same_inv_craft_frame) (rule plain_craftingD(3) [OF assms(1)])
  ultimately show ?thesis using o craft_frame_trans by (auto simp: put_replacement_def)
qed

lemma put_replacements_frame:
  assumes "plain_crafting sc"
  shows "there w (loc, lit ''main'') \<Longrightarrow> craft_frame loc w (fold (put_replacement sc ce loc) rs w)"
proof (induction rs arbitrary: w)
  case (Cons r rs)
  note f = put_replacement_frame [OF assms Cons.prems, of ce r]
  then have "there (put_replacement sc ce loc r w) (loc, lit ''main'')" using Cons.prems by (simp add: craft_frame_def)
  from craft_frame_trans [OF f Cons.IH [OF this]] show ?case by simp
qed simp

lemma craft_locked_frame:
  assumes plain: "plain_crafting sc" and th: "there w (craft_inv a, lit ''craftresult'')" "there w (craft_inv a, lit ''main'')"
    and r: "craft_locked fuel sc ce a w = Inr w'"
  shows "craft_frame (craft_inv a) w w'"
proof -
  let ?loc = "craft_inv a"
  obtain crafted w1 where p: "craft_predict sc ce ?loc w = Inr (crafted, w1)"
    using r by (cases "craft_predict sc ce ?loc w") (auto simp: craft_locked_def craft_ok_def)
  with r obtain reps w2 where l: "craft_loop fuel sc ce ?loc (unat (ca_count a)) crafted [] w1 = Inr (reps, w2)"
    and w': "w' = fold (put_replacement sc ce ?loc) reps w2"
    by (auto simp: craft_locked_def craft_ok_def bind_ok_Inr Let_def)
  have f1: "craft_frame ?loc w w1" by (rule same_inv_craft_frame [OF craft_predict_run(1) [OF p plain]])
  then have "there w1 (?loc, lit ''craftresult'')" using th by (simp add: craft_frame_def)
  note f2 = craft_loop_frame [OF plain l this]
  have "there w2 (?loc, lit ''main'')" using f1 f2 th by (simp add: craft_frame_def)
  note f3 = put_replacements_frame [OF plain this, of ce reps]
  show ?thesis unfolding w' using f1 f2 f3 craft_frame_trans by blast
qed

lemma craft_locked_ends:
  assumes plain: "plain_crafting sc" and th: "there w (craft_inv a, lit ''craftresult'')"
    and small: "craft_grid_small (craft_inv a) w" and e: "craft_locked 65537 sc ce a w = Inl e"
  shows "\<exists>x. e = CraftThrow x"
proof (cases "craft_predict sc ce (craft_inv a) w")
  case (Inr q)
  obtain crafted w1 where q: "q = (crafted, w1)" by fastforce
  note pr = craft_predict_run [OF Inr [unfolded q] plain]
  have "there w1 (craft_inv a, lit ''craftresult'')"
    using th same_inv_lists [OF pr(1)] by (simp add: there_def)
  moreover have "craft_grid_small (craft_inv a) w1"
    using small craft_frame_small [OF same_inv_craft_frame [OF pr(1)]] by simp
  moreover have "craft_loop 65537 sc ce (craft_inv a) (unat (ca_count a)) crafted [] w1 = Inl e"
    using e Inr q by (auto simp: craft_locked_def Let_def bind_ok_def split: sum.split_asm)
  ultimately show ?thesis using craft_loop_ends [OF plain _ pr(2), of 65537] by simp
next
  case (Inl x)
  with e craft_predict_fails(2) [OF Inl small] show ?thesis by (simp add: craft_locked_def Let_def)
qed

text \<open>The three locks, taken and given back.\<close>

lemma lock_there:
  assumes "there w r"
  shows "the_list (change_ref r resizeLock w) = (the_list w)(r := resizeLock (the_list w r))"
    and "there (change_ref r resizeLock w) = there w"
    and "l \<noteq> fst r \<Longrightarrow> g_inv (change_ref r resizeLock w) l = g_inv w l"
  using change_ref_there [OF assms, of resizeLock] by (simp_all add: resizeLock_def)

lemma release_there:
  assumes "there w r"
  shows "the_list (release r w) = (the_list w)(r := resizeUnlock (the_list w r))"
    and "there (release r w) = there w"
    and "l \<noteq> fst r \<Longrightarrow> g_inv (release r w) l = g_inv w l"
  using change_ref_there [OF assms, of resizeUnlock] by (simp_all add: release_def resizeUnlock_def)

definition lock_all :: "list_ref list \<Rightarrow> 'w game \<Rightarrow> 'w game" where
  "lock_all rs w = fold (\<lambda>r. change_ref r resizeLock) rs w"

definition release_all :: "list_ref list \<Rightarrow> 'w game \<Rightarrow> 'w game" where
  "release_all rs w = fold release rs w"

lemma lock_all_there:
  "\<forall>r\<in>set rs. there w r \<Longrightarrow> there (lock_all rs w) = there w \<and>
     (\<forall>s. il_resize_locks (the_list (lock_all rs w) s) = il_resize_locks (the_list w s) + int (count_list rs s)) \<and>
     (\<forall>s. length (il_items (the_list (lock_all rs w) s)) = length (il_items (the_list w s))) \<and>
     (\<forall>l. l \<notin> fst ` set rs \<longrightarrow> g_inv (lock_all rs w) l = g_inv w l)"
proof (induction rs arbitrary: w)
  case (Cons r rs)
  have th: "there w r" using Cons.prems by simp
  note l = lock_there [OF th]
  have all: "\<forall>s\<in>set rs. there (change_ref r resizeLock w) s" using Cons.prems l(2) by simp
  from Cons.IH [OF all] l show ?case by (simp add: lock_all_def resizeLock_def)
qed (simp add: lock_all_def)

lemma release_all_there:
  "\<forall>r\<in>set rs. there w r \<Longrightarrow> there (release_all rs w) = there w \<and>
     (\<forall>s. il_resize_locks (the_list (release_all rs w) s) = il_resize_locks (the_list w s) - int (count_list rs s)) \<and>
     (\<forall>s. length (il_items (the_list (release_all rs w) s)) = length (il_items (the_list w s))) \<and>
     (\<forall>l. l \<notin> fst ` set rs \<longrightarrow> g_inv (release_all rs w) l = g_inv w l)"
proof (induction rs arbitrary: w)
  case (Cons r rs)
  have th: "there w r" using Cons.prems by simp
  note l = release_there [OF th]
  have all: "\<forall>s\<in>set rs. there (release r w) s" using Cons.prems l(2) by simp
  from Cons.IH [OF all] l show ?case by (simp add: release_all_def resizeUnlock_def)
qed (simp add: release_all_def)

lemma lock_unlock:
  assumes th: "\<forall>r\<in>set rs. there w r" and loc: "fst ` set rs \<subseteq> {loc}"
    and f: "craft_frame loc (lock_all rs w) w2"
  shows "craft_frame loc w (release_all (rev rs) w2)"
proof -
  note l = lock_all_there [OF th]
  have "\<forall>r\<in>set (rev rs). there w2 r" using f l th by (simp add: craft_frame_def)
  note u = release_all_there [OF this]
  have "count_list (rev rs) s = count_list rs s" for s by (simp add: count_list_eq_length_filter rev_filter [symmetric])
  moreover have "k \<notin> fst ` set rs" if "k \<noteq> loc" for k using loc that by auto
  ultimately show ?thesis using l u f by (simp add: craft_frame_def)
qed

text \<open>With the three lists there, and the second not empty, the locks are taken and given back.\<close>

definition craft_refs :: "InventoryLocation \<Rightarrow> list_ref list" where
  "craft_refs loc = [(loc, lit ''craft''), (loc, lit ''craftresult''), (loc, lit ''main'')]"

lemma apply_craft_locked:
  assumes "apply_craft fuel sc ce a w \<noteq> Inr w"
    and "there w (craft_inv a, lit ''main'') \<or> apply_craft fuel sc ce a w \<noteq> Inl CraftNullList"
  shows "apply_craft fuel sc ce a w =
      bind_ok (craft_locked fuel sc ce a (lock_all (craft_refs (craft_inv a)) w))
        (\<lambda>w. Inr (release_all (rev (craft_refs (craft_inv a))) w))"
    and "r \<in> set (craft_refs (craft_inv a)) \<Longrightarrow> there w r"
  using assms
  by (auto simp: apply_craft_def there_def list_of_def Let_def lock_all_def release_all_def craft_refs_def
      split: option.splits if_splits)

lemma apply_craft_frame:
  assumes plain: "plain_crafting sc" and r: "apply_craft fuel sc ce a w = Inr w'"
  shows "craft_frame (craft_inv a) w w'"
proof (cases "w' = w")
  case False
  let ?rs = "craft_refs (craft_inv a)"
  have ne: "apply_craft fuel sc ce a w \<noteq> Inr w"
    "there w (craft_inv a, lit ''main'') \<or> apply_craft fuel sc ce a w \<noteq> Inl CraftNullList"
    using False r by simp_all
  note run = apply_craft_locked [OF ne]
  have all: "\<forall>r\<in>set ?rs. there w r" "fst ` set ?rs \<subseteq> {craft_inv a}"
    using run(2) by (auto simp: craft_refs_def)
  obtain w2 where w2: "craft_locked fuel sc ce a (lock_all ?rs w) = Inr w2" "w' = release_all (rev ?rs) w2"
    using run(1) r by (cases "craft_locked fuel sc ce a (lock_all ?rs w)") (simp_all add: bind_ok_def)
  have "craft_frame (craft_inv a) (lock_all ?rs w) w2"
    using craft_locked_frame [OF plain _ _ w2(1)] lock_all_there [OF all(1)] all(1) by (simp add: craft_refs_def)
  then show ?thesis unfolding w2(2) by (rule lock_unlock [OF all])
qed simp

lemma apply_craft_run:
  assumes plain: "plain_crafting sc" and small: "craft_grid_small (craft_inv a) w"
    and main: "there w (craft_inv a, lit ''main'')"
  shows "case apply_craft 65537 sc ce a w of
      Inl e \<Rightarrow> \<exists>x. e = CraftThrow x
    | Inr w' \<Rightarrow> craft_frame (craft_inv a) w w'"
proof (cases "apply_craft 65537 sc ce a w")
  case (Inl e)
  let ?rs = "craft_refs (craft_inv a)"
  have ne: "apply_craft 65537 sc ce a w \<noteq> Inr w"
    "there w (craft_inv a, lit ''main'') \<or> apply_craft 65537 sc ce a w \<noteq> Inl CraftNullList"
    using Inl main by simp_all
  note run = apply_craft_locked [OF ne]
  have all: "\<forall>r\<in>set ?rs. there w r" using run(2) by blast
  note l = lock_all_there [OF all]
  have "there (lock_all ?rs w) (craft_inv a, lit ''craftresult'')" using l all by (simp add: craft_refs_def)
  moreover have "craft_grid_small (craft_inv a) (lock_all ?rs w)" using l small by (simp add: craft_grid_small_def)
  moreover have "craft_locked 65537 sc ce a (lock_all ?rs w) = Inl e"
    using run(1) Inl by (auto simp: bind_ok_def split: sum.split_asm)
  ultimately have "\<exists>x. e = CraftThrow x" by (rule craft_locked_ends [OF plain])
  with Inl show ?thesis by simp
qed (simp add: apply_craft_frame [OF plain])

lemma craft_locked_counted:
  assumes "0 < ca_count a"
  shows "craft_locked 65537 sc ce a w \<noteq> Inl CraftFuel"
proof -
  have n: "0 < unat (ca_count a)" "unat (ca_count a) \<le> 65537"
    using assms unat16_lt [of "ca_count a"] by (simp_all add: unat_gt_0)
  have "craft_loop 65537 sc ce (craft_inv a) (unat (ca_count a)) crafted [] w1 \<noteq> Inl CraftFuel" for crafted w1
    by (rule craft_loop_counted [OF n])
  then show ?thesis
    by (auto simp: craft_locked_def bind_ok_def Let_def split: sum.splits prod.splits)
qed


definition craft_scripts :: "unit scripts" where
  "craft_scripts = sample_scripts 0"

definition craft_game :: "unit game" where
  "craft_game =
     \<lparr>g_inv = (\<lambda>l. if l = PLAYER [97] then Some \<lparr>m_lists =
        [(new_InventoryList (lit ''craft'') 4)\<lparr>il_items := [one_item ''wood'', no_item, one_item ''coal'', no_item], il_width := 2\<rparr>,
         new_InventoryList (lit ''craftresult'') 1, new_InventoryList (lit ''main'') 2], inv_dirty = False\<rparr> else None),
      g_modified = [], g_rollback = [], g_script = ()\<rparr>"

definition sample_env :: craft_env where
  "sample_env = \<lparr>ce_stale = 0, ce_ord = (\<lambda>_. []), ce_idef = craft_idef, ce_crafts = sample_hashed\<rparr>"

lemma craft_scripts_plain: "plain_crafting craft_scripts"
  by (simp add: plain_crafting_def craft_scripts_def sample_scripts_def)


end
