(* ===== verification/ServerInventory.thy ===== *)
theory ServerInventory
  imports CraftAction NetworkPacket
begin

text \<open>
  The inventories of the server (\<open>src/server/serverinventorymgr.cpp\<close>): those of the players, those
  in the metadata of nodes, and the detached ones, which the scripts create; and how the detached
  ones are sent to the clients (\<open>src/server.cpp\<close>, \<open>src/network/clientpackethandler.cpp\<close>).
\<close>

section \<open>State\<close>

text \<open>
  Of a player, what the inventories need: \<open>rp_sao\<close> says whether there is an object for the player
  in the world.  Of the environment, the players, the inventories in the metadata of nodes, and the
  positions at which a change of the metadata has been announced.
\<close>

record RemotePlayer =
  rp_name :: bytes
  rp_peer_id :: u16
  rp_sao :: bool
  rp_inventory :: Inventory
  rp_modified :: bool

record ServerEnvironment =
  m_players :: "RemotePlayer list"
  node_meta :: "s16 v3d \<Rightarrow> Inventory option"
  map_events :: "s16 v3d list"

record DetachedInventory =
  dinv_inventory :: "Inventory option"
  dinv_owner :: bytes

record ServerInventoryManager =
  sim_env :: "ServerEnvironment option"
  m_detached_inventories :: "bytes \<Rightarrow> DetachedInventory option"

definition new_ServerInventoryManager :: ServerInventoryManager where
  "new_ServerInventoryManager = \<lparr>sim_env = None, m_detached_inventories = Map.empty\<rparr>"

definition PEER_INEXISTENT :: u16 where
  "PEER_INEXISTENT = 0"

section \<open>Lookup\<close>

text \<open>A string that is passed on as \<open>c_str()\<close> ends at its first zero.\<close>

definition c_str :: "bytes \<Rightarrow> bytes" where
  "c_str s = takeWhile (\<lambda>c. c \<noteq> 0) s"

definition getPlayer_id :: "u16 \<Rightarrow> ServerEnvironment \<Rightarrow> RemotePlayer option" where
  "getPlayer_id peer_id env = find (\<lambda>p. rp_peer_id p = peer_id) (m_players env)"

text \<open>The first player of the name, unless it is not connected.\<close>

definition getPlayer :: "bytes \<Rightarrow> ServerEnvironment \<Rightarrow> RemotePlayer option" where
  "getPlayer name env =
     (case find (\<lambda>p. rp_name p = name) (m_players env) of
        None \<Rightarrow> None
      | Some p \<Rightarrow> if rp_peer_id p \<noteq> PEER_INEXISTENT then Some p else None)"

definition getInventory :: "ServerInventoryManager \<Rightarrow> InventoryLocation \<Rightarrow> Inventory option" where
  "getInventory mgr loc =
     (case loc of
        UNDEFINED \<Rightarrow> None
      | CURRENT_PLAYER \<Rightarrow> None
      | PLAYER name \<Rightarrow>
          (case sim_env mgr of
             None \<Rightarrow> None
           | Some env \<Rightarrow>
               (case getPlayer (c_str name) env of
                  None \<Rightarrow> None
                | Some p \<Rightarrow> if rp_sao p then Some (rp_inventory p) else None))
      | NODEMETA p \<Rightarrow> (case sim_env mgr of None \<Rightarrow> None | Some env \<Rightarrow> node_meta env p)
      | DETACHED name \<Rightarrow>
          (case m_detached_inventories mgr name of None \<Rightarrow> None | Some d \<Rightarrow> dinv_inventory d))"

text \<open>What happens through a pointer to the player that a name stands for.\<close>

fun change_player :: "bytes \<Rightarrow> (RemotePlayer \<Rightarrow> RemotePlayer) \<Rightarrow> RemotePlayer list \<Rightarrow> RemotePlayer list" where
  "change_player name f [] = []"
| "change_player name f (p # ps) =
     (if rp_name p = name then (if rp_peer_id p \<noteq> PEER_INEXISTENT then f p # ps else p # ps)
      else p # change_player name f ps)"

text \<open>
  \<open>setInventoryModified\<close>.  \<open>None\<close>: the check for a known type fails, or the environment, which
  is used without a test, is not there.
\<close>

definition mgr_setInventoryModified :: "InventoryLocation \<Rightarrow> ServerInventoryManager \<Rightarrow> ServerInventoryManager option" where
  "mgr_setInventoryModified loc mgr =
     (case loc of
        UNDEFINED \<Rightarrow> Some mgr
      | CURRENT_PLAYER \<Rightarrow> None
      | PLAYER name \<Rightarrow>
          map_option (\<lambda>env. mgr\<lparr>sim_env := Some (env\<lparr>m_players :=
              change_player (c_str name) (\<lambda>p. p\<lparr>rp_modified := True,
                rp_inventory := inv_setModified True (rp_inventory p)\<rparr>) (m_players env)\<rparr>)\<rparr>) (sim_env mgr)
      | NODEMETA p \<Rightarrow>
          map_option (\<lambda>env. mgr\<lparr>sim_env := Some (env\<lparr>map_events := map_events env @ [p]\<rparr>)\<rparr>) (sim_env mgr)
      | DETACHED name \<Rightarrow> Some mgr)"

text \<open>\<open>SANITY_CHECK\<close> of the type is \<open>None\<close>.\<close>

definition checkDetachedInventoryAccess :: "ServerInventoryManager \<Rightarrow> InventoryLocation \<Rightarrow> bytes \<Rightarrow> bool option" where
  "checkDetachedInventoryAccess mgr loc player =
     (case loc of
        DETACHED name \<Rightarrow>
          Some (case m_detached_inventories mgr name of
              None \<Rightarrow> False
            | Some d \<Rightarrow> dinv_owner d = [] \<or> dinv_owner d = player)
      | _ \<Rightarrow> None)"

section \<open>Sending detached inventories\<close>

definition TOCLIENT_DETACHED_INVENTORY :: u16 where
  "TOCLIENT_DETACHED_INVENTORY = 0x43"

text \<open>
  The packet, and the inventory with its marks of change cleared.  A packet for
  \<open>PEER_INEXISTENT\<close> goes to everybody.
\<close>

definition sendDetachedInventory ::
  "(metadata \<Rightarrow> bytes list) \<Rightarrow> Inventory option \<Rightarrow> bytes \<Rightarrow> u16 \<Rightarrow> packet_error + net_packet \<times> Inventory option" where
  "sendDetachedInventory ord inventory name peer_id =
     (case put_string name (newNetworkPacket TOCLIENT_DETACHED_INVENTORY peer_id) of
        (Inl e, _) \<Rightarrow> Inl e
      | (Inr _, pkt) \<Rightarrow>
          (case inventory of
             None \<Rightarrow> Inr (put_bool False pkt, None)
           | Some iv \<Rightarrow>
               let os_str = inv_serialize ord False iv in
               Inr (putRawString os_str (put_u16 (of_nat (length os_str)) (put_bool True pkt)),
                    Some (inv_setModified False iv))))"

definition put_detached :: "bytes \<Rightarrow> Inventory option \<Rightarrow> ServerInventoryManager \<Rightarrow> ServerInventoryManager" where
  "put_detached name iv mgr =
     mgr\<lparr>m_detached_inventories := (m_detached_inventories mgr)(name :=
       map_option (\<lambda>d. d\<lparr>dinv_inventory := iv\<rparr>) (m_detached_inventories mgr name))\<rparr>"

text \<open>
  A new inventory replaces the old one of the name, whose owner stays if there is no new one.  The
  player to send it to is looked up under the name of the inventory.
\<close>

definition createDetachedInventory ::
  "(metadata \<Rightarrow> bytes list) \<Rightarrow> bytes \<Rightarrow> bytes \<Rightarrow> ServerInventoryManager \<Rightarrow>
   packet_error + net_packet list \<times> ServerInventoryManager" where
  "createDetachedInventory ord name player mgr =
     (let owner = (case m_detached_inventories mgr name of None \<Rightarrow> [] | Some d \<Rightarrow> dinv_owner d);
          inv = new_Inventory;
          mgr = mgr\<lparr>m_detached_inventories := (m_detached_inventories mgr)(name \<mapsto>
            \<lparr>dinv_inventory = Some inv, dinv_owner = (if player \<noteq> [] then player else owner)\<rparr>)\<rparr>;
          send = (\<lambda>peer. bind_ok (sendDetachedInventory ord (Some inv) name peer) (\<lambda>(pkt, iv).
            Inr ([pkt], put_detached name iv mgr))) in
      case sim_env mgr of
        None \<Rightarrow> Inr ([], mgr)
      | Some env \<Rightarrow>
          if player \<noteq> []
          then (case getPlayer (c_str name) env of None \<Rightarrow> Inr ([], mgr) | Some p \<Rightarrow> send (rp_peer_id p))
          else send PEER_INEXISTENT)"

definition removeDetachedInventory ::
  "(metadata \<Rightarrow> bytes list) \<Rightarrow> bytes \<Rightarrow> ServerInventoryManager \<Rightarrow>
   packet_error + net_packet list \<times> ServerInventoryManager \<times> bool" where
  "removeDetachedInventory ord name mgr =
     (case m_detached_inventories mgr name of
        None \<Rightarrow> Inr ([], mgr, False)
      | Some d \<Rightarrow>
          let gone = mgr\<lparr>m_detached_inventories := (m_detached_inventories mgr)(name := None)\<rparr>;
              send = (\<lambda>peer. bind_ok (sendDetachedInventory ord None name peer) (\<lambda>(pkt, _).
                Inr ([pkt], gone, True))) in
          case sim_env mgr of
            None \<Rightarrow> Inr ([], gone, True)
          | Some env \<Rightarrow>
              if dinv_owner d \<noteq> []
              then (case getPlayer (c_str (dinv_owner d)) env of
                  None \<Rightarrow> Inr ([], gone, True) | Some p \<Rightarrow> send (rp_peer_id p))
              else send PEER_INEXISTENT)"

text \<open>The order \<open>names\<close> is that of the hash table.\<close>

definition passed_over :: "bytes \<Rightarrow> bool \<Rightarrow> DetachedInventory \<Rightarrow> bool" where
  "passed_over peer_name incremental dinv \<longleftrightarrow>
     incremental \<and> (case dinv_inventory dinv of None \<Rightarrow> True | Some iv \<Rightarrow> \<not> inv_checkModified iv) \<or>
     peer_name \<noteq> [] \<and> dinv_owner dinv \<noteq> [] \<and> peer_name \<noteq> dinv_owner dinv"

fun sendDetachedInventories ::
  "bytes \<Rightarrow> bool \<Rightarrow> (bytes \<Rightarrow> Inventory option \<Rightarrow> packet_error + 'p \<times> Inventory option) \<Rightarrow>
   bytes list \<Rightarrow> ServerInventoryManager \<Rightarrow> packet_error + 'p list \<times> ServerInventoryManager" where
  "sendDetachedInventories peer_name incremental apply_cb [] mgr = Inr ([], mgr)"
| "sendDetachedInventories peer_name incremental apply_cb (name # names) mgr =
     (case m_detached_inventories mgr name of
        None \<Rightarrow> sendDetachedInventories peer_name incremental apply_cb names mgr
      | Some dinv \<Rightarrow>
          if passed_over peer_name incremental dinv
          then sendDetachedInventories peer_name incremental apply_cb names mgr
          else
            bind_ok (apply_cb name (dinv_inventory dinv)) (\<lambda>(p, iv).
            bind_ok (sendDetachedInventories peer_name incremental apply_cb names (put_detached name iv mgr))
              (\<lambda>(ps, mgr). Inr (p # ps, mgr))))"

text \<open>
  \<open>Server::sendDetachedInventories\<close>: to everybody what has changed since, or to one player, whose
  name is that of the client \<open>peer_id\<close>, what it may see.
\<close>

definition server_sendDetachedInventories ::
  "(metadata \<Rightarrow> bytes list) \<Rightarrow> (u16 \<Rightarrow> bytes) \<Rightarrow> u16 \<Rightarrow> bool \<Rightarrow> bytes list \<Rightarrow> ServerInventoryManager \<Rightarrow>
   packet_error + net_packet list \<times> ServerInventoryManager" where
  "server_sendDetachedInventories ord client_name peer_id incremental names mgr =
     (let peer_name = (if peer_id \<noteq> PEER_INEXISTENT then client_name peer_id else []) in
      sendDetachedInventories peer_name incremental (\<lambda>name inv. sendDetachedInventory ord inv name peer_id) names mgr)"

section \<open>Receiving them\<close>

datatype client_error = ClientPacketError packet_error | ClientInventoryError inv_error

type_synonym client_table = "bytes \<Rightarrow> Inventory option"

text \<open>
  \<open>Client::handleCommand_DetachedInventory\<close> on the table of the client.  An exception leaves in the
  table what has been read so far.
\<close>

definition handle_DetachedInventory ::
  "u16 \<Rightarrow> u32 \<Rightarrow> IItemDefManager \<Rightarrow> net_packet \<Rightarrow> client_table \<Rightarrow> client_error option \<times> client_table" where
  "handle_DetachedInventory stale stale_size idef pkt m =
     (case get_string pkt of
        (Inl e, _) \<Rightarrow> (Some (ClientPacketError e), m)
      | (Inr name, pkt) \<Rightarrow>
          (case get_bool pkt of
             (Inl e, _) \<Rightarrow> (Some (ClientPacketError e), m)
           | (Inr keep_inv, pkt) \<Rightarrow>
               if \<not> keep_inv then (None, m(name := None))
               else
                 let inv = (case m name of None \<Rightarrow> new_Inventory | Some iv \<Rightarrow> iv) in
                 case skip 2 pkt of
                   (Inl e, _) \<Rightarrow> (Some (ClientPacketError e), m(name \<mapsto> inv))
                 | (Inr _, pkt) \<Rightarrow>
                     (case the (inv_deSerialize stale stale_size idef inv (getRemainingNoCopy pkt, True)) of
                        Inl (e, iv) \<Rightarrow> (Some (ClientInventoryError e), m(name \<mapsto> iv))
                      | Inr (iv, _) \<Rightarrow> (None, m(name \<mapsto> iv)))))"

fun handle_all ::
  "u16 \<Rightarrow> u32 \<Rightarrow> IItemDefManager \<Rightarrow> net_packet list \<Rightarrow> client_table \<Rightarrow> client_error option \<times> client_table" where
  "handle_all stale stale_size idef [] m = (None, m)"
| "handle_all stale stale_size idef (p # ps) m =
     (case handle_DetachedInventory stale stale_size idef p m of
        (Some e, m) \<Rightarrow> (Some e, m)
      | (None, m) \<Rightarrow> handle_all stale stale_size idef ps m)"

section \<open>A packet arrives\<close>

text \<open>Over the network: forged to bytes and put back together.\<close>

definition carried :: "net_packet \<Rightarrow> net_packet option" where
  "carried p = Option.bind (oldForgePacket p) (\<lambda>wire. putRawPacket wire 0 (newNetworkPacket 0 0))"

definition same_lists :: "Inventory \<Rightarrow> Inventory \<Rightarrow> bool" where
  "same_lists a b \<longleftrightarrow> (\<forall>n. rel_option il_eq (getList n a) (getList n b))"

text \<open>What the server may send: a name and a text that fit into a packet.\<close>

definition sendable :: "IItemDefManager \<Rightarrow> (metadata \<Rightarrow> bytes list) \<Rightarrow> bytes \<Rightarrow> Inventory \<Rightarrow> bool" where
  "sendable idef ord name iv \<longleftrightarrow> inv_ok idef ord iv \<and> length name \<le> STRING_MAX_LEN \<and>
     length name + length (inv_serialize ord False iv) + 7 < 4294967296"

definition client_ok :: "client_table \<Rightarrow> bool" where
  "client_ok m \<longleftrightarrow> (\<forall>n iv. m n = Some iv \<longrightarrow> unlocked iv \<and> list_all il_ok (m_lists iv))"

definition fields :: "bytes \<Rightarrow> Inventory \<Rightarrow> (metadata \<Rightarrow> bytes list) \<Rightarrow> bytes" where
  "fields name iv ord =
     concat (map value_bytes [VString name, VBool True, VU16 (of_nat (length (inv_serialize ord False iv)))])"

lemma sendDetachedInventory_packet:
  assumes "sendable idef ord name iv"
  shows "sendDetachedInventory ord (Some iv) name peer =
    Inr (append_bytes (fields name iv ord @ inv_serialize ord False iv)
        (newNetworkPacket TOCLIENT_DETACHED_INVENTORY peer), Some (inv_setModified False iv))"
proof -
  let ?t = "inv_serialize ord False iv"
  let ?vs = "[VString name, VBool True, VU16 (of_nat (length ?t))]"
  let ?new = "newNetworkPacket TOCLIENT_DETACHED_INVENTORY peer"
  have len: "length (fields name iv ord) = length name + 5"
    by (simp add: fields_def writeU16_def writeU8_def)
  have new: "at_end ?new" by (simp add: newNetworkPacket_def at_end_def packet_ok_def)
  have all: "fits ?new (fields name iv ord @ ?t)"
    using assms len by (simp add: sendable_def fits_def newNetworkPacket_def)
  have ok: "list_all value_ok ?vs" using assms by (simp add: sendable_def)
  have fit: "fits ?new (fields name iv ord)" "fits (append_bytes (fields name iv ord) ?new) ?t"
    using fits_append [OF all] by simp_all
  from put_values_at_end [OF ok new fit(1) [unfolded fields_def]]
  obtain p where p: "put_string name ?new = (Inr (), p)"
    and q: "put_u16 (of_nat (length ?t)) (put_bool True p) = append_bytes (fields name iv ord) ?new"
    by (auto simp: fields_def returning_def split: prod.splits sum.splits)
  have "at_end (append_bytes (fields name iv ord) ?new)" using new fit(1) by blast
  from putRawString_at_end [OF this fit(2)] p q show ?thesis
    by (simp add: sendDetachedInventory_def Let_def append_bytes_append)
qed

lemma carried_packet:
  assumes "length b + 2 < 4294967296" and "command \<noteq> 0"
  shows "carried (append_bytes b (newNetworkPacket command peer)) =
    Some ((newNetworkPacket 0 0)\<lparr>m_datasize := of_nat (length b), m_peer_id := 0, m_data := b, m_command := command\<rparr>)"
proof -
  have "oldForgePacket (append_bytes b (newNetworkPacket command peer)) = Some (writeU16 command @ b)"
    using assms by (simp add: oldForgePacket_def append_bytes_def newNetworkPacket_def unat_of_nat32)
  then show ?thesis by (simp add: carried_def putRawPacket_def newNetworkPacket_def)
qed

lemma remaining_at:
  assumes ok: "packet_ok p" and d: "drop (unat (m_read_offset p)) (m_data p) = r"
  shows "getRemainingNoCopy p = r"
proof -
  have "unat (getRemainingBytes p) = unat (m_datasize p) - unat (m_read_offset p)"
    using ok by (simp add: getRemainingBytes_def packet_ok_def unat_sub)
  then have "unat (getRemainingBytes p) = length r" using ok d by (auto simp: packet_ok_def)
  moreover from this have "getRemainingBytes p = 0 \<longleftrightarrow> r = []" by (metis length_0_conv unat_eq_zero)
  ultimately show ?thesis using d by (simp add: getRemainingNoCopy_def Let_def)
qed

lemma skip_at:
  assumes ok: "packet_ok p" and d: "drop (unat (m_read_offset p)) (m_data p) = e @ r" and n: "length e = unat n"
  shows "skip n p = (Inr (), advance (length e) p)"
  using read_field_at [OF ok d n, of "\<lambda>_. ()"] n
  by (auto simp: skip_def read_field_def advance_def checkReadOffset_def Let_def split: if_splits)

lemma handle_packet:
  assumes s: "sendable idef ord name iv" and m: "\<forall>iv. m name = Some iv \<longrightarrow> unlocked iv \<and> list_all il_ok (m_lists iv)"
    and q: "carried (append_bytes (fields name iv ord @ inv_serialize ord False iv)
      (newNetworkPacket TOCLIENT_DETACHED_INVENTORY peer)) = Some q"
  shows "\<exists>iv'. handle_DetachedInventory stale ssz idef q m = (None, m(name \<mapsto> iv')) \<and> same_lists iv' iv"
proof -
  let ?t = "inv_serialize ord False iv"
  let ?size = "writeU16 (of_nat (length ?t))"
  define cur where "cur = (case m name of None \<Rightarrow> new_Inventory | Some iv \<Rightarrow> iv)"
  have cur: "unlocked cur" "list_all il_ok (m_lists cur)"
    using m by (auto simp: cur_def unlocked_def new_Inventory_def split: option.splits)
  have len: "length (fields name iv ord) = length name + 5"
    by (simp add: fields_def writeU16_def writeU8_def)
  have b: "length (fields name iv ord @ ?t) + 2 < 4294967296" using s len by (simp add: sendable_def)
  have q': "q = (newNetworkPacket 0 0)\<lparr>m_datasize := of_nat (length (fields name iv ord @ ?t)), m_peer_id := 0,
      m_data := fields name iv ord @ ?t, m_command := TOCLIENT_DETACHED_INVENTORY\<rparr>"
    using q carried_packet [OF b] by (simp add: TOCLIENT_DETACHED_INVENTORY_def)
  have "unat (of_nat (length (fields name iv ord @ ?t)) :: u32) = length (fields name iv ord @ ?t)"
    using b by (intro unat_of_nat32) simp
  then have ok: "packet_ok q" unfolding q' by (simp only: newNetworkPacket_def packet_ok_def) simp
  have d0: "drop (unat (m_read_offset q)) (m_data q) = value_bytes (VString name) @ value_bytes (VBool True) @ ?size @ ?t"
    by (simp add: q' newNetworkPacket_def fields_def)
  have v: "value_ok (VString name)" using s by (simp add: sendable_def)
  have k: "length name \<le> STRING_MAX_LEN" using s by (simp add: sendable_def)
  note g1 = f_string.get_enc [OF k ok, of "value_bytes (VBool True) @ ?size @ ?t"]
  define q1 where "q1 = advance (length (value_bytes (VString name))) q"
  have g1: "get_string q = (Inr name, q1)" using g1 d0 by (simp add: q1_def)
  note a1 = advance_ok(1,2) [OF ok d0, folded q1_def]
  define q2 where "q2 = advance (length (value_bytes (VBool True))) q1"
  have g2: "get_bool q1 = (Inr True, q2)"
    using f_bool.get_enc [OF TrueI a1(1), of True "?size @ ?t"] a1(2) by (simp add: q2_def)
  note a2 = advance_ok(1,2) [OF a1, folded q2_def]
  define q3 where "q3 = advance (length ?size) q2"
  have g3: "skip 2 q2 = (Inr (), q3)"
    using skip_at [OF a2, of 2] by (simp add: q3_def writeU16_def)
  note a3 = advance_ok(1,2) [OF a2, folded q3_def]
  have g4: "getRemainingNoCopy q3 = ?t" by (rule remaining_at [OF a3])
  have "inv_ok idef ord iv" using s by (simp add: sendable_def)
  from inventory_transfer_run [OF this cur, of False stale ssz "[]"]
  obtain iv' where "inv_deSerialize stale ssz idef cur (?t, True) = Some (Inr (iv', [], True))"
    and "same_lists iv' iv" by (auto simp: has_rest_def same_lists_def)
  then show ?thesis
    using g4 by (auto simp: handle_DetachedInventory_def g1 g2 g3 Let_def simp flip: cur_def)
qed

section \<open>What is sent to whom\<close>

text \<open>Whether the loop over the table sends the inventory of a name.\<close>

definition selected :: "bytes \<Rightarrow> bool \<Rightarrow> ServerInventoryManager \<Rightarrow> bytes \<Rightarrow> bool" where
  "selected peer_name incremental mgr name \<longleftrightarrow>
     (case m_detached_inventories mgr name of
        None \<Rightarrow> False | Some dinv \<Rightarrow> \<not> passed_over peer_name incremental dinv)"

text \<open>Every inventory is there, and can be sent.\<close>

definition mgr_ok :: "IItemDefManager \<Rightarrow> (metadata \<Rightarrow> bytes list) \<Rightarrow> ServerInventoryManager \<Rightarrow> bool" where
  "mgr_ok idef ord mgr \<longleftrightarrow> (\<forall>name d. m_detached_inventories mgr name = Some d \<longrightarrow>
     (\<exists>iv. dinv_inventory d = Some iv \<and> sendable idef ord name iv))"

definition the_inv :: "ServerInventoryManager \<Rightarrow> bytes \<Rightarrow> Inventory" where
  "the_inv mgr name = (case getInventory mgr (DETACHED name) of None \<Rightarrow> new_Inventory | Some iv \<Rightarrow> iv)"

definition packet_of :: "(metadata \<Rightarrow> bytes list) \<Rightarrow> u16 \<Rightarrow> ServerInventoryManager \<Rightarrow> bytes \<Rightarrow> net_packet" where
  "packet_of ord peer mgr name =
     append_bytes (fields name (the_inv mgr name) ord @ inv_serialize ord False (the_inv mgr name))
       (newNetworkPacket TOCLIENT_DETACHED_INVENTORY peer)"

text \<open>The marks of change of an inventory are cleared once it has been sent.\<close>

definition marks_cleared :: "bytes set \<Rightarrow> ServerInventoryManager \<Rightarrow> ServerInventoryManager" where
  "marks_cleared S mgr = mgr\<lparr>m_detached_inventories := (\<lambda>name.
     if name \<in> S then map_option (\<lambda>d. d\<lparr>dinv_inventory := map_option (inv_setModified False) (dinv_inventory d)\<rparr>)
       (m_detached_inventories mgr name)
     else m_detached_inventories mgr name)\<rparr>"

lemma marks_cleared_empty [simp]: "marks_cleared {} mgr = mgr"
  by (simp add: marks_cleared_def)

lemma other_entry [simp]:
  "n \<noteq> name \<Longrightarrow> m_detached_inventories (put_detached name iv mgr) n = m_detached_inventories mgr n"
  by (simp add: put_detached_def)

lemma sends_loop:
  assumes "distinct names"
    and "\<forall>n\<in>set names. \<forall>d. m_detached_inventories mgr n = Some d \<longrightarrow>
      (\<exists>iv. dinv_inventory d = Some iv \<and> sendable idef ord n iv)"
  shows "sendDetachedInventories peer_name incremental (\<lambda>name inv. sendDetachedInventory ord inv name peer) names mgr =
    Inr (map (packet_of ord peer mgr) (filter (selected peer_name incremental mgr) names),
         marks_cleared {n \<in> set names. selected peer_name incremental mgr n} mgr)"
  using assms
proof (induction names arbitrary: mgr)
  case (Cons name names)
  let ?send = "sendDetachedInventories peer_name incremental (\<lambda>name inv. sendDetachedInventory ord inv name peer)"
  have d: "distinct names" "name \<notin> set names" using Cons.prems(1) by simp_all
  show ?case
  proof (cases "selected peer_name incremental mgr name")
    case False
    moreover from this have "?send (name # names) mgr = ?send names mgr"
      by (auto simp: selected_def split: option.splits)
    moreover have "{n. (n = name \<or> n \<in> set names) \<and> selected peer_name incremental mgr n} =
        {n \<in> set names. selected peer_name incremental mgr n}" using False by auto
    ultimately show ?thesis using Cons.IH [OF d(1)] Cons.prems(2) by simp
  next
    case True
    then obtain dinv where e: "m_detached_inventories mgr name = Some dinv" "\<not> passed_over peer_name incremental dinv"
      by (auto simp: selected_def split: option.splits)
    obtain iv where iv: "dinv_inventory dinv = Some iv" "sendable idef ord name iv" using Cons.prems(2) e(1) by auto
    have "the_inv mgr name = iv" using e(1) iv(1) by (simp add: the_inv_def getInventory_def)
    then have pk: "packet_of ord peer mgr name = append_bytes (fields name iv ord @ inv_serialize ord False iv)
        (newNetworkPacket TOCLIENT_DETACHED_INVENTORY peer)" by (simp add: packet_of_def)
    define mgr1 where "mgr1 = put_detached name (Some (inv_setModified False iv)) mgr"
    have same: "m_detached_inventories mgr1 n = m_detached_inventories mgr n" if "n \<in> set names" for n
      using that d(2) unfolding mgr1_def by (intro other_entry) auto
    have sel: "selected peer_name incremental mgr1 n = selected peer_name incremental mgr n"
      and pkt: "packet_of ord peer mgr1 n = packet_of ord peer mgr n" if "n \<in> set names" for n
      using same [OF that] by (simp_all add: selected_def packet_of_def the_inv_def getInventory_def)
    have "?send names mgr1 = Inr (map (packet_of ord peer mgr1) (filter (selected peer_name incremental mgr1) names),
         marks_cleared {n \<in> set names. selected peer_name incremental mgr1 n} mgr1)"
      using Cons.prems(2) same by (intro Cons.IH [OF d(1)]) simp
    moreover have "filter (selected peer_name incremental mgr1) names = filter (selected peer_name incremental mgr) names"
      using sel by (rule filter_cong [OF refl])
    moreover have "{n \<in> set names. selected peer_name incremental mgr1 n} = {n \<in> set names. selected peer_name incremental mgr n}"
      using sel by blast
    moreover have "marks_cleared {n \<in> set names. selected peer_name incremental mgr n} mgr1 =
        marks_cleared {n \<in> set (name # names). selected peer_name incremental mgr n} mgr"
      using True e(1) iv(1) d(2) by (auto simp: marks_cleared_def mgr1_def put_detached_def fun_eq_iff)
    moreover have "?send (name # names) mgr = bind_ok (?send names mgr1) (\<lambda>(ps, m). Inr (packet_of ord peer mgr name # ps, m))"
      using e iv pk by (simp add: sendDetachedInventory_packet mgr1_def)
    ultimately show ?thesis using True pkt by (simp cong: map_cong)
  qed
qed simp

lemma handle_all_packets:
  assumes "mgr_ok idef ord mgr" and "distinct names"
    and "\<forall>n\<in>set names. m_detached_inventories mgr n \<noteq> None"
    and "list_all2 (\<lambda>n q. carried (packet_of ord peer mgr n) = Some q) names qs"
    and "\<forall>n\<in>set names. \<forall>iv. m n = Some iv \<longrightarrow> unlocked iv \<and> list_all il_ok (m_lists iv)"
  shows "\<exists>m'. handle_all stale ssz idef qs m = (None, m') \<and>
    (\<forall>n. if n \<in> set names then \<exists>iv'. m' n = Some iv' \<and> same_lists iv' (the_inv mgr n) else m' n = m n)"
  using assms(2-5)
proof (induction names arbitrary: qs m)
  case (Cons name names)
  obtain q qs' where qs: "qs = q # qs'" "carried (packet_of ord peer mgr name) = Some q"
    and rest: "list_all2 (\<lambda>n q. carried (packet_of ord peer mgr n) = Some q) names qs'"
    using Cons.prems(3) by (auto simp: list_all2_Cons1)
  obtain d iv where d: "m_detached_inventories mgr name = Some d" "dinv_inventory d = Some iv" "sendable idef ord name iv"
    using Cons.prems(2) assms(1) unfolding mgr_ok_def by fastforce
  have the: "the_inv mgr name = iv" using d by (simp add: the_inv_def getInventory_def)
  have "\<forall>iv. m name = Some iv \<longrightarrow> unlocked iv \<and> list_all il_ok (m_lists iv)" using Cons.prems(4) by simp
  from handle_packet [where m = m, OF d(3) this qs(2) [unfolded packet_of_def the]]
  obtain iv' where h: "handle_DetachedInventory stale ssz idef q m = (None, m(name \<mapsto> iv'))" and eq: "same_lists iv' iv"
    by blast
  have "\<forall>n\<in>set names. \<forall>iv. (m(name \<mapsto> iv')) n = Some iv \<longrightarrow> unlocked iv \<and> list_all il_ok (m_lists iv)"
    using Cons.prems(1,4) by auto
  moreover have "distinct names" "\<forall>n\<in>set names. m_detached_inventories mgr n \<noteq> None"
    using Cons.prems(1,2) by simp_all
  ultimately obtain m' where m': "handle_all stale ssz idef qs' (m(name \<mapsto> iv')) = (None, m')"
    "\<forall>n. if n \<in> set names then \<exists>iv'. m' n = Some iv' \<and> same_lists iv' (the_inv mgr n) else m' n = (m(name \<mapsto> iv')) n"
    using Cons.IH [OF _ _ rest, of "m(name \<mapsto> iv')"] by blast
  have "if n \<in> set (name # names) then \<exists>iv'. m' n = Some iv' \<and> same_lists iv' (the_inv mgr n) else m' n = m n" for n
    using m'(2) [rule_format, of n] Cons.prems(1) eq the by auto
  with m'(1) h qs(1) show ?case by auto
qed simp

lemma packets_carried:
  assumes "mgr_ok idef ord mgr" and "\<forall>n\<in>set names. m_detached_inventories mgr n \<noteq> None"
  shows "\<exists>qs. list_all2 (\<lambda>n q. carried (packet_of ord peer mgr n) = Some q) names qs"
  using assms(2)
proof (induction names)
  case (Cons name names)
  obtain d iv where d: "m_detached_inventories mgr name = Some d" "dinv_inventory d = Some iv" "sendable idef ord name iv"
    using Cons.prems assms(1) unfolding mgr_ok_def by fastforce
  have "length (fields name iv ord) = length name + 5"
    by (simp add: fields_def writeU16_def writeU8_def)
  then have len: "length (fields name iv ord @ inv_serialize ord False iv) + 2 < 4294967296"
    using d(3) by (simp add: sendable_def)
  have "the_inv mgr name = iv" using d by (simp add: the_inv_def getInventory_def)
  then obtain q where "carried (packet_of ord peer mgr name) = Some q"
    using carried_packet [OF len, of TOCLIENT_DETACHED_INVENTORY peer]
    by (auto simp: packet_of_def TOCLIENT_DETACHED_INVENTORY_def)
  with Cons show ?case by (auto simp: list_all2_Cons1)
qed (auto intro: exI [of _ "[]"])

lemma append_bytes_peer [simp]: "m_peer_id (append_bytes b p) = m_peer_id p"
  by (simp add: append_bytes_def)

lemma selected_full:
  assumes "mgr_ok idef ord mgr" and "me \<noteq> []"
  shows "selected me False mgr n \<longleftrightarrow> checkDetachedInventoryAccess mgr (DETACHED n) me = Some True"
  using assms by (auto simp: selected_def passed_over_def checkDetachedInventoryAccess_def split: option.splits)

lemma detached_arrive:
  assumes ok: "mgr_ok idef ord mgr" and peer: "peer_id \<noteq> PEER_INEXISTENT" "client_name peer_id = me" "me \<noteq> []"
    and names: "distinct names" "\<And>n. m_detached_inventories mgr n \<noteq> None \<Longrightarrow> n \<in> set names" and m: "client_ok m"
  shows "\<exists>pkts mgr' qs m'.
    server_sendDetachedInventories ord client_name peer_id False names mgr = Inr (pkts, mgr') \<and>
    (\<forall>p\<in>set pkts. m_peer_id p = peer_id) \<and> list_all2 (\<lambda>p q. carried p = Some q) pkts qs \<and>
    handle_all stale ssz idef qs m = (None, m') \<and>
    (\<forall>n. if checkDetachedInventoryAccess mgr (DETACHED n) me = Some True
         then \<exists>iv iv'. getInventory mgr (DETACHED n) = Some iv \<and> m' n = Some iv' \<and> same_lists iv' iv
         else m' n = m n)"
proof -
  define sel where "sel = filter (selected me False mgr) names"
  have all: "\<forall>n\<in>set names. \<forall>d. m_detached_inventories mgr n = Some d \<longrightarrow>
      (\<exists>iv. dinv_inventory d = Some iv \<and> sendable idef ord n iv)" using ok by (simp add: mgr_ok_def)
  have sent: "server_sendDetachedInventories ord client_name peer_id False names mgr =
      Inr (map (packet_of ord peer_id mgr) sel, marks_cleared {n \<in> set names. selected me False mgr n} mgr)"
    using sends_loop [OF names(1) all] peer by (simp add: server_sendDetachedInventories_def sel_def)
  have there: "\<forall>n\<in>set sel. m_detached_inventories mgr n \<noteq> None"
    by (auto simp: sel_def selected_def split: option.splits)
  have mem: "n \<in> set sel \<longleftrightarrow> checkDetachedInventoryAccess mgr (DETACHED n) me = Some True" for n
    using names(2) [of n] selected_full [OF ok peer(3), of n]
    by (auto simp: sel_def checkDetachedInventoryAccess_def split: option.splits)
  obtain qs where qs: "list_all2 (\<lambda>n q. carried (packet_of ord peer_id mgr n) = Some q) sel qs"
    using packets_carried [OF ok there] by blast
  have d: "distinct sel" using names(1) by (simp add: sel_def)
  have "\<forall>n\<in>set sel. \<forall>iv. m n = Some iv \<longrightarrow> unlocked iv \<and> list_all il_ok (m_lists iv)"
    using m by (simp add: client_ok_def)
  from handle_all_packets [OF ok d there qs this]
  obtain m' where m': "handle_all stale ssz idef qs m = (None, m')"
    and r: "\<And>n. if n \<in> set sel then \<exists>iv'. m' n = Some iv' \<and> same_lists iv' (the_inv mgr n) else m' n = m n"
    by blast
  have inv: "getInventory mgr (DETACHED n) = Some (the_inv mgr n)" if "n \<in> set sel" for n
    using there that ok by (fastforce simp: the_inv_def getInventory_def mgr_ok_def split: option.splits)
  have "if checkDetachedInventoryAccess mgr (DETACHED n) me = Some True
       then \<exists>iv iv'. getInventory mgr (DETACHED n) = Some iv \<and> m' n = Some iv' \<and> same_lists iv' iv
       else m' n = m n" for n
    using r [of n] inv [of n] mem [of n] by auto
  moreover have "list_all2 (\<lambda>p q. carried p = Some q) (map (packet_of ord peer_id mgr) sel) qs"
    using qs by (simp add: list.rel_map)
  moreover have "\<forall>p\<in>set (map (packet_of ord peer_id mgr) sel). m_peer_id p = peer_id"
    by (auto simp: packet_of_def newNetworkPacket_def)
  ultimately show ?thesis using sent m' by blast
qed

text \<open>
  C31.  When a client joins, it is sent the detached inventories that it may use, and no others:
  the packets are addressed to it alone, they arrive as they were sent, and after it has handled
  them its table holds, for each of these names, an inventory with the same lists slot by slot,
  whatever it held before; all other entries of its table are as they were.
\<close>

theorem detached_inventories_arrive:
  assumes "mgr_ok idef ord mgr" and "peer_id \<noteq> PEER_INEXISTENT" and "client_name peer_id = me" and "me \<noteq> []"
    and "distinct names" and "\<And>n. m_detached_inventories mgr n \<noteq> None \<Longrightarrow> n \<in> set names" and "client_ok m"
  shows "\<exists>pkts mgr' qs m'.
    server_sendDetachedInventories ord client_name peer_id False names mgr = Inr (pkts, mgr') \<and>
    (\<forall>p\<in>set pkts. m_peer_id p = peer_id) \<and> list_all2 (\<lambda>p q. carried p = Some q) pkts qs \<and>
    handle_all stale ssz idef qs m = (None, m') \<and>
    (\<forall>n. if checkDetachedInventoryAccess mgr (DETACHED n) me = Some True
         then \<exists>iv iv'. getInventory mgr (DETACHED n) = Some iv \<and> m' n = Some iv' \<and> same_lists iv' iv
         else m' n = m n)"
  using assms by (rule detached_arrive)

definition sample_mgr :: ServerInventoryManager where
  "sample_mgr = \<lparr>sim_env = None, m_detached_inventories =
     [[115] \<mapsto> \<lparr>dinv_inventory = Some sample_inventory, dinv_owner = []\<rparr>,
      [116] \<mapsto> \<lparr>dinv_inventory = Some sample_inventory, dinv_owner = [98]\<rparr>]\<rparr>"

lemma sample_mgr_ok: "mgr_ok sample_idef (\<lambda>_. []) sample_mgr"
proof -
  have "length (inv_serialize (\<lambda>_. []) False sample_inventory) < 1000" by code_simp
  then show ?thesis
    using sample_inv_ok by (auto simp: mgr_ok_def sample_mgr_def sendable_def STRING_MAX_LEN_def split: if_splits)
qed

theorem detached_inventories_arrive_witness:
  "\<exists>pkts mgr' qs m'.
    server_sendDetachedInventories (\<lambda>_. []) (\<lambda>_. [97]) 2 False [[116], [115]] sample_mgr = Inr (pkts, mgr') \<and>
    list_all2 (\<lambda>p q. carried p = Some q) pkts qs \<and>
    handle_all 0 0 sample_idef qs Map.empty = (None, m') \<and> m' [115] \<noteq> None \<and> m' [116] = None"
proof -
  have sees: "checkDetachedInventoryAccess sample_mgr (DETACHED [115]) [97] = Some True"
    "checkDetachedInventoryAccess sample_mgr (DETACHED [116]) [97] \<noteq> Some True"
    by (simp_all add: checkDetachedInventoryAccess_def sample_mgr_def)
  have known: "\<And>n. m_detached_inventories sample_mgr n \<noteq> None \<Longrightarrow> n \<in> set [[116], [115]]"
    by (simp add: sample_mgr_def split: if_splits)
  have "client_ok Map.empty" "(2 :: u16) \<noteq> PEER_INEXISTENT" by (simp_all add: client_ok_def PEER_INEXISTENT_def)
  with known detached_inventories_arrive [where peer_id = 2 and client_name = "\<lambda>_. [97]" and me = "[97]"
      and names = "[[116], [115]]" and m = Map.empty and stale = 0 and ssz = 0, OF sample_mgr_ok]
  have "\<exists>pkts mgr' qs m'.
    server_sendDetachedInventories (\<lambda>_. []) (\<lambda>_. [97]) 2 False [[116], [115]] sample_mgr = Inr (pkts, mgr') \<and>
    (\<forall>p\<in>set pkts. m_peer_id p = 2) \<and> list_all2 (\<lambda>p q. carried p = Some q) pkts qs \<and>
    handle_all 0 0 sample_idef qs Map.empty = (None, m') \<and>
    (\<forall>n. if checkDetachedInventoryAccess sample_mgr (DETACHED n) [97] = Some True
         then \<exists>iv iv'. getInventory sample_mgr (DETACHED n) = Some iv \<and> m' n = Some iv' \<and> same_lists iv' iv
         else m' n = None)"
    by simp
  then obtain pkts mgr' qs m' where run: "server_sendDetachedInventories (\<lambda>_. []) (\<lambda>_. [97]) 2 False [[116], [115]] sample_mgr =
      Inr (pkts, mgr')" "list_all2 (\<lambda>p q. carried p = Some q) pkts qs"
      "handle_all 0 0 sample_idef qs Map.empty = (None, m')"
    and r: "\<And>n. if checkDetachedInventoryAccess sample_mgr (DETACHED n) [97] = Some True
         then \<exists>iv iv'. getInventory sample_mgr (DETACHED n) = Some iv \<and> m' n = Some iv' \<and> same_lists iv' iv
         else m' n = None" by blast
  from r [of "[115]"] r [of "[116]"] have "m' [115] \<noteq> None" "m' [116] = None" by (auto simp: sees)
  with run show ?thesis by blast
qed

text \<open>
  The rounds that send to everybody what has changed do not look at the owner.  And sending an
  inventory to the client that joins clears its marks of change, so that the next such round does
  not send it: a change that the other clients have not been sent yet does not reach them.
\<close>

lemma broadcast_ignores_owner:
  assumes "m_detached_inventories mgr n = Some d" and "dinv_inventory d = Some iv" and "inv_checkModified iv"
  shows "selected [] True mgr n"
  using assms by (simp add: selected_def passed_over_def)

lemma joining_hides_changes:
  assumes "mgr_ok idef ord mgr" and "n \<in> set names" and "selected me False mgr n"
  shows "\<not> selected [] True (marks_cleared {n \<in> set names. selected me False mgr n} mgr) n"
proof -
  obtain d iv where d: "m_detached_inventories mgr n = Some d" "dinv_inventory d = Some iv"
    using assms(1,3) unfolding mgr_ok_def selected_def by (fastforce split: option.splits)
  have "\<not> inv_checkModified (inv_setModified False iv)"
    by (auto simp: inv_checkModified_def inv_setModified_def il_setModified_def list_ex_iff)
  with assms(2,3) d show ?thesis by (simp add: selected_def passed_over_def marks_cleared_def)
qed

end
