(* ===== verification/InventoryAccess.thy ===== *)
theory InventoryAccess
  imports ServerInventory
begin

text \<open>
  What a client may do to inventories: \<open>Server::handleCommand_InventoryAction\<close> of
  \<open>src/network/serverpackethandler.cpp\<close>, from the bytes of the packet to the inventories of the
  server manager.
\<close>

section \<open>State and parameters\<close>

record 'w server =
  sv_mgr :: ServerInventoryManager
  sv_rollback :: "rollback_record list"
  sv_script :: 'w

text \<open>
  What the handler uses of the rest of the server: the scripts, the item definitions and recipes,
  whether there is a rollback manager, the privileges, whether a node is in the reach of a player
  (\<open>checkInteractDistance\<close> computes with floats), the script callback if it is not, and whether
  the player is dead.
\<close>

record 'w handler_env =
  he_scripts :: "'w scripts"
  he_craft :: craft_env
  he_rollback :: bool
  he_checkPriv :: "bytes \<Rightarrow> bytes \<Rightarrow> bool"
  he_in_reach :: "RemotePlayer \<Rightarrow> s16 v3d \<Rightarrow> bool"
  he_on_cheat :: "bytes \<Rightarrow> 'w \<Rightarrow> 'w"
  he_isDead :: "bytes \<Rightarrow> bool"

text \<open>
  How the handler can end early: an exception of a reader, a null pointer, a failed check or
  assertion, out of fuel.
\<close>

datatype handler_error = HandlerThrow ser_error | HandlerNull | HandlerAbort | HandlerLoop | HandlerFuel

definition craft_handler :: "craft_error + 'a \<Rightarrow> handler_error + 'a" where
  "craft_handler r =
     (case r of
        Inl (CraftThrow e) \<Rightarrow> Inl (HandlerThrow e)
      | Inl CraftNullList \<Rightarrow> Inl HandlerNull
      | Inl CraftLoop \<Rightarrow> Inl HandlerLoop
      | Inl CraftFuel \<Rightarrow> Inl HandlerFuel
      | Inr a \<Rightarrow> Inr a)"

definition or_abort :: "'a option \<Rightarrow> handler_error + 'a" where
  "or_abort x = (case x of None \<Rightarrow> Inl HandlerAbort | Some a \<Rightarrow> Inr a)"

section \<open>The game behind the manager\<close>

text \<open>
  The actions see the inventories through \<open>getInventory\<close>; what they change goes back to the place
  that it was found at.
\<close>

definition load_game :: "'w server \<Rightarrow> 'w game" where
  "load_game s =
     \<lparr>g_inv = getInventory (sv_mgr s), g_modified = [], g_rollback = sv_rollback s, g_script = sv_script s\<rparr>"

definition put_inventories ::
  "(InventoryLocation \<Rightarrow> Inventory option) \<Rightarrow> ServerInventoryManager \<Rightarrow> ServerInventoryManager" where
  "put_inventories g mgr = mgr\<lparr>
     sim_env := map_option (\<lambda>env. env\<lparr>
       m_players := map (\<lambda>p. case g (PLAYER (rp_name p)) of
           None \<Rightarrow> p
         | Some iv \<Rightarrow> if getPlayer (rp_name p) env = Some p then p\<lparr>rp_inventory := iv\<rparr> else p) (m_players env),
       node_meta := (\<lambda>p. g (NODEMETA p))\<rparr>) (sim_env mgr),
     m_detached_inventories := (\<lambda>n.
       map_option (\<lambda>d. d\<lparr>dinv_inventory := g (DETACHED n)\<rparr>) (m_detached_inventories mgr n))\<rparr>"

definition report_modified :: "InventoryLocation list \<Rightarrow> ServerInventoryManager \<Rightarrow> ServerInventoryManager option" where
  "report_modified locs mgr = fold (\<lambda>loc m. Option.bind m (mgr_setInventoryModified loc)) locs (Some mgr)"

definition store_game :: "'w game \<Rightarrow> 'w server \<Rightarrow> handler_error + 'w server" where
  "store_game w s =
     map_sum id (\<lambda>mgr. \<lparr>sv_mgr = mgr, sv_rollback = g_rollback w, sv_script = g_script w\<rparr>)
       (or_abort (report_modified (g_modified w) (put_inventories (g_inv w) (sv_mgr s))))"

section \<open>The handler\<close>

text \<open>A change through the pointer to a player's inventory.\<close>

definition change_inventory :: "bytes \<Rightarrow> (Inventory \<Rightarrow> Inventory) \<Rightarrow> ServerInventoryManager \<Rightarrow> ServerInventoryManager" where
  "change_inventory name f mgr =
     mgr\<lparr>sim_env := map_option (\<lambda>env. env\<lparr>m_players :=
       change_player (c_str name) (\<lambda>p. p\<lparr>rp_inventory := f (rp_inventory p)\<rparr>) (m_players env)\<rparr>) (sim_env mgr)\<rparr>"

definition mark_player_inv_list_dirty :: "InventoryLocation \<Rightarrow> bytes \<Rightarrow> ServerInventoryManager \<Rightarrow> ServerInventoryManager" where
  "mark_player_inv_list_dirty loc list_name mgr =
     (case loc of
        PLAYER name \<Rightarrow>
          (case getInventory mgr loc of
             None \<Rightarrow> mgr
           | Some iv \<Rightarrow>
               (case getList list_name iv of
                  None \<Rightarrow> mgr
                | Some l \<Rightarrow> change_inventory name (putList list_name (il_setModified True l)) mgr))
      | _ \<Rightarrow> mgr)"

definition check_inv_access ::
  "'w handler_env \<Rightarrow> RemotePlayer \<Rightarrow> bool \<Rightarrow> InventoryLocation \<Rightarrow> 'w server \<Rightarrow> bool \<times> 'w server" where
  "check_inv_access he player has_interact loc s =
     (if \<not> has_interact \<and> \<not> is_player loc then (False, s)
      else
        case loc of
          CURRENT_PLAYER \<Rightarrow> (False, s)
        | PLAYER name \<Rightarrow> (name = rp_name player, s)
        | NODEMETA p \<Rightarrow>
            if he_in_reach he player p then (True, s)
            else (False, s\<lparr>sv_script := he_on_cheat he (rp_name player) (sv_script s)\<rparr>)
        | DETACHED name \<Rightarrow> (checkDetachedInventoryAccess (sv_mgr s) loc (rp_name player) = Some True, s)
        | UNDEFINED \<Rightarrow> (False, s))"

text \<open>The marks that undo the client's prediction; they come before the access checks.\<close>

definition mark_action :: "InventoryAction \<Rightarrow> ServerInventoryManager \<Rightarrow> ServerInventoryManager option" where
  "mark_action a mgr =
     (case a of
        Move m \<Rightarrow>
          let different = \<not> loc_eq (from_inv m) (to_inv m) in
          Option.bind (mgr_setInventoryModified (from_inv m) mgr) (\<lambda>mgr.
          let mgr = mark_player_inv_list_dirty (from_inv m) (from_list m) mgr in
          Option.bind (if different then mgr_setInventoryModified (to_inv m) mgr else Some mgr) (\<lambda>mgr.
          Some (if different \<or> from_list m \<noteq> to_list m
            then mark_player_inv_list_dirty (to_inv m) (to_list m) mgr else mgr)))
      | Drop d \<Rightarrow>
          map_option (mark_player_inv_list_dirty (from_inv d) (from_list d))
            (mgr_setInventoryModified (from_inv d) mgr)
      | Craft c \<Rightarrow> mgr_setInventoryModified (craft_inv c) mgr)"

definition action_apply_player :: "bytes \<Rightarrow> InventoryAction \<Rightarrow> InventoryAction" where
  "action_apply_player name a =
     (case a of
        Move m \<Rightarrow> Move (m\<lparr>from_inv := applyCurrentPlayer name (from_inv m), to_inv := applyCurrentPlayer name (to_inv m)\<rparr>)
      | Drop d \<Rightarrow> Drop (d\<lparr>from_inv := applyCurrentPlayer name (from_inv d)\<rparr>)
      | Craft c \<Rightarrow> Craft (c\<lparr>craft_inv := applyCurrentPlayer name (craft_inv c)\<rparr>))"

text \<open>The conditions under which the action is carried out.\<close>

definition action_allowed ::
  "'w handler_env \<Rightarrow> RemotePlayer \<Rightarrow> InventoryAction \<Rightarrow> 'w server \<Rightarrow> bool \<times> 'w server" where
  "action_allowed he player a s =
     (let has_interact = he_checkPriv he (rp_name player) (lit ''interact'');
          check = check_inv_access he player has_interact in
      case a of
        Move m \<Rightarrow>
          let (ok, s) = check (from_inv m) s in
          if \<not> ok then (False, s)
          else
            let (ok, s) = check (to_inv m) s in
            if \<not> ok then (False, s)
            else if from_list m = lit ''craftpreview'' then (False, s)
            else if to_list m = lit ''craftpreview'' \<or> to_list m = lit ''craftresult'' then (False, s)
            else (True, s)
      | Drop d \<Rightarrow>
          if from_list d = lit ''craftpreview'' then (False, s)
          else if \<not> has_interact then (False, s)
          else
            let (ok, s) = check (from_inv d) s in
            if \<not> ok then (False, s) else (\<not> he_isDead he (rp_name player), s)
      | Craft c \<Rightarrow> if \<not> has_interact then (False, s) else check (craft_inv c) s)"

definition action_apply ::
  "nat \<Rightarrow> 'w handler_env \<Rightarrow> InventoryAction \<Rightarrow> 'w game \<Rightarrow> handler_error + 'w game" where
  "action_apply fuel he a w =
     (case a of
        Move m \<Rightarrow> map_sum id snd (or_abort (apply_move (he_scripts he) (ce_idef (he_craft he)) (he_rollback he) m w))
      | Drop d \<Rightarrow> Inr (apply_drop (he_scripts he) (he_rollback he) d w)
      | Craft c \<Rightarrow> craft_handler (apply_craft fuel (he_scripts he) (he_craft he) c w))"

definition do_action ::
  "nat \<Rightarrow> 'w handler_env \<Rightarrow> RemotePlayer \<Rightarrow> InventoryAction \<Rightarrow> 'w server \<Rightarrow> handler_error + 'w server" where
  "do_action fuel he player a s =
     (let a = action_apply_player (rp_name player) a in
      bind_ok (or_abort (mark_action a (sv_mgr s))) (\<lambda>mgr.
        let (ok, s) = action_allowed he player a (s\<lparr>sv_mgr := mgr\<rparr>) in
        if ok then bind_ok (action_apply fuel he a (load_game s)) (\<lambda>w. store_game w s) else Inr s))"

definition handle_InventoryAction ::
  "nat \<Rightarrow> 'w handler_env \<Rightarrow> net_packet \<Rightarrow> 'w server \<Rightarrow> handler_error + 'w server" where
  "handle_InventoryAction fuel he pkt s =
     (case Option.bind (sim_env (sv_mgr s)) (getPlayer_id (m_peer_id pkt)) of
        None \<Rightarrow> Inr s
      | Some player \<Rightarrow>
          if \<not> rp_sao player then Inr s
          else
            (case action_deSerialize (getRemainingNoCopy pkt, True) of
               Inl e \<Rightarrow> Inl (HandlerThrow e)
             | Inr None \<Rightarrow> Inr s
             | Inr (Some a) \<Rightarrow> do_action fuel he player a s))"

section \<open>Marks change nothing but marks\<close>

text \<open>The same lists with the same slots, up to the marks of change.\<close>

definition inv_same :: "Inventory option \<Rightarrow> Inventory option \<Rightarrow> bool" where
  "inv_same a b \<longleftrightarrow>
     map_option (\<lambda>iv. map (il_setModified False) (m_lists iv)) a = map_option (\<lambda>iv. map (il_setModified False) (m_lists iv)) b"

lemma inv_same_refl [simp]: "inv_same a a"
  by (simp add: inv_same_def)

lemma inv_same_trans: "inv_same a b \<Longrightarrow> inv_same b c \<Longrightarrow> inv_same a c"
  by (simp add: inv_same_def)

text \<open>The players without what marks change; two managers that differ in marks only.\<close>

definition unmarked :: "RemotePlayer \<Rightarrow> RemotePlayer" where
  "unmarked p = p\<lparr>rp_modified := False, rp_inventory :=
     \<lparr>m_lists = map (il_setModified False) (m_lists (rp_inventory p)), inv_dirty = False\<rparr>\<rparr>"

lemma unmarked_same:
  assumes "unmarked p = unmarked q"
  shows "rp_name p = rp_name q" and "rp_peer_id p = rp_peer_id q" and "rp_sao p = rp_sao q"
    and "map (il_setModified False) (m_lists (rp_inventory p)) = map (il_setModified False) (m_lists (rp_inventory q))"
  using assms by (simp_all add: unmarked_def) (cases p, cases q, simp)+

definition env_same :: "ServerEnvironment \<Rightarrow> ServerEnvironment \<Rightarrow> bool" where
  "env_same e f \<longleftrightarrow> map unmarked (m_players e) = map unmarked (m_players f) \<and> node_meta e = node_meta f"

definition marks_only :: "ServerInventoryManager \<Rightarrow> ServerInventoryManager \<Rightarrow> bool" where
  "marks_only a b \<longleftrightarrow> m_detached_inventories a = m_detached_inventories b \<and> rel_option env_same (sim_env a) (sim_env b)"

lemma marks_only_refl [simp]: "marks_only a a"
  by (simp add: marks_only_def env_same_def option.rel_refl)

lemma marks_only_trans: "marks_only a b \<Longrightarrow> marks_only b c \<Longrightarrow> marks_only a c"
  by (cases "sim_env a"; cases "sim_env b"; cases "sim_env c") (auto simp: marks_only_def env_same_def)

lemma find_unmarked:
  "map unmarked ps = map unmarked qs \<Longrightarrow>
   rel_option (\<lambda>p q. unmarked p = unmarked q) (find (\<lambda>p. rp_name p = n) ps) (find (\<lambda>p. rp_name p = n) qs)"
proof (induction ps arbitrary: qs)
  case (Cons p ps)
  then obtain q qs' where qs: "qs = q # qs'" "unmarked p = unmarked q" "map unmarked ps = map unmarked qs'"
    by (cases qs) auto
  with Cons.IH [OF qs(3)] unmarked_same(1) [OF qs(2)] show ?case by simp
qed simp

lemma marks_only_getPlayer:
  assumes "env_same e f"
  shows "rel_option (\<lambda>p q. unmarked p = unmarked q) (getPlayer n e) (getPlayer n f)"
proof -
  have "rel_option (\<lambda>p q. unmarked p = unmarked q) (find (\<lambda>p. rp_name p = n) (m_players e)) (find (\<lambda>p. rp_name p = n) (m_players f))"
    using assms by (intro find_unmarked) (simp add: env_same_def)
  then show ?thesis
    by (cases "find (\<lambda>p. rp_name p = n) (m_players e)"; cases "find (\<lambda>p. rp_name p = n) (m_players f)")
      (auto simp: getPlayer_def dest: unmarked_same(2))
qed

lemma marks_only_inventory:
  assumes "marks_only a b"
  shows "inv_same (getInventory a loc) (getInventory b loc)"
proof (cases "sim_env a")
  case None
  with assms show ?thesis by (auto simp: marks_only_def getInventory_def split: InventoryLocation.splits)
next
  case (Some e)
  then obtain f where f: "sim_env b = Some f" "env_same e f" using assms by (auto simp: marks_only_def option_rel_Some1)
  show ?thesis
  proof (cases loc)
    case (PLAYER n)
    note r = marks_only_getPlayer [OF f(2), of "c_str n"]
    show ?thesis
    proof (cases "getPlayer (c_str n) e")
      case None
      with r f Some PLAYER show ?thesis by (simp add: getInventory_def)
    next
      case p: (Some p)
      with r obtain q where q: "getPlayer (c_str n) f = Some q" "unmarked p = unmarked q" by (auto simp: option_rel_Some1)
      note u = unmarked_same [OF q(2)]
      from p q(1) f(1) Some PLAYER u(3,4) show ?thesis by (simp add: getInventory_def inv_same_def)
    qed
  qed (use assms f Some in \<open>simp_all add: getInventory_def marks_only_def env_same_def\<close>)
qed

lemma change_player_unmarked:
  assumes "\<And>p. p \<in> set ps \<Longrightarrow> find (\<lambda>q. rp_name q = n) ps = Some p \<Longrightarrow> rp_peer_id p \<noteq> PEER_INEXISTENT \<Longrightarrow> unmarked (f p) = unmarked p"
  shows "map unmarked (change_player n f ps) = map unmarked ps"
  using assms by (induction n f ps rule: change_player.induct) auto

lemma mgr_setInventoryModified_marks:
  assumes "mgr_setInventoryModified loc mgr = Some mgr'"
  shows "marks_only mgr' mgr"
proof -
  have "map unmarked (change_player n (\<lambda>p. p\<lparr>rp_modified := True, rp_inventory := inv_setModified True (rp_inventory p)\<rparr>) ps) =
      map unmarked ps" for n ps
    by (rule change_player_unmarked) (simp add: unmarked_def inv_setModified_def)
  with assms show ?thesis
    by (auto simp: mgr_setInventoryModified_def marks_only_def env_same_def option.rel_refl
        split: InventoryLocation.splits)
qed

lemma putList_marks:
  assumes "getList n iv = Some l"
  shows "map (il_setModified False) (m_lists (putList n (il_setModified True l) iv)) = map (il_setModified False) (m_lists iv)"
proof -
  obtain i where i: "getListIndex n iv = Some i" and l: "l = m_lists iv ! i" using assms by (auto simp: getList_def)
  note b = getListIndex_Some [OF i]
  have "il_setModified False (il_setModified True l) = il_setModified False (m_lists iv ! i)"
    by (simp add: il_setModified_def l)
  with i b show ?thesis by (simp add: putList_def map_update list_update_same_conv)
qed

lemma mark_dirty_marks: "marks_only (mark_player_inv_list_dirty loc n mgr) mgr"
proof (cases "\<exists>name iv l. loc = PLAYER name \<and> getInventory mgr loc = Some iv \<and> getList n iv = Some l")
  case False
  then show ?thesis by (auto simp: mark_player_inv_list_dirty_def split: InventoryLocation.splits option.splits)
next
  case True
  then obtain name iv l where loc: "loc = PLAYER name" and g: "getInventory mgr loc = Some iv" and l: "getList n iv = Some l" by blast
  obtain e p where e: "sim_env mgr = Some e" and p: "getPlayer (c_str name) e = Some p" and iv: "rp_inventory p = iv"
    using g loc by (auto simp: getInventory_def split: option.splits if_splits)
  have "map unmarked (change_player (c_str name) (\<lambda>p. p\<lparr>rp_inventory := putList n (il_setModified True l) (rp_inventory p)\<rparr>) (m_players e)) =
      map unmarked (m_players e)"
  proof (rule change_player_unmarked)
    fix q assume "find (\<lambda>q. rp_name q = c_str name) (m_players e) = Some q" "rp_peer_id q \<noteq> PEER_INEXISTENT"
    with p have "q = p" by (simp add: getPlayer_def split: if_splits)
    with iv putList_marks [OF l] show "unmarked (q\<lparr>rp_inventory := putList n (il_setModified True l) (rp_inventory q)\<rparr>) = unmarked q"
      by (simp add: unmarked_def)
  qed
  with e g l loc show ?thesis
    by (simp add: mark_player_inv_list_dirty_def change_inventory_def marks_only_def env_same_def)
qed

lemma mark_action_marks:
  assumes "mark_action a mgr = Some mgr'"
  shows "marks_only mgr' mgr"
proof (cases a)
  case (Move m)
  obtain m1 where 1: "mgr_setInventoryModified (from_inv m) mgr = Some m1"
    using assms Move by (cases "mgr_setInventoryModified (from_inv m) mgr") (simp_all add: mark_action_def Let_def)
  define m0 where "m0 = mark_player_inv_list_dirty (from_inv m) (from_list m) m1"
  define x where "x = (if \<not> loc_eq (from_inv m) (to_inv m) then mgr_setInventoryModified (to_inv m) m0 else Some m0)"
  have run: "mark_action a mgr = Option.bind x (\<lambda>mgr. Some (if \<not> loc_eq (from_inv m) (to_inv m) \<or> from_list m \<noteq> to_list m
      then mark_player_inv_list_dirty (to_inv m) (to_list m) mgr else mgr))"
    by (simp add: mark_action_def Move 1 m0_def x_def Let_def)
  then obtain m2 where 2: "x = Some m2" using assms by (cases x) simp_all
  with run assms have 3: "mgr' = m2 \<or> mgr' = mark_player_inv_list_dirty (to_inv m) (to_list m) m2" by (simp split: if_splits)
  have "marks_only m2 m0"
    using 2 mgr_setInventoryModified_marks unfolding x_def by (cases "loc_eq (from_inv m) (to_inv m)") simp_all
  moreover have "marks_only mgr' m2" using 3 mark_dirty_marks by auto
  moreover have "marks_only m0 m1" unfolding m0_def by (rule mark_dirty_marks)
  ultimately have "marks_only mgr' m1" by (metis marks_only_trans)
  from marks_only_trans [OF this mgr_setInventoryModified_marks [OF 1]] show ?thesis .
next
  case (Drop d)
  with assms obtain m1 where "mgr_setInventoryModified (from_inv d) mgr = Some m1"
    and "mgr' = mark_player_inv_list_dirty (from_inv d) (from_list d) m1" by (auto simp: mark_action_def)
  then show ?thesis using marks_only_trans [OF mark_dirty_marks mgr_setInventoryModified_marks] by simp
next
  case (Craft c)
  with assms show ?thesis using mgr_setInventoryModified_marks by (simp add: mark_action_def)
qed

lemma report_modified_marks:
  "report_modified locs mgr = Some mgr' \<Longrightarrow> marks_only mgr' mgr"
proof (induction locs arbitrary: mgr)
  case (Cons loc locs)
  have none: "fold (\<lambda>loc m. Option.bind m (mgr_setInventoryModified loc)) ls None = None" for ls
    by (induction ls) simp_all
  obtain m1 where m1: "mgr_setInventoryModified loc mgr = Some m1"
    using Cons.prems none by (cases "mgr_setInventoryModified loc mgr") (simp_all add: report_modified_def)
  with Cons have "marks_only mgr' m1" by (simp add: report_modified_def)
  with mgr_setInventoryModified_marks [OF m1] show ?case using marks_only_trans by blast
qed (simp add: report_modified_def)

section \<open>Nothing else changes\<close>

text \<open>Dropping touches no other inventory.\<close>

lemma g_inv_put_list [simp]: "l \<noteq> fst r \<Longrightarrow> g_inv (put_list r x w) l = g_inv w l"
  by (simp add: put_list_def)

lemma g_inv_change_ref [simp]: "l \<noteq> fst r \<Longrightarrow> g_inv (change_ref r f w) l = g_inv w l"
  by (simp add: change_ref_def)

lemma g_inv_release [simp]: "l \<noteq> fst r \<Longrightarrow> g_inv (release r w) l = g_inv w l"
  by (simp add: release_def)

lemma g_inv_on_ref [simp]: "l \<noteq> fst r \<Longrightarrow> g_inv (fst (on_ref r f w)) l = g_inv w l"
  by (simp add: on_ref_change)

lemma g_inv_reports [simp]:
  "g_inv (setInventoryModified loc w) = g_inv w" "g_inv (reportAction rb w) = g_inv w"
  by (simp_all add: setInventoryModified_def reportAction_def)

lemma drop_refused_elsewhere: "l \<noteq> from_inv d \<Longrightarrow> g_inv (drop_refused d w) l = g_inv w l"
  by (simp add: drop_refused_def Let_def)

lemma drop_allowed_elsewhere:
  assumes ob: "obliging P sc" and l: "l \<noteq> from_inv d"
  shows "g_inv (drop_allowed sc rb d n can w) l = g_inv w l"
proof -
  have drop: "g_inv (snd (s_OnDrop sc s w)) = g_inv w" for s w using ob by (simp add: obliging_def)
  have take: "g_inv (drop_onTake sc d s w) = g_inv w" for s w
    using ob by (auto simp: drop_onTake_def obliging_def silent_def split: option.split)
  obtain kept w1 where r: "s_OnDrop sc
      ((il_items (the_list w (from_inv d, from_list d)) ! unat (from_i d))\<lparr>st_count :=
        of_int (if can \<noteq> - 1 \<and> can < n then can else n)\<rparr>) w = (kept, w1)" by fastforce
  then have "g_inv w1 = g_inv w" using drop by (metis snd_conv)
  with r l show ?thesis by (simp add: drop_allowed_def Let_def drop_refused_elsewhere take)
qed

lemma apply_drop_elsewhere:
  assumes ob: "obliging P sc" and l: "l \<noteq> from_inv d"
  shows "g_inv (apply_drop sc rb d w) l = g_inv w l"
proof -
  have ask: "g_inv (snd (drop_allowTake sc d s n w)) = g_inv w" for s n w
    using ob by (auto simp: drop_allowTake_def obliging_def answers_def split: option.split)
  show ?thesis
    using l by (auto simp: apply_drop_def Let_def drop_allowed_elsewhere [OF ob l] ask case_prod_beta split: option.split)
qed

definition touched :: "InventoryAction \<Rightarrow> InventoryLocation set" where
  "touched a = (case a of Move m \<Rightarrow> {from_inv m, to_inv m} | Drop d \<Rightarrow> {from_inv d} | Craft c \<Rightarrow> {craft_inv c})"

lemma action_elsewhere:
  assumes "action_apply fuel he a w = Inr w'" and "limiting (he_scripts he)" and "plain_crafting (he_scripts he)"
    and "loc \<notin> touched a"
  shows "g_inv w' loc = g_inv w loc"
proof (cases a)
  case (Move m)
  with assms obtain m' where "apply_move (he_scripts he) (ce_idef (he_craft he)) (he_rollback he) m w = Some (m', w')"
    by (auto simp: action_apply_def or_abort_def split: option.splits)
  from frame.action [OF this assms(2), of loc] Move assms(4) show ?thesis by (simp add: touched_def untouched_def)
next
  case (Drop d)
  with assms show ?thesis using apply_drop_elsewhere [OF assms(2), of loc] by (auto simp: action_apply_def touched_def)
next
  case (Craft c)
  with assms(1) have "apply_craft fuel (he_scripts he) (he_craft he) c w = Inr w'"
    by (auto simp: action_apply_def craft_handler_def split: sum.splits craft_error.splits)
  from apply_craft_frame [OF assms(3) this] Craft assms(4) show ?thesis by (simp add: touched_def craft_frame_def)
qed

text \<open>Names that are not cut at a zero.\<close>

definition loc_plain :: "InventoryLocation \<Rightarrow> bool" where
  "loc_plain loc \<longleftrightarrow> (case loc of PLAYER n \<Rightarrow> 0 \<notin> set n | _ \<Rightarrow> True)"

lemma c_str_plain: "0 \<notin> set n \<Longrightarrow> c_str n = n"
  by (auto simp: c_str_def takeWhile_eq_all_conv)

lemma find_map_player:
  assumes "\<And>p. rp_name (f p) = rp_name p"
  shows "find (\<lambda>p. rp_name p = n) (map f ps) = map_option f (find (\<lambda>p. rp_name p = n) ps)"
  by (induction ps) (simp_all add: assms)

lemma put_inventories_same:
  assumes "g loc = getInventory mgr loc" and "loc_plain loc"
  shows "getInventory (put_inventories g mgr) loc = getInventory mgr loc"
proof (cases loc)
  case (PLAYER n)
  then have n: "c_str n = n" using assms(2) by (simp add: loc_plain_def c_str_plain)
  show ?thesis
  proof (cases "sim_env mgr")
    case None
    with PLAYER show ?thesis by (simp add: put_inventories_def getInventory_def)
  next
    case (Some env)
    define f where "f = (\<lambda>p. case g (PLAYER (rp_name p)) of None \<Rightarrow> p
      | Some iv \<Rightarrow> if getPlayer (rp_name p) env = Some p then p\<lparr>rp_inventory := iv\<rparr> else p)"
    have f: "rp_name (f p) = rp_name p" "rp_peer_id (f p) = rp_peer_id p" "rp_sao (f p) = rp_sao p" for p
      by (auto simp: f_def split: option.split)
    define env' where "env' = env\<lparr>m_players := map f (m_players env), node_meta := (\<lambda>p. g (NODEMETA p))\<rparr>"
    have get: "getPlayer n env' = map_option f (getPlayer n env)"
      using find_map_player [OF f(1), of n "m_players env"] f(2)
      by (auto simp: getPlayer_def env'_def split: option.split)
    have inv: "rp_inventory (f p) = rp_inventory p" if "getPlayer n env = Some p" "rp_sao p" for p
    proof -
      have "rp_name p = n" using that(1) by (auto simp: getPlayer_def find_Some_iff split: option.splits if_splits)
      moreover from this have "g (PLAYER n) = Some (rp_inventory p)"
        using that assms(1) PLAYER n Some by (simp add: getInventory_def)
      ultimately show ?thesis using that(1) by (simp add: f_def)
    qed
    have "sim_env (put_inventories g mgr) = Some env'"
      by (simp add: put_inventories_def Some env'_def f_def)
    with get inv Some PLAYER n f(3) show ?thesis by (auto simp: getInventory_def split: option.split)
  qed
qed (use assms in \<open>auto simp: put_inventories_def getInventory_def split: option.splits\<close>)

lemma store_game_inventory:
  assumes "store_game w s = Inr s'" and "g_inv w loc = getInventory (sv_mgr s) loc" and "loc_plain loc"
  shows "inv_same (getInventory (sv_mgr s') loc) (getInventory (sv_mgr s) loc)"
proof -
  have "report_modified (g_modified w) (put_inventories (g_inv w) (sv_mgr s)) = Some (sv_mgr s')"
    using assms(1) by (auto simp: store_game_def or_abort_def split: option.splits)
  from marks_only_inventory [OF report_modified_marks [OF this], of loc] put_inventories_same [of "g_inv w", OF assms(2,3)]
  show ?thesis by simp
qed

section \<open>Access\<close>

definition may_access :: "'w handler_env \<Rightarrow> RemotePlayer \<Rightarrow> ServerInventoryManager \<Rightarrow> InventoryLocation \<Rightarrow> bool" where
  "may_access he player mgr loc \<longleftrightarrow>
     (case loc of
        PLAYER name \<Rightarrow> name = rp_name player
      | NODEMETA p \<Rightarrow> he_checkPriv he (rp_name player) (lit ''interact'') \<and> he_in_reach he player p
      | DETACHED name \<Rightarrow> he_checkPriv he (rp_name player) (lit ''interact'') \<and>
          (\<exists>d. m_detached_inventories mgr name = Some d \<and> (dinv_owner d = [] \<or> dinv_owner d = rp_name player))
      | _ \<Rightarrow> False)"

text \<open>What is refused wherever it would go.\<close>

definition refused :: "'w handler_env \<Rightarrow> RemotePlayer \<Rightarrow> InventoryAction \<Rightarrow> bool" where
  "refused he player a \<longleftrightarrow>
     (case a of
        Move m \<Rightarrow> from_list m = lit ''craftpreview'' \<or> to_list m = lit ''craftpreview'' \<or> to_list m = lit ''craftresult''
      | Drop d \<Rightarrow> from_list d = lit ''craftpreview'' \<or> \<not> he_checkPriv he (rp_name player) (lit ''interact'') \<or>
          he_isDead he (rp_name player)
      | Craft c \<Rightarrow> \<not> he_checkPriv he (rp_name player) (lit ''interact''))"

lemma check_inv_access_iff:
  assumes "check_inv_access he player (he_checkPriv he (rp_name player) (lit ''interact'')) loc s = (ok, s')"
  shows "sv_mgr s' = sv_mgr s" and "ok \<longleftrightarrow> may_access he player (sv_mgr s) loc"
  using assms by (auto simp: check_inv_access_def may_access_def is_player_def checkDetachedInventoryAccess_def
      split: InventoryLocation.splits if_splits option.splits)

lemma action_allowed_iff:
  assumes "action_allowed he player a s = (ok, s')"
  shows "sv_mgr s' = sv_mgr s"
    and "ok \<longleftrightarrow> \<not> refused he player a \<and> (\<forall>loc\<in>touched a. may_access he player (sv_mgr s) loc)"
proof -
  have "sv_mgr s' = sv_mgr s \<and>
    (ok \<longleftrightarrow> \<not> refused he player a \<and> (\<forall>loc\<in>touched a. may_access he player (sv_mgr s) loc))"
  proof (cases a)
    case (Move m)
    obtain ok1 s1 where 1: "check_inv_access he player (he_checkPriv he (rp_name player) (lit ''interact'')) (from_inv m) s = (ok1, s1)"
      by fastforce
    obtain ok2 s2 where 2: "check_inv_access he player (he_checkPriv he (rp_name player) (lit ''interact'')) (to_inv m) s1 = (ok2, s2)"
      by fastforce
    note c1 = check_inv_access_iff [OF 1] and c2 = check_inv_access_iff [OF 2]
    from assms have "(ok, s') = (if \<not> ok1 then (False, s1) else (ok2 \<and> \<not> refused he player a, s2))"
      by (auto simp: action_allowed_def Move 1 2 refused_def Let_def split: if_splits)
    with c1 c2 show ?thesis by (auto simp: touched_def Move split: if_splits)
  next
    case (Drop d)
    obtain ok1 s1 where 1: "check_inv_access he player (he_checkPriv he (rp_name player) (lit ''interact'')) (from_inv d) s = (ok1, s1)"
      by fastforce
    note c1 = check_inv_access_iff [OF 1]
    from assms c1 1 show ?thesis
      by (cases "he_checkPriv he (rp_name player) (lit ''interact'')")
        (auto simp: action_allowed_def Drop refused_def touched_def Let_def split: if_splits)
  next
    case (Craft c)
    obtain ok1 s1 where 1: "check_inv_access he player (he_checkPriv he (rp_name player) (lit ''interact'')) (craft_inv c) s = (ok1, s1)"
      by fastforce
    note c1 = check_inv_access_iff [OF 1]
    from assms c1 1 show ?thesis
      by (cases "he_checkPriv he (rp_name player) (lit ''interact'')")
        (auto simp: action_allowed_def Craft refused_def touched_def Let_def)
  qed
  then show "sv_mgr s' = sv_mgr s"
    and "ok \<longleftrightarrow> \<not> refused he player a \<and> (\<forall>loc\<in>touched a. may_access he player (sv_mgr s) loc)" by blast+
qed

lemma refused_player [simp]: "refused he player (action_apply_player name a) = refused he player a"
  by (cases a) (auto simp: refused_def action_apply_player_def)

lemma may_access_marks: "marks_only a b \<Longrightarrow> may_access he player a loc = may_access he player b loc"
  by (cases loc) (simp_all add: may_access_def marks_only_def)

lemma do_action_elsewhere:
  assumes run: "do_action fuel he player a s = Inr s'"
    and sc: "limiting (he_scripts he)" "plain_crafting (he_scripts he)" and loc: "loc_plain loc"
    and no: "\<not> may_access he player (sv_mgr s) loc \<or> refused he player a"
  shows "inv_same (getInventory (sv_mgr s') loc) (getInventory (sv_mgr s) loc)"
proof -
  define b where "b = action_apply_player (rp_name player) a"
  obtain mgr where mgr: "mark_action b (sv_mgr s) = Some mgr"
    using run by (auto simp: do_action_def b_def or_abort_def Let_def bind_ok_def split: option.splits)
  note marks = mark_action_marks [OF mgr]
  obtain ok s1 where al: "action_allowed he player b (s\<lparr>sv_mgr := mgr\<rparr>) = (ok, s1)" by fastforce
  note a = action_allowed_iff [OF al]
  have s1: "sv_mgr s1 = mgr" using a(1) by simp
  have 1: "inv_same (getInventory (sv_mgr s1) loc) (getInventory (sv_mgr s) loc)"
    using marks_only_inventory [OF marks] s1 by simp
  have run': "(if ok then bind_ok (action_apply fuel he b (load_game s1)) (\<lambda>w. store_game w s1) else Inr s1) = Inr s'"
    using run mgr al by (simp add: do_action_def or_abort_def flip: b_def)
  show ?thesis
  proof (cases ok)
    case False
    with run' 1 show ?thesis by simp
  next
    case True
    with run' obtain w where w: "action_apply fuel he b (load_game s1) = Inr w" "store_game w s1 = Inr s'"
      by (auto simp: bind_ok_Inr)
    have "\<not> may_access he player mgr loc" using True a(2) no may_access_marks [OF marks, of he player loc] by (simp add: b_def)
    then have "loc \<notin> touched b" using True a(2) by auto
    from action_elsewhere [OF w(1) sc this] have "g_inv w loc = getInventory (sv_mgr s1) loc"
      by (simp add: load_game_def)
    from inv_same_trans [OF store_game_inventory [OF w(2) this loc] 1] show ?thesis .
  qed
qed

text \<open>
  C30.  Whatever packet a client sends as an inventory action, an inventory that its player may not
  access keeps its lists and every slot of them, with no change but marks that make the server
  send it again: that of another player, that of a node out of reach, a detached inventory of
  somebody else, and without the privilege to interact all but the player's own.  The same holds
  for every inventory if the action takes from or puts into the preview of the crafting grid, puts
  into its result, drops while the player is dead, or drops or crafts without the privilege.  The
  scripts that are asked set limits and leave the inventories alone.
\<close>

theorem inventory_access:
  assumes "limiting (he_scripts he)" and "plain_crafting (he_scripts he)"
    and "handle_InventoryAction fuel he pkt s = Inr s'"
    and "sim_env (sv_mgr s) = Some env" and "getPlayer_id (m_peer_id pkt) env = Some player"
    and "loc_plain loc"
    and "\<not> may_access he player (sv_mgr s) loc \<or>
      (\<exists>a. action_deSerialize (getRemainingNoCopy pkt, True) = Inr (Some a) \<and> refused he player a)"
  shows "inv_same (getInventory (sv_mgr s') loc) (getInventory (sv_mgr s) loc)"
  using assms do_action_elsewhere [OF _ assms(1,2,6)]
  by (auto simp: handle_InventoryAction_def split: if_splits sum.splits option.splits)

text \<open>Two players; the first, without privileges, tries to take from the second.\<close>

definition sample_player :: "bytes \<Rightarrow> u16 \<Rightarrow> RemotePlayer" where
  "sample_player name peer = \<lparr>rp_name = name, rp_peer_id = peer, rp_sao = True,
     rp_inventory = \<lparr>m_lists = [sample_list], inv_dirty = False\<rparr>, rp_modified = False\<rparr>"

definition sample_server :: "unit server" where
  "sample_server = \<lparr>sv_mgr = \<lparr>sim_env = Some \<lparr>m_players = [sample_player [97] 2, sample_player [98] 3],
     node_meta = Map.empty, map_events = []\<rparr>, m_detached_inventories = Map.empty\<rparr>, sv_rollback = [], sv_script = ()\<rparr>"

definition sample_handler :: "unit handler_env" where
  "sample_handler = \<lparr>he_scripts = sample_scripts 3,
     he_craft = \<lparr>ce_stale = 0, ce_ord = (\<lambda>_. []), ce_idef = sample_idef, ce_crafts = new_CCraftDefManager\<rparr>,
     he_rollback = False, he_checkPriv = (\<lambda>_ _. False), he_in_reach = (\<lambda>_ _. False), he_on_cheat = (\<lambda>_ w. w),
     he_isDead = (\<lambda>_. False)\<rparr>"

definition sample_theft :: net_packet where
  "sample_theft = (newNetworkPacket 0x31 2)\<lparr>m_data := move_serialize
     ((sample_move 2 False)\<lparr>from_inv := PLAYER [98]\<rparr>),
     m_datasize := of_nat (length (move_serialize ((sample_move 2 False)\<lparr>from_inv := PLAYER [98]\<rparr>)))\<rparr>"

theorem inventory_access_witness:
  "\<exists>s'. handle_InventoryAction 0 sample_handler sample_theft sample_server = Inr s' \<and>
    inv_same (getInventory (sv_mgr s') (PLAYER [98])) (getInventory (sv_mgr sample_server) (PLAYER [98]))"
proof -
  have sc: "limiting (he_scripts sample_handler)" "plain_crafting (he_scripts sample_handler)"
    by (simp_all add: sample_handler_def sample_scripts_obliging plain_crafting_def)
      (simp_all add: sample_scripts_def)
  have "\<not> isl (handle_InventoryAction 0 sample_handler sample_theft sample_server)"
    by code_simp
  then obtain s' where s': "handle_InventoryAction 0 sample_handler sample_theft sample_server = Inr s'"
    by (cases "handle_InventoryAction 0 sample_handler sample_theft sample_server") simp_all
  from inventory_access [OF sc s', of _ "sample_player [97] 2" "PLAYER [98]"]
  have "inv_same (getInventory (sv_mgr s') (PLAYER [98])) (getInventory (sv_mgr sample_server) (PLAYER [98]))"
    by (simp add: sample_server_def getPlayer_id_def sample_theft_def newNetworkPacket_def sample_player_def
        loc_plain_def may_access_def)
  with s' show ?thesis by blast
qed

end
