(* ===== verification/Settings.thy ===== *)
theory Settings
  imports Text
begin

text \<open>
  Settings and their configuration files (\<open>src/settings.cpp\<close>): names with values or with groups of
  settings, the parser and the writer.
\<close>

section \<open>State\<close>

text \<open>The table in the order in which it is iterated over; a new name comes last.\<close>

datatype SettingsEntry = Value bytes | Group "(bytes \<times> SettingsEntry) list"

type_synonym settings = "(bytes \<times> SettingsEntry) list"

fun set_entry :: "bytes \<Rightarrow> SettingsEntry \<Rightarrow> settings \<Rightarrow> settings" where
  "set_entry name e [] = [(name, e)]"
| "set_entry name e ((n, x) # es) = (if n = name then (n, e) # es else (n, x) # set_entry name e es)"

abbreviation QUOTES :: bytes where "QUOTES \<equiv> [34, 34, 34]"
abbreviation BRACE :: bytes where "BRACE \<equiv> [123]"
abbreviation END_GROUP :: bytes where "END_GROUP \<equiv> [125]"
abbreviation EQUALS :: u8 where "EQUALS \<equiv> 61"
abbreviation HASH :: u8 where "HASH \<equiv> 35"

section \<open>Reading\<close>

definition checkNameValid :: "bytes \<Rightarrow> bool" where
  "checkNameValid name \<longleftrightarrow>
     list_all (\<lambda>c. c \<notin> set [61, 34, 123, 125, 35]) name \<and> list_all (\<lambda>c. \<not> my_isspace c) name"

text \<open>Whether \<open>p\<close> occurs in the text.\<close>

fun has_sub :: "bytes \<Rightarrow> bytes \<Rightarrow> bool" where
  "has_sub p [] \<longleftrightarrow> p = []"
| "has_sub p (c # s) \<longleftrightarrow> take (length p) (c # s) = p \<or> has_sub p s"

definition checkValueValid :: "bytes \<Rightarrow> bool" where
  "checkValueValid value \<longleftrightarrow> \<not> (take 3 value = QUOTES \<or> has_sub (NEWLINE # QUOTES) value)"

datatype SettingsParseEvent =
  SPE_NONE | SPE_INVALID | SPE_COMMENT | SPE_KVPAIR | SPE_END | SPE_GROUP | SPE_MULTILINE

text \<open>The event of a line; the name and the value are empty where the code does not set them.\<close>

definition parseConfigObject :: "bytes \<Rightarrow> bytes \<Rightarrow> SettingsParseEvent \<times> bytes \<times> bytes" where
  "parseConfigObject end_tag line =
     (let trimmed_line = trim line in
      if trimmed_line = [] then (SPE_NONE, [], [])
      else if hd trimmed_line = HASH then (SPE_COMMENT, [], [])
      else if trimmed_line = end_tag then (SPE_END, [], [])
      else if EQUALS \<notin> set trimmed_line then (SPE_INVALID, [], [])
      else
        let name = trim (takeWhile (\<lambda>c. c \<noteq> EQUALS) trimmed_line);
            v = trim (drop 1 (dropWhile (\<lambda>c. c \<noteq> EQUALS) trimmed_line)) in
        (if v = BRACE then SPE_GROUP else if v = QUOTES then SPE_MULTILINE else SPE_KVPAIR, name, v))"

lemma getline_left: "snd is \<Longrightarrow> getline sep old is = (line, is') \<Longrightarrow> istream_left is' < istream_left is"
  using getline_progress [of "is" sep old] by simp

text \<open>\<open>getMultiline\<close> from a line on, with \<open>acc\<close> before it.\<close>

function multiline_loop :: "bytes \<Rightarrow> istream \<Rightarrow> bytes \<times> istream" where
  "multiline_loop acc is =
     (if \<not> snd is then (acc, is)
      else
        let (line, is') = getline NEWLINE [] is in
        if line = QUOTES then (acc, is') else multiline_loop (acc @ line @ [NEWLINE]) is')"
  by pat_completeness auto

termination
  by (relation "measure (istream_left \<circ> snd)") (auto intro: getline_left [OF _ sym])

declare multiline_loop.simps [simp del]

definition getMultiline :: "istream \<Rightarrow> bytes \<times> istream" where
  "getMultiline is = (let (v, is) = multiline_loop [] is in (butlast v, is))"

text \<open>
  \<open>parseConfigLines\<close>: whether the end tag was found, the settings, and the rest of the file.
  Every line uses up fuel, and so does a group.
\<close>

fun parse_lines :: "nat \<Rightarrow> bytes \<Rightarrow> settings \<Rightarrow> istream \<Rightarrow> (bool \<times> settings \<times> istream) option" where
  "parse_lines 0 end_tag m is = None"
| "parse_lines (Suc n) end_tag m is =
     (if \<not> snd is then Some (end_tag = [], m, is)
      else
        let (line, is) = getline NEWLINE [] is;
            (event, name, v) = parseConfigObject end_tag line in
        case event of
          SPE_KVPAIR \<Rightarrow> parse_lines n end_tag (set_entry name (Value v) m) is
        | SPE_END \<Rightarrow> Some (True, m, is)
        | SPE_GROUP \<Rightarrow>
            (case parse_lines n END_GROUP [] is of
               None \<Rightarrow> None
             | Some (ok, grp, is) \<Rightarrow>
                 if \<not> ok then Some (False, m, is) else parse_lines n end_tag (set_entry name (Group grp) m) is)
        | SPE_MULTILINE \<Rightarrow>
            let (v, is) = getMultiline is in parse_lines n end_tag (set_entry name (Value v) m) is
        | _ \<Rightarrow> parse_lines n end_tag m is)"

definition parseConfigLines :: "bytes \<Rightarrow> settings \<Rightarrow> istream \<Rightarrow> (bool \<times> settings \<times> istream) option" where
  "parseConfigLines end_tag m is = parse_lines (istream_left is + 1) end_tag m is"

section \<open>Writing\<close>

definition tabs :: "nat \<Rightarrow> bytes" where
  "tabs n = replicate n 9"

text \<open>\<open>write_entries\<close> is the loop of \<open>writeLines\<close>.\<close>

fun printEntry :: "nat \<Rightarrow> bytes \<Rightarrow> SettingsEntry \<Rightarrow> bytes"
  and write_entries :: "nat \<Rightarrow> settings \<Rightarrow> bytes" where
  "printEntry tab_depth name (Group es) =
     tabs tab_depth @ name @ lit '' = {'' @ [NEWLINE] @ write_entries (tab_depth + 1) es @
       tabs (tab_depth + 1) @ END_GROUP @ [NEWLINE]"
| "printEntry tab_depth name (Value v) =
     tabs tab_depth @ name @ lit '' = '' @
       (if NEWLINE \<in> set v then QUOTES @ [NEWLINE] @ v @ [NEWLINE] @ QUOTES @ [NEWLINE] else v @ [NEWLINE])"
| "write_entries tab_depth [] = []"
| "write_entries tab_depth ((name, e) # es) = printEntry tab_depth name e @ write_entries tab_depth es"

definition writeLines :: "nat \<Rightarrow> bytes \<Rightarrow> settings \<Rightarrow> bytes" where
  "writeLines tab_depth end_tag es =
     write_entries tab_depth es @ (if end_tag \<noteq> [] then tabs tab_depth @ end_tag @ [NEWLINE] else [])"

text \<open>\<open>set\<close> and \<open>setGroup\<close>, without the callbacks.\<close>

definition setEntry :: "bytes \<Rightarrow> SettingsEntry \<Rightarrow> settings \<Rightarrow> bool \<times> settings" where
  "setEntry name e m =
     (if \<not> checkNameValid name then (False, m)
      else if (case e of Value v \<Rightarrow> \<not> checkValueValid v | Group _ \<Rightarrow> False) then (False, m)
      else (True, set_entry name e m))"

definition remove_setting :: "bytes \<Rightarrow> settings \<Rightarrow> bool \<times> settings" where
  "remove_setting name m = (map_of m name \<noteq> None, filter (\<lambda>(n, _). n \<noteq> name) m)"


section \<open>Lines\<close>

lemma trim_start [simp]: "my_isspace c \<Longrightarrow> trim (c # s) = trim s"
  by (simp add: trim_def)

lemma trim_front: "list_all my_isspace w \<Longrightarrow> trim (w @ s) = trim s"
  by (induction w) simp_all

definition trimmed :: "bytes \<Rightarrow> bool" where
  "trimmed s \<longleftrightarrow> s = [] \<or> \<not> my_isspace (hd s) \<and> \<not> my_isspace (last s)"

lemma trim_trimmed: "trimmed s \<Longrightarrow> trim s = s"
proof -
  assume "trimmed s"
  then have "dropWhile my_isspace s = s" "dropWhile my_isspace (rev s) = rev s"
    by (auto simp: trimmed_def dropWhile_eq_self_iff hd_rev)
  then show ?thesis by (simp add: trim_def)
qed

lemma dropWhile_hd: "dropWhile P s = [] \<or> \<not> P (hd (dropWhile P s))"
  by (induction s) auto

lemma trimmed_trim [simp]: "trimmed (trim s)"
proof -
  define t where "t = dropWhile my_isspace s"
  define r where "r = dropWhile my_isspace (rev t)"
  have r: "trim s = rev r" by (simp add: trim_def r_def t_def)
  show ?thesis
  proof (cases "r = []")
    case False
    then have l: "\<not> my_isspace (last (rev r))"
      using dropWhile_hd [of my_isspace "rev t"] unfolding r_def last_rev by blast
    obtain w where "rev t = w @ r" unfolding r_def by (metis takeWhile_dropWhile_id)
    then have "t = rev r @ rev w" by (metis rev_append rev_rev_ident)
    then have "hd t = hd (rev r)" "t \<noteq> []" using False by simp_all
    moreover have "\<not> my_isspace (hd t)" using dropWhile_hd [of my_isspace s] \<open>t \<noteq> []\<close> unfolding t_def by blast
    ultimately show ?thesis using l by (simp add: r trimmed_def)
  qed (simp add: r trimmed_def)
qed

lemma trim_trim [simp]: "trim (trim s) = trim s"
  by (rule trim_trimmed) simp

lemma trim_trailing:
  assumes w: "list_all my_isspace w" and s: "trimmed s"
  shows "trim (s @ w) = s"
proof (cases "s = []")
  case True
  with trim_front [OF w, of "[]"] show ?thesis by (simp add: trim_def)
next
  case False
  have "dropWhile my_isspace (s @ w) = s @ w" using s False by (simp add: trimmed_def dropWhile_eq_self_iff)
  moreover have "dropWhile my_isspace (rev w @ rev s) = dropWhile my_isspace (rev s)"
    using w by (intro dropWhile_append2) (auto simp: list_all_iff)
  moreover have "dropWhile my_isspace (rev s) = rev s"
    using s False by (simp add: trimmed_def dropWhile_eq_self_iff hd_rev)
  ultimately show ?thesis by (simp add: trim_def)
qed

text \<open>What a line of the form that the writer writes is taken for.\<close>

definition event_of :: "bytes \<Rightarrow> SettingsParseEvent" where
  "event_of v = (if v = BRACE then SPE_GROUP else if v = QUOTES then SPE_MULTILINE else SPE_KVPAIR)"

lemma name_ok:
  assumes "checkNameValid name"
  shows "EQUALS \<notin> set name" "NEWLINE \<notin> set name" "HASH \<notin> set name" "trimmed name"
proof -
  have "\<not> my_isspace c" if "c \<in> set name" for c using assms that by (auto simp: checkNameValid_def list_all_iff)
  then show "NEWLINE \<notin> set name" and "trimmed name"
    by (auto simp: my_isspace_def trimmed_def)
  show "EQUALS \<notin> set name" "HASH \<notin> set name" using assms by (auto simp: checkNameValid_def list_all_iff)
qed

lemma tab_spaces [simp]: "list_all my_isspace (tabs t)"
  by (simp add: tabs_def list_all_iff my_isspace_def)

lemma parse_written:
  assumes name: "checkNameValid name" and v: "trimmed v" and tag: "EQUALS \<notin> set end_tag"
  shows "parseConfigObject end_tag (tabs t @ name @ lit '' = '' @ v) = (event_of v, name, v)"
proof -
  note n = name_ok [OF name]
  define s where "s = (if v = [] then [] else 32 # v)"
  have eq: "lit '' = '' = [32, 61, 32]" by (simp add: lit_def)
  have last: "\<not> my_isspace (last (name @ 32 # 61 # s))"
    using v by (auto simp: s_def trimmed_def my_isspace_def [of 61])
  define line where "line = (if name = [] then 61 # s else name @ 32 # 61 # s)"
  have tr: "trimmed line"
    using last n(4) by (cases name) (auto simp: line_def trimmed_def my_isspace_def split: if_splits)
  have "tabs t @ name @ lit '' = '' @ v = tabs t @ (if name = [] then [32] else []) @ line @ (if v = [] then [32] else [])"
    by (simp add: line_def s_def eq)
  also have "trim \<dots> = trim (line @ (if v = [] then [32] else []))"
    by (simp add: trim_front [of "tabs t"] tab_spaces my_isspace_def)
  also have "\<dots> = line" using tr by (auto intro: trim_trailing trim_trimmed simp: my_isspace_def)
  finally have trim: "trim (tabs t @ name @ lit '' = '' @ v) = line" .
  have cut: "takeWhile (\<lambda>c. c \<noteq> EQUALS) line = (if name = [] then [] else name @ [32])"
    "drop 1 (dropWhile (\<lambda>c. c \<noteq> EQUALS) line) = s"
    using up_to_sep(1,2) [of EQUALS "name @ [32]" s] n(1) by (auto simp: line_def)
  have "trim (if name = [] then [] else name @ [32]) = name"
    using n(4) trim_trailing [of "[32]" name] by (auto simp: my_isspace_def trim_def)
  moreover have "trim s = v" using v by (auto simp: s_def trim_trimmed my_isspace_def trim_def [of "[]"])
  moreover have "line \<noteq> []" "EQUALS \<in> set line" "hd line \<noteq> HASH" "line \<noteq> end_tag"
    using n(3) tag by (cases name; auto simp: line_def)+
  ultimately show ?thesis unfolding parseConfigObject_def Let_def trim cut by (simp add: event_of_def)
qed

section \<open>Values of several lines\<close>

lemma has_sub_iff: "has_sub p s \<longleftrightarrow> (\<exists>a b. s = a @ p @ b)"
proof (induction s)
  case (Cons c s)
  have "take (length p) (c # s) = p \<longleftrightarrow> (\<exists>b. c # s = p @ b)"
    by (metis append_eq_conv_conj append_take_drop_id)
  moreover have "(\<exists>a b. c # s = a @ p @ b) \<longleftrightarrow> (\<exists>b. c # s = p @ b) \<or> (\<exists>a b. s = a @ p @ b)"
    by (metis Cons_eq_append_conv append_Cons append_Nil)
  ultimately show ?case using Cons.IH by simp
qed simp

definition unlines :: "bytes list \<Rightarrow> bytes" where
  "unlines ls = concat (map (\<lambda>l. l @ [NEWLINE]) ls)"

lemma unlines_simps [simp]: "unlines [] = []" "unlines (l # ls) = l @ NEWLINE # unlines ls"
  by (simp_all add: unlines_def)

abbreviation inner_line :: "bytes \<Rightarrow> bool" where
  "inner_line l \<equiv> NEWLINE \<notin> set l \<and> l \<noteq> QUOTES"

definition multi_ok :: "bytes \<Rightarrow> bool" where
  "multi_ok v \<longleftrightarrow> (\<exists>ls. v @ [NEWLINE] = unlines ls \<and> list_all inner_line ls)"

lemma multiline_loop_lines:
  "list_all inner_line ls \<Longrightarrow>
   multiline_loop acc (unlines ls @ QUOTES @ NEWLINE # r, True) = (acc @ unlines ls, r, True)"
proof (induction ls arbitrary: acc)
  case Nil
  have "getline NEWLINE [] (QUOTES @ NEWLINE # r, True) = (QUOTES, r, True)" by (rule getline_token) simp
  then show ?case by (subst multiline_loop.simps) simp
next
  case (Cons l ls)
  then have "getline NEWLINE [] (l @ NEWLINE # unlines ls @ QUOTES @ NEWLINE # r, True) =
      (l, unlines ls @ QUOTES @ NEWLINE # r, True)" by (intro getline_token) simp
  with Cons show ?case by (subst multiline_loop.simps) simp
qed

lemma multiline_loop_read:
  "multiline_loop acc is = (x, is') \<Longrightarrow> \<exists>ls. x = acc @ unlines ls \<and> list_all inner_line ls"
proof (induction acc "is" rule: multiline_loop.induct)
  case (1 acc "is")
  show ?case
  proof (cases "snd is")
    case False
    with "1.prems" show ?thesis by (subst (asm) multiline_loop.simps) (auto intro: exI [of _ "[]"])
  next
    case True
    obtain line is1 where g: "getline NEWLINE [] is = (line, is1)" by (cases "getline NEWLINE [] is")
    then have nl: "NEWLINE \<notin> set line" using True by (auto simp: getline_def dest: set_takeWhileD)
    show ?thesis
    proof (cases "line = QUOTES")
      case True
      with "1.prems" g \<open>snd is\<close> show ?thesis
        by (subst (asm) multiline_loop.simps) (auto intro: exI [of _ "[]"])
    next
      case False
      then have "multiline_loop (acc @ line @ [NEWLINE]) is1 = (x, is')"
        using "1.prems" g True by (subst (asm) multiline_loop.simps) simp
      with "1.IH" True g False obtain ls where "x = (acc @ line @ [NEWLINE]) @ unlines ls" "list_all inner_line ls"
        by (metis (no_types, lifting))
      with nl False show ?thesis by (intro exI [of _ "line # ls"]) simp
    qed
  qed
qed

lemma getMultiline_ok:
  assumes "getMultiline is = (v, is')"
  shows "multi_ok v"
proof -
  obtain ls where v: "v = butlast (unlines ls)" and ls: "list_all inner_line ls"
    using assms multiline_loop_read [of "[]" "is"] by (auto simp: getMultiline_def split: prod.splits)
  show ?thesis
  proof (cases ls rule: rev_cases)
    case Nil
    with v show ?thesis by (auto simp: multi_ok_def intro: exI [of _ "[[]]"])
  next
    case (snoc ks l)
    then have "v @ [NEWLINE] = unlines ls" by (simp add: v unlines_def butlast_append)
    with ls show ?thesis by (auto simp: multi_ok_def)
  qed
qed

lemma getMultiline_written:
  assumes "multi_ok v"
  shows "getMultiline (v @ NEWLINE # QUOTES @ NEWLINE # r, True) = (v, r, True)"
proof -
  obtain ls where ls: "v @ [NEWLINE] = unlines ls" "list_all inner_line ls" using assms by (auto simp: multi_ok_def)
  have "v @ NEWLINE # QUOTES @ NEWLINE # r = (v @ [NEWLINE]) @ QUOTES @ NEWLINE # r" by simp
  also have "\<dots> = unlines ls @ QUOTES @ NEWLINE # r" using ls(1) by simp
  finally show ?thesis
    using multiline_loop_lines [OF ls(2), of "[]" r] by (simp add: getMultiline_def flip: ls(1))
qed

lemma valid_multi_ok: "checkValueValid v \<Longrightarrow> multi_ok v"
proof (induction v rule: length_induct)
  case (1 v)
  show ?case
  proof (cases "NEWLINE \<in> set v")
    case False
    moreover have "v \<noteq> QUOTES" using "1.prems" by (auto simp: checkValueValid_def)
    ultimately show ?thesis unfolding multi_ok_def by (intro exI [of _ "[v]"]) simp
  next
    case True
    then obtain l w where v: "v = l @ NEWLINE # w" and l: "NEWLINE \<notin> set l" by (meson split_list_first)
    have no: "\<nexists>a b. v = a @ (NEWLINE # QUOTES) @ b" and start: "take 3 v \<noteq> QUOTES"
      using "1.prems" by (auto simp: checkValueValid_def has_sub_iff)
    have "take 3 w \<noteq> QUOTES"
    proof
      assume "take 3 w = QUOTES"
      then have "w = QUOTES @ drop 3 w" by (metis append_take_drop_id)
      then have "v = l @ (NEWLINE # QUOTES) @ drop 3 w" by (simp add: v)
      with no show False by blast
    qed
    moreover have "\<nexists>a b. w = a @ (NEWLINE # QUOTES) @ b"
    proof
      assume "\<exists>a b. w = a @ (NEWLINE # QUOTES) @ b"
      then obtain a b where "w = a @ (NEWLINE # QUOTES) @ b" by blast
      then have "v = (l @ NEWLINE # a) @ (NEWLINE # QUOTES) @ b" by (simp add: v)
      with no show False by blast
    qed
    ultimately have "checkValueValid w" by (simp add: checkValueValid_def has_sub_iff)
    moreover have "length w < length v" by (simp add: v)
    ultimately obtain ls where "w @ [NEWLINE] = unlines ls" "list_all inner_line ls" using "1.IH" by (fastforce simp: multi_ok_def)
    moreover have "l \<noteq> QUOTES" using start by (auto simp: v)
    ultimately show ?thesis using l unfolding multi_ok_def by (intro exI [of _ "l # ls"]) (simp add: v)
  qed
qed

section \<open>Fuel\<close>

lemma line_parsed:
  obtains line is1 event name v where "getline NEWLINE [] is = (line, is1)"
    and "parseConfigObject end_tag line = (event, name, v)"
  by (metis prod.exhaust)

lemma parse_more: "parse_lines n end_tag m is = Some x \<Longrightarrow> n \<le> k \<Longrightarrow> parse_lines k end_tag m is = Some x"
proof (induction n arbitrary: end_tag m "is" k x)
  case (Suc n)
  obtain k' where k: "k = Suc k'" "n \<le> k'" using Suc.prems(2) by (cases k) simp_all
  have IH: "parse_lines n tag m is = Some x \<Longrightarrow> parse_lines k' tag m is = Some x" for tag m "is" x
    using Suc.IH k(2) by blast
  obtain line is1 event name v where l: "getline NEWLINE [] is = (line, is1)"
    "parseConfigObject end_tag line = (event, name, v)" by (rule line_parsed)
  show ?case
  proof (cases "snd is")
    case True
    show ?thesis
    proof (cases "event = SPE_GROUP")
      case group: True
      then obtain ok grp is2 where p: "parse_lines n END_GROUP [] is1 = Some (ok, grp, is2)"
        using Suc.prems(1) l True by (cases "parse_lines n END_GROUP [] is1") auto
      from Suc.prems(1) l True group p IH show ?thesis
        by (simp add: k IH [OF p] split: if_splits)
    next
      case False
      obtain w is2 where w: "getMultiline is1 = (w, is2)" by (metis prod.exhaust)
      with False Suc.prems(1) l True IH show ?thesis by (cases event) (simp_all add: k)
    qed
  qed (use Suc.prems(1) k in simp)
qed simp

lemma multiline_left: "multiline_loop acc is = (x, is') \<Longrightarrow> istream_left is' \<le> istream_left is"
proof (induction acc "is" rule: multiline_loop.induct)
  case (1 acc "is")
  obtain line is1 where g: "getline NEWLINE [] is = (line, is1)" by (cases "getline NEWLINE [] is")
  show ?case
  proof (cases "snd is \<and> line \<noteq> QUOTES")
    case True
    then have "multiline_loop (acc @ line @ [NEWLINE]) is1 = (x, is')"
      using "1.prems" g by (subst (asm) multiline_loop.simps) simp
    with "1.IH" [OF _ g [symmetric] refl] True have "istream_left is' \<le> istream_left is1" by simp
    with getline_left [OF _ g] True show ?thesis by simp
  next
    case False
    with "1.prems" g show ?thesis
      by (subst (asm) multiline_loop.simps) (auto split: if_splits dest: getline_left)
  qed
qed

lemma getMultiline_left: "getMultiline is = (v, is') \<Longrightarrow> istream_left is' \<le> istream_left is"
  by (auto simp: getMultiline_def split: prod.splits dest: multiline_left)

lemma parse_left: "parse_lines n end_tag m is = Some (ok, m', is') \<Longrightarrow> istream_left is' \<le> istream_left is"
proof (induction n arbitrary: end_tag m "is" ok m' is')
  case (Suc n)
  obtain line is1 event name v where l: "getline NEWLINE [] is = (line, is1)"
    "parseConfigObject end_tag line = (event, name, v)" by (rule line_parsed)
  show ?case
  proof (cases "snd is")
    case True
    have "istream_left is' \<le> istream_left is1"
    proof (cases "event = SPE_GROUP")
      case group: True
      then obtain ok2 grp is2 where p: "parse_lines n END_GROUP [] is1 = Some (ok2, grp, is2)"
        using Suc.prems(1) l True by (cases "parse_lines n END_GROUP [] is1") auto
      have "istream_left is' \<le> istream_left is2"
      proof (cases ok2)
        case True
        with group p l Suc.prems \<open>snd is\<close> have "parse_lines n end_tag (set_entry name (Group grp) m) is2 = Some (ok, m', is')" by simp
        then show ?thesis by (rule Suc.IH)
      qed (use group p l Suc.prems True in simp)
      with Suc.IH [OF p] show ?thesis by simp
    next
      case False
      show ?thesis
      proof (cases "event = SPE_MULTILINE")
        case multi: True
        obtain w is2 where w: "getMultiline is1 = (w, is2)" by (metis prod.exhaust)
        with multi l Suc.prems True have "parse_lines n end_tag (set_entry name (Value w) m) is2 = Some (ok, m', is')" by simp
        from Suc.IH [OF this] getMultiline_left [OF w] show ?thesis by simp
      next
        case other: False
        with False l Suc.prems True Suc.IH show ?thesis by (cases event) auto
      qed
    qed
    with getline_left [OF True l(1)] show ?thesis by simp
  qed (use Suc.prems in simp)
qed simp

lemma parse_ends: "istream_left is < n \<Longrightarrow> \<exists>r. parse_lines n end_tag m is = Some r"
proof (induction n arbitrary: end_tag m "is")
  case (Suc k)
  obtain line is1 event name v where l: "getline NEWLINE [] is = (line, is1)"
    "parseConfigObject end_tag line = (event, name, v)" by (rule line_parsed)
  show ?case
  proof (cases "snd is")
    case True
    have less: "istream_left is1 < k" using getline_left [OF True l(1)] Suc.prems by simp
    have IH: "\<exists>r. parse_lines k tag' m' is' = Some r" if "istream_left is' \<le> istream_left is1" for tag' m' is'
      using that less by (intro Suc.IH) simp
    show ?thesis
    proof (cases "event = SPE_GROUP")
      case group: True
      obtain ok grp is2 where p: "parse_lines k END_GROUP [] is1 = Some (ok, grp, is2)"
        using IH [OF order_refl, of END_GROUP "[]"] by auto
      from IH [OF parse_left [OF p]] True l group p show ?thesis by (cases ok) auto
    next
      case False
      obtain w is2 where w: "getMultiline is1 = (w, is2)" by (metis prod.exhaust)
      from False IH [OF order_refl] IH [OF getMultiline_left [OF w]] l True w show ?thesis
        by (cases event) auto
    qed
  qed simp
qed simp

section \<open>Written settings are read back\<close>

text \<open>
  A piece of a file that takes the settings from \<open>m\<close> to \<open>m'\<close>: with it in front, reading goes on as
  it does without it.
\<close>

definition chunk :: "bytes \<Rightarrow> settings \<Rightarrow> bytes \<Rightarrow> settings \<Rightarrow> bool" where
  "chunk end_tag m c m' \<longleftrightarrow> (\<forall>r n x. parse_lines n end_tag m' (r, True) = Some x \<longrightarrow>
     (\<exists>k. parse_lines k end_tag m (c @ r, True) = Some x))"

lemma chunk_Nil [simp]: "chunk end_tag m [] m"
  by (auto simp: chunk_def)

lemma chunk_append: "chunk end_tag m a m' \<Longrightarrow> chunk end_tag m' b m'' \<Longrightarrow> chunk end_tag m (a @ b) m''"
  unfolding chunk_def append_assoc by blast

text \<open>A piece that is a whole object up to its end tag.\<close>

definition object_text :: "bytes \<Rightarrow> bytes \<Rightarrow> settings \<Rightarrow> bool" where
  "object_text end_tag c m \<longleftrightarrow> (\<forall>r. \<exists>k. parse_lines k end_tag [] (c @ r, True) = Some (True, m, r, True))"

lemma chunk_line:
  assumes l: "NEWLINE \<notin> set line" and e: "parseConfigObject end_tag line = (event, name, v)"
    and m: "event = SPE_KVPAIR \<and> m' = set_entry name (Value v) m \<or>
      event \<in> {SPE_NONE, SPE_INVALID, SPE_COMMENT} \<and> m' = m"
  shows "chunk end_tag m (line @ [NEWLINE]) m'"
  unfolding chunk_def
proof (intro allI impI)
  fix r n x assume "parse_lines n end_tag m' (r, True) = Some x"
  then have "parse_lines (Suc n) end_tag m ((line @ [NEWLINE]) @ r, True) = Some x" using l e m by auto
  then show "\<exists>k. parse_lines k end_tag m ((line @ [NEWLINE]) @ r, True) = Some x" by blast
qed

lemma chunk_multi:
  assumes l: "NEWLINE \<notin> set line" and e: "parseConfigObject end_tag line = (SPE_MULTILINE, name, w)" and v: "multi_ok v"
  shows "chunk end_tag m (line @ [NEWLINE] @ v @ [NEWLINE] @ QUOTES @ [NEWLINE]) (set_entry name (Value v) m)"
  unfolding chunk_def
proof (intro allI impI)
  fix r n x assume "parse_lines n end_tag (set_entry name (Value v) m) (r, True) = Some x"
  then have "parse_lines (Suc n) end_tag m (line @ NEWLINE # v @ NEWLINE # QUOTES @ NEWLINE # r, True) = Some x"
    using getline_token [OF l, of "[]" "v @ NEWLINE # QUOTES @ NEWLINE # r"] e getMultiline_written [OF v, of r] by simp
  moreover have "(line @ [NEWLINE] @ v @ [NEWLINE] @ QUOTES @ [NEWLINE]) @ r = line @ NEWLINE # v @ NEWLINE # QUOTES @ NEWLINE # r"
    by simp
  ultimately show "\<exists>k. parse_lines k end_tag m ((line @ [NEWLINE] @ v @ [NEWLINE] @ QUOTES @ [NEWLINE]) @ r, True) = Some x"
    by metis
qed

lemma chunk_group:
  assumes l: "NEWLINE \<notin> set line" and e: "parseConfigObject end_tag line = (SPE_GROUP, name, w)"
    and g: "object_text END_GROUP c g"
  shows "chunk end_tag m (line @ [NEWLINE] @ c) (set_entry name (Group g) m)"
  unfolding chunk_def
proof (intro allI impI)
  fix r n x assume n: "parse_lines n end_tag (set_entry name (Group g) m) (r, True) = Some x"
  obtain k where k: "parse_lines k END_GROUP [] (c @ r, True) = Some (True, g, r, True)" using g by (auto simp: object_text_def)
  have "parse_lines (Suc (n + k)) end_tag m (line @ NEWLINE # c @ r, True) = Some x"
    using getline_token [OF l, of "[]" "c @ r"] e parse_more [OF k, of "n + k"] parse_more [OF n, of "n + k"] by simp
  moreover have "(line @ [NEWLINE] @ c) @ r = line @ NEWLINE # c @ r" by simp
  ultimately show "\<exists>k. parse_lines k end_tag m ((line @ [NEWLINE] @ c) @ r, True) = Some x" by metis
qed

lemma object_textI:
  assumes "chunk end_tag [] c m" and "NEWLINE \<notin> set line"
    and "parseConfigObject end_tag line = (SPE_END, name, v)"
  shows "object_text end_tag (c @ line @ [NEWLINE]) m"
  unfolding object_text_def
proof
  fix r
  have "parse_lines (Suc 0) end_tag m (line @ NEWLINE # r, True) = Some (True, m, r, True)"
    using assms(2,3) by simp
  then have "\<exists>k. parse_lines k end_tag [] (c @ line @ NEWLINE # r, True) = Some (True, m, r, True)"
    using assms(1) unfolding chunk_def by blast
  then show "\<exists>k. parse_lines k end_tag [] ((c @ line @ [NEWLINE]) @ r, True) = Some (True, m, r, True)" by simp
qed

text \<open>What can be written: a value of one line must not look like the start of something else.\<close>

definition value_ok :: "bytes \<Rightarrow> bool" where
  "value_ok v \<longleftrightarrow> checkValueValid v \<and> (NEWLINE \<notin> set v \<longrightarrow> trimmed v \<and> v \<noteq> BRACE)"

fun entry_ok :: "SettingsEntry \<Rightarrow> bool" where
  "entry_ok (Value v) \<longleftrightarrow> value_ok v"
| "entry_ok (Group es) \<longleftrightarrow> distinct (map fst es) \<and> (\<forall>x\<in>set es. checkNameValid (fst x) \<and> entry_ok (snd x))"

definition settings_ok :: "settings \<Rightarrow> bool" where
  "settings_ok es \<longleftrightarrow> distinct (map fst es) \<and> (\<forall>x\<in>set es. checkNameValid (fst x) \<and> entry_ok (snd x))"

lemma entry_ok_Group [simp]: "entry_ok (Group es) = settings_ok es"
  by (simp add: settings_ok_def)

declare entry_ok.simps(2) [simp del]

lemma event_of_line:
  assumes "value_ok v" and "NEWLINE \<notin> set v"
  shows "event_of v = SPE_KVPAIR"
  using assms by (auto simp: event_of_def value_ok_def checkValueValid_def)

lemma set_entry_new: "name \<notin> fst ` set m \<Longrightarrow> set_entry name e m = m @ [(name, e)]"
  by (induction name e m rule: set_entry.induct) auto

lemma tag_line:
  assumes "trimmed end_tag" and "end_tag \<noteq> []" and "hd end_tag \<noteq> HASH"
  shows "parseConfigObject end_tag (tabs t @ end_tag) = (SPE_END, [], [])"
  using assms trim_front [OF tab_spaces, of t end_tag]
  by (simp add: parseConfigObject_def trim_trimmed)

lemma printed:
  shows "checkNameValid name \<Longrightarrow> entry_ok e \<Longrightarrow> EQUALS \<notin> set end_tag \<Longrightarrow>
      chunk end_tag m (printEntry t name e) (set_entry name e m)"
    and "settings_ok es \<Longrightarrow> fst ` set es \<inter> fst ` set m = {} \<Longrightarrow> EQUALS \<notin> set end_tag \<Longrightarrow>
      chunk end_tag m (write_entries t es) (m @ es)"
proof (induction t name e and t es arbitrary: end_tag m and end_tag m rule: printEntry_write_entries.induct)
  case (1 t name es)
  have nl: "NEWLINE \<notin> set (tabs t @ name @ lit '' = '' @ BRACE)"
    using name_ok(2) [OF "1.prems"(1)] by (auto simp: tabs_def lit_def)
  have p: "parseConfigObject end_tag (tabs t @ name @ lit '' = '' @ BRACE) = (SPE_GROUP, name, BRACE)"
    using parse_written [OF "1.prems"(1) _ "1.prems"(3), of BRACE] by (simp add: event_of_def trimmed_def my_isspace_def)
  have "chunk END_GROUP [] (write_entries (t + 1) es) es" using "1.IH" [of "[]" END_GROUP] "1.prems"(2) by simp
  moreover have "parseConfigObject END_GROUP (tabs (t + 1) @ END_GROUP) = (SPE_END, [], [])"
    by (rule tag_line) (simp_all add: trimmed_def my_isspace_def)
  moreover have "NEWLINE \<notin> set (tabs (t + 1) @ END_GROUP)" by (simp add: tabs_def)
  ultimately have "object_text END_GROUP (write_entries (t + 1) es @ (tabs (t + 1) @ END_GROUP) @ [NEWLINE]) es"
    by (intro object_textI)
  from chunk_group [OF nl p this, of m] show ?case by (simp add: lit_def)
next
  case (2 t name v)
  show ?case
  proof (cases "NEWLINE \<in> set v")
    case True
    have nl: "NEWLINE \<notin> set (tabs t @ name @ lit '' = '' @ QUOTES)"
      using name_ok(2) [OF "2.prems"(1)] by (auto simp: tabs_def lit_def)
    have p: "parseConfigObject end_tag (tabs t @ name @ lit '' = '' @ QUOTES) = (SPE_MULTILINE, name, QUOTES)"
      using parse_written [OF "2.prems"(1) _ "2.prems"(3), of QUOTES] by (simp add: event_of_def trimmed_def my_isspace_def)
    have "multi_ok v" using "2.prems"(2) by (intro valid_multi_ok) (simp add: value_ok_def)
    from chunk_multi [OF nl p this, of m] True show ?thesis by simp
  next
    case False
    have nl: "NEWLINE \<notin> set (tabs t @ name @ lit '' = '' @ v)"
      using name_ok(2) [OF "2.prems"(1)] False by (auto simp: tabs_def lit_def)
    have v: "trimmed v" "value_ok v" using "2.prems"(2) False by (simp_all add: value_ok_def)
    have p: "parseConfigObject end_tag (tabs t @ name @ lit '' = '' @ v) = (SPE_KVPAIR, name, v)"
      using parse_written [OF "2.prems"(1) v(1) "2.prems"(3)] event_of_line [OF v(2) False] by simp
    from chunk_line [OF nl p, of "set_entry name (Value v) m" m] False show ?thesis by simp
  qed
next
  case (4 t name e es)
  have "chunk end_tag m (printEntry t name e) (set_entry name e m)"
    using "4.prems" by (intro "4.IH"(1)) (simp_all add: settings_ok_def)
  moreover have "set_entry name e m = m @ [(name, e)]" using "4.prems"(2) by (intro set_entry_new) auto
  moreover have "chunk end_tag (m @ [(name, e)]) (write_entries t es) ((m @ [(name, e)]) @ es)"
    using "4.prems" by (intro "4.IH"(2)) (auto simp: settings_ok_def)
  ultimately show ?case using chunk_append by fastforce
qed simp

definition tag_ok :: "bytes \<Rightarrow> bool" where
  "tag_ok end_tag \<longleftrightarrow> end_tag = [] \<or> EQUALS \<notin> set end_tag \<and> NEWLINE \<notin> set end_tag \<and> trimmed end_tag \<and> hd end_tag \<noteq> HASH"

text \<open>Enough fuel gives the one result.\<close>

lemma parseConfigLines_fuel:
  assumes "parse_lines k end_tag m is = Some x"
  shows "parseConfigLines end_tag m is = Some x"
proof -
  obtain y where y: "parse_lines (istream_left is + 1) end_tag m is = Some y"
    using parse_ends [of "is" "istream_left is + 1" end_tag m] by auto
  from parse_more [OF y, of "k + istream_left is + 1"] parse_more [OF assms, of "k + istream_left is + 1"]
  have "y = x" by simp
  with y show ?thesis by (simp add: parseConfigLines_def)
qed

lemma roundtrip_run:
  assumes ok: "settings_ok es" and tag: "tag_ok end_tag"
  shows "parseConfigLines end_tag [] (writeLines t end_tag es @ r, True) =
     (if end_tag = [] then parseConfigLines end_tag es (r, True) else Some (True, es, r, True))"
proof (cases "end_tag = []")
  case True
  have c: "chunk [] [] (write_entries t es) es" using printed(2) [OF ok, of "[]" "[]" t] by simp
  obtain x where x: "parse_lines (istream_left (r, True) + 1) [] es (r, True) = Some x"
    using parse_ends [of "(r, True)" "istream_left (r, True) + 1" "[]" es] by auto
  with c obtain k where "parse_lines k [] [] (write_entries t es @ r, True) = Some x" unfolding chunk_def by blast
  from parseConfigLines_fuel [OF this] x True show ?thesis by (simp add: writeLines_def parseConfigLines_def)
next
  case False
  then have tag': "EQUALS \<notin> set end_tag" "NEWLINE \<notin> set (tabs t @ end_tag)" "trimmed end_tag" "hd end_tag \<noteq> HASH"
    using tag by (auto simp: tag_ok_def tabs_def)
  have "chunk end_tag [] (write_entries t es) es" using printed(2) [OF ok, of "[]" end_tag t] tag'(1) by simp
  from object_textI [OF this tag'(2) tag_line [OF tag'(3) False tag'(4)]]
  obtain k where "parse_lines k end_tag [] ((write_entries t es @ (tabs t @ end_tag) @ [NEWLINE]) @ r, True) =
      Some (True, es, r, True)" unfolding object_text_def by blast
  from parseConfigLines_fuel [OF this] False show ?thesis by (simp add: writeLines_def)
qed

definition sample_settings :: settings where
  "sample_settings = [([97], Value [49]), ([103], Group [([98], Value [50, 10, 51])])]"

lemma sample_settings_ok: "settings_ok sample_settings"
  by (simp add: settings_ok_def sample_settings_def value_ok_def checkNameValid_def checkValueValid_def my_isspace_def trimmed_def)

text \<open>
  C32.  Settings that were written are read back as they were, groups in groups and values of
  several lines included, if the names are such as \<open>set\<close> accepts, and the values too and no value of
  one line begins or ends with white space or is an opening brace.  An object with an end tag is read
  up to its end tag and no further; without one reading goes on with what follows.
\<close>

theorem settings_roundtrip:
  assumes "settings_ok es" and "tag_ok end_tag"
  shows "parseConfigLines end_tag [] (writeLines t end_tag es @ r, True) =
     (if end_tag = [] then parseConfigLines end_tag es (r, True) else Some (True, es, r, True))"
  using assms by (rule roundtrip_run)

theorem settings_roundtrip_witness:
  "parseConfigLines END_GROUP [] (writeLines 1 END_GROUP sample_settings @ [7], True) = Some (True, sample_settings, [7], True)"
  using settings_roundtrip [OF sample_settings_ok, of END_GROUP 1 "[7]"]
  by (simp add: tag_ok_def trimmed_def my_isspace_def)

end
