(* ===== verification/ModFiles.thy ===== *)
theory ModFiles
  imports Settings "HOL-Library.Multiset"
begin

text \<open>
  Mods in a directory (\<open>src/content/mods.cpp\<close>): what is read about a mod from its files, mods and
  modpacks in a directory, and the mods of a tree of modpacks in one list.
\<close>

section \<open>State\<close>

text \<open>
  A mod without what is in it; \<open>ModTree\<close> adds the content of a modpack.  A list of mods
  (\<open>ModSpecList\<close>) is ordered by the comparison and holds no two mods that it takes for equal.
\<close>

record ModSpec =
  is_name_explicit :: bool
  name :: bytes
  author :: bytes
  path :: bytes
  desc :: bytes
  release :: s32
  depends :: "bytes set"
  optdepends :: "bytes set"
  unsatisfied_depends :: "bytes set"
  modpack_depth :: nat
  is_modpack :: bool
  virtual_path :: bytes
  deprecation_msgs :: "bytes list"

datatype mod_tree = ModTree (spec: ModSpec) (modpack_content: "mod_tree list")

definition new_ModSpec :: "bytes \<Rightarrow> bytes \<Rightarrow> nat \<Rightarrow> bytes \<Rightarrow> ModSpec" where
  "new_ModSpec n p d v =
     \<lparr>is_name_explicit = False, name = n, author = [], path = p, desc = [], release = 0, depends = {},
      optdepends = {}, unsatisfied_depends = {}, modpack_depth = d, is_modpack = False,
      virtual_path = v, deprecation_msgs = []\<rparr>"

text \<open>What can be thrown: a setting that is missing or a group, and the errors of the mods.\<close>

datatype mod_error = SettingNotFound bytes | ModError bytes

text \<open>Files, and directories in the order of their listing.\<close>

datatype fs_node = File_node bytes | Dir_node "(bytes \<times> fs_node) list"

type_synonym dir = "(bytes \<times> fs_node) list"

definition IsFile :: "dir \<Rightarrow> bytes \<Rightarrow> bool" where
  "IsFile es n \<longleftrightarrow> (case map_of es n of Some (File_node _) \<Rightarrow> True | _ \<Rightarrow> False)"

text \<open>A directory can be opened like a file, but no byte can be read from it.\<close>

definition open_file :: "dir \<Rightarrow> bytes \<Rightarrow> bytes option" where
  "open_file es n = (case map_of es n of None \<Rightarrow> None | Some (File_node b) \<Rightarrow> Some b | Some (Dir_node _) \<Rightarrow> Some [])"

section \<open>The order of mods\<close>

text \<open>\<open>strcasecmp\<close> on the texts up to a zero byte.\<close>

fun bytes_less :: "bytes \<Rightarrow> bytes \<Rightarrow> bool" where
  "bytes_less a [] \<longleftrightarrow> False"
| "bytes_less [] (y # b) \<longleftrightarrow> True"
| "bytes_less (x # a) (y # b) \<longleftrightarrow> x < y \<or> x = y \<and> bytes_less a b"

definition c_str :: "bytes \<Rightarrow> bytes" where
  "c_str s = takeWhile (\<lambda>c. c \<noteq> 0) s"

definition caseless :: "bytes \<Rightarrow> bytes" where
  "caseless s = lowercase (c_str s)"

definition ModSpecCompare :: "ModSpec \<Rightarrow> ModSpec \<Rightarrow> bool" where
  "ModSpecCompare a b = bytes_less (caseless (name a)) (caseless (name b))"

text \<open>\<open>std::set::emplace\<close>: a mod that is equal to one in the set is not put in.\<close>

fun emplace :: "mod_tree \<Rightarrow> mod_tree list \<Rightarrow> mod_tree list" where
  "emplace t [] = [t]"
| "emplace t (u # us) =
     (if ModSpecCompare (spec t) (spec u) then t # u # us
      else if ModSpecCompare (spec u) (spec t) then u # emplace t us
      else u # us)"

section \<open>A mod from its files\<close>

definition MODNAME_ALLOWED_CHARS :: bytes where
  "MODNAME_ALLOWED_CHARS = lit ''abcdefghijklmnopqrstuvwxyz0123456789_''"

definition string_allowed :: "bytes \<Rightarrow> bytes \<Rightarrow> bool" where
  "string_allowed s allowed = list_all (\<lambda>c. c \<in> set allowed) s"

text \<open>Whether there is a name, the name, and the symbols behind it.\<close>

definition parseDependsString :: "bytes \<Rightarrow> bool \<times> bytes \<times> u8 set" where
  "parseDependsString dep =
     (let dep = trim dep;
          tail = takeWhile (\<lambda>c. \<not> string_allowed [c] MODNAME_ALLOWED_CHARS) (rev dep);
          dep = trim (take (length dep - length tail) dep) in
      (dep \<noteq> [], dep, set tail))"

definition readConfigFile :: "dir \<Rightarrow> bytes \<Rightarrow> settings" where
  "readConfigFile es filename =
     (case open_file es filename of
        None \<Rightarrow> []
      | Some b \<Rightarrow> (case parseConfigLines [] [] (b, True) of Some (_, m, _) \<Rightarrow> m | None \<Rightarrow> []))"

definition get_setting :: "settings \<Rightarrow> bytes \<Rightarrow> mod_error + bytes" where
  "get_setting m n = (case map_of m n of Some (Value v) \<Rightarrow> Inr v | _ \<Rightarrow> Inl (SettingNotFound n))"

text \<open>A setting that is there, handed to the continuation; what was before otherwise.\<close>

definition with_setting :: "settings \<Rightarrow> bytes \<Rightarrow> (bytes \<Rightarrow> ModSpec) \<Rightarrow> ModSpec \<Rightarrow> mod_error + ModSpec" where
  "with_setting m n f d =
     (if map_of m n = None then Inr d else bind_ok (get_setting m n) (\<lambda>v. Inr (f v)))"

definition load_meta :: "dir \<Rightarrow> settings \<Rightarrow> ModSpec \<Rightarrow> mod_error + ModSpec" where
  "load_meta es info s =
     bind_ok (with_setting info (lit ''name'') (\<lambda>v. s\<lparr>name := v, is_name_explicit := True\<rparr>)
       (if is_modpack s then s
        else s\<lparr>deprecation_msgs := deprecation_msgs s @
          [lit ''Mods not having a mod.conf file with the name is deprecated.'']\<rparr>)) (\<lambda>s.
     bind_ok (with_setting info (lit ''description'') (\<lambda>v. s\<lparr>desc := v\<rparr>)
       (case open_file es (lit ''description.txt'') of
          None \<Rightarrow> s
        | Some b \<Rightarrow> s\<lparr>desc := b, deprecation_msgs := deprecation_msgs s @
            [lit ''description.txt is deprecated, please use mod[pack].conf instead.'']\<rparr>)) (\<lambda>s.
     bind_ok (with_setting info (lit ''author'') (\<lambda>v. s\<lparr>author := v\<rparr>) s) (\<lambda>s.
     with_setting info (lit ''release'') (\<lambda>v. s\<lparr>release := mystoi v\<rparr>) s)))"

definition split_depends :: "bytes \<Rightarrow> bytes set" where
  "split_depends dep = set (str_split (filter (\<lambda>c. \<not> my_isspace c) dep) COMMA)"

function read_lines :: "istream \<Rightarrow> bytes list" where
  "read_lines is =
     (if \<not> snd is then []
      else let (dep, is') = getline NEWLINE [] is in dep # read_lines is')"
  by pat_completeness auto

termination
  by (relation "measure istream_left") (auto intro: getline_left [OF _ sym])

declare read_lines.simps [simp del]

text \<open>The dependencies of \<open>depends.txt\<close>: the optional ones have a question mark behind them.\<close>

fun add_depends :: "bytes list \<Rightarrow> ModSpec \<Rightarrow> ModSpec" where
  "add_depends [] s = s"
| "add_depends (dependency # ds) s =
     (let (ok, dep, symbols) = parseDependsString dependency in
      add_depends ds
        (if \<not> ok then s
         else if 63 \<in> symbols then s\<lparr>optdepends := insert dep (optdepends s)\<rparr>
         else s\<lparr>depends := insert dep (depends s)\<rparr>))"

definition load_depends :: "dir \<Rightarrow> settings \<Rightarrow> ModSpec \<Rightarrow> mod_error + ModSpec" where
  "load_depends es info s =
     bind_ok (with_setting info (lit ''depends'') (\<lambda>v. s\<lparr>depends := depends s \<union> split_depends v\<rparr>) s) (\<lambda>s.
     bind_ok (with_setting info (lit ''optional_depends'')
       (\<lambda>v. s\<lparr>optdepends := optdepends s \<union> split_depends v\<rparr>) s) (\<lambda>s.
     if map_of info (lit ''depends'') \<noteq> None \<or> map_of info (lit ''optional_depends'') \<noteq> None then Inr s
     else
       case open_file es (lit ''depends.txt'') of
         None \<Rightarrow> Inr s
       | Some b \<Rightarrow> Inr (add_depends (read_lines (b, True))
           (s\<lparr>deprecation_msgs := deprecation_msgs s @ [lit ''depends.txt is deprecated, please use mod.conf instead.'']\<rparr>))))"

text \<open>
  \<open>content\<close> is what \<open>getModsInPath\<close> gives for the directory as a modpack.  None: not a mod.
\<close>

definition parseModContents :: "dir \<Rightarrow> mod_error + mod_tree list \<Rightarrow> ModSpec \<Rightarrow> mod_error + mod_tree option" where
  "parseModContents es content s =
     (let s = s\<lparr>depends := {}, optdepends := {}, is_modpack := False\<rparr>;
          pack = IsFile es (lit ''modpack.conf'') \<or> IsFile es (lit ''modpack.txt'');
          info = if IsFile es (lit ''modpack.conf'') then readConfigFile es (lit ''modpack.conf'')
            else if pack then [] else readConfigFile es (lit ''mod.conf'') in
      if pack then
        bind_ok content (\<lambda>c. bind_ok (load_meta es info (s\<lparr>is_modpack := True\<rparr>)) (\<lambda>s. Inr (Some (ModTree s c))))
      else if \<not> IsFile es (lit ''init.lua'') then Inr None
      else bind_ok (load_meta es info s) (\<lambda>s. bind_ok (load_depends es info s) (\<lambda>s. Inr (Some (ModTree s [])))))"

section \<open>The mods of a directory\<close>

text \<open>
  The loop of \<open>getModsInPath\<close> over the listing, with the mods so far.  \<open>AbsolutePath\<close> asks the
  operating system.
\<close>

fun mods_loop ::
  "(bytes \<Rightarrow> bytes) \<Rightarrow> bytes \<Rightarrow> bytes \<Rightarrow> nat \<Rightarrow> mod_tree list \<Rightarrow> dir \<Rightarrow> mod_error + mod_tree list" where
  "mods_loop AbsolutePath p v depth result [] = Inr result"
| "mods_loop AbsolutePath p v depth result ((modname, File_node b) # ds) =
     mods_loop AbsolutePath p v depth result ds"
| "mods_loop AbsolutePath p v depth result ((modname, Dir_node es) # ds) =
     (if take 1 modname = [46] then mods_loop AbsolutePath p v depth result ds
      else
        let mod_path = AbsolutePath (p @ [47] @ modname);
            mod_virtual_path = v @ [47] @ modname in
        bind_ok (parseModContents es (mods_loop AbsolutePath mod_path mod_virtual_path (depth + 1) [] es)
            (new_ModSpec modname mod_path depth mod_virtual_path)) (\<lambda>t.
          mods_loop AbsolutePath p v depth (case t of None \<Rightarrow> result | Some t \<Rightarrow> emplace t result) ds))"

definition getModsInPath ::
  "(bytes \<Rightarrow> bytes) \<Rightarrow> dir \<Rightarrow> bytes \<Rightarrow> bytes \<Rightarrow> nat \<Rightarrow> mod_error + mod_tree list" where
  "getModsInPath AbsolutePath es p v depth = mods_loop AbsolutePath p v depth [] es"

fun flatten_recursive :: "mod_tree list \<Rightarrow> bool \<Rightarrow> ModSpec list" where
  "flatten_recursive [] discard = []"
| "flatten_recursive (ModTree s c # ts) discard =
     (if \<not> is_modpack s \<or> \<not> discard then [s] else []) @
     (if is_modpack s then flatten_recursive c discard else []) @ flatten_recursive ts discard"

text \<open>\<open>std::sort\<close> leaves open how it orders mods that compare as equal: it is an argument.\<close>

definition flattenMods :: "(ModSpec list \<Rightarrow> ModSpec list) \<Rightarrow> mod_tree list \<Rightarrow> bool \<Rightarrow> ModSpec list" where
  "flattenMods sorting ts discard =
     (let result = flatten_recursive ts discard in if discard then sorting result else result)"

definition sorts_mods :: "(ModSpec list \<Rightarrow> ModSpec list) \<Rightarrow> bool" where
  "sorts_mods sorting \<longleftrightarrow>
     (\<forall>ms. mset (sorting ms) = mset ms \<and> sorted_wrt (\<lambda>a b. \<not> ModSpecCompare b a) (sorting ms))"

section \<open>Lists of mods\<close>

lemma bytes_less_irrefl [simp]: "\<not> bytes_less a a"
  by (induction a) simp_all

lemma bytes_less_trans: "bytes_less a b \<Longrightarrow> bytes_less b c \<Longrightarrow> bytes_less a c"
proof (induction a b arbitrary: c rule: bytes_less.induct)
  case (2 y b)
  then show ?case by (cases c) simp_all
next
  case (3 x a y b)
  then show ?case by (cases c) (auto intro: less_trans)
qed simp

lemma bytes_less_linear: "a \<noteq> b \<Longrightarrow> bytes_less a b \<or> bytes_less b a"
proof (induction a b rule: bytes_less.induct)
  case (1 a)
  then show ?case by (cases a) simp_all
next
  case (3 x a y b)
  then show ?case by (cases x y rule: linorder_cases) auto
qed simp

definition ordered_mods :: "mod_tree list \<Rightarrow> bool" where
  "ordered_mods ts \<longleftrightarrow> sorted_wrt (\<lambda>t u. ModSpecCompare (spec t) (spec u)) ts"

lemma ordered_Nil [simp]: "ordered_mods []"
  by (simp add: ordered_mods_def)

lemma emplace_subset: "set (emplace t ts) \<subseteq> insert t (set ts)"
  by (induction ts) auto

lemma emplace_keeps: "set ts \<subseteq> set (emplace t ts)"
  by (induction ts) auto

lemma emplace_ordered: "ordered_mods ts \<Longrightarrow> ordered_mods (emplace t ts)"
proof (induction ts)
  case (Cons u us)
  have tr: "ModSpecCompare a c" if "ModSpecCompare a b" "ModSpecCompare b c" for a b c
    using that bytes_less_trans unfolding ModSpecCompare_def by blast
  from Cons show ?case
    using emplace_subset [of t us] by (auto simp: ordered_mods_def intro: tr)
qed (simp add: ordered_mods_def)

text \<open>A mod is put in unless one of its name, up to case, is there.\<close>

lemma emplace_in:
  "ordered_mods ts \<Longrightarrow>
   t \<in> set (emplace t ts) \<or> (\<exists>u\<in>set ts. caseless (name (spec u)) = caseless (name (spec t)))"
proof (induction ts)
  case (Cons u us)
  then show ?case
    using bytes_less_linear [of "caseless (name (spec t))" "caseless (name (spec u))"]
    by (auto simp: ordered_mods_def ModSpecCompare_def)
qed simp

lemma ordered_distinct: "ordered_mods ts \<Longrightarrow> distinct (map (\<lambda>t. caseless (name (spec t))) ts)"
  by (induction ts) (auto simp: ordered_mods_def ModSpecCompare_def)

text \<open>The name aside, what is read from the files does not touch where the mod is.\<close>

definition place :: "ModSpec \<Rightarrow> nat \<times> bool" where
  "place s = (modpack_depth s, is_modpack s)"

definition gives :: "nat \<times> bool \<Rightarrow> mod_error + ModSpec \<Rightarrow> bool" where
  "gives x r \<longleftrightarrow> (\<forall>s. r = Inr s \<longrightarrow> place s = x)"

lemma gives_Inr [simp]: "gives x (Inr s) \<longleftrightarrow> place s = x"
  by (simp add: gives_def)

lemma gives_bind: "gives x r \<Longrightarrow> (\<And>s. place s = x \<Longrightarrow> gives x (f s)) \<Longrightarrow> gives x (bind_ok r f)"
  by (auto simp: gives_def bind_ok_def split: sum.splits)

lemma gives_with: "place d = x \<Longrightarrow> (\<And>v. place (f v) = x) \<Longrightarrow> gives x (with_setting m n f d)"
  by (auto simp: gives_def with_setting_def bind_ok_def split: if_splits sum.splits)

lemma load_meta_keeps: "gives (place s) (load_meta es info s)"
  unfolding load_meta_def
  by (intro gives_bind gives_with) (auto simp: place_def split: option.splits)

lemma add_depends_keeps: "place (add_depends ds s) = place s"
  by (induction ds s rule: add_depends.induct) (auto simp: place_def Let_def split: prod.splits)

lemma load_depends_keeps: "gives (place s) (load_depends es info s)"
  unfolding load_depends_def
  by (intro gives_bind gives_with) (auto simp: add_depends_keeps [unfolded place_def] place_def split: option.splits)

lemmas place_kept =
  load_meta_keeps [unfolded gives_def, rule_format] load_depends_keeps [unfolded gives_def, rule_format]

lemma parse_keeps:
  assumes "parseModContents es content s = Inr (Some t)"
  shows "modpack_depth (spec t) = modpack_depth s \<and>
    (if is_modpack (spec t) then content = Inr (modpack_content t) else modpack_content t = [])"
  using assms unfolding parseModContents_def Let_def bind_ok_def
  by (fastforce split: sum.splits if_splits dest!: place_kept simp: place_def)

text \<open>The mods of a directory are of its depth, and the mods of its modpacks of the next.\<close>

fun depth_ok :: "nat \<Rightarrow> mod_tree list \<Rightarrow> bool" where
  "depth_ok d [] \<longleftrightarrow> True"
| "depth_ok d (ModTree s c # ts) \<longleftrightarrow> modpack_depth s = d \<and> depth_ok (d + 1) c \<and> ordered_mods c \<and> depth_ok d ts"

lemma depth_ok_Cons: "depth_ok d (t # ts) \<longleftrightarrow>
    modpack_depth (spec t) = d \<and> depth_ok (d + 1) (modpack_content t) \<and> ordered_mods (modpack_content t) \<and> depth_ok d ts"
  by (cases t) simp

lemma depth_ok_set: "depth_ok d ts \<longleftrightarrow> (\<forall>t\<in>set ts. depth_ok d [t])"
  by (induction ts) (auto simp: depth_ok_Cons)

lemma depth_ok_emplace: "depth_ok d [t] \<Longrightarrow> depth_ok d ts \<Longrightarrow> depth_ok d (emplace t ts)"
  using emplace_subset [of t ts] unfolding depth_ok_set [of d "emplace t ts"] depth_ok_set [of d ts] by auto

lemma mods_loop_ok:
  "mods_loop ap p v d result ds = Inr ts \<Longrightarrow> depth_ok d result \<Longrightarrow> ordered_mods result \<Longrightarrow>
   depth_ok d ts \<and> ordered_mods ts"
proof (induction ap p v d result ds arbitrary: ts rule: mods_loop.induct)
  case (3 ap p v depth result modname es ds)
  show ?case
  proof (cases "take 1 modname = [46]")
    case True
    with 3 show ?thesis by simp
  next
    case False
    define mp where "mp = ap (p @ [47] @ modname)"
    define mv where "mv = v @ [47] @ modname"
    define c where "c = mods_loop ap mp mv (depth + 1) [] es"
    define s where "s = new_ModSpec modname mp depth mv"
    obtain o' where o: "parseModContents es c s = Inr o'"
      and r: "mods_loop ap p v depth (case o' of None \<Rightarrow> result | Some t \<Rightarrow> emplace t result) ds = Inr ts"
      using "3.prems"(1) False
      by (auto simp: mp_def mv_def c_def s_def Let_def bind_ok_def split: sum.splits)
    have "depth_ok depth [t]" if "o' = Some t" for t
    proof (cases "is_modpack (spec t)")
      case True
      from o that have p: "parseModContents es c s = Inr (Some t)" by simp
      have "mods_loop ap mp mv (depth + 1) [] es = Inr (modpack_content t)"
        using parse_keeps [OF p] True by (simp add: c_def)
      from "3.IH"(2) [OF False mp_def mv_def this] parse_keeps [OF p] show ?thesis
        by (simp add: depth_ok_Cons s_def new_ModSpec_def)
    next
      case nm: False
      from o that have p: "parseModContents es c s = Inr (Some t)" by simp
      from parse_keeps [OF p] nm show ?thesis
        by (simp add: depth_ok_Cons s_def new_ModSpec_def)
    qed
    then have "depth_ok depth (case o' of None \<Rightarrow> result | Some t \<Rightarrow> emplace t result)"
      and "ordered_mods (case o' of None \<Rightarrow> result | Some t \<Rightarrow> emplace t result)"
      using "3.prems"(2,3) by (auto split: option.splits intro: depth_ok_emplace emplace_ordered)
    with "3.IH"(3) [OF False mp_def mv_def] o r show ?thesis unfolding c_def s_def by blast
  qed
qed simp_all

lemma getModsInPath_ok:
  "getModsInPath ap es p v d = Inr ts \<Longrightarrow> depth_ok d ts \<and> ordered_mods ts"
  using mods_loop_ok [of ap p v d "[]" es ts] by (simp add: getModsInPath_def)

lemma flatten_deep: "depth_ok d ts \<Longrightarrow> m \<in> set (flatten_recursive ts discard) \<Longrightarrow> d \<le> modpack_depth m"
  by (induction ts discard arbitrary: d rule: flatten_recursive.induct) (fastforce split: if_splits)+

lemma flatten_top:
  "depth_ok 0 ts \<Longrightarrow> filter (\<lambda>m. modpack_depth m = 0) (flatten_recursive ts True) =
     filter (\<lambda>m. \<not> is_modpack m) (map spec ts)"
proof (induction ts)
  case (Cons t ts)
  obtain s c where t: "t = ModTree s c" by (cases t)
  then have "\<forall>m\<in>set (flatten_recursive c True). modpack_depth m \<noteq> 0"
    using Cons.prems flatten_deep [of 1 c] by fastforce
  with Cons t show ?case by (auto simp: filter_empty_conv)
qed simp

lemma flatten_not_modpack: "m \<in> set (flatten_recursive ts True) \<Longrightarrow> \<not> is_modpack m"
  by (induction ts True rule: flatten_recursive.induct) (auto split: if_splits)

lemma sorts_set: "sorts_mods sorting \<Longrightarrow> set (sorting ms) = set ms"
  unfolding sorts_mods_def by (metis set_mset_mset)

text \<open>No two mods outside of modpacks come out of one directory under the same name.\<close>

lemma top_names_distinct:
  assumes "getModsInPath ap es p v 0 = Inr ts" and s: "sorts_mods sorting"
  shows "distinct (map (\<lambda>m. caseless (name m)) (filter (\<lambda>m. modpack_depth m = 0) (flattenMods sorting ts True)))"
proof -
  note ok = getModsInPath_ok [OF assms(1)]
  let ?r = "flatten_recursive ts True"
  have "distinct (map (\<lambda>t. caseless (name (spec t))) ts)" using ok by (simp add: ordered_distinct)
  then have "distinct (map (\<lambda>m. caseless (name m)) (map spec ts))" by (simp add: comp_def)
  then have "distinct (map (\<lambda>m. caseless (name m)) (filter (\<lambda>m. \<not> is_modpack m) (map spec ts)))"
    by (rule distinct_map_filter)
  then have d: "distinct (map (\<lambda>m. caseless (name m)) (filter (\<lambda>m. modpack_depth m = 0) ?r))"
    using ok by (simp add: flatten_top)
  have "mset (map (\<lambda>m. caseless (name m)) (filter (\<lambda>m. modpack_depth m = 0) (sorting ?r))) =
      mset (map (\<lambda>m. caseless (name m)) (filter (\<lambda>m. modpack_depth m = 0) ?r))"
    using s by (simp add: sorts_mods_def)
  from mset_eq_imp_distinct_iff [OF this] d show ?thesis by (simp add: flattenMods_def)
qed

end
