(* ===== verification/SettingsUpdate.thy ===== *)
theory SettingsUpdate
  imports Settings
begin

text \<open>
  The update of a configuration file in place (\<open>updateConfigObject\<close> of \<open>src/settings.cpp\<close>): comments and
  lines that are up to date stay, and afterwards the file says what the settings say.
\<close>

section \<open>Updating a file\<close>

text \<open>
  \<open>updateConfigObject\<close>.  The loop keeps the names that the file has, what has been written, whether
  that differs from the file, and the last line; it also says whether it has met the end tag.
\<close>

definition wanted :: "(bytes \<Rightarrow> bool) \<Rightarrow> settings \<Rightarrow> bytes \<Rightarrow> SettingsEntry option" where
  "wanted flt m name = (case map_of m name of None \<Rightarrow> None | Some e \<Rightarrow> if flt name then Some e else None)"

definition update_finish ::
  "bytes \<Rightarrow> settings \<Rightarrow> (bytes \<Rightarrow> bool) \<Rightarrow> nat \<Rightarrow> bytes list \<times> bytes \<times> bool \<times> bool \<times> bytes \<times> istream \<Rightarrow>
   bytes \<times> bool \<times> istream" where
  "update_finish end_tag m flt tab_depth st =
     (let (present, os, was_modified, end_found, line, is) = st;
          missing = filter (\<lambda>(n, _). n \<notin> set present \<and> flt n) m in
      (os @ (if line \<noteq> [] \<and> \<not> snd is then [NEWLINE] else []) @ write_entries tab_depth missing @
         (if end_tag \<noteq> [] then end_tag @ [NEWLINE] else []),
       was_modified \<or> missing \<noteq> [] \<or> end_tag \<noteq> [] \<and> \<not> end_found, is))"

fun update_loop ::
  "nat \<Rightarrow> bytes \<Rightarrow> settings \<Rightarrow> (bytes \<Rightarrow> bool) \<Rightarrow> nat \<Rightarrow> bytes list \<Rightarrow> bytes \<Rightarrow> bool \<Rightarrow> bytes \<Rightarrow> istream \<Rightarrow>
   (bytes list \<times> bytes \<times> bool \<times> bool \<times> bytes \<times> istream) option" where
  "update_loop 0 end_tag m flt tab_depth present os was_modified line is = None"
| "update_loop (Suc n) end_tag m flt tab_depth present os was_modified line is =
     (if \<not> snd is then Some (present, os, was_modified, False, line, is)
      else
        let (line, is) = getline NEWLINE [] is;
            (event, name, v) = parseConfigObject end_tag line;
            go = update_loop n end_tag m flt tab_depth in
        if event = SPE_END then Some (present, os, was_modified, True, line, is)
        else if event = SPE_MULTILINE \<or> event = SPE_KVPAIR
        then
          let (v, is) = (if event = SPE_MULTILINE then getMultiline is else (v, is)) in
          case wanted flt m name of
            Some e \<Rightarrow>
              if e \<noteq> Value v then go (name # present) (os @ printEntry tab_depth name e) True line is
              else go (name # present) (os @ line @ [NEWLINE] @
                  (if event = SPE_MULTILINE then v @ [NEWLINE] @ QUOTES @ [NEWLINE] else [])) was_modified line is
          | None \<Rightarrow> go present os True line is
        else if event = SPE_GROUP
        then
          case wanted flt m name of
            Some (Group g) \<Rightarrow>
              (case update_loop n END_GROUP g (\<lambda>_. True) (tab_depth + 1) [] [] False [] is of
                 None \<Rightarrow> None
               | Some st \<Rightarrow>
                   let (text, modi, is) = update_finish END_GROUP g (\<lambda>_. True) (tab_depth + 1) st in
                   go (name # present) (os @ line @ [NEWLINE] @ text) (was_modified \<or> modi) line is)
          | None \<Rightarrow>
              (case update_loop n END_GROUP [] (\<lambda>_. True) (tab_depth + 1) [] [] False [] is of
                 None \<Rightarrow> None
               | Some st \<Rightarrow> go present os True line (snd (snd (update_finish END_GROUP [] (\<lambda>_. True) (tab_depth + 1) st))))
          | Some e \<Rightarrow> go (name # present) (os @ printEntry tab_depth name e) True line is
        else go present (os @ line @ (if snd is then [NEWLINE] else [])) was_modified line is)"

definition updateConfigObject ::
  "bytes \<Rightarrow> settings \<Rightarrow> (bytes \<Rightarrow> bool) \<Rightarrow> nat \<Rightarrow> istream \<Rightarrow> (bytes \<times> bool \<times> istream) option" where
  "updateConfigObject end_tag m flt tab_depth is =
     map_option (update_finish end_tag m flt tab_depth)
       (update_loop (istream_left is + 1) end_tag m flt tab_depth [] [] False [] is)"

text \<open>\<open>updateConfigFile\<close>: the new contents of the file.\<close>

definition updateConfigFile :: "bytes \<Rightarrow> settings \<Rightarrow> (bytes \<Rightarrow> bool) \<Rightarrow> bytes \<Rightarrow> bytes option" where
  "updateConfigFile end_tag m flt file =
     map_option (\<lambda>(text, was_modified, _). if was_modified then text else file)
       (updateConfigObject end_tag m flt 0 (file, True))"

section \<open>An updated file says what the settings say\<close>

text \<open>What can be seen of settings: at a path of names a value, a group, or nothing.\<close>

fun observe :: "settings \<Rightarrow> bytes list \<Rightarrow> bytes option option" where
  "observe es [] = None"
| "observe es (n # p) =
     (case map_of es n of
        None \<Rightarrow> None
      | Some (Value v) \<Rightarrow> if p = [] then Some (Some v) else None
      | Some (Group g) \<Rightarrow> if p = [] then Some None else observe g p)"

definition same_entry :: "SettingsEntry \<Rightarrow> SettingsEntry \<Rightarrow> bool" where
  "same_entry a b \<longleftrightarrow>
     (case (a, b) of (Value v, Value w) \<Rightarrow> v = w | (Group g, Group h) \<Rightarrow> observe g = observe h | _ \<Rightarrow> False)"

lemma same_entry_refl [simp]: "same_entry e e"
  by (cases e) (simp_all add: same_entry_def)

text \<open>All names of plain values, at any depth.\<close>

fun plain_names :: "settings \<Rightarrow> bytes set" where
  "plain_names [] = {}"
| "plain_names ((n, Value v) # es) = insert n (plain_names es)"
| "plain_names ((n, Group g) # es) = plain_names g \<union> plain_names es"

lemma plain_namesI:
  "map_of m n = Some (Value v) \<Longrightarrow> n \<in> plain_names m" "map_of m n = Some (Group g) \<Longrightarrow> plain_names g \<subseteq> plain_names m"
  by (induction m rule: plain_names.induct) (auto split: if_splits)

text \<open>No line of the file opens a group under one of the names.\<close>

definition clash_free :: "bytes set \<Rightarrow> bytes \<Rightarrow> bool" where
  "clash_free N s \<longleftrightarrow> (\<forall>a b name v. s = a @ b \<longrightarrow> a = [] \<or> last a = NEWLINE \<longrightarrow>
     parseConfigObject [] (takeWhile (\<lambda>c. c \<noteq> NEWLINE) b) = (SPE_GROUP, name, v) \<longrightarrow> name \<notin> N)"

lemma clash_free_mono: "clash_free N s \<Longrightarrow> M \<subseteq> N \<Longrightarrow> clash_free M s"
  unfolding clash_free_def by blast

lemma clash_free_Nil [simp]: "clash_free N []"
  by (auto simp: clash_free_def parseConfigObject_def trim_def)

lemma parse_group_tag:
  "parseConfigObject end_tag line = (SPE_GROUP, name, v) \<Longrightarrow> EQUALS \<notin> set end_tag \<Longrightarrow>
   parseConfigObject [] line = (SPE_GROUP, name, v)"
  by (auto simp: parseConfigObject_def Let_def split: if_splits)

lemma clash_free_getline:
  assumes cf: "clash_free N (fst is)" and good: "snd is" and g: "getline NEWLINE [] is = (line, is')"
  shows "clash_free N (fst is')" and "NEWLINE \<notin> set line"
    and "EQUALS \<notin> set end_tag \<Longrightarrow> parseConfigObject end_tag line = (SPE_GROUP, name, v) \<Longrightarrow> name \<notin> N"
proof -
  let ?line = "takeWhile (\<lambda>c. c \<noteq> NEWLINE) (fst is)"
  have line: "line = ?line" using g good by (simp add: getline_def)
  show "NEWLINE \<notin> set line" by (auto simp: line dest: set_takeWhileD)
  show "name \<notin> N" if "EQUALS \<notin> set end_tag" "parseConfigObject end_tag line = (SPE_GROUP, name, v)"
    using cf parse_group_tag [OF that(2,1)] line unfolding clash_free_def by (metis append_Nil)
  show "clash_free N (fst is')"
  proof (cases "dropWhile (\<lambda>c. c \<noteq> NEWLINE) (fst is)")
    case Nil
    with g good show ?thesis by (auto simp: getline_def)
  next
    case (Cons c r)
    then have c: "c = NEWLINE" using dropWhile_hd [of "\<lambda>c. c \<noteq> NEWLINE" "fst is"] by simp
    have s: "fst is = (?line @ [NEWLINE]) @ r" using Cons c by (metis append_Cons append_Nil append_assoc takeWhile_dropWhile_id)
    have is': "fst is' = r" using g good Cons by (auto simp: getline_def)
    show ?thesis
      unfolding clash_free_def is'
    proof (intro allI impI)
      fix a b name v assume r: "r = a @ b" "a = [] \<or> last a = NEWLINE"
        and p: "parseConfigObject [] (takeWhile (\<lambda>c. c \<noteq> NEWLINE) b) = (SPE_GROUP, name, v)"
      have "fst is = (?line @ NEWLINE # a) @ b" using s r(1) by simp
      moreover have "last (?line @ NEWLINE # a) = NEWLINE" using r(2) by auto
      ultimately show "name \<notin> N" using cf p unfolding clash_free_def by blast
    qed
  qed
qed

lemma clash_free_multi:
  "multiline_loop acc is = (x, is') \<Longrightarrow> clash_free N (fst is) \<Longrightarrow> clash_free N (fst is')"
proof (induction acc "is" rule: multiline_loop.induct)
  case (1 acc "is")
  obtain line is1 where g: "getline NEWLINE [] is = (line, is1)" by (cases "getline NEWLINE [] is")
  show ?case
  proof (cases "snd is")
    case True
    note cf = clash_free_getline(1) [OF "1.prems"(2) True g]
    show ?thesis
    proof (cases "line = QUOTES")
      case False
      then have "multiline_loop (acc @ line @ [NEWLINE]) is1 = (x, is')"
        using "1.prems" g True by (subst (asm) multiline_loop.simps) simp
      with "1.IH" [OF _ g [symmetric] refl] True False cf show ?thesis by simp
    next
      case q: True
      with "1.prems"(1) g True have "is' = is1" by (subst (asm) multiline_loop.simps) simp
      with cf show ?thesis by simp
    qed
  next
    case False
    with "1.prems" show ?thesis by (subst (asm) multiline_loop.simps) simp
  qed
qed

lemma clash_free_getMultiline: "getMultiline is = (v, is') \<Longrightarrow> clash_free N (fst is) \<Longrightarrow> clash_free N (fst is')"
  by (auto simp: getMultiline_def split: prod.splits dest: clash_free_multi)

lemma map_of_set_entry [simp]: "map_of (set_entry n e m) = (map_of m)(n \<mapsto> e)"
  by (induction n e m rule: set_entry.induct) (auto simp: fun_eq_iff)

lemma map_of_filter_names: "map_of (filter (\<lambda>(n, _). P n) m) n = (if P n then map_of m n else None)"
  by (induction m) auto

definition agree :: "(bytes \<Rightarrow> SettingsEntry option) \<Rightarrow> settings \<Rightarrow> bool" where
  "agree w acc \<longleftrightarrow> (\<forall>name. rel_option same_entry (map_of acc name) (w name))"

abbreviation so_far :: "(bytes \<Rightarrow> bool) \<Rightarrow> settings \<Rightarrow> bytes list \<Rightarrow> bytes \<Rightarrow> SettingsEntry option" where
  "so_far flt m present \<equiv> \<lambda>name. if name \<in> set present then wanted flt m name else None"

lemma agree_step:
  "agree (so_far flt m present) acc \<Longrightarrow> wanted flt m name = Some e \<Longrightarrow> same_entry e' e \<Longrightarrow>
   agree (so_far flt m (name # present)) (set_entry name e' acc)"
  unfolding agree_def by (smt (verit) fun_upd_apply insert_iff list.set(2) map_of_set_entry option.rel_intros(2))

lemma agree_group: "agree (wanted (\<lambda>_. True) g) acc \<Longrightarrow> same_entry (Group acc) (Group g)"
proof -
  assume a: "agree (wanted (\<lambda>_. True) g) acc"
  have "observe acc p = observe g p" for p
  proof (cases p)
    case (Cons n q)
    have "rel_option same_entry (map_of acc n) (map_of g n)"
      using a [unfolded agree_def, rule_format, of n] by (cases "map_of g n") (simp_all add: wanted_def)
    then show ?thesis
    proof (cases rule: option.rel_cases)
      case (Some a b)
      then show ?thesis by (cases a; cases b) (simp_all add: Cons same_entry_def)
    qed (simp add: Cons)
  qed simp
  then show ?thesis by (simp add: same_entry_def fun_eq_iff)
qed

lemma finish_stream [simp]:
  "snd (snd (update_finish end_tag m flt t (present, os, modi, found, line, is))) = is"
  by (simp add: update_finish_def Let_def)

text \<open>What reading lines keeps, the update keeps.\<close>

lemma update_stream:
  assumes line: "\<And>is line is'. Q is \<Longrightarrow> snd is \<Longrightarrow> getline NEWLINE [] is = (line, is') \<Longrightarrow> Q is'"
    and multi: "\<And>is v is'. Q is \<Longrightarrow> getMultiline is = (v, is') \<Longrightarrow> Q is'"
  shows "update_loop n end_tag m flt t present os modi l0 is = Some (pr, o2, mo, fo, l2, is2) \<Longrightarrow> Q is \<Longrightarrow> Q is2"
proof (induction n arbitrary: end_tag m flt t present os modi l0 "is" pr o2 mo fo l2 is2)
  case (Suc n)
  obtain line is1 event name v where l: "getline NEWLINE [] is = (line, is1)"
    "parseConfigObject end_tag line = (event, name, v)" by (rule line_parsed)
  show ?case
  proof (cases "snd is")
    case True
    have Q1: "Q is1" using assms(1) [OF Suc.prems(2) True l(1)] .
    consider (tag) "event = SPE_END" | (kv) "event = SPE_KVPAIR" | (multi) "event = SPE_MULTILINE" | (grp) "event = SPE_GROUP"
      | (other) "event \<in> {SPE_NONE, SPE_INVALID, SPE_COMMENT}" by (cases event) simp_all
    then show ?thesis
    proof cases
      case tag
      with Suc.prems(1) l True Q1 show ?thesis by simp
    next
      case kv
      with Suc.prems(1) l True obtain pr1 os1 mo1
        where "update_loop n end_tag m flt t pr1 os1 mo1 line is1 = Some (pr, o2, mo, fo, l2, is2)"
        by (auto simp: Let_def split: option.splits if_splits)
      from Suc.IH [OF this Q1] show ?thesis .
    next
      case multi
      obtain w is3 where w: "getMultiline is1 = (w, is3)" by (metis prod.exhaust)
      with multi Suc.prems(1) l True obtain pr1 os1 mo1
        where "update_loop n end_tag m flt t pr1 os1 mo1 line is3 = Some (pr, o2, mo, fo, l2, is2)"
        by (auto simp: Let_def split: option.splits if_splits)
      from Suc.IH [OF this assms(2) [OF Q1 w]] show ?thesis .
    next
      case grp
      have "\<exists>pr1 os1 mo1 is3. Q is3 \<and> update_loop n end_tag m flt t pr1 os1 mo1 line is3 = Some (pr, o2, mo, fo, l2, is2)"
      proof (cases "wanted flt m name")
        case None
        then obtain st where st: "update_loop n END_GROUP [] (\<lambda>_. True) (t + 1) [] [] False [] is1 = Some st"
          using grp Suc.prems(1) l True by (auto split: option.splits)
        obtain a b c d e f where ab: "st = (a, b, c, d, e, f)" by (metis prod.exhaust)
        from Suc.IH [OF st [unfolded ab] Q1] have "Q f" .
        with None grp Suc.prems(1) l True st ab show ?thesis by (auto simp del: split_paired_Ex)
      next
        case (Some e)
        show ?thesis
        proof (cases e)
          case (Value x)
          with Some grp Suc.prems(1) l True Q1 show ?thesis by (auto simp del: split_paired_Ex)
        next
          case (Group g)
          then obtain st where st: "update_loop n END_GROUP g (\<lambda>_. True) (t + 1) [] [] False [] is1 = Some st"
            using Some grp Suc.prems(1) l True by (auto split: option.splits)
          obtain a b c d e f where ab: "st = (a, b, c, d, e, f)" by (metis prod.exhaust)
          from Suc.IH [OF st [unfolded ab] Q1] have "Q f" .
          obtain x y z where fin: "update_finish END_GROUP g (\<lambda>_. True) (t + 1) st = (x, y, z)" by (metis prod.exhaust)
          then have "z = f" using ab finish_stream by (metis snd_conv)
          with \<open>Q f\<close> Some Group grp Suc.prems(1) l True st fin show ?thesis by (auto simp del: split_paired_Ex)
        qed
      qed
      with Suc.IH show ?thesis by blast
    next
      case other
      with Suc.prems(1) l True obtain pr1 os1 mo1
        where "update_loop n end_tag m flt t pr1 os1 mo1 line is1 = Some (pr, o2, mo, fo, l2, is2)"
        by (auto simp: Let_def)
      from Suc.IH [OF this Q1] show ?thesis .
    qed
  qed (use Suc.prems in simp)
qed simp

lemma update_left:
  "update_loop n end_tag m flt t present os modi l0 is = Some (pr, o2, mo, fo, l2, is2) \<Longrightarrow> istream_left is2 \<le> istream_left is"
  by (rule update_stream [where Q = "\<lambda>i. istream_left i \<le> istream_left is"])
    (auto dest: getline_left getMultiline_left)

lemma update_clash_free:
  "update_loop n end_tag m flt t present os modi l0 is = Some (pr, o2, mo, fo, l2, is2) \<Longrightarrow>
   clash_free N (fst is) \<Longrightarrow> clash_free N (fst is2)"
  by (rule update_stream [where Q = "\<lambda>i. clash_free N (fst i)"])
    (auto intro: clash_free_getline(1) clash_free_getMultiline)

lemma update_ends: "istream_left is < n \<Longrightarrow> \<exists>st. update_loop n end_tag m flt t present os modi l0 is = Some st"
proof (induction n arbitrary: end_tag m flt t present os modi l0 "is")
  case (Suc k)
  obtain line is1 event name v where l: "getline NEWLINE [] is = (line, is1)"
    "parseConfigObject end_tag line = (event, name, v)" by (rule line_parsed)
  show ?case
  proof (cases "snd is")
    case True
    have less: "istream_left is1 < k" using getline_left [OF True l(1)] Suc.prems by simp
    have IH: "\<exists>st. update_loop k tag m flt t pr os mo l0 is' = Some st" if "istream_left is' \<le> istream_left is1" for tag m flt t pr os mo l0 is'
      using that less by (intro Suc.IH) simp
    show ?thesis
    proof (cases "event = SPE_GROUP")
      case group: True
      have sub: "\<exists>st. update_loop k END_GROUP g (\<lambda>_. True) (t + 1) [] [] False [] is1 = Some st \<and>
          istream_left (snd (snd (update_finish END_GROUP g (\<lambda>_. True) (t + 1) st))) \<le> istream_left is1" for g
      proof -
        obtain st where st: "update_loop k END_GROUP g (\<lambda>_. True) (t + 1) [] [] False [] is1 = Some st"
          using IH [OF order_refl] by blast
        obtain a b c d e f where ab: "st = (a, b, c, d, e, f)" by (metis prod.exhaust)
        from update_left [OF st [unfolded ab]] st show ?thesis by (simp add: ab)
      qed
      show ?thesis
      proof (cases "wanted flt m name")
        case None
        from sub [of "[]"] None True l group IH show ?thesis by auto
      next
        case (Some e)
        show ?thesis
        proof (cases e)
          case (Value x)
          with Some True l group IH [OF order_refl] show ?thesis by simp
        next
          case (Group g)
          obtain st where st: "update_loop k END_GROUP g (\<lambda>_. True) (t + 1) [] [] False [] is1 = Some st"
            and less: "istream_left (snd (snd (update_finish END_GROUP g (\<lambda>_. True) (t + 1) st))) \<le> istream_left is1"
            using sub [of g] by blast
          obtain x y z where fin: "update_finish END_GROUP g (\<lambda>_. True) (t + 1) st = (x, y, z)" by (metis prod.exhaust)
          with less have "istream_left z \<le> istream_left is1" by simp
          from IH [OF this] Some Group True l group st fin show ?thesis by simp
        qed
      qed
    next
      case False
      obtain w is2 where w: "getMultiline is1 = (w, is2)" by (metis prod.exhaust)
      note i = IH [OF order_refl] IH [OF getMultiline_left [OF w]]
      show ?thesis
        using False i l True w by (cases event; cases "wanted flt m name") (auto simp: Let_def simp del: split_paired_Ex)
    qed
  qed auto
qed simp

text \<open>
  What is appended to the output from some point on takes settings that agree with the names seen
  so far to settings that agree with all.
\<close>

definition reads_rest :: "bytes \<Rightarrow> settings \<Rightarrow> (bytes \<Rightarrow> bool) \<Rightarrow> settings \<Rightarrow> bytes \<Rightarrow> bool" where
  "reads_rest end_tag m flt acc d \<longleftrightarrow> (\<exists>body acc'. d = body @ (if end_tag \<noteq> [] then end_tag @ [NEWLINE] else []) \<and>
     chunk end_tag acc body acc' \<and> agree (wanted flt m) acc')"

lemma reads_rest_step: "chunk end_tag acc c acc' \<Longrightarrow> reads_rest end_tag m flt acc' d \<Longrightarrow> reads_rest end_tag m flt acc (c @ d)"
  unfolding reads_rest_def by (elim exE conjE) (intro exI conjI, simp, auto intro: chunk_append)

lemma chunk_blank: "chunk end_tag acc [NEWLINE] acc"
  using chunk_line [of "[]" end_tag SPE_NONE "[]" "[]" acc acc]
  by (simp add: parseConfigObject_def trim_def)

lemma settings_ok_filter: "settings_ok m \<Longrightarrow> settings_ok (filter P m)"
  by (auto simp: settings_ok_def intro: distinct_map_filter)

lemma finish_reads:
  assumes ok: "settings_ok m" and tag: "EQUALS \<notin> set end_tag"
    and ag: "agree (so_far flt m present) acc"
  shows "\<exists>d. fst (update_finish end_tag m flt t (present, os, modi, found, line, is)) =
      os @ (if line \<noteq> [] \<and> \<not> snd is then [NEWLINE] else []) @ d \<and> reads_rest end_tag m flt acc d"
proof -
  define missing where "missing = filter (\<lambda>(n, _). n \<notin> set present \<and> flt n) m"
  have m: "map_of missing n = (if n \<notin> set present \<and> flt n then map_of m n else None)" for n
    unfolding missing_def by (rule map_of_filter_names)
  have acc: "map_of acc n = None" if "n \<notin> set present" for n
    using ag [unfolded agree_def, rule_format, of n] that by simp
  have "fst ` set missing \<inter> fst ` set acc = {}"
    using acc by (auto simp: missing_def) (metis map_of_eq_None_iff image_eqI fst_conv)
  then have c: "chunk end_tag acc (write_entries t missing) (acc @ missing)"
    using printed(2) [OF settings_ok_filter [OF ok] _ tag] unfolding missing_def by blast
  have "rel_option same_entry (map_of (acc @ missing) n) (wanted flt m n)" for n
  proof (cases "n \<in> set present")
    case True
    with ag [unfolded agree_def, rule_format, of n] m [of n] show ?thesis
      by (auto simp: map_add_def split: option.splits)
  next
    case False
    with acc [OF False] m [of n] show ?thesis
      by (auto simp: map_add_def wanted_def option.rel_refl split: option.splits)
  qed
  then have "agree (wanted flt m) (acc @ missing)" by (simp add: agree_def)
  with c have "reads_rest end_tag m flt acc (write_entries t missing @ (if end_tag \<noteq> [] then end_tag @ [NEWLINE] else []))"
    unfolding reads_rest_def by blast
  then show ?thesis by (auto simp: update_finish_def missing_def Let_def)
qed

lemma reads_rest_object:
  assumes r: "reads_rest END_GROUP g (\<lambda>_. True) [] d"
  shows "\<exists>acc. object_text END_GROUP d acc \<and> same_entry (Group acc) (Group g)"
proof -
  obtain body acc where d: "d = body @ END_GROUP @ [NEWLINE]" and c: "chunk END_GROUP [] body acc"
    and a: "agree (wanted (\<lambda>_. True) g) acc" using r by (auto simp: reads_rest_def)
  have "parseConfigObject END_GROUP END_GROUP = (SPE_END, [], [])"
    using tag_line [of END_GROUP 0] by (simp add: tabs_def trimmed_def my_isspace_def)
  then have "object_text END_GROUP (body @ END_GROUP @ [NEWLINE]) acc" using c by (intro object_textI) simp_all
  with agree_group [OF a] d show ?thesis by blast
qed

lemma wanted_ok:
  assumes "settings_ok m" and "wanted flt m name = Some e"
  shows "checkNameValid name" and "entry_ok e" and "map_of m name = Some e"
proof -
  show e: "map_of m name = Some e" using assms(2) by (auto simp: wanted_def split: option.splits if_splits)
  with assms(1) show "checkNameValid name" and "entry_ok e" by (auto simp: settings_ok_def dest!: map_of_SomeD)
qed

lemma update_reads:
  assumes "settings_ok m" and "EQUALS \<notin> set end_tag" and "clash_free (plain_names m) (fst is)"
    and "agree (so_far flt m present) acc" and "update_loop n end_tag m flt t present os modi l0 is = Some st"
    and "snd is \<or> l0 = []"
  shows "\<exists>d. fst (update_finish end_tag m flt t st) = os @ d \<and> reads_rest end_tag m flt acc d"
  using assms
proof (induction n arbitrary: end_tag m flt t present os modi l0 "is" acc st)
  case (Suc n)
  obtain line is1 event name v where l: "getline NEWLINE [] is = (line, is1)"
    "parseConfigObject end_tag line = (event, name, v)" by (rule line_parsed)
  note ok = Suc.prems(1) and tag = Suc.prems(2) and ag = Suc.prems(4)
  show ?case
  proof (cases "snd is")
    case False
    then have "st = (present, os, modi, False, l0, is)" "l0 = []" using Suc.prems(5,6) by simp_all
    with finish_reads [OF ok tag ag, of t os modi False "[]" "is"] show ?thesis by simp
  next
    case True
    note cf = clash_free_getline [OF Suc.prems(3) True l(1)]
    have goon: "\<exists>d. fst (update_finish end_tag m flt t st) = os @ d \<and> reads_rest end_tag m flt acc d"
      if run: "update_loop n end_tag m flt t pr (os @ c) mo line is' = Some st" and c: "chunk end_tag acc c acc'"
        and ag': "agree (so_far flt m pr) acc'" and cf': "clash_free (plain_names m) (fst is')" for pr c mo is' acc'
    proof (cases "snd is'")
      case True
      from Suc.IH [OF ok tag cf' ag' run] True
      obtain d where "fst (update_finish end_tag m flt t st) = (os @ c) @ d" "reads_rest end_tag m flt acc' d" by blast
      with reads_rest_step [OF c] show ?thesis by auto
    next
      case False
      then have "st = (pr, os @ c, mo, False, line, is')" using run by (cases n) simp_all
      with finish_reads [OF ok tag ag', of t "os @ c" mo False line is'] False
      obtain d where d: "fst (update_finish end_tag m flt t st) = (os @ c) @ (if line \<noteq> [] then [NEWLINE] else []) @ d"
        and r: "reads_rest end_tag m flt acc' d" by auto
      have "reads_rest end_tag m flt acc' ((if line \<noteq> [] then [NEWLINE] else []) @ d)"
        using reads_rest_step [OF chunk_blank r] r by simp
      with reads_rest_step [OF c] d show ?thesis by (metis append_assoc)
    qed
    consider (tag) "event = SPE_END" | (kv) "event = SPE_KVPAIR" | (multi) "event = SPE_MULTILINE" | (grp) "event = SPE_GROUP"
      | (other) "event \<in> {SPE_NONE, SPE_INVALID, SPE_COMMENT}" by (cases event) simp_all
    then show ?thesis
    proof cases
      case tag
      then have "st = (present, os, modi, True, line, is1)" using Suc.prems(5) l True by simp
      with finish_reads [OF ok Suc.prems(2) ag, of t os modi True line is1]
      obtain d where d: "fst (update_finish end_tag m flt t st) = os @ (if line \<noteq> [] \<and> \<not> snd is1 then [NEWLINE] else []) @ d"
        and r: "reads_rest end_tag m flt acc d" by auto
      have "reads_rest end_tag m flt acc ((if line \<noteq> [] \<and> \<not> snd is1 then [NEWLINE] else []) @ d)"
        using reads_rest_step [OF chunk_blank r] r by simp
      with d show ?thesis by blast
    next
      case kv
      show ?thesis
      proof (cases "wanted flt m name")
        case None
        with kv Suc.prems(5) l True goon [of present "[]" True is1 acc] ag cf(1) show ?thesis by simp
      next
        case (Some e)
        note w = wanted_ok [OF ok Some]
        show ?thesis
        proof (cases "e = Value v")
          case True
          have "chunk end_tag acc (line @ [NEWLINE]) (set_entry name (Value v) acc)"
            using kv l(2) by (intro chunk_line [OF cf(2) l(2)]) simp
          from goon [OF _ this agree_step [OF ag Some] cf(1), of modi] True kv Some Suc.prems(5) l \<open>snd is\<close>
          show ?thesis by simp
        next
          case False
          from goon [OF _ printed(1) [OF w(1,2) tag, of acc t] agree_step [OF ag Some same_entry_refl] cf(1), of True] False kv Some Suc.prems(5) l True
          show ?thesis by simp
        qed
      qed
    next
      case multi
      obtain x is2 where x: "getMultiline is1 = (x, is2)" by (metis prod.exhaust)
      note cf2 = clash_free_getMultiline [OF x cf(1)]
      show ?thesis
      proof (cases "wanted flt m name")
        case None
        with multi Suc.prems(5) l True goon [of present "[]" True is2 acc] ag cf2 x show ?thesis by simp
      next
        case (Some e)
        note w = wanted_ok [OF ok Some]
        show ?thesis
        proof (cases "e = Value x")
          case True
          have "chunk end_tag acc (line @ [NEWLINE] @ x @ [NEWLINE] @ QUOTES @ [NEWLINE]) (set_entry name (Value x) acc)"
            using multi l(2) by (intro chunk_multi [OF cf(2) _ getMultiline_ok [OF x]]) simp
          from goon [OF _ this agree_step [OF ag Some] cf2, of modi] True multi Some Suc.prems(5) l x \<open>snd is\<close>
          show ?thesis by simp
        next
          case False
          from goon [OF _ printed(1) [OF w(1,2) tag, of acc t] agree_step [OF ag Some same_entry_refl] cf2, of True] False multi Some Suc.prems(5) l x True
          show ?thesis by simp
        qed
      qed
    next
      case grp
      note noplain = cf(3) [OF tag l(2) [unfolded grp]]
      show ?thesis
      proof (cases "wanted flt m name")
        case None
        obtain s where s: "update_loop n END_GROUP [] (\<lambda>_. True) (t + 1) [] [] False [] is1 = Some s"
          using None grp Suc.prems(5) l True by (auto split: option.splits)
        obtain a b c d e f where ab: "s = (a, b, c, d, e, f)" by (metis prod.exhaust)
        from update_clash_free [OF s [unfolded ab] cf(1)] None grp Suc.prems(5) l True s ab
          goon [of present "[]" True f acc] ag show ?thesis by simp
      next
        case (Some e)
        note w = wanted_ok [OF ok Some]
        show ?thesis
        proof (cases e)
          case (Value x)
          with w(3) plain_namesI(1) noplain show ?thesis by blast
        next
          case (Group g)
          obtain s where s: "update_loop n END_GROUP g (\<lambda>_. True) (t + 1) [] [] False [] is1 = Some s"
            using Some Group grp Suc.prems(5) l True by (auto split: option.splits)
          obtain x y z where fin: "update_finish END_GROUP g (\<lambda>_. True) (t + 1) s = (x, y, z)" by (metis prod.exhaust)
          obtain a b c d ee f where ab: "s = (a, b, c, d, ee, f)" by (metis prod.exhaust)
          then have z: "z = f" using fin finish_stream by (metis snd_conv)
          have g: "settings_ok g" "plain_names g \<subseteq> plain_names m" using w(2,3) Group plain_namesI(2) by auto
          have "agree (so_far (\<lambda>_. True) g []) []" by (simp add: agree_def)
          from Suc.IH [OF g(1) _ clash_free_mono [OF cf(1) g(2)] this s] fin
          have "reads_rest END_GROUP g (\<lambda>_. True) [] x" by auto
          then obtain acc2 where o: "object_text END_GROUP x acc2" and same: "same_entry (Group acc2) (Group g)"
            using reads_rest_object by blast
          have "chunk end_tag acc (line @ [NEWLINE] @ x) (set_entry name (Group acc2) acc)"
            by (rule chunk_group [OF cf(2) l(2) [unfolded grp] o])
          from goon [OF _ this agree_step [OF ag Some same [folded Group]], of "modi \<or> y" f]
            update_clash_free [OF s [unfolded ab] cf(1)] Some Group grp Suc.prems(5) l True s fin z
          show ?thesis by simp
        qed
      qed
    next
      case other
      have c: "chunk end_tag acc (line @ [NEWLINE]) acc" using other by (intro chunk_line [OF cf(2) l(2)]) simp
      have run: "update_loop n end_tag m flt t present (os @ line @ (if snd is1 then [NEWLINE] else [])) modi line is1 = Some st"
        using other Suc.prems(5) l True by auto
      show ?thesis
      proof (cases "snd is1")
        case True
        with goon [OF _ c ag cf(1), of modi] run show ?thesis by simp
      next
        case False
        then have "st = (present, os @ line, modi, False, line, is1)" using run by (cases n) simp_all
        with finish_reads [OF ok Suc.prems(2) ag, of t "os @ line" modi False line is1] False
        obtain d where d: "fst (update_finish end_tag m flt t st) = os @ line @ (if line \<noteq> [] then [NEWLINE] else []) @ d"
          and r: "reads_rest end_tag m flt acc d" by auto
        from reads_rest_step [OF c r] d r show ?thesis by (cases "line = []") auto
      qed
    qed
  qed
qed simp

text \<open>If nothing was modified, the file said it already.\<close>

lemma update_unmodified:
  assumes "agree (so_far flt m present) acc" and "update_loop n end_tag m flt t present os modi l0 is = Some st"
    and "update_finish end_tag m flt t st = (tx, False, is')"
  shows "\<not> modi \<and> (\<exists>k acc'. parse_lines k end_tag acc is = Some (True, acc', is') \<and> agree (wanted flt m) acc')"
  using assms
proof (induction n arbitrary: end_tag m flt t present os modi l0 "is" acc st tx is')
  case (Suc n)
  have finish: "\<not> mo \<and> i = is' \<and> (end_tag = [] \<or> found) \<and> agree (wanted flt m) ac"
    if "st = (pr, o2, mo, found, l2, i)" and "agree (so_far flt m pr) ac" for pr o2 mo found l2 i ac
  proof -
    have f: "filter (\<lambda>(n, _). n \<notin> set pr \<and> flt n) m = []" "\<not> mo" "i = is'" "end_tag = [] \<or> found"
      using Suc.prems(3) that(1) by (auto simp: update_finish_def Let_def)
    have "so_far flt m pr name = wanted flt m name" for name
      using map_of_filter_names [of "\<lambda>n. n \<notin> set pr \<and> flt n" m name] unfolding f(1)
      by (auto simp: wanted_def split: option.splits if_splits)
    with that(2) f show ?thesis by (simp add: agree_def)
  qed
  obtain line is1 event name v where l: "getline NEWLINE [] is = (line, is1)"
    "parseConfigObject end_tag line = (event, name, v)" by (rule line_parsed)
  note ag = Suc.prems(1)
  have skip: "update_loop n end_tag m flt t present o1 True l1 i \<noteq> Some st" for o1 l1 i
    using Suc.IH [OF ag _ Suc.prems(3)] by blast
  show ?case
  proof (cases "snd is")
    case False
    then have "st = (present, os, modi, False, l0, is)" using Suc.prems(2) by simp
    note f = finish [OF this ag]
    then have "parse_lines (Suc 0) end_tag acc is = Some (True, acc, is')" using False by simp
    with f show ?thesis by blast
  next
    case True
    have step: "\<exists>k acc2. parse_lines k end_tag acc is = Some (True, acc2, is') \<and> agree (wanted flt m) acc2"
      if "\<exists>k acc2. parse_lines k end_tag acc1 is2 = Some (True, acc2, is') \<and> agree (wanted flt m) acc2"
        and "\<And>k. parse_lines (Suc k) end_tag acc is = parse_lines k end_tag acc1 is2" for acc1 is2
      using that by metis
    consider (tag) "event = SPE_END" | (kv) "event = SPE_KVPAIR" | (multi) "event = SPE_MULTILINE" | (grp) "event = SPE_GROUP"
      | (other) "event \<in> {SPE_NONE, SPE_INVALID, SPE_COMMENT}" by (cases event) simp_all
    then show ?thesis
    proof cases
      case tag
      then have "st = (present, os, modi, True, line, is1)" using Suc.prems(2) l True by simp
      note f = finish [OF this ag]
      then have "parse_lines (Suc 0) end_tag acc is = Some (True, acc, is')" using l True tag by simp
      with f show ?thesis by blast
    next
      case kv
      obtain e where e: "wanted flt m name = Some e"
        using kv Suc.prems(2) l True skip by (cases "wanted flt m name") simp_all
      show ?thesis
      proof (cases "e = Value v")
        case True
        with kv Suc.prems(2) l \<open>snd is\<close> e have "update_loop n end_tag m flt t (name # present) (os @ line @ [NEWLINE]) modi line is1 = Some st" by simp
        from Suc.IH [OF agree_step [OF ag e] this Suc.prems(3), of "Value v"] True
        have r: "\<not> modi \<and> (\<exists>k acc2. parse_lines k end_tag (set_entry name (Value v) acc) is1 = Some (True, acc2, is') \<and> agree (wanted flt m) acc2)"
          by simp
        from step [OF conjunct2 [OF r]] r l kv \<open>snd is\<close> show ?thesis by simp
      next
        case False
        with kv Suc.prems(2) l True e have "update_loop n end_tag m flt t (name # present) (os @ printEntry t name e) True line is1 = Some st" by simp
        from Suc.IH [OF agree_step [OF ag e same_entry_refl] this Suc.prems(3)] show ?thesis by simp
      qed
    next
      case multi
      obtain x is2 where x: "getMultiline is1 = (x, is2)" by (metis prod.exhaust)
      obtain e where e: "wanted flt m name = Some e"
        using multi x Suc.prems(2) l True skip by (cases "wanted flt m name") simp_all
      show ?thesis
      proof (cases "e = Value x")
        case True
        with multi x Suc.prems(2) l \<open>snd is\<close> e have "update_loop n end_tag m flt t (name # present)
            (os @ line @ [NEWLINE] @ x @ [NEWLINE] @ QUOTES @ [NEWLINE]) modi line is2 = Some st" by simp
        from Suc.IH [OF agree_step [OF ag e] this Suc.prems(3), of "Value x"] True
        have r: "\<not> modi \<and> (\<exists>k acc2. parse_lines k end_tag (set_entry name (Value x) acc) is2 = Some (True, acc2, is') \<and> agree (wanted flt m) acc2)"
          by simp
        from step [OF conjunct2 [OF r]] r l multi x \<open>snd is\<close> show ?thesis by simp
      next
        case False
        with multi x Suc.prems(2) l True e have "update_loop n end_tag m flt t (name # present) (os @ printEntry t name e) True line is2 = Some st" by simp
        from Suc.IH [OF agree_step [OF ag e same_entry_refl] this Suc.prems(3)] show ?thesis by simp
      qed
    next
      case grp
      obtain e where e: "wanted flt m name = Some e"
        using grp Suc.prems(2) l True skip by (cases "wanted flt m name") (simp_all split: option.splits)
      show ?thesis
      proof (cases e)
        case (Value x)
        with grp Suc.prems(2) l True e have "update_loop n end_tag m flt t (name # present) (os @ printEntry t name e) True line is1 = Some st" by simp
        from Suc.IH [OF agree_step [OF ag e same_entry_refl] this Suc.prems(3)] show ?thesis by simp
      next
        case (Group g)
        obtain s where s: "update_loop n END_GROUP g (\<lambda>_. True) (t + 1) [] [] False [] is1 = Some s"
          using e Group grp Suc.prems(2) l True by (auto split: option.splits)
        obtain x y z where fin: "update_finish END_GROUP g (\<lambda>_. True) (t + 1) s = (x, y, z)" by (metis prod.exhaust)
        from e Group grp Suc.prems(2) l True s fin
        have run: "update_loop n end_tag m flt t (name # present) (os @ line @ [NEWLINE] @ x) (modi \<or> y) line z = Some st" by simp
        have "\<not> (modi \<or> y)" using Suc.IH [OF agree_step [OF ag e same_entry_refl] run Suc.prems(3)] by blast
        then have y: "y = False" by simp
        have "agree (so_far (\<lambda>_. True) g []) []" by (simp add: agree_def)
        from Suc.IH [OF this s fin [unfolded y]]
        obtain k acc2 where k: "parse_lines k END_GROUP [] is1 = Some (True, acc2, z)" and a: "agree (wanted (\<lambda>_. True) g) acc2" by blast
        have "same_entry (Group acc2) e" using agree_group [OF a] Group by simp
        from Suc.IH [OF agree_step [OF ag e this] run Suc.prems(3)]
        obtain k2 acc3 where k2: "parse_lines k2 end_tag (set_entry name (Group acc2) acc) z = Some (True, acc3, is')"
          and a3: "agree (wanted flt m) acc3" and mo: "\<not> modi" by blast
        have "parse_lines (Suc (k + k2)) end_tag acc is = Some (True, acc3, is')"
          using l grp True parse_more [OF k, of "k + k2"] parse_more [OF k2, of "k + k2"] by simp
        with a3 mo show ?thesis by blast
      qed
    next
      case other
      have run: "update_loop n end_tag m flt t present (os @ line @ (if snd is1 then [NEWLINE] else [])) modi line is1 = Some st"
        using other Suc.prems(2) l True by auto
      note r = Suc.IH [OF ag run Suc.prems(3)]
      from step [OF conjunct2 [OF r]] r l other True show ?thesis by auto
    qed
  qed
qed simp

lemma agree_observe:
  assumes "agree (wanted flt m) acc"
  shows "observe acc = observe (filter (\<lambda>(n, _). flt n) m)"
proof
  fix p show "observe acc p = observe (filter (\<lambda>(n, _). flt n) m) p"
  proof (cases p)
    case (Cons n q)
    have "rel_option same_entry (map_of acc n) (map_of (filter (\<lambda>(n, _). flt n) m) n)"
      using assms [unfolded agree_def, rule_format, of n]
      by (cases "map_of m n"; cases "flt n") (simp_all add: wanted_def map_of_filter_names)
    then show ?thesis
    proof (cases rule: option.rel_cases)
      case (Some a b)
      then show ?thesis by (cases a; cases b) (simp_all add: Cons same_entry_def)
    qed (simp add: Cons)
  qed simp
qed

lemma update_run:
  assumes ok: "settings_ok m" and tag: "tag_ok end_tag" and cf: "clash_free (plain_names m) file"
  shows "\<exists>text m' is'. updateConfigFile end_tag m flt file = Some text \<and>
    parseConfigLines end_tag [] (text, True) = Some (True, m', is') \<and> observe m' = observe (filter (\<lambda>(n, _). flt n) m)"
proof -
  have t: "EQUALS \<notin> set end_tag" using tag by (auto simp: tag_ok_def)
  obtain st where st: "update_loop (istream_left (file, True) + 1) end_tag m flt 0 [] [] False [] (file, True) = Some st"
    using update_ends [of "(file, True)" "istream_left (file, True) + 1"] less_add_one by blast
  obtain tx modi is' where fin: "update_finish end_tag m flt 0 st = (tx, modi, is')" by (metis prod.exhaust)
  have run: "updateConfigFile end_tag m flt file = Some (if modi then tx else file)"
    unfolding updateConfigFile_def updateConfigObject_def st by (simp add: fin)
  have start: "agree (so_far flt m []) []" by (simp add: agree_def)
  show ?thesis
  proof (cases modi)
    case False
    then have "update_finish end_tag m flt 0 st = (tx, False, is')" using fin by simp
    from update_unmodified [OF start st this]
    obtain k acc where k: "parse_lines k end_tag [] (file, True) = Some (True, acc, is')" and a: "agree (wanted flt m) acc" by blast
    from parseConfigLines_fuel [OF k] run False agree_observe [OF a] show ?thesis by auto
  next
    case True
    from update_reads [OF ok t _ start st] cf fin
    obtain body acc where d: "tx = body @ (if end_tag \<noteq> [] then end_tag @ [NEWLINE] else [])"
      and c: "chunk end_tag [] body acc" and a: "agree (wanted flt m) acc" by (auto simp: reads_rest_def)
    have "\<exists>k is2. parse_lines k end_tag [] (tx, True) = Some (True, acc, is2)"
    proof (cases "end_tag = []")
      case True
      have "parse_lines 2 [] acc ([], True) = Some (True, acc, [], False)"
        by (simp add: numeral_2_eq_2 getline_def parseConfigObject_def trim_def)
      with c True have "\<exists>k. parse_lines k end_tag [] (body @ [], True) = Some (True, acc, [], False)"
        unfolding chunk_def by blast
      with d True show ?thesis by auto
    next
      case False
      with tag have "trimmed end_tag" "hd end_tag \<noteq> HASH" "NEWLINE \<notin> set end_tag" by (simp_all add: tag_ok_def)
      moreover from this tag_line [of end_tag 0] False have "parseConfigObject end_tag end_tag = (SPE_END, [], [])"
        by (simp add: tabs_def)
      ultimately have "object_text end_tag (body @ end_tag @ [NEWLINE]) acc" using c by (intro object_textI)
      then obtain k where "parse_lines k end_tag [] ((body @ end_tag @ [NEWLINE]) @ [], True) = Some (True, acc, [], True)"
        unfolding object_text_def by blast
      with d False show ?thesis by auto
    qed
    then obtain k is2 where "parse_lines k end_tag [] (tx, True) = Some (True, acc, is2)" by blast
    from parseConfigLines_fuel [OF this] run True agree_observe [OF a] show ?thesis by auto
  qed
qed


text \<open>A check of the condition on the lines that can be computed, for the witness.\<close>

definition clash_check :: "bytes set \<Rightarrow> bytes \<Rightarrow> bool" where
  "clash_check N s \<longleftrightarrow> list_all (\<lambda>i. (i = 0 \<or> s ! (i - 1) = NEWLINE) \<longrightarrow>
     (case parseConfigObject [] (takeWhile (\<lambda>c. c \<noteq> NEWLINE) (drop i s)) of (event, name, v) \<Rightarrow>
       event \<noteq> SPE_GROUP \<or> name \<notin> N)) [0..<Suc (length s)]"

lemma clash_check: "clash_check N s \<Longrightarrow> clash_free N s"
  unfolding clash_free_def
proof (intro allI impI)
  fix a b name v assume c: "clash_check N s" and s: "s = a @ b" "a = [] \<or> last a = NEWLINE"
    and p: "parseConfigObject [] (takeWhile (\<lambda>c. c \<noteq> NEWLINE) b) = (SPE_GROUP, name, v)"
  have "length a = 0 \<or> s ! (length a - 1) = NEWLINE"
    using s by (cases "a = []") (simp_all add: nth_append last_conv_nth)
  moreover have "length a \<in> set [0..<Suc (length s)]" "drop (length a) s = b" using s(1) by simp_all
  ultimately show "name \<notin> N" using c p unfolding clash_check_def list_all_iff by fastforce
qed

text \<open>
  C33.  A configuration file none of whose lines opens a group under the name of a plain value of the
  settings says what the settings say after it has been updated, if the names and the values of the
  settings are such as can be written: reading it gives, at every path of names, the value or the group
  that the settings have there, less what the filter keeps out, and nothing else; also if the update
  leaves the file alone because it finds no difference.
\<close>

theorem updated_file_says_settings:
  assumes "settings_ok m" and "tag_ok end_tag" and "clash_free (plain_names m) file"
  shows "\<exists>text m' is'. updateConfigFile end_tag m flt file = Some text \<and>
    parseConfigLines end_tag [] (text, True) = Some (True, m', is') \<and> observe m' = observe (filter (\<lambda>(n, _). flt n) m)"
  using assms by (rule update_run)

text \<open>A file with a comment, an old value, a setting that is gone, and the group with another value.\<close>

definition sample_file :: bytes where
  "sample_file = lit ''# c'' @ [NEWLINE] @ lit ''a = 0'' @ [NEWLINE] @ lit ''x = 9'' @ [NEWLINE] @
     lit ''g = {'' @ [NEWLINE] @ lit ''b = 3'' @ [NEWLINE] @ END_GROUP"

theorem updated_file_says_settings_witness:
  "\<exists>text m' is'. updateConfigFile [] sample_settings (\<lambda>_. True) sample_file = Some text \<and>
    parseConfigLines [] [] (text, True) = Some (True, m', is') \<and> observe m' [[97]] = Some (Some [49])"
proof -
  have "clash_check (plain_names sample_settings) sample_file" by code_simp
  from updated_file_says_settings [OF sample_settings_ok _ clash_check [OF this], of "[]" "\<lambda>_. True"]
  obtain new m' is' where "updateConfigFile [] sample_settings (\<lambda>_. True) sample_file = Some new"
    "parseConfigLines [] [] (new, True) = Some (True, m', is')" and o: "observe m' = observe (filter (\<lambda>(n, _). True) sample_settings)"
    by (auto simp: tag_ok_def)
  moreover have "observe m' [[97]] = Some (Some [49])" unfolding o by (simp add: sample_settings_def)
  ultimately show ?thesis by blast
qed

text \<open>
  The conditions are needed.  \<open>set\<close> accepts an opening brace as a value, but a file with it is
  not read: all that follows is taken for a group, which has no end.  And a line that opens a group
  under the name of a plain value is replaced, but not the lines of the group: they are taken for
  settings of their own, and the closing brace stays in the file.
\<close>

lemma settings_not_kept:
  "setEntry [97] (Value BRACE) [([98], Value [49])] = (True, [([98], Value [49]), ([97], Value BRACE)]) \<and>
   parseConfigLines [] [] (writeLines 0 [] [([97], Value BRACE), ([98], Value [49])], True) = Some (False, [], [], False) \<and>
   updateConfigFile [] [([103], Value [49])] (\<lambda>_. True)
     (lit ''g = {'' @ [NEWLINE] @ lit ''b = 3'' @ [NEWLINE] @ END_GROUP @ [NEWLINE]) =
   Some (lit ''g = 1'' @ [NEWLINE] @ END_GROUP @ [NEWLINE])"
  by code_simp

end
