(* ===== verification/ModConfiguration.thy ===== *)
theory ModConfiguration
  imports ModFiles SettingsUpdate
begin

text \<open>
  The mods that are to be loaded and the order in which they are
  (\<open>src/content/mod_configuration.cpp\<close>): mods of a higher level replace those of a lower one of
  their name, conflicts on a level are kept, dependencies decide the order.
\<close>

section \<open>State\<close>

record mod_config =
  m_first_mod :: bytes
  m_last_mod :: bytes
  m_sorted_mods :: "ModSpec list"
  m_unsatisfied_mods :: "ModSpec list"
  m_name_conflicts :: "bytes set"

definition empty_config :: mod_config where
  "empty_config = \<lparr>m_first_mod = [], m_last_mod = [], m_sorted_mods = [], m_unsatisfied_mods = [],
     m_name_conflicts = {}\<rparr>"

definition isConsistent :: "mod_config \<Rightarrow> bool" where
  "isConsistent c \<longleftrightarrow> m_unsatisfied_mods c = []"

section \<open>Adding mods\<close>

text \<open>\<open>existing_mods\<close>: where the mod of a name is.\<close>

definition index_mods :: "ModSpec list \<Rightarrow> (bytes \<rightharpoonup> nat)" where
  "index_mods us = foldl (\<lambda>ex i. ex(name (us ! i) \<mapsto> i)) Map.empty [0..<length us]"

text \<open>One of the two rounds over the new mods.\<close>

fun add_pass ::
  "bool \<Rightarrow> (bytes \<rightharpoonup> nat) \<Rightarrow> bytes set \<Rightarrow> ModSpec list \<Rightarrow> mod_config \<Rightarrow> (bytes \<rightharpoonup> nat) \<times> mod_config" where
  "add_pass want_from_modpack ex seen [] c = (ex, c)"
| "add_pass want_from_modpack ex seen (m # ms) c =
     (if (modpack_depth m > 0) \<noteq> want_from_modpack then add_pass want_from_modpack ex seen ms c
      else
        case ex (name m) of
          None \<Rightarrow>
            add_pass want_from_modpack (ex(name m \<mapsto> length (m_unsatisfied_mods c))) (insert (name m) seen) ms
              (c\<lparr>m_unsatisfied_mods := m_unsatisfied_mods c @ [m]\<rparr>)
        | Some oldindex \<Rightarrow>
            add_pass want_from_modpack ex (insert (name m) seen) ms
              (c\<lparr>m_unsatisfied_mods := (m_unsatisfied_mods c)[oldindex := m],
                 m_name_conflicts := if name m \<notin> seen then m_name_conflicts c - {name m}
                   else insert (name m) (m_name_conflicts c)\<rparr>))"

definition addMods :: "ModSpec list \<Rightarrow> mod_config \<Rightarrow> mod_config" where
  "addMods new_mods c =
     (let (ex, c) = add_pass True (index_mods (m_unsatisfied_mods c)) {} new_mods c;
          (ex, c) = add_pass False ex {} new_mods c in
      c)"

text \<open>The files of the mods, and what the code leaves open: paths and the order of equal names.\<close>

definition addModsInPath ::
  "(bytes \<Rightarrow> bytes) \<Rightarrow> (ModSpec list \<Rightarrow> ModSpec list) \<Rightarrow> dir \<Rightarrow> bytes \<Rightarrow> bytes \<Rightarrow> mod_config \<Rightarrow> mod_error + mod_config"
where
  "addModsInPath AbsolutePath sorting es p v c =
     bind_ok (getModsInPath AbsolutePath es p v 0) (\<lambda>ts. Inr (addMods (flattenMods sorting ts True) c))"

definition addCrateMods ::
  "(bytes \<Rightarrow> bytes) \<Rightarrow> (ModSpec list \<Rightarrow> ModSpec list) \<Rightarrow> dir \<Rightarrow> bytes \<Rightarrow> bytes \<Rightarrow> bytes \<Rightarrow> bytes \<Rightarrow>
   mod_config \<Rightarrow> mod_error + mod_config"
where
  "addCrateMods AbsolutePath sorting es crate_id cratemods_path first_mod last_mod c =
     bind_ok (addModsInPath AbsolutePath sorting es cratemods_path (lit ''depot/'' @ crate_id @ lit ''/mods'') c) (\<lambda>c.
       Inr (c\<lparr>m_first_mod := first_mod, m_last_mod := last_mod\<rparr>))"

section \<open>The order of loading\<close>

text \<open>The names of the mods but the first and the last, and those two.\<close>

fun scan_mods ::
  "bytes \<Rightarrow> bytes \<Rightarrow> ModSpec list \<Rightarrow> bytes set \<times> ModSpec option \<times> ModSpec option \<Rightarrow>
   bytes set \<times> ModSpec option \<times> ModSpec option"
where
  "scan_mods first_mod last_mod [] r = r"
| "scan_mods first_mod last_mod (m # ms) (modnames, first_mod_spec, last_mod_spec) =
     scan_mods first_mod last_mod ms
       (if name m = first_mod then (modnames, Some m, last_mod_spec)
        else if name m = last_mod then (modnames, first_mod_spec, Some m)
        else (insert (name m) modnames, first_mod_spec, last_mod_spec))"

text \<open>The mods that wait for nothing and those that wait.\<close>

fun split_mods ::
  "bytes \<Rightarrow> bytes \<Rightarrow> bool \<Rightarrow> bytes set \<Rightarrow> ModSpec list \<Rightarrow> ModSpec list \<Rightarrow> ModSpec list \<Rightarrow>
   mod_error + ModSpec list \<times> ModSpec list"
where
  "split_mods first_mod last_mod has_last modnames [] satisfied unsatisfied = Inr (satisfied, unsatisfied)"
| "split_mods first_mod last_mod has_last modnames (m # ms) satisfied unsatisfied =
     (if name m = first_mod \<or> name m = last_mod then
        split_mods first_mod last_mod has_last modnames ms satisfied unsatisfied
      else
        let m = m\<lparr>unsatisfied_depends := depends m \<union> {d \<in> optdepends m. d \<in> modnames} - {first_mod}\<rparr> in
        if has_last \<and> last_mod \<in> unsatisfied_depends m then
          Inl (ModError (lit ''Impossible to depend on the mod specified by last_mod''))
        else if unsatisfied_depends m = {} then
          split_mods first_mod last_mod has_last modnames ms (satisfied @ [m]) unsatisfied
        else split_mods first_mod last_mod has_last modnames ms satisfied (unsatisfied @ [m]))"

text \<open>The loop over the waiting mods when \<open>n\<close> has been loaded.\<close>

fun sweep :: "bytes \<Rightarrow> ModSpec list \<Rightarrow> ModSpec list \<Rightarrow> ModSpec list \<times> ModSpec list" where
  "sweep n [] satisfied = ([], satisfied)"
| "sweep n (mod2 # ms) satisfied =
     (let mod2 = mod2\<lparr>unsatisfied_depends := unsatisfied_depends mod2 - {n}\<rparr> in
      if unsatisfied_depends mod2 = {} then sweep n ms (satisfied @ [mod2])
      else let (us, satisfied) = sweep n ms satisfied in (mod2 # us, satisfied))"

lemma sweep_length: "length (fst (sweep n ms sat)) + length (snd (sweep n ms sat)) = length ms + length sat"
  by (induction n ms sat rule: sweep.induct) (simp_all add: Let_def split_beta del: Diff_eq_empty_iff)

function resolve_loop ::
  "ModSpec list \<Rightarrow> ModSpec list \<Rightarrow> ModSpec list \<Rightarrow> ModSpec option \<Rightarrow>
   ModSpec list \<times> ModSpec list \<times> ModSpec option"
where
  "resolve_loop loaded satisfied unsatisfied last_mod_spec =
     (if satisfied = [] then (loaded, unsatisfied, last_mod_spec)
      else
        let m = last satisfied;
            (unsatisfied, satisfied) = sweep (name m) unsatisfied (butlast satisfied) in
        resolve_loop (loaded @ [m]) satisfied unsatisfied
          (map_option (\<lambda>l. l\<lparr>unsatisfied_depends := unsatisfied_depends l - {name m}\<rparr>) last_mod_spec))"
  by pat_completeness auto

termination
proof (relation "measure (\<lambda>(loaded, satisfied, unsatisfied, l). length satisfied + length unsatisfied)", goal_cases)
  case (2 loaded satisfied unsatisfied l m p us sat)
  then have "length us + length sat = length unsatisfied + length (butlast satisfied)"
    using sweep_length [of "name (last satisfied)" unsatisfied "butlast satisfied"] by (metis fst_conv snd_conv)
  with 2(1) show ?case by (cases satisfied rule: rev_cases) simp_all
qed simp

declare resolve_loop.simps [simp del]

definition resolveDependencies ::
  "bool \<Rightarrow> (ModSpec list \<Rightarrow> ModSpec list) \<Rightarrow> mod_config \<Rightarrow> mod_error + mod_config" where
  "resolveDependencies random_mod_load_order shuffle c =
     (let first_mod = m_first_mod c; last_mod = m_last_mod c;
          (modnames, first_mod_spec, last_mod_spec) =
            scan_mods first_mod last_mod (m_unsatisfied_mods c) ({}, None, None);
          ms = (if random_mod_load_order then shuffle (m_unsatisfied_mods c) else m_unsatisfied_mods c) in
      if first_mod \<noteq> [] \<and> first_mod_spec = None then
        Inl (ModError (lit ''The mod specified as first by the game was not found.''))
      else if last_mod \<noteq> [] \<and> last_mod_spec = None then
        Inl (ModError (lit ''The mod specified as last by the game was not found.''))
      else if (case first_mod_spec of None \<Rightarrow> False | Some f \<Rightarrow> depends f \<noteq> {} \<or> optdepends f \<noteq> {}) then
        Inl (ModError (lit ''Mod specified by first_mod cannot have dependencies''))
      else
        let loaded = m_sorted_mods c @ (case first_mod_spec of None \<Rightarrow> [] | Some f \<Rightarrow> [f]) in
        bind_ok (split_mods first_mod last_mod (last_mod_spec \<noteq> None) modnames ms [] []) (\<lambda>(satisfied, unsatisfied).
          let l = map_option (\<lambda>l. l\<lparr>unsatisfied_depends := depends l - {first_mod}\<rparr>) last_mod_spec;
              (loaded, unsatisfied, l) = resolve_loop loaded satisfied unsatisfied l in
          Inr (case l of
             None \<Rightarrow> c\<lparr>m_sorted_mods := loaded, m_unsatisfied_mods := unsatisfied\<rparr>
           | Some l \<Rightarrow>
               if unsatisfied_depends l = {} then c\<lparr>m_sorted_mods := loaded @ [l], m_unsatisfied_mods := unsatisfied\<rparr>
               else c\<lparr>m_sorted_mods := loaded, m_unsatisfied_mods := unsatisfied @ [l]\<rparr>)))"

text \<open>\<open>order\<close> is the order in which a hashed set is iterated over.\<close>

definition checkConflictsAndDeps ::
  "(bytes set \<Rightarrow> bytes list) \<Rightarrow> bool \<Rightarrow> (ModSpec list \<Rightarrow> ModSpec list) \<Rightarrow> mod_config \<Rightarrow> mod_error + mod_config" where
  "checkConflictsAndDeps order random_mod_load_order shuffle c =
     (if m_name_conflicts c \<noteq> {} then
        Inl (ModError (lit ''Unresolved name conflicts for mods '' @
          str_join (map (\<lambda>n. [34] @ n @ [34]) (order (m_name_conflicts c))) (lit '', '') @ lit ''.''))
      else resolveDependencies random_mod_load_order shuffle c)"

section \<open>The mods of a world\<close>

text \<open>
  \<open>content_of\<close> is the directory at a path.  The mods of all paths in the order in which the table of
  paths is iterated over.
\<close>

definition mods_at ::
  "(bytes \<Rightarrow> bytes) \<Rightarrow> (ModSpec list \<Rightarrow> ModSpec list) \<Rightarrow> (bytes \<Rightarrow> dir) \<Rightarrow> bytes \<times> bytes \<Rightarrow> mod_error + ModSpec list" where
  "mods_at AbsolutePath sorting content_of modPath =
     bind_ok (getModsInPath AbsolutePath (content_of (snd modPath)) (snd modPath) (fst modPath) 0)
       (\<lambda>ts. Inr (flattenMods sorting ts True))"

fun gather ::
  "(bytes \<times> bytes \<Rightarrow> mod_error + ModSpec list) \<Rightarrow> (bytes \<times> bytes) list \<Rightarrow> ModSpec list \<Rightarrow> mod_error + ModSpec list" where
  "gather mods_in [] addon_mods = Inr addon_mods"
| "gather mods_in (modPath # ps) addon_mods = bind_ok (mods_in modPath) (\<lambda>ms. gather mods_in ps (addon_mods @ ms))"

definition addModsFromPaths ::
  "(bytes \<times> bytes \<Rightarrow> mod_error + ModSpec list) \<Rightarrow> (bytes \<times> bytes) list \<Rightarrow> mod_config \<Rightarrow> mod_error + mod_config" where
  "addModsFromPaths mods_in modPaths c = bind_ok (gather mods_in modPaths []) (\<lambda>ms. Inr (addMods ms c))"

abbreviation LOAD_MOD :: bytes where "LOAD_MOD \<equiv> lit ''load_mod_''"

definition update_file :: "settings \<Rightarrow> bytes \<Rightarrow> bytes" where
  "update_file conf file = (case updateConfigFile [] conf (\<lambda>_. True) file of Some text \<Rightarrow> text | None \<Rightarrow> file)"

definition clearModList :: "settings \<Rightarrow> bytes \<Rightarrow> settings \<times> bytes" where
  "clearModList conf file =
     (let stale = filter (\<lambda>n. take 9 n = LOAD_MOD) (map fst conf) in
      if stale = [] then (conf, file)
      else let conf = fold (\<lambda>n m. snd (remove_setting n m)) stale conf in (conf, update_file conf file))"

text \<open>
  The mods that the settings of the world name, with what they say.  The names come in no order; which
  of several groups the exception is about depends on it, and nothing else.
\<close>

fun load_lines :: "settings \<Rightarrow> bytes list \<Rightarrow> (bytes \<rightharpoonup> bytes) \<Rightarrow> mod_error + (bytes \<rightharpoonup> bytes)" where
  "load_lines conf [] load_mod_names = Inr load_mod_names"
| "load_lines conf (n # ns) load_mod_names =
     bind_ok (get_setting conf n) (\<lambda>v.
       load_lines conf ns
         (if take 9 n = LOAD_MOD \<and> v \<noteq> lit ''false'' \<and> v \<noteq> lit ''nil'' then load_mod_names(drop 9 n \<mapsto> v)
          else load_mod_names))"

text \<open>The mods of a path that are enabled, and where else there are mods of the names.\<close>

fun pick_mods ::
  "(bytes \<rightharpoonup> bytes) \<Rightarrow> ModSpec list \<Rightarrow> ModSpec list \<times> (bytes \<Rightarrow> bytes list) \<Rightarrow> ModSpec list \<times> (bytes \<Rightarrow> bytes list)" where
  "pick_mods load_mod_names [] r = r"
| "pick_mods load_mod_names (m # ms) (addon_mods, candidates) =
     pick_mods load_mod_names ms
       (case load_mod_names (name m) of
          None \<Rightarrow> (addon_mods, candidates)
        | Some v \<Rightarrow>
            if is_yes v \<or> v = virtual_path m then (addon_mods @ [m], candidates)
            else (addon_mods, candidates(name m := candidates (name m) @ [virtual_path m])))"

fun pick_paths ::
  "(bytes \<times> bytes \<Rightarrow> mod_error + ModSpec list) \<Rightarrow> (bytes \<rightharpoonup> bytes) \<Rightarrow> (bytes \<times> bytes) list \<Rightarrow>
   ModSpec list \<times> (bytes \<Rightarrow> bytes list) \<Rightarrow> mod_error + ModSpec list \<times> (bytes \<Rightarrow> bytes list)"
where
  "pick_paths mods_in load_mod_names [] r = Inr r"
| "pick_paths mods_in load_mod_names (modPath # ps) r =
     bind_ok (mods_in modPath) (\<lambda>ms. pick_paths mods_in load_mod_names ps (pick_mods load_mod_names ms r))"

text \<open>
  The configuration afterwards and the file of the settings.  \<open>ns\<close> are the names of the settings; of
  those that name a mod that is nowhere the line is dropped.
\<close>

definition addModsFromConfig ::
  "bool \<Rightarrow> (bytes \<times> bytes \<Rightarrow> mod_error + ModSpec list) \<Rightarrow> bytes \<Rightarrow> (bytes \<times> bytes) list \<Rightarrow> mod_config \<Rightarrow>
   mod_error + mod_config \<times> bytes"
where
  "addModsFromConfig enable_all_mods mods_in file modPaths c =
     (let conf = (case parseConfigLines [] [] (file, True) of Some (_, m, _) \<Rightarrow> m | None \<Rightarrow> []);
          ns = map fst conf in
      if enable_all_mods then
        bind_ok (addModsFromPaths mods_in modPaths c) (\<lambda>c. Inr (c, snd (clearModList conf file)))
      else
        bind_ok (load_lines conf ns Map.empty) (\<lambda>load_mod_names.
        bind_ok (pick_paths mods_in load_mod_names modPaths ([], \<lambda>_. [])) (\<lambda>(addon_mods, candidates).
          let c = addMods addon_mods c;
              load_mod_names = foldl (\<lambda>l m. l(name m := None)) load_mod_names (m_unsatisfied_mods c);
              uninstalled = filter (\<lambda>n. load_mod_names n \<noteq> None \<and> candidates n = []) 
                (map (drop 9) (filter (\<lambda>n. take 9 n = LOAD_MOD) ns));
              conf = fold (\<lambda>n m. snd (remove_setting (LOAD_MOD @ n) m)) uninstalled conf in
          Inr (c, update_file conf file))))"

section \<open>Which mod has a name\<close>

abbreviation names_of :: "ModSpec list \<Rightarrow> bytes set" where
  "names_of ms \<equiv> name ` set ms"

definition mod_at :: "ModSpec list \<Rightarrow> bytes \<Rightarrow> ModSpec option" where
  "mod_at us n = find (\<lambda>m. name m = n) us"

text \<open>The index is right: so no name is there twice.\<close>

definition index_ok :: "(bytes \<rightharpoonup> nat) \<Rightarrow> ModSpec list \<Rightarrow> bool" where
  "index_ok ex us \<longleftrightarrow> (\<forall>n i. ex n = Some i \<longleftrightarrow> i < length us \<and> name (us ! i) = n)"

lemma index_okD:
  assumes "index_ok ex us"
  shows "ex n = Some i \<Longrightarrow> i < length us \<and> name (us ! i) = n" "ex n = None \<longleftrightarrow> n \<notin> names_of us"
proof -
  show "ex n = Some i \<Longrightarrow> i < length us \<and> name (us ! i) = n" using assms by (simp add: index_ok_def)
  have "n \<in> names_of us \<longleftrightarrow> (\<exists>i<length us. name (us ! i) = n)"
    unfolding set_map [symmetric] in_set_conv_nth by auto
  also have "\<dots> \<longleftrightarrow> (\<exists>i. ex n = Some i)" using assms by (auto simp: index_ok_def)
  finally show "ex n = None \<longleftrightarrow> n \<notin> names_of us" by auto
qed

lemma index_ok_distinct: "index_ok ex us \<Longrightarrow> distinct (map name us)"
  unfolding index_ok_def distinct_conv_nth by (metis length_map nth_map option.inject)

lemma index_unique:
  "index_ok ex us \<Longrightarrow> i < length us \<Longrightarrow> j < length us \<Longrightarrow> name (us ! i) = name (us ! j) \<Longrightarrow> i = j"
  unfolding index_ok_def by (metis option.inject)

lemma index_mods_Cons:
  "i < length us \<Longrightarrow> distinct (map name us) \<Longrightarrow> k \<le> length us \<Longrightarrow>
   foldl (\<lambda>ex i. ex(name (us ! i) \<mapsto> i)) Map.empty [0..<k] n = Some i \<longleftrightarrow> i < k \<and> name (us ! i) = n"
proof (induction k)
  case (Suc k)
  have "name (us ! i) = name (us ! k) \<longleftrightarrow> i = k"
    using Suc.prems nth_eq_iff_index_eq [of "map name us" i k] by simp
  with Suc show ?case by (auto simp: less_Suc_eq)
qed simp

lemma index_mods_ok:
  assumes d: "distinct (map name us)"
  shows "index_ok (index_mods us) us"
  unfolding index_ok_def
proof (intro allI)
  have bound: "foldl (\<lambda>ex i. ex(name (us ! i) \<mapsto> i)) Map.empty [0..<k] n = Some i \<Longrightarrow> i < k" for k n i
    by (induction k) (auto split: if_splits)
  fix n i
  show "index_mods us n = Some i \<longleftrightarrow> i < length us \<and> name (us ! i) = n"
    using index_mods_Cons [of i us "length us" n] d bound [of "length us" n i] unfolding index_mods_def by blast
qed

lemma mod_at_index:
  assumes "index_ok ex us"
  shows "mod_at us n = map_option ((!) us) (ex n)"
proof (cases "ex n")
  case None
  with index_okD(2) [OF assms, of n] show ?thesis by (auto simp: mod_at_def find_None_iff)
next
  case (Some i)
  note i = index_okD(1) [OF assms Some]
  then have "\<forall>j<i. name (us ! j) \<noteq> n" using index_unique [OF assms, of _ i] by (metis less_trans nat_neq_iff)
  with i Some have "find (\<lambda>m. name m = n) us = Some (us ! i)" unfolding find_Some_iff by blast
  with Some show ?thesis by (simp add: mod_at_def)
qed

lemma mod_at_None: "mod_at us n = None \<longleftrightarrow> n \<notin> names_of us"
  by (auto simp: mod_at_def find_None_iff)

lemma mod_at_append: "mod_at (us @ [m]) n = (case mod_at us n of None \<Rightarrow> if name m = n then Some m else None | Some x \<Rightarrow> Some x)"
  unfolding mod_at_def by (induction us) auto

lemma index_ok_append:
  assumes "index_ok ex us" and "ex (name m) = None"
  shows "index_ok (ex(name m \<mapsto> length us)) (us @ [m])"
proof -
  have "name (us ! i) \<noteq> name m" if "i < length us" for i
    using assms that unfolding index_ok_def by (metis option.distinct(1))
  moreover have "ex n = Some i \<longleftrightarrow> i < length us \<and> name (us ! i) = n" for n i using assms(1) by (simp add: index_ok_def)
  ultimately show ?thesis unfolding index_ok_def by (auto simp: nth_append less_Suc_eq split: if_splits)
qed

lemma index_ok_update:
  assumes "index_ok ex us" and "ex (name m) = Some i"
  shows "index_ok ex (us[i := m])"
  using assms index_okD(1) [OF assms] unfolding index_ok_def by (auto simp: nth_list_update)

lemma mod_at_update:
  assumes "index_ok ex us" and "ex (name m) = Some i"
  shows "mod_at (us[i := m]) n = (if n = name m then Some m else mod_at us n)"
proof (cases "ex n")
  case (Some j)
  with index_okD(1) [OF assms] index_okD(1) [OF assms(1) Some] assms(2) show ?thesis
    unfolding mod_at_index [OF index_ok_update [OF assms]] mod_at_index [OF assms(1)]
    by (auto simp: nth_list_update)
next
  case None
  with assms(2) show ?thesis
    unfolding mod_at_index [OF index_ok_update [OF assms]] mod_at_index [OF assms(1)] by auto
qed

text \<open>What one round does to a name, given whether a mod of the round had it before.\<close>

definition of_round :: "bool \<Rightarrow> ModSpec list \<Rightarrow> bytes \<Rightarrow> ModSpec list" where
  "of_round want new n = filter (\<lambda>m. name m = n \<and> (modpack_depth m > 0) = want) new"

definition round_result :: "bool \<Rightarrow> bytes set \<Rightarrow> ModSpec list \<Rightarrow> mod_config \<Rightarrow> mod_config \<Rightarrow> bool" where
  "round_result want seen ms c c' \<longleftrightarrow>
     (\<forall>n. let ts = of_round want ms n in
        mod_at (m_unsatisfied_mods c') n = (if ts = [] then mod_at (m_unsatisfied_mods c) n else Some (last ts)) \<and>
        (n \<in> m_name_conflicts c' \<longleftrightarrow>
           (if ts = [] then n \<in> m_name_conflicts c else n \<in> seen \<or> 2 \<le> length ts)))"

lemma round_step:
  assumes "round_result want (insert (name m) seen) ms c1 c'" and w: "(modpack_depth m > 0) = want"
    and u: "\<And>n. mod_at (m_unsatisfied_mods c1) n = (if n = name m then Some m else mod_at (m_unsatisfied_mods c) n)"
    and f: "\<And>n. n \<in> m_name_conflicts c1 \<longleftrightarrow> (if n = name m then n \<in> seen else n \<in> m_name_conflicts c)"
  shows "round_result want seen (m # ms) c c'"
  unfolding round_result_def Let_def
proof
  fix n
  have of: "of_round want (m # ms) n = (if n = name m then m # of_round want ms n else of_round want ms n)"
    using w by (auto simp: of_round_def)
  have "2 \<le> length (m # of_round want ms n) \<longleftrightarrow> of_round want ms n \<noteq> []" by (cases "of_round want ms n") auto
  then show "mod_at (m_unsatisfied_mods c') n = (if of_round want (m # ms) n = []
        then mod_at (m_unsatisfied_mods c) n else Some (last (of_round want (m # ms) n))) \<and>
      (n \<in> m_name_conflicts c' \<longleftrightarrow> (if of_round want (m # ms) n = [] then n \<in> m_name_conflicts c
        else n \<in> seen \<or> 2 \<le> length (of_round want (m # ms) n)))"
    using assms(1) [unfolded round_result_def Let_def, rule_format, of n] u [of n] f [of n] of
    by (cases "n = name m"; cases "of_round want ms n = []") (simp_all del: length_Cons)
qed

lemma add_pass_correct:
  assumes "add_pass want ex seen ms c = (ex', c')" and "index_ok ex (m_unsatisfied_mods c)"
    and "seen \<subseteq> dom ex" and "m_name_conflicts c \<subseteq> dom ex"
  shows "index_ok ex' (m_unsatisfied_mods c') \<and> m_name_conflicts c' \<subseteq> dom ex' \<and>
    round_result want seen ms c c' \<and> m_sorted_mods c' = m_sorted_mods c"
  using assms
proof (induction want ex seen ms c rule: add_pass.induct)
  case (2 want ex seen m ms c)
  let ?us = "m_unsatisfied_mods c"
  show ?case
  proof (cases "(modpack_depth m > 0) = want")
    case False
    with "2.IH"(1) "2.prems" show ?thesis by (simp add: round_result_def of_round_def)
  next
    case w: True
    show ?thesis
    proof (cases "ex (name m)")
      case None
      define c1 where "c1 = c\<lparr>m_unsatisfied_mods := ?us @ [m]\<rparr>"
      define ex1 where "ex1 = ex(name m \<mapsto> length ?us)"
      have run: "add_pass want ex1 (insert (name m) seen) ms c1 = (ex', c')"
        using "2.prems"(1) w None by (simp add: c1_def ex1_def)
      have "index_ok ex1 (m_unsatisfied_mods c1)"
        using "2.prems"(2) None by (simp add: c1_def ex1_def index_ok_append)
      moreover have "insert (name m) seen \<subseteq> dom ex1" "m_name_conflicts c1 \<subseteq> dom ex1"
        using "2.prems"(3,4) by (auto simp: c1_def ex1_def)
      ultimately have ih: "index_ok ex' (m_unsatisfied_mods c')" "m_name_conflicts c' \<subseteq> dom ex'"
        "round_result want (insert (name m) seen) ms c1 c'" "m_sorted_mods c' = m_sorted_mods c1"
        using "2.IH"(2) [OF _ None, folded c1_def ex1_def, OF _ run] w by auto
      have new: "name m \<notin> seen" "name m \<notin> m_name_conflicts c" "mod_at ?us (name m) = None"
        using "2.prems"(2-4) None by (auto simp: mod_at_index)
      have "round_result want seen (m # ms) c c'"
        by (rule round_step [OF ih(3) w])
          (use new in \<open>auto simp: c1_def mod_at_append split: option.splits\<close>)
      with ih show ?thesis by (simp add: c1_def)
    next
      case (Some i)
      define c1 where "c1 = c\<lparr>m_unsatisfied_mods := ?us[i := m],
        m_name_conflicts := if name m \<notin> seen then m_name_conflicts c - {name m} else insert (name m) (m_name_conflicts c)\<rparr>"
      have run: "add_pass want ex (insert (name m) seen) ms c1 = (ex', c')"
        using "2.prems"(1) w Some by (simp add: c1_def)
      have "index_ok ex (m_unsatisfied_mods c1)"
        using "2.prems"(2) Some by (simp add: c1_def index_ok_update)
      moreover have "insert (name m) seen \<subseteq> dom ex" "m_name_conflicts c1 \<subseteq> dom ex"
        using "2.prems"(3,4) Some by (auto simp: c1_def)
      ultimately have ih: "index_ok ex' (m_unsatisfied_mods c')" "m_name_conflicts c' \<subseteq> dom ex'"
        "round_result want (insert (name m) seen) ms c1 c'" "m_sorted_mods c' = m_sorted_mods c1"
        using "2.IH"(3) [OF _ Some, folded c1_def, OF _ run] w by auto
      have "round_result want seen (m # ms) c c'"
        by (rule round_step [OF ih(3) w])
          (use "2.prems"(2) Some in \<open>auto simp: c1_def mod_at_update split: if_splits\<close>)
      with ih show ?thesis by (simp add: c1_def)
    qed
  qed
qed (simp add: round_result_def of_round_def)

text \<open>Of the new mods of a name those outside of modpacks count, if there are any.\<close>

definition top_level :: "ModSpec list \<Rightarrow> bytes \<Rightarrow> ModSpec list" where
  "top_level new n = (let a = of_round False new n in if a \<noteq> [] then a else of_round True new n)"

lemma addMods_correct:
  assumes d: "distinct (map name (m_unsatisfied_mods c))" and n: "m_name_conflicts c \<subseteq> names_of (m_unsatisfied_mods c)"
  shows "distinct (map name (m_unsatisfied_mods (addMods new c)))"
    and "m_name_conflicts (addMods new c) \<subseteq> names_of (m_unsatisfied_mods (addMods new c))"
    and "mod_at (m_unsatisfied_mods (addMods new c)) k =
      (if top_level new k = [] then mod_at (m_unsatisfied_mods c) k else Some (last (top_level new k)))"
    and "k \<in> m_name_conflicts (addMods new c) \<longleftrightarrow>
      (if top_level new k = [] then k \<in> m_name_conflicts c else 2 \<le> length (top_level new k))"
    and "m_sorted_mods (addMods new c) = m_sorted_mods c"
proof -
  obtain ex1 c1 where p1: "add_pass True (index_mods (m_unsatisfied_mods c)) {} new c = (ex1, c1)" by fastforce
  obtain ex2 c2 where p2: "add_pass False ex1 {} new c1 = (ex2, c2)" by fastforce
  have add: "addMods new c = c2" by (simp add: addMods_def p1 p2)
  have ex0: "index_ok (index_mods (m_unsatisfied_mods c)) (m_unsatisfied_mods c)" by (rule index_mods_ok [OF d])
  have dom_ok: "dom ex = names_of us" if "index_ok ex us" for ex us
    by (rule set_eqI) (simp only: domIff index_okD(2) [OF that] not_not)
  have "m_name_conflicts c \<subseteq> dom (index_mods (m_unsatisfied_mods c))" unfolding dom_ok [OF ex0] by (rule n)
  from add_pass_correct [OF p1 ex0 _ this]
  have r1: "index_ok ex1 (m_unsatisfied_mods c1)" "m_name_conflicts c1 \<subseteq> dom ex1"
    "round_result True {} new c c1" "m_sorted_mods c1 = m_sorted_mods c" by simp_all
  have r2: "index_ok ex2 (m_unsatisfied_mods c2)" "m_name_conflicts c2 \<subseteq> dom ex2"
    "round_result False {} new c1 c2" "m_sorted_mods c2 = m_sorted_mods c1"
    using add_pass_correct [OF p2 r1(1) _ r1(2)] by simp_all
  show "distinct (map name (m_unsatisfied_mods (addMods new c)))" using r2(1) index_ok_distinct by (simp add: add)
  show "m_name_conflicts (addMods new c) \<subseteq> names_of (m_unsatisfied_mods (addMods new c))"
    using r2(2) dom_ok [OF r2(1)] by (simp add: add)
  show "m_sorted_mods (addMods new c) = m_sorted_mods c" using r1(4) r2(4) by (simp add: add)
  note rs = r1(3) [unfolded round_result_def Let_def, rule_format, of k]
    r2(3) [unfolded round_result_def Let_def, rule_format, of k]
  define a where "a = of_round False new k"
  define b where "b = of_round True new k"
  have tl: "top_level new k = (if a \<noteq> [] then a else b)" by (simp add: top_level_def a_def b_def Let_def)
  note rs = rs [folded a_def b_def]
  show "mod_at (m_unsatisfied_mods (addMods new c)) k =
      (if top_level new k = [] then mod_at (m_unsatisfied_mods c) k else Some (last (top_level new k)))"
    unfolding tl add using rs by (cases "a = []"; cases "b = []") simp_all
  show "k \<in> m_name_conflicts (addMods new c) \<longleftrightarrow>
      (if top_level new k = [] then k \<in> m_name_conflicts c else 2 \<le> length (top_level new k))"
    unfolding tl add using rs by (cases "a = []"; cases "b = []") simp_all
qed

text \<open>The mods of a name that decide: those of the last level that has any.\<close>

definition decisive :: "ModSpec list list \<Rightarrow> bytes \<Rightarrow> ModSpec list" where
  "decisive levels n =
     (let ls = filter (\<lambda>ts. ts \<noteq> []) (map (\<lambda>new. top_level new n) levels) in if ls = [] then [] else last ls)"

lemma decisive_Nil [simp]: "decisive [] n = []"
  by (simp add: decisive_def)

lemma decisive_snoc: "decisive (levels @ [new]) n = (if top_level new n = [] then decisive levels n else top_level new n)"
  by (simp add: decisive_def Let_def)

lemma levels_run:
  "distinct (map name (m_unsatisfied_mods (fold addMods levels empty_config))) \<and>
   m_name_conflicts (fold addMods levels empty_config) \<subseteq> names_of (m_unsatisfied_mods (fold addMods levels empty_config)) \<and>
   mod_at (m_unsatisfied_mods (fold addMods levels empty_config)) n =
     (if decisive levels n = [] then None else Some (last (decisive levels n))) \<and>
   (n \<in> m_name_conflicts (fold addMods levels empty_config) \<longleftrightarrow> 2 \<le> length (decisive levels n))"
proof (induction levels rule: rev_induct)
  case Nil
  then show ?case by (simp add: empty_config_def mod_at_def)
next
  case (snoc new levels)
  define c where "c = fold addMods levels empty_config"
  note s = snoc [folded c_def]
  note a = addMods_correct [OF conjunct1 [OF s] conjunct1 [OF conjunct2 [OF s]], where new = new]
  have "fold addMods (levels @ [new]) empty_config = addMods new c" by (simp add: c_def)
  with a s show ?case by (cases "top_level new n = []") (simp_all add: decisive_snoc del: not_less_eq_eq)
qed

text \<open>
  C34.  A mod of a higher level replaces the mods of its name of all lower ones, and on a level a mod
  outside of modpacks those in modpacks; no name is there twice.  A conflict is kept exactly for the
  names that have more than one mod on the level that decides, also if these are one mod, found twice
  under one path, which the declaration of the conflicts does not count as a conflict.
\<close>

theorem higher_level_wins:
  "let c = fold addMods levels empty_config in
   distinct (map name (m_unsatisfied_mods c)) \<and>
   mod_at (m_unsatisfied_mods c) n = (if decisive levels n = [] then None else Some (last (decisive levels n))) \<and>
   (n \<in> m_name_conflicts c \<longleftrightarrow> 2 \<le> length (decisive levels n))"
  using levels_run by (simp add: Let_def)


end
