(* ===== verification/ModOrder.thy ===== *)
theory ModOrder
  imports ModConfiguration
begin

text \<open>
  The order of loading (\<open>resolveDependencies\<close> of \<open>src/content/mod_configuration.cpp\<close>) puts every mod
  after what it needs and loads all that can be loaded.
\<close>

section \<open>What a mod waits for\<close>

definition normal_names :: "bytes \<Rightarrow> bytes \<Rightarrow> ModSpec list \<Rightarrow> bytes set" where
  "normal_names first_mod last_mod us = names_of us - {first_mod, last_mod}"

text \<open>The optional dependencies that are there count, but not for the last mod.\<close>

definition needs :: "bytes \<Rightarrow> bytes \<Rightarrow> ModSpec list \<Rightarrow> ModSpec \<Rightarrow> bytes set" where
  "needs first_mod last_mod us m =
     depends m \<union> (if name m = last_mod then {} else optdepends m \<inter> normal_names first_mod last_mod us) - {first_mod}"

text \<open>The mods that can be loaded at all: no cycle and nothing that is missing is before them.\<close>

inductive loadable :: "bytes \<Rightarrow> bytes \<Rightarrow> ModSpec list \<Rightarrow> bytes \<Rightarrow> bool"
  for first_mod last_mod :: bytes and us :: "ModSpec list"
where
  first: "first_mod \<in> names_of us \<Longrightarrow> loadable first_mod last_mod us first_mod"
| step: "m \<in> set us \<Longrightarrow> name m \<noteq> first_mod \<Longrightarrow>
    (\<And>d. d \<in> needs first_mod last_mod us m \<Longrightarrow> loadable first_mod last_mod us d) \<Longrightarrow>
    loadable first_mod last_mod us (name m)"

text \<open>A mod but for what it still waits for.\<close>

definition base :: "ModSpec \<Rightarrow> ModSpec" where
  "base m = m\<lparr>unsatisfied_depends := {}\<rparr>"

lemma base_simps [simp]:
  "name (base m) = name m" "depends (base m) = depends m" "optdepends (base m) = optdepends m"
  "base (m\<lparr>unsatisfied_depends := x\<rparr>) = base m"
  by (simp_all add: base_def)

lemma base_names: "mset (map base xs) = mset (map base ys) \<Longrightarrow> names_of xs = names_of ys"
proof -
  assume "mset (map base xs) = mset (map base ys)"
  then have "base ` set xs = base ` set ys" by (metis set_map set_mset_mset)
  then have "name ` base ` set xs = name ` base ` set ys" by simp
  then show ?thesis by (simp add: image_image)
qed

text \<open>Every mod comes after what it needs.\<close>

definition in_order :: "(ModSpec \<Rightarrow> bytes set) \<Rightarrow> ModSpec list \<Rightarrow> bool" where
  "in_order need ms \<longleftrightarrow> (\<forall>i<length ms. need (ms ! i) \<subseteq> names_of (take i ms))"

lemma in_order_Nil [simp]: "in_order need []"
  by (simp add: in_order_def)

lemma in_order_snoc: "in_order need (ms @ [m]) \<longleftrightarrow> in_order need ms \<and> need m \<subseteq> names_of ms"
  unfolding in_order_def by (auto simp: nth_append less_Suc_eq)

section \<open>The parts of the resolution\<close>

lemma scan_mods_correct:
  "scan_mods f l us (N, fs, ls) =
     (N \<union> (names_of us - {f, l}),
      (case rev (filter (\<lambda>m. name m = f) us) of [] \<Rightarrow> fs | m # _ \<Rightarrow> Some m),
      (case rev (filter (\<lambda>m. name m \<noteq> f \<and> name m = l) us) of [] \<Rightarrow> ls | m # _ \<Rightarrow> Some m))"
proof (induction us arbitrary: N fs ls)
  case (Cons m us)
  have snoc: "(case xs @ [x] of [] \<Rightarrow> a | m # _ \<Rightarrow> Some m) = (case xs of [] \<Rightarrow> Some x | m # _ \<Rightarrow> Some m)"
    for xs and x :: ModSpec and a by (cases xs) simp_all
  show ?case using Cons.IH by (auto simp: snoc)
qed simp

text \<open>For names that are there once only.\<close>

lemma rev_filter_distinct:
  assumes "distinct (map name us)"
  shows "(case rev (filter (\<lambda>m. name m = n) us) of [] \<Rightarrow> None | m # _ \<Rightarrow> Some m) = mod_at us n"
  using assms
proof (induction us)
  case (Cons m us)
  have "name x \<noteq> name m" if "x \<in> set us" for x using Cons.prems imageI [OF that, of name] by auto
  then have "filter (\<lambda>x. name x = name m) us = []" by (simp add: filter_empty_conv)
  with Cons show ?case by (auto simp: mod_at_def)
qed (simp add: mod_at_def)

lemma scan_all:
  assumes "distinct (map name us)"
  shows "scan_mods f l us ({}, None, None) =
    (normal_names f l us, mod_at us f, if l = f then None else mod_at us l)"
proof -
  have "(case rev (filter (\<lambda>m. name m \<noteq> f \<and> name m = l) us) of [] \<Rightarrow> None | m # _ \<Rightarrow> Some m) =
      (if l = f then None else mod_at us l)"
  proof (cases "l = f")
    case True
    then have "filter (\<lambda>m. name m \<noteq> f \<and> name m = l) us = []" by (auto simp: filter_empty_conv)
    with True show ?thesis by simp
  next
    case False
    then have "filter (\<lambda>m. name m \<noteq> f \<and> name m = l) us = filter (\<lambda>m. name m = l) us"
      by (intro filter_cong) auto
    with False rev_filter_distinct [OF assms, of l] show ?thesis by simp
  qed
  then show ?thesis by (simp add: scan_mods_correct normal_names_def rev_filter_distinct [OF assms])
qed

definition prepared :: "bytes \<Rightarrow> bytes set \<Rightarrow> ModSpec \<Rightarrow> ModSpec" where
  "prepared f N m = m\<lparr>unsatisfied_depends := depends m \<union> optdepends m \<inter> N - {f}\<rparr>"

lemma prepared_simps [simp]: "name (prepared f N m) = name m" "base (prepared f N m) = base m"
  by (simp_all add: prepared_def)

lemma split_mods_correct:
  "split_mods f l hl N ms sat uns =
     (let ps = map (prepared f N) (filter (\<lambda>m. name m \<noteq> f \<and> name m \<noteq> l) ms) in
      if hl \<and> (\<exists>p\<in>set ps. l \<in> unsatisfied_depends p) then
        Inl (ModError (lit ''Impossible to depend on the mod specified by last_mod''))
      else Inr (sat @ filter (\<lambda>p. unsatisfied_depends p = {}) ps, uns @ filter (\<lambda>p. unsatisfied_depends p \<noteq> {}) ps))"
proof (induction ms arbitrary: sat uns)
  case (Cons m ms)
  have p: "m\<lparr>unsatisfied_depends := depends m \<union> {d \<in> optdepends m. d \<in> N} - {f}\<rparr> = prepared f N m"
    by (simp add: prepared_def Int_def)
  show ?case
  proof (cases "name m = f \<or> name m = l")
    case False
    then show ?thesis unfolding split_mods.simps p Let_def Cons.IH
      by (simp del: Diff_eq_empty_iff) blast
  qed (auto simp: Cons.IH)
qed simp

definition without :: "bytes \<Rightarrow> ModSpec \<Rightarrow> ModSpec" where
  "without n m = m\<lparr>unsatisfied_depends := unsatisfied_depends m - {n}\<rparr>"

lemma without_simps [simp]:
  "name (without n m) = name m" "base (without n m) = base m" "depends (without n m) = depends m"
  "optdepends (without n m) = optdepends m"
  "unsatisfied_depends (without n m) = unsatisfied_depends m - {n}"
  by (simp_all add: without_def)

lemma sweep_correct:
  "sweep n ms sat = (filter (\<lambda>m. unsatisfied_depends m \<noteq> {}) (map (without n) ms),
     sat @ filter (\<lambda>m. unsatisfied_depends m = {}) (map (without n) ms))"
proof (induction ms arbitrary: sat)
  case (Cons m ms)
  show ?case unfolding sweep.simps Cons.IH without_def [symmetric] Let_def
    by (simp del: Diff_eq_empty_iff without_simps(5))
qed simp

section \<open>The loop\<close>

definition last_waits :: "bytes set \<Rightarrow> ModSpec \<Rightarrow> ModSpec list \<Rightarrow> ModSpec option \<Rightarrow> bool" where
  "last_waits D b S l \<longleftrightarrow> (case l of None \<Rightarrow> True | Some x \<Rightarrow> base x = b \<and> unsatisfied_depends x = D - names_of S)"

definition loop_inv ::
  "(ModSpec \<Rightarrow> bytes set) \<Rightarrow> (bytes \<Rightarrow> bool) \<Rightarrow> ModSpec list \<Rightarrow> ModSpec list \<Rightarrow> ModSpec list \<Rightarrow> bool" where
  "loop_inv need P S T U \<longleftrightarrow>
     (\<forall>m\<in>set U. unsatisfied_depends m = need m - names_of S \<and> unsatisfied_depends m \<noteq> {} \<and>
        (need m \<subseteq> Collect P \<longrightarrow> P (name m))) \<and>
     (\<forall>m\<in>set T. need m \<subseteq> names_of S) \<and> in_order need S \<and> (\<forall>n\<in>names_of (S @ T). P n)"

lemma loop_step:
  assumes inv: "loop_inv need P S (T @ [m]) U" and need: "\<And>x n. need (without n x) = need x"
    and sw: "sweep (name m) U T = (U', T')"
  shows "loop_inv need P (S @ [m]) T' U'"
    and "mset (map base ((S @ [m]) @ T' @ U')) = mset (map base (S @ (T @ [m]) @ U))"
proof -
  let ?W = "map (without (name m)) U"
  have U': "U' = filter (\<lambda>m. unsatisfied_depends m \<noteq> {}) ?W"
    and T': "T' = T @ filter (\<lambda>m. unsatisfied_depends m = {}) ?W"
    using sw by (simp_all add: sweep_correct del: Diff_eq_empty_iff without_simps(5))
  have U: "unsatisfied_depends x = need x - names_of S" "need x \<subseteq> Collect P \<longrightarrow> P (name x)" if "x \<in> set U" for x
    using inv that by (simp_all add: loop_inv_def)
  have W: "unsatisfied_depends w = need w - names_of (S @ [m])" "need w \<subseteq> Collect P \<longrightarrow> P (name w)"
    if "w \<in> set ?W" for w
    using that U by (auto simp: need)
  have P: "P n" if "n \<in> names_of (S @ [m])" for n using inv that by (auto simp: loop_inv_def)
  have "P (name w)" "need w \<subseteq> names_of (S @ [m])" if "w \<in> set ?W" "unsatisfied_depends w = {}" for w
  proof -
    show *: "need w \<subseteq> names_of (S @ [m])" using W(1) [OF that(1)] that(2) by blast
    then have "need w \<subseteq> Collect P" using P by blast
    then show "P (name w)" using W(2) [OF that(1)] by blast
  qed
  then have sat: "need w \<subseteq> names_of (S @ [m]) \<and> P (name w)" if "w \<in> set T'" for w
    using that inv unfolding T' by (auto simp: loop_inv_def)
  have ord: "in_order need (S @ [m])" using inv by (simp add: loop_inv_def in_order_snoc)
  have uns: "unsatisfied_depends w = need w - names_of (S @ [m]) \<and> unsatisfied_depends w \<noteq> {} \<and>
      (need w \<subseteq> Collect P \<longrightarrow> P (name w))" if "w \<in> set U'" for w
    using that W [of w] unfolding U' by auto
  show "loop_inv need P (S @ [m]) T' U'"
    unfolding loop_inv_def
  proof (intro conjI ballI)
    show "P n" if "n \<in> names_of ((S @ [m]) @ T')" for n using that P sat by fastforce
  qed (use uns sat ord in blast)+
  have W_mset: "mset (filter Q ws) + mset (filter (\<lambda>x. \<not> Q x) ws) = mset ws" for Q and ws :: "ModSpec list"
    by simp
  have "mset (T' @ U') = mset (T @ ?W)"
    using W_mset [of "\<lambda>m. unsatisfied_depends m = {}" ?W] unfolding T' U' mset_append by (simp only: add.assoc)
  then have "mset (map base (T' @ U')) = mset (map base (T @ ?W))" unfolding mset_map by simp
  also have "map base (T @ ?W) = map base (T @ U)" by simp
  finally show "mset (map base ((S @ [m]) @ T' @ U')) = mset (map base (S @ (T @ [m]) @ U))" by simp
qed

lemma loop_correct:
  assumes "resolve_loop S T U l = (S', U', l')" and "loop_inv need P S T U" and "last_waits D b S l"
    and need: "\<And>x n. need (without n x) = need x"
  shows "loop_inv need P S' [] U' \<and> last_waits D b S' l' \<and> (l' = None \<longleftrightarrow> l = None) \<and>
    mset (map base (S' @ U')) = mset (map base (S @ T @ U)) \<and> (\<exists>r. S' = S @ r)"
  using assms(1-3)
proof (induction S T U l rule: resolve_loop.induct)
  case (1 S T U l)
  show ?case
  proof (cases T rule: rev_cases)
    case Nil
    with "1.prems" show ?thesis by (subst (asm) resolve_loop.simps) simp
  next
    case (snoc T0 m)
    obtain U1 T1 where sw: "sweep (name m) U T0 = (U1, T1)" by fastforce
    let ?l = "map_option (\<lambda>l. l\<lparr>unsatisfied_depends := unsatisfied_depends l - {name m}\<rparr>) l"
    have run: "resolve_loop (S @ [m]) T1 U1 ?l = (S', U', l')"
      using "1.prems"(1) snoc sw by (subst (asm) resolve_loop.simps) simp
    have "last_waits D b (S @ [m]) ?l" using "1.prems"(3) by (auto simp: last_waits_def split: option.splits)
    moreover note st = loop_step [OF "1.prems"(2) [unfolded snoc] need sw]
    ultimately have ih: "loop_inv need P S' [] U' \<and> last_waits D b S' l' \<and> (l' = None \<longleftrightarrow> ?l = None) \<and>
        mset (map base (S' @ U')) = mset (map base ((S @ [m]) @ T1 @ U1)) \<and> (\<exists>r. S' = (S @ [m]) @ r)"
      by (intro "1.IH" [of m "(U1, T1)" U1 T1]) (use snoc sw run st(1) in simp_all)
    then show ?thesis unfolding st(2) snoc [symmetric] by fastforce
  qed
qed

section \<open>What the resolution gives\<close>

lemma needs_simps [simp]:
  "needs f l us (without n m) = needs f l us m" "needs f l us (prepared g N m) = needs f l us m"
  "needs f l us (m\<lparr>unsatisfied_depends := x\<rparr>) = needs f l us m"
  by (simp_all add: needs_def prepared_def)

lemma needs_base: "base m = base m' \<Longrightarrow> needs f l us m = needs f l us m'"
  unfolding needs_def by (metis base_simps(1-3))

lemma prepared_waits: "name m \<noteq> l \<Longrightarrow> unsatisfied_depends (prepared f (normal_names f l us) m) = needs f l us m"
  by (simp add: prepared_def needs_def)

lemma filter_name:
  assumes "distinct (map name us)"
  shows "filter (\<lambda>m. name m = n) us = (case mod_at us n of None \<Rightarrow> [] | Some m \<Rightarrow> [m])"
  using assms
proof (induction us)
  case (Cons m us)
  have "name x \<noteq> name m" if "x \<in> set us" for x using Cons.prems imageI [OF that, of name] by auto
  then have "filter (\<lambda>x. name x = name m) us = []" by (simp add: filter_empty_conv)
  with Cons show ?case by (auto simp: mod_at_def)
qed (simp add: mod_at_def)

lemma mod_at_Some: "mod_at us n = Some m \<Longrightarrow> m \<in> set us \<and> name m = n"
  by (auto simp: mod_at_def find_Some_iff)

text \<open>The first mod, the others, and the last.\<close>

abbreviation olist :: "'a option \<Rightarrow> 'a list" where
  "olist x \<equiv> (case x of None \<Rightarrow> [] | Some m \<Rightarrow> [m])"

lemma three_parts:
  assumes "distinct (map name us)"
  shows "mset us = mset (olist (mod_at us f)) + mset (filter (\<lambda>m. name m \<noteq> f \<and> name m \<noteq> l) us) +
    mset (olist (if l = f then None else mod_at us l))"
proof -
  have part: "mset xs = mset (filter (\<lambda>m. name m \<noteq> l) xs) + mset (filter (\<lambda>m. name m = l) xs)" for xs by simp
  have a: "mset us = mset (filter (\<lambda>m. name m = f) us) + mset (filter (\<lambda>m. name m \<noteq> f) us)" by simp
  have b: "mset (filter (\<lambda>m. name m \<noteq> f) us) =
      mset (filter (\<lambda>m. name m \<noteq> f \<and> name m \<noteq> l) us) + mset (filter (\<lambda>m. name m \<noteq> f \<and> name m = l) us)"
    using part [of "filter (\<lambda>m. name m \<noteq> f) us"] by (simp only: filter_filter)
  have c: "filter (\<lambda>m. name m \<noteq> f \<and> name m = l) us = olist (if l = f then None else mod_at us l)"
  proof (cases "l = f")
    case False
    then have "filter (\<lambda>m. name m \<noteq> f \<and> name m = l) us = filter (\<lambda>m. name m = l) us" by (intro filter_cong) auto
    with False show ?thesis by (simp add: filter_name [OF assms])
  qed (auto simp: filter_empty_conv)
  show ?thesis unfolding a b c filter_name [OF assms] by simp
qed

lemma olist_first:
  "names_of (olist (mod_at us f)) \<subseteq> {f}"
  "f \<in> names_of us \<Longrightarrow> olist (mod_at us f) \<noteq> [] \<and> name (hd (olist (mod_at us f))) = f"
proof -
  show "names_of (olist (mod_at us f)) \<subseteq> {f}" by (cases "mod_at us f") (simp_all add: mod_at_Some)
  show "f \<in> names_of us \<Longrightarrow> olist (mod_at us f) \<noteq> [] \<and> name (hd (olist (mod_at us f))) = f"
    by (cases "mod_at us f") (simp_all add: mod_at_None mod_at_Some)
qed

lemma start_inv:
  fixes f l :: bytes
  assumes f: "\<And>x. mod_at us f = Some x \<Longrightarrow> depends x = {} \<and> optdepends x = {}" and ms: "set ms = set us"
  defines "ps \<equiv> map (prepared f (normal_names f l us)) (filter (\<lambda>m. name m \<noteq> f \<and> name m \<noteq> l) ms)"
  shows "loop_inv (needs f l us) (loadable f l us) (olist (mod_at us f))
    (filter (\<lambda>p. unsatisfied_depends p = {}) ps) (filter (\<lambda>p. unsatisfied_depends p \<noteq> {}) ps)"
proof -
  let ?S = "olist (mod_at us f)"
  have S: "names_of ?S \<subseteq> {f}" by (rule olist_first)
  have "loadable f l us n" if "n \<in> names_of ?S" for n
    using that S loadable.first [of f us l] mod_at_None [of us f] by (cases "mod_at us f") auto
  note S = S this
  have ps: "unsatisfied_depends p = needs f l us p" "needs f l us p \<subseteq> Collect (loadable f l us) \<longrightarrow> loadable f l us (name p)"
    if "p \<in> set ps" for p
  proof -
    from that obtain m where m: "m \<in> set us" "name m \<noteq> f" "name m \<noteq> l" "p = prepared f (normal_names f l us) m"
      unfolding ps_def set_map set_filter ms by blast
    then show "unsatisfied_depends p = needs f l us p" by (simp add: prepared_waits)
    from m show "needs f l us p \<subseteq> Collect (loadable f l us) \<longrightarrow> loadable f l us (name p)"
      using loadable.step [OF m(1,2), of l] by auto
  qed
  have nf: "needs f l us p - names_of ?S = needs f l us p" for p using S(1) by (auto simp: needs_def split: option.splits)
  have "in_order (needs f l us) ?S"
    using f by (auto simp: in_order_def needs_def split: option.splits)
  moreover have "loadable f l us (name p)" if "p \<in> set ps" "unsatisfied_depends p = {}" for p
    using ps [OF that(1)] that(2) by simp
  ultimately show ?thesis
    unfolding loop_inv_def nf using ps S(2) by (auto simp del: Diff_eq_empty_iff)
qed

text \<open>What is loaded is all that can be loaded.\<close>

lemma loadable_loaded:
  assumes "loadable f l us n" and f: "f \<in> names_of us \<Longrightarrow> f \<in> names_of S"
    and all: "mset (map base (S @ U)) = mset (map base us)"
    and U: "\<And>m. m \<in> set U \<Longrightarrow> needs f l us m - names_of S \<noteq> {}"
  shows "n \<in> names_of S"
  using assms(1)
proof (induction rule: loadable.induct)
  case (step m)
  have "base m \<in> base ` set (S @ U)" using step.hyps(1) all by (metis image_eqI set_map set_mset_mset)
  then obtain x where x: "x \<in> set (S @ U)" "base x = base m" by fastforce
  then have n: "name x = name m" "needs f l us x = needs f l us m" by (metis base_simps(1)) (rule needs_base [OF x(2)])
  have "x \<notin> set U" using U [of x] step.IH n(2) by auto
  with x(1) n(1) show ?case by (metis Un_iff image_eqI set_append)
qed (rule f)

definition resolved :: "bytes \<Rightarrow> bytes \<Rightarrow> ModSpec list \<Rightarrow> ModSpec list \<Rightarrow> ModSpec list \<Rightarrow> bool" where
  "resolved f l us S U \<longleftrightarrow>
     mset (map base (S @ U)) = mset (map base us) \<and> in_order (needs f l us) S \<and>
     (\<forall>m\<in>set S. loadable f l us (name m)) \<and>
     (\<forall>m\<in>set U. \<not> loadable f l us (name m) \<and> unsatisfied_depends m = needs f l us m - names_of S)"

lemma resolvedI:
  assumes d: "distinct (map name us)" and all: "mset (map base (S @ U)) = mset (map base us)"
    and S: "in_order (needs f l us) S" "\<And>m. m \<in> set S \<Longrightarrow> loadable f l us (name m)"
    and U: "\<And>m. m \<in> set U \<Longrightarrow> unsatisfied_depends m = needs f l us m - names_of S \<and> unsatisfied_depends m \<noteq> {}"
    and f: "f \<in> names_of us \<Longrightarrow> f \<in> names_of S"
  shows "resolved f l us S U"
proof -
  have "mset (map name (map base (S @ U))) = mset (map name (map base us))" unfolding mset_map [of name] all ..
  then have "mset (map name (S @ U)) = mset (map name us)" by (simp add: comp_def)
  from mset_eq_imp_distinct_iff [OF this] d have dis: "distinct (map name (S @ U))" by simp
  have "\<not> loadable f l us (name m)" if "m \<in> set U" for m
  proof
    assume "loadable f l us (name m)"
    then have "name m \<in> names_of S" by (rule loadable_loaded [OF _ f all]) (use U in blast)+
    with dis that show False by auto
  qed
  with assms show ?thesis by (simp add: resolved_def)
qed

definition refused :: "bytes \<Rightarrow> bytes \<Rightarrow> ModSpec list \<Rightarrow> bool" where
  "refused f l us \<longleftrightarrow>
     f \<noteq> [] \<and> f \<notin> names_of us \<or> l \<noteq> [] \<and> (l = f \<or> l \<notin> names_of us) \<or>
     (\<exists>m\<in>set us. name m = f \<and> (depends m \<noteq> {} \<or> optdepends m \<noteq> {})) \<or>
     l \<noteq> f \<and> l \<in> names_of us \<and> (\<exists>m\<in>set us. name m \<noteq> f \<and> name m \<noteq> l \<and> l \<in> depends m)"

lemma first_depends:
  assumes "distinct (map name us)"
  shows "(case mod_at us f of None \<Rightarrow> False | Some x \<Rightarrow> depends x \<noteq> {} \<or> optdepends x \<noteq> {}) \<longleftrightarrow>
    (\<exists>m\<in>set us. name m = f \<and> (depends m \<noteq> {} \<or> optdepends m \<noteq> {}))"
proof -
  have "x \<in> set us \<and> name x = f \<longleftrightarrow> x \<in> set (olist (mod_at us f))" for x
    unfolding filter_name [OF assms, symmetric] by simp
  then have "(\<exists>m. (m \<in> set us \<and> name m = f) \<and> Q m) \<longleftrightarrow>
      (case mod_at us f of None \<Rightarrow> False | Some x \<Rightarrow> Q x)" for Q by (simp split: option.split)
  from this [of "\<lambda>m. depends m \<noteq> {} \<or> optdepends m \<noteq> {}"] show ?thesis by (simp only: Bex_def conj_assoc)
qed

lemma depends_last:
  assumes "set ms = set us" and "l \<noteq> f"
  shows "(\<exists>p\<in>set (map (prepared f (normal_names f l us)) (filter (\<lambda>m. name m \<noteq> f \<and> name m \<noteq> l) ms)).
      l \<in> unsatisfied_depends p) \<longleftrightarrow> (\<exists>m\<in>set us. name m \<noteq> f \<and> name m \<noteq> l \<and> l \<in> depends m)"
  using assms by (auto simp: prepared_def normal_names_def)

lemma resolve_correct:
  fixes c :: mod_config
  defines "us \<equiv> m_unsatisfied_mods c" and "f \<equiv> m_first_mod c" and "l \<equiv> m_last_mod c"
  assumes d: "distinct (map name us)" and s: "m_sorted_mods c = []" and sh: "\<And>xs. mset (shuffle xs) = mset xs"
  shows "case resolveDependencies rnd shuffle c of
      Inl e \<Rightarrow> refused f l us
    | Inr c' \<Rightarrow> \<not> refused f l us \<and> resolved f l us (m_sorted_mods c') (m_unsatisfied_mods c') \<and>
        (f \<in> names_of us \<longrightarrow> name (hd (m_sorted_mods c')) = f) \<and>
        (l \<noteq> f \<and> l \<in> names_of (m_sorted_mods c') \<longrightarrow> name (last (m_sorted_mods c')) = l)"
proof -
  define N where "N = normal_names f l us"
  define ls where "ls = (if l = f then None else mod_at us l)"
  define ms where "ms = (if rnd then shuffle us else us)"
  have mms: "mset ms = mset us" using sh by (simp add: ms_def)
  then have ms: "set ms = set us" by (metis set_mset_mset)
  define ps where "ps = map (prepared f N) (filter (\<lambda>m. name m \<noteq> f \<and> name m \<noteq> l) ms)"
  define T0 where "T0 = filter (\<lambda>p. unsatisfied_depends p = {}) ps"
  define U0 where "U0 = filter (\<lambda>p. unsatisfied_depends p \<noteq> {}) ps"
  define S0 where "S0 = olist (mod_at us f)"
  define l0 where "l0 = map_option (\<lambda>l. l\<lparr>unsatisfied_depends := depends l - {f}\<rparr>) ls"
  obtain S U l' where run: "resolve_loop S0 T0 U0 l0 = (S, U, l')" by (metis prod_cases3)
  define A where "A \<longleftrightarrow> f \<noteq> [] \<and> f \<notin> names_of us"
  define B where "B \<longleftrightarrow> l \<noteq> [] \<and> (l = f \<or> l \<notin> names_of us)"
  define C where "C \<longleftrightarrow> (\<exists>m\<in>set us. name m = f \<and> (depends m \<noteq> {} \<or> optdepends m \<noteq> {}))"
  define D where "D \<longleftrightarrow> l \<noteq> f \<and> l \<in> names_of us \<and> (\<exists>m\<in>set us. name m \<noteq> f \<and> name m \<noteq> l \<and> l \<in> depends m)"
  have ls: "ls = None \<longleftrightarrow> l = f \<or> l \<notin> names_of us" by (simp add: ls_def mod_at_None)
  have A': "(f \<noteq> [] \<and> mod_at us f = None) = A" by (simp add: A_def mod_at_None)
  have B': "(l \<noteq> [] \<and> ls = None) = B" by (simp add: B_def ls)
  have C': "(case mod_at us f of None \<Rightarrow> False | Some x \<Rightarrow> depends x \<noteq> {} \<or> optdepends x \<noteq> {}) = C"
    unfolding C_def by (rule first_depends [OF d])
  have D': "(ls \<noteq> None \<and> (\<exists>p\<in>set ps. l \<in> unsatisfied_depends p)) = D"
    using depends_last [OF ms, of l f] ls unfolding ps_def N_def D_def by blast
  have refused: "refused f l us \<longleftrightarrow> A \<or> B \<or> C \<or> D" by (simp only: refused_def A_def B_def C_def D_def)
  have eq: "resolveDependencies rnd shuffle c =
     (if A then Inl (ModError (lit ''The mod specified as first by the game was not found.''))
      else if B then Inl (ModError (lit ''The mod specified as last by the game was not found.''))
      else if C then Inl (ModError (lit ''Mod specified by first_mod cannot have dependencies''))
      else if D then Inl (ModError (lit ''Impossible to depend on the mod specified by last_mod''))
      else Inr (case l' of
             None \<Rightarrow> c\<lparr>m_sorted_mods := S, m_unsatisfied_mods := U\<rparr>
           | Some l \<Rightarrow>
               if unsatisfied_depends l = {} then c\<lparr>m_sorted_mods := S @ [l], m_unsatisfied_mods := U\<rparr>
               else c\<lparr>m_sorted_mods := S, m_unsatisfied_mods := U @ [l]\<rparr>))"
    unfolding resolveDependencies_def us_def [symmetric] f_def [symmetric] l_def [symmetric] Let_def
      scan_all [OF d] prod.case ls_def [symmetric] A' B' C' ms_def [symmetric] split_mods_correct
      N_def [symmetric] ps_def [symmetric] D' s append_Nil T0_def [symmetric] U0_def [symmetric]
      S0_def [symmetric] l0_def [symmetric] run bind_ok_def
    by (cases A; cases B; cases C; cases D) (simp_all add: run del: Diff_eq_empty_iff)
  show ?thesis
  proof (cases "A \<or> B \<or> C \<or> D")
    case True
    then show ?thesis unfolding eq refused by auto
  next
    case False
    have f0: "depends x = {} \<and> optdepends x = {}" if "mod_at us f = Some x" for x
      using False C' that by auto
    have inv: "loop_inv (needs f l us) (loadable f l us) S0 T0 U0"
      unfolding S0_def T0_def U0_def ps_def N_def by (rule start_inv [OF f0 ms])
    have S0: "names_of S0 \<subseteq> {f}" "f \<in> names_of us \<Longrightarrow> S0 \<noteq> [] \<and> name (hd S0) = f"
      unfolding S0_def by (rule olist_first)+
    define lm where "lm = the ls"
    have lm: "lm \<in> set us \<and> name lm = l \<and> l \<noteq> f" if "ls \<noteq> None"
      using that mod_at_Some [of us l] by (auto simp: lm_def ls_def split: if_splits)
    have "last_waits (depends lm - {f}) (base lm) S0 l0"
      using S0(1) by (auto simp: last_waits_def l0_def lm_def split: option.splits)
    note lc = loop_correct [OF run inv this]
    have lc: "loop_inv (needs f l us) (loadable f l us) S [] U" "last_waits (depends lm - {f}) (base lm) S l'"
      "l' = None \<longleftrightarrow> ls = None" "mset (map base (S @ U)) = mset (map base (S0 @ T0 @ U0))" "\<exists>r. S = S0 @ r"
      using lc by (simp_all add: l0_def)
    have fS: "S \<noteq> [] \<and> name (hd S) = f" if "f \<in> names_of us" using S0(2) [OF that] lc(5) by fastforce
    then have fN: "f \<in> names_of us \<Longrightarrow> f \<in> names_of S" by (metis hd_in_set image_eqI)
    have ord: "in_order (needs f l us) S" using lc(1) by (simp add: loop_inv_def)
    have S: "loadable f l us (name m)" if "m \<in> set S" for m using lc(1) that by (auto simp: loop_inv_def)
    have U: "unsatisfied_depends m = needs f l us m - names_of S \<and> unsatisfied_depends m \<noteq> {}" if "m \<in> set U" for m
      using lc(1) that unfolding loop_inv_def by blast
    have "base \<circ> prepared f N = base" by (simp add: fun_eq_iff)
    then have "mset (map base ps) = image_mset base (mset (filter (\<lambda>m. name m \<noteq> f \<and> name m \<noteq> l) us))"
      unfolding ps_def by (simp add: mms)
    moreover have "mset (T0 @ U0) = mset ps" by (simp add: T0_def U0_def)
    ultimately have "mset (map base (S0 @ T0 @ U0)) =
        image_mset base (mset S0 + mset (filter (\<lambda>m. name m \<noteq> f \<and> name m \<noteq> l) us))"
      by (metis (no_types, lifting) image_mset_union map_append mset_append mset_map)
    note parts = this [folded lc(4)]
    have all: "mset (map base (S @ U)) + image_mset base (mset (olist ls)) = mset (map base us)"
    proof -
      have "mset (map base us) = image_mset base (mset us)" by simp
      also have "\<dots> = image_mset base (mset S0 + mset (filter (\<lambda>m. name m \<noteq> f \<and> name m \<noteq> l) us)) +
          image_mset base (mset (olist ls))"
        unfolding three_parts [OF d, of f l] S0_def ls_def image_mset_union ..
      finally show ?thesis unfolding parts by (rule sym)
    qed
    show ?thesis
    proof (cases l')
      case None
      with lc(3) all ls have all: "mset (map base (S @ U)) = mset (map base us)" and l: "l = f \<or> l \<notin> names_of us" by simp_all
      have "resolved f l us S U" by (rule resolvedI [OF d all ord S U fN])
      moreover from base_names [OF all] have "\<not> (l \<noteq> f \<and> l \<in> names_of S)" using l by auto
      ultimately show ?thesis using False fS unfolding eq refused None by auto
    next
      case (Some x)
      then have lsx: "ls = Some lm" using lc(3) by (auto simp: lm_def)
      note lm = lm [unfolded lsx, simplified]
      have x: "base x = base lm" "unsatisfied_depends x = depends lm - {f} - names_of S"
        using lc(2) Some by (simp_all add: last_waits_def)
      have nx: "name x = l" using x(1) lm by (metis base_simps(1))
      have needx: "needs f l us x = depends lm - {f}" using needs_base [OF x(1)] lm by (simp add: needs_def)
      have lU: "l \<notin> needs f l us m" if "m \<in> set U" for m
      proof -
        have "base m \<in> base ` set (olist (mod_at us f) @ filter (\<lambda>m. name m \<noteq> f \<and> name m \<noteq> l) us)"
          using that arg_cong [OF parts, of set_mset] unfolding S0_def by auto
        then obtain m0 where m0: "m0 \<in> set (olist (mod_at us f) @ filter (\<lambda>m. name m \<noteq> f \<and> name m \<noteq> l) us)" "base m = base m0"
          by blast
        have "l \<notin> depends m0"
        proof (cases "mod_at us f = Some m0")
          case True
          then show ?thesis using f0 by simp
        next
          case ne: False
          then have "m0 \<in> set us" "name m0 \<noteq> f" "name m0 \<noteq> l" using m0(1) by (auto split: option.splits)
          then show ?thesis using False lm mod_at_None [of us l] by (auto simp: D_def)
        qed
        then show ?thesis unfolding needs_base [OF m0(2)] by (auto simp: needs_def normal_names_def)
      qed
      have all': "mset (map base (S @ U)) + {#base x#} = mset (map base us)" using all lsx x(1) by simp
      have l: "l \<noteq> f" "f \<in> names_of us \<Longrightarrow> name (hd (S @ r)) = f" for r using lm fS by auto
      show ?thesis
      proof (cases "unsatisfied_depends x = {}")
        case True
        then have nS: "needs f l us x \<subseteq> names_of S" "needs f l us lm \<subseteq> names_of S"
          using x(2) needx needs_base [OF x(1), of f l us] by auto
        have "loadable f l us l" using loadable.step [of lm us f l] lm nS(2) S by blast
        then have Sx: "loadable f l us (name m)" if "m \<in> set (S @ [x])" for m using S nx that by auto
        have Ux: "unsatisfied_depends m = needs f l us m - names_of (S @ [x]) \<and> unsatisfied_depends m \<noteq> {}"
          if "m \<in> set U" for m using U [OF that] lU [OF that] nx by auto
        have ox: "in_order (needs f l us) (S @ [x])" using ord nS(1) by (simp add: in_order_snoc)
        have ax: "mset (map base ((S @ [x]) @ U)) = mset (map base us)" using all' by simp
        have "resolved f l us (S @ [x]) U" by (rule resolvedI [OF d ax ox Sx Ux]) (simp_all add: fN)
        with True False l(2) [of "[x]"] nx show ?thesis unfolding eq refused Some by simp
      next
        case nosat: False
        have ax: "mset (map base (S @ U @ [x])) = mset (map base us)" using all' by simp
        have Ux: "unsatisfied_depends m = needs f l us m - names_of S \<and> unsatisfied_depends m \<noteq> {}"
          if "m \<in> set (U @ [x])" for m
        proof (cases "m = x")
          case True
          then show ?thesis using nosat x(2) needx by simp
        next
          case False
          with that have "m \<in> set U" by simp
          then show ?thesis by (rule U)
        qed
        have "resolved f l us S (U @ [x])" by (rule resolvedI [OF d ax ord S Ux fN])
        moreover from this nx have "l \<notin> names_of S" by (auto simp: resolved_def)
        ultimately show ?thesis using nosat False l(2) [of "[]"] unfolding eq refused Some by simp
      qed
    qed
  qed
qed

section \<open>The mods of a game and their order\<close>

definition mods_of :: "ModSpec list list \<Rightarrow> bytes \<Rightarrow> bytes \<Rightarrow> mod_config" where
  "mods_of levels first_mod last_mod =
     (fold addMods levels empty_config)\<lparr>m_first_mod := first_mod, m_last_mod := last_mod\<rparr>"

lemma mods_of_simps [simp]:
  "m_unsatisfied_mods (mods_of levels f l) = m_unsatisfied_mods (fold addMods levels empty_config)"
  "m_name_conflicts (mods_of levels f l) = m_name_conflicts (fold addMods levels empty_config)"
  "m_first_mod (mods_of levels f l) = f" "m_last_mod (mods_of levels f l) = l"
  by (simp_all add: mods_of_def)

lemma mods_of_sorted [simp]: "m_sorted_mods (mods_of levels f l) = []"
proof (induction levels rule: rev_induct)
  case (snoc new levels)
  then show ?case
    using addMods_correct(5) [of "fold addMods levels empty_config" new] levels_run [of levels]
    by (simp add: mods_of_def)
qed (simp add: mods_of_def empty_config_def)

lemma load_order_run:
  assumes sh: "\<forall>xs. mset (shuffle xs) = mset xs"
  shows "let us = m_unsatisfied_mods (mods_of levels f l) in
    case checkConflictsAndDeps order rnd shuffle (mods_of levels f l) of
      Inl e \<Rightarrow> (\<exists>n. 2 \<le> length (decisive levels n)) \<or> refused f l us
    | Inr c' \<Rightarrow> (\<forall>n. length (decisive levels n) < 2) \<and> \<not> refused f l us \<and>
        resolved f l us (m_sorted_mods c') (m_unsatisfied_mods c') \<and>
        (f \<in> names_of us \<longrightarrow> name (hd (m_sorted_mods c')) = f) \<and>
        (l \<noteq> f \<and> l \<in> names_of (m_sorted_mods c') \<longrightarrow> name (last (m_sorted_mods c')) = l)"
proof (cases "m_name_conflicts (mods_of levels f l) = {}")
  case True
  then have n: "\<forall>n. length (decisive levels n) < 2" using levels_run [of levels] by (auto simp: not_le)
  have "distinct (map name (m_unsatisfied_mods (mods_of levels f l)))" using levels_run [of levels] by simp
  from resolve_correct [OF this _ sh [rule_format], of rnd] n True show ?thesis
    by (auto simp: checkConflictsAndDeps_def Let_def split: sum.splits)
next
  case False
  then have "\<exists>n. 2 \<le> length (decisive levels n)" using levels_run [of levels] by (auto simp del: not_less_eq_eq)
  with False show ?thesis by (simp add: checkConflictsAndDeps_def Let_def del: mods_of_simps)
qed

text \<open>
  C35.  Whatever mods there are: unless a name is in conflict or the first and the last mod forbid it,
  the mods are put in an order in which each comes after all that it needs, the first mod first and the
  last mod last.  All mods that can be loaded at all are among them, and every other mod is left with
  just what it still misses.
\<close>

theorem load_order:
  assumes "\<forall>xs. mset (shuffle xs) = mset xs"
  shows "let us = m_unsatisfied_mods (mods_of levels f l) in
    case checkConflictsAndDeps order rnd shuffle (mods_of levels f l) of
      Inl e \<Rightarrow> (\<exists>n. 2 \<le> length (decisive levels n)) \<or> refused f l us
    | Inr c' \<Rightarrow> (\<forall>n. length (decisive levels n) < 2) \<and> \<not> refused f l us \<and>
        resolved f l us (m_sorted_mods c') (m_unsatisfied_mods c') \<and>
        (f \<in> names_of us \<longrightarrow> name (hd (m_sorted_mods c')) = f) \<and>
        (l \<noteq> f \<and> l \<in> names_of (m_sorted_mods c') \<longrightarrow> name (last (m_sorted_mods c')) = l)"
  using assms by (rule load_order_run)

definition sample_mod :: "bytes \<Rightarrow> bytes set \<Rightarrow> ModSpec" where
  "sample_mod n ds = (new_ModSpec n n 0 n)\<lparr>depends := ds\<rparr>"

definition sample_levels :: "ModSpec list list" where
  "sample_levels = [[sample_mod [97] {[98]}, sample_mod [98] {}], [sample_mod [99] {[99]}, sample_mod [100] {[97]}]]"

lemma sample_loaded:
  "map_sum (\<lambda>_. ()) (\<lambda>c. (map name (m_sorted_mods c), map name (m_unsatisfied_mods c)))
     (checkConflictsAndDeps (\<lambda>_. []) True rev (mods_of sample_levels [] [100])) = Inr ([[98], [97], [100]], [[99]])"
  by code_simp

theorem load_order_witness:
  "\<exists>c'. checkConflictsAndDeps (\<lambda>_. []) True rev (mods_of sample_levels [] [100]) = Inr c' \<and>
     resolved [] [100] (m_unsatisfied_mods (mods_of sample_levels [] [100])) (m_sorted_mods c') (m_unsatisfied_mods c') \<and>
     map name (m_sorted_mods c') = [[98], [97], [100]]"
  using load_order [of rev sample_levels "[]" "[100]" "\<lambda>_. []" True] sample_loaded
  by (cases "checkConflictsAndDeps (\<lambda>_. []) True rev (mods_of sample_levels [] [100])") (simp_all add: Let_def)

end
