(* ===== verification/ModWorld.thy ===== *)
theory ModWorld
  imports ModOrder "HOL-Library.List_Lexorder"
begin

text \<open>
  Which of the installed mods a world loads and what becomes of its lines
  (\<open>addModsFromConfig\<close> of \<open>src/content/mod_configuration.cpp\<close>), and what becomes of mods of one
  directory that have one name.
\<close>

section \<open>The lines of the world\<close>

lemma set_entry_names: "fst ` set (set_entry n e m) = insert n (fst ` set m)"
  by (induction n e m rule: set_entry.induct) auto

lemma set_entry_distinct: "distinct (map fst m) \<Longrightarrow> distinct (map fst (set_entry n e m))"
  by (induction n e m rule: set_entry.induct) (simp_all add: set_entry_names, auto)

lemma parse_distinct:
  "parse_lines k t m is = Some (ok, m', is') \<Longrightarrow> distinct (map fst m) \<Longrightarrow> distinct (map fst m')"
proof (induction k t m "is" arbitrary: ok m' is' rule: parse_lines.induct)
  case (2 k t m "is")
  obtain line is1 where g: "getline NEWLINE [] is = (line, is1)" by (metis prod.exhaust)
  obtain event n v where e: "parseConfigObject t line = (event, n, v)" by (metis prod_cases3)
  show ?case
  proof (cases "snd is")
    case True
    note IH = "2.IH" [OF _ g [symmetric] refl e [symmetric] refl]
    show ?thesis
      using "2.prems" g e True IH set_entry_distinct
      by (cases event) (auto split: option.splits prod.splits if_splits)
  qed (use "2.prems" in simp)
qed simp

definition parsed_file :: "bytes \<Rightarrow> settings" where
  "parsed_file file = (case parseConfigLines [] [] (file, True) of Some (_, m, _) \<Rightarrow> m | None \<Rightarrow> [])"

lemma parsed_distinct: "distinct (map fst (parsed_file file))"
proof (cases "parseConfigLines [] [] (file, True)")
  case (Some x)
  obtain ok m r where "x = (ok, m, r)" by (metis prod_cases3)
  with Some parse_distinct [of _ "[]" "[]" "(file, True)" ok m r] show ?thesis
    by (simp add: parsed_file_def parseConfigLines_def del: parse_lines.simps)
qed (simp add: parsed_file_def)

text \<open>What a world says of a mod, if it is to be loaded.\<close>

definition load_value :: "settings \<Rightarrow> bytes \<Rightarrow> bytes option" where
  "load_value conf k =
     (case map_of conf (LOAD_MOD @ k) of
        Some (Value v) \<Rightarrow> if v \<noteq> lit ''false'' \<and> v \<noteq> lit ''nil'' then Some v else None
      | _ \<Rightarrow> None)"

definition is_group :: "bytes \<times> SettingsEntry \<Rightarrow> bool" where
  "is_group x \<longleftrightarrow> (case snd x of Group _ \<Rightarrow> True | Value _ \<Rightarrow> False)"

lemma LOAD_MOD_length: "length LOAD_MOD = 9"
  by (simp add: lit_def)

lemma load_prefix: "take 9 n = LOAD_MOD \<longleftrightarrow> n = LOAD_MOD @ drop 9 n"
  by (metis LOAD_MOD_length append_eq_conv_conj append_take_drop_id)

lemma load_drop: "drop 9 (LOAD_MOD @ k) = k" "take 9 (LOAD_MOD @ k) = LOAD_MOD"
  using LOAD_MOD_length by simp_all

lemma load_value_Cons:
  assumes "n \<notin> fst ` set es"
  shows "load_value ((n, Value v) # es) =
    (if take 9 n = LOAD_MOD \<and> v \<noteq> lit ''false'' \<and> v \<noteq> lit ''nil'' then (load_value es)(drop 9 n \<mapsto> v) else load_value es)"
proof
  fix k
  have none: "map_of es n = None" using assms by (simp add: map_of_eq_None_iff)
  show "load_value ((n, Value v) # es) k =
    (if take 9 n = LOAD_MOD \<and> v \<noteq> lit ''false'' \<and> v \<noteq> lit ''nil'' then (load_value es)(drop 9 n \<mapsto> v) else load_value es) k"
  proof (cases "n = LOAD_MOD @ k")
    case True
    then have "drop 9 n = k" "take 9 n = LOAD_MOD" using load_drop by simp_all
    with True none show ?thesis by (simp add: load_value_def)
  next
    case False
    then have "\<not> (take 9 n = LOAD_MOD \<and> drop 9 n = k)" using load_prefix by metis
    with False show ?thesis by (auto simp: load_value_def)
  qed
qed

lemma load_lines_correct:
  assumes "distinct (map fst es)" and "\<forall>(n, e)\<in>set es. map_of conf n = Some e" and "dom M \<inter> dom (load_value es) = {}"
  shows "load_lines conf (map fst es) M =
    (case find is_group es of Some (n, _) \<Rightarrow> Inl (SettingNotFound n) | None \<Rightarrow> Inr (M ++ load_value es))"
  using assms
proof (induction es arbitrary: M)
  case Nil
  have "load_value [] = Map.empty" by (simp add: load_value_def fun_eq_iff)
  then show ?case by simp
next
  case (Cons x es)
  obtain n e where x: "x = (n, e)" by (cases x)
  have n: "map_of conf n = Some e" using Cons.prems(2) x by auto
  show ?case
  proof (cases e)
    case (Group g)
    with n x show ?thesis by (simp add: get_setting_def bind_ok_def is_group_def)
  next
    case (Value v)
    have new: "n \<notin> fst ` set es" using Cons.prems(1) x by simp
    note lv = load_value_Cons [OF new, of v]
    define P where "P \<longleftrightarrow> take 9 n = LOAD_MOD \<and> v \<noteq> lit ''false'' \<and> v \<noteq> lit ''nil''"
    let ?M = "if P then M(drop 9 n \<mapsto> v) else M"
    have fresh: "drop 9 n \<notin> dom (load_value es)" if P
    proof -
      have "LOAD_MOD @ drop 9 n = n" using that load_prefix by (metis P_def)
      moreover have "map_of es n = None" using new by (simp add: map_of_eq_None_iff)
      ultimately show ?thesis by (simp add: load_value_def domIff)
    qed
    have dis: "dom ?M \<inter> dom (load_value es) = {}"
      using Cons.prems(3) fresh x Value lv unfolding P_def [symmetric] by (auto split: if_splits)
    have M: "?M ++ load_value es = M ++ load_value (x # es)"
      using fresh unfolding x Value lv P_def [symmetric] by (auto simp: map_add_upd_left domIff)
    have step: "load_lines conf (map fst (x # es)) M = load_lines conf (map fst es) ?M"
      by (simp add: x n Value P_def get_setting_def bind_ok_def)
    have grp: "find is_group (x # es) = find is_group es" by (simp add: x Value is_group_def)
    have "distinct (map fst es)" "\<forall>(n, e)\<in>set es. map_of conf n = Some e" using Cons.prems(1,2) by simp_all
    from Cons.IH [OF this dis] show ?thesis unfolding step grp M .
  qed
qed

definition picked :: "(bytes \<rightharpoonup> bytes) \<Rightarrow> ModSpec \<Rightarrow> bool" where
  "picked load m \<longleftrightarrow> (case load (name m) of None \<Rightarrow> False | Some v \<Rightarrow> is_yes v \<or> v = virtual_path m)"

lemma pick_mods_correct:
  "fst (pick_mods load ms r) = fst r @ filter (picked load) ms"
  "snd (pick_mods load ms r) k = [] \<longleftrightarrow>
     snd r k = [] \<and> (\<forall>m\<in>set ms. name m = k \<and> load k \<noteq> None \<longrightarrow> picked load m)"
proof (induction ms arbitrary: r)
  case (Cons m ms)
  {
    case 1
    show ?case using Cons.IH(1) by (cases r) (auto simp: picked_def split: option.splits)
  next
    case 2
    show ?case using Cons.IH(2) by (cases r) (auto simp: picked_def split: option.splits)
  }
qed simp_all

lemma gather_append: "gather mods_in ps acc = map_sum id (\<lambda>ms. acc @ ms) (gather mods_in ps [])"
proof (induction ps arbitrary: acc)
  case (Cons p ps)
  show ?case
  proof (cases "mods_in p")
    case (Inr ms)
    with Cons.IH [of "acc @ ms"] Cons.IH [of ms] show ?thesis
      by (cases "gather mods_in ps []") (simp_all add: bind_ok_def)
  qed (simp add: bind_ok_def)
qed simp

lemma pick_paths_correct:
  "gather mods_in ps [] = Inr ms \<Longrightarrow> pick_paths mods_in load ps r = Inr (pick_mods load ms r)"
proof (induction ps arbitrary: ms r)
  case (Cons p ps)
  have app: "pick_mods load (a @ b) r = pick_mods load b (pick_mods load a r)" for a b r
    by (induction load a r rule: pick_mods.induct) simp_all
  obtain a where a: "mods_in p = Inr a" using Cons.prems by (cases "mods_in p") (simp_all add: bind_ok_def)
  obtain b where b: "gather mods_in ps [] = Inr b" "ms = a @ b"
    using Cons.prems a gather_append [of mods_in ps a] by (cases "gather mods_in ps []") (auto simp: bind_ok_def)
  show ?case using Cons.IH [OF b(1), of "pick_mods load a r"] by (simp add: a b(2) app bind_ok_def)
qed simp

lemma fold_remove: "fold (\<lambda>n m. snd (remove_setting (g n) m)) ns conf = filter (\<lambda>(n, e). n \<notin> g ` set ns) conf"
proof (induction ns arbitrary: conf)
  case (Cons n ns)
  have "filter (\<lambda>(k, e). k \<notin> g ` set ns) (filter (\<lambda>(k, _). k \<noteq> g n) conf) =
      filter (\<lambda>(k, e). k \<notin> g ` set (n # ns)) conf"
    by (auto simp: filter_filter intro!: filter_cong)
  then show ?case using Cons.IH by (simp add: remove_setting_def)
qed simp

lemma foldl_erase: "foldl (\<lambda>l m. l(name m := None)) load us k = (if k \<in> names_of us then None else load k)"
  by (induction us arbitrary: load) auto

text \<open>
  A line that names a mod which is to be loaded but is nowhere, and any line that names a mod.
\<close>

definition stale_line :: "bytes set \<Rightarrow> settings \<Rightarrow> bytes \<times> SettingsEntry \<Rightarrow> bool" where
  "stale_line known conf x \<longleftrightarrow>
     take 9 (fst x) = LOAD_MOD \<and> load_value conf (drop 9 (fst x)) \<noteq> None \<and> drop 9 (fst x) \<notin> known"

definition mod_line :: "bytes \<times> SettingsEntry \<Rightarrow> bool" where
  "mod_line x \<longleftrightarrow> take 9 (fst x) = LOAD_MOD"

lemma mods_of_ok:
  "distinct (map name (m_unsatisfied_mods (mods_of levels f l)))"
  "m_name_conflicts (mods_of levels f l) \<subseteq> names_of (m_unsatisfied_mods (mods_of levels f l))"
  using levels_run [of levels] by simp_all

lemma added_names:
  assumes "distinct (map name (m_unsatisfied_mods c))" and "m_name_conflicts c \<subseteq> names_of (m_unsatisfied_mods c)"
    and m: "m \<in> set new"
  shows "name m \<in> names_of (m_unsatisfied_mods (addMods new c))"
proof -
  have "top_level new (name m) \<noteq> []"
    using m by (cases "modpack_depth m > 0") (auto simp: top_level_def of_round_def Let_def filter_empty_conv)
  then have "mod_at (m_unsatisfied_mods (addMods new c)) (name m) \<noteq> None"
    using addMods_correct(3) [OF assms(1,2), of new "name m"] by simp
  then show ?thesis by (simp add: mod_at_None)
qed

lemma world_run:
  fixes c :: mod_config and "file" :: bytes
  assumes inst: "gather mods_in modPaths [] = Inr installed"
    and c: "distinct (map name (m_unsatisfied_mods c))" "m_name_conflicts c \<subseteq> names_of (m_unsatisfied_mods c)"
  defines "conf \<equiv> parsed_file file"
  defines "c' \<equiv> addMods (filter (picked (load_value conf)) installed) c"
  shows "addModsFromConfig False mods_in file modPaths c =
    (case find is_group conf of
       Some (n, _) \<Rightarrow> Inl (SettingNotFound n)
     | None \<Rightarrow> Inr (c', update_file
         (filter (\<lambda>x. \<not> stale_line (names_of (m_unsatisfied_mods c') \<union> names_of installed) conf x) conf) file))"
proof -
  let ?load = "load_value conf"
  have d: "distinct (map fst conf)" unfolding conf_def by (rule parsed_distinct)
  have ll: "load_lines conf (map fst conf) Map.empty =
    (case find is_group conf of Some (n, _) \<Rightarrow> Inl (SettingNotFound n) | None \<Rightarrow> Inr ?load)"
    using load_lines_correct [OF d, of conf Map.empty] d by (auto simp: map_of_is_SomeI split: option.splits)
  define load' where "load' = foldl (\<lambda>l m. l(name m := None)) ?load (m_unsatisfied_mods c')"
  obtain cand where pm: "pick_mods ?load installed ([], \<lambda>_. []) = (filter (picked ?load) installed, cand)"
    using pick_mods_correct(1) [of ?load installed "([], \<lambda>_. [])"]
    by (cases "pick_mods ?load installed ([], \<lambda>_. [])") simp
  then have cand: "cand k = [] \<longleftrightarrow> (\<forall>m\<in>set installed. name m = k \<and> ?load k \<noteq> None \<longrightarrow> picked ?load m)" for k
    using pick_mods_correct(2) [of ?load installed "([], \<lambda>_. [])" k] by simp
  have un: "load' k \<noteq> None \<and> cand k = [] \<longleftrightarrow>
      ?load k \<noteq> None \<and> k \<notin> names_of (m_unsatisfied_mods c') \<union> names_of installed" for k
  proof -
    have "name m \<in> names_of (m_unsatisfied_mods c')" if "m \<in> set installed" "picked ?load m" for m
      unfolding c'_def by (rule added_names [OF c]) (use that in simp)
    then show ?thesis unfolding cand load'_def foldl_erase by auto
  qed
  define uns where "uns = filter (\<lambda>n. load' n \<noteq> None \<and> cand n = []) (map (drop 9) (filter (\<lambda>n. take 9 n = LOAD_MOD) (map fst conf)))"
  have kept: "filter (\<lambda>(n, e). n \<notin> (\<lambda>n. LOAD_MOD @ n) ` set uns) conf =
      filter (\<lambda>x. \<not> stale_line (names_of (m_unsatisfied_mods c') \<union> names_of installed) conf x) conf"
  proof (intro filter_cong refl)
    fix x assume "x \<in> set conf"
    obtain n e where x: "x = (n, e)" by (cases x)
    have "n \<in> (\<lambda>n. LOAD_MOD @ n) ` set uns \<longleftrightarrow> take 9 n = LOAD_MOD \<and> drop 9 n \<in> set uns"
    proof
      show "n \<in> (\<lambda>n. LOAD_MOD @ n) ` set uns \<Longrightarrow> take 9 n = LOAD_MOD \<and> drop 9 n \<in> set uns"
        using load_drop by (elim imageE) simp
      show "take 9 n = LOAD_MOD \<and> drop 9 n \<in> set uns \<Longrightarrow> n \<in> (\<lambda>n. LOAD_MOD @ n) ` set uns"
        by (rule image_eqI [of _ _ "drop 9 n"]) (simp_all add: load_prefix [symmetric])
    qed
    also have "\<dots> \<longleftrightarrow> take 9 n = LOAD_MOD \<and> load' (drop 9 n) \<noteq> None \<and> cand (drop 9 n) = []"
      using \<open>x \<in> set conf\<close> x by (force simp: uns_def)
    finally show "(case x of (n, e) \<Rightarrow> n \<notin> (\<lambda>n. LOAD_MOD @ n) ` set uns) \<longleftrightarrow>
        \<not> stale_line (names_of (m_unsatisfied_mods c') \<union> names_of installed) conf x"
      unfolding x stale_line_def un by simp
  qed
  show ?thesis
  proof (cases "find is_group conf")
    case (Some x)
    then show ?thesis
      unfolding addModsFromConfig_def parsed_file_def [symmetric] conf_def [symmetric] Let_def ll
      by (cases x) (simp add: bind_ok_def)
  next
    case None
    then show ?thesis
      unfolding addModsFromConfig_def parsed_file_def [symmetric] conf_def [symmetric] Let_def ll
        pick_paths_correct [OF inst] bind_ok_def
      by (simp only: if_False option.case sum.case pm prod.case c'_def [symmetric] load'_def [symmetric]
          uns_def [symmetric] fold_remove kept)
  qed
qed

lemma clear_run:
  "snd (clearModList conf file) =
     (if \<exists>x\<in>set conf. mod_line x then update_file (filter (\<lambda>x. \<not> mod_line x) conf) file else file)"
proof -
  define stale where "stale = filter (\<lambda>n. take 9 n = LOAD_MOD) (map fst conf)"
  have "fold (\<lambda>n m. snd (remove_setting n m)) stale conf = filter (\<lambda>(n, e). n \<notin> (\<lambda>n. n) ` set stale) conf"
    by (rule fold_remove)
  also have "\<dots> = filter (\<lambda>x. \<not> mod_line x) conf"
    by (rule filter_cong) (force simp: stale_def mod_line_def)+
  finally have f: "fold (\<lambda>n m. snd (remove_setting n m)) stale conf = filter (\<lambda>x. \<not> mod_line x) conf" .
  have "stale = [] \<longleftrightarrow> \<not> (\<exists>x\<in>set conf. mod_line x)" by (auto simp: stale_def mod_line_def filter_empty_conv)
  then show ?thesis unfolding clearModList_def stale_def [symmetric] Let_def f by simp
qed

lemma world_all:
  assumes "gather mods_in modPaths [] = Inr installed"
  shows "addModsFromConfig True mods_in file modPaths c =
    Inr (addMods installed c, if \<exists>x\<in>set (parsed_file file). mod_line x
      then update_file (filter (\<lambda>x. \<not> mod_line x) (parsed_file file)) file else file)"
  unfolding addModsFromConfig_def parsed_file_def [symmetric] Let_def
  by (simp only: if_True addModsFromPaths_def assms bind_ok_def sum.case clear_run)

text \<open>
  C36.  Of the installed mods those are added that the world names with a yes or with just their
  place, in their order; afterwards the file of the world is without the lines of the mods that are
  nowhere and otherwise as it was.  If the mod folders decide, all installed mods are added and the
  file names none.  One group among the settings of the world and nothing is loaded at all.
\<close>

theorem world_mods:
  assumes "gather mods_in modPaths [] = Inr installed"
  shows "let conf = parsed_file file; c = mods_of levels f l;
      c' = addMods (filter (picked (load_value conf)) installed) c;
      known = names_of (m_unsatisfied_mods c') \<union> names_of installed in
    addModsFromConfig False mods_in file modPaths c =
      (case find is_group conf of
         Some (n, _) \<Rightarrow> Inl (SettingNotFound n)
       | None \<Rightarrow> Inr (c', update_file (filter (\<lambda>x. \<not> stale_line known conf x) conf) file)) \<and>
    addModsFromConfig True mods_in file modPaths c =
      Inr (addMods installed c,
        if \<exists>x\<in>set conf. mod_line x then update_file (filter (\<lambda>x. \<not> mod_line x) conf) file else file)"
  unfolding Let_def by (intro conjI world_run [OF assms mods_of_ok] world_all [OF assms])

definition sample_world :: bytes where
  "sample_world = lit ''load_mod_a = true'' @ [NEWLINE] @ lit ''load_mod_b = 1'' @ [NEWLINE] @ lit ''x = y'' @ [NEWLINE]"

definition sample_in :: "bytes \<times> bytes \<Rightarrow> mod_error + ModSpec list" where
  "sample_in modPath = Inr [sample_mod [97] {}]"

lemma sample_mod_name: "name (sample_mod n ds) = n"
  by (simp add: sample_mod_def new_ModSpec_def)

lemma sample_world_file:
  "map_sum (\<lambda>_. ()) (\<lambda>(c, text). (map name (m_unsatisfied_mods c), text))
     (addModsFromConfig False sample_in sample_world [([], [])] (mods_of [] [] [])) =
   Inr ([[97]], lit ''load_mod_a = true'' @ [NEWLINE] @ lit ''x = y'' @ [NEWLINE])"
  by code_simp

theorem world_mods_witness:
  "let conf = parsed_file sample_world;
      c' = addMods (filter (picked (load_value conf)) [sample_mod [97] {}]) (mods_of [] [] []) in
    find is_group conf = None \<and>
    update_file (filter (\<lambda>x. \<not> stale_line (names_of (m_unsatisfied_mods c') \<union> {[97]}) conf x) conf) sample_world =
      lit ''load_mod_a = true'' @ [NEWLINE] @ lit ''x = y'' @ [NEWLINE]"
proof -
  have "gather sample_in [([], [])] [] = Inr [sample_mod [97] {}]" by (simp add: sample_in_def bind_ok_def)
  from world_mods [OF this, of sample_world "[]" "[]" "[]"] sample_world_file show ?thesis
    by (simp add: Let_def sample_mod_name del: filter.simps split: option.splits prod.splits)
qed

section \<open>Mods of one directory under one name\<close>

lemma bytes_less_iff: "bytes_less a b \<longleftrightarrow> a < b"
  by (induction a b rule: bytes_less.induct) auto

lemma sort_sorts: "sorts_mods (sort_key (\<lambda>m. caseless (name m)))"
proof -
  have "sorted_wrt (\<lambda>a b. \<not> ModSpecCompare b a) (sort_key (\<lambda>m. caseless (name m)) ms)" for ms
    using sorted_sort_key [of "\<lambda>m. caseless (name m)" ms]
    by (simp add: sorted_map ModSpecCompare_def bytes_less_iff not_less)
  then show ?thesis by (simp add: sorts_mods_def)
qed

lemma same_name_run:
  assumes "getModsInPath ap es p v 0 = Inr ts" and "sorts_mods sorting" and m: "m \<in> set (flattenMods sorting ts True)"
    and d: "modpack_depth m = 0"
  shows "name m \<notin> m_name_conflicts (addMods (flattenMods sorting ts True) empty_config)"
proof
  let ?ms = "flattenMods sorting ts True"
  assume c: "name m \<in> m_name_conflicts (addMods ?ms empty_config)"
  have ne: "of_round False ?ms (name m) \<noteq> []" using m d by (auto simp: of_round_def filter_empty_conv)
  then have "2 \<le> length (of_round False ?ms (name m))"
    using c addMods_correct(4) [of empty_config, where new = ?ms and k = "name m"] by (simp add: empty_config_def top_level_def Let_def)
  moreover have "length (of_round False ?ms (name m)) \<le> 1"
  proof -
    have "distinct (map (\<lambda>m. caseless (name m)) (of_round False ?ms (name m)))"
      using distinct_map_filter [OF top_names_distinct [OF assms(1,2)], of "\<lambda>x. name x = name m"]
      by (simp add: of_round_def filter_filter conj_commute)
    moreover have "set (map (\<lambda>m. caseless (name m)) (of_round False ?ms (name m))) \<subseteq> {caseless (name m)}"
      by (auto simp: of_round_def)
    ultimately show ?thesis by (metis card_mono card.insert card.empty distinct_card empty_iff finite.intros length_map One_nat_def)
  qed
  ultimately show False by simp
qed

definition sample_dir :: dir where
  "sample_dir =
     (let files = [(lit ''init.lua'', File_node []), (lit ''mod.conf'', File_node (lit ''name = x''))] in
      [([97], Dir_node files), ([98], Dir_node files)])"

text \<open>Two directories \<open>a\<close> and \<open>b\<close>, each with a mod that is called \<open>x\<close>.\<close>

lemma sample_dir_mods:
  "map_sum (\<lambda>_. ()) (map (\<lambda>t. (path (spec t), name (spec t), modpack_depth (spec t), is_modpack (spec t))))
     (getModsInPath (\<lambda>p. p) sample_dir [112] [118] 0) = Inr [([112, 47, 97], [120], 0, False)]"
  by code_simp

text \<open>
  C37.  Whatever is in a directory: of the mods outside of modpacks no two have one name, up to case,
  once it has been read, since all but one of them are dropped; so that no conflict between mods
  of a directory that are in no modpack is ever found.
\<close>

theorem same_name_not_reported:
  assumes "getModsInPath ap es p v 0 = Inr ts" and "sorts_mods sorting"
  shows "let ms = flattenMods sorting ts True in
    distinct (map (\<lambda>m. caseless (name m)) (filter (\<lambda>m. modpack_depth m = 0) ms)) \<and>
    (\<forall>m\<in>set ms. modpack_depth m = 0 \<longrightarrow> name m \<notin> m_name_conflicts (addMods ms empty_config))"
  using top_names_distinct [OF assms] same_name_run [OF assms] by (simp add: Let_def)

theorem same_name_not_reported_witness:
  "\<exists>ts. getModsInPath (\<lambda>p. p) sample_dir [112] [118] 0 = Inr ts \<and>
     map path (flattenMods (sort_key (\<lambda>m. caseless (name m))) ts True) = [[112, 47, 97]] \<and>
     [120] \<notin> m_name_conflicts (addMods (flattenMods (sort_key (\<lambda>m. caseless (name m))) ts True) empty_config)"
proof (cases "getModsInPath (\<lambda>p. p) sample_dir [112] [118] 0")
  case (Inr ts)
  then obtain t where t: "ts = [t]" "path (spec t) = [112, 47, 97]" "name (spec t) = [120]"
    "modpack_depth (spec t) = 0" "\<not> is_modpack (spec t)" using sample_dir_mods by auto
  then have "flattenMods (sort_key (\<lambda>m. caseless (name m))) ts True = [spec t]"
    by (cases t) (simp add: flattenMods_def)
  with same_name_not_reported [OF Inr sort_sorts] t Inr show ?thesis by (simp add: Let_def)
qed (use sample_dir_mods in simp)

end
