(* ===== verification/Base64.thy ===== *)
theory Base64
  imports Text
begin

text \<open>
  Base64 (\<open>src/util/base64.cpp\<close>) and its variant for URLs (\<open>src/server/ticket.cpp\<close>).
\<close>

section \<open>Characters\<close>

definition base64_chars :: bytes where
  "base64_chars = lit ''ABCDEFGHIJKLMNOPQRSTUVWXYZabcdefghijklmnopqrstuvwxyz0123456789+/''"

definition base64_chars_padding_1 :: bytes where
  "base64_chars_padding_1 = lit ''AEIMQUYcgkosw048''"

definition base64_chars_padding_2 :: bytes where
  "base64_chars_padding_2 = lit ''AQgw''"

definition is_base64 :: "u8 \<Rightarrow> bool" where
  "is_base64 c \<longleftrightarrow> 48 \<le> c \<and> c \<le> 57 \<or> 65 \<le> c \<and> c \<le> 90 \<or> 97 \<le> c \<and> c \<le> 122 \<or> c = 43 \<or> c = 47"

text \<open>\<open>find\<close>, cut to an \<open>unsigned char\<close>: \<open>npos\<close> becomes 255.\<close>

fun find_from :: "nat \<Rightarrow> u8 \<Rightarrow> bytes \<Rightarrow> u8" where
  "find_from i c [] = 255"
| "find_from i c (x # xs) = (if x = c then of_nat i else find_from (Suc i) c xs)"

definition base64_find :: "u8 \<Rightarrow> u8" where
  "base64_find c = find_from 0 c base64_chars"

section \<open>Checking, encoding, decoding\<close>

definition base64_is_valid :: "bytes \<Rightarrow> bool" where
  "base64_is_valid s =
     (let i = length (takeWhile is_base64 s);
          padding = 3 - (i + 3) mod 4 in
      if padding = 1 \<and> s ! (i - 1) \<notin> set base64_chars_padding_1 \<or>
         padding = 2 \<and> s ! (i - 1) \<notin> set base64_chars_padding_2 \<or> padding = 3 then False
      else
        let actual_padding = length s - i in
        if actual_padding = 0 then True
        else if \<not> list_all (\<lambda>c. c = 61) (drop i s) then False
        else padding = actual_padding)"

definition char4 :: "u8 \<Rightarrow> u8 \<Rightarrow> u8 \<Rightarrow> u8 list" where
  "char4 a b c =
     [drop_bit 2 (and a 0xfc), push_bit 4 (and a 0x03) + drop_bit 4 (and b 0xf0),
      push_bit 2 (and b 0x0f) + drop_bit 6 (and c 0xc0), and c 0x3f]"

definition enc_char :: "u8 \<Rightarrow> u8" where
  "enc_char x = base64_chars ! unat x"

fun base64_encode :: "bytes \<Rightarrow> bytes" where
  "base64_encode (a # b # c # s) = map enc_char (char4 a b c) @ base64_encode s"
| "base64_encode [] = []"
| "base64_encode [a] = map enc_char (take 2 (char4 a 0 0))"
| "base64_encode [a, b] = map enc_char (take 3 (char4 a b 0))"

definition char3 :: "u8 \<Rightarrow> u8 \<Rightarrow> u8 \<Rightarrow> u8 \<Rightarrow> u8 list" where
  "char3 a b c d =
     [push_bit 2 a + drop_bit 4 (and b 0x30), push_bit 4 (and b 0xf) + drop_bit 2 (and c 0x3c),
      push_bit 6 (and c 0x3) + d]"

text \<open>The characters up to the first that is not of the alphabet, in groups of four.\<close>

fun decode_groups :: "bytes \<Rightarrow> bytes" where
  "decode_groups (a # b # c # d # s) =
     char3 (base64_find a) (base64_find b) (base64_find c) (base64_find d) @ decode_groups s"
| "decode_groups s =
     take (length s - 1)
       (let p = map base64_find (s @ replicate (4 - length s) 0) in char3 (p ! 0) (p ! 1) (p ! 2) (p ! 3))"

definition base64_decode :: "bytes \<Rightarrow> bytes" where
  "base64_decode s = decode_groups (takeWhile (\<lambda>c. c \<noteq> 61 \<and> is_base64 c) s)"

text \<open>The variant for URLs: other letters for 62 and 63, and the padding is added.\<close>

definition base64url_decode :: "bytes \<Rightarrow> bytes" where
  "base64url_decode s =
     (let plain = map (\<lambda>c. if c = 45 then 43 else if c = 95 then 47 else c) s;
          plain = plain @ replicate ((4 - length plain mod 4) mod 4) 61 in
      if \<not> base64_is_valid plain then [] else base64_decode plain)"

section \<open>What was encoded is read back\<close>

lemma base64_chars_eq: "base64_chars = map of_nat ([65..<91] @ [97..<123] @ [48..<58] @ [43..<44] @ [47..<48])"
  by (simp add: base64_chars_def lit_def upt_rec)

lemma find_from_upt:
  "b \<le> 256 \<Longrightarrow> find_from i c (map of_nat [a..<b] @ r) =
     (if a \<le> unat c \<and> unat c < b then of_nat (i + (unat c - a)) else find_from (i + (b - a)) c r)"
proof (induction "b - a" arbitrary: a i)
  case 0
  then show ?case by auto
next
  case (Suc n)
  then have a: "a < b" "[a..<b] = a # [Suc a..<b]" by (simp_all add: upt_conv_Cons)
  have u: "unat (of_nat a :: u8) = a" using a Suc.prems by (simp add: unat_of_nat)
  then have eq: "of_nat a = c \<longleftrightarrow> unat c = a" by (metis word_unat_eq_iff)
  have "Suc i + (b - Suc a) = i + (b - a)" "Suc a \<le> unat c \<Longrightarrow> Suc i + (unat c - Suc a) = i + (unat c - a)"
    using a by simp_all
  then show ?case using Suc.hyps(1) [of "Suc a" "Suc i"] Suc.hyps(2) Suc.prems a eq by auto
qed

lemma base64_find_eq:
  "base64_find c =
     (let n = unat c in
      if 65 \<le> n \<and> n < 91 then of_nat (n - 65) else if 97 \<le> n \<and> n < 123 then of_nat (26 + (n - 97))
      else if 48 \<le> n \<and> n < 58 then of_nat (52 + (n - 48)) else if n = 43 then 62 else if n = 47 then 63 else 255)"
proof -
  have "base64_find c = find_from 0 c (map of_nat [65..<91] @ map of_nat [97..<123] @ map of_nat [48..<58] @
      map of_nat [43..<44] @ map of_nat [47..<48] @ [])"
    by (simp only: base64_find_def base64_chars_eq map_append append_Nil2)
  then show ?thesis by (simp only: find_from_upt) (auto simp: Let_def)
qed

lemma u8_eqI:
  fixes x y :: u8
  assumes "bit x 0 = bit y 0" "bit x 1 = bit y 1" "bit x 2 = bit y 2" "bit x 3 = bit y 3"
    "bit x 4 = bit y 4" "bit x 5 = bit y 5" "bit x 6 = bit y 6" "bit x 7 = bit y 7"
  shows "x = y"
proof (rule bit_word_eqI)
  fix n assume "n < LENGTH(8)"
  then have "n \<in> {0, 1, 2, 3, 4, 5, 6, 7}" by auto
  with assms show "bit x n = bit y n" by auto
qed

lemma u8_add_or: "x AND y = (0::u8) \<Longrightarrow> x + y = x OR y"
  by (rule disjunctive_add_eq_or)

lemma char4_or:
  "push_bit 4 (and a 0x03) + drop_bit 4 (and b 0xf0) = push_bit 4 (and a (0x03::u8)) OR drop_bit 4 (and b 0xf0)"
  "push_bit 2 (and b 0x0f) + drop_bit 6 (and c 0xc0) = push_bit 2 (and b (0x0f::u8)) OR drop_bit 6 (and c 0xc0)"
  by (rule u8_add_or, rule u8_eqI; simp add: bit_simps)+

lemma char3_or:
  "push_bit 2 a + drop_bit 4 (and b 0x30) = push_bit 2 (a::u8) OR drop_bit 4 (and b 0x30)"
  "push_bit 4 (and b 0xf) + drop_bit 2 (and c 0x3c) = push_bit 4 (and b (0xf::u8)) OR drop_bit 2 (and c 0x3c)"
  by (rule u8_add_or, rule u8_eqI; simp add: bit_simps)+

lemma char3_char4: "char4 a b c = [w, x, y, z] \<Longrightarrow> char3 w x y z = [a, b, c]"
proof -
  have 3: "push_bit 6 (and (push_bit 2 (and b (0x0f::u8)) OR drop_bit 6 (and c 0xc0)) 0x3) + and c 0x3f = c"
    by (subst u8_add_or; rule u8_eqI; simp add: bit_simps)
  have 1: "push_bit 2 (drop_bit 2 (and a 0xfc)) OR
      drop_bit 4 (and (push_bit 4 (and a 0x03) OR drop_bit 4 (and b 0xf0)) 0x30) = (a::u8)"
    by (rule u8_eqI; simp add: bit_simps)
  have 2: "push_bit 4 (and (push_bit 4 (and a 0x03) OR drop_bit 4 (and b 0xf0)) 0xf) OR
      drop_bit 2 (and (push_bit 2 (and b 0x0f) OR drop_bit 6 (and c 0xc0)) 0x3c) = (b::u8)"
    by (rule u8_eqI; simp add: bit_simps)
  assume "char4 a b c = [w, x, y, z]"
  then have "w = drop_bit 2 (and a 0xfc)" "x = push_bit 4 (and a 0x03) OR drop_bit 4 (and b 0xf0)"
    "y = push_bit 2 (and b 0x0f) OR drop_bit 6 (and c 0xc0)" "z = and c 0x3f"
    unfolding char4_def char4_or by (simp_all only: list.inject)
  then show ?thesis unfolding char3_def char3_or by (simp only: 1 2 3)
qed

lemma char4_small: "x \<in> set (char4 a b c) \<Longrightarrow> x < 64"
proof -
  have small: "x < 64" if "\<not> bit x 6" "\<not> bit x 7" for x :: u8
  proof -
    have "x = take_bit 6 x" by (rule u8_eqI; use that in \<open>simp add: bit_simps\<close>)
    then have "unat x = unat x mod 2 ^ 6" by (metis take_bit_eq_mod unsigned_take_bit_eq)
    moreover have "unat x mod 2 ^ 6 < 64" by simp
    ultimately have "unat x < 64" by linarith
    then show ?thesis by (simp add: word_less_nat_alt)
  qed
  show "x \<in> set (char4 a b c) \<Longrightarrow> x < 64"
    unfolding char4_def char4_or by (auto intro!: small simp: bit_simps)
qed

lemma base64_alphabet:
  "list_all (\<lambda>i. is_base64 (base64_chars ! i) \<and> base64_chars ! i \<noteq> 61 \<and> base64_find (base64_chars ! i) = of_nat i) [0..<64]"
  by (simp add: upt_rec base64_chars_def lit_def base64_find_eq is_base64_def Let_def)

lemma enc_char:
  assumes "x < 64"
  shows "is_base64 (enc_char x)" "enc_char x \<noteq> 61" "base64_find (enc_char x) = x"
proof -
  have "unat x < 64" using assms by (simp add: word_less_nat_alt)
  with base64_alphabet show "is_base64 (enc_char x)" "enc_char x \<noteq> 61" "base64_find (enc_char x) = x"
    by (simp_all add: enc_char_def list_all_iff)
qed

lemma enc_chars: "\<forall>x\<in>set (base64_encode s). is_base64 x \<and> x \<noteq> 61"
proof (induction s rule: base64_encode.induct)
  case (1 a b c s)
  then show ?case by (auto simp: enc_char char4_small [of _ a b c])
next
  case (3 a)
  then show ?case by (auto simp: enc_char char4_small [of _ a 0 0] dest!: in_set_takeD)
next
  case (4 a b)
  then show ?case by (auto simp: enc_char char4_small [of _ a b 0] dest!: in_set_takeD)
qed simp

lemma char4_list: "\<exists>w x y z. char4 a b c = [w, x, y, z]"
  by (simp add: char4_def)

lemma find_char4:
  assumes "char4 a b c = [w, x, y, z]"
  shows "base64_find (enc_char w) = w" "base64_find (enc_char x) = x" "base64_find (enc_char y) = y"
    "base64_find (enc_char z) = z"
  using char4_small [of _ a b c] assms by (auto intro: enc_char)

lemma decode_encode_groups: "decode_groups (base64_encode s) = s"
proof (induction s rule: base64_encode.induct)
  case (1 a b c s)
  obtain w x y z where p: "char4 a b c = [w, x, y, z]" using char4_list by blast
  with 1 char3_char4 [OF p] show ?case by (simp add: find_char4 [OF p])
next
  case (3 a)
  obtain w x y z where p: "char4 a 0 0 = [w, x, y, z]" using char4_list by blast
  have "hd (char3 w x y' z') = a" for y' z' using char3_char4 [OF p] by (simp add: char3_def)
  then show ?case by (simp add: p find_char4 [OF p] Let_def) (simp add: char3_def)
next
  case (4 a b)
  obtain w x y z where p: "char4 a b 0 = [w, x, y, z]" using char4_list by blast
  have "take 2 (char3 w x y z') = [a, b]" for z' using char3_char4 [OF p] by (simp add: char3_def)
  then show ?case by (simp add: p find_char4 [OF p] Let_def numeral_3_eq_3 numeral_2_eq_2)
qed simp

lemma padded_decode:
  assumes "\<forall>c\<in>set ps. c = 61"
  shows "base64_decode (base64_encode s @ ps) = s"
proof -
  have "takeWhile (\<lambda>c. c \<noteq> 61 \<and> is_base64 c) (base64_encode s @ ps) = base64_encode s"
    using enc_chars [of s] assms by (cases ps) (auto simp: takeWhile_append takeWhile_eq_all_conv)
  then show ?thesis by (simp add: base64_decode_def decode_encode_groups)
qed

text \<open>The last character of a group that is not full.\<close>

definition last_ok :: "bytes \<Rightarrow> bool" where
  "last_ok s \<longleftrightarrow> length s mod 4 \<noteq> 1 \<and>
     (length s mod 4 = 2 \<longrightarrow> last s \<in> set base64_chars_padding_2) \<and>
     (length s mod 4 = 3 \<longrightarrow> last s \<in> set base64_chars_padding_1)"

lemma low_bits:
  "push_bit 4 (and a (3::u8)) \<in> (\<lambda>k. of_nat (16 * k)) ` {..<4}"
  "push_bit 2 (and b (15::u8)) \<in> (\<lambda>k. of_nat (4 * k)) ` {..<16}"
proof -
  have "a AND 3 = take_bit 2 a" by (rule u8_eqI; simp add: bit_simps)
  then have "unat (a AND 3) = take_bit 2 (unat a)" by (simp only: unsigned_take_bit_eq)
  then have a: "unat (a AND 3) < 4" by (simp add: take_bit_eq_mod)
  have "b AND 15 = take_bit 4 b" by (rule u8_eqI; simp add: bit_simps)
  then have "unat (b AND 15) = take_bit 4 (unat b)" by (simp only: unsigned_take_bit_eq)
  then have b: "unat (b AND 15) < 16" by (simp add: take_bit_eq_mod)
  have m: "push_bit n x = of_nat (2 ^ n * unat x)" for n and x :: u8
    by (simp add: push_bit_eq_mult mult.commute)
  show "push_bit 4 (and a (3::u8)) \<in> (\<lambda>k. of_nat (16 * k)) ` {..<4}"
    by (rule image_eqI [of _ _ "unat (a AND 3)"]) (simp_all only: m a lessThan_iff, simp)
  show "push_bit 2 (and b (15::u8)) \<in> (\<lambda>k. of_nat (4 * k)) ` {..<16}"
    by (rule image_eqI [of _ _ "unat (b AND 15)"]) (simp_all only: m b lessThan_iff, simp)
qed

lemma padding_chars:
  "list_all (\<lambda>k. enc_char (of_nat (16 * k)) \<in> set base64_chars_padding_2) [0..<4]"
  "list_all (\<lambda>k. enc_char (of_nat (4 * k)) \<in> set base64_chars_padding_1) [0..<16]"
  by code_simp+

lemma encode_last_ok: "last_ok (base64_encode s)"
proof (induction s rule: base64_encode.induct)
  case (1 a b c s)
  have "length (map enc_char (char4 a b c)) = 4" by (simp add: char4_def)
  moreover have "base64_encode s \<noteq> []" if "length (base64_encode s) mod 4 \<noteq> 0" using that by auto
  ultimately show ?case using 1 by (auto simp: last_ok_def)
next
  case (3 a)
  have "enc_char (push_bit 4 (and a 3)) \<in> set base64_chars_padding_2"
    using low_bits(1) [of a] padding_chars(1) unfolding list_all_iff by (elim imageE) (simp only: set_upt atLeastLessThan_iff lessThan_iff le0 simp_thms Ball_def)
  moreover have "take 2 (char4 a 0 0) = [drop_bit 2 (and a 0xfc), push_bit 4 (and a 3)]"
    by (simp add: char4_def numeral_2_eq_2 del: push_bit_and)
  ultimately show ?case by (simp only: last_ok_def base64_encode.simps) simp
next
  case (4 a b)
  have "enc_char (push_bit 2 (and b 15)) \<in> set base64_chars_padding_1"
    using low_bits(2) [of b] padding_chars(2) unfolding list_all_iff by (elim imageE) (simp only: set_upt atLeastLessThan_iff lessThan_iff le0 simp_thms Ball_def)
  moreover have "take 3 (char4 a b 0) = [drop_bit 2 (and a 0xfc), push_bit 4 (and a 3) + drop_bit 4 (and b 0xf0), push_bit 2 (and b 15)]"
    by (simp add: char4_def numeral_3_eq_3 del: push_bit_and)
  ultimately show ?case by (simp only: last_ok_def base64_encode.simps) simp
qed (simp add: last_ok_def)

lemma padded_valid:
  assumes "ps = [] \<or> ps = replicate ((4 - length (base64_encode s) mod 4) mod 4) 61"
  shows "base64_is_valid (base64_encode s @ ps)"
proof -
  define e where "e = base64_encode s"
  have ps: "\<forall>c\<in>set ps. c = 61" using assms by auto
  have "takeWhile is_base64 (e @ ps) = e"
    using enc_chars [of s] ps by (cases ps) (auto simp: e_def takeWhile_append takeWhile_eq_all_conv is_base64_def)
  then have i: "length (takeWhile is_base64 (e @ ps)) = length e" by simp
  have lo: "last_ok e" by (simp add: e_def encode_last_ok)
  have lst: "(e @ ps) ! (length e - 1) = last e" if "e \<noteq> []" using that by (simp add: nth_append last_conv_nth)
  define k where "k = length e mod 4"
  have k: "k < 4" "(length e + 3) mod 4 = (k + 3) mod 4" by (simp_all add: k_def mod_simps)
  have pad: "3 - (length e + 3) mod 4 = (4 - k) mod 4"
  proof -
    consider "k = 0" | "k = 1" | "k = 2" | "k = 3" using k(1) by linarith
    then show ?thesis unfolding k(2) by cases simp_all
  qed
  have ne: "e \<noteq> []" if "k \<noteq> 0" using that by (auto simp: k_def)
  have "\<not> ((4 - k) mod 4 = 1 \<and> (e @ ps) ! (length e - 1) \<notin> set base64_chars_padding_1 \<or>
      (4 - k) mod 4 = 2 \<and> (e @ ps) ! (length e - 1) \<notin> set base64_chars_padding_2 \<or> (4 - k) mod 4 = 3)"
  proof -
    consider "k = 0" | "k = 1" | "k = 2" | "k = 3" using k(1) by linarith
    then show ?thesis using lo lst ne unfolding last_ok_def k_def [symmetric] by cases simp_all
  qed
  moreover have "length (e @ ps) - length e \<noteq> 0 \<longrightarrow>
      list_all (\<lambda>c. c = 61) (drop (length e) (e @ ps)) \<and> (4 - k) mod 4 = length (e @ ps) - length e"
    using assms ps by (auto simp: list_all_iff e_def [symmetric] k_def [symmetric])
  ultimately show ?thesis unfolding base64_is_valid_def Let_def e_def [symmetric] i pad by auto
qed

definition to_url :: "bytes \<Rightarrow> bytes" where
  "to_url s = map (\<lambda>c. if c = 43 then 45 else if c = 47 then 95 else c) s"

text \<open>
  C40.  What was encoded is valid and is read back, without padding or with all of it, and in the
  variant for URLs too.
\<close>

theorem base64_roundtrip:
  "base64_is_valid (base64_encode s) \<and> base64_decode (base64_encode s) = s \<and>
   (let padded = base64_encode s @ replicate ((4 - length (base64_encode s) mod 4) mod 4) 61 in
    base64_is_valid padded \<and> base64_decode padded = s) \<and>
   base64url_decode (to_url (base64_encode s)) = s"
proof -
  let ?e = "base64_encode s"
  let ?p = "replicate ((4 - length ?e mod 4) mod 4) (61::u8)"
  have v: "base64_is_valid (?e @ [])" "base64_is_valid (?e @ ?p)" by (rule padded_valid; simp)+
  have d: "base64_decode (?e @ []) = s" "base64_decode (?e @ ?p) = s" by (rule padded_decode; simp)+
  have "map (\<lambda>c. if c = 45 then 43 else if c = 95 then 47 else c) (to_url ?e) = ?e"
    unfolding to_url_def map_map
    by (rule map_idI) (use enc_chars [of s] in \<open>auto simp: is_base64_def\<close>)
  then have "base64url_decode (to_url ?e) = s" using v(2) d(2) by (simp add: base64url_decode_def Let_def)
  with v d show ?thesis by (simp add: Let_def)
qed

end
