(* ===== verification/Ticket.thy ===== *)
theory Ticket
  imports Base64
begin

text \<open>
  Who a player is: tickets of the account service (\<open>src/server/ticket.cpp\<close>) and the form in which
  password verifiers are kept (\<open>src/util/auth.cpp\<close>).
\<close>

section \<open>Tickets\<close>

record TicketIdentity =
  ti_uid :: bytes
  ti_login :: bytes
  ti_display :: bytes
  ti_expires :: int
  ti_skin :: bytes

datatype TicketError = Malformed | BadSignature | Expired | WrongServer | NameMismatch
  | Unconvertible

text \<open>
  What is not of the program: \<open>crypto_sign_open\<close> of the library TweetNaCl (a signed message and a
  key), and the JSON reader.  \<open>j_parse\<close> is None
  if the text cannot be read or is no object; \<open>j_string v key d\<close> is \<open>v.get(key, d).asString()\<close> and
  \<open>j_int v key d\<close> is \<open>v.get(key, d).asInt64()\<close>, None when the conversion throws (an object is no
  text).  \<open>Unconvertible\<close> stands for that exception among the errors; it is no value of the enumeration.
\<close>

record 'j ticket_env =
  crypto_sign_open :: "bytes \<Rightarrow> bytes \<Rightarrow> bool"
  j_parse :: "bytes \<Rightarrow> 'j option"
  j_string :: "'j \<Rightarrow> bytes \<Rightarrow> bytes \<Rightarrow> bytes option"
  j_int :: "'j \<Rightarrow> bytes \<Rightarrow> int \<Rightarrow> int option"

text \<open>The check of a signature (\<open>src/util/ed25519.cpp\<close>).\<close>

definition PUBLIC_KEY_SIZE :: nat where
  "PUBLIC_KEY_SIZE = 32"

definition SIGNATURE_SIZE :: nat where
  "SIGNATURE_SIZE = 64"

definition ed25519_verify :: "'j ticket_env \<Rightarrow> bytes \<Rightarrow> bytes \<Rightarrow> bytes \<Rightarrow> bool" where
  "ed25519_verify te message signature public_key =
     (if length signature \<noteq> SIGNATURE_SIZE \<or> length public_key \<noteq> PUBLIC_KEY_SIZE then False
      else crypto_sign_open te (signature @ message) public_key)"

abbreviation DOT :: u8 where "DOT \<equiv> 46"

definition TICKET_PREFIX :: bytes where
  "TICKET_PREFIX = lit ''a1''"

definition authPublicKey :: bytes where
  "authPublicKey = base64_decode (lit ''Vsvo4JnNiJZ4CUaU/LJrYFF+C4ekjeG4e8wDCymP8MA='')"

definition is_hash :: "bytes \<Rightarrow> bool" where
  "is_hash s \<longleftrightarrow> length s = 64 \<and> list_all (\<lambda>c. c \<in> set (lit ''0123456789abcdef'')) s"

definition ticket_identity :: "'j ticket_env \<Rightarrow> 'j \<Rightarrow> TicketIdentity option" where
  "ticket_identity te payload =
     (case j_string te payload (lit ''uid'') [] of None \<Rightarrow> None | Some uid \<Rightarrow>
      case j_string te payload (lit ''login'') [] of None \<Rightarrow> None | Some login \<Rightarrow>
      case j_string te payload (lit ''name'') [] of None \<Rightarrow> None | Some display \<Rightarrow>
      case j_int te payload (lit ''exp'') 0 of None \<Rightarrow> None | Some expires \<Rightarrow>
      case j_string te payload (lit ''skn'') [] of None \<Rightarrow> None | Some skin \<Rightarrow>
        Some \<lparr>ti_uid = uid, ti_login = login, ti_display = (if display = [] then login else display),
          ti_expires = expires, ti_skin = (if is_hash skin then skin else [])\<rparr>)"

text \<open>\<open>now\<close> is the time in seconds; the positions of the first and the last dot.\<close>

definition checkTicket ::
  "'j ticket_env \<Rightarrow> int \<Rightarrow> bytes \<Rightarrow> bytes \<Rightarrow> bytes \<Rightarrow> TicketError + TicketIdentity" where
  "checkTicket te now ticket expect_login server_id =
     (if DOT \<notin> set ticket then Inl Malformed
      else
        let first_dot = length (takeWhile (\<lambda>c. c \<noteq> DOT) ticket);
            last_dot = length ticket - 1 - length (takeWhile (\<lambda>c. c \<noteq> DOT) (rev ticket)) in
        if first_dot = last_dot then Inl Malformed
        else if take first_dot ticket \<noteq> TICKET_PREFIX then Inl Malformed
        else
          let signed_part = take last_dot ticket;
              payload_raw = base64url_decode (take (last_dot - first_dot - 1) (drop (first_dot + 1) ticket));
              signature = base64url_decode (drop (last_dot + 1) ticket) in
          if payload_raw = [] \<or> signature = [] then Inl Malformed
          else if \<not> ed25519_verify te signed_part signature authPublicKey then Inl BadSignature
          else
            case j_parse te payload_raw of
              None \<Rightarrow> Inl Malformed
            | Some payload \<Rightarrow>
               (case ticket_identity te payload of
                  None \<Rightarrow> Inl Unconvertible
                | Some ident \<Rightarrow>
                    if ti_uid ident = [] \<or> ti_login ident = [] then Inl Malformed
                    else if ti_expires ident \<le> now then Inl Expired
                    else
                      case j_string te payload (lit ''srv'') [] of
                        None \<Rightarrow> Inl Unconvertible
                      | Some issued_for \<Rightarrow>
                          if issued_for = [] \<or> server_id = [] \<or> issued_for \<noteq> server_id then Inl WrongServer
                          else if ti_login ident \<noteq> expect_login then Inl NameMismatch
                          else Inr ident))"

text \<open>The answer of the account service: whether it came, its code and its text.\<close>

record HTTPFetchResult =
  succeeded :: bool
  response_code :: int
  http_data :: bytes

text \<open>
  The identity may be used, or the entry is refused for a reason; None is an exception of the JSON reader.
\<close>

definition readAccountServiceAnswer ::
  "'j ticket_env \<Rightarrow> HTTPFetchResult \<Rightarrow> TicketIdentity \<Rightarrow> (bytes + TicketIdentity) option" where
  "readAccountServiceAnswer te res ident =
     (if \<not> succeeded res then Some (Inl (lit ''service_unreachable''))
      else
        case j_parse te (http_data res) of
          None \<Rightarrow> Some (Inl (lit ''service_unreadable''))
        | Some answer \<Rightarrow>
            if response_code res \<noteq> 200
            then map_option Inl (j_string te answer (lit ''error'') (lit ''refused''))
            else
              case j_string te answer (lit ''login'') [] of None \<Rightarrow> None | Some login \<Rightarrow>
              case j_string te answer (lit ''display'') [] of None \<Rightarrow> None | Some display \<Rightarrow>
                if login \<noteq> [] \<and> login \<noteq> ti_login ident then Some (Inl (lit ''ticket_mismatch''))
                else Some (Inr (if display \<noteq> [] then ident\<lparr>ti_display := display\<rparr> else ident)))"

section \<open>Password verifiers\<close>

abbreviation HASH_SIGN :: u8 where "HASH_SIGN \<equiv> 35"

definition encode_srp_verifier :: "bytes \<Rightarrow> bytes \<Rightarrow> bytes" where
  "encode_srp_verifier verifier salt = lit ''#1#'' @ base64_encode salt @ [HASH_SIGN] @ base64_encode verifier"

text \<open>The verifier and the salt.\<close>

definition decode_srp_verifier_and_salt :: "bytes \<Rightarrow> (bytes \<times> bytes) option" where
  "decode_srp_verifier_and_salt enc =
     (let components = str_split enc HASH_SIGN in
      if length components \<noteq> 4 \<or> components ! 1 \<noteq> lit ''1'' \<or> \<not> base64_is_valid (components ! 2) \<or>
         \<not> base64_is_valid (components ! 3) then None
      else Some (base64_decode (components ! 3), base64_decode (components ! 2)))"

section \<open>What a ticket must be\<close>

lemma dots:
  assumes "DOT \<in> set t"
  shows "\<exists>a b. t = a @ DOT # b \<and> DOT \<notin> set a \<and> length (takeWhile (\<lambda>c. c \<noteq> DOT) t) = length a"
    and "\<exists>a b. t = a @ DOT # b \<and> DOT \<notin> set b \<and> length t - 1 - length (takeWhile (\<lambda>c. c \<noteq> DOT) (rev t)) = length a"
proof -
  obtain a b where ab: "t = a @ DOT # b" "DOT \<notin> set a" using split_list_first [OF assms] by blast
  show "\<exists>a b. t = a @ DOT # b \<and> DOT \<notin> set a \<and> length (takeWhile (\<lambda>c. c \<noteq> DOT) t) = length a"
    by (rule exI [of _ a], rule exI [of _ b]) (simp only: ab(1) up_to_sep(1) [OF ab(2)] ab(2) simp_thms)
  obtain c d where cd: "t = c @ DOT # d" "DOT \<notin> set d" using split_list_last [OF assms] by blast
  have rt: "rev t = rev d @ DOT # rev c" by (simp add: cd(1))
  have nd: "DOT \<notin> set (rev d)" using cd(2) by simp
  have "length (takeWhile (\<lambda>c. c \<noteq> DOT) (rev t)) = length d" unfolding rt up_to_sep(1) [OF nd] by simp
  moreover have "length t - 1 = length c + length d" by (simp add: cd(1))
  ultimately have "length t - 1 - length (takeWhile (\<lambda>c. c \<noteq> DOT) (rev t)) = length c" by simp
  with cd show "\<exists>a b. t = a @ DOT # b \<and> DOT \<notin> set b \<and> length t - 1 - length (takeWhile (\<lambda>c. c \<noteq> DOT) (rev t)) = length a"
    by blast
qed

text \<open>A dot is no character of base64.\<close>

lemma dot_undecodable: "DOT \<in> set s \<Longrightarrow> base64url_decode s = []"
proof -
  assume d: "DOT \<in> set s"
  define plain where "plain = map (\<lambda>c. if c = 45 then 43 else if c = 95 then 47 else c) s @
    replicate ((4 - length s mod 4) mod 4) (61::u8)"
  have in_plain: "DOT \<in> set plain" using d by (force simp: plain_def)
  have nb: "\<not> is_base64 DOT" by (simp add: is_base64_def)
  define i where "i = length (takeWhile is_base64 plain)"
  have "plain = takeWhile is_base64 plain @ drop i plain" by (simp add: i_def flip: dropWhile_eq_drop)
  moreover have "DOT \<notin> set (takeWhile is_base64 plain)" using nb by (auto dest: set_takeWhileD)
  ultimately have in_rest: "DOT \<in> set (drop i plain)" using in_plain by (metis Un_iff set_append)
  then have "length plain - i \<noteq> 0" by auto
  moreover have "\<not> list_all (\<lambda>c. c = 61) (drop i plain)" 
    using in_rest unfolding list_all_iff by (intro notI) (drule (1) bspec, simp)
  ultimately have "\<not> base64_is_valid plain" unfolding base64_is_valid_def Let_def i_def [symmetric] by simp
  then show ?thesis by (simp add: base64url_decode_def Let_def plain_def)
qed

definition good_ticket :: "'j ticket_env \<Rightarrow> int \<Rightarrow> bytes \<Rightarrow> bytes \<Rightarrow> bytes \<Rightarrow> TicketIdentity \<Rightarrow> bool" where
  "good_ticket te now ticket login server_id ident \<longleftrightarrow>
     (\<exists>p sig payload.
        ticket = TICKET_PREFIX @ DOT # p @ DOT # sig \<and> base64url_decode p \<noteq> [] \<and> base64url_decode sig \<noteq> [] \<and>
        ed25519_verify te (TICKET_PREFIX @ DOT # p) (base64url_decode sig) authPublicKey \<and>
        j_parse te (base64url_decode p) = Some payload \<and> ticket_identity te payload = Some ident \<and>
        ti_uid ident \<noteq> [] \<and> login \<noteq> [] \<and> ti_login ident = login \<and> now < ti_expires ident \<and>
        j_string te payload (lit ''srv'') [] = Some server_id \<and> server_id \<noteq> [])"

lemma prefix_nodot: "DOT \<notin> set TICKET_PREFIX"
  by (simp add: TICKET_PREFIX_def lit_def)

lemma ticket_positions:
  assumes "DOT \<notin> set p" and "DOT \<notin> set sig"
  defines "t \<equiv> TICKET_PREFIX @ DOT # p @ DOT # sig"
  shows "length (takeWhile (\<lambda>c. c \<noteq> DOT) t) = length TICKET_PREFIX"
    and "length t - 1 - length (takeWhile (\<lambda>c. c \<noteq> DOT) (rev t)) = length TICKET_PREFIX + 1 + length p"
proof -
  show "length (takeWhile (\<lambda>c. c \<noteq> DOT) t) = length TICKET_PREFIX"
    unfolding t_def by (simp add: up_to_sep(1) [OF prefix_nodot])
  have "rev t = rev sig @ DOT # (rev p @ DOT # rev TICKET_PREFIX)" by (simp add: t_def)
  then have "length (takeWhile (\<lambda>c. c \<noteq> DOT) (rev t)) = length sig"
    using up_to_sep(1) [of DOT "rev sig"] assms(2) by simp
  then show "length t - 1 - length (takeWhile (\<lambda>c. c \<noteq> DOT) (rev t)) = length TICKET_PREFIX + 1 + length p"
    by (simp add: t_def)
qed

lemma ticket_run: "checkTicket te now ticket login server_id = Inr ident \<longleftrightarrow> good_ticket te now ticket login server_id ident"
proof
  assume ok: "checkTicket te now ticket login server_id = Inr ident"
  have d: "DOT \<in> set ticket" using ok by (auto simp: checkTicket_def split: if_splits)
  obtain a b where ab: "ticket = a @ DOT # b" "length (takeWhile (\<lambda>c. c \<noteq> DOT) ticket) = length a"
    using dots(1) [OF d] by blast
  obtain c sig where cs: "ticket = c @ DOT # sig"
    "length ticket - 1 - length (takeWhile (\<lambda>c. c \<noteq> DOT) (rev ticket)) = length c"
    using dots(2) [OF d] by blast
  note ok = ok [unfolded checkTicket_def Let_def ab(2) cs(2)]
  have ne: "length a \<noteq> length c" and pre: "take (length a) ticket = TICKET_PREFIX"
    using ok by (auto split: if_splits)
  have a: "a = TICKET_PREFIX" using pre ab(1) by simp
  have "length a < length c"
  proof (rule ccontr)
    assume "\<not> length a < length c"
    then have "length c < length a" using ne by simp
    then have "a ! length c = DOT" using ab(1) cs(1) by (metis nth_append nth_append_length)
    then show False using prefix_nodot a \<open>length c < length a\<close> by (metis nth_mem)
  qed
  then obtain us where us: "c = a @ us" "DOT # b = us @ DOT # sig" "us \<noteq> []"
    using ab(1) cs(1) by (auto simp: append_eq_append_conv2)
  obtain p where p: "c = a @ DOT # p" using us by (cases us) auto
  have t: "ticket = TICKET_PREFIX @ DOT # p @ DOT # sig" by (simp add: cs(1) p a)
  have parts: "take (length c) ticket = TICKET_PREFIX @ DOT # p"
    "take (length c - length a - 1) (drop (length a + 1) ticket) = p" "drop (length c + 1) ticket = sig"
    by (simp_all add: t p a)
  note ok = ok [unfolded parts]
  have q: "base64url_decode p \<noteq> []" "base64url_decode sig \<noteq> []"
    "ed25519_verify te (TICKET_PREFIX @ DOT # p) (base64url_decode sig) authPublicKey"
    using ok by (auto split: if_splits)
  obtain payload where pl: "j_parse te (base64url_decode p) = Some payload"
    using ok by (auto split: if_splits option.splits)
  note ok = ok [unfolded pl option.case]
  obtain i where i: "ticket_identity te payload = Some i" using ok by (auto split: if_splits option.splits)
  note ok = ok [unfolded i option.case]
  have "i = ident" "ti_uid ident \<noteq> []" "ti_login ident \<noteq> []" "ti_login ident = login" "now < ti_expires ident"
    "j_string te payload (lit ''srv'') [] = Some server_id" "server_id \<noteq> []"
    using ok by (auto split: if_splits option.splits)
  with t q pl i show "good_ticket te now ticket login server_id ident" unfolding good_ticket_def by blast
next
  assume "good_ticket te now ticket login server_id ident"
  then obtain p sig payload where g: "ticket = TICKET_PREFIX @ DOT # p @ DOT # sig" "base64url_decode p \<noteq> []"
    "base64url_decode sig \<noteq> []" "ed25519_verify te (TICKET_PREFIX @ DOT # p) (base64url_decode sig) authPublicKey"
    "j_parse te (base64url_decode p) = Some payload" "ticket_identity te payload = Some ident" "ti_uid ident \<noteq> []" "login \<noteq> []"
    "ti_login ident = login" "now < ti_expires ident" "j_string te payload (lit ''srv'') [] = Some server_id" "server_id \<noteq> []"
    unfolding good_ticket_def by blast
  have nd: "DOT \<notin> set p" "DOT \<notin> set sig" using g(2,3) dot_undecodable by blast+
  note pos = ticket_positions [OF nd, folded g(1)]
  have "take (length TICKET_PREFIX) ticket = TICKET_PREFIX"
    "take (length TICKET_PREFIX + 1 + length p) ticket = TICKET_PREFIX @ DOT # p"
    "take (length TICKET_PREFIX + 1 + length p - length TICKET_PREFIX - 1) (drop (length TICKET_PREFIX + 1) ticket) = p"
    "drop (length TICKET_PREFIX + 1 + length p + 1) ticket = sig" "DOT \<in> set ticket"
    by (simp_all add: g(1))
  then show "checkTicket te now ticket login server_id = Inr ident"
    unfolding checkTicket_def Let_def pos using g(2-12) by simp
qed

text \<open>
  C38.  A ticket is accepted exactly if it is one: its parts are separated by two dots, the signature
  is of the service and covers all that stands before it, and it was written for this server, for this
  name, with a time that is not over.
\<close>

theorem ticket_accepted:
  "checkTicket te now ticket login server_id = Inr ident \<longleftrightarrow>
     (\<exists>p sig payload.
        ticket = TICKET_PREFIX @ DOT # p @ DOT # sig \<and> base64url_decode p \<noteq> [] \<and> base64url_decode sig \<noteq> [] \<and>
        ed25519_verify te (TICKET_PREFIX @ DOT # p) (base64url_decode sig) authPublicKey \<and>
        j_parse te (base64url_decode p) = Some payload \<and> ticket_identity te payload = Some ident \<and>
        ti_uid ident \<noteq> [] \<and> login \<noteq> [] \<and> ti_login ident = login \<and> now < ti_expires ident \<and>
        j_string te payload (lit ''srv'') [] = Some server_id \<and> server_id \<noteq> [])"
  unfolding ticket_run good_ticket_def by (rule refl)

section \<open>What was kept of a password\<close>

lemma encode_no_hash: "HASH_SIGN \<notin> set (base64_encode s)"
  using enc_chars [of s] by (auto simp: is_base64_def)

lemma encode_empty: "base64_encode s = [] \<longleftrightarrow> s = []"
  using decode_encode_groups [of s] by (cases "base64_encode s = []") auto

lemma encode_valid: "base64_is_valid (base64_encode s)" "base64_decode (base64_encode s) = s"
  using padded_valid [of "[]" s] padded_decode [of "[]" s] by simp_all

lemma str_split_token: "sep \<notin> set t \<Longrightarrow> str_split (t @ sep # r) sep = t # str_split r sep"
  by (subst str_split.simps) simp

lemma str_split_last: "sep \<notin> set t \<Longrightarrow> str_split t sep = (if t = [] then [] else [t])"
  by (subst str_split.simps) (simp add: str_split.simps [of "[]"])

text \<open>
  C39.  The verifier and the salt that were kept are read back, whatever bytes they are, except for an
  empty verifier: then the last of the four parts is missing, and nothing is read at all.
\<close>

theorem verifier_roundtrip:
  "decode_srp_verifier_and_salt (encode_srp_verifier verifier salt) =
     (if verifier = [] then None else Some (verifier, salt))"
proof -
  let ?v = "base64_encode verifier" and ?s = "base64_encode salt"
  have e: "encode_srp_verifier verifier salt = [] @ HASH_SIGN # [49] @ HASH_SIGN # ?s @ HASH_SIGN # ?v"
    by (simp add: encode_srp_verifier_def lit_def)
  have "str_split (encode_srp_verifier verifier salt) HASH_SIGN = [] # [49] # ?s # (if ?v = [] then [] else [?v])"
    unfolding e by (subst str_split_token, simp add: encode_no_hash)+ (simp add: str_split_last encode_no_hash)
  then show ?thesis by (simp add: decode_srp_verifier_and_salt_def encode_empty encode_valid lit_def)
qed

end
