(* ===== verification/Spec2Isabelle.thy ===== *)
theory Spec2Isabelle
  imports NetworkPacket InOrder SendInvariant SendQueue PeerLife
    CraftAction InventoryAccess ModWorld Ticket
begin

text \<open>
  A model of the core of the engine, with the theorems that make it correct.

  \<^bold>\<open>The program.\<close>  A voxel game engine of a server and clients.  They talk over UDP
  through a transport protocol of their own (MTP, \<open>src/network/mtp\<close>): each side has a
  table of peers, each peer three channels, each channel a buffer of reliable packets on
  either side, a store of split packets and a window of sequence numbers.  Two threads work
  on it, one that receives and one that sends, and the user of the connection hands it
  commands and takes events from it.  Above it game messages are packets with typed fields.
  The server owns the inventories: lists of item stacks with metadata, which it sends whole
  or as differences in a text form.  Clients ask for changes by inventory actions (move,
  drop, craft), which the server checks, lets the scripts limit, and carries out; crafting
  looks recipes up by hashes.  Players are known by tickets that an account service signs, or by
  verifiers of their passwords.  At start the server reads settings from configuration files,
  finds the mods of the game and the world, and puts them in an order that fits their
  dependencies.

  \<^bold>\<open>Transport: theories and sources.\<close>
  \<^item> \<open>Prelude\<close>: integer types, buffers of bytes, results that may be an exception.
  \<^item> \<open>Serialize\<close> (\<open>util/serialize\<close>, \<open>util/hex.h\<close>): integers, vectors and strings on the wire,
    with the locale of codecs whose encodings are read back.
  \<^item> \<open>NetworkPacket\<close> (\<open>network/networkpacket\<close>): the buffer of a game message; a message is
    read back field by field, and no read leaves the packet.
  \<^item> \<open>Address\<close> (\<open>network/address\<close>): addresses and their comparison.
  \<^item> \<open>Seqnum\<close>, \<open>Packets\<close>, \<open>SplitBuffer\<close>, \<open>ReliableBuffer\<close>, \<open>Channel\<close>, \<open>Peer\<close>
    (\<open>network/mtp/internal.h\<close>, \<open>impl.cpp\<close>): sequence numbers that wrap, headers and
    splitting, reassembly in any order, the sorted buffer as a map from sequence numbers,
    the adaption of the window, round trip times and timeouts.
  \<^item> \<open>Connection\<close> (\<open>impl.cpp\<close>): the peer table, commands and events.
  \<^item> \<open>ReceiveThread\<close>, \<open>ReceiveInvariant\<close>, \<open>InOrder\<close>, \<open>Drain\<close> (\<open>threads.cpp\<close>): from the
    datagram to the event; the invariant of the connection, the isolation of peers, delivery
    in order as a refinement of a counter and a set, and the end of every loop.
  \<^item> \<open>SendThread\<close>, \<open>SendInvariant\<close>, \<open>SendQueue\<close> (\<open>threads.cpp\<close>): a round of the send
    thread; it keeps the invariant, works off its commands and sends within the window.
  \<^item> \<open>PeerLife\<close>: the reference count of a peer object as a transition system of helpers, the
    table, and the destruction of the connection.

  \<^bold>\<open>Items and inventories: theories and sources.\<close>
  \<^item> \<open>Text\<close> (\<open>util/string.h\<close>, \<open>util/strfnd.h\<close>): tokens, decimal numbers, white space; an input
    stream is the bytes that are left and whether it is still good.
  \<^item> \<open>Metadata\<close> (\<open>metadata.cpp\<close>, \<open>itemstackmetadata.cpp\<close>), \<open>NameIdMapping\<close> (\<open>nameidmapping.cpp\<close>,
    \<open>content_mapnode.cpp\<close>): tables of strings, and of names and numbers, with their text and wire
    forms, which are read back.
  \<^item> \<open>ItemStack\<close> (\<open>itemdef.cpp\<close>, \<open>inventory.cpp\<close>): item definitions and aliases, stacks.
  \<^item> \<open>InventoryList\<close>, \<open>InventorySearch\<close>, \<open>InventoryText\<close>, \<open>Inventory\<close> (\<open>inventory.cpp\<close>): lists
    and their operations, which lose and make no items; what searching, removing and asking for
    room amount to; the text forms of lists and inventories with every way to read them wrong,
    and the transfer of an inventory whole or as a difference.
  \<^item> \<open>InventoryAction\<close>, \<open>InventoryMove\<close>, \<open>CraftAction\<close> (\<open>inventorymanager.cpp\<close>): locations and
    actions as text, moving and dropping with the callbacks of the scripts as parameters,
    crafting.  A list that a pointer is held to is a key into a store of lists, and the locks on
    them are counted.  \<open>MoveConserve\<close> relates the game before and after an action,
    \<open>ActionSafety\<close> reads off what that means for items, limits, locks and termination.
  \<^item> \<open>Matching\<close> (\<open>hopcroft_karp_can_match_all\<close> in \<open>craftdef.cpp\<close>): the matching of a shapeless recipe,
    against the existence of a system of distinct neighbours.
  \<^item> \<open>CraftDef\<close>, \<open>CraftMatch\<close>, \<open>CraftLookup\<close> (\<open>craftdef.cpp\<close>): every class of recipes and the
    manager; the declarative meaning of each check, the tables of hashes as an invariant, and
    the lookup by hash against looking at every recipe.  A recipe is a number into the store of
    recipes, as it is a pointer in the code.
  \<^item> \<open>ServerInventory\<close> (\<open>serverinventorymgr.cpp\<close>, parts of \<open>server.cpp\<close>, \<open>serverenvironment.cpp\<close>,
    \<open>clientpackethandler.cpp\<close>): the inventories of the server and what of the detached ones
    arrives at a client.
  \<^item> \<open>InventoryAccess\<close> (\<open>handleCommand_InventoryAction\<close> in \<open>serverpackethandler.cpp\<close>): which
    inventories an action that a client sends can change.  What a player may do and reach is an
    argument; variables that the code leaves uninitialised keep what was in them.

  \<^bold>\<open>Settings and mods: theories and sources.\<close>
  \<^item> \<open>Settings\<close>, \<open>SettingsUpdate\<close> (\<open>settings.cpp\<close>): the parser, the writer and the update of a
    file in place; what is written is read back, an updated file says what the settings say, and
    two files for which that fails are computed.
  \<^item> \<open>ModFiles\<close> (\<open>content/mods.cpp\<close>): what is read about mods and modpacks from a tree of
    directories, as a set ordered by names, and the list it is flattened into.
  \<^item> \<open>ModConfiguration\<close>, \<open>ModOrder\<close>, \<open>ModWorld\<close> (\<open>content/mod_configuration.cpp\<close>): levels of mods
    and their conflicts, the resolution of dependencies against the inductive set of what can be
    loaded at all, and the lines of a world that name mods.

  \<^bold>\<open>Players: theories and sources.\<close>
  \<^item> \<open>Base64\<close> (\<open>util/base64.cpp\<close>): checking, encoding and decoding, which gives back what was
    encoded, padded or not, and in the variant for URLs (\<open>server/ticket.cpp\<close>).
  \<^item> \<open>Ticket\<close> (\<open>server/ticket.cpp\<close>, \<open>util/ed25519.cpp\<close>, \<open>util/auth.cpp\<close>): which tickets of the account service
    are accepted, with TweetNaCl and the JSON reader as arguments; the answer of the service; the
    text that is kept of a password verifier.

  \<^bold>\<open>Conventions.\<close>  Integers keep the width of the code.  A function that may throw returns
  a sum, \<open>Inl\<close> the exception; a failed assertion is \<open>None\<close>.  State is passed and returned,
  a pointer into a table is the key it was found under.  The clock, the random ids of new
  peers, what the socket delivers and whether it takes a datagram are arguments of the
  definitions, and so are the callbacks of scripts, the paths that the operating system gives,
  and the order in which a hashed table is iterated over (\<open>ord\<close>, \<open>order\<close>, \<open>names\<close>) or \<open>std::sort\<close>
  leaves equal elements.  Floating point numbers (round trip times, rates, timers, cooking
  times) are real or rational numbers; nothing is claimed about rounding.  The C locale is
  taken for the tests on characters.

  \<^bold>\<open>Bounds.\<close>  Every loop is a total function, or has fuel with a proof that the fuel given is
  enough.  The measures of the transport are the packets in the buffers (\<open>Drain\<close>) and the
  commands in the queues (\<open>SendInvariant\<close>).  Readers of text have the length of what is left plus one
  as fuel, since every line takes at least one character or ends the stream; the matching
  has one round per node plus one, as every round but the last matches one more; the loop of
  a craft action has 65537 rounds, as its counter has 16 bits.  The loops over the slots of the
  crafting grid, which count in 16 bits against a size of 32, may not end: they are partial
  functions into options.  Of a peer there are at most as many helpers as its counter can tell
  (\<open>PeerLife\<close>).  Lists are assumed to be
  shorter than the range of their \<open>u32\<close> lengths.

  \<^bold>\<open>Not modelled.\<close>  Rendering, sound, the user interface, the script bindings, databases,
  sockets and threads themselves: they call into libraries or the operating system.  Collision,
  path costs, noise and map generation are floating point or table driven code about which
  nothing is claimed.  The exchange of SRP messages rests on a library of big numbers; the states of a
  client and the handlers of the handshake are not modelled.  Nodes, map blocks,
  lighting, active objects, chat, bans and rollback have not
  been reached.  A round of a thread is one step; the interleaving within a round, guarded by the mutexes of
  the code, is left out except in \<open>PeerLife\<close>.  Within a round of the send thread the clock
  stands still.  The transition system of both threads is that of a server, which gets its
  peers from datagrams; \<open>Connect\<close> is modelled as an operation only.  Of inventories the
  descriptions and images shown to a user are left out, and so are tool capabilities and wear
  bars, which are floating point tables read from JSON; the record of who changed what
  (\<open>RollbackScopeActor\<close>) is not kept.  Of the settings the layers, callbacks and typed getters are
  left out, of the mods their storage and the wording of messages, and a file system whose
  directories form cycles through links.
\<close>

end
